(* ===== verification/Prelude.thy ===== *)
theory Prelude
  imports
    Complex_Main
    "HOL-Library.AList"
    "HOL-Library.Char_ord"
    "HOL-Library.List_Lexorder"
    "HOL-Library.Product_Lexorder"
    "HOL-Library.Multiset"
    "HOL-Library.Word"
    "HOL-Library.Signed_Division"
begin

text \<open>
  What every component of the pool shares: Go maps, the order in which a Go map is
  iterated, byte strings and the functions of package \<open>strings\<close> the code calls,
  and 64-bit signed arithmetic.

  A Go map is an association list with distinct keys (\<open>gm_wf\<close>). Reading is
  \<open>map_of\<close>, writing \<open>AList.update\<close>, \<open>delete(m, k)\<close> is \<open>AList.delete\<close> and \<open>len(m)\<close>
  is \<open>length\<close>. The order of the list has no meaning for the program: a \<open>range\<close> loop
  over a map visits the entries in an order the language leaves open, and every such
  loop of the model takes that order as an argument \<open>ord\<close>, a function that permutes
  the entries (\<open>iteration_order\<close>).

  A Go string is a byte string, here \<open>string\<close> (a list of 8-bit characters) with the
  lexicographic order of the bytes, which is Go's \<open><\<close> on strings and the BINARY
  collation of the database.
\<close>

section \<open>Collections of facts\<close>

named_theorems gomap_simps "reading a Go map after a write"
named_theorems frame_simps "what an operation leaves alone"

section \<open>Go maps\<close>

type_synonym ('k, 'v) gomap = "('k \<times> 'v) list"

abbreviation gm_get :: "('k, 'v) gomap \<Rightarrow> 'k \<Rightarrow> 'v option" where
  "gm_get m k \<equiv> map_of m k"

abbreviation gm_put :: "'k \<Rightarrow> 'v \<Rightarrow> ('k, 'v) gomap \<Rightarrow> ('k, 'v) gomap" where
  "gm_put k v m \<equiv> AList.update k v m"

abbreviation gm_del :: "'k \<Rightarrow> ('k, 'v) gomap \<Rightarrow> ('k, 'v) gomap" where
  "gm_del k m \<equiv> AList.delete k m"

definition gm_wf :: "('k, 'v) gomap \<Rightarrow> bool" where
  "gm_wf m \<longleftrightarrow> distinct (map fst m)"

text \<open>\<open>m[k]\<close> for a key that may be missing: the zero value of the type.\<close>

definition gm_default :: "'v \<Rightarrow> ('k, 'v) gomap \<Rightarrow> 'k \<Rightarrow> 'v" where
  "gm_default z m k = (case gm_get m k of None \<Rightarrow> z | Some v \<Rightarrow> v)"

definition iteration_order :: "('a list \<Rightarrow> 'a list) \<Rightarrow> bool" where
  "iteration_order ord \<longleftrightarrow> (\<forall>xs. mset (ord xs) = mset xs)"

section \<open>Package strings\<close>

text \<open>
  The UTF-8 encodings of the code points of \<open>unicode.IsSpace\<close>, which \<open>strings.TrimSpace\<close>
  cuts at both ends.
\<close>

definition go_spaces :: "string list" where
  "go_spaces =
    [[CHR 0x20], [CHR 0x09], [CHR 0x0A], [CHR 0x0B], [CHR 0x0C], [CHR 0x0D],
     [CHR 0xC2, CHR 0x85], [CHR 0xC2, CHR 0xA0], [CHR 0xE1, CHR 0x9A, CHR 0x80],
     [CHR 0xE2, CHR 0x80, CHR 0x80], [CHR 0xE2, CHR 0x80, CHR 0x81],
     [CHR 0xE2, CHR 0x80, CHR 0x82], [CHR 0xE2, CHR 0x80, CHR 0x83],
     [CHR 0xE2, CHR 0x80, CHR 0x84], [CHR 0xE2, CHR 0x80, CHR 0x85],
     [CHR 0xE2, CHR 0x80, CHR 0x86], [CHR 0xE2, CHR 0x80, CHR 0x87],
     [CHR 0xE2, CHR 0x80, CHR 0x88], [CHR 0xE2, CHR 0x80, CHR 0x89],
     [CHR 0xE2, CHR 0x80, CHR 0x8A], [CHR 0xE2, CHR 0x80, CHR 0xA8],
     [CHR 0xE2, CHR 0x80, CHR 0xA9], [CHR 0xE2, CHR 0x80, CHR 0xAF],
     [CHR 0xE2, CHR 0x81, CHR 0x9F], [CHR 0xE3, CHR 0x80, CHR 0x80]]"

definition leading :: "string list \<Rightarrow> string \<Rightarrow> string option" where
  "leading ws s = find (\<lambda>w. w \<noteq> [] \<and> take (length w) s = w) ws"

lemma leading_Some: "leading ws s = Some w \<Longrightarrow> w \<noteq> [] \<and> take (length w) s = w"
  by (auto simp: leading_def find_Some_iff)

function trim_with :: "string list \<Rightarrow> string \<Rightarrow> string" where
  "trim_with ws s = (case leading ws s of None \<Rightarrow> s | Some w \<Rightarrow> trim_with ws (drop (length w) s))"
  by pat_completeness auto
termination
proof (relation "measure (\<lambda>(ws, s). length s)", goal_cases)
  case 1
  then show ?case by simp
next
  case (2 ws s w)
  then have "w \<noteq> []" and "take (length w) s = w" by (auto dest: leading_Some)
  then have "s \<noteq> []" by auto
  with \<open>w \<noteq> []\<close> show ?case by simp
qed

declare trim_with.simps [simp del]

lemma trim_with_code [code]:
  "trim_with ws [] = []"
  "trim_with ws (c # cs) =
     (case leading ws (c # cs) of None \<Rightarrow> c # cs | Some w \<Rightarrow> trim_with ws (drop (length w) (c # cs)))"
proof -
  have "leading ws [] = None" using leading_Some [of ws "[]"] by (cases "leading ws []") auto
  then show "trim_with ws [] = []" by (simp add: trim_with.simps)
qed (simp add: trim_with.simps [of ws "c # cs"])

definition trim_space :: "string \<Rightarrow> string" where
  "trim_space s = rev (trim_with (map rev go_spaces) (rev (trim_with go_spaces s)))"

text \<open>
  \<open>strings.ToLower\<close> on the ASCII letters. The code compares its results with ASCII
  constants only; letters outside ASCII are left as they are here.
\<close>

definition lower_char :: "char \<Rightarrow> char" where
  "lower_char c =
     (if CHR ''A'' \<le> c \<and> c \<le> CHR ''Z'' then char_of ((of_char c :: nat) + 32) else c)"

definition to_lower :: "string \<Rightarrow> string" where
  "to_lower s = map lower_char s"

definition has_prefix :: "string \<Rightarrow> string \<Rightarrow> bool" where
  "has_prefix s p \<longleftrightarrow> take (length p) s = p"

definition has_suffix :: "string \<Rightarrow> string \<Rightarrow> bool" where
  "has_suffix s p \<longleftrightarrow> length p \<le> length s \<and> drop (length s - length p) s = p"

text \<open>\<open>strings.TrimRight\<close> with one character, and the hexadecimal form of a byte.\<close>

definition trim_right :: "char \<Rightarrow> string \<Rightarrow> string" where
  "trim_right c s = rev (dropWhile ((=) c) (rev s))"

definition hex_byte :: "nat \<Rightarrow> string" where
  "hex_byte b = [''0123456789abcdef'' ! (b div 16 mod 16), ''0123456789abcdef'' ! (b mod 16)]"

text \<open>\<open>%d\<close>: the decimal digits of an integer.\<close>

fun nat_digits :: "nat \<Rightarrow> string" where
  "nat_digits n = (if n < 10 then [char_of (48 + n)] else nat_digits (n div 10) @ [char_of (48 + n mod 10)])"

declare nat_digits.simps [simp del]

definition show_int :: "int \<Rightarrow> string" where
  "show_int n = (if n < 0 then CHR ''-'' # nat_digits (nat (- n)) else nat_digits (nat n))"

text \<open>
  The normalisation of an id list that the batch operations share: trim, drop the empty
  ids, keep the first of equal ids.
\<close>

fun clean_ids :: "string list \<Rightarrow> string list \<Rightarrow> string list" where
  "clean_ids seen [] = []"
| "clean_ids seen (raw # raws) =
     (let i = trim_space raw in
      if i = [] \<or> i \<in> set seen then clean_ids seen raws
      else i # clean_ids (i # seen) raws)"

section \<open>Signed machine arithmetic\<close>

text \<open>The idiom \<open>if now <= 0 { now = time.Now().Unix() }\<close>; \<open>clock\<close> is the reading.\<close>

definition now_or :: "int \<Rightarrow> int \<Rightarrow> int" where
  "now_or clock now = (if now \<le> 0 then clock else now)"

definition wrap32 :: "int \<Rightarrow> int" where
  "wrap32 x = (x + 2 ^ 31) mod 2 ^ 32 - 2 ^ 31"

definition wrap64 :: "int \<Rightarrow> int" where
  "wrap64 x = (x + 2 ^ 63) mod 2 ^ 64 - 2 ^ 63"

text \<open>\<open>x << n\<close> on an int64; a shift of 64 or more gives 0, as the language defines.\<close>

definition shl64 :: "int \<Rightarrow> nat \<Rightarrow> int" where
  "shl64 x n = wrap64 (x * 2 ^ n)"

section \<open>Facts about Go maps\<close>

lemma gm_get_put [simp, gomap_simps]: "map_of (AList.update k v m) = (map_of m)(k \<mapsto> v)"
  by (rule update_conv')

lemma gm_get_del [simp, gomap_simps]: "map_of (AList.delete k m) = (map_of m)(k := None)"
  by (rule delete_conv')

lemma gm_wf_Nil [simp]: "gm_wf []"
  by (simp add: gm_wf_def)

lemma gm_wf_put [simp, intro]: "gm_wf m \<Longrightarrow> gm_wf (AList.update k v m)"
  by (simp add: gm_wf_def distinct_update)

lemma gm_wf_del [simp, intro]: "gm_wf m \<Longrightarrow> gm_wf (AList.delete k m)"
  by (simp add: gm_wf_def distinct_delete)

lemma gm_put_keys: "fst ` set (AList.update k v m) = insert k (fst ` set m)"
  by (induction m) auto

lemma gm_del_keys: "fst ` set (AList.delete k m) = fst ` set m - {k}"
  by (induction m) auto

lemma gm_keys_dom: "fst ` set m = dom (map_of m)"
  by (simp add: dom_map_of_conv_image_fst)

lemma gm_len: "gm_wf m \<Longrightarrow> length m = card (dom (map_of m))"
  by (metis dom_map_of_conv_image_fst distinct_card gm_wf_def length_map list.set_map)

lemma gm_len_put: "length (AList.update k v m) = (if k \<in> fst ` set m then length m else Suc (length m))"
  by (induction m) auto

lemma gm_in_iff: "gm_wf m \<Longrightarrow> (k, v) \<in> set m \<longleftrightarrow> map_of m k = Some v"
  by (simp add: gm_wf_def)

lemma gm_values_iff: "gm_wf m \<Longrightarrow> v \<in> snd ` set m \<longleftrightarrow> (\<exists>k. map_of m k = Some v)"
  by (force simp: gm_in_iff [symmetric])

lemma gm_wf_map_snd [simp]: "gm_wf (map (\<lambda>(k, v). (k, f k v)) m) = gm_wf m"
  by (simp add: gm_wf_def comp_def split_def)

lemma gm_default_simps [simp]:
  "gm_default z [] k = z"
  "gm_default z (AList.update k' v m) k = (if k = k' then v else gm_default z m k)"
  "gm_default z (AList.delete k' m) k = (if k = k' then z else gm_default z m k)"
  by (auto simp: gm_default_def)

section \<open>Facts about iteration orders\<close>

lemma iteration_order_id [simp]: "iteration_order (\<lambda>xs. xs)"
  by (simp add: iteration_order_def)

lemma iteration_order_rev [simp]: "iteration_order rev"
  by (simp add: iteration_order_def)

lemma iteration_order_mset: "iteration_order ord \<Longrightarrow> mset (ord xs) = mset xs"
  by (simp add: iteration_order_def)

lemma iteration_order_set [simp]: "iteration_order ord \<Longrightarrow> set (ord xs) = set xs"
  by (metis iteration_order_def set_mset_mset)

lemma iteration_order_length [simp]: "iteration_order ord \<Longrightarrow> length (ord xs) = length xs"
  by (metis iteration_order_def size_mset)

lemma iteration_order_distinct_map:
  "iteration_order ord \<Longrightarrow> distinct (map f (ord xs)) = distinct (map f xs)"
  by (metis iteration_order_def mset_map mset_eq_imp_distinct_iff)

section \<open>Facts about strings and 64-bit numbers\<close>

lemma clean_ids_fresh: "set (clean_ids seen raws) \<inter> set seen = {}"
  by (induction seen raws rule: clean_ids.induct) (auto simp: Let_def)

lemma clean_ids_distinct: "distinct (clean_ids seen raws)"
proof (induction seen raws rule: clean_ids.induct)
  case (2 seen raw raws)
  then show ?case using clean_ids_fresh [of "trim_space raw # seen" raws]
    by (auto simp: Let_def)
qed simp

lemma clean_ids_nonempty: "[] \<notin> set (clean_ids seen raws)"
  by (induction seen raws rule: clean_ids.induct) (auto simp: Let_def)

lemma shl64_small: "0 \<le> x \<Longrightarrow> x * 2 ^ n < 2 ^ 63 \<Longrightarrow> shl64 x n = x * 2 ^ n"
  by (simp add: shl64_def wrap64_def)

lemma wrap32_small [simp]: "- (2 ^ 31) \<le> x \<Longrightarrow> x < 2 ^ 31 \<Longrightarrow> wrap32 x = x"
  by (simp add: wrap32_def)

lemma wrap64_small [simp]: "- (2 ^ 63) \<le> x \<Longrightarrow> x < 2 ^ 63 \<Longrightarrow> wrap64 x = x"
  by (simp add: wrap64_def)

lemma wrap64_range: "- (2 ^ 63) \<le> wrap64 x \<and> wrap64 x < 2 ^ 63"
  by (simp add: wrap64_def)

lemma trim_with_none: "leading ws s = None \<Longrightarrow> trim_with ws s = s"
  by (subst trim_with.simps) simp

lemma trim_with_leading: "leading ws (trim_with ws s) = None"
proof (induction ws s rule: trim_with.induct)
  case (1 ws s)
  then show ?case
    by (cases "leading ws s") (simp_all add: trim_with.simps [of ws s])
qed

lemma trim_with_suffix: "\<exists>p. s = p @ trim_with ws s"
proof (induction ws s rule: trim_with.induct)
  case (1 ws s)
  show ?case
  proof (cases "leading ws s")
    case None
    then show ?thesis by (simp add: trim_with.simps [of ws s])
  next
    case (Some w)
    with 1 obtain p where "drop (length w) s = p @ trim_with ws (drop (length w) s)" by auto
    with Some show ?thesis
      by (metis append_assoc append_take_drop_id option.simps(5) trim_with.simps)
  qed
qed

lemma leading_append: "leading ws (s @ t) = None \<Longrightarrow> leading ws s = None"
  unfolding leading_def find_None_iff by (metis append_take_drop_id length_take min.absorb2
      nat_le_linear take_all take_append append_Nil2 diff_is_0_eq' take_0)

lemma trim_space_idem: "trim_space (trim_space s) = trim_space s"
proof -
  let ?R = "map rev go_spaces"
  define l where "l = trim_with go_spaces s"
  define r where "r = trim_with ?R (rev l)"
  have l: "leading go_spaces l = None" by (simp add: l_def trim_with_leading)
  obtain p where "rev l = p @ r" using trim_with_suffix unfolding r_def by blast
  then have "l = rev r @ rev p" by (metis rev_append rev_rev_ident)
  with l have "leading go_spaces (rev r) = None" by (simp add: leading_append)
  moreover have "leading ?R r = None" by (simp add: r_def trim_with_leading)
  ultimately show ?thesis
    by (simp add: trim_space_def flip: l_def r_def) (simp add: trim_with_none)
qed

lemma leading_hd:
  assumes "\<And>w. w \<in> set ws \<Longrightarrow> w \<noteq> [] \<Longrightarrow> s \<noteq> [] \<Longrightarrow> hd w \<noteq> hd s"
  shows "leading ws s = None"
proof (rule ccontr)
  assume "leading ws s \<noteq> None"
  then obtain w where f: "leading ws s = Some w" by auto
  note w = leading_Some [OF f]
  have "w \<in> set ws" using f by (induction ws) (auto simp: leading_def split: if_splits)
  moreover obtain c v d u where "w = c # v" "s = d # u" using w by (cases w; cases s) auto
  ultimately show False using assms [of w] w by simp
qed

text \<open>The printing ASCII characters; no white space begins or ends with one.\<close>

definition visible_char :: "char \<Rightarrow> bool" where
  "visible_char c \<longleftrightarrow> CHR ''!'' \<le> c \<and> c \<le> CHR ''~''"

lemma go_spaces_invisible:
  "list_all (\<lambda>w. w \<noteq> [] \<and> \<not> visible_char (hd w) \<and> \<not> visible_char (last w)) go_spaces"
  by code_simp

lemma trim_space_visible:
  assumes "s \<noteq> []" "set s \<subseteq> Collect visible_char"
  shows "trim_space s = s"
proof -
  have "visible_char (hd s)" "visible_char (hd (rev s))"
    using assms hd_in_set [of s] last_in_set [of s] unfolding hd_rev by blast+
  moreover have sp: "\<not> visible_char (hd w)" "\<not> visible_char (hd (rev w))" if "w \<in> set go_spaces" for w
    using that go_spaces_invisible by (auto simp: list_all_iff hd_rev)
  ultimately have "leading go_spaces s = None" "leading (map rev go_spaces) (rev s) = None"
    by (intro leading_hd; auto dest: sp)+
  then show ?thesis by (simp add: trim_space_def trim_with_none)
qed

lemma hex_byte_visible: "set (hex_byte b) \<subseteq> Collect visible_char"
proof -
  have "list_all visible_char ''0123456789abcdef''" by code_simp
  then have "visible_char (''0123456789abcdef'' ! k)" if "k < length ''0123456789abcdef''" for k
    using that unfolding list_all_length by blast
  then have "visible_char (''0123456789abcdef'' ! (k mod 16))" for k by simp
  then show ?thesis unfolding hex_byte_def by (metis empty_subsetI insert_subset list.simps(15) mem_Collect_eq list.set(1))
qed

section \<open>Decimal numbers\<close>

text \<open>\<open>strconv.Atoi\<close>: an optional sign and decimal digits within 64 bits.\<close>

fun digits_value :: "int \<Rightarrow> string \<Rightarrow> int option" where
  "digits_value acc [] = Some acc"
| "digits_value acc (c # cs) =
     (if CHR ''0'' \<le> c \<and> c \<le> CHR ''9'' then digits_value (acc * 10 + (of_char c - 48)) cs else None)"

definition atoi :: "string \<Rightarrow> int option" where
  "atoi s =
     (let neg = (s \<noteq> [] \<and> hd s = CHR ''-''); ds = (if s \<noteq> [] \<and> hd s \<in> set ''+-'' then tl s else s) in
      if ds = [] then None
      else case digits_value 0 ds of
        None \<Rightarrow> None
      | Some n \<Rightarrow> let v = (if neg then - n else n) in if - (2 ^ 63) \<le> v \<and> v < 2 ^ 63 then Some v else None)"

lemma digits_value_append: "digits_value acc (s @ t) = (case digits_value acc s of None \<Rightarrow> None | Some n \<Rightarrow> digits_value n t)"
  by (induction acc s rule: digits_value.induct) auto

lemma digit_char:
  assumes "d < (10 :: nat)"
  shows "CHR ''0'' \<le> (char_of (48 + d) :: char) \<and> (char_of (48 + d) :: char) \<le> CHR ''9'' \<and>
    of_char (char_of (48 + d) :: char) = int (48 + d)"
proof -
  have n: "of_char (char_of (48 + d) :: char) = (48 + d)" using assms by simp
  have "of_char (char_of (48 + d) :: char) = int (of_char (char_of (48 + d) :: char))"
    by (simp only: of_nat_of_char)
  then have "of_char (char_of (48 + d) :: char) = int (48 + d)" by (simp only: n)
  then show ?thesis using assms by (simp add: less_eq_char_def)
qed

lemma digits_value_nat: "digits_value acc (nat_digits n) = Some (acc * 10 ^ length (nat_digits n) + int n)"
proof (induction n arbitrary: acc rule: nat_digits.induct)
  case (1 n)
  show ?case
  proof (cases "n < 10")
    case True
    then show ?thesis using digit_char [OF True] by (simp add: nat_digits.simps [of n])
  next
    case False
    have "n mod 10 < 10" by simp
    note d = digit_char [OF this]
    have "int n = int (n div 10) * 10 + int (n mod 10)" by presburger
    then show ?thesis using 1 [OF False] d False
      by (simp add: nat_digits.simps [of n] digits_value_append algebra_simps)
  qed
qed

lemma nat_digits_nonempty [simp]: "nat_digits n \<noteq> []"
  by (subst nat_digits.simps) simp

lemma nat_digits_range: "set (nat_digits n) \<subseteq> {CHR ''0''..CHR ''9''}"
proof (induction n rule: nat_digits.induct)
  case (1 n)
  have "n mod 10 < 10" by simp
  then show ?case using 1 digit_char [of n] digit_char [of "n mod 10"] by (subst nat_digits.simps) auto
qed

lemma digits_visible: "{CHR ''0''..CHR ''9''} \<subseteq> Collect visible_char"
  by (auto simp: visible_char_def less_eq_char_def)

lemma trim_space_show_int: "trim_space (show_int n) = show_int n"
proof (rule trim_space_visible)
  show "set (show_int n) \<subseteq> Collect visible_char"
    using order_trans [OF nat_digits_range digits_visible] by (simp add: show_int_def visible_char_def)
qed (simp add: show_int_def)

lemma atoi_show_int:
  assumes "- (2 ^ 63) \<le> n" "n < 2 ^ 63"
  shows "atoi (show_int n) = Some n"
proof -
  have d: "nat_digits k \<noteq> [] \<and> hd (nat_digits k) \<notin> set ''+-''" for k
    using subsetD [OF nat_digits_range hd_in_set [OF nat_digits_nonempty, of k]] by (auto simp: less_eq_char_def)
  then show ?thesis using assms by (auto simp: atoi_def show_int_def digits_value_nat Let_def)
qed

end
