(* ===== verification/Contracts.thy ===== *)
theory Contracts
  imports Prelude
begin

text \<open>
  The interfaces several components share, as locales over abstract states. Each is
  interpreted on the operations of the components that provide it.

  \<open>inflight_gate\<close> is what a holder of concurrency slots relies on: an attempt to enter (with
  any argument) gives a ticket and counts one more under the key of the ticket, or is refused
  and changes no count; giving a ticket back (with any outcome) counts one less under its key;
  and no operation touches the count of another key. \<open>ready\<close> is what the states of the
  component keep between two operations. The counters are machine integers, so the laws hold
  while the counts are not negative and below \<open>limit\<close>.
\<close>

datatype ('a, 'b) gate_event = Enter 'a | Leave nat 'b

locale inflight_gate =
  fixes ready :: "'s \<Rightarrow> bool"
    and count :: "'s \<Rightarrow> 'k \<Rightarrow> int"
    and key_of :: "'t \<Rightarrow> 'k"
    and valid :: "'t \<Rightarrow> bool"
    and enter :: "'a \<Rightarrow> 's \<Rightarrow> 't option \<times> 's"
    and leave :: "'b \<Rightarrow> 't \<Rightarrow> 's \<Rightarrow> 's"
    and limit :: int
  assumes enter_ok: "ready s \<Longrightarrow> enter a s = (Some t, s') \<Longrightarrow> (\<And>j. 0 \<le> count s j \<and> count s j < limit) \<Longrightarrow>
      ready s' \<and> valid t \<and> count s' = (count s)(key_of t := count s (key_of t) + 1)"
    and enter_refused: "ready s \<Longrightarrow> enter a s = (None, s') \<Longrightarrow> (\<And>j. 0 \<le> count s j \<and> count s j < limit) \<Longrightarrow>
      ready s' \<and> count s' = count s"
    and leave_ok: "ready s \<Longrightarrow> valid t \<Longrightarrow> 0 < count s (key_of t) \<Longrightarrow> count s (key_of t) < limit \<Longrightarrow>
      ready (leave b t s) \<and> count (leave b t s) = (count s)(key_of t := count s (key_of t) - 1)"
begin

text \<open>
  A run of events. The tickets that are out are a list; an event \<open>Leave n\<close> gives back the
  ticket at that position, and is void when there is none.
\<close>

fun run :: "('a, 'b) gate_event list \<Rightarrow> 't list \<Rightarrow> 's \<Rightarrow> 't list \<times> 's" where
  "run [] out s = (out, s)"
| "run (Enter a # es) out s =
     (case enter a s of
        (Some t, s') \<Rightarrow> run es (t # out) s'
      | (None, s') \<Rightarrow> run es out s')"
| "run (Leave n b # es) out s =
     (if n < length out
      then run es (take n out @ drop (Suc n) out) (leave b (out ! n) s)
      else run es out s)"

text \<open>The number of tickets that are out for a key.\<close>

definition held :: "'t list \<Rightarrow> 'k \<Rightarrow> int" where
  "held out k = int (count_list (map key_of out) k)"

lemma held_simps [simp]:
  "held [] k = 0" "held (t # out) k = (if key_of t = k then held out k + 1 else held out k)"
  "held (out @ out') k = held out k + held out' k"
  by (simp_all add: held_def)

lemma held_nonneg [simp]: "0 \<le> held out k" by (simp add: held_def)

lemma held_take_drop:
  assumes "n < length out"
  shows "held out k = held (take n out @ drop (Suc n) out) k + (if key_of (out ! n) = k then 1 else 0)"
proof -
  have "held out k = held (take n out @ out ! n # drop (Suc n) out) k"
    using assms by (simp only: id_take_nth_drop [symmetric])
  then show ?thesis by simp
qed

text \<open>Giving back a ticket that is out, given that the counts cover the tickets that are out.\<close>

lemma leave_step:
  assumes "ready s" "list_all valid out" "\<And>j. held out j \<le> count s j" "count s (key_of (out ! n)) < limit"
    "n < length out"
  shows "ready (leave b (out ! n) s)"
    "count (leave b (out ! n) s) = (count s)(key_of (out ! n) := count s (key_of (out ! n)) - 1)"
    "list_all valid (take n out @ drop (Suc n) out)"
    "held (take n out @ drop (Suc n) out) j \<le> count (leave b (out ! n) s) j"
    "count (leave b (out ! n) s) j - held (take n out @ drop (Suc n) out) j = count s j - held out j"
proof -
  let ?t = "out ! n" and ?o = "take n out @ drop (Suc n) out"
  note h = held_take_drop [OF assms(5)]
  have same: "held out (key_of ?t) = held ?o (key_of ?t) + 1"
    using h [of "key_of ?t"] by (simp only: if_True simp_thms)
  have other: "held out j = held ?o j" if "key_of ?t \<noteq> j" for j using h [of j] that by simp
  have "0 < count s (key_of ?t)"
    using assms(3) [of "key_of ?t"] same held_nonneg [of ?o "key_of ?t"] by linarith
  with leave_ok [OF assms(1) _ this assms(4), of b] assms(2,5)
  show l: "ready (leave b ?t s)" "count (leave b ?t s) = (count s)(key_of ?t := count s (key_of ?t) - 1)"
    by (simp_all add: list_all_length)
  show "list_all valid ?o" using assms(2) by (auto simp: list_all_iff dest: in_set_takeD in_set_dropD)
  have c: "count (leave b ?t s) j - held ?o j = count s j - held out j" for j
  proof (cases "key_of ?t = j")
    case True
    then have "count (leave b ?t s) j = count s j - 1" "held out j = held ?o j + 1" using l(2) same by simp_all
    then show ?thesis by linarith
  next
    case False
    then have "count (leave b ?t s) j = count s j" "held out j = held ?o j" using l(2) other by simp_all
    then show ?thesis by linarith
  qed
  then show "count (leave b ?t s) j - held ?o j = count s j - held out j" .
  show "held ?o j \<le> count (leave b ?t s) j" using c [of j] assms(3) [of j] by linarith
qed

lemma run_tracks:
  assumes "ready s" "list_all valid out" "\<And>j. held out j \<le> count s j" "\<And>j. count s j + int (length es) < limit"
  shows "ready (snd (run es out s)) \<and> list_all valid (fst (run es out s)) \<and>
    count (snd (run es out s)) j - held (fst (run es out s)) j = count s j - held out j"
  using assms
proof (induction es out s rule: run.induct)
  case (1 out s)
  then show ?case by simp
next
  case (2 a es out s)
  note rdy = 2(3) and val = 2(4) and cnt = 2(5) and lim = 2(6)
  have bnd: "0 \<le> count s j \<and> count s j < limit" for j
    using cnt [of j] lim [of j] held_nonneg [of out j] by linarith
  obtain r s' where e: "enter a s = (r, s')" by fastforce
  show ?case
  proof (cases r)
    case None
    note ref = enter_refused [OF rdy e [unfolded None] bnd]
    have "count s' j + int (length es) < limit" for j using lim [of j] ref by simp
    with ref show ?thesis using 2(1) [OF e [symmetric] None] val cnt e None by simp
  next
    case (Some t)
    note ok = enter_ok [OF rdy e [unfolded Some] bnd]
    have "held (t # out) j \<le> count s' j" "count s' j + int (length es) < limit"
      "count s' j - held (t # out) j = count s j - held out j" for j
      using ok cnt [of j] lim [of j] by auto
    then show ?thesis using 2(2) [OF e [symmetric] Some] ok val e Some by simp
  qed
next
  case (3 n b es out s)
  note rdy = 3(3) and val = 3(4) and cnt = 3(5) and lim = 3(6)
  show ?case
  proof (cases "n < length out")
    case True
    have "count s (key_of (out ! n)) < limit" using lim [of "key_of (out ! n)"] by simp
    note l = leave_step [OF rdy val cnt this True]
    have "count (leave b (out ! n) s) j + int (length es) < limit" for j using l(2) lim [of j] by auto
    then show ?thesis using 3(1) [OF True l(1,3,4)] l(5) True by simp
  next
    case False
    have "count s j + int (length es) < limit" for j using lim [of j] by simp
    then show ?thesis using 3(2) [OF False rdy val cnt] False by simp
  qed
qed

end

text \<open>A gate with a cap: what is granted leaves the count of its key within the cap.\<close>

locale capped_gate = inflight_gate ready count key_of valid enter leave limit
  for ready :: "'s \<Rightarrow> bool" and count :: "'s \<Rightarrow> 'k \<Rightarrow> int" and key_of :: "'t \<Rightarrow> 'k" and valid :: "'t \<Rightarrow> bool"
    and enter :: "'a \<Rightarrow> 's \<Rightarrow> 't option \<times> 's" and leave :: "'b \<Rightarrow> 't \<Rightarrow> 's \<Rightarrow> 's" and limit :: int +
  fixes cap :: "'k \<Rightarrow> int"
  assumes enter_capped: "ready s \<Longrightarrow> enter a s = (Some t, s') \<Longrightarrow> (\<And>j. 0 \<le> count s j \<and> count s j < limit) \<Longrightarrow>
    count s' (key_of t) \<le> cap (key_of t)"
begin

lemma run_capped:
  assumes "ready s" "list_all valid out" "\<And>j. held out j \<le> count s j" "\<And>j. count s j + int (length es) < limit"
    "\<And>j. count s j \<le> cap j"
  shows "count (snd (run es out s)) j \<le> cap j"
  using assms
proof (induction es out s rule: run.induct)
  case (2 a es out s)
  note rdy = 2(3) and val = 2(4) and cnt = 2(5) and lim = 2(6) and cp = 2(7)
  have bnd: "0 \<le> count s j \<and> count s j < limit" for j
    using cnt [of j] lim [of j] held_nonneg [of out j] by linarith
  obtain r s' where e: "enter a s = (r, s')" by fastforce
  show ?case
  proof (cases r)
    case None
    note ref = enter_refused [OF rdy e [unfolded None] bnd]
    have "count s' j + int (length es) < limit" for j using lim [of j] ref by simp
    with ref show ?thesis using 2(1) [OF e [symmetric] None] val cnt cp e None by simp
  next
    case (Some t)
    note ok = enter_ok [OF rdy e [unfolded Some] bnd]
    have "held (t # out) j \<le> count s' j" "count s' j + int (length es) < limit" for j
      using ok cnt [of j] lim [of j] by auto
    moreover have "count s' j \<le> cap j" for j
      using enter_capped [OF rdy e [unfolded Some] bnd] ok cp [of j] by (cases "j = key_of t") auto
    ultimately show ?thesis using 2(2) [OF e [symmetric] Some] ok val e Some by simp
  qed
next
  case (3 n b es out s)
  note rdy = 3(3) and val = 3(4) and cnt = 3(5) and lim = 3(6) and cp = 3(7)
  show ?case
  proof (cases "n < length out")
    case True
    have "count s (key_of (out ! n)) < limit" using lim [of "key_of (out ! n)"] by simp
    note l = leave_step [OF rdy val cnt this True]
    have "count (leave b (out ! n) s) j \<le> cap j" for j using l(2) cp [of j] by auto
    moreover have "count (leave b (out ! n) s) j + int (length es) < limit" for j using l(2) lim [of j] by auto
    ultimately show ?thesis using 3(1) [OF True l(1,3,4)] True by simp
  next
    case False
    have "count s j + int (length es) < limit" for j using lim [of j] by simp
    then show ?thesis using 3(2) [OF False rdy val cnt _ cp] False by simp
  qed
qed simp

end

text \<open>
  \<open>lease_lock\<close> is what the holder of a time-limited lock relies on: while the lock has not
  expired nobody else gets it, and renewing or freeing it is the holder's alone. Times are in
  the unit of the expiry.
\<close>

datatype ('k, 'w) lock_event =
  LockTry int int 'k 'w int | LockRenew int 'k 'w int | LockFree 'k 'w

locale lease_lock =
  fixes holder :: "'s \<Rightarrow> 'k \<Rightarrow> ('w \<times> int) option"
    and seconds :: "int \<Rightarrow> int"
    and take_lock :: "int \<Rightarrow> int \<Rightarrow> 'k \<Rightarrow> 'w \<Rightarrow> int \<Rightarrow> 's \<Rightarrow> bool \<times> 's"
    and renew_lock :: "int \<Rightarrow> 'k \<Rightarrow> 'w \<Rightarrow> int \<Rightarrow> 's \<Rightarrow> 's"
    and free_lock :: "'k \<Rightarrow> 'w \<Rightarrow> 's \<Rightarrow> 's"
  assumes take_held: "holder s k = Some (w, e) \<Longrightarrow> seconds t1 < e \<Longrightarrow> v \<noteq> w \<Longrightarrow>
      take_lock t1 t2 k v ttl s = (False, s)"
    and take_other: "j \<noteq> k \<Longrightarrow> holder (snd (take_lock t1 t2 k v ttl s)) j = holder s j"
    and renew_foreign: "holder s j = Some (w, e) \<Longrightarrow> j \<noteq> k \<or> v \<noteq> w \<Longrightarrow> holder (renew_lock t k v ttl s) j = holder s j"
    and free_foreign: "holder s j = Some (w, e) \<Longrightarrow> j \<noteq> k \<or> v \<noteq> w \<Longrightarrow> holder (free_lock k v s) j = holder s j"
begin

fun lock_run :: "('k, 'w) lock_event list \<Rightarrow> 's \<Rightarrow> 's" where
  "lock_run [] s = s"
| "lock_run (LockTry t1 t2 k v ttl # es) s = lock_run es (snd (take_lock t1 t2 k v ttl s))"
| "lock_run (LockRenew t k v ttl # es) s = lock_run es (renew_lock t k v ttl s)"
| "lock_run (LockFree k v # es) s = lock_run es (free_lock k v s)"

text \<open>An event of somebody else before the expiry: no attempt of worker \<open>w\<close> on key \<open>k\<close>.\<close>

fun foreign :: "'k \<Rightarrow> 'w \<Rightarrow> int \<Rightarrow> ('k, 'w) lock_event \<Rightarrow> bool" where
  "foreign k w e (LockTry t1 t2 j v ttl) = ((j \<noteq> k \<or> v \<noteq> w) \<and> seconds t1 < e)"
| "foreign k w e (LockRenew t j v ttl) = (j \<noteq> k \<or> v \<noteq> w)"
| "foreign k w e (LockFree j v) = (j \<noteq> k \<or> v \<noteq> w)"

lemma exclusive:
  "holder s k = Some (w, e) \<Longrightarrow> list_all (foreign k w e) es \<Longrightarrow> holder (lock_run es s) k = Some (w, e)"
proof (induction es arbitrary: s)
  case (Cons ev es)
  have "holder (lock_run [ev] s) k = Some (w, e)"
  proof (cases ev)
    case (LockTry t1 t2 j v ttl)
    then show ?thesis
      using Cons.prems take_held [of s k w e t1 v t2 ttl] take_other [of k j t1 t2 v ttl s] by (cases "j = k") auto
  next
    case (LockRenew t j v ttl)
    then show ?thesis using Cons.prems renew_foreign [of s k w e j v t ttl] by auto
  next
    case (LockFree j v)
    then show ?thesis using Cons.prems free_foreign [of s k w e j v] by auto
  qed
  moreover have "lock_run (ev # es) s = lock_run es (lock_run [ev] s)" by (cases ev) simp_all
  ultimately show ?case using Cons.IH Cons.prems(2) by simp
qed simp

end

end
