(* ===== verification/Catalog.thy ===== *)
theory Catalog
  imports Prelude
begin

text \<open>
  The cold store of accounts (\<open>internal/catalog\<close>): one table \<open>accounts\<close> with primary key
  \<open>id\<close> and one table \<open>model_cooldowns\<close> with primary key \<open>(account_id, model)\<close>.

  A nullable text column holds NULL exactly where the Go struct holds the empty string
  (\<open>nullStr\<close> writes, \<open>sql.NullString\<close> reads), so a row is the Go struct itself. The
  statements are taken to execute as SQL defines them: a failing disk or a busy database
  is not modelled, every error the code itself raises is. \<open>time.Now().Unix()\<close> is the
  argument \<open>now\<close>, read once per operation. The scan of \<open>ListEligible\<close> fails on a priority
  outside int32; that error is not modelled, the rows are taken to be in range. The failure
  score, a float32 of a counter, is the exact rational. SQLite's \<open>json_extract(billing_json,
  '$.probe_ok')\<close> is the argument \<open>probe\<close> (None for NULL).
\<close>

section \<open>Data\<close>

datatype cat_error = CatNotFound | CatCASConflict | CatInvalidInput | CatClosed

definition LifecycleActive :: string where "LifecycleActive = ''active''"
definition LifecycleQuarantined :: string where "LifecycleQuarantined = ''quarantined''"
definition LifecyclePurged :: string where "LifecyclePurged = ''purged''"

record account =
  acc_id :: string
  acc_revision :: int
  acc_identity_key :: string
  acc_email :: string
  acc_name :: string
  acc_priority :: int
  acc_enabled :: bool
  acc_manual_disabled :: bool
  acc_lifecycle :: string
  acc_access_token :: string
  acc_refresh_token :: string
  acc_expires_at :: int
  acc_proxy_mode :: string
  acc_proxy_url :: string
  acc_failure_count :: int
  acc_success_count :: int
  acc_cooldown_until :: int
  acc_last_error :: string
  acc_last_used_at :: "int option"
  acc_last_success_at :: "int option"
  acc_last_refresh_at :: "int option"
  acc_consecutive_unauthorized :: int
  acc_quarantine_fp :: string
  acc_purge_after :: "int option"
  acc_billing_json :: string
  acc_created_at :: int
  acc_updated_at :: int

record token_set =
  ts_access_token :: string
  ts_refresh_token :: string
  ts_expires_at :: int

record health_patch =
  hp_enabled :: "bool option"
  hp_manual_disabled :: "bool option"
  hp_lifecycle :: "string option"
  hp_failure_count :: "int option"
  hp_success_count :: "int option"
  hp_cooldown_until :: "int option"
  hp_last_error :: "string option"
  hp_last_used_at :: "int option"
  hp_last_success_at :: "int option"
  hp_last_refresh_at :: "int option"
  hp_consecutive_unauthorized :: "int option"
  hp_quarantine_fp :: "string option"
  hp_purge_after :: "int option"
  hp_billing_json :: "string option"
  hp_clear_last_error :: bool

definition no_patch :: health_patch where
  "no_patch = \<lparr>hp_enabled = None, hp_manual_disabled = None, hp_lifecycle = None,
     hp_failure_count = None, hp_success_count = None, hp_cooldown_until = None,
     hp_last_error = None, hp_last_used_at = None, hp_last_success_at = None,
     hp_last_refresh_at = None, hp_consecutive_unauthorized = None, hp_quarantine_fp = None,
     hp_purge_after = None, hp_billing_json = None, hp_clear_last_error = False\<rparr>"

record hot_meta =
  hm_id :: string
  hm_priority :: int
  hm_cooldown_until :: int
  hm_expires_at :: int
  hm_inflight :: int
  hm_failure_score :: rat
  hm_enabled :: bool
  hm_lifecycle :: string
  hm_revision :: int
  hm_identity_key :: string
  hm_proxy_mode :: string
  hm_proxy_url :: string

record proxy_assignment =
  pa_id :: string
  pa_proxy_url :: string
  pa_proxy_mode :: string

record model_cooldown =
  mc_account_id :: string
  mc_model :: string
  mc_cooldown_until :: int
  mc_last_error :: string
  mc_updated_at :: int
  mc_remaining_sec :: int

record catalog_stats =
  cs_count :: nat
  cs_enabled_count :: nat
  cs_active_count :: nat
  cs_cooldown_count :: nat
  cs_quarantine_count :: nat
  cs_disabled_count :: nat

type_synonym rows = "(string, account) gomap"

record catalog =
  cat_open :: bool
  cat_rows :: rows
  cat_models :: "(string \<times> string, model_cooldown) gomap"

section \<open>Reading\<close>

definition cat_get_unlocked :: "catalog \<Rightarrow> string \<Rightarrow> cat_error + account" where
  "cat_get_unlocked c i =
     (case gm_get (cat_rows c) i of None \<Rightarrow> Inl CatNotFound | Some a \<Rightarrow> Inr a)"

definition cat_get :: "catalog \<Rightarrow> string \<Rightarrow> cat_error + account" where
  "cat_get c i =
     (if \<not> cat_open c then Inl CatClosed
      else if i = [] then Inl CatInvalidInput
      else cat_get_unlocked c i)"

definition hot_meta_from_account :: "account \<Rightarrow> hot_meta" where
  "hot_meta_from_account a =
     \<lparr>hm_id = acc_id a, hm_priority = wrap32 (acc_priority a),
      hm_cooldown_until = acc_cooldown_until a,
      hm_expires_at = acc_expires_at a, hm_inflight = 0,
      hm_failure_score = of_int (acc_failure_count a),
      hm_enabled = (acc_enabled a \<and> \<not> acc_manual_disabled a), hm_lifecycle = acc_lifecycle a,
      hm_revision = acc_revision a, hm_identity_key = acc_identity_key a,
      hm_proxy_mode = acc_proxy_mode a, hm_proxy_url = acc_proxy_url a\<rparr>"

text \<open>The WHERE clause, the sort key and the scanned columns of \<open>ListEligible\<close>.\<close>

definition eligible_row :: "(string \<Rightarrow> int option) \<Rightarrow> int \<Rightarrow> account \<Rightarrow> bool" where
  "eligible_row probe now a \<longleftrightarrow>
     acc_enabled a \<and> \<not> acc_manual_disabled a \<and> acc_lifecycle a = LifecycleActive \<and>
     acc_cooldown_until a \<le> now \<and> acc_access_token a \<noteq> [] \<and>
     (acc_billing_json a = [] \<or> probe (acc_billing_json a) = None \<or>
      probe (acc_billing_json a) = Some 1)"

definition eligible_key :: "account \<Rightarrow> int \<times> string" where
  "eligible_key a = (- acc_priority a, acc_id a)"

definition eligible_meta :: "account \<Rightarrow> hot_meta" where
  "eligible_meta a =
     \<lparr>hm_id = acc_id a, hm_priority = acc_priority a, hm_cooldown_until = acc_cooldown_until a,
      hm_expires_at = acc_expires_at a, hm_inflight = 0,
      hm_failure_score = of_int (acc_failure_count a),
      hm_enabled = acc_enabled a, hm_lifecycle = acc_lifecycle a,
      hm_revision = acc_revision a, hm_identity_key = acc_identity_key a,
      hm_proxy_mode = acc_proxy_mode a, hm_proxy_url = acc_proxy_url a\<rparr>"

definition list_eligible ::
  "(string \<Rightarrow> int option) \<Rightarrow> catalog \<Rightarrow> int \<Rightarrow> int \<Rightarrow> string \<Rightarrow> cat_error + hot_meta list" where
  "list_eligible probe c now limit after_id =
     (if \<not> cat_open c then Inl CatClosed
      else if limit \<le> 0 then Inl CatInvalidInput
      else if after_id = [] then
        Inr (map eligible_meta (take (nat limit)
          (sort_key eligible_key (filter (eligible_row probe now) (map snd (cat_rows c))))))
      else
        (case gm_get (cat_rows c) after_id of
           None \<Rightarrow> Inr []
         | Some cur \<Rightarrow>
             Inr (map eligible_meta (take (nat limit)
               (sort_key eligible_key
                 (filter (\<lambda>a. eligible_row probe now a \<and>
                     (acc_priority a < acc_priority cur \<or>
                      acc_priority a = acc_priority cur \<and> acc_id cur < acc_id a))
                   (map snd (cat_rows c))))))))"

definition list_expiring :: "catalog \<Rightarrow> int \<Rightarrow> int \<Rightarrow> cat_error + account list" where
  "list_expiring c limit before =
     (if \<not> cat_open c then Inl CatClosed
      else if limit \<le> 0 then Inl CatInvalidInput
      else Inr (take (nat limit) (sort_key (\<lambda>a. (acc_expires_at a, acc_id a))
        (filter (\<lambda>a. acc_enabled a \<and> acc_lifecycle a = LifecycleActive \<and> acc_expires_at a < before)
          (map snd (cat_rows c))))))"

definition cat_stats :: "catalog \<Rightarrow> int \<Rightarrow> cat_error + catalog_stats" where
  "cat_stats c now =
     (if \<not> cat_open c then Inl CatClosed
      else let as = map snd (cat_rows c); cnt = (\<lambda>P. length (filter P as)) in
        Inr \<lparr>cs_count = length as,
             cs_enabled_count = cnt acc_enabled,
             cs_active_count = cnt (\<lambda>a. acc_enabled a \<and> acc_lifecycle a = LifecycleActive),
             cs_cooldown_count = cnt (\<lambda>a. acc_cooldown_until a > now),
             cs_quarantine_count = cnt (\<lambda>a. acc_lifecycle a = LifecycleQuarantined),
             cs_disabled_count = cnt (\<lambda>a. \<not> acc_enabled a)\<rparr>)"

section \<open>Writing\<close>

definition cat_close :: "catalog \<Rightarrow> catalog" where
  "cat_close c = c\<lparr>cat_open := False\<rparr>"

definition validate_account_for_upsert :: "account \<Rightarrow> cat_error option" where
  "validate_account_for_upsert a =
     (if acc_id a = [] then Some CatInvalidInput
      else if acc_access_token a = [] then Some CatInvalidInput
      else if acc_refresh_token a = [] then Some CatInvalidInput
      else None)"

text \<open>The row an insert writes: defaults for revision, lifecycle and the two times.\<close>

definition upsert_row :: "int \<Rightarrow> account \<Rightarrow> account" where
  "upsert_row now a =
     a\<lparr>acc_revision := (if acc_revision a \<le> 0 then 1 else acc_revision a),
       acc_lifecycle := (if acc_lifecycle a = [] then LifecycleActive else acc_lifecycle a),
       acc_created_at := (if acc_created_at a = 0 then now else acc_created_at a),
       acc_updated_at := (if acc_updated_at a = 0 then now else acc_updated_at a)\<rparr>"

fun upsert_chunk :: "int \<Rightarrow> account list \<Rightarrow> rows \<Rightarrow> cat_error + rows" where
  "upsert_chunk now [] rs = Inr rs"
| "upsert_chunk now (a # as) rs =
     (case validate_account_for_upsert a of
        Some e \<Rightarrow> Inl e
      | None \<Rightarrow> upsert_chunk now as (gm_put (acc_id a) (upsert_row now a) rs))"

definition upsert_chunk_size :: nat where "upsert_chunk_size = 500"

function upsert_loop :: "int \<Rightarrow> account list \<Rightarrow> rows \<Rightarrow> (cat_error + unit) \<times> rows" where
  "upsert_loop now as rs =
     (if as = [] then (Inr (), rs)
      else case upsert_chunk now (take upsert_chunk_size as) rs of
        Inl e \<Rightarrow> (Inl e, rs)
      | Inr rs' \<Rightarrow> upsert_loop now (drop upsert_chunk_size as) rs')"
  by pat_completeness auto
termination
  by (relation "measure (\<lambda>(now, as, rs). length as)") (auto simp: upsert_chunk_size_def)

declare upsert_loop.simps [simp del]

definition upsert_many :: "catalog \<Rightarrow> int \<Rightarrow> account list \<Rightarrow> (cat_error + unit) \<times> catalog" where
  "upsert_many c now as =
     (if \<not> cat_open c then (Inl CatClosed, c)
      else if as = [] then (Inr (), c)
      else let (r, rs) = upsert_loop now as (cat_rows c) in (r, c\<lparr>cat_rows := rs\<rparr>))"

text \<open>The imported row over an existing one: credentials and identity only.\<close>

definition import_row :: "int \<Rightarrow> account \<Rightarrow> account option \<Rightarrow> account" where
  "import_row now a old =
     (let ins = upsert_row now a; keep = (\<lambda>new prev. if new = [] then prev else new) in
      case old of
        None \<Rightarrow> ins
      | Some o' \<Rightarrow>
          o'\<lparr>acc_revision := acc_revision o' + 1,
             acc_identity_key := keep (acc_identity_key ins) (acc_identity_key o'),
             acc_email := keep (acc_email ins) (acc_email o'),
             acc_name := keep (acc_name ins) (acc_name o'),
             acc_access_token := acc_access_token ins,
             acc_refresh_token := acc_refresh_token ins,
             acc_expires_at := acc_expires_at ins,
             acc_proxy_mode := keep (acc_proxy_mode ins) (acc_proxy_mode o'),
             acc_proxy_url := keep (acc_proxy_url ins) (acc_proxy_url o'),
             acc_updated_at := acc_updated_at ins\<rparr>)"

fun import_loop :: "int \<Rightarrow> account list \<Rightarrow> rows \<Rightarrow> cat_error + rows" where
  "import_loop now [] rs = Inr rs"
| "import_loop now (a # as) rs =
     (case validate_account_for_upsert a of
        Some e \<Rightarrow> Inl e
      | None \<Rightarrow> import_loop now as
          (gm_put (acc_id a) (import_row now a (gm_get rs (acc_id a))) rs))"

definition upsert_imported_many ::
  "catalog \<Rightarrow> int \<Rightarrow> account list \<Rightarrow> (cat_error + unit) \<times> catalog" where
  "upsert_imported_many c now as =
     (if \<not> cat_open c then (Inl CatClosed, c)
      else if as = [] then (Inr (), c)
      else case import_loop now as (cat_rows c) of
        Inl e \<Rightarrow> (Inl e, c)
      | Inr rs \<Rightarrow> (Inr (), c\<lparr>cat_rows := rs\<rparr>))"

definition update_tokens ::
  "catalog \<Rightarrow> int \<Rightarrow> string \<Rightarrow> int \<Rightarrow> token_set \<Rightarrow> (cat_error + unit) \<times> catalog" where
  "update_tokens c now i expected_rev t =
     (if \<not> cat_open c then (Inl CatClosed, c)
      else if i = [] then (Inl CatInvalidInput, c)
      else if ts_access_token t = [] \<or> ts_refresh_token t = [] then (Inl CatInvalidInput, c)
      else if expected_rev < 1 then (Inl CatInvalidInput, c)
      else case gm_get (cat_rows c) i of
        None \<Rightarrow> (Inl CatNotFound, c)
      | Some a \<Rightarrow>
          if acc_revision a \<noteq> expected_rev then (Inl CatCASConflict, c)
          else (Inr (), c\<lparr>cat_rows := gm_put i
                 (a\<lparr>acc_access_token := ts_access_token t, acc_refresh_token := ts_refresh_token t,
                    acc_expires_at := ts_expires_at t, acc_revision := expected_rev + 1,
                    acc_last_refresh_at := Some now, acc_updated_at := now\<rparr>) (cat_rows c)\<rparr>))"

definition apply_patch :: "health_patch \<Rightarrow> account \<Rightarrow> cat_error + account" where
  "apply_patch p a =
     (if hp_lifecycle p = Some [] then Inl CatInvalidInput
      else let set' = (\<lambda>f old. case f of None \<Rightarrow> old | Some v \<Rightarrow> v) in
       Inr (a\<lparr>acc_enabled := (case hp_enabled p of None \<Rightarrow> acc_enabled a | Some v \<Rightarrow> v),
         acc_manual_disabled :=
           (case hp_manual_disabled p of None \<Rightarrow> acc_manual_disabled a | Some v \<Rightarrow> v),
         acc_lifecycle := (case hp_lifecycle p of None \<Rightarrow> acc_lifecycle a | Some v \<Rightarrow> v),
         acc_failure_count := set' (hp_failure_count p) (acc_failure_count a),
         acc_success_count := set' (hp_success_count p) (acc_success_count a),
         acc_cooldown_until := set' (hp_cooldown_until p) (acc_cooldown_until a),
         acc_last_error :=
           (if hp_clear_last_error p then []
            else case hp_last_error p of None \<Rightarrow> acc_last_error a | Some v \<Rightarrow> v),
         acc_last_used_at :=
           (case hp_last_used_at p of None \<Rightarrow> acc_last_used_at a | Some v \<Rightarrow> Some v),
         acc_last_success_at :=
           (case hp_last_success_at p of None \<Rightarrow> acc_last_success_at a | Some v \<Rightarrow> Some v),
         acc_last_refresh_at :=
           (case hp_last_refresh_at p of None \<Rightarrow> acc_last_refresh_at a | Some v \<Rightarrow> Some v),
         acc_consecutive_unauthorized :=
           set' (hp_consecutive_unauthorized p) (acc_consecutive_unauthorized a),
         acc_quarantine_fp :=
           (case hp_quarantine_fp p of None \<Rightarrow> acc_quarantine_fp a | Some v \<Rightarrow> v),
         acc_purge_after :=
           (case hp_purge_after p of None \<Rightarrow> acc_purge_after a | Some v \<Rightarrow> Some v),
         acc_billing_json :=
           (case hp_billing_json p of None \<Rightarrow> acc_billing_json a | Some v \<Rightarrow> v)\<rparr>))"

definition patch_health ::
  "catalog \<Rightarrow> int \<Rightarrow> string \<Rightarrow> health_patch \<Rightarrow> (cat_error + unit) \<times> catalog" where
  "patch_health c now i p =
     (if \<not> cat_open c then (Inl CatClosed, c)
      else if i = [] then (Inl CatInvalidInput, c)
      else case cat_get_unlocked c i of
        Inl e \<Rightarrow> (Inl e, c)
      | Inr cur \<Rightarrow>
          (case apply_patch p cur of
             Inl e \<Rightarrow> (Inl e, c)
           | Inr cur' \<Rightarrow> (Inr (), c\<lparr>cat_rows := gm_put i
               (cur'\<lparr>acc_revision := acc_revision cur + 1, acc_updated_at := now\<rparr>) (cat_rows c)\<rparr>)))"

definition set_proxy_row :: "int \<Rightarrow> string \<Rightarrow> string \<Rightarrow> account \<Rightarrow> account" where
  "set_proxy_row now url mode a =
     (let b = a\<lparr>acc_proxy_url := url, acc_revision := acc_revision a + 1, acc_updated_at := now\<rparr>
      in if mode = [] then b else b\<lparr>acc_proxy_mode := mode\<rparr>)"

fun set_proxies_loop :: "int \<Rightarrow> proxy_assignment list \<Rightarrow> rows \<Rightarrow> cat_error + rows" where
  "set_proxies_loop now [] rs = Inr rs"
| "set_proxies_loop now (it # its) rs =
     (let i = trim_space (pa_id it); url = trim_space (pa_proxy_url it);
          mode = trim_space (pa_proxy_mode it) in
      if i = [] then Inl CatInvalidInput
      else case gm_get rs i of
        None \<Rightarrow> Inl CatNotFound
      | Some a \<Rightarrow> set_proxies_loop now its (gm_put i (set_proxy_row now url mode a) rs))"

definition set_proxies ::
  "catalog \<Rightarrow> int \<Rightarrow> proxy_assignment list \<Rightarrow> (cat_error + unit) \<times> catalog" where
  "set_proxies c now items =
     (if \<not> cat_open c then (Inl CatClosed, c)
      else if items = [] then (Inr (), c)
      else case set_proxies_loop now items (cat_rows c) of
        Inl e \<Rightarrow> (Inl e, c)
      | Inr rs \<Rightarrow> (Inr (), c\<lparr>cat_rows := rs\<rparr>))"

definition set_proxy ::
  "catalog \<Rightarrow> int \<Rightarrow> string \<Rightarrow> string \<Rightarrow> string \<Rightarrow> (cat_error + unit) \<times> catalog" where
  "set_proxy c now i url mode =
     set_proxies c now [\<lparr>pa_id = i, pa_proxy_url = url, pa_proxy_mode = mode\<rparr>]"

text \<open>
  The batch statements run in chunks of 400 ids inside one transaction. A SELECT without
  ORDER BY returns its rows in an order SQL leaves open: the argument \<open>ord\<close>.
\<close>

definition batch_chunk :: nat where "batch_chunk = 400"

definition enable_part :: "int \<Rightarrow> bool \<Rightarrow> string list \<Rightarrow> rows \<Rightarrow> rows" where
  "enable_part now en part rs =
     map (\<lambda>(k, a). (k,
       if k \<in> set part then
         a\<lparr>acc_enabled := en, acc_manual_disabled := \<not> en,
           acc_revision := acc_revision a + 1, acc_updated_at := now\<rparr>
       else a)) rs"

definition select_ids :: "(string list \<Rightarrow> string list) \<Rightarrow> string list \<Rightarrow> rows \<Rightarrow> string list" where
  "select_ids ord part rs = ord (filter (\<lambda>i. gm_get rs i \<noteq> None) part)"

function batch_enable_loop ::
  "int \<Rightarrow> bool \<Rightarrow> (string list \<Rightarrow> string list) \<Rightarrow> string list \<Rightarrow> rows \<Rightarrow> string list
   \<Rightarrow> string list \<times> rows" where
  "batch_enable_loop now en ord ids rs ok =
     (if ids = [] then (ok, rs)
      else let part = take batch_chunk ids; rs' = enable_part now en part rs in
        batch_enable_loop now en ord (drop batch_chunk ids) rs' (ok @ select_ids ord part rs'))"
  by pat_completeness auto
termination
  by (relation "measure (\<lambda>(now, en, ord, ids, rs, ok). length ids)") (auto simp: batch_chunk_def)

declare batch_enable_loop.simps [simp del]

definition batch_set_manual_enabled ::
  "catalog \<Rightarrow> int \<Rightarrow> (string list \<Rightarrow> string list) \<Rightarrow> string list \<Rightarrow> bool
   \<Rightarrow> (cat_error + string list) \<times> catalog" where
  "batch_set_manual_enabled c now ord ids enable =
     (if \<not> cat_open c then (Inl CatClosed, c)
      else let clean = clean_ids [] ids in
       if clean = [] then (Inl CatInvalidInput, c)
       else let (ok, rs) = batch_enable_loop now enable ord clean (cat_rows c) [] in
         (Inr ok, c\<lparr>cat_rows := rs\<rparr>))"

definition delete_part :: "string list \<Rightarrow> rows \<Rightarrow> rows" where
  "delete_part part rs = filter (\<lambda>(k, a). k \<notin> set part) rs"

function batch_delete_loop ::
  "(string list \<Rightarrow> string list) \<Rightarrow> string list \<Rightarrow> rows \<Rightarrow> string list \<Rightarrow> string list \<times> rows" where
  "batch_delete_loop ord ids rs del =
     (if ids = [] then (del, rs)
      else let part = take batch_chunk ids; hit = select_ids ord part rs in
        if hit = [] then batch_delete_loop ord (drop batch_chunk ids) rs del
        else batch_delete_loop ord (drop batch_chunk ids) (delete_part part rs) (del @ hit))"
  by pat_completeness auto
termination
  by (relation "measure (\<lambda>(ord, ids, rs, del). length ids)") (auto simp: batch_chunk_def)

declare batch_delete_loop.simps [simp del]

definition batch_delete ::
  "catalog \<Rightarrow> (string list \<Rightarrow> string list) \<Rightarrow> string list \<Rightarrow> (cat_error + string list) \<times> catalog" where
  "batch_delete c ord ids =
     (if \<not> cat_open c then (Inl CatClosed, c)
      else let clean = clean_ids [] ids in
       if clean = [] then (Inl CatInvalidInput, c)
       else let (del, rs) = batch_delete_loop ord clean (cat_rows c) [] in
         (Inr del, c\<lparr>cat_rows := rs\<rparr>))"

section \<open>Model cooldowns\<close>

definition upsert_model_cooldown ::
  "catalog \<Rightarrow> int \<Rightarrow> string \<Rightarrow> string \<Rightarrow> int \<Rightarrow> string \<Rightarrow> (cat_error + unit) \<times> catalog" where
  "upsert_model_cooldown c now account model until last_err =
     (let acct = trim_space account; mdl = trim_space model in
      if \<not> cat_open c then (Inl CatClosed, c)
      else if acct = [] \<or> mdl = [] \<or> until \<le> 0 then (Inl CatInvalidInput, c)
      else (Inr (), c\<lparr>cat_models := gm_put (acct, mdl)
             \<lparr>mc_account_id = acct, mc_model = mdl, mc_cooldown_until = until,
              mc_last_error = last_err, mc_updated_at = now, mc_remaining_sec = 0\<rparr>
             (cat_models c)\<rparr>))"

definition clear_model_cooldown ::
  "catalog \<Rightarrow> string \<Rightarrow> string \<Rightarrow> (cat_error + unit) \<times> catalog" where
  "clear_model_cooldown c account model =
     (if \<not> cat_open c then (Inl CatClosed, c)
      else (Inr (), c\<lparr>cat_models := gm_del (account, model) (cat_models c)\<rparr>))"

definition list_model_cooldowns ::
  "catalog \<Rightarrow> int \<Rightarrow> string \<Rightarrow> int \<Rightarrow> cat_error + model_cooldown list" where
  "list_model_cooldowns c clock account now0 =
     (if \<not> cat_open c then Inl CatClosed
      else let now = (if now0 \<le> 0 then clock else now0);
               live = filter (\<lambda>m. mc_cooldown_until m > now) (map snd (cat_models c));
               remaining = (\<lambda>m. m\<lparr>mc_remaining_sec := mc_cooldown_until m - now\<rparr>) in
       if trim_space account = [] then
         Inr (map remaining (take 5000 (sort_key
           (\<lambda>m. (- mc_cooldown_until m, mc_account_id m, mc_model m)) live)))
       else
         Inr (map remaining (take 500 (sort_key
           (\<lambda>m. (- mc_cooldown_until m, mc_model m))
           (filter (\<lambda>m. mc_account_id m = account) live)))))"

fun load_cooldown_rows ::
  "model_cooldown list \<Rightarrow> (string, (string, int) gomap) gomap \<Rightarrow> (string, (string, int) gomap) gomap" where
  "load_cooldown_rows [] out = out"
| "load_cooldown_rows (r # rs) out =
     load_cooldown_rows rs (gm_put (mc_account_id r)
       (gm_put (mc_model r) (mc_cooldown_until r) (gm_default [] out (mc_account_id r))) out)"

definition load_active_model_cooldowns ::
  "catalog \<Rightarrow> int \<Rightarrow> int \<Rightarrow> cat_error + (string, (string, int) gomap) gomap" where
  "load_active_model_cooldowns c clock now =
     (case list_model_cooldowns c clock [] now of
        Inl e \<Rightarrow> Inl e
      | Inr rs \<Rightarrow> Inr (load_cooldown_rows rs []))"

definition purge_expired_model_cooldowns ::
  "catalog \<Rightarrow> int \<Rightarrow> int \<Rightarrow> (cat_error + nat) \<times> catalog" where
  "purge_expired_model_cooldowns c clock now0 =
     (if \<not> cat_open c then (Inl CatClosed, c)
      else let now = (if now0 \<le> 0 then clock else now0);
               kept = filter (\<lambda>(k, m). \<not> mc_cooldown_until m \<le> now) (cat_models c) in
       (Inr (length (cat_models c) - length kept), c\<lparr>cat_models := kept\<rparr>))"

section \<open>Well-formed catalogs\<close>

definition wf_account :: "string \<Rightarrow> account \<Rightarrow> bool" where
  "wf_account k a \<longleftrightarrow> acc_id a = k \<and> k \<noteq> [] \<and> 1 \<le> acc_revision a \<and>
     acc_access_token a \<noteq> [] \<and> acc_refresh_token a \<noteq> [] \<and> acc_lifecycle a \<noteq> []"

definition wf_rows :: "rows \<Rightarrow> bool" where
  "wf_rows rs \<longleftrightarrow> gm_wf rs \<and> (\<forall>(k, a) \<in> set rs. wf_account k a)"

definition wf_cooldown :: "string \<times> string \<Rightarrow> model_cooldown \<Rightarrow> bool" where
  "wf_cooldown k m \<longleftrightarrow> k = (mc_account_id m, mc_model m) \<and> mc_account_id m \<noteq> [] \<and>
     mc_model m \<noteq> [] \<and> 0 < mc_cooldown_until m"

definition wf_catalog :: "catalog \<Rightarrow> bool" where
  "wf_catalog c \<longleftrightarrow> wf_rows (cat_rows c) \<and> gm_wf (cat_models c) \<and>
     (\<forall>(k, m) \<in> set (cat_models c). wf_cooldown k m)"

definition empty_catalog :: catalog where
  "empty_catalog = \<lparr>cat_open = True, cat_rows = [], cat_models = []\<rparr>"

text \<open>
  The statements of the write API as a step relation. \<open>cat_touch\<close> are those that change
  rows in place (no row is replaced or removed), \<open>cat_step\<close> all of them.
\<close>

inductive cat_touch :: "catalog \<Rightarrow> catalog \<Rightarrow> bool" where
  touch_tokens: "cat_touch c (snd (update_tokens c now i n t))"
| touch_patch: "cat_touch c (snd (patch_health c now i p))"
| touch_import: "cat_touch c (snd (upsert_imported_many c now as))"
| touch_proxies: "cat_touch c (snd (set_proxies c now items))"
| touch_enable: "iteration_order ord \<Longrightarrow>
    cat_touch c (snd (batch_set_manual_enabled c now ord ids en))"
| touch_cooldown: "cat_touch c (snd (upsert_model_cooldown c now ac mo until msg))"
| touch_clear: "cat_touch c (snd (clear_model_cooldown c ac mo))"
| touch_purge: "cat_touch c (snd (purge_expired_model_cooldowns c clock now))"
| touch_close: "cat_touch c (cat_close c)"

inductive cat_step :: "catalog \<Rightarrow> catalog \<Rightarrow> bool" where
  step_touch: "cat_touch c c' \<Longrightarrow> cat_step c c'"
| step_upsert: "cat_step c (snd (upsert_many c now as))"
| step_delete: "iteration_order ord \<Longrightarrow> cat_step c (snd (batch_delete c ord ids))"

inductive_simps cat_step_iff: "cat_step c c'"
inductive_cases cat_touchE: "cat_touch c c'"

definition cat_reachable :: "catalog \<Rightarrow> bool" where
  "cat_reachable c \<longleftrightarrow> cat_step\<^sup>*\<^sup>* empty_catalog c"

section \<open>Every write keeps the table well formed\<close>

lemma wf_rows_iff: "wf_rows rs \<longleftrightarrow> gm_wf rs \<and> (\<forall>k a. map_of rs k = Some a \<longrightarrow> wf_account k a)"
  using gm_in_iff [of rs] by (fastforce simp: wf_rows_def)

lemma wf_rowsD: "wf_rows rs \<Longrightarrow> map_of rs k = Some a \<Longrightarrow> wf_account k a"
  by (simp add: wf_rows_iff)

lemma wf_rows_Nil [simp]: "wf_rows []"
  by (simp add: wf_rows_def)

lemma wf_rows_put: "wf_rows rs \<Longrightarrow> wf_account k a \<Longrightarrow> wf_rows (gm_put k a rs)"
  by (auto simp: wf_rows_iff)

lemma wf_rows_filter: "wf_rows rs \<Longrightarrow> wf_rows (filter P rs)"
  by (auto simp: wf_rows_def gm_wf_def distinct_map_filter)

lemma wf_rows_map:
  assumes "wf_rows rs" and "\<And>k a. wf_account k a \<Longrightarrow> wf_account k (f k a)"
  shows "wf_rows (map (\<lambda>(k, a). (k, f k a)) rs)"
  using assms by (auto simp: wf_rows_def)

lemma wf_upsert_row:
  "validate_account_for_upsert a = None \<Longrightarrow> wf_account (acc_id a) (upsert_row now a)"
  by (auto simp: wf_account_def upsert_row_def validate_account_for_upsert_def LifecycleActive_def
      split: if_splits)

lemma wf_import_row:
  assumes "validate_account_for_upsert a = None" and "\<And>b. old = Some b \<Longrightarrow> wf_account (acc_id a) b"
  shows "wf_account (acc_id a) (import_row now a old)"
  using assms wf_upsert_row [OF assms(1), of now]
  by (cases old) (auto simp: import_row_def Let_def wf_account_def)

lemma wf_upsert_chunk: "wf_rows rs \<Longrightarrow> upsert_chunk now as rs = Inr rs' \<Longrightarrow> wf_rows rs'"
  by (induction now as rs rule: upsert_chunk.induct)
     (auto split: option.splits simp: wf_rows_put wf_upsert_row)

lemma wf_upsert_loop: "wf_rows rs \<Longrightarrow> wf_rows (snd (upsert_loop now as rs))"
proof (induction now as rs rule: upsert_loop.induct)
  case (1 now as rs)
  then show ?case
    by (subst upsert_loop.simps) (auto split: sum.splits dest: wf_upsert_chunk)
qed

lemma wf_import_loop: "wf_rows rs \<Longrightarrow> import_loop now as rs = Inr rs' \<Longrightarrow> wf_rows rs'"
  by (induction now as rs rule: import_loop.induct)
     (auto split: option.splits simp: wf_rows_put wf_import_row wf_rowsD)

lemma wf_set_proxy_row: "wf_account k a \<Longrightarrow> wf_account k (set_proxy_row now url mode a)"
  by (simp add: wf_account_def set_proxy_row_def Let_def)

lemma wf_set_proxies_loop: "wf_rows rs \<Longrightarrow> set_proxies_loop now its rs = Inr rs' \<Longrightarrow> wf_rows rs'"
  by (induction now its rs rule: set_proxies_loop.induct)
     (auto split: option.splits if_splits simp: Let_def wf_rows_put wf_set_proxy_row wf_rowsD)

lemma wf_enable_part: "wf_rows rs \<Longrightarrow> wf_rows (enable_part now en part rs)"
  unfolding enable_part_def by (rule wf_rows_map) (auto simp: wf_account_def)

lemma wf_batch_enable_loop: "wf_rows rs \<Longrightarrow> wf_rows (snd (batch_enable_loop now en ord ids rs ok))"
proof (induction now en ord ids rs ok rule: batch_enable_loop.induct)
  case (1 now en ord ids rs ok)
  then show ?case by (subst batch_enable_loop.simps) (auto simp: Let_def wf_enable_part)
qed

lemma wf_batch_delete_loop: "wf_rows rs \<Longrightarrow> wf_rows (snd (batch_delete_loop ord ids rs del))"
proof (induction ord ids rs del rule: batch_delete_loop.induct)
  case (1 ord ids rs del)
  then show ?case
    by (subst batch_delete_loop.simps) (auto simp: Let_def delete_part_def wf_rows_filter)
qed

lemma apply_patch_Inr:
  assumes "apply_patch p a = Inr b"
  shows "hp_lifecycle p \<noteq> Some []" and "acc_id b = acc_id a"
    and "acc_revision b = acc_revision a" and "acc_access_token b = acc_access_token a"
    and "acc_refresh_token b = acc_refresh_token a"
    and "acc_lifecycle b = (case hp_lifecycle p of None \<Rightarrow> acc_lifecycle a | Some v \<Rightarrow> v)"
  using assms by (auto simp: apply_patch_def Let_def split: if_splits)

lemma wf_apply_patch:
  "apply_patch p a = Inr b \<Longrightarrow> wf_account k a \<Longrightarrow>
   wf_account k (b\<lparr>acc_revision := acc_revision a + 1, acc_updated_at := now\<rparr>)"
  using apply_patch_Inr [of p a b] by (cases "hp_lifecycle p") (auto simp: wf_account_def)

lemma wf_catalog_rows [simp]:
  "wf_catalog c \<Longrightarrow> wf_catalog (c\<lparr>cat_rows := rs\<rparr>) = wf_rows rs"
  by (simp add: wf_catalog_def)

lemma wf_catalog_models:
  "wf_catalog c \<Longrightarrow> gm_wf ms \<Longrightarrow> \<forall>(k, m) \<in> set ms. wf_cooldown k m \<Longrightarrow>
   wf_catalog (c\<lparr>cat_models := ms\<rparr>)"
  by (simp add: wf_catalog_def)

lemma wf_catalogD: "wf_catalog c \<Longrightarrow> wf_rows (cat_rows c)"
  by (simp add: wf_catalog_def)

lemma wf_update_tokens: "wf_catalog c \<Longrightarrow> wf_catalog (snd (update_tokens c now i n t))"
  using wf_rowsD [of "cat_rows c" i]
  by (auto simp: update_tokens_def wf_catalogD wf_account_def split: option.splits
      intro!: wf_rows_put)

lemma wf_patch_health: "wf_catalog c \<Longrightarrow> wf_catalog (snd (patch_health c now i p))"
  using wf_rowsD [of "cat_rows c" i]
  by (auto simp: patch_health_def cat_get_unlocked_def wf_catalogD split: option.splits sum.splits
      intro!: wf_rows_put wf_apply_patch)

lemma wf_upsert_many: "wf_catalog c \<Longrightarrow> wf_catalog (snd (upsert_many c now as))"
  using wf_upsert_loop [of "cat_rows c" now as]
  by (auto simp: upsert_many_def wf_catalogD split: prod.splits)

lemma wf_upsert_imported_many: "wf_catalog c \<Longrightarrow> wf_catalog (snd (upsert_imported_many c now as))"
  by (auto simp: upsert_imported_many_def wf_catalogD split: sum.splits elim: wf_import_loop [rotated])

lemma wf_set_proxies: "wf_catalog c \<Longrightarrow> wf_catalog (snd (set_proxies c now items))"
  by (auto simp: set_proxies_def wf_catalogD split: sum.splits elim: wf_set_proxies_loop [rotated])

lemma wf_batch_enable:
  "wf_catalog c \<Longrightarrow> wf_catalog (snd (batch_set_manual_enabled c now ord ids en))"
  using wf_batch_enable_loop [of "cat_rows c" now en ord "clean_ids [] ids" "[]"]
  by (auto simp: batch_set_manual_enabled_def Let_def wf_catalogD split: prod.splits)

lemma wf_batch_delete: "wf_catalog c \<Longrightarrow> wf_catalog (snd (batch_delete c ord ids))"
  using wf_batch_delete_loop [of "cat_rows c" ord "clean_ids [] ids" "[]"]
  by (auto simp: batch_delete_def Let_def wf_catalogD split: prod.splits)

lemma set_update_sub: "set (AList.update k v m) \<subseteq> insert (k, v) (set m)"
  by (induction m) auto

lemma wf_upsert_model_cooldown:
  "wf_catalog c \<Longrightarrow> wf_catalog (snd (upsert_model_cooldown c now ac mo until msg))"
  using set_update_sub
  by (fastforce simp: upsert_model_cooldown_def Let_def wf_catalog_def wf_cooldown_def)

lemma wf_clear_model_cooldown: "wf_catalog c \<Longrightarrow> wf_catalog (snd (clear_model_cooldown c ac mo))"
  using gm_wf_del [of "cat_models c" "(ac, mo)"]
  by (auto simp: clear_model_cooldown_def wf_catalog_def AList.delete_eq)

lemma wf_purge_cooldowns:
  "wf_catalog c \<Longrightarrow> wf_catalog (snd (purge_expired_model_cooldowns c clock now))"
  by (auto simp: purge_expired_model_cooldowns_def Let_def wf_catalog_def gm_wf_def distinct_map_filter)

lemma wf_close: "wf_catalog c \<Longrightarrow> wf_catalog (cat_close c)"
  by (simp add: cat_close_def wf_catalog_def)

lemmas wf_catalog_ops =
  wf_update_tokens wf_patch_health wf_upsert_many wf_upsert_imported_many wf_set_proxies
  wf_batch_enable wf_batch_delete wf_upsert_model_cooldown wf_clear_model_cooldown
  wf_purge_cooldowns wf_close

lemma wf_cat_touch: "cat_touch c c' \<Longrightarrow> wf_catalog c \<Longrightarrow> wf_catalog c'"
  by (induction rule: cat_touch.induct) (simp_all add: wf_catalog_ops)

lemma wf_cat_step: "cat_step c c' \<Longrightarrow> wf_catalog c \<Longrightarrow> wf_catalog c'"
  by (induction rule: cat_step.induct) (simp_all add: wf_catalog_ops wf_cat_touch)

lemma wf_empty: "wf_catalog empty_catalog"
  by (simp add: empty_catalog_def wf_catalog_def)

lemma wf_cat_steps: "cat_step\<^sup>*\<^sup>* c c' \<Longrightarrow> wf_catalog c \<Longrightarrow> wf_catalog c'"
  by (induction rule: rtranclp_induct) (auto simp: wf_cat_step)

section \<open>Revisions\<close>

definition cat_rev :: "catalog \<Rightarrow> string \<Rightarrow> int option" where
  "cat_rev c i = map_option acc_revision (gm_get (cat_rows c) i)"

text \<open>The revisions of the rows of \<open>rs\<close> do not fall and no row disappears.\<close>

definition rows_grow :: "rows \<Rightarrow> rows \<Rightarrow> bool" where
  "rows_grow rs rs' \<longleftrightarrow> (\<forall>k a. map_of rs k = Some a \<longrightarrow>
     (\<exists>b. map_of rs' k = Some b \<and> acc_revision a \<le> acc_revision b))"

lemma rows_grow_refl [simp]: "rows_grow rs rs"
  by (simp add: rows_grow_def)

lemma rows_grow_trans: "rows_grow a b \<Longrightarrow> rows_grow b c \<Longrightarrow> rows_grow a c"
  unfolding rows_grow_def by (meson order_trans)

lemma rows_grow_put:
  "(\<And>b. map_of rs k = Some b \<Longrightarrow> acc_revision b \<le> acc_revision a) \<Longrightarrow> rows_grow rs (gm_put k a rs)"
  by (auto simp: rows_grow_def)

lemma map_of_map_val: "map_of (map (\<lambda>(k, v). (k, f k v)) m) k = map_option (f k) (map_of m k)"
  by (induction m) auto

lemma rows_grow_enable: "rows_grow rs (enable_part now en part rs)"
  by (simp add: rows_grow_def enable_part_def map_of_map_val)

lemma rows_grow_import_loop: "import_loop now as rs = Inr rs' \<Longrightarrow> rows_grow rs rs'"
proof (induction now as rs rule: import_loop.induct)
  case (2 now a as rs)
  have "rows_grow rs (gm_put (acc_id a) (import_row now a (map_of rs (acc_id a))) rs)"
    by (rule rows_grow_put) (simp add: import_row_def Let_def)
  with 2 show ?case by (auto split: option.splits intro: rows_grow_trans)
qed simp

lemma rows_grow_set_proxies_loop: "set_proxies_loop now its rs = Inr rs' \<Longrightarrow> rows_grow rs rs'"
proof (induction now its rs rule: set_proxies_loop.induct)
  case (2 now it its rs)
  then obtain a where a: "map_of rs (trim_space (pa_id it)) = Some a"
    by (auto simp: Let_def split: if_splits option.splits)
  have "rows_grow rs (gm_put (trim_space (pa_id it)) (set_proxy_row now (trim_space (pa_proxy_url it))
          (trim_space (pa_proxy_mode it)) a) rs)"
    using a by (intro rows_grow_put) (simp add: set_proxy_row_def Let_def)
  with 2 a show ?case by (auto simp: Let_def split: if_splits intro: rows_grow_trans)
qed simp

lemma rows_grow_batch_enable_loop: "rows_grow rs (snd (batch_enable_loop now en ord ids rs ok))"
proof (induction now en ord ids rs ok rule: batch_enable_loop.induct)
  case (1 now en ord ids rs ok)
  then show ?case
    using rows_grow_trans [OF rows_grow_enable [of rs now en "take batch_chunk ids"]]
    by (subst batch_enable_loop.simps) (simp add: Let_def)
qed

lemma rows_grow_touch: "cat_touch c c' \<Longrightarrow> rows_grow (cat_rows c) (cat_rows c')"
proof (induction rule: cat_touch.induct)
  case (touch_tokens c now i n t)
  then show ?case by (auto simp: update_tokens_def split: option.splits intro!: rows_grow_put)
next
  case (touch_patch c now i p)
  then show ?case
    by (auto simp: patch_health_def cat_get_unlocked_def split: option.splits sum.splits
        intro!: rows_grow_put)
next
  case (touch_import c now as)
  then show ?case
    by (auto simp: upsert_imported_many_def rows_grow_import_loop split: sum.splits)
next
  case (touch_proxies c now items)
  then show ?case by (auto simp: set_proxies_def rows_grow_set_proxies_loop split: sum.splits)
next
  case (touch_enable ord c now ids en)
  then show ?case
    using rows_grow_batch_enable_loop [of "cat_rows c" now en ord "clean_ids [] ids" "[]"]
    by (auto simp: batch_set_manual_enabled_def Let_def split: prod.splits)
qed (auto simp: upsert_model_cooldown_def clear_model_cooldown_def
      purge_expired_model_cooldowns_def cat_close_def Let_def)

section \<open>The compare-and-swap contract\<close>

text \<open>
  What a client of optimistic writes relies on: a swap goes through only at the revision
  it names and moves it on, and no other write of the store turns a revision back.
\<close>

locale cas_store =
  fixes revision :: "'s \<Rightarrow> 'k \<Rightarrow> int option"
    and cas :: "'s \<Rightarrow> 'k \<Rightarrow> int \<Rightarrow> 'v \<Rightarrow> bool \<times> 's"
    and evolve :: "'s \<Rightarrow> 's \<Rightarrow> bool"
  assumes cas_ok: "cas s k n v = (True, s') \<Longrightarrow> revision s k = Some n \<and> revision s' k = Some (n + 1)"
    and cas_fail: "cas s k n v = (False, s') \<Longrightarrow> s' = s"
    and evolve_mono: "evolve s s' \<Longrightarrow> revision s k = Some n \<Longrightarrow> \<exists>m \<ge> n. revision s' k = Some m"
begin

lemma evolve_steps_mono:
  "evolve\<^sup>*\<^sup>* s s' \<Longrightarrow> revision s k = Some n \<Longrightarrow> \<exists>m \<ge> n. revision s' k = Some m"
  by (induction rule: rtranclp_induct) (auto dest: evolve_mono intro: order_trans)

lemma single_winner:
  assumes "cas s k n v = (True, s')" and "evolve\<^sup>*\<^sup>* s' t"
  shows "cas t k n w = (False, t)"
proof -
  obtain m where "n + 1 \<le> m" and "revision t k = Some m"
    using assms cas_ok evolve_steps_mono by blast
  moreover obtain b t' where "cas t k n w = (b, t')" by fastforce
  ultimately show ?thesis using cas_ok [of t k n w t'] cas_fail [of t k n w t'] by (cases b) auto
qed

end

definition cas_tokens :: "catalog \<Rightarrow> string \<Rightarrow> int \<Rightarrow> int \<times> token_set \<Rightarrow> bool \<times> catalog" where
  "cas_tokens c i n v = (let (r, c') = update_tokens c (fst v) i n (snd v) in (r = Inr (), c'))"

lemma update_tokens_Inr:
  assumes "update_tokens c now i n t = (Inr (), c')"
  obtains a where "cat_open c" "i \<noteq> []" "1 \<le> n" "map_of (cat_rows c) i = Some a" "acc_revision a = n"
    "c' = c\<lparr>cat_rows := gm_put i
       (a\<lparr>acc_access_token := ts_access_token t, acc_refresh_token := ts_refresh_token t,
          acc_expires_at := ts_expires_at t, acc_revision := n + 1,
          acc_last_refresh_at := Some now, acc_updated_at := now\<rparr>) (cat_rows c)\<rparr>"
  using assms by (force simp: update_tokens_def split: if_splits option.splits)

lemma update_tokens_Inl: "update_tokens c now i n t = (Inl e, c') \<Longrightarrow> c' = c"
  by (auto simp: update_tokens_def split: if_splits option.splits)

lemma cat_touch_rev:
  "cat_touch c c' \<Longrightarrow> cat_rev c k = Some n \<Longrightarrow> \<exists>m \<ge> n. cat_rev c' k = Some m"
  using rows_grow_touch [of c c'] by (auto simp: cat_rev_def rows_grow_def) fastforce

interpretation token_cas: cas_store cat_rev cas_tokens cat_touch
proof
  fix s k n v s'
  assume "cas_tokens s k n v = (True, s')"
  then have "update_tokens s (fst v) k n (snd v) = (Inr (), s')"
    by (auto simp: cas_tokens_def split: prod.splits)
  then show "cat_rev s k = Some n \<and> cat_rev s' k = Some (n + 1)"
    by (elim update_tokens_Inr) (simp add: cat_rev_def)
next
  fix s k n v s'
  assume "cas_tokens s k n v = (False, s')"
  then obtain e where "update_tokens s (fst v) k n (snd v) = (Inl e, s')"
    by (cases "fst (update_tokens s (fst v) k n (snd v))")
       (auto simp: cas_tokens_def split: prod.splits)
  then show "s' = s" by (rule update_tokens_Inl)
qed (rule cat_touch_rev)

section \<open>Batch statements\<close>

definition enabled_row :: "int \<Rightarrow> bool \<Rightarrow> account \<Rightarrow> account" where
  "enabled_row now en a = a\<lparr>acc_enabled := en, acc_manual_disabled := \<not> en,
     acc_revision := acc_revision a + 1, acc_updated_at := now\<rparr>"

lemma map_of_enable_part:
  "map_of (enable_part now en part rs) k =
   map_option (\<lambda>a. if k \<in> set part then enabled_row now en a else a) (map_of rs k)"
  by (auto simp: enable_part_def map_of_map_val enabled_row_def intro!: option.map_cong)

lemma set_take_drop: "set (take n xs) \<union> set (drop n xs) = set xs"
  by (metis append_take_drop_id set_append)

lemma disjoint_take_drop: "distinct xs \<Longrightarrow> set (take n xs) \<inter> set (drop n xs) = {}"
  by (metis append_take_drop_id distinct_append)

lemma mset_take_drop: "mset (take n xs) + mset (drop n xs) = mset xs"
  by (metis append_take_drop_id mset_append)

lemma map_of_enable_none: "map_of (enable_part now en part rs) i = None \<longleftrightarrow> map_of rs i = None"
  by (simp add: map_of_enable_part)

lemma batch_enable_loop_rows:
  "distinct ids \<Longrightarrow> map_of (snd (batch_enable_loop now en ord ids rs ok)) k =
     map_option (\<lambda>a. if k \<in> set ids then enabled_row now en a else a) (map_of rs k)"
proof (induction now en ord ids rs ok rule: batch_enable_loop.induct)
  case (1 now en ord ids rs ok)
  let ?t = "take batch_chunk ids" and ?d = "drop batch_chunk ids"
  have "k \<in> set ids \<longleftrightarrow> k \<in> set ?t \<or> k \<in> set ?d" and "\<not> (k \<in> set ?t \<and> k \<in> set ?d)"
    using disjoint_take_drop [OF "1.prems"] set_take_drop [of batch_chunk ids] by blast+
  with 1 show ?case
    by (subst batch_enable_loop.simps)
       (auto simp: Let_def map_of_enable_part option.map_comp comp_def option.map_ident
         intro!: option.map_cong)
qed

lemma mset_select_ids:
  "iteration_order ord \<Longrightarrow>
   mset (select_ids ord part rs) = filter_mset (\<lambda>i. map_of rs i \<noteq> None) (mset part)"
  by (simp add: select_ids_def iteration_order_mset)

lemma filter_take_drop:
  "filter_mset P (mset (take n xs)) + filter_mset P (mset (drop n xs)) = filter_mset P (mset xs)"
  by (metis filter_union_mset mset_take_drop)

lemma batch_enable_loop_step:
  "ids \<noteq> [] \<Longrightarrow> batch_enable_loop now en ord ids rs ok =
     batch_enable_loop now en ord (drop batch_chunk ids)
       (enable_part now en (take batch_chunk ids) rs)
       (ok @ select_ids ord (take batch_chunk ids) (enable_part now en (take batch_chunk ids) rs))"
  by (subst batch_enable_loop.simps) (simp add: Let_def)

lemma batch_enable_loop_ok:
  assumes "iteration_order ord"
  shows "mset (fst (batch_enable_loop now en ord ids rs ok)) =
     mset ok + filter_mset (\<lambda>i. map_of rs i \<noteq> None) (mset ids)"
proof (induction "length ids" arbitrary: ids rs ok rule: less_induct)
  case less
  show ?case
  proof (cases "ids = []")
    case True
    then show ?thesis by (subst batch_enable_loop.simps) simp
  next
    case False
    then have "length (drop batch_chunk ids) < length ids" by (simp add: batch_chunk_def)
    note IH = less [OF this]
    show ?thesis
      using filter_take_drop [of "\<lambda>i. map_of rs i \<noteq> None" batch_chunk ids]
      by (simp only: batch_enable_loop_step [OF False] IH mset_append mset_select_ids [OF assms]
          map_of_enable_none add.assoc)
  qed
qed

lemma delete_part_none: "iteration_order ord \<Longrightarrow> select_ids ord part rs = [] \<Longrightarrow> delete_part part rs = rs"
proof -
  assume "iteration_order ord" and "select_ids ord part rs = []"
  then have "set (filter (\<lambda>i. map_of rs i \<noteq> None) part) = {}"
    unfolding select_ids_def by (metis iteration_order_set list.set(1))
  then have "\<forall>i \<in> set part. map_of rs i = None" by auto
  then show ?thesis by (auto simp: delete_part_def filter_id_conv map_of_eq_None_iff image_iff)
qed

text \<open>The test for an empty selection only saves a statement that would delete nothing.\<close>

lemma batch_delete_loop_step:
  assumes "iteration_order ord" "ids \<noteq> []"
  shows "batch_delete_loop ord ids rs del = batch_delete_loop ord (drop batch_chunk ids)
    (delete_part (take batch_chunk ids) rs) (del @ select_ids ord (take batch_chunk ids) rs)"
  using assms delete_part_none [OF assms(1), of "take batch_chunk ids" rs]
  by (subst batch_delete_loop.simps) (auto simp: Let_def)

lemma delete_part_split:
  "delete_part (drop n ids) (delete_part (take n ids) rs) = delete_part ids rs"
  using set_take_drop [of n ids] by (auto simp: delete_part_def intro!: filter_cong)

lemma batch_delete_loop_rows:
  assumes "iteration_order ord"
  shows "snd (batch_delete_loop ord ids rs del) = delete_part ids rs"
proof (induction "length ids" arbitrary: ids rs del rule: less_induct)
  case less
  show ?case
  proof (cases "ids = []")
    case True
    then show ?thesis by (subst batch_delete_loop.simps) (simp add: delete_part_def)
  next
    case False
    then have "length (drop batch_chunk ids) < length ids" by (simp add: batch_chunk_def)
    from less [OF this] show ?thesis
      by (simp add: batch_delete_loop_step [OF assms False] delete_part_split)
  qed
qed

lemma map_of_delete_part: "map_of (delete_part part rs) k = (if k \<in> set part then None else map_of rs k)"
  by (induction rs) (auto simp: delete_part_def)

lemma batch_delete_loop_ids:
  assumes "iteration_order ord"
  shows "distinct ids \<Longrightarrow> mset (fst (batch_delete_loop ord ids rs del)) =
     mset del + filter_mset (\<lambda>i. map_of rs i \<noteq> None) (mset ids)"
proof (induction "length ids" arbitrary: ids rs del rule: less_induct)
  case less
  let ?t = "take batch_chunk ids" and ?d = "drop batch_chunk ids"
  show ?case
  proof (cases "ids = []")
    case True
    then show ?thesis by (subst batch_delete_loop.simps) simp
  next
    case False
    then have "length ?d < length ids" by (simp add: batch_chunk_def)
    note IH = less(1) [OF this distinct_drop [OF less(2)]]
    have "filter_mset (\<lambda>i. map_of (delete_part ?t rs) i \<noteq> None) (mset ?d) =
        filter_mset (\<lambda>i. map_of rs i \<noteq> None) (mset ?d)"
      using disjoint_take_drop [OF less(2), of batch_chunk]
      by (intro filter_mset_cong) (auto simp: map_of_delete_part)
    then show ?thesis
      using filter_take_drop [of "\<lambda>i. map_of rs i \<noteq> None" batch_chunk ids]
      by (simp only: batch_delete_loop_step [OF assms False] IH mset_append mset_select_ids [OF assms]
          add.assoc)
  qed
qed

section \<open>Pages of eligible accounts\<close>

definition eligible_sorted :: "(string \<Rightarrow> int option) \<Rightarrow> catalog \<Rightarrow> int \<Rightarrow> account list" where
  "eligible_sorted probe c now =
     sort_key eligible_key (filter (eligible_row probe now) (map snd (cat_rows c)))"

lemma wf_rows_ids: "wf_rows rs \<Longrightarrow> map acc_id (map snd rs) = map fst rs"
  by (auto simp: wf_rows_def wf_account_def split: prod.splits)

lemma eligible_key_less:
  "eligible_key a < eligible_key b \<longleftrightarrow>
     acc_priority b < acc_priority a \<or> acc_priority b = acc_priority a \<and> acc_id a < acc_id b"
  by (auto simp: eligible_key_def less_prod_def')

lemma eligible_sorted_in:
  "a \<in> set (eligible_sorted probe c now) \<longleftrightarrow> a \<in> snd ` set (cat_rows c) \<and> eligible_row probe now a"
  by (auto simp: eligible_sorted_def)

lemma eligible_sorted_distinct:
  assumes "wf_catalog c"
  shows "distinct (map acc_id (eligible_sorted probe c now))"
proof -
  have "distinct (map acc_id (map snd (cat_rows c)))"
    using assms wf_rows_ids wf_catalogD by (metis wf_rows_def gm_wf_def)
  then have "distinct (map acc_id (filter (eligible_row probe now) (map snd (cat_rows c))))"
    by (simp add: distinct_map_filter)
  then show ?thesis
    unfolding eligible_sorted_def
    by (metis mset_eq_imp_distinct_iff mset_map mset_sort)
qed

lemma eligible_sorted_strict:
  assumes "wf_catalog c"
  shows "sorted_wrt (<) (map eligible_key (eligible_sorted probe c now))"
proof -
  have "distinct (map eligible_key (eligible_sorted probe c now))"
    using eligible_sorted_distinct [OF assms, of probe now]
    by (auto simp: distinct_map inj_on_def eligible_key_def)
  then show ?thesis by (simp add: eligible_sorted_def strict_sorted_iff)
qed

lemma filter_greater_nth:
  "sorted_wrt (<) (map f xs) \<Longrightarrow> k < length xs \<Longrightarrow>
   filter (\<lambda>x. (f (xs ! k) :: 'b :: linorder) < f x) xs = drop (Suc k) xs"
proof (induction xs arbitrary: k)
  case (Cons x xs)
  show ?case
  proof (cases k)
    case 0
    with Cons show ?thesis by (auto simp: filter_id_conv)
  next
    case (Suc j)
    with Cons have "f x < f (xs ! j)" by simp
    then have "\<not> f (xs ! j) < f x" by simp
    with Cons Suc show ?thesis by simp
  qed
qed simp

lemma list_eligible_first:
  "cat_open c \<Longrightarrow> 0 < limit \<Longrightarrow> list_eligible probe c now limit [] =
     Inr (map eligible_meta (take (nat limit) (eligible_sorted probe c now)))"
  by (simp add: list_eligible_def eligible_sorted_def)

lemma list_eligible_cursor:
  assumes "wf_catalog c" "cat_open c" "0 < limit" "map_of (cat_rows c) i = Some cur"
  shows "list_eligible probe c now limit i = Inr (map eligible_meta (take (nat limit)
    (filter (\<lambda>a. eligible_key cur < eligible_key a) (eligible_sorted probe c now))))"
proof -
  have "i \<noteq> []" and "acc_id cur = i"
    using assms wf_rowsD wf_catalogD by (auto simp: wf_account_def)
  moreover have "filter (\<lambda>a. eligible_row probe now a \<and> (acc_priority a < acc_priority cur \<or>
        acc_priority a = acc_priority cur \<and> acc_id cur < acc_id a)) (map snd (cat_rows c)) =
      filter (\<lambda>a. eligible_key cur < eligible_key a)
        (filter (eligible_row probe now) (map snd (cat_rows c)))"
    by (auto simp: eligible_key_less intro!: filter_cong)
  ultimately show ?thesis
    using assms by (simp add: list_eligible_def eligible_sorted_def filter_sort)
qed

lemma list_eligible_next:
  assumes "wf_catalog c" "cat_open c" "0 < limit" "k < length (eligible_sorted probe c now)"
  shows "list_eligible probe c now limit (acc_id (eligible_sorted probe c now ! k)) =
    Inr (map eligible_meta (take (nat limit) (drop (Suc k) (eligible_sorted probe c now))))"
proof -
  let ?xs = "eligible_sorted probe c now"
  have "?xs ! k \<in> snd ` set (cat_rows c)" using assms(4) eligible_sorted_in nth_mem by blast
  then have "map_of (cat_rows c) (acc_id (?xs ! k)) = Some (?xs ! k)"
    using wf_catalogD [OF assms(1)]
    by (auto simp: wf_rows_def wf_account_def gm_in_iff [symmetric])
  from list_eligible_cursor [OF assms(1-3) this]
  show ?thesis by (simp add: filter_greater_nth [OF eligible_sorted_strict [OF assms(1)] assms(4)])
qed

text \<open>A reader that follows the cursor, one page of \<open>limit\<close> rows at a time.\<close>

fun eligible_pages ::
  "(string \<Rightarrow> int option) \<Rightarrow> catalog \<Rightarrow> int \<Rightarrow> int \<Rightarrow> nat \<Rightarrow> string \<Rightarrow> hot_meta list" where
  "eligible_pages probe c now limit 0 cursor = []"
| "eligible_pages probe c now limit (Suc n) cursor =
     (case list_eligible probe c now limit cursor of
        Inl e \<Rightarrow> []
      | Inr page \<Rightarrow> if page = [] then []
          else page @ eligible_pages probe c now limit n (hm_id (last page)))"

lemma last_take_drop:
  "0 < length (take n (drop j xs)) \<Longrightarrow>
   last (take n (drop j xs)) = xs ! (j + length (take n (drop j xs)) - 1)"
  by (auto simp: last_conv_nth min_def)

lemma eligible_pages_from:
  assumes "wf_catalog c" "cat_open c" "0 < limit"
    and "j \<le> length (eligible_sorted probe c now)"
    and "j = 0 \<and> cursor = [] \<or>
      (\<exists>k < length (eligible_sorted probe c now). j = Suc k \<and>
        cursor = acc_id (eligible_sorted probe c now ! k))"
    and "length (eligible_sorted probe c now) - j < n"
  shows "eligible_pages probe c now limit n cursor =
    map eligible_meta (drop j (eligible_sorted probe c now))"
  using assms(4-6)
proof (induction n arbitrary: j cursor)
  case (Suc n)
  let ?xs = "eligible_sorted probe c now"
  let ?page = "take (nat limit) (drop j ?xs)"
  have page: "list_eligible probe c now limit cursor = Inr (map eligible_meta ?page)"
    using Suc(3) list_eligible_next [OF assms(1-3)] list_eligible_first [OF assms(2,3)] by auto
  show ?case
  proof (cases "?page = []")
    case True
    with assms(3) have "length ?xs \<le> j" by simp
    with page True show ?thesis by simp
  next
    case False
    let ?j = "j + length ?page"
    have len: "?j \<le> length ?xs" "0 < length ?page" using Suc(2) False by auto
    have "last ?page = ?xs ! (?j - 1)" using len(2) by (rule last_take_drop)
    then have "eligible_pages probe c now limit n (hm_id (last (map eligible_meta ?page))) =
        map eligible_meta (drop ?j ?xs)"
      using Suc(4) len False
      by (intro Suc.IH) (auto simp: last_map eligible_meta_def intro!: exI [of _ "?j - 1"])
    moreover have "?page @ drop ?j ?xs = drop j ?xs"
      using Suc(2) by (metis append_take_drop_id drop_drop add.commute length_take length_drop
          min.cobounded1 min_def take_all drop_all nle_le diff_add_inverse le_add_diff_inverse2)
    ultimately show ?thesis
      using page False by (simp flip: map_append)
  qed
qed simp

section \<open>Imports and proxy assignments\<close>

text \<open>What an import may not touch on an existing row: management and health.\<close>

definition same_management :: "account \<Rightarrow> account \<Rightarrow> bool" where
  "same_management a b \<longleftrightarrow>
     acc_enabled b = acc_enabled a \<and> acc_manual_disabled b = acc_manual_disabled a \<and>
     acc_lifecycle b = acc_lifecycle a \<and> acc_priority b = acc_priority a \<and>
     acc_failure_count b = acc_failure_count a \<and> acc_success_count b = acc_success_count a \<and>
     acc_cooldown_until b = acc_cooldown_until a \<and> acc_last_error b = acc_last_error a \<and>
     acc_consecutive_unauthorized b = acc_consecutive_unauthorized a \<and>
     acc_quarantine_fp b = acc_quarantine_fp a \<and> acc_purge_after b = acc_purge_after a \<and>
     acc_billing_json b = acc_billing_json a \<and> acc_created_at b = acc_created_at a"

lemma same_management_refl [simp]: "same_management a a"
  by (simp add: same_management_def)

lemma same_management_trans: "same_management a b \<Longrightarrow> same_management b c \<Longrightarrow> same_management a c"
  by (simp add: same_management_def)

lemma import_row_same: "same_management a (import_row now n (Some a))"
  by (simp add: import_row_def Let_def same_management_def)

lemma import_loop_same:
  "import_loop now as rs = Inr rs' \<Longrightarrow> map_of rs k = Some a \<Longrightarrow>
   \<exists>b. map_of rs' k = Some b \<and> same_management a b \<and>
     acc_revision b = acc_revision a + int (length (filter (\<lambda>n. acc_id n = k) as))"
proof (induction now as rs arbitrary: a rule: import_loop.induct)
  case (2 now n as rs)
  show ?case
  proof (cases "acc_id n = k")
    case True
    let ?b = "import_row now n (Some a)"
    have "\<exists>b. map_of rs' k = Some b \<and> same_management ?b b \<and>
        acc_revision b = acc_revision ?b + int (length (filter (\<lambda>n. acc_id n = k) as))"
      using 2 True by (auto split: option.splits)
    then show ?thesis
      using True import_row_same [of a now n]
      by (auto simp: import_row_def Let_def intro: same_management_trans)
  next
    case False
    with 2 show ?thesis by (auto split: option.splits)
  qed
qed simp

definition proxy_step :: "int \<Rightarrow> string \<Rightarrow> proxy_assignment \<Rightarrow> account \<Rightarrow> account" where
  "proxy_step now k it a =
     (if trim_space (pa_id it) = k
      then set_proxy_row now (trim_space (pa_proxy_url it)) (trim_space (pa_proxy_mode it)) a
      else a)"

definition assignable :: "rows \<Rightarrow> proxy_assignment \<Rightarrow> bool" where
  "assignable rs it \<longleftrightarrow> trim_space (pa_id it) \<noteq> [] \<and> map_of rs (trim_space (pa_id it)) \<noteq> None"

lemma assignable_put: "map_of rs k = Some a \<Longrightarrow> assignable (gm_put k b rs) it = assignable rs it"
  by (auto simp: assignable_def)

lemma set_proxies_loop_ok:
  "(\<exists>rs'. set_proxies_loop now its rs = Inr rs') \<longleftrightarrow> (\<forall>it \<in> set its. assignable rs it)"
  by (induction now its rs rule: set_proxies_loop.induct)
     (auto simp: Let_def assignable_put assignable_def split: option.splits)

lemma set_proxies_loop_rows:
  "set_proxies_loop now its rs = Inr rs' \<Longrightarrow>
   map_of rs' k = map_option (fold (proxy_step now k) its) (map_of rs k)"
  by (induction now its rs rule: set_proxies_loop.induct)
     (auto simp: Let_def proxy_step_def option.map_comp comp_def option.map_ident option.map_id
       split: if_splits option.splits)

section \<open>Properties\<close>

definition sample_account :: "string \<Rightarrow> int \<Rightarrow> account" where
  "sample_account i p =
     \<lparr>acc_id = i, acc_revision = 1, acc_identity_key = [], acc_email = [], acc_name = [],
      acc_priority = p, acc_enabled = True, acc_manual_disabled = False,
      acc_lifecycle = LifecycleActive, acc_access_token = ''at'', acc_refresh_token = ''rt'',
      acc_expires_at = 0, acc_proxy_mode = [], acc_proxy_url = [], acc_failure_count = 0,
      acc_success_count = 0, acc_cooldown_until = 0, acc_last_error = [], acc_last_used_at = None,
      acc_last_success_at = None, acc_last_refresh_at = None, acc_consecutive_unauthorized = 0,
      acc_quarantine_fp = [], acc_purge_after = None, acc_billing_json = [],
      acc_created_at = 1, acc_updated_at = 1\<rparr>"

definition sample_catalog :: catalog where
  "sample_catalog = snd (upsert_many empty_catalog 9
     [sample_account ''a'' 1, sample_account ''b'' 2, sample_account ''c'' 1])"

definition sample_tokens :: token_set where
  "sample_tokens = \<lparr>ts_access_token = ''x'', ts_refresh_token = ''y'', ts_expires_at = 99\<rparr>"

lemma sample_catalog_steps: "cat_step\<^sup>*\<^sup>* empty_catalog sample_catalog"
  unfolding sample_catalog_def by (intro r_into_rtranclp step_upsert)

text \<open>
  C13. Every catalog that a sequence of writes of the API (in any order, with any arguments,
  errors included) leads to from the empty database is well formed: the ids are distinct
  and are the keys, every revision is at least 1, no row lacks a token or a lifecycle, and
  the model cooldowns are keyed by their account and model with a positive deadline.
\<close>

theorem reachable_catalog_wf: "cat_step\<^sup>*\<^sup>* empty_catalog c \<Longrightarrow> wf_catalog c"
  using wf_cat_steps wf_empty by blast

theorem reachable_catalog_wf_witness: "wf_catalog sample_catalog"
  by (rule reachable_catalog_wf [OF sample_catalog_steps])

definition swap_args_ok :: "catalog \<Rightarrow> string \<Rightarrow> int \<Rightarrow> token_set \<Rightarrow> bool" where
  "swap_args_ok c i n t \<longleftrightarrow> cat_open c \<and> i \<noteq> [] \<and> ts_access_token t \<noteq> [] \<and>
     ts_refresh_token t \<noteq> [] \<and> 1 \<le> n"

text \<open>
  C14. \<open>UpdateTokens\<close> is a compare-and-swap: it succeeds exactly when the store is open, the
  arguments are valid and the row exists with the expected revision; then it replaces the
  three token fields, stamps the two times and adds one to the revision, and no other field
  and no other row changes. Otherwise the store is unchanged, and a stale revision of an
  existing row is reported as \<open>ErrCASConflict\<close>.
\<close>

theorem update_tokens_cas:
  "case update_tokens c now i n t of
     (Inr u, c') \<Rightarrow> swap_args_ok c i n t \<and>
       (\<exists>a. map_of (cat_rows c) i = Some a \<and> acc_revision a = n \<and>
         cat_open c' \<and> cat_models c' = cat_models c \<and>
         map_of (cat_rows c') = (map_of (cat_rows c))(i \<mapsto>
           a\<lparr>acc_access_token := ts_access_token t, acc_refresh_token := ts_refresh_token t,
             acc_expires_at := ts_expires_at t, acc_revision := n + 1,
             acc_last_refresh_at := Some now, acc_updated_at := now\<rparr>))
   | (Inl e, c') \<Rightarrow> c' = c \<and> \<not> (swap_args_ok c i n t \<and> cat_rev c i = Some n) \<and>
       (e = CatCASConflict) = (swap_args_ok c i n t \<and> (\<exists>m. cat_rev c i = Some m \<and> m \<noteq> n))"
  by (auto simp: update_tokens_def cat_rev_def swap_args_ok_def split: option.splits)

text \<open>
  Of two token writers that read the same revision only the first wins: after a
  successful \<open>UpdateTokens\<close> at revision \<open>n\<close>, and any sequence of other writes that neither
  replace nor remove rows, a second \<open>UpdateTokens\<close> at revision \<open>n\<close> fails and changes nothing.
\<close>

theorem token_swap_single_winner:
  assumes "update_tokens c now i n t = (Inr (), c1)" and "cat_touch\<^sup>*\<^sup>* c1 c2"
  shows "snd (update_tokens c2 now' i n t') = c2 \<and> (\<exists>e. fst (update_tokens c2 now' i n t') = Inl e)"
proof -
  have "cas_tokens c i n (now, t) = (True, c1)" using assms(1) by (simp add: cas_tokens_def)
  from token_cas.single_winner [OF this assms(2), of "(now', t')"]
  show ?thesis
    by (cases "fst (update_tokens c2 now' i n t')") (auto simp: cas_tokens_def split: prod.splits)
qed

theorem token_swap_single_winner_witness:
  "let c1 = snd (update_tokens sample_catalog 20 ''b'' 1 sample_tokens);
       c2 = snd (patch_health c1 30 ''b'' (no_patch\<lparr>hp_cooldown_until := Some 50\<rparr>)) in
   snd (update_tokens c2 40 ''b'' 1 sample_tokens) = c2"
proof -
  have "update_tokens sample_catalog 20 ''b'' 1 sample_tokens =
      (Inr (), snd (update_tokens sample_catalog 20 ''b'' 1 sample_tokens))" by code_simp
  from token_swap_single_winner [OF this r_into_rtranclp [of cat_touch, OF touch_patch]]
  show ?thesis by (simp add: Let_def)
qed

text \<open>
  Following the cursor of \<open>ListEligible\<close> page by page (any positive page size, no write
  in between) returns every eligible row exactly once, by descending priority and then id,
  and nothing else.
\<close>

theorem eligible_pages_complete:
  assumes "wf_catalog c" "cat_open c" "0 < limit" "length (cat_rows c) < n"
  shows "eligible_pages probe c now limit n [] = map eligible_meta (eligible_sorted probe c now) \<and>
    distinct (map acc_id (eligible_sorted probe c now)) \<and>
    sorted (map eligible_key (eligible_sorted probe c now)) \<and>
    set (eligible_sorted probe c now) = {a \<in> snd ` set (cat_rows c). eligible_row probe now a}"
proof -
  have "length (eligible_sorted probe c now) < n"
    using assms(4) length_filter_le [of "eligible_row probe now" "map snd (cat_rows c)"]
    unfolding eligible_sorted_def length_sort by (simp only: length_map)
  then have "eligible_pages probe c now limit n [] =
      map eligible_meta (drop 0 (eligible_sorted probe c now))"
    using assms by (intro eligible_pages_from) auto
  moreover have "sorted (map eligible_key (eligible_sorted probe c now))"
    by (simp add: eligible_sorted_def)
  ultimately show ?thesis
    using eligible_sorted_distinct [OF assms(1), of probe now] eligible_sorted_in [of _ probe c now]
    by (simp add: set_eq_iff)
qed

theorem eligible_pages_complete_witness:
  "map hm_id (eligible_pages (\<lambda>_. None) sample_catalog 10 2 4 []) = [''b'', ''a'', ''c'']"
proof -
  have "cat_open sample_catalog" and "length (cat_rows sample_catalog) < 4" by code_simp+
  then have "eligible_pages (\<lambda>_. None) sample_catalog 10 2 4 [] =
      map eligible_meta (eligible_sorted (\<lambda>_. None) sample_catalog 10)"
    using eligible_pages_complete [of sample_catalog 2 4 "\<lambda>_. None" 10]
      wf_cat_steps [OF sample_catalog_steps wf_empty] by simp
  moreover have "map acc_id (eligible_sorted (\<lambda>_. None) sample_catalog 10) = [''b'', ''a'', ''c'']"
    by code_simp
  ultimately show ?thesis by (simp add: eligible_meta_def comp_def)
qed

text \<open>
  \<open>BatchDelete\<close> on an open store reports exactly the ids that existed, each once,
  whatever order the database returns them in and however the ids split into chunks; the
  named rows are gone and every other row is as it was.
\<close>

theorem batch_delete_exact:
  assumes "iteration_order ord" "cat_open c" "clean_ids [] ids \<noteq> []"
  shows "\<exists>del c'. batch_delete c ord ids = (Inr del, c') \<and> distinct del \<and>
    set del = set (clean_ids [] ids) \<inter> dom (map_of (cat_rows c)) \<and>
    map_of (cat_rows c') = map_of (cat_rows c) |` (- set (clean_ids [] ids)) \<and>
    cat_models c' = cat_models c"
proof -
  obtain del rs where r: "batch_delete_loop ord (clean_ids [] ids) (cat_rows c) [] = (del, rs)"
    by fastforce
  have m: "mset del = mset (filter (\<lambda>i. map_of (cat_rows c) i \<noteq> None) (clean_ids [] ids))"
    using batch_delete_loop_ids [OF assms(1) clean_ids_distinct [of "[]" ids], of "cat_rows c" "[]"] r
    by simp
  then have "distinct del"
    using clean_ids_distinct [of "[]" ids] by (metis distinct_filter mset_eq_imp_distinct_iff)
  moreover have "set del = set (clean_ids [] ids) \<inter> dom (map_of (cat_rows c))"
    using mset_eq_setD [OF m] by auto
  moreover have "rs = delete_part (clean_ids [] ids) (cat_rows c)"
    using batch_delete_loop_rows [OF assms(1), of "clean_ids [] ids" "cat_rows c" "[]"] r by simp
  ultimately show ?thesis
    using r assms by (auto simp: batch_delete_def Let_def map_of_delete_part restrict_map_def)
qed

theorem batch_delete_exact_witness:
  "\<exists>del c'. batch_delete sample_catalog rev ['' c'', ''q'', ''c''] = (Inr del, c') \<and> del = [''c'']"
proof -
  have "cat_open sample_catalog" and "clean_ids [] ['' c'', ''q'', ''c''] \<noteq> []" by code_simp+
  from batch_delete_exact [OF iteration_order_rev this] obtain del c' where
    d: "batch_delete sample_catalog rev ['' c'', ''q'', ''c''] = (Inr del, c')" by blast
  moreover have "fst (batch_delete sample_catalog rev ['' c'', ''q'', ''c'']) = Inr [''c'']"
    by code_simp
  ultimately show ?thesis by simp
qed

text \<open>
  \<open>SetProxies\<close> is all or nothing: it succeeds exactly when the store is open and every
  assignment names an existing row (after trimming); then each row carries the last proxy
  assigned to it and one more revision per assignment. Otherwise nothing is changed.
\<close>

theorem set_proxies_atomic:
  "case set_proxies c now items of
     (Inr u, c') \<Rightarrow> cat_open c \<and> list_all (assignable (cat_rows c)) items \<and>
       (\<forall>k. map_of (cat_rows c') k = map_option (fold (proxy_step now k) items) (map_of (cat_rows c) k))
   | (Inl e, c') \<Rightarrow> c' = c \<and> \<not> (cat_open c \<and> list_all (assignable (cat_rows c)) items)"
  using set_proxies_loop_ok [of now items "cat_rows c"]
  by (auto simp: set_proxies_def list_all_iff set_proxies_loop_rows option.map_id option.map_ident
      id_def split: sum.splits)

text \<open>
  An import never changes how an existing account is managed: whatever the file says,
  the enabled and manual switches, the lifecycle, the priority, the health counters, the
  cooldown, the quarantine marks and the billing snapshot stay, and the revision grows by
  one for each time the account occurs in the file.
\<close>

theorem import_keeps_management:
  assumes "upsert_imported_many c now as = (Inr (), c')" and "map_of (cat_rows c) k = Some a"
  shows "\<exists>b. map_of (cat_rows c') k = Some b \<and> same_management a b \<and>
    acc_revision b = acc_revision a + int (length (filter (\<lambda>n. acc_id n = k) as))"
  using assms import_loop_same
  by (auto simp: upsert_imported_many_def split: if_splits sum.splits)

theorem import_keeps_management_witness:
  "\<exists>b. map_of (cat_rows (snd (upsert_imported_many sample_catalog 50
      [(sample_account ''a'' 7)\<lparr>acc_enabled := False, acc_access_token := ''new''\<rparr>]))) ''a'' = Some b \<and>
    acc_enabled b \<and> acc_priority b = 1 \<and> acc_revision b = 2"
proof -
  let ?n = "(sample_account ''a'' 7)\<lparr>acc_enabled := False, acc_access_token := ''new''\<rparr>"
  have u: "upsert_imported_many sample_catalog 50 [?n] =
      (Inr (), snd (upsert_imported_many sample_catalog 50 [?n]))"
    and a: "map_of (cat_rows sample_catalog) ''a'' = Some (sample_account ''a'' 1)" by code_simp+
  from import_keeps_management [OF u a] show ?thesis
    by (auto simp: same_management_def sample_account_def)
qed

end
