(* ===== verification/Hot.thy ===== *)
theory Hot
  imports Catalog Contracts
begin

text \<open>
  The hot set (\<open>internal/hot/index.go\<close>): the in-memory index of the accounts the selector
  draws from, with a dense id list and its inverse for O(1) sampling and removal, and the
  live in-flight counters.

  Every operation that the code runs under the lock is one function on the state;
  \<open>LoadEligible\<close>, which releases the lock while it queries the catalog, is three:
  the snapshot, the page loop and the commit. Loops over the Go map take the iteration
  order \<open>ord\<close>; the random source is a function \<open>intn\<close> with an explicit state.
\<close>

section \<open>Data\<close>

definition DefaultHotSize :: int where "DefaultHotSize = 3000"
definition listPageSize :: nat where "listPageSize = 500"

datatype hot_error = HotNotFound | HotInvalidInput | HotClosed | HotNoVictim | HotLoad cat_error

record index =
  hi_cfg_size :: int
  hi_max_inflight :: int
  hi_hot :: "(string, hot_meta) gomap"
  hi_ids :: "string list"
  hi_pos :: "(string, nat) gomap"
  hi_cap :: nat
  hi_closed :: bool

record hot_stats =
  hs_hot_size :: nat
  hs_cap :: nat
  hs_cooldown_count :: nat
  hs_inflight_sum :: int
  hs_disabled_count :: nat

section \<open>The dense list\<close>

definition hot_new :: "int \<Rightarrow> int \<Rightarrow> index" where
  "hot_new hot_size max_inflight =
     \<lparr>hi_cfg_size = hot_size, hi_max_inflight = max_inflight, hi_hot = [], hi_ids = [], hi_pos = [],
      hi_cap = nat (if hot_size \<le> 0 then DefaultHotSize else hot_size), hi_closed = False\<rparr>"

definition add_locked :: "string \<Rightarrow> index \<Rightarrow> index" where
  "add_locked i x =
     x\<lparr>hi_pos := gm_put i (length (hi_ids x)) (hi_pos x), hi_ids := hi_ids x @ [i]\<rparr>"

definition remove_locked :: "string \<Rightarrow> index \<Rightarrow> index" where
  "remove_locked i x =
     (case gm_get (hi_pos x) i of
        None \<Rightarrow> x
      | Some n \<Rightarrow>
          let l = length (hi_ids x) - 1;
              y = (if n \<noteq> l then
                     let moved = hi_ids x ! l in
                     x\<lparr>hi_ids := (hi_ids x)[n := moved], hi_pos := gm_put moved n (hi_pos x)\<rparr>
                   else x)
          in y\<lparr>hi_ids := take l (hi_ids y), hi_pos := gm_del i (hi_pos y)\<rparr>)"

fun index_ids :: "string list \<Rightarrow> nat \<Rightarrow> (string, nat) gomap \<Rightarrow> (string, nat) gomap" where
  "index_ids [] n pos = pos"
| "index_ids (i # is) n pos = index_ids is (Suc n) (gm_put i n pos)"

definition replace_all_locked ::
  "(string list \<Rightarrow> string list) \<Rightarrow> (string, hot_meta) gomap \<Rightarrow> index \<Rightarrow> index" where
  "replace_all_locked ord nxt x =
     x\<lparr>hi_hot := nxt, hi_ids := ord (map fst nxt), hi_pos := index_ids (ord (map fst nxt)) 0 []\<rparr>"

text \<open>The loop of \<open>Resize\<close> has no bound of its own: not ending is None.\<close>

partial_function (option) shrink_to :: "nat \<Rightarrow> index \<Rightarrow> index option" where
  [code]: "shrink_to n x =
     (if n < length (hi_ids x)
      then let i = last (hi_ids x); y = remove_locked i x in
        shrink_to n (y\<lparr>hi_hot := gm_del i (hi_hot y)\<rparr>)
      else Some x)"

definition hot_resize :: "int \<Rightarrow> index \<Rightarrow> index option" where
  "hot_resize n x =
     (let m = (if n \<le> 0 then DefaultHotSize else n) in
      shrink_to (nat m) (x\<lparr>hi_cap := nat m, hi_cfg_size := m\<rparr>))"

definition hot_len :: "index \<Rightarrow> nat" where
  "hot_len x = length (hi_hot x)"

definition hot_close :: "index \<Rightarrow> index" where
  "hot_close x = x\<lparr>hi_closed := True\<rparr>"

section \<open>Loading\<close>

definition prev_inflight :: "(string, hot_meta) gomap \<Rightarrow> (string, int) gomap" where
  "prev_inflight hot = map (\<lambda>(i, m). (i, hm_inflight m)) (filter (\<lambda>(i, m). hm_inflight m \<noteq> 0) hot)"

definition load_snapshot :: "index \<Rightarrow> hot_error + ((string, int) gomap \<times> nat)" where
  "load_snapshot x =
     (if hi_closed x then Inl HotClosed else Inr (prev_inflight (hi_hot x), hi_cap x))"

definition with_inflight :: "(string, int) gomap \<Rightarrow> hot_meta \<Rightarrow> hot_meta" where
  "with_inflight prev m =
     m\<lparr>hm_inflight := (case gm_get prev (hm_id m) of Some n \<Rightarrow> n | None \<Rightarrow> 0)\<rparr>"

definition load_page_size :: "nat \<Rightarrow> nat" where
  "load_page_size need = (if listPageSize * 4 < need then listPageSize * 4 else need)"

text \<open>
  The page loop. \<open>lst q n i\<close> is the answer of the catalog to the \<open>q\<close>-th query of the loop
  (other writers may run between two queries).
\<close>

function load_pages ::
  "(nat \<Rightarrow> int \<Rightarrow> string \<Rightarrow> cat_error + hot_meta list) \<Rightarrow> (string, int) gomap \<Rightarrow> nat \<Rightarrow> nat
   \<Rightarrow> hot_meta list \<Rightarrow> string \<Rightarrow> hot_error + hot_meta list" where
  "load_pages lst prev cap q loaded after =
     (if length loaded < cap then
        let need = cap - length loaded;
            page = load_page_size need in
        case lst q (int page) after of
          Inl e \<Rightarrow> Inl (HotLoad e)
        | Inr batch \<Rightarrow>
            if batch = [] then Inr loaded
            else
              let taken = take need batch; loaded' = loaded @ map (with_inflight prev) taken in
              if length batch < page then Inr loaded'
              else load_pages lst prev cap (Suc q) loaded' (hm_id (last taken))
      else Inr loaded)"
  by pat_completeness auto
termination
proof (relation "measure (\<lambda>(lst, prev, cap, q, loaded, after). cap - length loaded)", goal_cases)
  case 1
  then show ?case by simp
next
  case (2 lst prev cap q loaded after need page batch taken loaded')
  then have "0 < length batch" by simp
  then have "0 < min (length batch) (cap - length loaded)" using 2(1) by simp
  then show ?case using 2 by (simp del: length_greater_0_conv)
qed

declare load_pages.simps [simp del]

definition metas_map :: "hot_meta list \<Rightarrow> (string, hot_meta) gomap" where
  "metas_map ms = fold (\<lambda>m. gm_put (hm_id m) m) ms []"

definition load_commit ::
  "(string list \<Rightarrow> string list) \<Rightarrow> hot_meta list \<Rightarrow> index \<Rightarrow> (hot_error + nat) \<times> index" where
  "load_commit ord loaded x =
     (if hi_closed x then (Inl HotClosed, x)
      else let nxt = metas_map loaded in (Inr (length nxt), replace_all_locked ord nxt x))"

text \<open>\<open>LoadEligible\<close> when no other operation of the index runs between its two locked parts.\<close>

definition load_eligible ::
  "(string list \<Rightarrow> string list) \<Rightarrow> (nat \<Rightarrow> int \<Rightarrow> string \<Rightarrow> cat_error + hot_meta list)
   \<Rightarrow> index \<Rightarrow> (hot_error + nat) \<times> index" where
  "load_eligible ord lst x =
     (case load_snapshot x of
        Inl e \<Rightarrow> (Inl e, x)
      | Inr (prev, cap) \<Rightarrow>
          (case load_pages lst prev cap 0 [] [] of
             Inl e \<Rightarrow> (Inl e, x)
           | Inr loaded \<Rightarrow> load_commit ord loaded x))"

definition keep_inflight :: "(string, int) gomap \<Rightarrow> hot_meta \<Rightarrow> hot_meta" where
  "keep_inflight prev m =
     (case gm_get prev (hm_id m) of Some n \<Rightarrow> m\<lparr>hm_inflight := n\<rparr> | None \<Rightarrow> m)"

definition load_metas ::
  "(string list \<Rightarrow> string list) \<Rightarrow> hot_meta list \<Rightarrow> index \<Rightarrow> (hot_error + nat) \<times> index" where
  "load_metas ord metas x =
     (if hi_closed x then (Inl HotClosed, x)
      else
        let kept = take (hi_cap x) metas in
        if \<exists>m \<in> set kept. hm_id m = [] then (Inl HotInvalidInput, x)
        else let nxt = metas_map (map (keep_inflight (prev_inflight (hi_hot x))) kept) in
          (Inr (length nxt), replace_all_locked ord nxt x))"

section \<open>Entries\<close>

definition snapshot_hot :: "(hot_meta list \<Rightarrow> hot_meta list) \<Rightarrow> index \<Rightarrow> hot_meta list" where
  "snapshot_hot ord x = ord (map snd (hi_hot x))"

definition hot_get :: "string \<Rightarrow> index \<Rightarrow> hot_meta option" where
  "hot_get i x = gm_get (hi_hot x) i"

text \<open>The shape \<open>AddInflight\<close>, \<open>SubInflight\<close> and \<open>SetCooldown\<close> share.\<close>

definition hot_modify :: "string \<Rightarrow> (hot_meta \<Rightarrow> hot_meta) \<Rightarrow> index \<Rightarrow> hot_error option \<times> index" where
  "hot_modify i f x =
     (if i = [] then (Some HotInvalidInput, x)
      else if hi_closed x then (Some HotClosed, x)
      else case gm_get (hi_hot x) i of
        None \<Rightarrow> (Some HotNotFound, x)
      | Some m \<Rightarrow> (None, x\<lparr>hi_hot := gm_put i (f m) (hi_hot x)\<rparr>))"

definition add_inflight :: "string \<Rightarrow> index \<Rightarrow> hot_error option \<times> index" where
  "add_inflight i = hot_modify i (\<lambda>m. m\<lparr>hm_inflight := wrap32 (hm_inflight m + 1)\<rparr>)"

definition sub_inflight :: "string \<Rightarrow> index \<Rightarrow> hot_error option \<times> index" where
  "sub_inflight i = hot_modify i
     (\<lambda>m. if hm_inflight m > 0 then m\<lparr>hm_inflight := hm_inflight m - 1\<rparr> else m)"

definition set_cooldown :: "string \<Rightarrow> int \<Rightarrow> index \<Rightarrow> hot_error option \<times> index" where
  "set_cooldown i until = hot_modify i (\<lambda>m. m\<lparr>hm_cooldown_until := until\<rparr>)"

definition worse_victim :: "hot_meta \<Rightarrow> hot_meta \<Rightarrow> bool" where
  "worse_victim a b =
     (if hm_priority a \<noteq> hm_priority b then hm_priority a < hm_priority b
      else if hm_failure_score a \<noteq> hm_failure_score b then hm_failure_score a > hm_failure_score b
      else if hm_inflight a \<noteq> hm_inflight b then hm_inflight a > hm_inflight b
      else hm_id a > hm_id b)"

fun victim_loop :: "(string \<times> hot_meta) list \<Rightarrow> (string \<times> hot_meta) option \<Rightarrow> (string \<times> hot_meta) option" where
  "victim_loop [] best = best"
| "victim_loop ((i, m) # es) None = victim_loop es (Some (i, m))"
| "victim_loop ((i, m) # es) (Some (bi, bm)) =
     (if worse_victim m bm then victim_loop es (Some (i, m)) else victim_loop es (Some (bi, bm)))"

definition pick_demote_victim ::
  "((string \<times> hot_meta) list \<Rightarrow> (string \<times> hot_meta) list) \<Rightarrow> (string, hot_meta) gomap \<Rightarrow> string" where
  "pick_demote_victim ord hot = (case victim_loop (ord hot) None of None \<Rightarrow> [] | Some (i, m) \<Rightarrow> i)"

definition hot_drop :: "string \<Rightarrow> index \<Rightarrow> index" where
  "hot_drop i x = remove_locked i (x\<lparr>hi_hot := gm_del i (hi_hot x)\<rparr>)"

definition nonneg_inflight :: "hot_meta \<Rightarrow> hot_meta" where
  "nonneg_inflight m = (if hm_inflight m < 0 then m\<lparr>hm_inflight := 0\<rparr> else m)"

definition promote ::
  "((string \<times> hot_meta) list \<Rightarrow> (string \<times> hot_meta) list) \<Rightarrow> hot_meta \<Rightarrow> index
   \<Rightarrow> (hot_error + string) \<times> index" where
  "promote ord m x =
     (if hm_id m = [] then (Inl HotInvalidInput, x)
      else if hi_closed x then (Inl HotClosed, x)
      else case gm_get (hi_hot x) (hm_id m) of
        Some old \<Rightarrow>
          (Inr [], x\<lparr>hi_hot := gm_put (hm_id m) (m\<lparr>hm_inflight := hm_inflight old\<rparr>) (hi_hot x)\<rparr>)
      | None \<Rightarrow>
          let full = hi_cap x \<le> length (hi_hot x);
              victim = (if full then pick_demote_victim ord (hi_hot x) else []) in
          if full \<and> victim = [] then (Inl HotNoVictim, x)
          else
            let y = (if full then hot_drop victim x else x) in
            (Inr victim,
             add_locked (hm_id m) (y\<lparr>hi_hot := gm_put (hm_id m) (nonneg_inflight m) (hi_hot y)\<rparr>)))"

definition demote :: "string \<Rightarrow> index \<Rightarrow> hot_error option \<times> index" where
  "demote i x =
     (if i = [] then (Some HotInvalidInput, x)
      else if hi_closed x then (Some HotClosed, x)
      else (None, hot_drop i x))"

definition demote_many :: "string list \<Rightarrow> index \<Rightarrow> index" where
  "demote_many ids x =
     (if hi_closed x then x
      else fold (\<lambda>i y. if i = [] then y else hot_drop i y) ids x)"

section \<open>Eligibility and sampling\<close>

definition eligible_with_inflight_cap :: "hot_meta \<Rightarrow> int \<Rightarrow> int \<Rightarrow> bool" where
  "eligible_with_inflight_cap m now max_inflight =
     (if \<not> hm_enabled m then False
      else if hm_lifecycle m \<noteq> [] \<and> hm_lifecycle m \<noteq> LifecycleActive then False
      else if hm_cooldown_until m > now then False
      else if max_inflight > 0 \<and> hm_inflight m \<ge> max_inflight then False
      else True)"

definition is_eligible :: "hot_meta \<Rightarrow> int \<Rightarrow> bool" where
  "is_eligible m now = eligible_with_inflight_cap m now 0"

definition hi_eligible_meta :: "index \<Rightarrow> hot_meta \<Rightarrow> int \<Rightarrow> bool" where
  "hi_eligible_meta x m now = eligible_with_inflight_cap m now (hi_max_inflight x)"

definition set_max_inflight :: "int \<Rightarrow> index \<Rightarrow> index" where
  "set_max_inflight n x = x\<lparr>hi_max_inflight := n\<rparr>"

definition hot_eligible ::
  "(hot_meta list \<Rightarrow> hot_meta list) \<Rightarrow> int \<Rightarrow> int \<Rightarrow> index \<Rightarrow> hot_meta list" where
  "hot_eligible ord clock now x =
     filter (\<lambda>m. hi_eligible_meta x m (now_or clock now)) (ord (map snd (hi_hot x)))"

text \<open>What one probe of \<open>SampleEligible\<close> finds at an id.\<close>

definition probe_id :: "index \<Rightarrow> int \<Rightarrow> string list \<Rightarrow> string \<Rightarrow> hot_meta option" where
  "probe_id x now exclude i =
     (if i \<in> set exclude then None
      else case gm_get (hi_hot x) i of
        None \<Rightarrow> None
      | Some m \<Rightarrow> if hi_eligible_meta x m now then Some m else None)"

function fisher_yates ::
  "index \<Rightarrow> int \<Rightarrow> string list \<Rightarrow> ('r \<Rightarrow> nat \<Rightarrow> nat \<times> 'r) \<Rightarrow> nat \<Rightarrow> nat \<Rightarrow> nat list
   \<Rightarrow> hot_meta list \<Rightarrow> 'r \<Rightarrow> hot_meta list \<times> 'r" where
  "fisher_yates x now exclude intn k i idxs picked r =
     (if i < length (hi_ids x) \<and> length picked < k then
        let (d, r') = intn r (length (hi_ids x) - i); j = i + d;
            idxs' = idxs[i := idxs ! j, j := idxs ! i] in
        case probe_id x now exclude (hi_ids x ! (idxs' ! i)) of
          None \<Rightarrow> fisher_yates x now exclude intn k (Suc i) idxs' picked r'
        | Some m \<Rightarrow> fisher_yates x now exclude intn k (Suc i) idxs' (picked @ [m]) r'
      else (picked, r))"
  by pat_completeness auto
termination
  by (relation "measure (\<lambda>(x, now, exclude, intn, k, i, idxs, picked, r). length (hi_ids x) - i)") auto

declare fisher_yates.simps [simp del]

fun probe_loop ::
  "index \<Rightarrow> int \<Rightarrow> string list \<Rightarrow> ('r \<Rightarrow> nat \<Rightarrow> nat \<times> 'r) \<Rightarrow> nat \<Rightarrow> nat \<Rightarrow> string list
   \<Rightarrow> hot_meta list \<Rightarrow> 'r \<Rightarrow> (string list \<times> hot_meta list) \<times> 'r" where
  "probe_loop x now exclude intn k 0 seen picked r = ((seen, picked), r)"
| "probe_loop x now exclude intn k (Suc n) seen picked r =
     (if length picked < k then
        let (j, r') = intn r (length (hi_ids x)); i = hi_ids x ! j in
        if i \<in> set seen then probe_loop x now exclude intn k n seen picked r'
        else case probe_id x now exclude i of
          None \<Rightarrow> probe_loop x now exclude intn k n seen picked r'
        | Some m \<Rightarrow> probe_loop x now exclude intn k n (i # seen) (picked @ [m]) r'
      else ((seen, picked), r))"

fun fill_loop ::
  "index \<Rightarrow> int \<Rightarrow> string list \<Rightarrow> nat \<Rightarrow> string list \<Rightarrow> string list \<Rightarrow> hot_meta list \<Rightarrow> hot_meta list" where
  "fill_loop x now exclude k [] seen picked = picked"
| "fill_loop x now exclude k (i # is) seen picked =
     (if i \<in> set seen then fill_loop x now exclude k is seen picked
      else case probe_id x now exclude i of
        None \<Rightarrow> fill_loop x now exclude k is seen picked
      | Some m \<Rightarrow>
          if k \<le> length (picked @ [m]) then picked @ [m]
          else fill_loop x now exclude k is (i # seen) (picked @ [m]))"

definition sample_eligible ::
  "int \<Rightarrow> int \<Rightarrow> int \<Rightarrow> string list \<Rightarrow> ('r \<Rightarrow> nat \<Rightarrow> nat \<times> 'r) \<Rightarrow> index \<Rightarrow> 'r
   \<Rightarrow> hot_meta list \<times> 'r" where
  "sample_eligible clock now0 k0 exclude intn x r =
     (if k0 \<le> 0 then ([], r)
      else let now = now_or clock now0; n = length (hi_ids x) in
       if n = 0 then ([], r)
       else let k = (if n < nat k0 then n else nat k0) in
         if n \<le> k * 4 then fisher_yates x now exclude intn k 0 [0..<n] [] r
         else
           let attempts = (if k * 16 < 32 then 32 else k * 16);
               ((seen, picked), r') = probe_loop x now exclude intn k attempts [] [] r in
           if length picked < k
           then (fill_loop x now exclude k (hi_ids x) seen picked, r')
           else (picked, r'))"

definition index_stats :: "int \<Rightarrow> int \<Rightarrow> index \<Rightarrow> hot_stats" where
  "index_stats clock now0 x =
     (let now = now_or clock now0; ms = map snd (hi_hot x) in
      \<lparr>hs_hot_size = length (hi_hot x), hs_cap = hi_cap x,
       hs_cooldown_count = length (filter (\<lambda>m. hm_cooldown_until m > now) ms),
       hs_inflight_sum = sum_list (map hm_inflight ms),
       hs_disabled_count = length (filter (\<lambda>m. \<not> hm_enabled m) ms)\<rparr>)"

section \<open>The dense list is the inverse of the positions\<close>

definition dense_ok :: "string list \<Rightarrow> (string, nat) gomap \<Rightarrow> bool" where
  "dense_ok ids pos \<longleftrightarrow> distinct ids \<and>
     (\<forall>i n. map_of pos i = Some n \<longleftrightarrow> n < length ids \<and> ids ! n = i)"

definition idx_core :: "index \<Rightarrow> bool" where
  "idx_core x \<longleftrightarrow> gm_wf (hi_hot x) \<and> dense_ok (hi_ids x) (hi_pos x) \<and>
     set (hi_ids x) = dom (map_of (hi_hot x)) \<and>
     (\<forall>i m. map_of (hi_hot x) i = Some m \<longrightarrow> hm_id m = i \<and> i \<noteq> [])"

definition idx_ok :: "index \<Rightarrow> bool" where
  "idx_ok x \<longleftrightarrow> idx_core x \<and> length (hi_hot x) \<le> hi_cap x \<and> 0 < hi_cap x"

lemma idx_okD: "idx_ok x \<Longrightarrow> idx_core x"
  by (simp add: idx_ok_def)

lemma idx_coreD:
  assumes "idx_core x"
  shows "gm_wf (hi_hot x)" "distinct (hi_ids x)" "set (hi_ids x) = dom (map_of (hi_hot x))"
    and "\<And>i m. map_of (hi_hot x) i = Some m \<Longrightarrow> hm_id m = i \<and> i \<noteq> []"
  using assms by (auto simp: idx_core_def dense_ok_def)

lemma idx_core_len: "idx_core x \<Longrightarrow> length (hi_ids x) = length (hi_hot x)"
  using idx_coreD [of x] by (metis distinct_card gm_len)

lemma dense_ok_pos: "dense_ok ids pos \<Longrightarrow> map_of pos i = Some n \<longleftrightarrow> n < length ids \<and> ids ! n = i"
  by (simp add: dense_ok_def)

lemma dense_ok_none: "dense_ok ids pos \<Longrightarrow> map_of pos i = None \<longleftrightarrow> i \<notin> set ids"
  using dense_ok_pos [of ids pos i] by (metis in_set_conv_nth not_None_eq)

lemma dense_ok_append:
  assumes "dense_ok ids pos" "i \<notin> set ids"
  shows "dense_ok (ids @ [i]) (gm_put i (length ids) pos)"
proof -
  have "((map_of pos)(i \<mapsto> length ids)) j = Some n \<longleftrightarrow> n < length (ids @ [i]) \<and> (ids @ [i]) ! n = j" for j n
    using dense_ok_pos [OF assms(1), of j n] assms(2)
    by (cases "n < length ids") (auto simp: nth_append)
  with assms show ?thesis by (auto simp: dense_ok_def)
qed

lemma dense_ok_take:
  assumes "dense_ok ids pos" "ids \<noteq> []"
  shows "dense_ok (take (length ids - 1) ids) (gm_del (ids ! (length ids - 1)) pos)"
proof -
  let ?l = "length ids - 1"
  have l: "?l < length ids" using assms(2) by simp
  have d: "distinct ids" using assms(1) by (simp add: dense_ok_def)
  have "((map_of pos)(ids ! ?l := None)) j = Some n \<longleftrightarrow> n < length (take ?l ids) \<and> take ?l ids ! n = j"
    for j n
    using dense_ok_pos [OF assms(1), of j n] nth_eq_iff_index_eq [OF d, of n ?l] l by auto
  with d show ?thesis by (auto simp: dense_ok_def)
qed

text \<open>The swap: position \<open>n\<close> and the last position exchange their ids.\<close>

lemma dense_ok_swap:
  assumes "dense_ok ids pos" "n < length ids" "l < length ids" "n \<noteq> l"
  shows "dense_ok (ids[n := ids ! l, l := ids ! n]) (gm_put (ids ! l) n (gm_put (ids ! n) l pos))"
proof -
  let ?ids = "ids[n := ids ! l, l := ids ! n]"
  have d: "distinct ids" using assms(1) by (simp add: dense_ok_def)
  have "((map_of pos)(ids ! n \<mapsto> l, ids ! l \<mapsto> n)) j = Some k \<longleftrightarrow> k < length ?ids \<and> ?ids ! k = j" for j k
    using dense_ok_pos [OF assms(1), of j k] assms(2-4)
      nth_eq_iff_index_eq [OF d, of k n] nth_eq_iff_index_eq [OF d, of k l]
      nth_eq_iff_index_eq [OF d, of n l]
    by (auto simp: nth_list_update)
  moreover have "distinct ?ids" using d assms by (simp add: distinct_swap)
  ultimately show ?thesis by (simp add: dense_ok_def)
qed

lemma set_take_last:
  "xs \<noteq> [] \<Longrightarrow> distinct xs \<Longrightarrow> set (take (length xs - 1) xs) = set xs - {xs ! (length xs - 1)}"
  by (cases xs rule: rev_cases) auto

lemma remove_locked_dense:
  assumes "dense_ok (hi_ids x) (hi_pos x)"
  shows "dense_ok (hi_ids (remove_locked i x)) (hi_pos (remove_locked i x)) \<and>
    set (hi_ids (remove_locked i x)) = set (hi_ids x) - {i}"
proof (cases "map_of (hi_pos x) i")
  case None
  then have "remove_locked i x = x" by (simp add: remove_locked_def)
  moreover have "i \<notin> set (hi_ids x)" using None dense_ok_none [OF assms] by blast
  ultimately show ?thesis using assms by simp
next
  case (Some n)
  let ?ids = "hi_ids x" and ?l = "length (hi_ids x) - 1"
  have n: "n < length ?ids" "?ids ! n = i" using Some assms by (auto simp: dense_ok_pos)
  then have ne: "?ids \<noteq> []" by auto
  have d: "distinct ?ids" using assms by (simp add: dense_ok_def)
  show ?thesis
  proof (cases "n = ?l")
    case True
    have "set (take ?l ?ids) = set ?ids - {i}" using set_take_last [OF ne d] n True by simp
    then show ?thesis
      using dense_ok_take [OF assms ne] Some True n by (simp add: remove_locked_def)
  next
    case False
    let ?sw = "?ids[n := ?ids ! ?l, ?l := i]"
    have l: "?l < length ?ids" using ne by simp
    have sw: "dense_ok ?sw (gm_put (?ids ! ?l) n (gm_put i ?l (hi_pos x)))"
      using dense_ok_swap [OF assms n(1) l False] n(2) by simp
    have "take ?l ?sw = take ?l (?ids[n := ?ids ! ?l])" by (simp add: take_update_cancel)
    moreover have "gm_del i (gm_put (?ids ! ?l) n (gm_put i ?l (hi_pos x))) =
        gm_del i (gm_put (?ids ! ?l) n (hi_pos x))"
      using n False nth_eq_iff_index_eq [OF d n(1) l]
      by (simp add: delete_update delete_update_same)
    moreover have "dense_ok (take ?l ?sw) (gm_del (?sw ! ?l) (gm_put (?ids ! ?l) n (gm_put i ?l (hi_pos x))))"
      using dense_ok_take [OF sw] ne by simp
    moreover have "set ?sw = set ?ids" using set_swap [OF n(1) l] n(2) by simp
    moreover have "set (take ?l ?sw) = set ?sw - {i}"
      using set_take_last [of ?sw] sw ne by (simp add: dense_ok_def)
    ultimately show ?thesis
      using Some False l by (simp add: remove_locked_def Let_def)
  qed
qed

lemma remove_locked_frame [simp, frame_simps]:
  "hi_hot (remove_locked i x) = hi_hot x" "hi_cap (remove_locked i x) = hi_cap x"
  "hi_closed (remove_locked i x) = hi_closed x" "hi_max_inflight (remove_locked i x) = hi_max_inflight x"
  "hi_cfg_size (remove_locked i x) = hi_cfg_size x"
  by (auto simp: remove_locked_def Let_def split: option.split)

lemma remove_locked_cong:
  "hi_ids (remove_locked i (x\<lparr>hi_hot := h\<rparr>)) = hi_ids (remove_locked i x)"
  "hi_pos (remove_locked i (x\<lparr>hi_hot := h\<rparr>)) = hi_pos (remove_locked i x)"
  by (auto simp: remove_locked_def Let_def split: option.split)

text \<open>No index of the dense list is out of range: \<open>idx.ids[i]\<close> never panics.\<close>

lemma remove_locked_in_range:
  "idx_core x \<Longrightarrow> map_of (hi_pos x) i = Some n \<Longrightarrow> n < length (hi_ids x)"
  using dense_ok_pos [of "hi_ids x" "hi_pos x" i n] by (simp add: idx_core_def)

lemma hot_drop_core:
  assumes "idx_core x"
  shows "idx_core (hot_drop i x)"
  using assms remove_locked_dense [of x i]
  by (auto simp: idx_core_def hot_drop_def remove_locked_cong split: if_splits)

lemma hot_drop_frame [simp, frame_simps]:
  "hi_hot (hot_drop i x) = gm_del i (hi_hot x)" "hi_cap (hot_drop i x) = hi_cap x"
  "hi_closed (hot_drop i x) = hi_closed x" "hi_max_inflight (hot_drop i x) = hi_max_inflight x"
  by (simp_all add: hot_drop_def)

lemma gm_len_del: "gm_wf m \<Longrightarrow> length (gm_del i m) = length m - (if i \<in> dom (map_of m) then 1 else 0)"
  by (simp add: gm_len del: not_None_eq)

lemma gm_len_del_le: "length (gm_del i m) \<le> length m"
  by (simp add: AList.delete_eq)

lemma hot_drop_ok: "idx_ok x \<Longrightarrow> idx_ok (hot_drop i x)"
  using gm_len_del_le [of i "hi_hot x"] by (simp add: idx_ok_def hot_drop_core)

lemma hot_put_core:
  assumes "idx_core x" "map_of (hi_hot x) i = Some m" "hm_id m' = i"
  shows "idx_core (x\<lparr>hi_hot := gm_put i m' (hi_hot x)\<rparr>)"
  using assms by (auto simp: idx_core_def)

lemma hot_insert_core:
  assumes "idx_core x" "map_of (hi_hot x) (hm_id m) = None" "hm_id m \<noteq> []"
  shows "idx_core (add_locked (hm_id m) (x\<lparr>hi_hot := gm_put (hm_id m) m (hi_hot x)\<rparr>))"
proof -
  have "hm_id m \<notin> set (hi_ids x)" using assms idx_coreD by (simp add: domIff)
  with assms show ?thesis
    by (auto simp: idx_core_def add_locked_def dense_ok_append)
qed

lemma hot_modify_ok:
  assumes "idx_ok x" "\<And>m. hm_id (f m) = hm_id m"
  shows "idx_ok (snd (hot_modify i f x))"
proof (cases "map_of (hi_hot x) i")
  case (Some m)
  then have "idx_core (x\<lparr>hi_hot := gm_put i (f m) (hi_hot x)\<rparr>)"
    using assms idx_coreD(4) [OF idx_okD [OF assms(1)] Some] by (intro hot_put_core) (auto simp: idx_ok_def)
  moreover have "length (gm_put i (f m) (hi_hot x)) = length (hi_hot x)"
    using Some by (metis gm_len_put gm_keys_dom domI)
  ultimately show ?thesis using assms Some by (simp add: hot_modify_def idx_ok_def)
qed (use assms in \<open>simp add: hot_modify_def\<close>)

lemma add_inflight_ok: "idx_ok x \<Longrightarrow> idx_ok (snd (add_inflight i x))"
  and sub_inflight_ok: "idx_ok x \<Longrightarrow> idx_ok (snd (sub_inflight i x))"
  and set_cooldown_ok: "idx_ok x \<Longrightarrow> idx_ok (snd (set_cooldown i until x))"
  by (simp_all add: add_inflight_def sub_inflight_def set_cooldown_def hot_modify_ok)

section \<open>The victim does not depend on the iteration order\<close>

lemma worse_victim_irrefl: "\<not> worse_victim a a"
  by (simp add: worse_victim_def)

lemma worse_victim_trans: "worse_victim a b \<Longrightarrow> worse_victim b c \<Longrightarrow> worse_victim a c"
  unfolding worse_victim_def by (auto split: if_splits)

lemma worse_victim_total: "hm_id a \<noteq> hm_id b \<Longrightarrow> worse_victim a b \<or> worse_victim b a"
  by (auto simp: worse_victim_def)

lemma victim_loop_Some:
  "victim_loop es (Some b) = Some v \<Longrightarrow> v \<in> insert b (set es) \<and>
     (\<forall>e \<in> insert b (set es). \<not> worse_victim (snd e) (snd v))"
proof (induction es arbitrary: b)
  case Nil
  then show ?case by (simp add: worse_victim_irrefl)
next
  case (Cons e es)
  obtain i m bi bm where em: "e = (i, m)" "b = (bi, bm)" by (metis prod.exhaust)
  show ?case
  proof (cases "worse_victim m bm")
    case True
    with Cons.prems em have "victim_loop es (Some e) = Some v" by simp
    note v = Cons.IH [OF this]
    have "\<not> worse_victim bm (snd v)"
    proof
      assume "worse_victim bm (snd v)"
      with True have "worse_victim m (snd v)" by (rule worse_victim_trans)
      with v em show False by simp
    qed
    with v em show ?thesis by auto
  next
    case False
    with Cons.prems em have "victim_loop es (Some b) = Some v" by simp
    note v = Cons.IH [OF this]
    have "\<not> worse_victim m (snd v)"
    proof
      assume w: "worse_victim m (snd v)"
      with False have no: "\<not> worse_victim (snd v) bm" using worse_victim_trans by blast
      from v em have nb: "\<not> worse_victim bm (snd v)" by simp
      have "hm_id (snd v) = hm_id bm" using no nb worse_victim_total by blast
      with no nb have "worse_victim m bm = worse_victim m (snd v)"
        by (auto simp: worse_victim_def split: if_splits)
      with w False show False by simp
    qed
    with v em show ?thesis by auto
  qed
qed

lemma victim_loop_exists: "\<exists>v. victim_loop es (Some b) = Some v"
  by (induction es arbitrary: b) auto

lemma victim_loop_max:
  assumes "es \<noteq> []"
  obtains v where "victim_loop es None = Some v" "v \<in> set es"
    "\<And>e. e \<in> set es \<Longrightarrow> \<not> worse_victim (snd e) (snd v)"
proof -
  obtain e es' where es: "es = e # es'" using assms by (cases es) auto
  obtain i m where e: "e = (i, m)" by fastforce
  obtain v where v: "victim_loop es' (Some e) = Some v" using victim_loop_exists by blast
  from victim_loop_Some [OF v] v show ?thesis using es e by (intro that [of v]) auto
qed

definition is_victim :: "(string, hot_meta) gomap \<Rightarrow> string \<Rightarrow> bool" where
  "is_victim hot i \<longleftrightarrow> (\<exists>m. map_of hot i = Some m \<and>
     (\<forall>j n. map_of hot j = Some n \<longrightarrow> j \<noteq> i \<longrightarrow> worse_victim m n))"

lemma is_victim_unique: "is_victim hot i \<Longrightarrow> is_victim hot j \<Longrightarrow> i = j"
  unfolding is_victim_def using worse_victim_trans worse_victim_irrefl by metis

lemma pick_demote_victim_spec:
  assumes "iteration_order ord" "gm_wf hot" "hot \<noteq> []"
    "\<And>i m. map_of hot i = Some m \<Longrightarrow> hm_id m = i"
  shows "is_victim hot (pick_demote_victim ord hot)"
proof -
  have "ord hot \<noteq> []" using assms(1,3) iteration_order_length by (metis length_0_conv)
  then obtain v where v: "victim_loop (ord hot) None = Some v" "v \<in> set (ord hot)"
    "\<And>e. e \<in> set (ord hot) \<Longrightarrow> \<not> worse_victim (snd e) (snd v)"
    by (rule victim_loop_max) blast
  obtain i m where im: "v = (i, m)" by fastforce
  have "map_of hot i = Some m" using v(2) im assms by (simp add: gm_in_iff)
  moreover have "worse_victim m n" if "map_of hot j = Some n" "j \<noteq> i" for j n
  proof -
    have "\<not> worse_victim n m" using that(1) v(3) [of "(j, n)"] im assms by (simp add: gm_in_iff)
    then show ?thesis using that assms(4) \<open>map_of hot i = Some m\<close> worse_victim_total by metis
  qed
  ultimately show ?thesis using v im by (auto simp: is_victim_def pick_demote_victim_def)
qed

section \<open>Promotion and demotion keep the index well formed\<close>

lemma nonneg_inflight_simps [simp]:
  "hm_id (nonneg_inflight m) = hm_id m" "0 \<le> hm_inflight (nonneg_inflight m)"
  by (simp_all add: nonneg_inflight_def)

lemma hot_insert_ok:
  assumes "idx_core x" "map_of (hi_hot x) (hm_id m) = None" "hm_id m \<noteq> []"
    "length (hi_hot x) < hi_cap x"
  shows "idx_ok (add_locked (hm_id m) (x\<lparr>hi_hot := gm_put (hm_id m) m (hi_hot x)\<rparr>))"
proof -
  have "hm_id m \<notin> fst ` set (hi_hot x)" using assms(2) by (simp add: gm_keys_dom domIff)
  then show ?thesis
    using hot_insert_core [OF assms(1-3)] assms(4) by (simp add: idx_ok_def add_locked_def gm_len_put)
qed

lemma pick_demote_victim_in:
  assumes "idx_ok x" "iteration_order ord" "hi_cap x \<le> length (hi_hot x)"
  shows "is_victim (hi_hot x) (pick_demote_victim ord (hi_hot x))"
  using assms idx_coreD [OF idx_okD [OF assms(1)]]
  by (intro pick_demote_victim_spec) (auto simp: idx_ok_def)

lemma promote_full:
  assumes "idx_ok x" "iteration_order ord" "hm_id m \<noteq> []" "\<not> hi_closed x"
    "map_of (hi_hot x) (hm_id m) = None" "hi_cap x \<le> length (hi_hot x)"
  obtains v where "is_victim (hi_hot x) v" "v \<noteq> []"
    "promote ord m x = (Inr v, add_locked (hm_id m) ((hot_drop v x)\<lparr>hi_hot := gm_put (hm_id m)
       (nonneg_inflight m) (hi_hot (hot_drop v x))\<rparr>))"
proof -
  let ?v = "pick_demote_victim ord (hi_hot x)"
  have v: "is_victim (hi_hot x) ?v" by (rule pick_demote_victim_in [OF assms(1,2,6)])
  then have "?v \<noteq> []" using idx_coreD(4) [OF idx_okD [OF assms(1)]] by (auto simp: is_victim_def)
  with v assms show ?thesis by (intro that [of ?v]) (auto simp: promote_def Let_def)
qed

lemma promote_room:
  assumes "hm_id m \<noteq> []" "\<not> hi_closed x" "map_of (hi_hot x) (hm_id m) = None"
    "length (hi_hot x) < hi_cap x"
  shows "promote ord m x = (Inr [], add_locked (hm_id m) (x\<lparr>hi_hot := gm_put (hm_id m)
       (nonneg_inflight m) (hi_hot x)\<rparr>))"
  using assms by (simp add: promote_def Let_def)

lemma promote_ok:
  assumes "idx_ok x" "iteration_order ord"
  shows "idx_ok (snd (promote ord m x))"
proof (cases "hm_id m = [] \<or> hi_closed x")
  case True
  then show ?thesis using assms by (auto simp: promote_def)
next
  case False
  let ?m = "nonneg_inflight m"
  show ?thesis
  proof (cases "map_of (hi_hot x) (hm_id m)")
    case (Some old)
    then have "hm_id m \<in> fst ` set (hi_hot x)" by (simp add: gm_keys_dom domI)
    then show ?thesis
      using Some False assms(1) hot_put_core [OF idx_okD [OF assms(1)] Some]
      by (simp add: promote_def idx_ok_def gm_len_put)
  next
    case None
    show ?thesis
    proof (cases "length (hi_hot x) < hi_cap x")
      case True
      then show ?thesis
        using hot_insert_ok [OF idx_okD [OF assms(1)], of ?m] None False
        by (simp add: promote_room)
    next
      case full: False
      obtain v where v: "is_victim (hi_hot x) v" "v \<noteq> []"
        and p: "promote ord m x = (Inr v, add_locked (hm_id m) ((hot_drop v x)\<lparr>hi_hot :=
          gm_put (hm_id m) ?m (hi_hot (hot_drop v x))\<rparr>))"
        using promote_full [OF assms, of m] False None full by (auto simp: not_less)
      have "v \<in> dom (map_of (hi_hot x))" using v(1) by (auto simp: is_victim_def)
      then have "length (hi_hot (hot_drop v x)) < hi_cap (hot_drop v x)"
        using gm_len_del [of "hi_hot x" v] idx_coreD(1) [OF idx_okD [OF assms(1)]] assms(1)
        by (auto simp: idx_ok_def)
      moreover have "map_of (hi_hot (hot_drop v x)) (hm_id m) = None" using None by simp
      ultimately show ?thesis
        using hot_insert_ok [OF hot_drop_core [OF idx_okD [OF assms(1)]], of v ?m] False p
        by simp
    qed
  qed
qed

lemma demote_ok: "idx_ok x \<Longrightarrow> idx_ok (snd (demote i x))"
  by (simp add: demote_def hot_drop_ok)

lemma demote_many_ok: "idx_ok x \<Longrightarrow> idx_ok (demote_many ids x)"
proof -
  have "idx_ok y \<Longrightarrow> idx_ok (fold (\<lambda>i y. if i = [] then y else hot_drop i y) ids y)" for y
    by (induction ids arbitrary: y) (auto simp: hot_drop_ok)
  then show "idx_ok x \<Longrightarrow> idx_ok (demote_many ids x)" by (simp add: demote_many_def)
qed

lemma hot_new_ok: "idx_ok (hot_new sz mx)"
  by (auto simp: hot_new_def idx_ok_def idx_core_def dense_ok_def DefaultHotSize_def)

lemma set_max_inflight_ok: "idx_ok x \<Longrightarrow> idx_ok (set_max_inflight n x)"
  and hot_close_ok: "idx_ok x \<Longrightarrow> idx_ok (hot_close x)"
  by (simp_all add: set_max_inflight_def hot_close_def idx_ok_def idx_core_def)

text \<open>\<open>Resize\<close> ends, and leaves at most the new capacity.\<close>

lemma shrink_to_ends:
  assumes "idx_core x"
  shows "\<exists>y. shrink_to n x = Some y \<and> idx_core y \<and> length (hi_ids y) \<le> n \<and> hi_cap y = hi_cap x"
  using assms
proof (induction "length (hi_ids x)" arbitrary: x rule: less_induct)
  case less
  show ?case
  proof (cases "n < length (hi_ids x)")
    case True
    let ?i = "last (hi_ids x)"
    let ?y = "hot_drop ?i x"
    have y: "(remove_locked ?i x)\<lparr>hi_hot := gm_del ?i (hi_hot x)\<rparr> = ?y"
      by (simp add: hot_drop_def remove_locked_def Let_def split: option.split)
    have core: "idx_core ?y" by (rule hot_drop_core [OF less(2)])
    have "?i \<in> dom (map_of (hi_hot x))"
      using True idx_coreD(3) [OF less(2)] last_in_set [of "hi_ids x"] by (metis list.size(3) not_less0)
    moreover have "0 < length (hi_hot x)" using True idx_core_len [OF less(2)] by linarith
    ultimately have "length (hi_hot ?y) < length (hi_hot x)"
      using gm_len_del [OF idx_coreD(1) [OF less(2)], of ?i] by simp
    then have "length (hi_ids ?y) < length (hi_ids x)"
      using idx_core_len [OF core] idx_core_len [OF less(2)] by simp
    from less(1) [OF this core] show ?thesis
      using True y by (subst shrink_to.simps) (simp add: Let_def)
  next
    case False
    then show ?thesis using less(2) by (subst shrink_to.simps) simp
  qed
qed

lemma hot_resize_ok:
  assumes "idx_ok x"
  shows "\<exists>y. hot_resize n x = Some y \<and> idx_ok y"
proof -
  let ?m = "if n \<le> 0 then DefaultHotSize else n"
  have "idx_core (x\<lparr>hi_cap := nat ?m, hi_cfg_size := ?m\<rparr>)"
    using idx_okD [OF assms] by (simp add: idx_core_def)
  from shrink_to_ends [OF this, of "nat ?m"] obtain y where
    "shrink_to (nat ?m) (x\<lparr>hi_cap := nat ?m, hi_cfg_size := ?m\<rparr>) = Some y" "idx_core y"
    "length (hi_ids y) \<le> nat ?m" "hi_cap y = nat ?m" by auto
  moreover have "0 < nat ?m" by (simp add: DefaultHotSize_def)
  ultimately show ?thesis
    using idx_core_len [of y] by (simp add: hot_resize_def Let_def idx_ok_def)
qed

lemma shrink_to_exact:
  assumes "idx_core x"
  shows "\<exists>y. shrink_to n x = Some y \<and> hi_ids y = take n (hi_ids x) \<and> hi_closed y = hi_closed x \<and>
    (\<forall>i. map_of (hi_hot y) i = (if i \<in> set (take n (hi_ids x)) then map_of (hi_hot x) i else None))"
  using assms
proof (induction "length (hi_ids x)" arbitrary: x rule: less_induct)
  case less
  have dom: "set (hi_ids x) = dom (map_of (hi_hot x))" and dense: "dense_ok (hi_ids x) (hi_pos x)"
    using less(2) by (simp_all add: idx_core_def)
  show ?case
  proof (cases "n < length (hi_ids x)")
    case False
    then show ?thesis using dom by (subst shrink_to.simps) (auto simp: domIff)
  next
    case True
    then obtain js i where ids: "hi_ids x = js @ [i]" by (cases "hi_ids x" rule: rev_cases) auto
    have pos: "gm_get (hi_pos x) i = Some (length js)" "i \<notin> set js"
      using dense by (simp_all add: dense_ok_def ids nth_append)
    let ?y = "hot_drop i x"
    have y: "hi_ids ?y = js" "hi_closed ?y = hi_closed x" "hi_hot ?y = gm_del i (hi_hot x)"
      by (simp_all add: hot_drop_def remove_locked_def ids pos(1))
    have "(remove_locked i x)\<lparr>hi_hot := gm_del i (hi_hot x)\<rparr> = ?y"
      by (simp add: hot_drop_def remove_locked_def Let_def split: option.split)
    then have step: "shrink_to n x = shrink_to n ?y" using True ids by (subst shrink_to.simps) (simp add: Let_def)
    have "take n js = take n (hi_ids x)" using True by (simp add: ids)
    moreover have "i \<notin> set (take n js)" using pos(2) by (auto dest: in_set_takeD)
    ultimately show ?thesis
      using less(1) [OF _ hot_drop_core [OF less(2)], of i] unfolding step y by (auto simp: ids)
  qed
qed

lemma hot_resize_frame: "idx_ok x \<Longrightarrow> hot_resize n x = Some y \<Longrightarrow> idx_ok y \<and> hi_closed y = hi_closed x"
  using hot_resize_ok [of x n] shrink_to_exact [of "x\<lparr>hi_cap := nat (if n \<le> 0 then DefaultHotSize else n),
    hi_cfg_size := if n \<le> 0 then DefaultHotSize else n\<rparr>" "nat (if n \<le> 0 then DefaultHotSize else n)"]
  by (auto simp: hot_resize_def Let_def idx_ok_def idx_core_def)

section \<open>Loading\<close>

lemma dense_ok_index_ids:
  "dense_ok ids pos \<Longrightarrow> distinct (ids @ js) \<Longrightarrow> dense_ok (ids @ js) (index_ids js (length ids) pos)"
proof (induction js arbitrary: ids pos)
  case (Cons j js)
  have "dense_ok (ids @ [j]) (gm_put j (length ids) pos)"
    using Cons.prems by (intro dense_ok_append) auto
  from Cons.IH [OF this] show ?case using Cons.prems by simp
qed simp

lemma dense_ok_Nil: "dense_ok [] []"
  by (simp add: dense_ok_def)

definition metas_ok :: "(string, hot_meta) gomap \<Rightarrow> bool" where
  "metas_ok hot \<longleftrightarrow> gm_wf hot \<and> (\<forall>i m. map_of hot i = Some m \<longrightarrow> hm_id m = i \<and> i \<noteq> [])"

lemma replace_all_ok:
  assumes "iteration_order ord" "metas_ok nxt" "length nxt \<le> hi_cap x" "0 < hi_cap x"
  shows "idx_ok (replace_all_locked ord nxt x)"
proof -
  have "distinct (ord (map fst nxt))"
    using assms(1,2) iteration_order_distinct_map [of ord id "map fst nxt"]
    by (simp add: metas_ok_def gm_wf_def)
  then have "dense_ok (ord (map fst nxt)) (index_ids (ord (map fst nxt)) 0 [])"
    using dense_ok_index_ids [OF dense_ok_Nil, of "ord (map fst nxt)"] by simp
  then show ?thesis
    using assms by (simp add: idx_ok_def idx_core_def replace_all_locked_def metas_ok_def
        gm_keys_dom)
qed

lemma metas_map_fold_ok:
  "metas_ok hot \<Longrightarrow> \<forall>m \<in> set ms. hm_id m \<noteq> [] \<Longrightarrow>
   metas_ok (fold (\<lambda>m. gm_put (hm_id m) m) ms hot) \<and>
   length (fold (\<lambda>m. gm_put (hm_id m) m) ms hot) \<le> length hot + length ms"
proof (induction ms arbitrary: hot)
  case (Cons m ms)
  have "metas_ok (gm_put (hm_id m) m hot)" using Cons.prems by (auto simp: metas_ok_def)
  from Cons.IH [OF this] Cons.prems show ?case by (auto simp: gm_len_put split: if_splits)
qed simp

lemma metas_ok_Nil: "metas_ok []"
  by (simp add: metas_ok_def)

lemma metas_map_ok: "\<forall>m \<in> set ms. hm_id m \<noteq> [] \<Longrightarrow> metas_ok (metas_map ms)"
  unfolding metas_map_def using metas_map_fold_ok [OF metas_ok_Nil] by blast

lemma metas_map_len: "\<forall>m \<in> set ms. hm_id m \<noteq> [] \<Longrightarrow> length (metas_map ms) \<le> length ms"
  unfolding metas_map_def using metas_map_fold_ok [OF metas_ok_Nil, of ms] by simp

lemma put_fresh: "k \<notin> fst ` set m \<Longrightarrow> gm_put k v m = m @ [(k, v)]"
  by (induction m) auto

lemma metas_map_fold_distinct:
  "distinct (map fst hot @ map hm_id ms) \<Longrightarrow>
   fold (\<lambda>m. gm_put (hm_id m) m) ms hot = hot @ map (\<lambda>m. (hm_id m, m)) ms"
proof (induction ms arbitrary: hot)
  case (Cons m ms)
  have "gm_put (hm_id m) m hot = hot @ [(hm_id m, m)]"
    using Cons.prems by (intro put_fresh) force
  then show ?case using Cons by simp
qed simp

lemma metas_map_distinct: "distinct (map hm_id ms) \<Longrightarrow> metas_map ms = map (\<lambda>m. (hm_id m, m)) ms"
  using metas_map_fold_distinct [of "[]" ms] by (simp add: metas_map_def)

lemma load_pages_stop: "cap \<le> length loaded \<Longrightarrow> load_pages lst prev cap q loaded after = Inr loaded"
  by (subst load_pages.simps) simp

lemma load_pages_error:
  "length loaded < cap \<Longrightarrow> lst q (int (load_page_size (cap - length loaded))) after = Inl e \<Longrightarrow>
   load_pages lst prev cap q loaded after = Inl (HotLoad e)"
  by (subst load_pages.simps) (simp add: Let_def)

lemma load_pages_step:
  assumes "length loaded < cap" "lst q (int (load_page_size (cap - length loaded))) after = Inr batch"
  shows "load_pages lst prev cap q loaded after =
    (let taken = take (cap - length loaded) batch; loaded' = loaded @ map (with_inflight prev) taken in
     if batch = [] then Inr loaded
     else if length batch < load_page_size (cap - length loaded) then Inr loaded'
     else load_pages lst prev cap (Suc q) loaded' (hm_id (last taken)))"
  using assms by (subst load_pages.simps) (simp add: Let_def)

lemma load_pages_bound:
  assumes "\<And>q n i b. lst q n i = Inr b \<Longrightarrow> \<forall>m \<in> set b. hm_id m \<noteq> []"
  shows "load_pages lst prev cap q loaded after = Inr ms \<Longrightarrow> \<forall>m \<in> set loaded. hm_id m \<noteq> [] \<Longrightarrow>
    length loaded \<le> cap \<Longrightarrow> length ms \<le> cap \<and> (\<forall>m \<in> set ms. hm_id m \<noteq> [])"
proof (induction "cap - length loaded" arbitrary: q loaded after rule: less_induct)
  case less
  show ?case
  proof (cases "length loaded < cap")
    case False
    with less show ?thesis by (simp add: load_pages_stop)
  next
    case True
    obtain batch where b: "lst q (int (load_page_size (cap - length loaded))) after = Inr batch"
      using less(2) load_pages_error [OF True]
      by (cases "lst q (int (load_page_size (cap - length loaded))) after") force+
    let ?l = "loaded @ map (with_inflight prev) (take (cap - length loaded) batch)"
    have l: "length ?l \<le> cap" "\<forall>m \<in> set ?l. hm_id m \<noteq> []"
      using less(3) True assms [OF b] by (auto simp: with_inflight_def dest: in_set_takeD)
    have "cap - length ?l < cap - length loaded" if "batch \<noteq> []"
      using True that by (cases batch) auto
    from less(1) [OF this _ l(2,1)] show ?thesis
      using less(2-4) l by (auto simp: load_pages_step [of loaded cap lst q after batch prev, OF True b] Let_def split: if_splits)
  qed
qed

lemma load_commit_ok:
  assumes "idx_ok x" "iteration_order ord" "length loaded \<le> hi_cap x" "\<forall>m \<in> set loaded. hm_id m \<noteq> []"
  shows "idx_ok (snd (load_commit ord loaded x))"
proof -
  have "idx_ok (replace_all_locked ord (metas_map loaded) x)"
    using assms metas_map_ok [OF assms(4)] metas_map_len [OF assms(4)]
    by (intro replace_all_ok) (auto simp: idx_ok_def)
  then show ?thesis using assms(1) by (simp add: load_commit_def Let_def)
qed

lemma load_eligible_ok:
  assumes "idx_ok x" "iteration_order ord" "\<And>q n i b. lst q n i = Inr b \<Longrightarrow> \<forall>m \<in> set b. hm_id m \<noteq> []"
  shows "idx_ok (snd (load_eligible ord lst x))"
proof (cases "hi_closed x")
  case True
  then show ?thesis using assms by (simp add: load_eligible_def load_snapshot_def)
next
  case False
  show ?thesis
  proof (cases "load_pages lst (prev_inflight (hi_hot x)) (hi_cap x) 0 [] []")
    case (Inl e)
    then show ?thesis using False assms by (simp add: load_eligible_def load_snapshot_def)
  next
    case (Inr ms)
    from load_pages_bound [of lst, OF assms(3) Inr] have "length ms \<le> hi_cap x \<and> (\<forall>m \<in> set ms. hm_id m \<noteq> [])"
      by simp
    then show ?thesis
      using False Inr load_commit_ok [OF assms(1,2)] by (simp add: load_eligible_def load_snapshot_def)
  qed
qed

lemma load_metas_ok:
  assumes "idx_ok x" "iteration_order ord"
  shows "idx_ok (snd (load_metas ord metas x))"
proof -
  let ?ms = "map (keep_inflight (prev_inflight (hi_hot x))) (take (hi_cap x) metas)"
  have k: "hm_id (keep_inflight prev m) = hm_id m" for prev m
    by (simp add: keep_inflight_def split: option.split)
  have "idx_ok (replace_all_locked ord (metas_map ?ms) x)"
    if "\<forall>m \<in> set (take (hi_cap x) metas). hm_id m \<noteq> []"
  proof -
    have "\<forall>m \<in> set ?ms. hm_id m \<noteq> []" using that k by simp
    from metas_map_ok [OF this] metas_map_len [OF this] show ?thesis
      using assms by (intro replace_all_ok) (auto simp: idx_ok_def)
  qed
  then show ?thesis using assms by (auto simp: load_metas_def Let_def)
qed

text \<open>With a catalog that does not change, the loop takes the first \<open>cap\<close> eligible rows.\<close>

lemma load_pages_from:
  fixes probe c now prev
  defines "xs \<equiv> eligible_sorted probe c now" and "f \<equiv> with_inflight prev \<circ> eligible_meta"
  assumes "wf_catalog c" "cat_open c"
    and "j \<le> length xs" "j \<le> cap" "j = 0 \<and> after = [] \<or> 0 < j \<and> after = acc_id (xs ! (j - 1))"
  shows "load_pages (\<lambda>q. list_eligible probe c now) prev cap q (map f (take j xs)) after =
    Inr (map f (take cap xs))"
  using assms(5-7)
proof (induction "cap - j" arbitrary: j q after rule: less_induct)
  case less
  have len: "length (map f (take j xs)) = j" using less(2) by simp
  show ?case
  proof (cases "j < cap")
    case False
    then show ?thesis using less(3) len by (simp add: load_pages_stop)
  next
    case True
    let ?page = "load_page_size (cap - j)"
    have page: "0 < ?page" "?page \<le> cap - j" using True by (auto simp: load_page_size_def listPageSize_def)
    let ?b = "take ?page (drop j xs)"
    have q: "list_eligible probe c now (int ?page) after = Inr (map eligible_meta ?b)"
    proof (cases "j = 0")
      case True
      then show ?thesis using less(4) list_eligible_first [OF assms(4)] page(1) by (simp add: xs_def)
    next
      case False
      then have "after = acc_id (xs ! (j - 1))" and "j - 1 < length xs" using less(2,4) by auto
      then show ?thesis
        using list_eligible_next [OF assms(3,4), of "int ?page" "j - 1"] page(1) False by (simp add: xs_def)
    qed
    let ?j = "j + length ?b"
    have j: "?j \<le> length xs" "?j \<le> cap" using less(2) page True by auto
    have split: "map f (take j xs) @ map (with_inflight prev) (map eligible_meta ?b) = map f (take ?j xs)"
      by (simp add: f_def take_add min_def)
    have taken: "take (cap - j) (map eligible_meta ?b) = map eligible_meta ?b" using page(2) by simp
    note step = load_pages_step [of "map f (take j xs)" cap "\<lambda>q. list_eligible probe c now" q after,
        unfolded len, OF True q, of prev, unfolded taken Let_def split]
    show ?thesis
    proof (cases "?b = []")
      case True
      then have "take j xs = take cap xs" using page(1) less(2,3) by simp
      then show ?thesis using step True by simp
    next
      case False
      then have pos: "0 < length ?b" by simp
      show ?thesis
      proof (cases "length ?b < ?page")
        case True
        then have "?j = length xs" using less(2) by auto
        then have "take ?j xs = take cap xs" using j by simp
        then show ?thesis using step True False by (simp del: length_take take_all)
      next
        case full: False
        have "hm_id (last (map eligible_meta ?b)) = acc_id (xs ! (?j - 1))"
          using last_take_drop [OF pos] False by (simp add: last_map eligible_meta_def)
        then have cur: "?j = 0 \<and> hm_id (last (map eligible_meta ?b)) = [] \<or>
            0 < ?j \<and> hm_id (last (map eligible_meta ?b)) = acc_id (xs ! (?j - 1))"
          using pos by linarith
        have "cap - ?j < cap - j" using True pos by linarith
        from less(1) [OF this j cur]
        have "load_pages (\<lambda>q. list_eligible probe c now) prev cap (Suc q) (map f (take ?j xs))
            (hm_id (last (map eligible_meta ?b))) = Inr (map f (take cap xs))" .
        then show ?thesis using step full False by simp
      qed
    qed
  qed
qed

section \<open>Sampling\<close>

definition intn_ok :: "('r \<Rightarrow> nat \<Rightarrow> nat \<times> 'r) \<Rightarrow> bool" where
  "intn_ok intn \<longleftrightarrow> (\<forall>r n. 0 < n \<longrightarrow> fst (intn r n) < n)"

text \<open>The ids a sample may return, and what a sample of at most \<open>k\<close> of them is.\<close>

definition candidates :: "index \<Rightarrow> int \<Rightarrow> string list \<Rightarrow> string set" where
  "candidates x now exclude = {i \<in> set (hi_ids x). probe_id x now exclude i \<noteq> None}"

definition is_sample :: "index \<Rightarrow> int \<Rightarrow> string list \<Rightarrow> nat \<Rightarrow> hot_meta list \<Rightarrow> bool" where
  "is_sample x now exclude k ms \<longleftrightarrow> (\<exists>zs. ms = map (\<lambda>i. the (probe_id x now exclude i)) zs \<and>
     distinct zs \<and> set zs \<subseteq> candidates x now exclude \<and>
     length zs = min k (card (candidates x now exclude)))"

lemma finite_candidates [simp]: "finite (candidates x now exclude)"
  by (simp add: candidates_def)

lemma is_sample_exit:
  assumes "distinct zs" "set zs \<subseteq> candidates x now exclude" "length zs \<le> k"
    "length zs = k \<or> candidates x now exclude \<subseteq> set zs"
  shows "is_sample x now exclude k (map (\<lambda>i. the (probe_id x now exclude i)) zs)"
proof -
  have "length zs \<le> card (candidates x now exclude)"
    using assms(1,2) by (metis card_mono distinct_card finite_candidates)
  moreover have "length zs = card (candidates x now exclude)" if "candidates x now exclude \<subseteq> set zs"
    using assms(1,2) that by (metis distinct_card subset_antisym)
  ultimately have "length zs = min k (card (candidates x now exclude))" using assms(3,4) by auto
  with assms show ?thesis by (auto simp: is_sample_def)
qed

lemma swap_take: "i \<le> j \<Longrightarrow> take i (xs[i := a, j := b]) = take i xs"
  by (simp add: take_update_cancel)

lemma fisher_yates_sample:
  fixes x now exclude
  defines "P \<equiv> probe_id x now exclude" and "n \<equiv> length (hi_ids x)"
  assumes ok: "intn_ok intn" and ids: "distinct (hi_ids x)"
  shows "mset idxs = mset [0..<n] \<Longrightarrow> i \<le> n \<Longrightarrow>
    zs = filter (\<lambda>i. P i \<noteq> None) (map ((!) (hi_ids x)) (take i idxs)) \<Longrightarrow> length zs \<le> k \<Longrightarrow>
    is_sample x now exclude k (fst (fisher_yates x now exclude intn k i idxs (map (\<lambda>i. the (P i)) zs) r))"
proof (induction "n - i" arbitrary: i idxs zs r rule: less_induct)
  case less
  have perm: "set idxs = {0..<n}" "distinct idxs" "length idxs = n"
    using mset_eq_setD [OF less(2)] mset_eq_imp_distinct_iff [OF less(2)] mset_eq_length [OF less(2)]
    by simp_all
  have dzs: "distinct (map ((!) (hi_ids x)) idxs)"
    using perm ids by (auto simp: distinct_map inj_on_def n_def nth_eq_iff_index_eq)
  have "distinct (take i (map ((!) (hi_ids x)) idxs))" using dzs by (rule distinct_take)
  then have zs: "distinct zs" "set zs \<subseteq> candidates x now exclude"
    using less(4) perm by (auto simp: P_def candidates_def n_def take_map dest!: in_set_takeD)
  show ?case
  proof (cases "i < n \<and> length zs < k")
    case False
    have "candidates x now exclude \<subseteq> set zs" if "i = n"
    proof
      fix c
      assume "c \<in> candidates x now exclude"
      then have "c \<in> set (hi_ids x)" "P c \<noteq> None" by (simp_all add: candidates_def P_def)
      then show "c \<in> set zs"
        using less(4) that perm by (auto simp: in_set_conv_nth n_def image_iff)
    qed
    then have "length zs = k \<or> candidates x now exclude \<subseteq> set zs" using False less(3,5) by linarith
    from is_sample_exit [OF zs less(5) this] False show ?thesis
      by (subst fisher_yates.simps) (auto simp: n_def P_def)
  next
    case True
    obtain d r' where d: "intn r (n - i) = (d, r')" by fastforce
    then have "d < n - i" using ok True unfolding intn_ok_def by (metis fst_conv zero_less_diff)
    then have j: "i + d < n" by simp
    let ?xs = "idxs[i := idxs ! (i + d), i + d := idxs ! i]"
    let ?c = "hi_ids x ! (?xs ! i)"
    have mset: "mset ?xs = mset [0..<n]" using less(2) True j perm(3) by (simp add: mset_swap)
    have take: "take (Suc i) ?xs = take i idxs @ [?xs ! i]"
      using True perm(3) by (simp add: take_Suc_conv_app_nth swap_take)
    have step: "fst (fisher_yates x now exclude intn k i idxs (map (\<lambda>i. the (P i)) zs) r) =
        fst (fisher_yates x now exclude intn k (Suc i) ?xs
          (map (\<lambda>i. the (P i)) (if P ?c = None then zs else zs @ [?c])) r')"
      using True d by (subst fisher_yates.simps) (auto simp: P_def n_def Let_def split: option.split)
    have "is_sample x now exclude k (fst (fisher_yates x now exclude intn k (Suc i) ?xs
          (map (\<lambda>i. the (P i)) (if P ?c = None then zs else zs @ [?c])) r'))"
      using True less(4,5) by (intro less(1) mset) (auto simp: take)
    then show ?thesis by (simp only: step)
  qed
qed

lemma probe_loop_inv:
  assumes ok: "intn_ok intn" and ne: "hi_ids x \<noteq> []"
  shows "distinct seen \<Longrightarrow> set seen \<subseteq> candidates x now exclude \<Longrightarrow> length seen \<le> k \<Longrightarrow>
    \<exists>seen'. fst (probe_loop x now exclude intn k a seen
        (map (\<lambda>i. the (probe_id x now exclude i)) (rev seen)) r) =
      (seen', map (\<lambda>i. the (probe_id x now exclude i)) (rev seen')) \<and>
      distinct seen' \<and> set seen' \<subseteq> candidates x now exclude \<and> length seen' \<le> k"
proof (induction a arbitrary: seen r)
  case (Suc a)
  let ?P = "\<lambda>i. the (probe_id x now exclude i)"
  show ?case
  proof (cases "length seen < k")
    case True
    obtain j r' where j: "intn r (length (hi_ids x)) = (j, r')" by fastforce
    then have jn: "j < length (hi_ids x)" using ok ne unfolding intn_ok_def
      by (metis fst_conv length_greater_0_conv)
    let ?i = "hi_ids x ! j"
    show ?thesis
    proof (cases "?i \<in> set seen \<or> probe_id x now exclude ?i = None")
      case True
      then show ?thesis using Suc.IH [OF Suc.prems, of r'] j Suc.prems \<open>length seen < k\<close>
        by (auto simp: Let_def)
    next
      case False
      have "distinct (?i # seen)" "set (?i # seen) \<subseteq> candidates x now exclude" "length (?i # seen) \<le> k"
        using False Suc.prems True jn by (auto simp: candidates_def)
      from Suc.IH [OF this, of r'] show ?thesis using j False True by (auto simp: Let_def)
    qed
  next
    case False
    then show ?thesis using Suc.prems by (intro exI [of _ seen]) simp
  qed
qed auto

lemma fill_loop_sample:
  assumes "distinct seen" "set seen \<subseteq> candidates x now exclude" "length seen < k"
    "candidates x now exclude \<subseteq> set seen \<union> set is" "set is \<subseteq> set (hi_ids x)"
  shows "is_sample x now exclude k (fill_loop x now exclude k is seen
    (map (\<lambda>i. the (probe_id x now exclude i)) (rev seen)))"
  using assms
proof (induction "is" arbitrary: seen)
  case Nil
  then show ?case using is_sample_exit [of "rev seen" x now exclude k] by simp
next
  case (Cons i "is")
  show ?case
  proof (cases "i \<in> set seen \<or> probe_id x now exclude i = None")
    case True
    have "is_sample x now exclude k (fill_loop x now exclude k is seen
        (map (\<lambda>i. the (probe_id x now exclude i)) (rev seen)))"
      using Cons.prems True by (intro Cons.IH) (auto simp: candidates_def)
    then show ?thesis using True by auto
  next
    case False
    then have c: "distinct (i # seen)" "set (i # seen) \<subseteq> candidates x now exclude"
      using Cons.prems by (auto simp: candidates_def)
    show ?thesis
    proof (cases "k \<le> length (i # seen)")
      case True
      then have "length (i # seen) = k" using Cons.prems(3) by simp
      then show ?thesis using c False is_sample_exit [of "rev (i # seen)" x now exclude k] by auto
    next
      case more: False
      have "is_sample x now exclude k (fill_loop x now exclude k is (i # seen)
          (map (\<lambda>i. the (probe_id x now exclude i)) (rev (i # seen))))"
        using c more Cons.prems by (intro Cons.IH) auto
      then show ?thesis using False more by auto
    qed
  qed
qed

lemma candidates_card_le: "card (candidates x now exclude) \<le> length (hi_ids x)"
proof -
  have "card (candidates x now exclude) \<le> card (set (hi_ids x))"
    by (intro card_mono) (auto simp: candidates_def)
  then show ?thesis using card_length order_trans by blast
qed

lemma is_sample_min:
  "is_sample x now exclude (min (length (hi_ids x)) k) ms = is_sample x now exclude k ms"
  using candidates_card_le [of x now exclude] by (auto simp: is_sample_def min_def)

lemma sample_eligible_sample:
  assumes "intn_ok intn" "idx_core x" "0 < k"
  shows "is_sample x (now_or clock now) exclude (nat k) (fst (sample_eligible clock now k exclude intn x r))"
proof (cases "hi_ids x = []")
  case True
  then show ?thesis using assms(3) by (auto simp: sample_eligible_def is_sample_def candidates_def)
next
  case False
  let ?n = "length (hi_ids x)" and ?now = "now_or clock now"
  let ?k = "if ?n < nat k then ?n else nat k"
  have kmin: "?k = min ?n (nat k)" by simp
  show ?thesis
  proof (cases "?n \<le> ?k * 4")
    case True
    have "is_sample x ?now exclude ?k (fst (fisher_yates x ?now exclude intn ?k 0 [0..<?n] [] r))"
      using fisher_yates_sample [OF assms(1) idx_coreD(2) [OF assms(2)], of "[0..<?n]" 0 "[]"] by simp
    then have "is_sample x ?now exclude (nat k) (fst (fisher_yates x ?now exclude intn ?k 0 [0..<?n] [] r))"
      by (simp only: kmin is_sample_min)
    then show ?thesis using True False assms(3) by (simp add: sample_eligible_def Let_def)
  next
    case slow: False
    let ?a = "if ?k * 16 < 32 then 32 else ?k * 16"
    obtain seen r' where p: "probe_loop x ?now exclude intn ?k ?a [] [] r =
        ((seen, map (\<lambda>i. the (probe_id x ?now exclude i)) (rev seen)), r')"
      and s: "distinct seen" "set seen \<subseteq> candidates x ?now exclude" "length seen \<le> ?k"
      using probe_loop_inv [OF assms(1) False, of "[]" ?now exclude ?k ?a r]
      by (metis (no_types, lifting) distinct.simps(1) empty_subsetI le0 list.set(1) list.simps(8)
          list.size(3) prod.collapse rev.simps(1))
    have "is_sample x ?now exclude ?k (fst (sample_eligible clock now k exclude intn x r))"
    proof (cases "length seen < ?k")
      case True
      have "is_sample x ?now exclude ?k (fill_loop x ?now exclude ?k (hi_ids x) seen
          (map (\<lambda>i. the (probe_id x ?now exclude i)) (rev seen)))"
        using s True by (intro fill_loop_sample) (auto simp: candidates_def)
      then show ?thesis
        using True slow False assms(3) p by (simp add: sample_eligible_def Let_def del: if_split)
    next
      case full: False
      then have "is_sample x ?now exclude ?k (map (\<lambda>i. the (probe_id x ?now exclude i)) (rev seen))"
        using s by (intro is_sample_exit) auto
      then show ?thesis
        using full slow False assms(3) p by (simp add: sample_eligible_def Let_def del: if_split)
    qed
    then show ?thesis by (simp only: kmin is_sample_min)
  qed
qed

section \<open>All operations, and the in-flight gate\<close>

inductive hot_step :: "index \<Rightarrow> index \<Rightarrow> bool" where
  hot_load: "iteration_order ord \<Longrightarrow> (\<And>q n i b. lst q n i = Inr b \<Longrightarrow> \<forall>m \<in> set b. hm_id m \<noteq> []) \<Longrightarrow>
    hot_step x (snd (load_eligible ord lst x))"
| hot_commit: "iteration_order ord \<Longrightarrow> length loaded \<le> hi_cap x \<Longrightarrow> \<forall>m \<in> set loaded. hm_id m \<noteq> [] \<Longrightarrow>
    hot_step x (snd (load_commit ord loaded x))"
| hot_metas: "iteration_order ord \<Longrightarrow> hot_step x (snd (load_metas ord metas x))"
| hot_resize: "hot_resize n x = Some y \<Longrightarrow> hot_step x y"
| hot_add: "hot_step x (snd (add_inflight i x))"
| hot_sub: "hot_step x (snd (sub_inflight i x))"
| hot_cool: "hot_step x (snd (set_cooldown i until x))"
| hot_promote: "iteration_order ord \<Longrightarrow> hot_step x (snd (promote ord m x))"
| hot_demote: "hot_step x (snd (demote i x))"
| hot_demote_many: "hot_step x (demote_many is x)"
| hot_cap: "hot_step x (set_max_inflight n x)"
| hot_shut: "hot_step x (hot_close x)"

lemma hot_step_ok: "hot_step x y \<Longrightarrow> idx_ok x \<Longrightarrow> idx_ok y"
proof (induction rule: hot_step.induct)
  case (hot_load ord lst x)
  then show ?case by (intro load_eligible_ok) auto
next
  case (hot_resize n x y)
  then show ?case using hot_resize_ok [of x n] by auto
qed (simp_all add: load_commit_ok load_metas_ok add_inflight_ok sub_inflight_ok set_cooldown_ok promote_ok
    demote_ok demote_many_ok set_max_inflight_ok hot_close_ok)

lemma hot_steps_ok: "hot_step\<^sup>*\<^sup>* x y \<Longrightarrow> idx_ok x \<Longrightarrow> idx_ok y"
  by (induction rule: rtranclp_induct) (auto simp: hot_step_ok)

definition inflight_of :: "index \<Rightarrow> string \<Rightarrow> int" where
  "inflight_of x i = (case map_of (hi_hot x) i of None \<Rightarrow> 0 | Some m \<Rightarrow> hm_inflight m)"

definition hot_ready :: "index \<Rightarrow> bool" where
  "hot_ready x \<longleftrightarrow> idx_ok x \<and> \<not> hi_closed x"

definition hot_enter :: "string \<Rightarrow> index \<Rightarrow> bool \<times> index" where
  "hot_enter i x = (let (e, x') = add_inflight i x in (e = None, x'))"

definition hot_leave :: "string \<Rightarrow> index \<Rightarrow> index" where
  "hot_leave i x = snd (sub_inflight i x)"

lemma hot_modify_closed [simp, frame_simps]: "hi_closed (snd (hot_modify i f x)) = hi_closed x"
  by (auto simp: hot_modify_def split: option.split)

lemma hot_enter_ready: "hot_ready x \<Longrightarrow> hot_enter i x = (b, y) \<Longrightarrow> hot_ready y"
  using add_inflight_ok [of x i] by (auto simp: hot_enter_def hot_ready_def add_inflight_def split_beta Let_def)

lemma hot_leave_ready: "hot_ready x \<Longrightarrow> hot_ready (hot_leave i x)"
  using sub_inflight_ok [of x i] by (simp add: hot_ready_def hot_leave_def sub_inflight_def)

lemma hot_enter_count:
  assumes "hot_enter i x = (True, y)" "0 \<le> inflight_of x i" "inflight_of x i < 2 ^ 31 - 1"
  shows "inflight_of y = (inflight_of x)(i := inflight_of x i + 1)"
  using assms
  by (auto simp: hot_enter_def add_inflight_def hot_modify_def inflight_of_def fun_eq_iff
      split: if_splits option.splits)

lemma hot_enter_refused: "hot_enter i x = (False, y) \<Longrightarrow> inflight_of y = inflight_of x"
  by (auto simp: hot_enter_def add_inflight_def hot_modify_def split: if_splits option.splits)

lemma hot_leave_count:
  assumes "hot_ready x"
  shows "inflight_of (hot_leave i x) j =
    (if j = i \<and> 0 < inflight_of x i then inflight_of x i - 1 else inflight_of x j)"
  using assms idx_coreD(4) [OF idx_okD, of x i]
  by (auto simp: hot_ready_def hot_leave_def sub_inflight_def hot_modify_def inflight_of_def
      split: option.split)

definition hot_attempt :: "string \<Rightarrow> index \<Rightarrow> string option \<times> index" where
  "hot_attempt i x = (let (ok, y) = hot_enter i x in (if ok then Some i else None, y))"

interpretation hot_gate: inflight_gate hot_ready inflight_of "\<lambda>i. i" "\<lambda>_. True" hot_attempt
  "\<lambda>_ :: unit. hot_leave" "2 ^ 31 - 1"
proof
  fix x y :: index and i t :: string
  assume x: "hot_ready x" and bnd: "\<And>j. 0 \<le> inflight_of x j \<and> inflight_of x j < 2 ^ 31 - 1"
  show "hot_ready y \<and> True \<and> inflight_of y = (inflight_of x)(t := inflight_of x t + 1)"
    if "hot_attempt i x = (Some t, y)"
    using that x bnd [of i] hot_enter_ready [of x i] hot_enter_count [of i x]
    by (auto simp: hot_attempt_def split: prod.splits if_splits)
  show "hot_ready y \<and> inflight_of y = inflight_of x" if "hot_attempt i x = (None, y)"
    using that x hot_enter_ready [of x i] hot_enter_refused [of i x]
    by (auto simp: hot_attempt_def split: prod.splits if_splits)
next
  fix x :: index and t :: string
  assume "hot_ready x" "0 < inflight_of x t"
  then show "hot_ready (hot_leave t x) \<and> inflight_of (hot_leave t x) = (inflight_of x)(t := inflight_of x t - 1)"
    using hot_leave_ready [of x t] hot_leave_count [of x t] by auto
qed

section \<open>Properties\<close>

lemma map_of_prev_inflight:
  "gm_wf hot \<Longrightarrow> map_of (prev_inflight hot) i =
     (case map_of hot i of None \<Rightarrow> None | Some m \<Rightarrow> if hm_inflight m = 0 then None else Some (hm_inflight m))"
proof (induction hot)
  case (Cons e hot)
  then have "gm_wf hot" and "fst e \<notin> fst ` set hot" by (auto simp: gm_wf_def)
  moreover from this have "map_of hot (fst e) = None" by (simp add: map_of_eq_None_iff)
  ultimately show ?case
    using Cons.IH by (cases e) (auto simp: prev_inflight_def split: option.splits)
qed (simp add: prev_inflight_def)

lemma with_prev_inflight:
  "gm_wf (hi_hot x) \<Longrightarrow> with_inflight (prev_inflight (hi_hot x)) m = m\<lparr>hm_inflight := inflight_of x (hm_id m)\<rparr>"
  by (simp add: with_inflight_def map_of_prev_inflight inflight_of_def split: option.split)

definition eligible_entries :: "index \<Rightarrow> int \<Rightarrow> string list \<Rightarrow> hot_meta set" where
  "eligible_entries x now exclude =
     {m. \<exists>i. i \<notin> set exclude \<and> map_of (hi_hot x) i = Some m \<and> hi_eligible_meta x m now}"

lemma probe_id_Some:
  "probe_id x now exclude i = Some m \<longleftrightarrow>
   i \<notin> set exclude \<and> map_of (hi_hot x) i = Some m \<and> hi_eligible_meta x m now"
  by (auto simp: probe_id_def split: option.split)

lemma candidate_entry:
  assumes "idx_core x" "i \<in> candidates x now exclude"
  shows "the (probe_id x now exclude i) \<in> eligible_entries x now exclude \<and>
    hm_id (the (probe_id x now exclude i)) = i"
proof -
  obtain m where m: "probe_id x now exclude i = Some m" using assms(2) by (auto simp: candidates_def)
  then have "i \<notin> set exclude" "map_of (hi_hot x) i = Some m" "hi_eligible_meta x m now"
    by (simp_all add: probe_id_Some)
  then show ?thesis using m idx_coreD(4) [OF assms(1)] by (auto simp: eligible_entries_def)
qed

lemma entry_ids:
  assumes "idx_core x"
  shows "hm_id ` eligible_entries x now exclude = candidates x now exclude"
proof
  show "candidates x now exclude \<subseteq> hm_id ` eligible_entries x now exclude"
    using candidate_entry [OF assms] by (metis image_eqI subsetI)
  show "hm_id ` eligible_entries x now exclude \<subseteq> candidates x now exclude"
  proof
    fix i
    assume "i \<in> hm_id ` eligible_entries x now exclude"
    then obtain j m where "j \<notin> set exclude" "map_of (hi_hot x) j = Some m" "hi_eligible_meta x m now" "i = hm_id m"
      by (auto simp: eligible_entries_def)
    then have "probe_id x now exclude i = Some m" and "i \<in> set (hi_ids x)"
      using idx_coreD(3,4) [OF assms] by (auto simp: probe_id_Some)
    then show "i \<in> candidates x now exclude" by (simp add: candidates_def)
  qed
qed

lemma sample_spec:
  assumes "intn_ok intn" "idx_core x" "0 < k"
  defines "ms clock now exclude r \<equiv> fst (sample_eligible clock now k exclude intn x r)"
  shows "distinct (map hm_id (ms clock now exclude r))"
    and "set (ms clock now exclude r) \<subseteq> eligible_entries x (now_or clock now) exclude"
    and "length (ms clock now exclude r) =
      min (nat k) (card (hm_id ` eligible_entries x (now_or clock now) exclude))"
proof -
  let ?now = "now_or clock now"
  obtain zs where zs: "ms clock now exclude r = map (\<lambda>i. the (probe_id x ?now exclude i)) zs" "distinct zs"
    "set zs \<subseteq> candidates x ?now exclude" "length zs = min (nat k) (card (candidates x ?now exclude))"
    using sample_eligible_sample [OF assms(1-3), of clock now exclude r]
    unfolding is_sample_def ms_def by blast
  have "map hm_id (map (\<lambda>i. the (probe_id x ?now exclude i)) zs) = zs"
    using zs(3) candidate_entry [OF assms(2)] by (auto intro!: map_idI)
  with zs show "distinct (map hm_id (ms clock now exclude r))" by simp
  show "set (ms clock now exclude r) \<subseteq> eligible_entries x ?now exclude"
    using zs(1,3) candidate_entry [OF assms(2)] by auto
  show "length (ms clock now exclude r) = min (nat k) (card (hm_id ` eligible_entries x ?now exclude))"
    using zs by (simp add: entry_ids [OF assms(2)])
qed

definition sample_meta :: "string \<Rightarrow> int \<Rightarrow> hot_meta" where
  "sample_meta i p = (eligible_meta (sample_account i p))"

definition sample_index :: index where
  "sample_index = snd (load_metas rev [sample_meta ''a'' 1, sample_meta ''b'' 2] (hot_new 2 4))"

lemma sample_index_steps: "hot_step\<^sup>*\<^sup>* (hot_new 2 4) sample_index"
  unfolding sample_index_def by (intro r_into_rtranclp hot_metas iteration_order_rev)

lemma sample_index_ok: "idx_ok sample_index"
  using hot_steps_ok [OF sample_index_steps hot_new_ok] .



text \<open>
  Promoting a new account into a full index evicts the one worst account (lowest
  priority, then highest failure score, most in flight, greatest id), whichever order the
  map is iterated in, and inserts the new one; every other entry is untouched.
\<close>

theorem promote_evicts_worst:
  assumes "idx_ok x" "iteration_order ord" "hm_id m \<noteq> []" "\<not> hi_closed x"
    "map_of (hi_hot x) (hm_id m) = None" "hi_cap x \<le> length (hi_hot x)"
  shows "\<exists>!v. is_victim (hi_hot x) v \<and> fst (promote ord m x) = Inr v \<and>
    map_of (hi_hot (snd (promote ord m x))) =
      (map_of (hi_hot x))(v := None, hm_id m := Some (nonneg_inflight m))"
proof -
  obtain v where "is_victim (hi_hot x) v"
    "promote ord m x = (Inr v, add_locked (hm_id m) ((hot_drop v x)\<lparr>hi_hot := gm_put (hm_id m)
       (nonneg_inflight m) (hi_hot (hot_drop v x))\<rparr>))"
    by (rule promote_full [OF assms])
  then show ?thesis by (intro ex1I [of _ v]) (simp_all add: add_locked_def)
qed

theorem promote_evicts_worst_witness:
  "fst (promote rev (sample_meta ''z'' 9) sample_index) = Inr ''a'' \<and> is_victim (hi_hot sample_index) ''a''"
proof -
  have pre: "hm_id (sample_meta ''z'' 9) \<noteq> []" "\<not> hi_closed sample_index"
    "map_of (hi_hot sample_index) (hm_id (sample_meta ''z'' 9)) = None"
    "hi_cap sample_index \<le> length (hi_hot sample_index)" by code_simp+
  have "fst (promote rev (sample_meta ''z'' 9) sample_index) = Inr ''a''" by code_simp
  then show ?thesis using promote_evicts_worst [OF sample_index_ok iteration_order_rev pre] by auto
qed

text \<open>
  With a catalog that does not change meanwhile, \<open>LoadEligible\<close> fills the hot set with
  exactly the first \<open>Cap()\<close> eligible accounts by priority and id, however many pages that
  takes, keeps the live in-flight count of those that were hot, and returns their number.
\<close>

theorem load_eligible_top:
  assumes "wf_catalog c" "cat_open c" "idx_ok x" "\<not> hi_closed x"
  shows "case load_eligible ord (\<lambda>q. list_eligible probe c now) x of (r, x') \<Rightarrow>
    let top = take (hi_cap x) (eligible_sorted probe c now) in
    r = Inr (length top) \<and> map_of (hi_hot x') = map_of (map (\<lambda>a. (acc_id a,
      (eligible_meta a)\<lparr>hm_inflight := inflight_of x (acc_id a)\<rparr>)) top)"
proof -
  let ?top = "take (hi_cap x) (eligible_sorted probe c now)"
  let ?f = "with_inflight (prev_inflight (hi_hot x)) \<circ> eligible_meta"
  have pages: "load_pages (\<lambda>q. list_eligible probe c now) (prev_inflight (hi_hot x)) (hi_cap x) 0 [] [] =
      Inr (map ?f ?top)"
    using load_pages_from [OF assms(1,2), of 0 probe now "hi_cap x" "[]" "prev_inflight (hi_hot x)" 0] by simp
  let ?g = "\<lambda>a. (eligible_meta a)\<lparr>hm_inflight := inflight_of x (acc_id a)\<rparr>"
  have f: "?f = ?g"
    using with_prev_inflight [OF idx_coreD(1) [OF idx_okD [OF assms(3)]]] by (auto simp: eligible_meta_def)
  have id: "hm_id (?g a) = acc_id a" for a by (simp add: eligible_meta_def)
  have "distinct (map acc_id ?top)"
    using distinct_take [OF eligible_sorted_distinct [OF assms(1)], of "hi_cap x" probe now]
    by (simp add: take_map)
  then have "distinct (map hm_id (map ?g ?top))" by (simp only: map_map comp_def id)
  from metas_map_distinct [OF this]
  have m: "metas_map (map ?g ?top) = map (\<lambda>a. (acc_id a, ?g a)) ?top" by (simp only: map_map comp_def id)
  have "load_eligible ord (\<lambda>q. list_eligible probe c now) x = load_commit ord (map ?g ?top) x"
    using assms(4) pages by (simp only: load_eligible_def load_snapshot_def f sum.case prod.case if_False)
  moreover have "load_commit ord (map ?g ?top) x =
      (Inr (length ?top), replace_all_locked ord (map (\<lambda>a. (acc_id a, ?g a)) ?top) x)"
    using assms(4) by (simp only: load_commit_def m Let_def if_False length_map)
  ultimately show ?thesis by (simp only: prod.case Let_def) (simp add: replace_all_locked_def)
qed

theorem load_eligible_top_witness:
  "case load_eligible rev (\<lambda>q. list_eligible (\<lambda>_. None) sample_catalog 10) sample_index of (r, x') \<Rightarrow>
    r = Inr 2"
proof -
  have "cat_open sample_catalog" "\<not> hi_closed sample_index" by code_simp+
  from load_eligible_top [OF wf_cat_steps [OF sample_catalog_steps wf_empty] this(1) sample_index_ok this(2),
      where ord = rev and probe = "\<lambda>_. None" and now = 10]
  have "case load_eligible rev (\<lambda>q. list_eligible (\<lambda>_. None) sample_catalog 10) sample_index of (r, x') \<Rightarrow>
    r = Inr (length (take (hi_cap sample_index) (eligible_sorted (\<lambda>_. None) sample_catalog 10)))"
    by (auto simp: Let_def)
  moreover have "length (take (hi_cap sample_index) (eligible_sorted (\<lambda>_. None) sample_catalog 10)) = 2"
    by code_simp
  ultimately show ?thesis by simp
qed

text \<open>
  \<open>SampleEligible\<close> is complete on both of its paths and whatever the random source
  returns: for \<open>k > 0\<close> it returns distinct accounts of the index, each eligible at \<open>now\<close>
  and none excluded, and as many as \<open>k\<close> or as there are, whichever is less.
\<close>

theorem sample_eligible_complete:
  assumes "intn_ok intn" "idx_ok x" "0 < k"
  shows "let ms = fst (sample_eligible clock now k exclude intn x r);
      good = eligible_entries x (now_or clock now) exclude
    in distinct (map hm_id ms) \<and> set ms \<subseteq> good \<and> length ms = min (nat k) (card (hm_id ` good))"
  using sample_spec [OF assms(1) idx_okD [OF assms(2)] assms(3)] by (simp add: Let_def)

theorem sample_eligible_complete_witness:
  "length (fst (sample_eligible 0 10 5 [''b''] (\<lambda>r n. (r mod n, Suc r)) sample_index 3)) \<le> 1"
proof -
  have "intn_ok (\<lambda>r n. (r mod n, Suc r))" by (simp add: intn_ok_def)
  from sample_eligible_complete [OF this sample_index_ok, of 5 0 10 "[''b'']" 3]
  have s: "set (fst (sample_eligible 0 10 5 [''b''] (\<lambda>r n. (r mod n, Suc r)) sample_index 3)) \<subseteq>
      {m. \<exists>i. i \<notin> {''b''} \<and> map_of (hi_hot sample_index) i = Some m}"
    and d: "distinct (map hm_id (fst (sample_eligible 0 10 5 [''b''] (\<lambda>r n. (r mod n, Suc r)) sample_index 3)))"
    by (auto simp: Let_def eligible_entries_def)
  have h: "hi_hot sample_index = [(''a'', sample_meta ''a'' 1), (''b'', sample_meta ''b'' 2)]" by code_simp
  from s have "set (fst (sample_eligible 0 10 5 [''b''] (\<lambda>r n. (r mod n, Suc r)) sample_index 3)) \<subseteq>
      {sample_meta ''a'' 1}"
    by (auto simp: h split: if_splits)
  then have "card (set (fst (sample_eligible 0 10 5 [''b''] (\<lambda>r n. (r mod n, Suc r)) sample_index 3))) \<le> 1"
    using card_mono [of "{sample_meta ''a'' 1}"] by simp
  then show ?thesis using d by (simp add: distinct_map distinct_card)
qed

text \<open>
  The in-flight counters do not drift: over any interleaving of \<open>AddInflight\<close> and of
  \<open>SubInflight\<close> by holders that entered before, on an open well-formed index, the count of
  every account moves by exactly the number of holders it gained or lost, so all holders
  leaving brings it back to where it was.
\<close>

theorem inflight_accounting:
  assumes "hot_ready x" "\<And>j. 0 \<le> inflight_of x j \<and> inflight_of x j + int (length es) < 2 ^ 31 - 1"
  shows "inflight_of (snd (hot_gate.run es [] x)) i = inflight_of x i + int (count_list (fst (hot_gate.run es [] x)) i)"
  using hot_gate.run_tracks [of x "[]" es i] assms by (simp add: hot_gate.held_def)

theorem inflight_accounting_witness:
  "inflight_of (snd (hot_gate.run [Enter ''a'', Enter ''a'', Enter ''q'', Leave 1 ()] [] sample_index)) ''a'' = 1"
proof -
  let ?es = "[Enter ''a'', Enter ''a'', Enter ''q'', Leave 1 ()]"
  have h: "hi_hot sample_index = [(''a'', sample_meta ''a'' 1), (''b'', sample_meta ''b'' 2)]"
    and c: "hi_closed sample_index = False" by code_simp+
  have z: "inflight_of sample_index j = 0" for j
    by (simp add: inflight_of_def h sample_meta_def eligible_meta_def)
  have "fst (hot_gate.run ?es [] sample_index) = [''a'']"
    by (simp add: hot_attempt_def hot_enter_def hot_leave_def add_inflight_def sub_inflight_def hot_modify_def h c)
  with inflight_accounting [of sample_index ?es "''a''"] show ?thesis
    by (simp add: z c hot_ready_def sample_index_ok)
qed

text \<open>
  \<open>LoadEligible\<close> can lose an acquisition: an \<open>AddInflight\<close> that runs after the loader
  took its snapshot and before it commits is overwritten, so the account is one short while
  its request is still in flight.
\<close>

theorem load_eligible_loses_inflight:
  assumes "wf_catalog c" "cat_open c" "idx_ok x" "load_snapshot x = Inr (prev, cap)"
    "load_pages (\<lambda>q. list_eligible probe c now) prev cap 0 [] [] = Inr loaded"
    "i \<in> hm_id ` set loaded" "add_inflight i x = (None, x1)"
    "0 \<le> inflight_of x i" "inflight_of x i < 2 ^ 31 - 1"
  shows "inflight_of x1 i = inflight_of x i + 1 \<and>
    inflight_of (snd (load_commit ord loaded x1)) i = inflight_of x i"
proof -
  have "hot_ready x" using assms(3,4) by (auto simp: hot_ready_def load_snapshot_def split: if_splits)
  moreover have "hot_enter i x = (True, x1)" using assms(7) by (simp add: hot_enter_def)
  ultimately have one: "inflight_of x1 i = inflight_of x i + 1"
    using hot_enter_count [of i x x1] assms(8,9) by simp
  have open1: "\<not> hi_closed x1"
    using \<open>hot_ready x\<close> assms(7) hot_modify_closed [of i _ x] unfolding add_inflight_def hot_ready_def
    by (metis snd_conv)
  let ?top = "take cap (eligible_sorted probe c now)"
  have prev: "prev = prev_inflight (hi_hot x)" using assms(4) by (simp add: load_snapshot_def split: if_splits)
  have loaded: "loaded = map (with_inflight prev \<circ> eligible_meta) ?top"
    using load_pages_from [OF assms(1,2), of 0 probe now cap "[]" prev 0] assms(5) by simp
  have id: "hm_id (with_inflight prev (eligible_meta a)) = acc_id a" for a
    by (simp add: with_inflight_def eligible_meta_def)
  have "distinct (map acc_id ?top)"
    using distinct_take [OF eligible_sorted_distinct [OF assms(1)], of cap probe now] by (simp add: take_map)
  then have d: "distinct (map hm_id loaded)" by (simp only: loaded map_map comp_def id)
  obtain m where m: "m \<in> set loaded" "hm_id m = i" using assms(6) by blast
  have "map_of (metas_map loaded) i = Some m"
    using m d by (force simp: metas_map_distinct comp_def intro!: map_of_is_SomeI)
  moreover have "hm_inflight m = inflight_of x i"
    using m prev with_prev_inflight [OF idx_coreD(1) [OF idx_okD [OF assms(3)]]] by (auto simp: loaded)
  ultimately show ?thesis
    using one open1 by (simp add: load_commit_def Let_def inflight_of_def replace_all_locked_def)
qed

theorem load_eligible_loses_inflight_witness:
  "inflight_of (snd (load_commit rev (map (\<lambda>i. sample_meta i (if i = ''b'' then 2 else 1)) [''b'', ''a''])
     (snd (add_inflight ''a'' sample_index)))) ''a'' = 0"
proof -
  let ?l = "map (\<lambda>i. sample_meta i (if i = ''b'' then 2 else 1)) [''b'', ''a'']"
  have h: "hi_hot sample_index = [(''a'', sample_meta ''a'' 1), (''b'', sample_meta ''b'' 2)]"
    and o: "cat_open sample_catalog" and s: "load_snapshot sample_index = Inr ([], 2)"
    and l: "load_pages (\<lambda>q. list_eligible (\<lambda>_. None) sample_catalog 10) [] 2 0 [] [] = Inr ?l"
    and a: "add_inflight ''a'' sample_index = (None, snd (add_inflight ''a'' sample_index))" by code_simp+
  have i: "''a'' \<in> hm_id ` set ?l" by (simp add: sample_meta_def eligible_meta_def sample_account_def)
  have z: "inflight_of sample_index ''a'' = 0"
    by (simp add: inflight_of_def h sample_meta_def eligible_meta_def)
  from load_eligible_loses_inflight [OF wf_cat_steps [OF sample_catalog_steps wf_empty] o sample_index_ok s l i a,
      of rev]
  show ?thesis by (simp add: z)
qed

text \<open>
  C24. \<open>Resize\<close> terminates: its loop, which has no bound of its own, ends for every new size on every index
  that the operations can reach; the entries that stay are exactly the first ones of the dense list, unchanged,
  and there are at most as many as the new capacity.
\<close>

theorem resize_returns:
  assumes "idx_ok x"
  shows "\<exists>y. hot_resize n x = Some y \<and> idx_ok y \<and> hi_closed y = hi_closed x \<and>
    hi_ids y = take (nat (if n \<le> 0 then DefaultHotSize else n)) (hi_ids x) \<and> hi_cap y = nat (if n \<le> 0 then DefaultHotSize else n) \<and>
    (\<forall>i. map_of (hi_hot y) i = (if i \<in> set (hi_ids y) then map_of (hi_hot x) i else None))"
proof -
  let ?m = "if n \<le> 0 then DefaultHotSize else n"
  let ?x = "x\<lparr>hi_cap := nat ?m, hi_cfg_size := ?m\<rparr>"
  have core: "idx_core ?x" using idx_okD [OF assms] by (simp add: idx_core_def)
  obtain y where y: "hot_resize n x = Some y" "idx_ok y" using hot_resize_ok [OF assms] by blast
  obtain z where z: "shrink_to (nat ?m) ?x = Some z" "hi_ids z = take (nat ?m) (hi_ids x)" "hi_closed z = hi_closed x"
    "\<forall>i. map_of (hi_hot z) i = (if i \<in> set (take (nat ?m) (hi_ids x)) then map_of (hi_hot x) i else None)"
    using shrink_to_exact [OF core, of "nat ?m"] by auto
  have "y = z" using y(1) z(1) by (simp add: hot_resize_def Let_def)
  moreover have "hi_cap z = nat ?m" using shrink_to_ends [OF core, of "nat ?m"] z(1) by auto
  ultimately show ?thesis using y z by auto
qed

theorem resize_returns_witness:
  "\<exists>y. hot_resize 1 sample_index = Some y \<and> hi_ids y = take 1 (hi_ids sample_index)"
  using resize_returns [of sample_index 1] sample_index_ok by auto

end
