(* ===== verification/Sticky.thy ===== *)
theory Sticky
  imports Prelude
begin

text \<open>
  The sticky bindings of the selector (\<open>internal/selector/sticky.go\<close>): an LRU map from a
  session key to a primary and a secondary account with an expiry, and the reverse index
  from an account to the keys bound to it. The list element of an entry is named by the
  key of the entry, the head of \<open>sl_ll\<close> is the most recently used.
\<close>

section \<open>Data\<close>

definition DefaultStickyTTLSec :: int where "DefaultStickyTTLSec = 1800"
definition DefaultStickyMax :: int where "DefaultStickyMax = 100000"

record sticky_entry =
  se_key :: string
  se_account_id :: string
  se_secondary :: string
  se_expires_at :: int

record sticky_lru =
  sl_max :: nat
  sl_ttl_sec :: int
  sl_ll :: "string list"
  sl_items :: "(string, sticky_entry) gomap"
  sl_by_acct :: "(string, string list) gomap"

definition new_sticky_lru :: "int \<Rightarrow> int \<Rightarrow> sticky_lru" where
  "new_sticky_lru mx ttl =
     \<lparr>sl_max = nat (if mx \<le> 0 then DefaultStickyMax else mx),
      sl_ttl_sec = (if ttl \<le> 0 then DefaultStickyTTLSec else ttl),
      sl_ll = [], sl_items = [], sl_by_acct = []\<rparr>"

section \<open>The reverse index and the list\<close>

definition index_account :: "string \<Rightarrow> string \<Rightarrow> sticky_lru \<Rightarrow> sticky_lru" where
  "index_account a k s =
     (if a = [] then s
      else let m = gm_default [] (sl_by_acct s) a in
        s\<lparr>sl_by_acct := gm_put a (if k \<in> set m then m else k # m) (sl_by_acct s)\<rparr>)"

definition unindex_account :: "string \<Rightarrow> string \<Rightarrow> sticky_lru \<Rightarrow> sticky_lru" where
  "unindex_account a k s =
     (case gm_get (sl_by_acct s) a of
        None \<Rightarrow> s
      | Some m \<Rightarrow>
          let m' = filter (\<lambda>j. j \<noteq> k) m in
          if m' = [] then s\<lparr>sl_by_acct := gm_del a (sl_by_acct s)\<rparr>
          else s\<lparr>sl_by_acct := gm_put a m' (sl_by_acct s)\<rparr>)"

definition move_to_front :: "string \<Rightarrow> string list \<Rightarrow> string list" where
  "move_to_front k ll = k # filter (\<lambda>j. j \<noteq> k) ll"

text \<open>\<open>removeElement\<close> of the list element \<open>k\<close>, whose entry is \<open>e\<close>.\<close>

definition remove_element :: "string \<Rightarrow> sticky_entry \<Rightarrow> sticky_lru \<Rightarrow> sticky_lru" where
  "remove_element k e s =
     (let s1 = s\<lparr>sl_ll := filter (\<lambda>j. j \<noteq> k) (sl_ll s), sl_items := gm_del (se_key e) (sl_items s)\<rparr>;
          s2 = unindex_account (se_account_id e) (se_key e) s1
      in if se_secondary e \<noteq> [] then unindex_account (se_secondary e) (se_key e) s2 else s2)"

text \<open>Store the changed entry under its key and move it to the front with a new expiry.\<close>

definition touch :: "int \<Rightarrow> sticky_entry \<Rightarrow> sticky_lru \<Rightarrow> sticky_lru" where
  "touch now e s =
     s\<lparr>sl_items := gm_put (se_key e) (e\<lparr>se_expires_at := now + sl_ttl_sec s\<rparr>) (sl_items s),
       sl_ll := move_to_front (se_key e) (sl_ll s)\<rparr>"

section \<open>Operations\<close>

definition get_pair :: "int \<Rightarrow> string \<Rightarrow> sticky_lru \<Rightarrow> (string \<times> string) option \<times> sticky_lru" where
  "get_pair now key s =
     (if key = [] then (None, s)
      else case gm_get (sl_items s) key of
        None \<Rightarrow> (None, s)
      | Some e \<Rightarrow>
          if se_expires_at e > 0 \<and> se_expires_at e \<le> now then (None, remove_element key e s)
          else (Some (se_account_id e, se_secondary e), touch now e s))"

definition sticky_get :: "int \<Rightarrow> string \<Rightarrow> sticky_lru \<Rightarrow> string option \<times> sticky_lru" where
  "sticky_get now key s = (let (r, s') = get_pair now key s in (map_option fst r, s'))"

text \<open>
  The eviction loop: drop the least recently used entry until there is room. An element of
  the list always has its entry (\<open>sticky_core\<close> below), the first branch is never taken.
\<close>

function evict :: "sticky_lru \<Rightarrow> sticky_lru" where
  "evict s =
     (if sl_max s \<le> length (sl_ll s) \<and> sl_ll s \<noteq> [] then
        (case gm_get (sl_items s) (last (sl_ll s)) of
           None \<Rightarrow> s
         | Some e \<Rightarrow> evict (remove_element (last (sl_ll s)) e s))
      else s)"
  by pat_completeness auto
termination
  apply (relation "measure (\<lambda>s. length (sl_ll s))")
   apply simp
  subgoal for s e
    using length_filter_less [of "last (sl_ll s)" "sl_ll s" "\<lambda>j. j \<noteq> last (sl_ll s)"]
    by (auto simp: remove_element_def unindex_account_def Let_def split: option.split)
  done

declare evict.simps [simp del]

definition put_primary :: "int \<Rightarrow> string \<Rightarrow> string \<Rightarrow> bool \<Rightarrow> sticky_lru \<Rightarrow> sticky_lru" where
  "put_primary now key account shift_old s =
     (if key = [] \<or> account = [] then s
      else case gm_get (sl_items s) key of
        Some e \<Rightarrow>
          if se_account_id e \<noteq> account then
            let s1 = unindex_account (se_account_id e) key s;
                (e1, s2) =
                  (if shift_old \<and> se_account_id e \<noteq> [] then
                     if se_secondary e = account then (e\<lparr>se_secondary := []\<rparr>, s1)
                     else if se_secondary e = [] then
                       (e\<lparr>se_secondary := se_account_id e\<rparr>, index_account (se_account_id e) key s1)
                     else (e, s1)
                   else (e, s1))
            in touch now (e1\<lparr>se_account_id := account\<rparr>) (index_account account key s2)
          else touch now e s
      | None \<Rightarrow>
          let s1 = evict s in
          index_account account key
            (s1\<lparr>sl_ll := key # sl_ll s1,
               sl_items := gm_put key \<lparr>se_key = key, se_account_id = account, se_secondary = [],
                 se_expires_at = now + sl_ttl_sec s1\<rparr> (sl_items s1)\<rparr>))"

definition sticky_put :: "int \<Rightarrow> string \<Rightarrow> string \<Rightarrow> sticky_lru \<Rightarrow> sticky_lru" where
  "sticky_put now key account s = put_primary now key account True s"

definition put_secondary :: "int \<Rightarrow> string \<Rightarrow> string \<Rightarrow> sticky_lru \<Rightarrow> sticky_lru" where
  "put_secondary now key account s =
     (if key = [] \<or> account = [] then s
      else case gm_get (sl_items s) key of
        None \<Rightarrow> s
      | Some e \<Rightarrow>
          if se_account_id e = account then
            if se_secondary e \<noteq> [] then
              touch now (e\<lparr>se_secondary := []\<rparr>) (unindex_account (se_secondary e) key s)
            else touch now e s
          else
            let s1 = (if se_secondary e \<noteq> [] \<and> se_secondary e \<noteq> account
                      then unindex_account (se_secondary e) key s else s)
            in touch now (e\<lparr>se_secondary := account\<rparr>) (index_account account key s1))"

definition delete_key :: "string \<Rightarrow> sticky_lru \<Rightarrow> sticky_lru" where
  "delete_key key s =
     (if key = [] then s
      else case gm_get (sl_items s) key of None \<Rightarrow> s | Some e \<Rightarrow> remove_element key e s)"

definition delete_account_key :: "string \<Rightarrow> string \<Rightarrow> sticky_lru \<Rightarrow> sticky_lru" where
  "delete_account_key account k s =
     (case gm_get (sl_items s) k of
        None \<Rightarrow> s
      | Some e \<Rightarrow>
          if se_account_id e = account then remove_element k e s
          else if se_secondary e = account then
            (unindex_account account k s)\<lparr>sl_items := gm_put k (e\<lparr>se_secondary := []\<rparr>) (sl_items s)\<rparr>
          else s)"

definition delete_account :: "(string list \<Rightarrow> string list) \<Rightarrow> string \<Rightarrow> sticky_lru \<Rightarrow> sticky_lru" where
  "delete_account ord account s =
     (if account = [] then s
      else case gm_get (sl_by_acct s) account of
        None \<Rightarrow> s
      | Some ks \<Rightarrow> fold (delete_account_key account) (ord ks) s)"

definition sticky_len :: "sticky_lru \<Rightarrow> nat" where
  "sticky_len s = length (sl_ll s)"

section \<open>The reverse index is exact\<close>

definition indexed :: "sticky_lru \<Rightarrow> string \<Rightarrow> string \<Rightarrow> bool" where
  "indexed s a k \<longleftrightarrow> k \<in> set (gm_default [] (sl_by_acct s) a)"

definition key_set :: "string list \<Rightarrow> bool" where
  "key_set ks \<longleftrightarrow> ks \<noteq> [] \<and> distinct ks"

definition by_acct_ok :: "sticky_lru \<Rightarrow> bool" where
  "by_acct_ok s \<longleftrightarrow> gm_wf (sl_by_acct s) \<and>
     (\<forall>a ks. map_of (sl_by_acct s) a = Some ks \<longrightarrow> key_set ks)"

definition names :: "sticky_entry \<Rightarrow> string \<Rightarrow> bool" where
  "names e a \<longleftrightarrow> a \<noteq> [] \<and> (se_account_id e = a \<or> se_secondary e = a)"

definition entry_ok :: "string \<Rightarrow> sticky_entry \<Rightarrow> bool" where
  "entry_ok k e \<longleftrightarrow> se_key e = k \<and> k \<noteq> [] \<and> se_account_id e \<noteq> [] \<and> se_secondary e \<noteq> se_account_id e"

definition sticky_core :: "sticky_lru \<Rightarrow> bool" where
  "sticky_core s \<longleftrightarrow> gm_wf (sl_items s) \<and> by_acct_ok s \<and> distinct (sl_ll s) \<and>
     set (sl_ll s) = dom (map_of (sl_items s)) \<and>
     (\<forall>k e. map_of (sl_items s) k = Some e \<longrightarrow> entry_ok k e) \<and>
     (\<forall>a k. indexed s a k \<longleftrightarrow> (\<exists>e. map_of (sl_items s) k = Some e \<and> names e a))"

definition sticky_ok :: "sticky_lru \<Rightarrow> bool" where
  "sticky_ok s \<longleftrightarrow> sticky_core s \<and> length (sl_ll s) \<le> sl_max s \<and> 0 < sl_max s"

lemma index_account_frame [simp, frame_simps]:
  "sl_items (index_account a k s) = sl_items s" "sl_ll (index_account a k s) = sl_ll s"
  "sl_max (index_account a k s) = sl_max s" "sl_ttl_sec (index_account a k s) = sl_ttl_sec s"
  by (simp_all add: index_account_def Let_def)

lemma unindex_account_frame [simp, frame_simps]:
  "sl_items (unindex_account a k s) = sl_items s" "sl_ll (unindex_account a k s) = sl_ll s"
  "sl_max (unindex_account a k s) = sl_max s" "sl_ttl_sec (unindex_account a k s) = sl_ttl_sec s"
  by (auto simp: unindex_account_def Let_def split: option.split)

lemma remove_element_frame [simp, frame_simps]:
  "sl_items (remove_element l e s) = gm_del (se_key e) (sl_items s)"
  "sl_ll (remove_element l e s) = filter (\<lambda>j. j \<noteq> l) (sl_ll s)"
  "sl_max (remove_element l e s) = sl_max s" "sl_ttl_sec (remove_element l e s) = sl_ttl_sec s"
  by (simp_all add: remove_element_def Let_def)

lemma touch_frame [simp, frame_simps]:
  "sl_items (touch now e s) = gm_put (se_key e) (e\<lparr>se_expires_at := now + sl_ttl_sec s\<rparr>) (sl_items s)"
  "sl_ll (touch now e s) = move_to_front (se_key e) (sl_ll s)"
  "sl_by_acct (touch now e s) = sl_by_acct s" "sl_max (touch now e s) = sl_max s"
  "sl_ttl_sec (touch now e s) = sl_ttl_sec s"
  by (simp_all add: touch_def)

lemma indexed_touch [simp]: "indexed (touch now e s) a k = indexed s a k"
  by (simp add: indexed_def)

lemma indexed_cong [simp]:
  "indexed (s\<lparr>sl_items := x\<rparr>) a k = indexed s a k" "indexed (s\<lparr>sl_ll := l\<rparr>) a k = indexed s a k"
  by (simp_all add: indexed_def)

lemma by_acct_ok_cong [simp]:
  "by_acct_ok (s\<lparr>sl_items := x\<rparr>) = by_acct_ok s" "by_acct_ok (s\<lparr>sl_ll := l\<rparr>) = by_acct_ok s"
  "by_acct_ok (touch now e s) = by_acct_ok s"
  by (simp_all add: by_acct_ok_def)

lemma indexed_index [simp]:
  "indexed (index_account a k s) b j \<longleftrightarrow> indexed s b j \<or> b = a \<and> j = k \<and> a \<noteq> []"
  by (auto simp: indexed_def index_account_def Let_def)

lemma indexed_unindex [simp]:
  "indexed (unindex_account a k s) b j \<longleftrightarrow> indexed s b j \<and> \<not> (b = a \<and> j = k)"
proof (cases "map_of (sl_by_acct s) a")
  case None
  then show ?thesis by (auto simp: indexed_def unindex_account_def gm_default_def)
next
  case (Some m)
  then have "gm_default [] (sl_by_acct s) a = m" by (simp add: gm_default_def)
  with Some show ?thesis
    by (auto simp: indexed_def unindex_account_def Let_def filter_empty_conv)
qed

lemma by_acct_okD: "by_acct_ok s \<Longrightarrow> map_of (sl_by_acct s) a = Some ks \<Longrightarrow> ks \<noteq> [] \<and> distinct ks"
  unfolding by_acct_ok_def key_set_def by blast

lemma by_acct_ok_set:
  "by_acct_ok s \<Longrightarrow> key_set ks \<Longrightarrow> by_acct_ok (s\<lparr>sl_by_acct := gm_put a ks (sl_by_acct s)\<rparr>)"
  by (simp add: by_acct_ok_def)

lemma by_acct_ok_clear: "by_acct_ok s \<Longrightarrow> by_acct_ok (s\<lparr>sl_by_acct := gm_del a (sl_by_acct s)\<rparr>)"
  by (simp add: by_acct_ok_def)

lemma by_acct_ok_index [simp]:
  assumes "by_acct_ok s"
  shows "by_acct_ok (index_account a k s)"
proof -
  let ?m = "gm_default [] (sl_by_acct s) a"
  have "distinct ?m"
    using by_acct_okD [OF assms, of a] by (cases "map_of (sl_by_acct s) a") (auto simp: gm_default_def)
  then have "key_set (if k \<in> set ?m then ?m else k # ?m)" by (auto simp: key_set_def)
  from by_acct_ok_set [OF assms this] show ?thesis using assms by (simp only: index_account_def Let_def if_split) simp
qed

lemma by_acct_ok_unindex [simp]:
  assumes "by_acct_ok s"
  shows "by_acct_ok (unindex_account a k s)"
proof (cases "map_of (sl_by_acct s) a")
  case (Some m)
  let ?m = "filter (\<lambda>j. j \<noteq> k) m"
  have "distinct ?m" using by_acct_okD [OF assms Some] by simp
  then have "?m = [] \<or> key_set ?m" by (simp add: key_set_def)
  with by_acct_ok_set [OF assms] by_acct_ok_clear [OF assms] Some show ?thesis
    by (cases "?m = []") (simp_all add: unindex_account_def Let_def)
qed (use assms in \<open>simp add: unindex_account_def\<close>)

lemma indexed_remove [simp]:
  "indexed (remove_element l e s) b j \<longleftrightarrow> indexed s b j \<and>
     \<not> (j = se_key e \<and> (b = se_account_id e \<or> b = se_secondary e \<and> b \<noteq> []))"
  by (auto simp: remove_element_def Let_def)

lemma by_acct_ok_remove [simp]: "by_acct_ok s \<Longrightarrow> by_acct_ok (remove_element l e s)"
  by (simp add: remove_element_def Let_def)

section \<open>Every operation keeps it exact\<close>

lemma sticky_coreD:
  assumes "sticky_core s"
  shows "gm_wf (sl_items s)" "by_acct_ok s" "distinct (sl_ll s)" "set (sl_ll s) = dom (map_of (sl_items s))"
    and "\<And>k e. map_of (sl_items s) k = Some e \<Longrightarrow> entry_ok k e"
    and "\<And>a k. indexed s a k \<longleftrightarrow> (\<exists>e. map_of (sl_items s) k = Some e \<and> names e a)"
  using assms by (simp_all add: sticky_core_def)

lemma indexed_at:
  "sticky_core s \<Longrightarrow> map_of (sl_items s) k = Some e \<Longrightarrow> indexed s a k \<longleftrightarrow> names e a"
  by (simp add: sticky_coreD(6))

text \<open>Replacing the entry of a bound key, given that the index was moved along.\<close>

lemma touch_core:
  assumes "sticky_core s" "map_of (sl_items s) k = Some e" "entry_ok k e'"
    "sl_items s' = sl_items s" "sl_ll s' = sl_ll s" "by_acct_ok s'"
    "\<And>a j. indexed s' a j \<longleftrightarrow> (if j = k then names e' a else indexed s a j)"
  shows "sticky_core (touch now e' s')"
proof -
  have k: "se_key e' = k" using assms(3) by (simp add: entry_ok_def)
  have in_ll: "k \<in> set (sl_ll s)" using assms(1,2) sticky_coreD(4) by blast
  have ent: "entry_ok j (e'\<lparr>se_expires_at := t\<rparr>) = entry_ok j e'" "names (e'\<lparr>se_expires_at := t\<rparr>) a = names e' a"
    for j t a by (simp_all add: entry_ok_def names_def)
  show ?thesis
    using assms(3-6) sticky_coreD [OF assms(1)] in_ll k
    by (auto simp: sticky_core_def move_to_front_def ent assms(7))
qed

lemma remove_core:
  assumes "sticky_core s" "map_of (sl_items s) k = Some e"
  shows "sticky_core (remove_element k e s)"
proof -
  have k: "se_key e = k" using sticky_coreD(5) [OF assms] by (simp add: entry_ok_def)
  have "indexed (remove_element k e s) a j \<longleftrightarrow>
      (\<exists>e'. map_of (sl_items (remove_element k e s)) j = Some e' \<and> names e' a)" for a j
  proof (cases "j = k")
    case True
    then show ?thesis using indexed_at [OF assms, of a] k by (auto simp: names_def)
  next
    case False
    then show ?thesis using sticky_coreD(6) [OF assms(1), of a j] k by simp
  qed
  then show ?thesis
    using sticky_coreD(1-5) [OF assms(1)] k by (auto simp: sticky_core_def simp del: indexed_remove)
qed

lemma new_entry_core:
  assumes "sticky_core s" "map_of (sl_items s) k = None" "k \<noteq> []" "a \<noteq> []"
  shows "sticky_core (index_account a k (s\<lparr>sl_ll := k # sl_ll s, sl_items := gm_put k
    \<lparr>se_key = k, se_account_id = a, se_secondary = [], se_expires_at = t\<rparr> (sl_items s)\<rparr>))"
proof -
  have "\<not> indexed s b k" for b using assms(1,2) by (simp add: sticky_coreD(6))
  moreover have "k \<notin> set (sl_ll s)" using assms(1,2) sticky_coreD(4) by (simp add: domIff)
  ultimately show ?thesis
    using sticky_coreD [OF assms(1)] assms(3,4)
    by (auto simp: sticky_core_def entry_ok_def names_def)
qed

lemma evict_core:
  "sticky_core s \<Longrightarrow> sticky_core (evict s) \<and> sl_max (evict s) = sl_max s \<and> sl_ttl_sec (evict s) = sl_ttl_sec s \<and>
     (sl_ll (evict s) = [] \<or> length (sl_ll (evict s)) < sl_max s) \<and>
     (\<forall>k. map_of (sl_items s) k = None \<longrightarrow> map_of (sl_items (evict s)) k = None)"
proof (induction s rule: evict.induct)
  case (1 s)
  show ?case
  proof (cases "sl_max s \<le> length (sl_ll s) \<and> sl_ll s \<noteq> []")
    case True
    let ?k = "last (sl_ll s)"
    have "?k \<in> set (sl_ll s)" using True by simp
    then obtain e where e: "map_of (sl_items s) ?k = Some e" using sticky_coreD(4) [OF 1(2)] by blast
    have "evict s = evict (remove_element ?k e s)" using True e by (subst evict.simps) simp
    with "1.IH" [OF True e remove_core [OF 1(2) e]] show ?thesis by auto
  next
    case False
    then show ?thesis using 1(2) by (subst (1 2 3 4 5 6) evict.simps) auto
  qed
qed

lemma length_move_to_front:
  "k \<in> set ll \<Longrightarrow> distinct ll \<Longrightarrow> length (move_to_front k ll) = length ll"
proof (induction ll)
  case (Cons j ll)
  show ?case
  proof (cases "j = k")
    case True
    with Cons.prems have "filter (\<lambda>j. j \<noteq> k) ll = ll" by (auto simp: filter_id_conv)
    with True show ?thesis by (simp add: move_to_front_def)
  next
    case False
    with Cons show ?thesis by (simp add: move_to_front_def)
  qed
qed simp

lemma touch_ok:
  assumes "sticky_ok s" "map_of (sl_items s) k = Some e" "sticky_core (touch now e' s')"
    "sl_ll s' = sl_ll s" "sl_max s' = sl_max s" "se_key e' = k"
  shows "sticky_ok (touch now e' s')"
proof -
  have "k \<in> set (sl_ll s)" "distinct (sl_ll s)"
    using assms(1,2) sticky_coreD [of s] by (auto simp: sticky_ok_def)
  then show ?thesis using assms by (simp add: sticky_ok_def length_move_to_front)
qed

lemma remove_ok: "sticky_ok s \<Longrightarrow> map_of (sl_items s) k = Some e \<Longrightarrow> sticky_ok (remove_element k e s)"
  using le_trans [OF length_filter_le [of "\<lambda>j. j \<noteq> k" "sl_ll s"]]
  by (simp add: sticky_ok_def remove_core)

lemma get_pair_ok: "sticky_ok s \<Longrightarrow> sticky_ok (snd (get_pair now key s))"
proof (cases "key = []")
  case False
  assume ok: "sticky_ok s"
  then have core: "sticky_core s" by (simp add: sticky_ok_def)
  show ?thesis
  proof (cases "map_of (sl_items s) key")
    case (Some e)
    have "entry_ok key e" using sticky_coreD(5) [OF core Some] .
    then have "sticky_core (touch now e s)"
      using touch_core [OF core Some, of e s now] sticky_coreD(2) [OF core] indexed_at [OF core Some] by simp
    then show ?thesis
      using ok Some touch_ok [OF ok Some, of now e s] remove_ok [OF ok Some] \<open>entry_ok key e\<close>
      by (simp add: get_pair_def entry_ok_def)
  qed (use ok in \<open>simp add: get_pair_def\<close>)
qed (simp add: get_pair_def)

lemma sticky_put_ok:
  assumes ok: "sticky_ok s"
  shows "sticky_ok (sticky_put now key account s)"
proof (cases "key = [] \<or> account = []")
  case False
  have core: "sticky_core s" using ok by (simp add: sticky_ok_def)
  show ?thesis
  proof (cases "map_of (sl_items s) key")
    case None
    have "length (sl_ll (evict s)) < sl_max s" using evict_core [OF core] ok by (auto simp: sticky_ok_def)
    moreover have "sticky_core (index_account account key ((evict s)\<lparr>sl_ll := key # sl_ll (evict s),
        sl_items := gm_put key \<lparr>se_key = key, se_account_id = account, se_secondary = [],
          se_expires_at = now + sl_ttl_sec (evict s)\<rparr> (sl_items (evict s))\<rparr>))"
      using evict_core [OF core] None False by (intro new_entry_core) auto
    ultimately show ?thesis
      using None False evict_core [OF core] ok by (simp add: sticky_put_def put_primary_def Let_def sticky_ok_def)
  next
    case (Some e)
    have ent: "entry_ok key e" using sticky_coreD(5) [OF core Some] .
    note at = indexed_at [OF core Some]
    have up: "sticky_ok (touch now e' s')"
      if "entry_ok key e'" "sl_items s' = sl_items s" "sl_ll s' = sl_ll s" "by_acct_ok s'" "sl_max s' = sl_max s"
        "\<And>a j. indexed s' a j \<longleftrightarrow> (if j = key then names e' a else indexed s a j)" for e' s'
      using touch_core [OF core Some that(1-4), of now] that touch_ok [OF ok Some, of now e' s']
      by (simp add: entry_ok_def)
    note by_acct = sticky_coreD(2) [OF core]
    let ?s1 = "unindex_account (se_account_id e) key s"
    let ?s2 = "index_account account key ?s1"
    have same: "sticky_ok (touch now e s)" by (rule up) (simp_all add: ent at by_acct)
    have e: "se_key e = key" "key \<noteq> []" "se_account_id e \<noteq> []" "se_secondary e \<noteq> se_account_id e"
      using ent by (simp_all add: entry_ok_def)
    have b1: "sticky_ok (touch now (e\<lparr>se_secondary := [], se_account_id := account\<rparr>) ?s2)"
      if "se_secondary e = account"
    proof (rule up)
      show "indexed ?s2 a j = (if j = key then names (e\<lparr>se_secondary := [], se_account_id := account\<rparr>) a
          else indexed s a j)" for a j
        using that e False at [of a] by (cases "j = key") (auto simp: names_def)
    qed (use e that False by_acct in \<open>simp_all add: entry_ok_def\<close>)
    have b2: "sticky_ok (touch now (e\<lparr>se_secondary := se_account_id e, se_account_id := account\<rparr>)
        (index_account account key (index_account (se_account_id e) key ?s1)))"
      if "se_secondary e = []" "se_account_id e \<noteq> account"
    proof (rule up)
      show "indexed (index_account account key (index_account (se_account_id e) key ?s1)) a j =
          (if j = key then names (e\<lparr>se_secondary := se_account_id e, se_account_id := account\<rparr>) a
           else indexed s a j)" for a j
        using that e False at [of a] by (cases "j = key") (auto simp: names_def)
    qed (use e that False by_acct in \<open>simp_all add: entry_ok_def\<close>)
    have b3: "sticky_ok (touch now (e\<lparr>se_account_id := account\<rparr>) ?s2)"
      if "se_secondary e \<noteq> account"
    proof (rule up)
      show "indexed ?s2 a j = (if j = key then names (e\<lparr>se_account_id := account\<rparr>) a
          else indexed s a j)" for a j
        using that e False at [of a] by (cases "j = key") (auto simp: names_def)
    qed (use e that False by_acct in \<open>simp_all add: entry_ok_def\<close>)
    show ?thesis
      using Some False e same b1 b2 b3
      by (simp add: sticky_put_def put_primary_def Let_def)
  qed
qed (use ok in \<open>auto simp: sticky_put_def put_primary_def\<close>)

lemma put_secondary_ok:
  assumes ok: "sticky_ok s"
  shows "sticky_ok (put_secondary now key account s)"
proof (cases "key = [] \<or> account = [] \<or> map_of (sl_items s) key = None")
  case False
  have core: "sticky_core s" using ok by (simp add: sticky_ok_def)
  from False obtain e where Some: "map_of (sl_items s) key = Some e" by auto
  have e: "se_key e = key" "key \<noteq> []" "se_account_id e \<noteq> []" "se_secondary e \<noteq> se_account_id e"
    using sticky_coreD(5) [OF core Some] by (simp_all add: entry_ok_def)
  note at = indexed_at [OF core Some] and by_acct = sticky_coreD(2) [OF core]
  have up: "sticky_ok (touch now e' s')"
    if "entry_ok key e'" "sl_items s' = sl_items s" "sl_ll s' = sl_ll s" "by_acct_ok s'" "sl_max s' = sl_max s"
      "\<And>a j. indexed s' a j \<longleftrightarrow> (if j = key then names e' a else indexed s a j)" for e' s'
    using touch_core [OF core Some that(1-4), of now] that touch_ok [OF ok Some, of now e' s']
    by (simp add: entry_ok_def)
  have same: "sticky_ok (touch now e s)"
    by (rule up) (use e at by_acct in \<open>simp_all add: entry_ok_def\<close>)
  have clear: "sticky_ok (touch now (e\<lparr>se_secondary := []\<rparr>) (unindex_account (se_secondary e) key s))"
    if "se_secondary e \<noteq> []"
  proof (rule up)
    show "indexed (unindex_account (se_secondary e) key s) a j =
        (if j = key then names (e\<lparr>se_secondary := []\<rparr>) a else indexed s a j)" for a j
      using that e at [of a] by (cases "j = key") (auto simp: names_def)
  qed (use e by_acct in \<open>simp_all add: entry_ok_def\<close>)
  have set1: "sticky_ok (touch now (e\<lparr>se_secondary := account\<rparr>)
      (index_account account key (unindex_account (se_secondary e) key s)))"
    if "se_account_id e \<noteq> account" "se_secondary e \<noteq> account"
  proof (rule up)
    show "indexed (index_account account key (unindex_account (se_secondary e) key s)) a j =
        (if j = key then names (e\<lparr>se_secondary := account\<rparr>) a else indexed s a j)" for a j
      using that e at [of a] False by (cases "j = key") (auto simp: names_def)
  qed (use e that False by_acct in \<open>simp_all add: entry_ok_def\<close>)
  have set2: "sticky_ok (touch now (e\<lparr>se_secondary := account\<rparr>) (index_account account key s))"
    if "se_account_id e \<noteq> account" "se_secondary e = account \<or> se_secondary e = []"
  proof (rule up)
    show "indexed (index_account account key s) a j =
        (if j = key then names (e\<lparr>se_secondary := account\<rparr>) a else indexed s a j)" for a j
      using that e at [of a] False by (cases "j = key") (auto simp: names_def)
  qed (use e that False by_acct in \<open>simp_all add: entry_ok_def\<close>)
  show ?thesis
    using Some False same clear set1 set2 by (auto simp: put_secondary_def Let_def)
qed (use ok in \<open>auto simp: put_secondary_def\<close>)

lemma delete_key_ok: "sticky_ok s \<Longrightarrow> sticky_ok (delete_key key s)"
  by (auto simp: delete_key_def remove_ok split: option.split)

text \<open>What deleting an account does to one entry.\<close>

definition forget :: "string \<Rightarrow> sticky_entry \<Rightarrow> sticky_entry option" where
  "forget a e = (if se_account_id e = a then None
     else if se_secondary e = a then Some (e\<lparr>se_secondary := []\<rparr>) else Some e)"

lemma delete_account_key_spec:
  assumes ok: "sticky_ok s" and a: "a \<noteq> []"
  shows "sticky_ok (delete_account_key a k s) \<and>
    map_of (sl_items (delete_account_key a k s)) =
      (map_of (sl_items s))(k := Option.bind (map_of (sl_items s) k) (forget a))"
proof (cases "map_of (sl_items s) k")
  case None
  then show ?thesis using ok by (simp add: delete_account_key_def fun_upd_idem)
next
  case (Some e)
  have core: "sticky_core s" using ok by (simp add: sticky_ok_def)
  have e: "se_key e = k" "k \<noteq> []" "se_account_id e \<noteq> []" "se_secondary e \<noteq> se_account_id e"
    using sticky_coreD(5) [OF core Some] by (simp_all add: entry_ok_def)
  consider "se_account_id e = a" | "se_account_id e \<noteq> a" "se_secondary e = a"
    | "se_account_id e \<noteq> a" "se_secondary e \<noteq> a" by blast
  then show ?thesis
  proof cases
    case 1
    then show ?thesis
      using Some e remove_ok [OF ok Some] by (simp add: delete_account_key_def forget_def)
  next
    case 2
    let ?s = "(unindex_account a k s)\<lparr>sl_items := gm_put k (e\<lparr>se_secondary := []\<rparr>) (sl_items s)\<rparr>"
    have idx: "indexed ?s b j \<longleftrightarrow> (\<exists>e'. map_of (sl_items ?s) j = Some e' \<and> names e' b)" for b j
    proof (cases "j = k")
      case True
      then show ?thesis using indexed_at [OF core Some, of b] 2 e by (auto simp: names_def)
    next
      case False
      then show ?thesis using sticky_coreD(6) [OF core, of b j] by simp
    qed
    have "k \<in> set (sl_ll s)" using Some sticky_coreD(4) [OF core] by blast
    then have "sticky_ok ?s"
      using sticky_coreD(1-5) [OF core] e e(3) [symmetric] 2 ok Some
      by (auto simp: sticky_ok_def sticky_core_def idx entry_ok_def simp del: indexed_cong indexed_unindex)
    then show ?thesis using Some 2 by (simp add: delete_account_key_def forget_def)
  next
    case 3
    then show ?thesis using Some ok by (simp add: delete_account_key_def forget_def fun_upd_idem)
  qed
qed

lemma forget_idem: "Option.bind (Option.bind x (forget a)) (forget a) = Option.bind x (forget a)" if "a \<noteq> []"
  using that by (cases x) (auto simp: forget_def)

lemma delete_account_fold:
  assumes a: "a \<noteq> []"
  shows "sticky_ok s \<Longrightarrow> sticky_ok (fold (delete_account_key a) ks s) \<and>
    map_of (sl_items (fold (delete_account_key a) ks s)) k =
      (if k \<in> set ks then Option.bind (map_of (sl_items s) k) (forget a) else map_of (sl_items s) k)"
proof (induction ks arbitrary: s)
  case (Cons j ks)
  note one = delete_account_key_spec [OF Cons.prems a, of j]
  from Cons.IH [of "delete_account_key a j s"] one show ?case
    using forget_idem [OF a, of "map_of (sl_items s) j"] by (auto simp del: Option.bind.simps)
qed simp

lemma delete_account_spec:
  assumes "sticky_ok s" "iteration_order ord" "a \<noteq> []"
  shows "sticky_ok (delete_account ord a s) \<and>
    map_of (sl_items (delete_account ord a s)) k = Option.bind (map_of (sl_items s) k) (forget a)"
proof -
  have core: "sticky_core s" using assms(1) by (simp add: sticky_ok_def)
  have idx: "indexed s a k \<longleftrightarrow> (\<exists>e. map_of (sl_items s) k = Some e \<and> names e a)"
    by (rule sticky_coreD(6) [OF core])
  have keep: "Option.bind (map_of (sl_items s) k) (forget a) = map_of (sl_items s) k" if "\<not> indexed s a k"
    using that idx assms(3) by (cases "map_of (sl_items s) k") (auto simp: forget_def names_def)
  show ?thesis
  proof (cases "map_of (sl_by_acct s) a")
    case None
    then have "\<not> indexed s a k" by (simp add: indexed_def gm_default_def)
    then show ?thesis using None assms keep by (simp add: delete_account_def)
  next
    case (Some ks)
    then have "indexed s a k \<longleftrightarrow> k \<in> set ks" by (simp add: indexed_def gm_default_def)
    with Some keep delete_account_fold [OF assms(3,1), of "ord ks" k] assms(2,3) show ?thesis
      by (auto simp: delete_account_def simp del: Option.bind.simps)
  qed
qed

lemma new_sticky_ok: "sticky_ok (new_sticky_lru mx ttl)"
  by (simp add: new_sticky_lru_def sticky_ok_def sticky_core_def by_acct_ok_def indexed_def
      DefaultStickyMax_def)

inductive sticky_step :: "sticky_lru \<Rightarrow> sticky_lru \<Rightarrow> bool" where
  sticky_step_get: "sticky_step s (snd (get_pair now k s))"
| sticky_step_put: "sticky_step s (sticky_put now k a s)"
| sticky_step_second: "sticky_step s (put_secondary now k a s)"
| sticky_step_del_key: "sticky_step s (delete_key k s)"
| sticky_step_del_acct: "iteration_order ord \<Longrightarrow> sticky_step s (delete_account ord a s)"

lemma delete_account_ok: "sticky_ok s \<Longrightarrow> iteration_order ord \<Longrightarrow> sticky_ok (delete_account ord a s)"
  using delete_account_spec [of s ord a] by (cases "a = []") (auto simp: delete_account_def)

lemma sticky_step_ok: "sticky_step s s' \<Longrightarrow> sticky_ok s \<Longrightarrow> sticky_ok s'"
  by (induction rule: sticky_step.induct)
     (simp_all add: get_pair_ok sticky_put_ok put_secondary_ok delete_key_ok delete_account_ok)

lemma sticky_steps_ok: "sticky_step\<^sup>*\<^sup>* s s' \<Longrightarrow> sticky_ok s \<Longrightarrow> sticky_ok s'"
  by (induction rule: rtranclp_induct) (auto simp: sticky_step_ok)

section \<open>Reading after a put\<close>

lemma sticky_put_entry:
  assumes "sticky_ok s" "key \<noteq> []" "account \<noteq> []"
  shows "\<exists>e. map_of (sl_items (sticky_put now key account s)) key = Some e \<and>
    se_account_id e = account \<and> se_expires_at e = now + sl_ttl_sec s"
proof (cases "map_of (sl_items s) key")
  case None
  then show ?thesis
    using assms evict_core [of s] by (simp add: sticky_put_def put_primary_def Let_def sticky_ok_def)
next
  case (Some e)
  have "se_key e = key" using sticky_coreD(5) [of s] assms(1) Some by (auto simp: sticky_ok_def entry_ok_def)
  then show ?thesis
    using assms Some by (simp add: sticky_put_def put_primary_def Let_def)
qed

lemma get_pair_entry:
  "map_of (sl_items s) key = Some e \<Longrightarrow> key \<noteq> [] \<Longrightarrow> now < se_expires_at e \<Longrightarrow>
   fst (get_pair now key s) = Some (se_account_id e, se_secondary e)"
  by (simp add: get_pair_def)

lemma get_pair_None:
  "map_of (sl_items s) key = None \<Longrightarrow> get_pair now key s = (None, s)"
  by (simp add: get_pair_def)

lemma evict_full:
  assumes "sticky_ok s" "length (sl_ll s) = sl_max s"
  shows "sl_items (evict s) = gm_del (last (sl_ll s)) (sl_items s)"
proof -
  let ?k = "last (sl_ll s)"
  have core: "sticky_core s" and ne: "sl_ll s \<noteq> []" using assms by (auto simp: sticky_ok_def)
  then have "?k \<in> set (sl_ll s)" by simp
  then obtain e where e: "map_of (sl_items s) ?k = Some e" using sticky_coreD(4) [OF core] by blast
  have k: "se_key e = ?k" using sticky_coreD(5) [OF core e] by (simp add: entry_ok_def)
  have "filter (\<lambda>j. j \<noteq> ?k) (sl_ll s) = butlast (sl_ll s)"
    using ne sticky_coreD(3) [OF core]
    by (cases "sl_ll s" rule: rev_cases) (auto simp: filter_id_conv)
  then have "length (sl_ll (remove_element ?k e s)) < sl_max s"
    using assms by (simp add: sticky_ok_def)
  then have "evict (remove_element ?k e s) = remove_element ?k e s"
    by (subst evict.simps) simp
  then show ?thesis using assms ne e k by (subst evict.simps) simp
qed

lemma evict_room: "length (sl_ll s) < sl_max s \<Longrightarrow> evict s = s"
  by (subst evict.simps) simp

section \<open>Properties\<close>

definition sample_sticky :: sticky_lru where
  "sample_sticky = put_secondary 10 ''k'' ''b'' (sticky_put 10 ''j'' ''b'' (sticky_put 10 ''k'' ''a''
     (new_sticky_lru 2 60)))"

lemma sample_sticky_steps: "sticky_step\<^sup>*\<^sup>* (new_sticky_lru 2 60) sample_sticky"
  unfolding sample_sticky_def
  by (rule rtranclp.rtrancl_into_rtrancl [OF rtranclp.rtrancl_into_rtrancl
        [OF r_into_rtranclp [of sticky_step, OF sticky_step_put] sticky_step_put] sticky_step_second])

lemma sample_sticky_ok: "sticky_ok sample_sticky"
  by (rule sticky_steps_ok [OF sample_sticky_steps new_sticky_ok])

text \<open>
  C35. After any sequence of lookups, bindings, secondary bindings, deletions and evictions
  the sticky LRU is consistent: it never holds more than its capacity, the list and the map
  have the same keys, no primary is empty or equal to its secondary, and the reverse index
  lists an account under exactly the keys whose entry names it (no stale and no missing one).
\<close>

theorem reachable_sticky_ok: "sticky_step\<^sup>*\<^sup>* (new_sticky_lru mx ttl) s \<Longrightarrow> sticky_ok s"
  using sticky_steps_ok new_sticky_ok by blast

theorem reachable_sticky_ok_witness: "sticky_ok sample_sticky"
  by (rule reachable_sticky_ok [OF sample_sticky_steps])

text \<open>
  Clearing an account removes every reference to it and nothing else, in whatever order
  the Go map of its keys is walked: bindings with it as primary go, a binding with it as
  secondary keeps its primary and loses the secondary, all others stay as they are.
\<close>

theorem delete_account_forgets:
  assumes "sticky_ok s" "iteration_order ord" "a \<noteq> []"
  shows "map_of (sl_items (delete_account ord a s)) k = Option.bind (map_of (sl_items s) k) (forget a) \<and>
    \<not> indexed (delete_account ord a s) a k"
proof -
  note spec = delete_account_spec [OF assms]
  then have "sticky_core (delete_account ord a s)" by (simp add: sticky_ok_def)
  from sticky_coreD(6) [OF this, of a k] spec [of k] sticky_coreD(5) [of s k] assms(1,3)
  show ?thesis
    by (cases "map_of (sl_items s) k") (auto simp: forget_def names_def sticky_ok_def entry_ok_def split: if_splits)
qed

theorem delete_account_forgets_witness:
  "map_of (sl_items (delete_account rev ''b'' sample_sticky)) ''j'' = None"
proof -
  have "map_of (sl_items sample_sticky) ''j'' =
      Some \<lparr>se_key = ''j'', se_account_id = ''b'', se_secondary = [], se_expires_at = 70\<rparr>"
    by code_simp
  with delete_account_forgets [OF sample_sticky_ok iteration_order_rev, of "''b''" "''j''"]
  show ?thesis by (simp add: forget_def)
qed

text \<open>
  A binding is found again: until its time to live is over, a lookup of the key returns
  the account it was last bound to. Binding a new key to a full LRU drops the least recently
  used key, and only that one.
\<close>

theorem sticky_put_get:
  assumes "sticky_ok s" "key \<noteq> []" "account \<noteq> []" "later < now + sl_ttl_sec s"
  shows "(\<exists>sec. fst (get_pair later key (sticky_put now key account s)) = Some (account, sec)) \<and>
    (map_of (sl_items s) key = None \<and> j \<noteq> key \<longrightarrow>
      map_of (sl_items (sticky_put now key account s)) j =
        (if length (sl_ll s) = sl_max s \<and> j = last (sl_ll s) then None else map_of (sl_items s) j))"
proof -
  obtain e where "map_of (sl_items (sticky_put now key account s)) key = Some e"
    "se_account_id e = account" "se_expires_at e = now + sl_ttl_sec s"
    using sticky_put_entry [OF assms(1-3)] by blast
  with get_pair_entry [OF this(1) assms(2)] assms(4) have "\<exists>sec. fst (get_pair later key (sticky_put now key account s)) =
      Some (account, sec)" by simp
  moreover have "length (sl_ll s) \<noteq> sl_max s \<Longrightarrow> evict s = s"
    using evict_room assms(1) by (simp add: sticky_ok_def)
  then have "map_of (sl_items (evict s)) j =
      (if length (sl_ll s) = sl_max s \<and> j = last (sl_ll s) then None else map_of (sl_items s) j)"
    using evict_full [OF assms(1)] by (cases "length (sl_ll s) = sl_max s") auto
  ultimately show ?thesis
    using assms(2,3) by (simp add: sticky_put_def put_primary_def Let_def)
qed

theorem sticky_put_get_witness:
  "\<exists>sec. fst (get_pair 50 ''z'' (sticky_put 20 ''z'' ''c'' sample_sticky)) = Some (''c'', sec)"
proof -
  have "sl_ttl_sec sample_sticky = 60" by code_simp
  with sticky_put_get [OF sample_sticky_ok, of "''z''" "''c''" 50 20] show ?thesis by simp
qed

end
