(* ===== verification/Selector.thy ===== *)
theory Selector
  imports Hot Sticky
begin

text \<open>
  Choosing an account (\<open>internal/selector\<close>): sticky affinity first, then round robin over
  the best priority tier (\<open>stable_rr\<close>) or the best of a random sample (\<open>pow2_least_load\<close>).

  The selector shares the hot index with the lease manager, so each operation takes the
  index as an argument. A pick is one sequence of locked steps; it is modelled without other
  operations in between. Scores are exact rationals where the code computes in float64. The
  random source is a record of functions over an explicit state.
\<close>

section \<open>Configuration\<close>

definition StrategyPow2LeastLoad :: string where "StrategyPow2LeastLoad = ''pow2_least_load''"
definition StrategyStableRR :: string where "StrategyStableRR = ''stable_rr''"

record sel_config =
  sc_strategy :: string
  sc_hot_size :: int
  sc_sticky_ttl_sec :: int
  sc_sticky_max :: int
  sc_pow2_k :: int
  sc_max_attempts :: int
  sc_w_priority :: rat
  sc_w_inflight :: rat
  sc_w_failure :: rat
  sc_jitter_amp :: rat

definition sel_default_config :: sel_config where
  "sel_default_config =
     \<lparr>sc_strategy = StrategyStableRR, sc_hot_size = 3000, sc_sticky_ttl_sec = DefaultStickyTTLSec,
      sc_sticky_max = DefaultStickyMax, sc_pow2_k = 2, sc_max_attempts = 2, sc_w_priority = 1,
      sc_w_inflight = 10, sc_w_failure = 5, sc_jitter_amp = 1 / 2\<rparr>"

definition sel_normalize :: "sel_config \<Rightarrow> sel_config" where
  "sel_normalize c =
     (let d = sel_default_config in
      \<lparr>sc_strategy = (if sc_strategy c = [] then sc_strategy d else sc_strategy c),
       sc_hot_size = (if sc_hot_size c \<le> 0 then sc_hot_size d else sc_hot_size c),
       sc_sticky_ttl_sec = (if sc_sticky_ttl_sec c \<le> 0 then sc_sticky_ttl_sec d else sc_sticky_ttl_sec c),
       sc_sticky_max = (if sc_sticky_max c \<le> 0 then sc_sticky_max d else sc_sticky_max c),
       sc_pow2_k = (if sc_pow2_k c \<le> 0 then sc_pow2_k d else sc_pow2_k c),
       sc_max_attempts = (if sc_max_attempts c \<le> 0 then sc_max_attempts d else sc_max_attempts c),
       sc_w_priority = (if sc_w_priority c = 0 then sc_w_priority d else sc_w_priority c),
       sc_w_inflight = (if sc_w_inflight c = 0 then sc_w_inflight d else sc_w_inflight c),
       sc_w_failure = (if sc_w_failure c = 0 then sc_w_failure d else sc_w_failure c),
       sc_jitter_amp = (if sc_jitter_amp c < 0 then sc_jitter_amp d else sc_jitter_amp c)\<rparr>)"

section \<open>State\<close>

record 'r rand_source =
  rs_intn :: "'r \<Rightarrow> nat \<Rightarrow> nat \<times> 'r"
  rs_float64 :: "'r \<Rightarrow> rat \<times> 'r"

record 'r selector =
  sel_cfg :: sel_config
  sel_sticky :: sticky_lru
  sel_rng :: 'r
  sel_rr_cursor :: "64 word"
  sel_primary_hits :: "64 word"
  sel_secondary_hits :: "64 word"
  sel_reselects :: "64 word"

definition sel_new :: "sel_config \<Rightarrow> 'r \<Rightarrow> 'r selector" where
  "sel_new c r =
     (let c = sel_normalize c in
      \<lparr>sel_cfg = c, sel_sticky = new_sticky_lru (sc_sticky_max c) (sc_sticky_ttl_sec c), sel_rng = r,
       sel_rr_cursor = 0, sel_primary_hits = 0, sel_secondary_hits = 0, sel_reselects = 0\<rparr>)"

definition sel_apply_config :: "sel_config \<Rightarrow> 'r selector \<Rightarrow> 'r selector" where
  "sel_apply_config c0 s =
     (let c1 = (if sc_strategy c0 = [] then c0\<lparr>sc_strategy := ''stable_rr''\<rparr> else c0);
          c2 = (if sc_max_attempts c1 < 1 then c1\<lparr>sc_max_attempts := 1\<rparr> else c1);
          c3 = (if sc_pow2_k c2 < 1 then c2\<lparr>sc_pow2_k := 1\<rparr> else c2);
          c = (if sc_sticky_max c3 < 0 then c3\<lparr>sc_sticky_max := 0\<rparr> else c3);
          old = sel_cfg s; s1 = s\<lparr>sel_cfg := c\<rparr> in
      if sc_sticky_ttl_sec old \<noteq> sc_sticky_ttl_sec c \<or> sc_sticky_max old \<noteq> sc_sticky_max c
      then s1\<lparr>sel_sticky := new_sticky_lru (sc_sticky_max c) (sc_sticky_ttl_sec c)\<rparr> else s1)"

section \<open>Strategies\<close>

definition score_with :: "sel_config \<Rightarrow> hot_meta \<Rightarrow> rat \<Rightarrow> rat" where
  "score_with c m jitter =
     sc_w_priority c * of_int (hm_priority m) - sc_w_inflight c * of_int (hm_inflight m)
     - sc_w_failure c * hm_failure_score m + jitter"

text \<open>\<open>int32(-1 << 30)\<close>, the priority the search for the best tier starts from.\<close>

definition rr_floor :: int where "rr_floor = - (2 ^ 30)"

text \<open>The candidates of the best priority seen so far, in iteration order.\<close>

fun tier_loop :: "string list \<Rightarrow> hot_meta list \<Rightarrow> int \<Rightarrow> hot_meta list \<Rightarrow> hot_meta list" where
  "tier_loop exclude [] best cands = cands"
| "tier_loop exclude (m # ms) best cands =
     (if hm_id m \<in> set exclude then tier_loop exclude ms best cands
      else if hm_priority m > best then tier_loop exclude ms (hm_priority m) [m]
      else if hm_priority m = best then tier_loop exclude ms best (cands @ [m])
      else tier_loop exclude ms best cands)"

text \<open>
  The number of candidates fits a uint64, so \<open>rrCursor % uint64(len(cands))\<close> is the remainder
  of the natural numbers. The insertion sort of the candidates: \<open>sift\<close> swaps a new element down the sorted prefix,
  which is kept in reverse.
\<close>

fun sift :: "hot_meta \<Rightarrow> hot_meta list \<Rightarrow> hot_meta list" where
  "sift m [] = [m]"
| "sift m (p # ps) = (if hm_id m < hm_id p then p # sift m ps else m # p # ps)"

definition sort_by_id :: "hot_meta list \<Rightarrow> hot_meta list" where
  "sort_by_id ms = rev (fold sift ms [])"

definition stable_rr_pick ::
  "(hot_meta list \<Rightarrow> hot_meta list) \<Rightarrow> index \<Rightarrow> int \<Rightarrow> string list \<Rightarrow> 'r selector
   \<Rightarrow> string option \<times> 'r selector" where
  "stable_rr_pick ord x now exclude s =
     (let all = hot_eligible ord now now x in
      if all = [] then (None, s)
      else let cands = tier_loop exclude all rr_floor [] in
       if cands = [] then (None, s)
       else let cands = sort_by_id cands;
                i = unat (sel_rr_cursor s) mod length cands in
         (Some (hm_id (cands ! i)), s\<lparr>sel_rr_cursor := sel_rr_cursor s + 1\<rparr>))"

definition sample_jitter :: "'r rand_source \<Rightarrow> rat \<Rightarrow> 'r \<Rightarrow> rat \<times> 'r" where
  "sample_jitter rnd amp r =
     (if amp = 0 then (0, r) else let (f, r') = rs_float64 rnd r in ((f * 2 - 1) * amp, r'))"

fun score_loop ::
  "'r rand_source \<Rightarrow> sel_config \<Rightarrow> hot_meta list \<Rightarrow> (string \<times> rat) option \<Rightarrow> 'r
   \<Rightarrow> (string \<times> rat) option \<times> 'r" where
  "score_loop rnd c [] best r = (best, r)"
| "score_loop rnd c (m # ms) best r =
     (let (j, r') = sample_jitter rnd (sc_jitter_amp c) r; sc = score_with c m j in
      case best of
        None \<Rightarrow> score_loop rnd c ms (Some (hm_id m, sc)) r'
      | Some (bid, bsc) \<Rightarrow>
          if sc > bsc \<or> sc = bsc \<and> hm_id m < bid then score_loop rnd c ms (Some (hm_id m, sc)) r'
          else score_loop rnd c ms (Some (bid, bsc)) r')"

definition pow2_pick ::
  "'r rand_source \<Rightarrow> index \<Rightarrow> int \<Rightarrow> string list \<Rightarrow> 'r selector \<Rightarrow> string option \<times> 'r selector" where
  "pow2_pick rnd x now exclude s =
     (let k = (if sc_pow2_k (sel_cfg s) \<le> 0 then 1 else sc_pow2_k (sel_cfg s));
          (picked, r1) = sample_eligible now now k exclude (rs_intn rnd) x (sel_rng s) in
      if picked = [] then (None, s\<lparr>sel_rng := r1\<rparr>)
      else let (best, r2) = score_loop rnd (sel_cfg s) picked None r1 in
       (case best of
          None \<Rightarrow> (None, s\<lparr>sel_rng := r2\<rparr>)
        | Some (i, sc) \<Rightarrow> (if i \<noteq> [] then Some i else None, s\<lparr>sel_rng := r2\<rparr>)))"

section \<open>Picking\<close>

definition usable :: "index \<Rightarrow> int \<Rightarrow> string list \<Rightarrow> string \<Rightarrow> bool" where
  "usable x now exclude i \<longleftrightarrow> i \<noteq> [] \<and> i \<notin> set exclude \<and>
     (case hot_get i x of None \<Rightarrow> False | Some m \<Rightarrow> hi_eligible_meta x m now)"

definition pick_by_strategy ::
  "(hot_meta list \<Rightarrow> hot_meta list) \<Rightarrow> 'r rand_source \<Rightarrow> index \<Rightarrow> int \<Rightarrow> string list \<Rightarrow> 'r selector
   \<Rightarrow> string option \<times> 'r selector" where
  "pick_by_strategy ord rnd x now exclude s =
     (if sc_strategy (sel_cfg s) \<in> {StrategyStableRR, ''round_robin'', ''rr''}
      then stable_rr_pick ord x now exclude s
      else pow2_pick rnd x now exclude s)"

text \<open>The part after the sticky bindings gave no account; \<open>hit\<close> says there was a binding.\<close>

definition pick_fresh ::
  "(hot_meta list \<Rightarrow> hot_meta list) \<Rightarrow> 'r rand_source \<Rightarrow> index \<Rightarrow> int \<Rightarrow> string \<Rightarrow> string list \<Rightarrow> bool
   \<Rightarrow> 'r selector \<Rightarrow> string option \<times> 'r selector" where
  "pick_fresh ord rnd x now sticky_key exclude hit s =
     (case pick_by_strategy ord rnd x now exclude s of
        (None, s1) \<Rightarrow> (None, s1)
      | (Some i, s1) \<Rightarrow>
          if sticky_key \<noteq> [] then
            let s2 = s1\<lparr>sel_sticky := sticky_put now sticky_key i (sel_sticky s1)\<rparr> in
            (Some i, if hit then s2\<lparr>sel_reselects := sel_reselects s2 + 1\<rparr> else s2)
          else (Some i, s1))"

definition pick_excluding ::
  "(hot_meta list \<Rightarrow> hot_meta list) \<Rightarrow> 'r rand_source \<Rightarrow> index \<Rightarrow> int \<Rightarrow> int \<Rightarrow> string \<Rightarrow> string list
   \<Rightarrow> 'r selector \<Rightarrow> string option \<times> 'r selector" where
  "pick_excluding ord rnd x clock now0 sticky_key exclude s =
     (let now = now_or clock now0 in
      if sticky_key = [] then pick_fresh ord rnd x now sticky_key exclude False s
      else case get_pair now sticky_key (sel_sticky s) of
        (None, st) \<Rightarrow> pick_fresh ord rnd x now sticky_key exclude False (s\<lparr>sel_sticky := st\<rparr>)
      | (Some (p, sec), st) \<Rightarrow>
          let s1 = s\<lparr>sel_sticky := st\<rparr> in
          if usable x now exclude p
          then (Some p, s1\<lparr>sel_primary_hits := sel_primary_hits s1 + 1\<rparr>)
          else if usable x now exclude sec
          then (Some sec, s1\<lparr>sel_sticky := sticky_put now sticky_key sec st,
                 sel_secondary_hits := sel_secondary_hits s1 + 1\<rparr>)
          else pick_fresh ord rnd x now sticky_key exclude (p \<noteq> [] \<or> sec \<noteq> []) s1)"

definition sel_pick ::
  "(hot_meta list \<Rightarrow> hot_meta list) \<Rightarrow> 'r rand_source \<Rightarrow> index \<Rightarrow> int \<Rightarrow> int \<Rightarrow> string
   \<Rightarrow> 'r selector \<Rightarrow> string option \<times> 'r selector" where
  "sel_pick ord rnd x clock now sticky_key s = pick_excluding ord rnd x clock now sticky_key [] s"

section \<open>Sticky operations\<close>

definition bind_sticky :: "int \<Rightarrow> string \<Rightarrow> string \<Rightarrow> 'r selector \<Rightarrow> 'r selector" where
  "bind_sticky clock key account s = s\<lparr>sel_sticky := sticky_put clock key account (sel_sticky s)\<rparr>"

definition bind_sticky_secondary :: "int \<Rightarrow> string \<Rightarrow> string \<Rightarrow> 'r selector \<Rightarrow> 'r selector" where
  "bind_sticky_secondary clock key account s =
     s\<lparr>sel_sticky := put_secondary clock key account (sel_sticky s)\<rparr>"

definition sticky_pair :: "int \<Rightarrow> string \<Rightarrow> 'r selector \<Rightarrow> (string \<times> string) option \<times> 'r selector" where
  "sticky_pair clock key s =
     (let (r, st) = get_pair clock key (sel_sticky s) in (r, s\<lparr>sel_sticky := st\<rparr>))"

definition clear_sticky_key :: "string \<Rightarrow> 'r selector \<Rightarrow> 'r selector" where
  "clear_sticky_key key s = s\<lparr>sel_sticky := delete_key key (sel_sticky s)\<rparr>"

definition clear_sticky_account ::
  "(string list \<Rightarrow> string list) \<Rightarrow> string \<Rightarrow> 'r selector \<Rightarrow> 'r selector" where
  "clear_sticky_account ord account s = s\<lparr>sel_sticky := delete_account ord account (sel_sticky s)\<rparr>"

section \<open>The order of the candidates\<close>

definition tier_top :: "string list \<Rightarrow> hot_meta list \<Rightarrow> int \<Rightarrow> int" where
  "tier_top exclude ms b = fold max (map hm_priority (filter (\<lambda>m. hm_id m \<notin> set exclude) ms)) b"

lemma tier_top_simps [simp]:
  "tier_top exclude [] b = b"
  "tier_top exclude (m # ms) b =
     (if hm_id m \<in> set exclude then tier_top exclude ms b else tier_top exclude ms (max (hm_priority m) b))"
  by (simp_all add: tier_top_def)

lemma tier_top_ge: "b \<le> tier_top exclude ms b"
  by (induction ms arbitrary: b) (auto intro: order_trans [OF max.cobounded2])

lemma tier_loop_eq:
  "tier_loop exclude ms b cands =
   (if tier_top exclude ms b = b then cands else []) @
   filter (\<lambda>m. hm_id m \<notin> set exclude \<and> hm_priority m = tier_top exclude ms b) ms"
proof (induction ms arbitrary: b cands)
  case (Cons m ms)
  show ?case
  proof (cases "hm_id m \<in> set exclude \<or> hm_priority m < b")
    case True
    then have "tier_top exclude (m # ms) b = tier_top exclude ms b" by (auto simp: max_def)
    moreover have "hm_priority m \<noteq> tier_top exclude ms b" if "hm_id m \<notin> set exclude"
      using True that tier_top_ge [of b exclude ms] by auto
    ultimately show ?thesis using True Cons.IH [of b cands] by auto
  next
    case False
    then have top: "tier_top exclude (m # ms) b = tier_top exclude ms (hm_priority m)" by (auto simp: max_def)
    show ?thesis
    proof (cases "hm_priority m = b")
      case True
      then show ?thesis using False Cons.IH [of b "cands @ [m]"] top by auto
    next
      case ne: False
      have "tier_top exclude ms (hm_priority m) \<noteq> b"
        using False ne tier_top_ge [of "hm_priority m" exclude ms] by auto
      then show ?thesis using False ne Cons.IH [of "hm_priority m" "[m]"] top by auto
    qed
  qed
qed simp

lemma tier_top_mset: "mset ms = mset ms' \<Longrightarrow> tier_top exclude ms b = tier_top exclude ms' b"
proof -
  assume "mset ms = mset ms'"
  then have "mset (map hm_priority (filter (\<lambda>m. hm_id m \<notin> set exclude) ms)) =
      mset (map hm_priority (filter (\<lambda>m. hm_id m \<notin> set exclude) ms'))" by simp
  then show ?thesis
    unfolding tier_top_def
    by (intro fun_cong [OF fold_multiset_equiv]) (auto simp: fun_eq_iff max.left_commute)
qed

lemma sift_mset: "mset (sift m ps) = add_mset m (mset ps)"
  by (induction ps) auto

lemma sift_sorted: "sorted (map hm_id (rev ps)) \<Longrightarrow> sorted (map hm_id (rev (sift m ps)))"
proof (induction ps)
  case (Cons p ps)
  have s: "set (sift m ps) = insert m (set ps)" using sift_mset [of m ps] by (metis set_mset_add_mset_insert set_mset_mset)
  show ?case
  proof (cases "hm_id m < hm_id p")
    case True
    then show ?thesis using Cons s by (auto simp: sorted_append rev_map [symmetric])
  next
    case False
    then have "hm_id p \<le> hm_id m" by simp
    moreover have "\<forall>q \<in> set ps. hm_id q \<le> hm_id p" using Cons.prems by (auto simp: sorted_append rev_map [symmetric])
    ultimately show ?thesis using False Cons.prems
      by (auto simp: sorted_append rev_map [symmetric] intro: order_trans)
  qed
qed simp

lemma fold_sift: "mset (fold sift ms ps) = mset ms + mset ps \<and>
    (sorted (map hm_id (rev ps)) \<longrightarrow> sorted (map hm_id (rev (fold sift ms ps))))"
  by (induction ms arbitrary: ps) (auto simp: sift_mset sift_sorted)

lemma sort_by_id: "mset (sort_by_id ms) = mset ms" "sorted (map hm_id (sort_by_id ms))"
  using fold_sift [of ms "[]"] by (simp_all add: sort_by_id_def)

lemma sort_by_id_length [simp]: "length (sort_by_id ms) = length ms"
  using sort_by_id(1) by (metis size_mset)

lemma sort_by_id_set [simp]: "set (sort_by_id ms) = set ms"
  using sort_by_id(1) by (metis set_mset_mset)

lemma sort_by_id_distinct: "distinct (map hm_id (sort_by_id ms)) = distinct (map hm_id ms)"
  by (rule mset_eq_imp_distinct_iff) (simp only: mset_map sort_by_id(1))

text \<open>With distinct ids the result depends on the elements only.\<close>

lemma sort_by_id_unique:
  assumes "mset ms = mset ms'" "distinct (map hm_id ms)"
  shows "sort_by_id ms = sort_by_id ms'"
proof -
  have m: "mset (sort_by_id ms) = mset (sort_by_id ms')" using assms(1) by (simp add: sort_by_id(1))
  then have "mset (map hm_id (sort_by_id ms)) = mset (map hm_id (sort_by_id ms'))" by simp
  then have "map hm_id (sort_by_id ms) = map hm_id (sort_by_id ms')"
    using sort_by_id(2) [of ms] sort_by_id(2) [of ms'] by (metis properties_for_sort)
  moreover have "set ms = set ms'" using assms(1) by (rule mset_eq_setD)
  ultimately show ?thesis
    using assms(2) by (intro map_inj_on [of hm_id]) (simp_all add: distinct_map)
qed

section \<open>Round robin over the best tier\<close>

definition eligible_list :: "index \<Rightarrow> int \<Rightarrow> hot_meta list" where
  "eligible_list x now = filter (\<lambda>m. hi_eligible_meta x m now) (map snd (hi_hot x))"

definition stable_tier :: "index \<Rightarrow> int \<Rightarrow> string list \<Rightarrow> hot_meta list" where
  "stable_tier x now exclude =
     (let es = eligible_list x now in
      sort_by_id (filter (\<lambda>m. hm_id m \<notin> set exclude \<and> hm_priority m = tier_top exclude es rr_floor) es))"

lemma now_or_same [simp]: "now_or now now = now"
  by (simp add: now_or_def)

lemma hot_ids_distinct: "idx_core x \<Longrightarrow> distinct (map hm_id (map snd (hi_hot x)))"
proof -
  assume x: "idx_core x"
  have "map hm_id (map snd (hi_hot x)) = map fst (hi_hot x)"
    using idx_coreD(4) [OF x] idx_coreD(1) [OF x] by (force simp: gm_in_iff [symmetric])
  then show ?thesis using idx_coreD(1) [OF x] by (simp only: gm_wf_def)
qed

lemma stable_rr_pick_eq:
  assumes "idx_core x" "iteration_order ord"
  shows "stable_rr_pick ord x now exclude s =
    (let t = stable_tier x now exclude in
     if t = [] then (None, s)
     else (Some (hm_id (t ! (unat (sel_rr_cursor s) mod length t))),
           s\<lparr>sel_rr_cursor := sel_rr_cursor s + 1\<rparr>))"
proof -
  let ?all = "hot_eligible ord now now x" and ?es = "eligible_list x now"
  let ?P = "\<lambda>b m. hm_id m \<notin> set exclude \<and> hm_priority m = b"
  have m: "mset ?all = mset ?es"
    by (simp add: hot_eligible_def eligible_list_def iteration_order_mset [OF assms(2)])
  have top: "tier_top exclude ?all b = tier_top exclude ?es b" for b by (rule tier_top_mset [OF m])
  let ?b = "tier_top exclude ?es rr_floor"
  have cands: "tier_loop exclude ?all rr_floor [] = filter (?P ?b) ?all"
    by (simp only: tier_loop_eq top) simp
  have "distinct (map hm_id ?es)"
    using hot_ids_distinct [OF assms(1)] unfolding eligible_list_def by (rule distinct_map_filter)
  then have "distinct (map hm_id (filter (?P ?b) ?es))" by (rule distinct_map_filter)
  then have sorted: "sort_by_id (filter (?P ?b) ?es) = sort_by_id (filter (?P ?b) ?all)"
    using m by (intro sort_by_id_unique) (simp_all add: mset_filter)
  have tier: "stable_tier x now exclude = sort_by_id (filter (?P ?b) ?all)"
    using sorted by (simp only: stable_tier_def Let_def)
  then have empty: "filter (?P ?b) ?all = [] \<longleftrightarrow> stable_tier x now exclude = []"
    using sort_by_id_length by (metis length_0_conv)
  have len: "length (filter (?P ?b) ?all) = length (stable_tier x now exclude)" by (simp only: tier sort_by_id_length)
  show ?thesis
  proof (cases "stable_tier x now exclude = []")
    case True
    then show ?thesis by (simp only: stable_rr_pick_def cands Let_def empty) simp
  next
    case False
    then have "?all \<noteq> []" using empty by auto
    with False show ?thesis
      by (simp only: stable_rr_pick_def cands Let_def empty if_False) (simp only: tier sort_by_id_length)
  qed
qed

text \<open>A run of picks on an index that does not change.\<close>

fun rr_run ::
  "(nat \<Rightarrow> hot_meta list \<Rightarrow> hot_meta list) \<Rightarrow> index \<Rightarrow> int \<Rightarrow> string list \<Rightarrow> nat \<Rightarrow> 'r selector \<Rightarrow> string option list" where
  "rr_run ords x now exclude 0 s = []"
| "rr_run ords x now exclude (Suc n) s =
     (let (r, s') = stable_rr_pick (ords n) x now exclude s in r # rr_run ords x now exclude n s')"

lemma rr_run_eq:
  fixes now exclude
  assumes "idx_core x" "\<And>n. iteration_order (ords n)"
  defines "t \<equiv> stable_tier x now exclude"
  assumes "t \<noteq> []"
  shows "unat (sel_rr_cursor s) + n < 2 ^ 64 \<Longrightarrow> rr_run ords x now exclude n s =
    map (\<lambda>k. Some (hm_id (t ! ((unat (sel_rr_cursor s) + k) mod length t)))) [0..<n]"
proof (induction n arbitrary: s)
  case (Suc n)
  let ?c = "sel_rr_cursor s"
  have one: "unat (?c + 1) = unat ?c + 1"
    using Suc.prems by (subst unat_add_lem [THEN iffD1]) simp_all
  have "rr_run ords x now exclude n (s\<lparr>sel_rr_cursor := ?c + 1\<rparr>) =
      map (\<lambda>k. Some (hm_id (t ! ((unat ?c + 1 + k) mod length t)))) [0..<n]"
    using Suc.IH [of "s\<lparr>sel_rr_cursor := ?c + 1\<rparr>"] Suc.prems one by simp
  then show ?case
    using assms(4) stable_rr_pick_eq [OF assms(1,2), of n now exclude s]
    by (simp add: t_def [symmetric] Let_def upt_conv_Cons map_Suc_upt [symmetric] comp_def
        del: upt_Suc)
qed simp

lemma map_rotation: "xs \<noteq> [] \<Longrightarrow> map (\<lambda>k. xs ! ((c + k) mod length xs)) [0..<length xs] = rotate c xs"
  by (rule nth_equalityI) (simp_all add: nth_rotate)

section \<open>A pick is safe and live\<close>

lemma usable_iff:
  assumes "idx_core x"
  shows "usable x now exclude i \<longleftrightarrow> (\<exists>m \<in> set (eligible_list x now). hm_id m = i \<and> i \<notin> set exclude)"
proof -
  have el: "m \<in> set (eligible_list x now) \<and> hm_id m = i \<longleftrightarrow>
      map_of (hi_hot x) i = Some m \<and> hi_eligible_meta x m now" for m
  proof
    assume "m \<in> set (eligible_list x now) \<and> hm_id m = i"
    then obtain j where "(j, m) \<in> set (hi_hot x)" "hi_eligible_meta x m now" "hm_id m = i"
      by (auto simp: eligible_list_def)
    then show "map_of (hi_hot x) i = Some m \<and> hi_eligible_meta x m now"
      using idx_coreD(1,4) [OF assms] by (metis gm_in_iff)
  next
    assume m: "map_of (hi_hot x) i = Some m \<and> hi_eligible_meta x m now"
    then have "(i, m) \<in> set (hi_hot x)" using idx_coreD(1) [OF assms] by (simp add: gm_in_iff)
    then show "m \<in> set (eligible_list x now) \<and> hm_id m = i"
      using m idx_coreD(4) [OF assms] by (force simp: eligible_list_def)
  qed
  show ?thesis
  proof (cases "map_of (hi_hot x) i")
    case None
    then have "\<not> usable x now exclude i" by (simp add: usable_def hot_get_def)
    then show ?thesis using None el by (metis option.distinct(1))
  next
    case (Some m)
    then have "i \<noteq> []" using idx_coreD(4) [OF assms] by blast
    with Some have "usable x now exclude i \<longleftrightarrow> i \<notin> set exclude \<and> hi_eligible_meta x m now"
      by (simp add: usable_def hot_get_def)
    then show ?thesis using Some el by (metis option.inject)
  qed
qed

lemma tier_top_attained:
  "tier_top exclude ms b = b \<or> (\<exists>m \<in> set ms. hm_id m \<notin> set exclude \<and> hm_priority m = tier_top exclude ms b)"
proof (induction ms arbitrary: b)
  case (Cons a ms)
  have "tier_top exclude ms (max (hm_priority a) b) = b \<or>
      tier_top exclude ms (max (hm_priority a) b) = hm_priority a \<or>
      (\<exists>m \<in> set ms. hm_id m \<notin> set exclude \<and> hm_priority m = tier_top exclude ms (max (hm_priority a) b))"
    using Cons.IH [of "max (hm_priority a) b"] by (auto simp: max_def split: if_splits)
  then show ?case using Cons.IH [of b] by (cases "hm_id a \<in> set exclude") auto
qed simp

lemma tier_top_upper:
  "m \<in> set ms \<Longrightarrow> hm_id m \<notin> set exclude \<Longrightarrow> hm_priority m \<le> tier_top exclude ms b"
proof (induction ms arbitrary: b)
  case (Cons a ms)
  then show ?case using tier_top_ge [of "max (hm_priority a) b" exclude ms] by auto
qed simp

lemma stable_tier_set:
  "m \<in> set (stable_tier x now exclude) \<longleftrightarrow> m \<in> set (eligible_list x now) \<and> hm_id m \<notin> set exclude \<and>
     hm_priority m = tier_top exclude (eligible_list x now) rr_floor"
  by (auto simp: stable_tier_def Let_def)

lemma stable_tier_empty:
  "stable_tier x now exclude = [] \<longleftrightarrow>
   (\<forall>m \<in> set (eligible_list x now). hm_id m \<notin> set exclude \<longrightarrow> hm_priority m < rr_floor)"
proof
  assume e: "stable_tier x now exclude = []"
  let ?t = "tier_top exclude (eligible_list x now) rr_floor"
  have none: "\<not> (m \<in> set (eligible_list x now) \<and> hm_id m \<notin> set exclude \<and> hm_priority m = ?t)" for m
    using e stable_tier_set [of m x now exclude] by auto
  then have "?t = rr_floor" using tier_top_attained [of exclude "eligible_list x now" "rr_floor"] by blast
  with none tier_top_upper show "\<forall>m \<in> set (eligible_list x now). hm_id m \<notin> set exclude \<longrightarrow>
      hm_priority m < rr_floor"
    by (metis order_le_imp_less_or_eq)
next
  assume "\<forall>m \<in> set (eligible_list x now). hm_id m \<notin> set exclude \<longrightarrow> hm_priority m < rr_floor"
  then have "m \<notin> set (stable_tier x now exclude)" for m
    using tier_top_ge [of "rr_floor" exclude "eligible_list x now"] by (auto simp: stable_tier_set)
  then show "stable_tier x now exclude = []" by (metis last_in_set)
qed

lemma score_loop_in:
  "fst (score_loop rnd c ms best r) = Some (i, sc) \<Longrightarrow>
   (\<exists>m \<in> set ms. hm_id m = i) \<or> best = Some (i, sc)"
proof (induction ms arbitrary: best r)
  case (Cons m ms)
  obtain j r' where j: "sample_jitter rnd (sc_jitter_amp c) r = (j, r')" by fastforce
  let ?sc = "score_with c m j"
  obtain best' where b: "fst (score_loop rnd c ms best' r') = Some (i, sc)"
    "best' = best \<or> best' = Some (hm_id m, ?sc)"
    using Cons.prems j by (auto simp: Let_def split: option.splits prod.splits if_splits)
  from Cons.IH [OF b(1)] b(2) show ?case by auto
qed simp

lemma score_loop_some: "ms \<noteq> [] \<or> best \<noteq> None \<Longrightarrow> fst (score_loop rnd c ms best r) \<noteq> None"
proof (induction ms arbitrary: best r)
  case (Cons m ms)
  obtain j r' where "sample_jitter rnd (sc_jitter_amp c) r = (j, r')" by fastforce
  then show ?case
    using Cons.IH [of "Some (hm_id m, score_with c m j)" r'] Cons.IH [of best r']
    by (auto simp: Let_def split: option.split prod.split)
qed simp

lemma sample_usable:
  assumes "intn_ok (rs_intn rnd)" "idx_core x" "0 < k"
    "m \<in> set (fst (sample_eligible now now k exclude (rs_intn rnd) x r))"
  shows "usable x now exclude (hm_id m)"
proof -
  have "m \<in> eligible_entries x now exclude"
    using sample_spec(2) [OF assms(1-3), of now now exclude r] assms(4) by auto
  then obtain i where "i \<notin> set exclude" "map_of (hi_hot x) i = Some m" "hi_eligible_meta x m now"
    by (auto simp: eligible_entries_def)
  with idx_coreD(4) [OF assms(2), of i m] show ?thesis by (auto simp: usable_def hot_get_def)
qed

lemma stable_rr_usable:
  assumes "idx_core x" "iteration_order ord" "fst (stable_rr_pick ord x now exclude s) = Some i"
  shows "usable x now exclude i"
proof -
  let ?t = "stable_tier x now exclude"
  have ne: "?t \<noteq> []" and i: "i = hm_id (?t ! (unat (sel_rr_cursor s) mod length ?t))"
    using assms(3) unfolding stable_rr_pick_eq [OF assms(1,2)] Let_def by (auto split: if_splits)
  then have "?t ! (unat (sel_rr_cursor s) mod length ?t) \<in> set ?t" by (intro nth_mem) simp
  then show ?thesis using i usable_iff [OF assms(1)] stable_tier_set by metis
qed

lemma pow2_usable:
  assumes "intn_ok (rs_intn rnd)" "idx_core x" "fst (pow2_pick rnd x now exclude s) = Some i"
  shows "usable x now exclude i"
proof -
  let ?k = "if sc_pow2_k (sel_cfg s) \<le> 0 then 1 else sc_pow2_k (sel_cfg s)"
  obtain ms r1 where ms: "sample_eligible now now ?k exclude (rs_intn rnd) x (sel_rng s) = (ms, r1)" by fastforce
  obtain best r2 where best: "score_loop rnd (sel_cfg s) ms None r1 = (best, r2)" by fastforce
  obtain sc where sc: "best = Some (i, sc)"
    using assms(3) ms best by (auto simp: pow2_pick_def Let_def split: if_splits option.splits prod.splits)
  then obtain m where "m \<in> set ms" "hm_id m = i" using best score_loop_in [of rnd "sel_cfg s" ms None r1 i sc] by auto
  moreover have "0 < ?k" by simp
  ultimately show ?thesis using sample_usable [OF assms(1,2)] ms by (metis fst_conv)
qed

lemma pick_by_strategy_usable:
  "intn_ok (rs_intn rnd) \<Longrightarrow> idx_core x \<Longrightarrow> iteration_order ord \<Longrightarrow>
   fst (pick_by_strategy ord rnd x now exclude s) = Some i \<Longrightarrow> usable x now exclude i"
  using stable_rr_usable pow2_usable by (simp only: pick_by_strategy_def split: if_splits)

lemma pick_by_strategy_live:
  assumes "intn_ok (rs_intn rnd)" "idx_core x" "iteration_order ord"
    "usable x now exclude i" "\<And>m. map_of (hi_hot x) i = Some m \<Longrightarrow> rr_floor \<le> hm_priority m"
  shows "fst (pick_by_strategy ord rnd x now exclude s) \<noteq> None"
proof -
  obtain m where m5: "map_of (hi_hot x) i = Some m" and m6: "hi_eligible_meta x m now"
    and i: "i \<noteq> []" "i \<notin> set exclude"
    using assms(4) by (auto simp: usable_def hot_get_def split: option.splits)
  have "(i, m) \<in> set (hi_hot x)" using m5 idx_coreD(1) [OF assms(2)] by (simp add: gm_in_iff)
  then have "m \<in> set (eligible_list x now)" using m6 by (force simp: eligible_list_def)
  with m5 m6 i idx_coreD(4) [OF assms(2) m5]
  have m: "m \<in> set (eligible_list x now)" "hm_id m = i" "i \<notin> set exclude" "i \<noteq> []"
    "map_of (hi_hot x) i = Some m" "hi_eligible_meta x m now" by simp_all
  show ?thesis
  proof (cases "sc_strategy (sel_cfg s) \<in> {StrategyStableRR, ''round_robin'', ''rr''}")
    case True
    have "stable_tier x now exclude \<noteq> []"
      using m assms(5) [OF m(5)] stable_tier_empty [of x now exclude] by force
    then show ?thesis
      using True by (simp only: pick_by_strategy_def if_True stable_rr_pick_eq [OF assms(2,3)] Let_def if_False) simp
  next
    case False
    let ?k = "if sc_pow2_k (sel_cfg s) \<le> 0 then 1 else sc_pow2_k (sel_cfg s)"
    obtain ms r1 where ms: "sample_eligible now now ?k exclude (rs_intn rnd) x (sel_rng s) = (ms, r1)" by fastforce
    have k: "0 < ?k" by simp
    have "m \<in> eligible_entries x now exclude" using m by (auto simp: eligible_entries_def)
    then have "0 < card (hm_id ` eligible_entries x now exclude)"
      using entry_ids [OF assms(2), of now exclude] by (metis card_gt_0_iff empty_iff finite_candidates image_eqI)
    then have "ms \<noteq> []" using sample_spec(3) [OF assms(1,2) k, of now now exclude "sel_rng s"] ms k by auto
    then obtain b sc r2 where best: "score_loop rnd (sel_cfg s) ms None r1 = (Some (b, sc), r2)"
      using score_loop_some [of ms None rnd "sel_cfg s" r1]
      by (cases "score_loop rnd (sel_cfg s) ms None r1") auto
    then have "\<exists>n \<in> set ms. hm_id n = b" using score_loop_in [of rnd "sel_cfg s" ms None r1 b sc] by auto
    then have "usable x now exclude b" using sample_usable [OF assms(1,2) k] ms by (metis fst_conv)
    then have "b \<noteq> []" by (simp add: usable_def)
    then show ?thesis
      using False ms best \<open>ms \<noteq> []\<close> unfolding pick_by_strategy_def
      by (simp only: if_False) (simp add: pow2_pick_def Let_def)
  qed
qed

lemma pick_fresh_fst:
  "fst (pick_fresh ord rnd x now key exclude hit s) = fst (pick_by_strategy ord rnd x now exclude s)"
  by (auto simp: pick_fresh_def Let_def split: prod.splits option.splits)

lemma pick_excluding_cases:
  assumes "pick_excluding ord rnd x clock now key exclude s = (r, s')"
  shows "(\<exists>i. r = Some i \<and> usable x (now_or clock now) exclude i) \<or>
    (\<exists>s1. r = fst (pick_by_strategy ord rnd x (now_or clock now) exclude s1) \<and> sel_cfg s1 = sel_cfg s)"
proof -
  let ?now = "now_or clock now"
  have fresh: "\<exists>s2. fst (pick_fresh ord rnd x ?now key exclude hit s1) =
      fst (pick_by_strategy ord rnd x ?now exclude s2) \<and> sel_cfg s2 = sel_cfg s"
    if "sel_cfg s1 = sel_cfg s" for hit s1
    using that pick_fresh_fst by metis
  have r: "r = fst (pick_excluding ord rnd x clock now key exclude s)" using assms by simp
  show ?thesis
  proof (cases "key = []")
    case True
    then show ?thesis using fresh [of s False] r by (simp add: pick_excluding_def Let_def)
  next
    case False
    obtain g st where g: "get_pair ?now key (sel_sticky s) = (g, st)" by fastforce
    show ?thesis
    proof (cases g)
      case None
      then show ?thesis
        using False g r fresh [of "s\<lparr>sel_sticky := st\<rparr>" False] by (simp add: pick_excluding_def Let_def)
    next
      case (Some ps)
      obtain p sec where ps: "ps = (p, sec)" by fastforce
      consider "usable x ?now exclude p" | "\<not> usable x ?now exclude p" "usable x ?now exclude sec"
        | "\<not> usable x ?now exclude p" "\<not> usable x ?now exclude sec" by blast
      then show ?thesis
      proof cases
        case 3
        then show ?thesis
          using False g r Some ps fresh [of "s\<lparr>sel_sticky := st\<rparr>" "p \<noteq> [] \<or> sec \<noteq> []"]
          by (simp add: pick_excluding_def Let_def)
      qed (use False g r Some ps in \<open>simp_all add: pick_excluding_def Let_def\<close>)
    qed
  qed
qed

section \<open>Properties\<close>

definition sample_rand :: "nat rand_source" where
  "sample_rand = \<lparr>rs_intn = (\<lambda>r n. (r mod n, Suc r)), rs_float64 = (\<lambda>r. (1 / 2, Suc r))\<rparr>"

definition sample_selector :: "nat selector" where
  "sample_selector = \<lparr>sel_cfg = sel_default_config, sel_sticky = sticky_put 10 ''k'' ''b'' (new_sticky_lru 5 60),
     sel_rng = 0, sel_rr_cursor = 0, sel_primary_hits = 0, sel_secondary_hits = 0, sel_reselects = 0\<rparr>"

definition tier_index :: index where
  "tier_index = snd (load_metas (\<lambda>xs. xs)
     [sample_meta ''a'' 1, sample_meta ''c'' 2, sample_meta ''b'' 2] (hot_new 3 4))"

lemma tier_index_ok: "idx_ok tier_index"
  unfolding tier_index_def by (intro load_metas_ok hot_new_ok iteration_order_id)

lemma sample_rand_ok: "intn_ok (rs_intn sample_rand)"
  by (simp add: sample_rand_def intn_ok_def)

text \<open>
  C32. A pick is safe and live under every strategy, binding, exclusion and random source:
  an account it returns is in the hot set, eligible at that time, within its in-flight cap
  and not excluded; and it returns none only when there is no such account. Liveness needs
  the priorities to be at least -2^30, where the search of \<open>stable_rr\<close> starts.
\<close>

theorem pick_safe_and_live:
  assumes "intn_ok (rs_intn rnd)" "idx_ok x" "iteration_order ord"
  shows "case fst (pick_excluding ord rnd x clock now key exclude s) of
      Some i \<Rightarrow> usable x (now_or clock now) exclude i
    | None \<Rightarrow> \<not> (\<exists>i m. usable x (now_or clock now) exclude i \<and> map_of (hi_hot x) i = Some m \<and>
        rr_floor \<le> hm_priority m)"
proof -
  obtain r s' where r: "pick_excluding ord rnd x clock now key exclude s = (r, s')" by fastforce
  note core = idx_okD [OF assms(2)]
  from pick_excluding_cases [OF r] show ?thesis
  proof
    assume "\<exists>i. r = Some i \<and> usable x (now_or clock now) exclude i"
    then show ?thesis using r by auto
  next
    assume "\<exists>s1. r = fst (pick_by_strategy ord rnd x (now_or clock now) exclude s1) \<and> sel_cfg s1 = sel_cfg s"
    then obtain s1 where s1: "r = fst (pick_by_strategy ord rnd x (now_or clock now) exclude s1)" by blast
    show ?thesis
    proof (cases r)
      case (Some i)
      then show ?thesis using r s1 pick_by_strategy_usable [OF assms(1) core assms(3)] by simp
    next
      case None
      have False if "usable x (now_or clock now) exclude i" "map_of (hi_hot x) i = Some m" "rr_floor \<le> hm_priority m"
        for i m
      proof -
        have "fst (pick_by_strategy ord rnd x (now_or clock now) exclude s1) \<noteq> None"
          using that(2,3) by (intro pick_by_strategy_live [OF assms(1) core assms(3) that(1)]) simp
        with None s1 show False by simp
      qed
      with None r show ?thesis by auto
    qed
  qed
qed

theorem pick_safe_and_live_witness:
  "case fst (pick_excluding rev sample_rand tier_index 0 20 ''k'' [''b''] sample_selector) of
     Some i \<Rightarrow> usable tier_index 20 [''b''] i | None \<Rightarrow> False"
proof -
  have "fst (pick_excluding rev sample_rand tier_index 0 20 ''k'' [''b''] sample_selector) = Some ''c''"
    by code_simp
  with pick_safe_and_live [OF sample_rand_ok tier_index_ok iteration_order_rev, where clock = 0
      and now = 20 and key = "''k''" and exclude = "[''b'']" and s = sample_selector]
  show ?thesis by (simp add: now_or_def)
qed

text \<open>
  \<open>stable_rr\<close> is a function of the hot set and the cursor alone, not of the order the Go
  map is walked in: it returns the entry at \<open>cursor mod n\<close> of the \<open>n\<close> eligible accounts of
  the highest priority sorted by id, all of which are at least as preferred as any other
  candidate, and advances the cursor by one.
\<close>

theorem stable_rr_deterministic:
  assumes "idx_ok x" "iteration_order ord"
  shows "(let t = stable_tier x now exclude in
      stable_rr_pick ord x now exclude s =
        (if t = [] then (None, s)
         else (Some (hm_id (t ! (unat (sel_rr_cursor s) mod length t))),
               s\<lparr>sel_rr_cursor := sel_rr_cursor s + 1\<rparr>)) \<and>
      sorted (map hm_id t) \<and>
      (\<forall>m n. m \<in> set t \<and> usable x now exclude (hm_id n) \<and> map_of (hi_hot x) (hm_id n) = Some n
        \<longrightarrow> hm_priority n \<le> hm_priority m))"
proof -
  have core: "idx_core x" using assms(1) by (rule idx_okD)
  have "hm_priority n \<le> hm_priority m" if "m \<in> set (stable_tier x now exclude)"
    "usable x now exclude (hm_id n)" "map_of (hi_hot x) (hm_id n) = Some n" for m n
  proof -
    have "(hm_id n, n) \<in> set (hi_hot x)" "hi_eligible_meta x n now" "hm_id n \<notin> set exclude"
      using that(2,3) idx_coreD(1) [OF core] by (simp_all add: usable_def hot_get_def gm_in_iff)
    then have "n \<in> set (eligible_list x now)" by (force simp: eligible_list_def)
    then show ?thesis
      using that(1) tier_top_upper [of n "eligible_list x now" exclude rr_floor] \<open>hm_id n \<notin> set exclude\<close>
      by (simp add: stable_tier_set)
  qed
  moreover have "sorted (map hm_id (stable_tier x now exclude))"
    by (simp only: stable_tier_def Let_def sort_by_id(2))
  ultimately show ?thesis
    using stable_rr_pick_eq [OF core assms(2), of now exclude s] by (simp only: Let_def) blast
qed

theorem stable_rr_deterministic_witness:
  "fst (stable_rr_pick rev tier_index 20 [] sample_selector) = Some ''b'' \<and>
   fst (stable_rr_pick (\<lambda>ms. ms) tier_index 20 [] sample_selector) = Some ''b''"
proof -
  have t: "map hm_id (stable_tier tier_index 20 []) = [''b'', ''c'']" by code_simp
  have c: "sel_rr_cursor sample_selector = 0" by (simp add: sample_selector_def)
  have ne: "stable_tier tier_index 20 [] \<noteq> []" using t by auto
  then have "hm_id (stable_tier tier_index 20 [] ! 0) = ''b''" using t by (metis length_greater_0_conv nth_Cons_0 nth_map)
  with stable_rr_deterministic [OF tier_index_ok iteration_order_rev, of 20 "[]" sample_selector]
    stable_rr_deterministic [OF tier_index_ok iteration_order_id, of 20 "[]" sample_selector] ne c
  show ?thesis by (simp add: Let_def)
qed

text \<open>
  Round robin is fair: while the hot set does not change (and the 64-bit cursor does not
  wrap), any \<open>n\<close> consecutive picks over a best tier of \<open>n\<close> accounts return each of them
  exactly once, whatever the cursor was.
\<close>

theorem round_robin_fair:
  assumes "idx_ok x" "\<And>n. iteration_order (ords n)" "stable_tier x now exclude \<noteq> []"
    "unat (sel_rr_cursor s) + length (stable_tier x now exclude) < 2 ^ 64"
  shows "mset (rr_run ords x now exclude (length (stable_tier x now exclude)) s) =
      mset (map (\<lambda>m. Some (hm_id m)) (stable_tier x now exclude)) \<and>
    distinct (map hm_id (stable_tier x now exclude))"
proof -
  let ?t = "stable_tier x now exclude"
  have core: "idx_core x" using assms(1) by (rule idx_okD)
  have "rr_run ords x now exclude (length ?t) s =
      map (\<lambda>k. Some (hm_id (?t ! ((unat (sel_rr_cursor s) + k) mod length ?t)))) [0..<length ?t]"
    by (rule rr_run_eq [OF core assms(2-4)])
  also have "\<dots> = map (\<lambda>m. Some (hm_id m)) (map (\<lambda>k. ?t ! ((unat (sel_rr_cursor s) + k) mod length ?t)) [0..<length ?t])"
    by simp
  also have "\<dots> = map (\<lambda>m. Some (hm_id m)) (rotate (unat (sel_rr_cursor s)) ?t)"
    by (simp only: map_rotation [OF assms(3)])
  finally have run: "rr_run ords x now exclude (length ?t) s =
      map (\<lambda>m. Some (hm_id m)) (rotate (unat (sel_rr_cursor s)) ?t)" .
  have rot: "mset (rotate n xs) = mset xs" for n and xs :: "hot_meta list"
    by (metis add.commute append_take_drop_id mset_append rotate_drop_take)
  have "distinct (map hm_id (eligible_list x now))"
    using hot_ids_distinct [OF core] unfolding eligible_list_def by (rule distinct_map_filter)
  then have "distinct (map hm_id (filter P (eligible_list x now)))" for P by (rule distinct_map_filter)
  then have "distinct (map hm_id ?t)"
    unfolding stable_tier_def Let_def by (simp only: sort_by_id_distinct)
  moreover have "mset (rr_run ords x now exclude (length ?t) s) = mset (map (\<lambda>m. Some (hm_id m)) ?t)"
    by (simp only: run mset_map rot)
  ultimately show ?thesis by (rule conjI [rotated])
qed

theorem round_robin_fair_witness:
  "mset (rr_run (\<lambda>_. rev) tier_index 20 [] 2 sample_selector) = {#Some ''b'', Some ''c''#}"
proof -
  have t: "map hm_id (stable_tier tier_index 20 []) = [''b'', ''c'']" by code_simp
  have c: "sel_rr_cursor sample_selector = 0" by (simp add: sample_selector_def)
  have l: "length (stable_tier tier_index 20 []) = 2" using arg_cong [OF t, of length] by simp
  then have ne: "stable_tier tier_index 20 [] \<noteq> []" by auto
  have m: "map (\<lambda>m. Some (hm_id m)) (stable_tier tier_index 20 []) = map Some (map hm_id (stable_tier tier_index 20 []))"
    by simp
  have "mset (rr_run (\<lambda>_. rev) tier_index 20 [] (length (stable_tier tier_index 20 [])) sample_selector) =
      mset (map (\<lambda>m. Some (hm_id m)) (stable_tier tier_index 20 []))"
    using round_robin_fair [OF tier_index_ok _ ne, of "\<lambda>_. rev" sample_selector] by (simp add: c l)
  then show ?thesis by (simp only: l m t) simp
qed



end
