(* ===== verification/Lease.thy ===== *)
theory Lease
  imports Selector
begin

text \<open>
  The lease manager (\<open>internal/lease\<close>): it ties the catalog (secrets and health), the hot
  index (in-flight counts, cooldowns) and the selector together. Acquiring picks an account,
  reads its token and counts it in flight; releasing counts it out and records the outcome:
  health counters, cooldowns with backoff and jitter, quarantine, sticky bindings.

  The state of a process is the record \<open>lease_world\<close>; the state of the proxy pool behind the
  injected assigner is its component of type \<open>'p\<close>. The random sources, the iteration orders
  of the Go maps and the injected functions are the record \<open>lease_env\<close>. The clock is read once
  per attempt. \<open>Duration.Seconds\<close> is taken as the exact quotient.
\<close>

section \<open>Configuration\<close>

record lease_config =
  lc_max_attempts :: int
  lc_cooldown_base_sec :: int
  lc_cooldown_cap_sec :: int
  lc_unauthorized_cooldown_sec :: int
  lc_payment_required_cooldown_sec :: int
  lc_unauthorized_quarantine_after :: int
  lc_forbidden_cooldown_sec :: int
  lc_forbidden_quarantine_after :: int
  lc_quarantine_on_payment_required :: bool
  lc_clear_sticky_on_429 :: bool
  lc_clear_sticky_on_5xx :: bool
  lc_cooldown_jitter_pct :: int
  lc_cooldown_exp_max :: int

definition lease_default_config :: lease_config where
  "lease_default_config =
     \<lparr>lc_max_attempts = 2, lc_cooldown_base_sec = 30, lc_cooldown_cap_sec = 300,
      lc_unauthorized_cooldown_sec = 60, lc_payment_required_cooldown_sec = 180,
      lc_unauthorized_quarantine_after = 5, lc_forbidden_cooldown_sec = 300,
      lc_forbidden_quarantine_after = 0, lc_quarantine_on_payment_required = False,
      lc_clear_sticky_on_429 = False, lc_clear_sticky_on_5xx = False,
      lc_cooldown_jitter_pct = 20, lc_cooldown_exp_max = 3\<rparr>"

definition lease_normalize :: "lease_config \<Rightarrow> lease_config" where
  "lease_normalize c =
     (let d = lease_default_config; pos = (\<lambda>f. if f c \<le> 0 then f d else f c);
          j = (if lc_cooldown_jitter_pct c < 0 then lc_cooldown_jitter_pct d else lc_cooldown_jitter_pct c) in
      c\<lparr>lc_max_attempts := pos lc_max_attempts,
        lc_cooldown_base_sec := pos lc_cooldown_base_sec,
        lc_cooldown_cap_sec := pos lc_cooldown_cap_sec,
        lc_unauthorized_cooldown_sec := pos lc_unauthorized_cooldown_sec,
        lc_payment_required_cooldown_sec := pos lc_payment_required_cooldown_sec,
        lc_unauthorized_quarantine_after := pos lc_unauthorized_quarantine_after,
        lc_forbidden_cooldown_sec := pos lc_forbidden_cooldown_sec,
        lc_forbidden_quarantine_after :=
          (if lc_forbidden_quarantine_after c < 0 then 0 else lc_forbidden_quarantine_after c),
        lc_cooldown_jitter_pct := (if j > 100 then 100 else j),
        lc_cooldown_exp_max := pos lc_cooldown_exp_max\<rparr>)"

text \<open>The clamps of \<open>ApplyConfig\<close>, the path of the admin console.\<close>

definition lease_clamp :: "lease_config \<Rightarrow> lease_config" where
  "lease_clamp c =
     c\<lparr>lc_max_attempts := (if lc_max_attempts c < 1 then 1 else lc_max_attempts c),
       lc_cooldown_cap_sec :=
         (if lc_cooldown_cap_sec c > 0 \<and> lc_cooldown_base_sec c > 0 \<and>
             lc_cooldown_cap_sec c < lc_cooldown_base_sec c
          then lc_cooldown_base_sec c else lc_cooldown_cap_sec c),
       lc_cooldown_jitter_pct :=
         (if lc_cooldown_jitter_pct c < 0 then 0
          else if lc_cooldown_jitter_pct c > 100 then 100 else lc_cooldown_jitter_pct c),
       lc_forbidden_quarantine_after :=
         (if lc_forbidden_quarantine_after c < 0 then 0 else lc_forbidden_quarantine_after c)\<rparr>"

section \<open>State\<close>

datatype lease_error =
  LeaseNoAccount | LeaseInvalidInput | LeaseClosed | LeaseCtx | LeaseCatalog cat_error
  | LeaseNotUsable | LeaseModelCooling | LeaseRequiresProxy | LeaseInflight hot_error | LeasePanic

record lease =
  ls_account_id :: string
  ls_revision :: int
  ls_access_token :: string
  ls_proxy_url :: string
  ls_proxy_mode :: string
  ls_sticky_key :: string
  ls_model :: string
  ls_attempt :: nat

record lease_result =
  lr_status_code :: int
  lr_retry_after :: int
  lr_success :: bool

type_synonym model_cool = "(string, (string, int) gomap) gomap"

record ('r, 'p) lease_world =
  lw_cat :: catalog
  lw_idx :: index
  lw_sel :: "'r selector"
  lw_cfg :: lease_config
  lw_model_cool :: model_cool
  lw_require_proxy :: bool
  lw_pool :: 'p

record ('r, 'p) lease_env =
  le_rand :: "'r rand_source"
  le_metas :: "hot_meta list \<Rightarrow> hot_meta list"
  le_entries :: "(string \<times> hot_meta) list \<Rightarrow> (string \<times> hot_meta) list"
  le_keys :: "string list \<Rightarrow> string list"
  le_assign :: "('p \<Rightarrow> string \<Rightarrow> (string \<times> string) option \<times> 'p) option"
  le_report :: "('p \<Rightarrow> string \<Rightarrow> string \<Rightarrow> 'p) option"
  le_int63n :: "int \<Rightarrow> int \<Rightarrow> int"

definition lease_new ::
  "catalog \<Rightarrow> index \<Rightarrow> 'r selector \<Rightarrow> lease_config \<Rightarrow> int \<Rightarrow> 'p \<Rightarrow> ('r, 'p) lease_world" where
  "lease_new cat idx sel cfg now pool =
     \<lparr>lw_cat = cat, lw_idx = idx, lw_sel = sel, lw_cfg = lease_normalize cfg,
      lw_model_cool =
        (case load_active_model_cooldowns cat now now of Inl e \<Rightarrow> [] | Inr m \<Rightarrow> m),
      lw_require_proxy = False, lw_pool = pool\<rparr>"

definition lease_apply_config :: "lease_config \<Rightarrow> ('r, 'p) lease_world \<Rightarrow> ('r, 'p) lease_world" where
  "lease_apply_config c w = w\<lparr>lw_cfg := lease_clamp c\<rparr>"

section \<open>Model cooldowns\<close>

definition set_model_cooldown_err ::
  "int \<Rightarrow> string \<Rightarrow> string \<Rightarrow> int \<Rightarrow> string \<Rightarrow> ('r, 'p) lease_world \<Rightarrow> ('r, 'p) lease_world" where
  "set_model_cooldown_err now account model until last_err w =
     (if account = [] \<or> model = [] \<or> until \<le> 0 then w
      else w\<lparr>lw_model_cool := gm_put account
               (gm_put model until (gm_default [] (lw_model_cool w) account)) (lw_model_cool w),
             lw_cat := snd (upsert_model_cooldown (lw_cat w) now account model until last_err)\<rparr>)"

definition model_cooldown_active ::
  "string \<Rightarrow> string \<Rightarrow> int \<Rightarrow> ('r, 'p) lease_world \<Rightarrow> bool \<times> ('r, 'p) lease_world" where
  "model_cooldown_active account model now w =
     (if account = [] \<or> model = [] then (False, w)
      else case gm_get (lw_model_cool w) account of
        None \<Rightarrow> (False, w)
      | Some mm \<Rightarrow>
          if gm_default 0 mm model \<le> now then
            let mm' = gm_del model mm in
            (False, w\<lparr>lw_model_cool :=
               (if mm' = [] then gm_del account (lw_model_cool w)
                else gm_put account mm' (lw_model_cool w))\<rparr>)
          else (True, w))"

definition model_cooldown_until :: "string \<Rightarrow> string \<Rightarrow> ('r, 'p) lease_world \<Rightarrow> int" where
  "model_cooldown_until account model w =
     gm_default 0 (gm_default [] (lw_model_cool w) account) model"

section \<open>Acquire\<close>

definition account_usable :: "account \<Rightarrow> int \<Rightarrow> bool" where
  "account_usable a now =
     (if \<not> acc_enabled a \<or> acc_manual_disabled a then False
      else if acc_lifecycle a \<noteq> [] \<and> acc_lifecycle a \<noteq> LifecycleActive then False
      else if acc_cooldown_until a > now then False
      else if acc_access_token a = [] then False
      else True)"

definition promote_hot :: "('r, 'p) lease_env \<Rightarrow> hot_meta \<Rightarrow> ('r, 'p) lease_world \<Rightarrow> ('r, 'p) lease_world" where
  "promote_hot env m w = w\<lparr>lw_idx := snd (promote (le_entries env) m (lw_idx w))\<rparr>"

text \<open>
  The exit of an account: its own proxy, else one from the pool, which is then bound to the
  account in the catalog and in the hot set.
\<close>

definition resolve_proxy ::
  "('r, 'p) lease_env \<Rightarrow> int \<Rightarrow> account \<Rightarrow> ('r, 'p) lease_world
   \<Rightarrow> (string \<times> string) \<times> ('r, 'p) lease_world" where
  "resolve_proxy env now a w =
     (let url = trim_space (acc_proxy_url a); mode = trim_space (acc_proxy_mode a); i = acc_id a in
      if url \<noteq> [] then ((url, mode), w)
      else case le_assign env of
        None \<Rightarrow> ((url, mode), w)
      | Some assign \<Rightarrow>
          (case assign (lw_pool w) i of
             (None, p') \<Rightarrow> ((url, mode), w\<lparr>lw_pool := p'\<rparr>)
           | (Some (u, md), p') \<Rightarrow>
               let w1 = w\<lparr>lw_pool := p'\<rparr> in
               if trim_space u = [] then ((url, mode), w1)
               else let url = trim_space u; mode = trim_space md;
                        (r, cat') = set_proxy (lw_cat w1) now i url mode;
                        w2 = w1\<lparr>lw_cat := cat'\<rparr> in
                 (case r of
                    Inl e \<Rightarrow> ((url, mode), w2)
                  | Inr u \<Rightarrow>
                      (case hot_get i (lw_idx w2) of
                         None \<Rightarrow> ((url, mode), w2)
                       | Some m \<Rightarrow> ((url, mode),
                           promote_hot env (m\<lparr>hm_proxy_url := url, hm_proxy_mode := mode\<rparr>) w2)))))"

definition acquire_account ::
  "('r, 'p) lease_env \<Rightarrow> int \<Rightarrow> string \<Rightarrow> string \<Rightarrow> nat \<Rightarrow> string \<Rightarrow> ('r, 'p) lease_world
   \<Rightarrow> (lease_error + lease) \<times> ('r, 'p) lease_world" where
  "acquire_account env now sticky model attempt i w =
     (case cat_get (lw_cat w) i of
        Inl CatClosed \<Rightarrow> (Inl LeaseClosed, w)
      | Inl e \<Rightarrow> (Inl (LeaseCatalog e), w)
      | Inr a \<Rightarrow>
          if \<not> account_usable a now then (Inl LeaseNotUsable, w)
          else let (cooling, w1) = (if model \<noteq> [] then model_cooldown_active i model now w else (False, w)) in
           if cooling then (Inl LeaseModelCooling, w1)
           else let ((url, mode), w2) = resolve_proxy env now a w1 in
            if url = [] \<and> lw_require_proxy w2 then (Inl LeaseRequiresProxy, w2)
            else (case add_inflight i (lw_idx w2) of
                (Some e, x') \<Rightarrow> (Inl (LeaseInflight e), w2)
              | (None, x') \<Rightarrow>
                  (Inr \<lparr>ls_account_id = acc_id a,
                        ls_revision = (if acc_revision a < 0 then 0 else acc_revision a),
                        ls_access_token = acc_access_token a, ls_proxy_url = url, ls_proxy_mode = mode,
                        ls_sticky_key = sticky, ls_model = model, ls_attempt = attempt\<rparr>,
                   w2\<lparr>lw_idx := x'\<rparr>)))"

definition acquire_once ::
  "('r, 'p) lease_env \<Rightarrow> int \<Rightarrow> string \<Rightarrow> string \<Rightarrow> string list \<Rightarrow> nat \<Rightarrow> ('r, 'p) lease_world
   \<Rightarrow> (lease_error + lease) \<times> string list \<times> ('r, 'p) lease_world" where
  "acquire_once env now sticky model tried attempt w =
     (case pick_excluding (le_metas env) (le_rand env) (lw_idx w) now now sticky tried (lw_sel w) of
        (None, sel') \<Rightarrow> (Inl LeaseNoAccount, tried, w\<lparr>lw_sel := sel'\<rparr>)
      | (Some i, sel') \<Rightarrow>
          if i = [] then (Inl LeaseNoAccount, tried, w\<lparr>lw_sel := sel'\<rparr>)
          else let (r, w') = acquire_account env now sticky model attempt i (w\<lparr>lw_sel := sel'\<rparr>) in
            (r, i # tried, w'))"

text \<open>
  The failover loop. \<open>clk\<close> and \<open>cancelled\<close> give the clock and the state of the context at
  each attempt.
\<close>

function acquire_loop ::
  "('r, 'p) lease_env \<Rightarrow> (nat \<Rightarrow> int) \<Rightarrow> (nat \<Rightarrow> bool) \<Rightarrow> string \<Rightarrow> string \<Rightarrow> nat \<Rightarrow> nat \<Rightarrow> lease_error option
   \<Rightarrow> string list \<Rightarrow> ('r, 'p) lease_world \<Rightarrow> (lease_error + lease) \<times> string list \<times> ('r, 'p) lease_world" where
  "acquire_loop env clk cancelled sticky model mx attempt last_err tried w =
     (if attempt \<le> mx then
        (if cancelled attempt then (Inl LeaseCtx, tried, w)
         else case acquire_once env (clk attempt) sticky model tried attempt w of
           (Inr l, tried', w') \<Rightarrow> (Inr l, tried', w')
         | (Inl e, tried', w') \<Rightarrow>
             if e = LeaseNoAccount then (Inl LeaseNoAccount, tried', w')
             else acquire_loop env clk cancelled sticky model mx (Suc attempt) (Some e) tried' w')
      else (Inl (case last_err of None \<Rightarrow> LeaseNoAccount | Some e \<Rightarrow> e), tried, w))"
  by pat_completeness auto
termination
  by (relation "measure (\<lambda>(env, clk, cancelled, sticky, model, mx, attempt, last_err, tried, w). Suc mx - attempt)")
     auto

declare acquire_loop.simps [simp del]

definition acquire ::
  "('r, 'p) lease_env \<Rightarrow> (nat \<Rightarrow> int) \<Rightarrow> (nat \<Rightarrow> bool) \<Rightarrow> string \<Rightarrow> string \<Rightarrow> ('r, 'p) lease_world
   \<Rightarrow> (lease_error + lease) \<times> ('r, 'p) lease_world" where
  "acquire env clk cancelled sticky model w =
     (let (r, tried, w') = acquire_loop env clk cancelled sticky model
            (nat (lc_max_attempts (lw_cfg w))) 1 None [] w in (r, w'))"

definition acquire_attempt ::
  "('r, 'p) lease_env \<Rightarrow> int \<Rightarrow> bool \<Rightarrow> string \<Rightarrow> string \<Rightarrow> string list \<Rightarrow> ('r, 'p) lease_world
   \<Rightarrow> (lease_error + lease) \<times> string list \<times> ('r, 'p) lease_world" where
  "acquire_attempt env now cancelled sticky model tried w =
     (if cancelled then (Inl LeaseCtx, tried, w) else acquire_once env now sticky model tried 1 w)"

section \<open>Release\<close>

text \<open>\<open>cooldownSeconds\<close>; a shift by a negative count panics in Go, here None.\<close>

definition cooldown_base :: "lease_config \<Rightarrow> int \<Rightarrow> int \<Rightarrow> int \<Rightarrow> int option" where
  "cooldown_base cfg code retry_after failure_count =
     (if code = 429 then
        if retry_after > 0 then
          let sec = retry_after div 1000000000 in Some (if sec < 1 then 1 else sec)
        else
          let e0 = failure_count - 1; e1 = (if e0 < 0 then 0 else e0);
              e = (if e1 > lc_cooldown_exp_max cfg then lc_cooldown_exp_max cfg else e1) in
          if e < 0 then None else Some (shl64 (lc_cooldown_base_sec cfg) (nat e))
      else if code = 403 then
        let sec = lc_forbidden_cooldown_sec cfg in
        if retry_after > 0 \<and> retry_after div 1000000000 > sec then Some (retry_after div 1000000000)
        else Some sec
      else if code = 401 then Some (lc_unauthorized_cooldown_sec cfg)
      else if code = 402 then Some (lc_payment_required_cooldown_sec cfg)
      else Some (lc_cooldown_base_sec cfg))"

definition cooldown_clamp :: "lease_config \<Rightarrow> int \<Rightarrow> int" where
  "cooldown_clamp cfg sec =
     (let s = (if sec > lc_cooldown_cap_sec cfg then lc_cooldown_cap_sec cfg else sec) in
      if s < 1 then 1 else s)"

definition cooldown_jitter :: "(int \<Rightarrow> int \<Rightarrow> int) \<Rightarrow> lease_config \<Rightarrow> int \<Rightarrow> int \<Rightarrow> int \<Rightarrow> int" where
  "cooldown_jitter int63n cfg nano failure_count sec =
     (if lc_cooldown_jitter_pct cfg > 0 then
        let delta = wrap64 (sec * lc_cooldown_jitter_pct cfg) sdiv 100 in
        if delta > 0 then
          let s = wrap64 (sec - delta +
                int63n (wrap64 (nano + failure_count * 31 + sec)) (wrap64 (2 * delta + 1))) in
          if s < 1 then 1 else s
        else sec
      else sec)"

definition cooldown_seconds ::
  "(int \<Rightarrow> int \<Rightarrow> int) \<Rightarrow> lease_config \<Rightarrow> int \<Rightarrow> int \<Rightarrow> int \<Rightarrow> int \<Rightarrow> int option" where
  "cooldown_seconds int63n cfg nano code retry_after failure_count =
     map_option (\<lambda>sec. cooldown_jitter int63n cfg nano failure_count (cooldown_clamp cfg sec))
       (cooldown_base cfg code retry_after failure_count)"

definition decay_failure_count :: "int \<Rightarrow> int" where
  "decay_failure_count fc = (if fc \<le> 0 then 0 else (fc - 1) div 2)"

definition lease_clear_sticky :: "('r, 'p) lease_env \<Rightarrow> lease \<Rightarrow> ('r, 'p) lease_world \<Rightarrow> ('r, 'p) lease_world" where
  "lease_clear_sticky env l w =
     (let s = clear_sticky_account (le_keys env) (ls_account_id l) (lw_sel w) in
      w\<lparr>lw_sel := (if ls_sticky_key l \<noteq> [] then clear_sticky_key (ls_sticky_key l) s else s)\<rparr>)"

definition release_success ::
  "('r, 'p) lease_env \<Rightarrow> int \<Rightarrow> lease \<Rightarrow> ('r, 'p) lease_world \<Rightarrow> lease_error option \<times> ('r, 'p) lease_world" where
  "release_success env now l w =
     (let (sc, fc) = (case cat_get (lw_cat w) (ls_account_id l) of
                        Inl e \<Rightarrow> (1, 0)
                      | Inr a \<Rightarrow> (acc_success_count a + 1, decay_failure_count (acc_failure_count a)));
          p = no_patch\<lparr>hp_success_count := Some sc, hp_failure_count := Some fc,
                hp_last_success_at := Some now, hp_last_used_at := Some now,
                hp_consecutive_unauthorized := Some 0, hp_clear_last_error := True\<rparr>;
          (r, cat') = patch_health (lw_cat w) now (ls_account_id l) p;
          w1 = w\<lparr>lw_cat := cat'\<rparr> in
      case r of
        Inl e \<Rightarrow> (if e = CatNotFound then None else Some (LeaseCatalog e), w1)
      | Inr u \<Rightarrow>
          (None, case hot_get (ls_account_id l) (lw_idx w1) of
                   None \<Rightarrow> w1
                 | Some m \<Rightarrow> promote_hot env (m\<lparr>hm_failure_score := of_int fc\<rparr>) w1))"

definition clears_sticky :: "lease_config \<Rightarrow> int \<Rightarrow> bool" where
  "clears_sticky cfg code =
     (if code \<in> {401, 402, 403} then True
      else if code = 429 then lc_clear_sticky_on_429 cfg
      else if code = 0 then lc_clear_sticky_on_5xx cfg
      else code \<ge> 500 \<and> lc_clear_sticky_on_5xx cfg)"

definition failure_text :: "int \<Rightarrow> string" where
  "failure_text code =
     (if code = 403 then ''forbidden''
      else if code = 0 then ''upstream network error''
      else ''upstream '' @ show_int code)"

text \<open>Whether this failure takes the account out of rotation.\<close>

definition quarantines :: "lease_config \<Rightarrow> int \<Rightarrow> account \<Rightarrow> bool" where
  "quarantines cfg code cur =
     (code = 401 \<and> acc_consecutive_unauthorized cur + 1 \<ge> lc_unauthorized_quarantine_after cfg \<or>
      code = 403 \<and> lc_forbidden_quarantine_after cfg > 0 \<and>
        (let streak = (if acc_last_error cur = ''forbidden''
                       then (if acc_failure_count cur + 1 < 2 then 2 else acc_failure_count cur + 1)
                       else 1)
         in streak \<ge> lc_forbidden_quarantine_after cfg) \<or>
      code = 402 \<and> lc_quarantine_on_payment_required cfg)"

definition quarantine_hot ::
  "('r, 'p) lease_env \<Rightarrow> string \<Rightarrow> int \<Rightarrow> ('r, 'p) lease_world \<Rightarrow> ('r, 'p) lease_world" where
  "quarantine_hot env i until w =
     (case hot_get i (lw_idx w) of
        None \<Rightarrow> w
      | Some m \<Rightarrow> promote_hot env (m\<lparr>hm_enabled := False, hm_lifecycle := LifecycleQuarantined,
                     hm_cooldown_until := until\<rparr>) w)"

text \<open>The cooldown part of \<open>releaseFailure\<close>: the patch and the state it leaves.\<close>

definition failure_cooldown ::
  "('r, 'p) lease_env \<Rightarrow> int \<Rightarrow> lease \<Rightarrow> int \<Rightarrow> account \<Rightarrow> int \<Rightarrow> health_patch \<Rightarrow> ('r, 'p) lease_world
   \<Rightarrow> health_patch \<times> ('r, 'p) lease_world" where
  "failure_cooldown env now l code cur until p w =
     (let i = ls_account_id l;
          (p1, w1) =
            (if code = 429 \<and> trim_space (ls_model l) \<noteq> []
             then (p, set_model_cooldown_err now i (ls_model l) until (failure_text code) w)
             else (p\<lparr>hp_cooldown_until := Some until\<rparr>,
                   w\<lparr>lw_idx := snd (set_cooldown i until (lw_idx w))\<rparr>));
          p2 = (if code = 401
                then p1\<lparr>hp_consecutive_unauthorized := Some (acc_consecutive_unauthorized cur + 1)\<rparr> else p1)
      in if quarantines (lw_cfg w) code cur
         then (p2\<lparr>hp_lifecycle := Some LifecycleQuarantined, hp_enabled := Some False\<rparr>,
               quarantine_hot env i until w1)
         else (p2, w1))"

text \<open>How the hot entry follows the patch at the end of \<open>releaseFailure\<close>.\<close>

definition sync_hot :: "('r, 'p) lease_env \<Rightarrow> string \<Rightarrow> int \<Rightarrow> health_patch \<Rightarrow> ('r, 'p) lease_world \<Rightarrow> ('r, 'p) lease_world" where
  "sync_hot env i fc p w =
     (case hot_get i (lw_idx w) of
        None \<Rightarrow> w
      | Some m \<Rightarrow> promote_hot env
          (m\<lparr>hm_failure_score := of_int fc,
             hm_cooldown_until := (case hp_cooldown_until p of None \<Rightarrow> hm_cooldown_until m | Some v \<Rightarrow> v),
             hm_enabled := (case hp_enabled p of None \<Rightarrow> hm_enabled m | Some v \<Rightarrow> v),
             hm_lifecycle := (case hp_lifecycle p of None \<Rightarrow> hm_lifecycle m | Some v \<Rightarrow> v)\<rparr>) w)"

definition report_proxy_fail :: "('r, 'p) lease_env \<Rightarrow> lease \<Rightarrow> int \<Rightarrow> ('r, 'p) lease_world \<Rightarrow> ('r, 'p) lease_world" where
  "report_proxy_fail env l code w =
     (if ls_proxy_url l \<noteq> [] \<and> (code = 0 \<or> code = 403 \<or> code \<ge> 500) then
        (case le_report env of
           None \<Rightarrow> w
         | Some rep \<Rightarrow> w\<lparr>lw_pool := rep (lw_pool w) (ls_proxy_url l) (failure_text code)\<rparr>)
      else w)"

definition failure_plan ::
  "('r, 'p) lease_env \<Rightarrow> int \<Rightarrow> int \<Rightarrow> lease \<Rightarrow> lease_result \<Rightarrow> account \<Rightarrow> ('r, 'p) lease_world
   \<Rightarrow> (health_patch \<times> ('r, 'p) lease_world) option" where
  "failure_plan env now nano l res cur w =
     (let code = lr_status_code res; fc = acc_failure_count cur + 1;
          p0 = no_patch\<lparr>hp_failure_count := Some fc, hp_last_used_at := Some now,
                 hp_last_error := Some (failure_text code)\<rparr> in
      if code \<in> {429, 401, 402, 403} then
        (case cooldown_seconds (le_int63n env) (lw_cfg w) nano code (lr_retry_after res) fc of
           None \<Rightarrow> None
         | Some sec \<Rightarrow> Some (failure_cooldown env now l code cur (wrap64 (now + sec)) p0 w))
      else Some (p0, w))"

definition failure_commit ::
  "('r, 'p) lease_env \<Rightarrow> int \<Rightarrow> lease \<Rightarrow> int \<Rightarrow> int \<Rightarrow> health_patch \<Rightarrow> ('r, 'p) lease_world
   \<Rightarrow> lease_error option \<times> ('r, 'p) lease_world" where
  "failure_commit env now l code fc p w =
     (let w2 = (if clears_sticky (lw_cfg w) code then lease_clear_sticky env l w else w);
          w3 = report_proxy_fail env l code w2;
          (r, cat') = patch_health (lw_cat w3) now (ls_account_id l) p;
          w4 = w3\<lparr>lw_cat := cat'\<rparr> in
      case r of
        Inl e \<Rightarrow> (if e = CatNotFound then None else Some (LeaseCatalog e), w4)
      | Inr u \<Rightarrow> (None, sync_hot env (ls_account_id l) fc p w4))"

definition release_failure ::
  "('r, 'p) lease_env \<Rightarrow> int \<Rightarrow> int \<Rightarrow> lease \<Rightarrow> lease_result \<Rightarrow> ('r, 'p) lease_world
   \<Rightarrow> lease_error option \<times> ('r, 'p) lease_world" where
  "release_failure env now nano l res w =
     (let code = lr_status_code res in
      case cat_get (lw_cat w) (ls_account_id l) of
        Inl CatNotFound \<Rightarrow> (None, if clears_sticky (lw_cfg w) code then lease_clear_sticky env l w else w)
      | Inl e \<Rightarrow> (Some (LeaseCatalog e), w)
      | Inr cur \<Rightarrow>
          (case failure_plan env now nano l res cur w of
             None \<Rightarrow> (Some LeasePanic, w)
           | Some (p, w1) \<Rightarrow> failure_commit env now l code (acc_failure_count cur + 1) p w1))"

definition release ::
  "('r, 'p) lease_env \<Rightarrow> bool \<Rightarrow> int \<Rightarrow> int \<Rightarrow> lease \<Rightarrow> lease_result \<Rightarrow> ('r, 'p) lease_world
   \<Rightarrow> lease_error option \<times> ('r, 'p) lease_world" where
  "release env cancelled now nano l res w =
     (if ls_account_id l = [] then (Some LeaseInvalidInput, w)
      else let w1 = w\<lparr>lw_idx := snd (sub_inflight (ls_account_id l) (lw_idx w))\<rparr> in
       if cancelled then (Some LeaseCtx, w1)
       else if lr_success res then release_success env now l w1
       else release_failure env now nano l res w1)"

section \<open>What stays of the hot index\<close>

text \<open>\<open>y\<close> is a well-formed index over the same accounts with the same in-flight counts as \<open>x\<close>.\<close>

definition hot_frame :: "index \<Rightarrow> index \<Rightarrow> bool" where
  "hot_frame x y \<longleftrightarrow> idx_ok y \<and> hi_closed y = hi_closed x \<and> hi_max_inflight y = hi_max_inflight x \<and>
     (\<forall>j. inflight_of y j = inflight_of x j) \<and> dom (map_of (hi_hot y)) = dom (map_of (hi_hot x))"

lemma hot_frame_refl [simp]: "idx_ok x \<Longrightarrow> hot_frame x x"
  by (simp add: hot_frame_def)

lemma hot_frame_trans: "hot_frame x y \<Longrightarrow> hot_frame y z \<Longrightarrow> hot_frame x z"
  by (simp add: hot_frame_def)

lemma hot_frame_ok: "hot_frame x y \<Longrightarrow> idx_ok y"
  by (simp add: hot_frame_def)

lemma promote_frame:
  assumes "idx_ok x" "iteration_order ord" "map_of (hi_hot x) (hm_id m) = Some old"
  shows "hot_frame x (snd (promote ord m x))"
proof (cases "hi_closed x")
  case True
  then show ?thesis using assms(1) by (simp add: promote_def)
next
  case False
  have "hm_id m \<noteq> []" using idx_coreD(4) [OF idx_okD [OF assms(1)] assms(3)] by blast
  then have "snd (promote ord m x) =
      x\<lparr>hi_hot := gm_put (hm_id m) (m\<lparr>hm_inflight := hm_inflight old\<rparr>) (hi_hot x)\<rparr>"
    using False assms(3) by (simp add: promote_def)
  moreover have "idx_ok (snd (promote ord m x))" by (rule promote_ok [OF assms(1,2)])
  ultimately show ?thesis using assms(3) by (auto simp: hot_frame_def inflight_of_def)
qed

lemma set_cooldown_frame: "idx_ok x \<Longrightarrow> hot_frame x (snd (set_cooldown i until x))"
  using set_cooldown_ok [of x i until]
  by (auto simp: hot_frame_def set_cooldown_def hot_modify_def inflight_of_def split: option.split)

lemma hot_get_id: "idx_ok x \<Longrightarrow> hot_get i x = Some m \<Longrightarrow> hm_id m = i \<and> map_of (hi_hot x) i = Some m"
  using idx_coreD(4) [OF idx_okD] by (auto simp: hot_get_def)

definition env_ok :: "('r, 'p) lease_env \<Rightarrow> bool" where
  "env_ok env \<longleftrightarrow> intn_ok (rs_intn (le_rand env)) \<and> iteration_order (le_metas env) \<and>
     iteration_order (le_entries env) \<and> iteration_order (le_keys env)"

lemma env_okD:
  assumes "env_ok env"
  shows "intn_ok (rs_intn (le_rand env))" "iteration_order (le_metas env)"
    "iteration_order (le_entries env)" "iteration_order (le_keys env)"
  using assms by (simp_all add: env_ok_def)

lemma promote_hot_frame:
  assumes "env_ok env" "idx_ok (lw_idx w)" "hot_get i (lw_idx w) = Some m0" "hm_id m = i"
  shows "hot_frame (lw_idx w) (lw_idx (promote_hot env m w))"
  using assms hot_get_id [OF assms(2,3)] promote_frame [OF assms(2), of "le_entries env" m]
  by (simp add: promote_hot_def env_okD(3))

lemma promote_hot_rest [simp, frame_simps]:
  "lw_cat (promote_hot env m w) = lw_cat w" "lw_sel (promote_hot env m w) = lw_sel w"
  "lw_cfg (promote_hot env m w) = lw_cfg w" "lw_model_cool (promote_hot env m w) = lw_model_cool w"
  "lw_require_proxy (promote_hot env m w) = lw_require_proxy w" "lw_pool (promote_hot env m w) = lw_pool w"
  by (simp_all add: promote_hot_def)

section \<open>Acquiring\<close>

definition world_ok :: "('r, 'p) lease_world \<Rightarrow> bool" where
  "world_ok w \<longleftrightarrow> idx_ok (lw_idx w) \<and> wf_catalog (lw_cat w) \<and> sticky_ok (sel_sticky (lw_sel w))"

lemma pick_fresh_sticky:
  assumes "sticky_ok (sel_sticky s)"
  shows "sticky_ok (sel_sticky (snd (pick_fresh ord rnd x now key exclude hit s)))"
proof -
  have rr: "sel_sticky (snd (stable_rr_pick ord x now exclude s)) = sel_sticky s"
    by (simp add: stable_rr_pick_def Let_def)
  have p2: "sel_sticky (snd (pow2_pick rnd x now exclude s)) = sel_sticky s"
    by (simp add: pow2_pick_def Let_def split: prod.split option.split)
  have "sel_sticky (snd (pick_by_strategy ord rnd x now exclude s)) = sel_sticky s"
    unfolding pick_by_strategy_def by (split if_split) (use rr p2 in blast)
  then show ?thesis using assms
    by (auto simp: pick_fresh_def Let_def sticky_put_ok split: prod.splits option.splits)
qed

lemma pick_excluding_sticky:
  assumes "sticky_ok (sel_sticky s)"
  shows "sticky_ok (sel_sticky (snd (pick_excluding ord rnd x clock now key exclude s)))"
proof (cases "key = []")
  case True
  then show ?thesis using pick_fresh_sticky [OF assms] by (simp add: pick_excluding_def Let_def)
next
  case False
  obtain g st where g: "get_pair (now_or clock now) key (sel_sticky s) = (g, st)" by fastforce
  then have st: "sticky_ok st" using get_pair_ok [OF assms] by (metis snd_conv)
  show ?thesis
    using False g st pick_fresh_sticky [of "s\<lparr>sel_sticky := st\<rparr>"]
    by (cases g) (simp_all add: pick_excluding_def Let_def sticky_put_ok split: prod.split)
qed

lemma set_proxy_frame:
  assumes "set_proxy c now i url mode = (r, c')"
  shows "wf_catalog c \<Longrightarrow> wf_catalog c'"
    and "map_of (cat_rows c) k = Some a \<Longrightarrow> \<exists>b. map_of (cat_rows c') k = Some b \<and>
      (\<forall>now. account_usable b now = account_usable a now) \<and> acc_access_token b = acc_access_token a \<and>
      acc_id b = acc_id a"
proof -
  show "wf_catalog c \<Longrightarrow> wf_catalog c'" using wf_set_proxies [of c now] assms by (metis set_proxy_def snd_conv)
  let ?it = "\<lparr>pa_id = i, pa_proxy_url = url, pa_proxy_mode = mode\<rparr>"
  assume a: "map_of (cat_rows c) k = Some a"
  have "c' = c \<or> (\<exists>rs. set_proxies_loop now [?it] (cat_rows c) = Inr rs \<and> c' = c\<lparr>cat_rows := rs\<rparr>)"
    using assms unfolding set_proxy_def set_proxies_def
    by (auto simp del: set_proxies_loop.simps split: if_splits sum.splits)
  then have "map_of (cat_rows c') k = Some a \<or> map_of (cat_rows c') k = Some (proxy_step now k ?it a)"
    using a set_proxies_loop_rows [of now "[?it]" "cat_rows c" _ k] by fastforce
  moreover have "account_usable (proxy_step now k ?it a) t = account_usable a t"
    "acc_access_token (proxy_step now k ?it a) = acc_access_token a" "acc_id (proxy_step now k ?it a) = acc_id a" for t
    by (simp_all add: proxy_step_def set_proxy_row_def Let_def account_usable_def)
  ultimately show "\<exists>b. map_of (cat_rows c') k = Some b \<and>
      (\<forall>now. account_usable b now = account_usable a now) \<and> acc_access_token b = acc_access_token a \<and>
      acc_id b = acc_id a" by auto
qed

lemma resolve_proxy_frame:
  assumes "env_ok env" "world_ok w" "resolve_proxy env now a w = ((url, mode), w')"
  shows "hot_frame (lw_idx w) (lw_idx w') \<and> wf_catalog (lw_cat w') \<and> lw_sel w' = lw_sel w \<and>
    lw_cfg w' = lw_cfg w \<and> lw_model_cool w' = lw_model_cool w \<and> lw_require_proxy w' = lw_require_proxy w \<and>
    (\<forall>k b. map_of (cat_rows (lw_cat w)) k = Some b \<longrightarrow> (\<exists>c. map_of (cat_rows (lw_cat w')) k = Some c \<and>
      (\<forall>now. account_usable c now = account_usable b now) \<and> acc_access_token c = acc_access_token b))"
proof (cases "trim_space (acc_proxy_url a) \<noteq> [] \<or> le_assign env = None")
  case True
  then have "w' = w" using assms(3) by (auto simp: resolve_proxy_def Let_def split: if_splits)
  then show ?thesis using assms(2) by (auto simp: world_ok_def)
next
  case False
  then obtain assign where as: "le_assign env = Some assign" by auto
  obtain o1 p' where ap: "assign (lw_pool w) (acc_id a) = (o1, p')" by fastforce
  have ok: "idx_ok (lw_idx w)" "wf_catalog (lw_cat w)" using assms(2) by (simp_all add: world_ok_def)
  show ?thesis
  proof (cases "\<exists>u md. o1 = Some (u, md) \<and> trim_space u \<noteq> []")
    case False
    then have "w' = w\<lparr>lw_pool := p'\<rparr>"
      using assms(3) as ap \<open>\<not> (_ \<or> _)\<close>
      by (cases o1) (auto simp: resolve_proxy_def Let_def)
    then show ?thesis using ok by auto
  next
    case True
    then obtain u md where o1: "o1 = Some (u, md)" "trim_space u \<noteq> []" by blast
    obtain r cat' where sp: "set_proxy (lw_cat w) now (acc_id a) (trim_space u) (trim_space md) = (r, cat')" by fastforce
    let ?w2 = "w\<lparr>lw_pool := p', lw_cat := cat'\<rparr>"
    have w': "w' = ?w2 \<or> (\<exists>m. hot_get (acc_id a) (lw_idx ?w2) = Some m \<and>
        w' = promote_hot env (m\<lparr>hm_proxy_url := trim_space u, hm_proxy_mode := trim_space md\<rparr>) ?w2)"
      using assms(3) as ap o1 sp False
      by (auto simp: resolve_proxy_def Let_def split: sum.splits option.splits)
    then have "hot_frame (lw_idx w) (lw_idx w')"
      using ok promote_hot_frame [OF assms(1), of ?w2] hot_get_id [OF ok(1), of "acc_id a"] by auto
    moreover have "wf_catalog cat'" using set_proxy_frame(1) [OF sp ok(2)] .
    ultimately show ?thesis using w' set_proxy_frame(2) [OF sp] by (auto; blast)
  qed
qed

lemma model_cooldown_active_spec:
  assumes "model_cooldown_active i model now w = (b, w')"
  shows "lw_cat w' = lw_cat w \<and> lw_idx w' = lw_idx w \<and> lw_sel w' = lw_sel w \<and> lw_cfg w' = lw_cfg w \<and>
    lw_require_proxy w' = lw_require_proxy w \<and> lw_pool w' = lw_pool w"
    and "b \<longleftrightarrow> i \<noteq> [] \<and> model \<noteq> [] \<and> gm_get (lw_model_cool w) i \<noteq> None \<and> now < model_cooldown_until i model w"
    and "\<not> b \<Longrightarrow> i \<noteq> [] \<Longrightarrow> model \<noteq> [] \<Longrightarrow> model_cooldown_until i model w' \<le> max 0 now"
    and "(k, m) \<noteq> (i, model) \<Longrightarrow> model_cooldown_until k m w' = model_cooldown_until k m w"
proof -
  show "lw_cat w' = lw_cat w \<and> lw_idx w' = lw_idx w \<and> lw_sel w' = lw_sel w \<and> lw_cfg w' = lw_cfg w \<and>
    lw_require_proxy w' = lw_require_proxy w \<and> lw_pool w' = lw_pool w"
    using assms by (auto simp: model_cooldown_active_def Let_def split: if_splits option.splits)
  show "b \<longleftrightarrow> i \<noteq> [] \<and> model \<noteq> [] \<and> gm_get (lw_model_cool w) i \<noteq> None \<and> now < model_cooldown_until i model w"
    using assms
    by (auto simp: model_cooldown_active_def model_cooldown_until_def Let_def gm_default_def
        split: if_splits option.splits)
  show "\<not> b \<Longrightarrow> i \<noteq> [] \<Longrightarrow> model \<noteq> [] \<Longrightarrow> model_cooldown_until i model w' \<le> max 0 now"
    using assms
    by (cases "gm_get (lw_model_cool w) i")
       (auto simp: model_cooldown_active_def model_cooldown_until_def Let_def gm_default_def split: if_splits)
  assume ne: "(k, m) \<noteq> (i, model)"
  show "model_cooldown_until k m w' = model_cooldown_until k m w"
  proof (cases "gm_get (lw_model_cool w) i")
    case None
    then show ?thesis using assms by (auto simp: model_cooldown_active_def split: if_splits)
  next
    case (Some mm)
    have "gm_default 0 mm m = 0" if "gm_del model mm = []" "m \<noteq> model"
      using that gm_default_simps(3) [of 0 model mm m] by (simp del: gm_default_simps(3))
    with Some ne show ?thesis using assms
      by (auto simp: model_cooldown_active_def model_cooldown_until_def Let_def split: if_splits)
         (auto simp: gm_default_def)
  qed
qed

definition granted :: "int \<Rightarrow> string \<Rightarrow> lease \<Rightarrow> index \<Rightarrow> ('r, 'p) lease_world \<Rightarrow> bool" where
  "granted now model l x w' \<longleftrightarrow>
     (\<exists>y. hot_frame x y \<and> hot_enter (ls_account_id l) y = (True, lw_idx w')) \<and>
     (\<exists>b. map_of (cat_rows (lw_cat w')) (ls_account_id l) = Some b \<and> account_usable b now \<and>
        ls_access_token l = acc_access_token b) \<and>
     (model \<noteq> [] \<longrightarrow> model_cooldown_until (ls_account_id l) model w' \<le> max 0 now) \<and>
     (lw_require_proxy w' \<longrightarrow> ls_proxy_url l \<noteq> [])"

lemma cat_get_Inr: "cat_get c i = Inr a \<Longrightarrow> map_of (cat_rows c) i = Some a \<and> i \<noteq> []"
  by (auto simp: cat_get_def cat_get_unlocked_def split: if_splits option.splits)

lemma acquire_account_spec:
  assumes "env_ok env" "world_ok w" "acquire_account env now sticky model attempt i w = (r, w')"
  shows "wf_catalog (lw_cat w') \<and> lw_sel w' = lw_sel w \<and> lw_cfg w' = lw_cfg w \<and>
    lw_require_proxy w' = lw_require_proxy w \<and>
    (case r of Inl e \<Rightarrow> hot_frame (lw_idx w) (lw_idx w')
     | Inr l \<Rightarrow> ls_account_id l = i \<and> granted now model l (lw_idx w) w')"
proof -
  have ok: "idx_ok (lw_idx w)" "wf_catalog (lw_cat w)" using assms(2) by (simp_all add: world_ok_def)
  show ?thesis
  proof (cases "cat_get (lw_cat w) i")
    case (Inl e)
    then show ?thesis using assms(3) ok by (cases e) (auto simp: acquire_account_def)
  next
    case (Inr a)
    note row = cat_get_Inr [OF Inr]
    show ?thesis
    proof (cases "account_usable a now")
      case False
      then show ?thesis using assms(3) ok Inr by (auto simp: acquire_account_def)
    next
      case usable: True
      obtain cooling w1 where m: "(if model \<noteq> [] then model_cooldown_active i model now w else (False, w)) =
          (cooling, w1)" by fastforce
      have w1: "lw_cat w1 = lw_cat w" "lw_idx w1 = lw_idx w" "lw_sel w1 = lw_sel w" "lw_cfg w1 = lw_cfg w"
        "lw_require_proxy w1 = lw_require_proxy w" "world_ok w1"
        using m model_cooldown_active_spec(1) [of i model now w cooling w1] assms(2)
        by (auto simp: world_ok_def split: if_splits)
      show ?thesis
      proof (cases cooling)
        case True
        then show ?thesis using assms(3) ok Inr usable m w1 by (auto simp: acquire_account_def Let_def)
      next
        case False
        obtain url mode w2 where rp: "resolve_proxy env now a w1 = ((url, mode), w2)" by (metis prod.exhaust)
        note fr = resolve_proxy_frame [OF assms(1) w1(6) rp]
        have step: "(r, w') = (if url = [] \<and> lw_require_proxy w2 then (Inl LeaseRequiresProxy, w2)
            else (case add_inflight i (lw_idx w2) of
                (Some e, x') \<Rightarrow> (Inl (LeaseInflight e), w2)
              | (None, x') \<Rightarrow>
                  (Inr \<lparr>ls_account_id = acc_id a,
                        ls_revision = (if acc_revision a < 0 then 0 else acc_revision a),
                        ls_access_token = acc_access_token a, ls_proxy_url = url, ls_proxy_mode = mode,
                        ls_sticky_key = sticky, ls_model = model, ls_attempt = attempt\<rparr>,
                   w2\<lparr>lw_idx := x'\<rparr>)))"
          using assms(3) Inr usable m False rp by (simp add: acquire_account_def Let_def)
        obtain e x' where ai: "add_inflight i (lw_idx w2) = (e, x')" by fastforce
        show ?thesis
        proof (cases "url = [] \<and> lw_require_proxy w2 \<or> e \<noteq> None")
          case True
          then have "w' = w2 \<and> (\<exists>e'. r = Inl e')" using step ai by (auto split: if_splits)
          then show ?thesis using fr w1 by auto
        next
          case grant: False
          have id: "acc_id a = i" using row ok wf_rowsD wf_catalogD by (auto simp: wf_account_def)
          from grant step ai have w': "w' = w2\<lparr>lw_idx := x'\<rparr>"
            and r: "r = Inr \<lparr>ls_account_id = acc_id a,
                        ls_revision = (if acc_revision a < 0 then 0 else acc_revision a),
                        ls_access_token = acc_access_token a, ls_proxy_url = url, ls_proxy_mode = mode,
                        ls_sticky_key = sticky, ls_model = model, ls_attempt = attempt\<rparr>"
            by (auto split: if_splits)
          have "hot_enter i (lw_idx w2) = (True, x')" using ai grant by (simp add: hot_enter_def)
          moreover have "model \<noteq> [] \<Longrightarrow> model_cooldown_until i model w2 \<le> max 0 now"
            using m False fr row model_cooldown_active_spec(3) [of i model now w cooling w1]
            by (simp add: model_cooldown_until_def)
          moreover obtain c where "map_of (cat_rows (lw_cat w2)) i = Some c" "account_usable c now"
            "acc_access_token c = acc_access_token a"
            using fr w1 row usable by (metis (no_types, lifting))
          ultimately show ?thesis
            using fr w1 w' r id grant unfolding granted_def by (auto simp: model_cooldown_until_def)
        qed
      qed
    qed
  qed
qed

lemma pick_excluding_usable:
  assumes "intn_ok (rs_intn rnd)" "idx_core x" "iteration_order ord"
    "pick_excluding ord rnd x clock now key exclude s = (Some i, s')"
  shows "usable x (now_or clock now) exclude i"
  using pick_excluding_cases [OF assms(4)] pick_by_strategy_usable [OF assms(1-3)] by fastforce

definition under_cap :: "index \<Rightarrow> string \<Rightarrow> bool" where
  "under_cap x i \<longleftrightarrow> i \<in> dom (map_of (hi_hot x)) \<and>
     (0 < hi_max_inflight x \<longrightarrow> inflight_of x i < hi_max_inflight x)"

lemma usable_under_cap: "usable x now exclude i \<Longrightarrow> under_cap x i"
  by (auto simp: usable_def hot_get_def under_cap_def inflight_of_def hi_eligible_meta_def
      eligible_with_inflight_cap_def split: option.splits if_splits)

lemma under_cap_frame: "hot_frame x y \<Longrightarrow> under_cap y i = under_cap x i"
  by (simp add: hot_frame_def under_cap_def)

lemma granted_frame: "granted now model l y w' \<Longrightarrow> hot_frame x y \<Longrightarrow> granted now model l x w'"
  unfolding granted_def by (meson hot_frame_trans)

lemma granted_idx_ok:
  assumes "granted now model l x w'"
  shows "idx_ok (lw_idx w')"
proof -
  obtain y where y: "hot_frame x y" "hot_enter (ls_account_id l) y = (True, lw_idx w')"
    using assms by (auto simp: granted_def)
  then have "lw_idx w' = snd (add_inflight (ls_account_id l) y)" by (simp add: hot_enter_def split_beta Let_def)
  then show ?thesis using add_inflight_ok hot_frame_ok [OF y(1)] by simp
qed

lemma acquire_once_spec:
  assumes "env_ok env" "world_ok w" "acquire_once env now sticky model tried attempt w = (r, tried', w')"
  shows "world_ok w' \<and> lw_cfg w' = lw_cfg w \<and> lw_require_proxy w' = lw_require_proxy w \<and>
    (case r of Inl e \<Rightarrow> hot_frame (lw_idx w) (lw_idx w') \<and>
        (e = LeaseNoAccount \<and> tried' = tried \<or> (\<exists>i. i \<notin> set tried \<and> tried' = i # tried))
     | Inr l \<Rightarrow> tried' = ls_account_id l # tried \<and> ls_account_id l \<notin> set tried \<and>
        granted now model l (lw_idx w) w' \<and> under_cap (lw_idx w) (ls_account_id l))"
proof -
  have ok: "idx_ok (lw_idx w)" "sticky_ok (sel_sticky (lw_sel w))" "wf_catalog (lw_cat w)"
    using assms(2) by (simp_all add: world_ok_def)
  obtain p sel' where p: "pick_excluding (le_metas env) (le_rand env) (lw_idx w) now now sticky tried (lw_sel w) = (p, sel')"
    by fastforce
  then have st: "sticky_ok (sel_sticky sel')" using pick_excluding_sticky [OF ok(2)] by (metis snd_conv)
  show ?thesis
  proof (cases p)
    case None
    then show ?thesis using assms(3) p ok st by (auto simp: acquire_once_def world_ok_def)
  next
    case (Some i)
    have us: "usable (lw_idx w) now tried i"
      using pick_excluding_usable [OF env_okD(1) [OF assms(1)] idx_okD [OF ok(1)] env_okD(2) [OF assms(1)]]
        p Some by (metis now_or_same)
    then have i: "i \<noteq> []" "i \<notin> set tried" by (simp_all add: usable_def)
    let ?w = "w\<lparr>lw_sel := sel'\<rparr>"
    have wok: "world_ok ?w" using ok st by (simp add: world_ok_def)
    obtain r1 w1 where a: "acquire_account env now sticky model attempt i ?w = (r1, w1)" by fastforce
    have out: "r = r1" "tried' = i # tried" "w' = w1"
      using assms(3) p Some i a by (simp_all add: acquire_once_def)
    note spec = acquire_account_spec [OF assms(1) wok a]
    show ?thesis
    proof (cases r1)
      case (Inl e)
      then show ?thesis using spec out i st by (auto simp: world_ok_def hot_frame_def)
    next
      case (Inr l)
      then have "granted now model l (lw_idx w) w1" "ls_account_id l = i" using spec by auto
      then show ?thesis
        using Inr spec out i st usable_under_cap [OF us] granted_idx_ok by (auto simp: world_ok_def)
    qed
  qed
qed

lemma acquire_loop_spec:
  assumes "env_ok env"
  shows "world_ok w \<Longrightarrow> distinct tried \<Longrightarrow>
    acquire_loop env clk cancelled sticky model mx attempt last_err tried w = (r, tried', w') \<Longrightarrow>
    world_ok w' \<and> lw_require_proxy w' = lw_require_proxy w \<and> distinct tried' \<and>
    length tried' + attempt \<le> length tried + max attempt (Suc mx) \<and>
    (case r of Inl e \<Rightarrow> hot_frame (lw_idx w) (lw_idx w')
     | Inr l \<Rightarrow> under_cap (lw_idx w) (ls_account_id l) \<and> ls_account_id l \<notin> set tried \<and>
        (\<exists>k. attempt \<le> k \<and> k \<le> mx \<and> \<not> cancelled k \<and> granted (clk k) model l (lw_idx w) w'))"
proof (induction "Suc mx - attempt" arbitrary: attempt last_err tried w rule: less_induct)
  case less
  have ok: "idx_ok (lw_idx w)" using less(2) by (simp add: world_ok_def)
  show ?case
  proof (cases "attempt \<le> mx \<and> \<not> cancelled attempt")
    case False
    then have "w' = w" "tried' = tried" "\<exists>e. r = Inl e"
      using less(4) by (subst (asm) acquire_loop.simps; auto split: if_splits)+
    then show ?thesis using less(2,3) ok by auto
  next
    case True
    obtain r1 t1 w1 where o: "acquire_once env (clk attempt) sticky model tried attempt w = (r1, t1, w1)"
      by (metis prod.exhaust)
    note spec = acquire_once_spec [OF assms less(2) o]
    show ?thesis
    proof (cases "\<exists>e. r1 = Inl e \<and> e \<noteq> LeaseNoAccount")
      case False
      then have out: "r = r1" "tried' = t1" "w' = w1"
        using less(4) True o by (subst (asm) acquire_loop.simps; auto split: sum.splits if_splits)+
      show ?thesis
      proof (cases r1)
        case (Inl e)
        then show ?thesis using spec out less(3) True False by auto
      next
        case (Inr l)
        then show ?thesis using spec out less(3) True by auto
      qed
    next
      case retry: True
      then obtain e where e: "r1 = Inl e" "e \<noteq> LeaseNoAccount" by blast
      have rec: "acquire_loop env clk cancelled sticky model mx (Suc attempt) (Some e) t1 w1 = (r, tried', w')"
        using less(4) True o e by (subst (asm) acquire_loop.simps) auto
      obtain i where i: "i \<notin> set tried" "t1 = i # tried" using spec e by auto
      have fr: "hot_frame (lw_idx w) (lw_idx w1)" using spec e by simp
      have "Suc mx - Suc attempt < Suc mx - attempt" using True by linarith
      from less(1) [OF this _ _ rec] spec i less(3)
      have IH: "world_ok w' \<and> lw_require_proxy w' = lw_require_proxy w1 \<and> distinct tried' \<and>
        length tried' + Suc attempt \<le> length t1 + max (Suc attempt) (Suc mx) \<and>
        (case r of Inl e \<Rightarrow> hot_frame (lw_idx w1) (lw_idx w')
         | Inr l \<Rightarrow> under_cap (lw_idx w1) (ls_account_id l) \<and> ls_account_id l \<notin> set t1 \<and>
            (\<exists>k. Suc attempt \<le> k \<and> k \<le> mx \<and> \<not> cancelled k \<and> granted (clk k) model l (lw_idx w1) w'))"
        by auto
      show ?thesis
      proof (cases r)
        case (Inl e')
        then show ?thesis using IH spec i True hot_frame_trans [OF fr] by (auto simp: max_def)
      next
        case (Inr l)
        with IH obtain k where k: "Suc attempt \<le> k" "k \<le> mx" "\<not> cancelled k" "granted (clk k) model l (lw_idx w1) w'"
          by auto
        have "granted (clk k) model l (lw_idx w) w'" by (rule granted_frame [OF k(4) fr])
        with k have "\<exists>k. attempt \<le> k \<and> k \<le> mx \<and> \<not> cancelled k \<and> granted (clk k) model l (lw_idx w) w'"
          by (intro exI [of _ k]) simp
        then show ?thesis
          using Inr IH spec i True under_cap_frame [OF fr] by (auto simp: max_def)
      qed
    qed
  qed
qed

section \<open>Releasing\<close>

lemma hot_leave_ok: "idx_ok x \<Longrightarrow> idx_ok (hot_leave i x)"
  by (simp add: hot_leave_def sub_inflight_ok)

lemma promote_got_frame:
  assumes "env_ok env" "idx_ok (lw_idx w)" "hot_get i (lw_idx w) = Some m0" "hm_id m = hm_id m0"
  shows "hot_frame (lw_idx w) (lw_idx (promote_hot env m w))"
  using promote_hot_frame [OF assms(1-3)] hot_get_id [OF assms(2,3)] assms(4) by metis

lemma quarantine_hot_frame:
  assumes "env_ok env" "idx_ok (lw_idx w)"
  shows "hot_frame (lw_idx w) (lw_idx (quarantine_hot env i until w))"
  using promote_got_frame [OF assms] assms(2)
  by (cases "hot_get i (lw_idx w)") (simp_all add: quarantine_hot_def)

lemma sync_hot_frame:
  assumes "env_ok env" "idx_ok (lw_idx w)"
  shows "hot_frame (lw_idx w) (lw_idx (sync_hot env i fc p w))"
  using promote_got_frame [OF assms] assms(2)
  by (cases "hot_get i (lw_idx w)") (simp_all add: sync_hot_def)

lemma quarantine_hot_rest [simp, frame_simps]:
  "lw_cat (quarantine_hot env i u w) = lw_cat w" "lw_sel (quarantine_hot env i u w) = lw_sel w"
  "lw_model_cool (quarantine_hot env i u w) = lw_model_cool w" "lw_cfg (quarantine_hot env i u w) = lw_cfg w"
  by (simp_all add: quarantine_hot_def split: option.split)

lemma sync_hot_rest [simp, frame_simps]:
  "lw_cat (sync_hot env i fc p w) = lw_cat w" "lw_sel (sync_hot env i fc p w) = lw_sel w"
  "lw_model_cool (sync_hot env i fc p w) = lw_model_cool w" "lw_cfg (sync_hot env i fc p w) = lw_cfg w"
  by (simp_all add: sync_hot_def split: option.split)

lemma set_model_cooldown_rest [simp, frame_simps]:
  "lw_idx (set_model_cooldown_err now a m u e w) = lw_idx w"
  "lw_sel (set_model_cooldown_err now a m u e w) = lw_sel w"
  "lw_cfg (set_model_cooldown_err now a m u e w) = lw_cfg w"
  "cat_rows (lw_cat (set_model_cooldown_err now a m u e w)) = cat_rows (lw_cat w)"
  "cat_open (lw_cat (set_model_cooldown_err now a m u e w)) = cat_open (lw_cat w)"
  by (simp_all add: set_model_cooldown_err_def upsert_model_cooldown_def Let_def)

lemma clear_sticky_rest [simp, frame_simps]:
  "lw_idx (lease_clear_sticky env l w) = lw_idx w" "lw_cat (lease_clear_sticky env l w) = lw_cat w"
  "lw_cfg (lease_clear_sticky env l w) = lw_cfg w"
  "lw_model_cool (lease_clear_sticky env l w) = lw_model_cool w"
  by (simp_all add: lease_clear_sticky_def Let_def)

lemma clear_sticky_ok:
  "env_ok env \<Longrightarrow> sticky_ok (sel_sticky (lw_sel w)) \<Longrightarrow>
   sticky_ok (sel_sticky (lw_sel (lease_clear_sticky env l w)))"
  by (simp add: lease_clear_sticky_def Let_def clear_sticky_account_def clear_sticky_key_def
      delete_account_ok delete_key_ok env_okD(4))

lemma report_proxy_rest [simp, frame_simps]:
  "lw_idx (report_proxy_fail env l c w) = lw_idx w" "lw_cat (report_proxy_fail env l c w) = lw_cat w"
  "lw_sel (report_proxy_fail env l c w) = lw_sel w" "lw_cfg (report_proxy_fail env l c w) = lw_cfg w"
  "lw_model_cool (report_proxy_fail env l c w) = lw_model_cool w"
  by (simp_all add: report_proxy_fail_def split: option.split)

lemma failure_cooldown_frame:
  assumes "env_ok env" "world_ok w" "failure_cooldown env now l code cur until p w = (p', w')"
  shows "world_ok w' \<and> hot_frame (lw_idx w) (lw_idx w')"
proof -
  have ok: "idx_ok (lw_idx w)" "wf_catalog (lw_cat w)" "sticky_ok (sel_sticky (lw_sel w))"
    using assms(2) by (simp_all add: world_ok_def)
  let ?i = "ls_account_id l"
  let ?w1 = "if code = 429 \<and> trim_space (ls_model l) \<noteq> []
             then set_model_cooldown_err now ?i (ls_model l) until (failure_text code) w
             else w\<lparr>lw_idx := snd (set_cooldown ?i until (lw_idx w))\<rparr>"
  have w1: "world_ok ?w1" "hot_frame (lw_idx w) (lw_idx ?w1)"
    using ok set_cooldown_frame [OF ok(1), of ?i until] set_cooldown_ok [OF ok(1)]
      wf_upsert_model_cooldown [OF ok(2)]
    by (auto simp: world_ok_def set_model_cooldown_err_def)
  have w': "w' = ?w1 \<or> w' = quarantine_hot env ?i until ?w1"
    using assms(3) by (auto simp: failure_cooldown_def Let_def split: if_splits)
  have "world_ok (quarantine_hot env ?i until v) \<and> hot_frame (lw_idx w) (lw_idx (quarantine_hot env ?i until v))"
    if "world_ok v" "hot_frame (lw_idx w) (lw_idx v)" for v
  proof -
    have f: "hot_frame (lw_idx v) (lw_idx (quarantine_hot env ?i until v))"
      using that(1) by (intro quarantine_hot_frame [OF assms(1)]) (simp add: world_ok_def)
    then show ?thesis using that hot_frame_trans hot_frame_ok [OF f] by (auto simp: world_ok_def)
  qed
  from this [OF w1] w1 w' show ?thesis by (elim disjE) (simp_all only:)
qed

lemma release_success_frame:
  assumes "env_ok env" "world_ok w"
  shows "world_ok (snd (release_success env now l w)) \<and>
    hot_frame (lw_idx w) (lw_idx (snd (release_success env now l w)))"
proof -
  have ok: "idx_ok (lw_idx w)" "wf_catalog (lw_cat w)" "sticky_ok (sel_sticky (lw_sel w))"
    using assms(2) by (simp_all add: world_ok_def)
  obtain sc fc where s: "(case cat_get (lw_cat w) (ls_account_id l) of Inl e \<Rightarrow> (1, 0)
      | Inr a \<Rightarrow> (acc_success_count a + 1, decay_failure_count (acc_failure_count a))) = (sc, fc)" by fastforce
  let ?p = "no_patch\<lparr>hp_success_count := Some sc, hp_failure_count := Some fc,
    hp_last_success_at := Some now, hp_last_used_at := Some now,
    hp_consecutive_unauthorized := Some 0, hp_clear_last_error := True\<rparr>"
  obtain r cat' where p: "patch_health (lw_cat w) now (ls_account_id l) ?p = (r, cat')" by fastforce
  have wf: "wf_catalog cat'" using wf_patch_health [OF ok(2)] p by (metis snd_conv)
  let ?w1 = "w\<lparr>lw_cat := cat'\<rparr>"
  have "snd (release_success env now l w) = ?w1 \<or>
      (\<exists>m. hot_get (ls_account_id l) (lw_idx ?w1) = Some m \<and>
        snd (release_success env now l w) = promote_hot env (m\<lparr>hm_failure_score := of_int fc\<rparr>) ?w1)"
    using s p by (auto simp: release_success_def Let_def split: sum.split option.split)
  then show ?thesis
  proof
    assume "\<exists>m. hot_get (ls_account_id l) (lw_idx ?w1) = Some m \<and>
        snd (release_success env now l w) = promote_hot env (m\<lparr>hm_failure_score := of_int fc\<rparr>) ?w1"
    then obtain m where m: "hot_get (ls_account_id l) (lw_idx ?w1) = Some m"
      and r: "snd (release_success env now l w) = promote_hot env (m\<lparr>hm_failure_score := of_int fc\<rparr>) ?w1" by blast
    have "hot_frame (lw_idx ?w1) (lw_idx (promote_hot env (m\<lparr>hm_failure_score := of_int fc\<rparr>) ?w1))"
      using ok(1) by (intro promote_got_frame [OF assms(1) _ m]) simp_all
    then show ?thesis using r wf ok hot_frame_ok by (auto simp: world_ok_def)
  qed (use wf ok in \<open>simp add: world_ok_def\<close>)
qed

lemma failure_plan_frame:
  assumes "env_ok env" "world_ok w" "failure_plan env now nano l res cur w = Some (p, w')"
  shows "world_ok w' \<and> hot_frame (lw_idx w) (lw_idx w')"
  using assms failure_cooldown_frame [OF assms(1,2)]
  by (auto simp: failure_plan_def Let_def world_ok_def split: if_splits option.splits)

lemma failure_commit_frame:
  assumes "env_ok env" "world_ok w"
  shows "world_ok (snd (failure_commit env now l code fc p w)) \<and>
    hot_frame (lw_idx w) (lw_idx (snd (failure_commit env now l code fc p w)))"
proof -
  let ?w2 = "if clears_sticky (lw_cfg w) code then lease_clear_sticky env l w else w"
  define w3 where "w3 = report_proxy_fail env l code ?w2"
  have w3: "world_ok w3" "lw_idx w3 = lw_idx w"
    using assms clear_sticky_ok [OF assms(1)] by (auto simp: world_ok_def w3_def)
  obtain r cat' where ph: "patch_health (lw_cat w3) now (ls_account_id l) p = (r, cat')" by fastforce
  have wf: "wf_catalog cat'" using wf_patch_health [of "lw_cat w3"] ph w3(1) by (metis snd_conv world_ok_def)
  have out: "snd (failure_commit env now l code fc p w) =
      (case r of Inl e \<Rightarrow> w3\<lparr>lw_cat := cat'\<rparr> | Inr u \<Rightarrow> sync_hot env (ls_account_id l) fc p (w3\<lparr>lw_cat := cat'\<rparr>))"
    unfolding failure_commit_def Let_def w3_def [symmetric] ph by (simp split: sum.split)
  have idx: "idx_ok (lw_idx (w3\<lparr>lw_cat := cat'\<rparr>))" "sticky_ok (sel_sticky (lw_sel w3))"
    using w3(1) by (simp_all add: world_ok_def)
  from sync_hot_frame [OF assms(1) idx(1), of "ls_account_id l" fc p]
  have "hot_frame (lw_idx w) (lw_idx (sync_hot env (ls_account_id l) fc p (w3\<lparr>lw_cat := cat'\<rparr>)))"
    using w3(2) by simp
  then show ?thesis
    using out idx wf w3(2) hot_frame_ok by (cases r) (auto simp: world_ok_def)
qed

lemma release_failure_frame:
  assumes "env_ok env" "world_ok w"
  shows "world_ok (snd (release_failure env now nano l res w)) \<and>
    hot_frame (lw_idx w) (lw_idx (snd (release_failure env now nano l res w)))"
proof (cases "cat_get (lw_cat w) (ls_account_id l)")
  case (Inl e)
  then show ?thesis using assms clear_sticky_ok [OF assms(1), of w l]
    by (cases e) (auto simp: release_failure_def Let_def world_ok_def)
next
  case (Inr cur)
  show ?thesis
  proof (cases "failure_plan env now nano l res cur w")
    case None
    then show ?thesis using Inr assms(2) by (simp add: release_failure_def Let_def world_ok_def)
  next
    case (Some pw)
    obtain p w1 where pw: "pw = (p, w1)" by fastforce
    note w1 = failure_plan_frame [OF assms Some [unfolded pw]]
    have "release_failure env now nano l res w =
        failure_commit env now l (lr_status_code res) (acc_failure_count cur + 1) p w1"
      using Inr Some pw by (simp add: release_failure_def Let_def)
    then show ?thesis
      using w1 failure_commit_frame [OF assms(1)] hot_frame_trans by fastforce
  qed
qed

lemma release_frame:
  assumes "env_ok env" "world_ok w" "ls_account_id l \<noteq> []"
  shows "world_ok (snd (release env cancelled now nano l res w)) \<and>
    hot_frame (hot_leave (ls_account_id l) (lw_idx w)) (lw_idx (snd (release env cancelled now nano l res w)))"
proof -
  let ?w1 = "w\<lparr>lw_idx := snd (sub_inflight (ls_account_id l) (lw_idx w))\<rparr>"
  have "world_ok ?w1" using assms(2) sub_inflight_ok by (simp add: world_ok_def)
  then show ?thesis
    using assms release_success_frame [OF assms(1), of ?w1] release_failure_frame [OF assms(1), of ?w1]
    by (auto simp: release_def Let_def hot_leave_def world_ok_def)
qed

section \<open>What a failure does to the row and to the hot entry\<close>

definition isolates_model :: "lease \<Rightarrow> int \<Rightarrow> bool" where
  "isolates_model l code \<longleftrightarrow> code = 429 \<and> trim_space (ls_model l) \<noteq> []"

definition cools :: "lease \<Rightarrow> int \<Rightarrow> bool" where
  "cools l code \<longleftrightarrow> code \<in> {429, 401, 402, 403} \<and> \<not> isolates_model l code"

definition failed_row :: "lease_config \<Rightarrow> lease \<Rightarrow> int \<Rightarrow> int \<Rightarrow> int \<Rightarrow> account \<Rightarrow> account" where
  "failed_row cfg l code now until a =
     a\<lparr>acc_enabled := (if quarantines cfg code a then False else acc_enabled a),
       acc_lifecycle := (if quarantines cfg code a then LifecycleQuarantined else acc_lifecycle a),
       acc_failure_count := acc_failure_count a + 1,
       acc_cooldown_until := (if cools l code then until else acc_cooldown_until a),
       acc_last_error := failure_text code, acc_last_used_at := Some now,
       acc_consecutive_unauthorized := (if code = 401 then acc_consecutive_unauthorized a + 1
         else acc_consecutive_unauthorized a),
       acc_revision := acc_revision a + 1, acc_updated_at := now\<rparr>"

definition failed_meta :: "lease_config \<Rightarrow> lease \<Rightarrow> int \<Rightarrow> int \<Rightarrow> account \<Rightarrow> hot_meta \<Rightarrow> hot_meta" where
  "failed_meta cfg l code until a m =
     m\<lparr>hm_failure_score := of_int (acc_failure_count a + 1),
       hm_cooldown_until := (if cools l code then until else hm_cooldown_until m),
       hm_enabled := (if quarantines cfg code a then False else hm_enabled m),
       hm_lifecycle := (if quarantines cfg code a then LifecycleQuarantined else hm_lifecycle m)\<rparr>"

lemma quarantines_code: "quarantines cfg code a \<Longrightarrow> code \<in> {401, 402, 403} \<and> cools l code"
  by (auto simp: quarantines_def cools_def isolates_model_def)

lemma patch_health_row:
  assumes "cat_open c" "map_of (cat_rows c) i = Some a" "i \<noteq> []" "apply_patch p a = Inr b"
  shows "patch_health c now i p = (Inr (), c\<lparr>cat_rows := gm_put i
    (b\<lparr>acc_revision := acc_revision a + 1, acc_updated_at := now\<rparr>) (cat_rows c)\<rparr>)"
  using assms by (simp add: patch_health_def cat_get_unlocked_def)

lemma failure_cooldown_patch:
  "fst (failure_cooldown env now l code cur until p w) =
     p\<lparr>hp_cooldown_until := (if isolates_model l code then hp_cooldown_until p else Some until),
       hp_consecutive_unauthorized := (if code = 401 then Some (acc_consecutive_unauthorized cur + 1)
         else hp_consecutive_unauthorized p),
       hp_lifecycle := (if quarantines (lw_cfg w) code cur then Some LifecycleQuarantined else hp_lifecycle p),
       hp_enabled := (if quarantines (lw_cfg w) code cur then Some False else hp_enabled p)\<rparr>"
  by (simp add: failure_cooldown_def Let_def isolates_model_def)

lemma failure_cooldown_cat:
  "cat_rows (lw_cat (snd (failure_cooldown env now l code cur until p w))) = cat_rows (lw_cat w)"
  "cat_open (lw_cat (snd (failure_cooldown env now l code cur until p w))) = cat_open (lw_cat w)"
  "lw_cfg (snd (failure_cooldown env now l code cur until p w)) = lw_cfg w"
  by (simp_all add: failure_cooldown_def Let_def)

definition failure_patch :: "lease_config \<Rightarrow> lease \<Rightarrow> int \<Rightarrow> int \<Rightarrow> int \<Rightarrow> account \<Rightarrow> health_patch" where
  "failure_patch cfg l code now until a = no_patch\<lparr>hp_failure_count := Some (acc_failure_count a + 1),
     hp_last_used_at := Some now, hp_last_error := Some (failure_text code),
     hp_cooldown_until := (if cools l code then Some until else None),
     hp_consecutive_unauthorized :=
       (if code = 401 then Some (acc_consecutive_unauthorized a + 1) else None),
     hp_lifecycle := (if quarantines cfg code a then Some LifecycleQuarantined else None),
     hp_enabled := (if quarantines cfg code a then Some False else None)\<rparr>"

text \<open>The deadline of a failure: None when computing the cooldown panics.\<close>

definition failure_until ::
  "('r, 'p) lease_env \<Rightarrow> lease_config \<Rightarrow> int \<Rightarrow> int \<Rightarrow> lease_result \<Rightarrow> account \<Rightarrow> int option" where
  "failure_until env cfg now nano res a =
     (if lr_status_code res \<in> {429, 401, 402, 403}
      then map_option (\<lambda>sec. wrap64 (now + sec)) (cooldown_seconds (le_int63n env) cfg nano
             (lr_status_code res) (lr_retry_after res) (acc_failure_count a + 1))
      else Some 0)"

lemma failure_plan_spec:
  assumes "failure_until env (lw_cfg w) now nano res cur = Some until"
  obtains w1 where "failure_plan env now nano l res cur w =
      Some (failure_patch (lw_cfg w) l (lr_status_code res) now until cur, w1)"
    "cat_rows (lw_cat w1) = cat_rows (lw_cat w)" "cat_open (lw_cat w1) = cat_open (lw_cat w)"
    "lw_cfg w1 = lw_cfg w"
    "w1 = (if lr_status_code res \<in> {429, 401, 402, 403}
      then snd (failure_cooldown env now l (lr_status_code res) cur until
        (no_patch\<lparr>hp_failure_count := Some (acc_failure_count cur + 1), hp_last_used_at := Some now,
                 hp_last_error := Some (failure_text (lr_status_code res))\<rparr>) w) else w)"
proof (cases "lr_status_code res \<in> {429, 401, 402, 403}")
  case True
  let ?p0 = "no_patch\<lparr>hp_failure_count := Some (acc_failure_count cur + 1), hp_last_used_at := Some now,
                 hp_last_error := Some (failure_text (lr_status_code res))\<rparr>"
  let ?fc = "failure_cooldown env now l (lr_status_code res) cur until ?p0 w"
  have plan: "failure_plan env now nano l res cur w = Some ?fc"
    using assms True by (auto simp: failure_plan_def failure_until_def Let_def)
  have "fst ?fc = failure_patch (lw_cfg w) l (lr_status_code res) now until cur"
    using True by (simp add: failure_cooldown_patch failure_patch_def cools_def no_patch_def)
  then show ?thesis
    using True plan by (intro that [of "snd ?fc"]) (auto simp: failure_cooldown_cat prod_eq_iff)
next
  case False
  then have "\<not> quarantines (lw_cfg w) (lr_status_code res) cur" using quarantines_code by blast
  then show ?thesis
    using False by (intro that [of w]) (auto simp: failure_plan_def Let_def failure_patch_def cools_def no_patch_def)
qed

lemma apply_failure_patch:
  "\<exists>b. apply_patch (failure_patch cfg l code now until a) a = Inr b \<and>
     b\<lparr>acc_revision := acc_revision a + 1, acc_updated_at := now\<rparr> = failed_row cfg l code now until a"
  by (simp add: apply_patch_def failure_patch_def no_patch_def failed_row_def Let_def LifecycleQuarantined_def)

lemma release_failure_row:
  assumes "cat_open (lw_cat w)" "map_of (cat_rows (lw_cat w)) (ls_account_id l) = Some a"
    "ls_account_id l \<noteq> []" "failure_until env (lw_cfg w) now nano res a = Some until"
  shows "fst (release_failure env now nano l res w) = None \<and>
    map_of (cat_rows (lw_cat (snd (release_failure env now nano l res w)))) =
      (map_of (cat_rows (lw_cat w)))(ls_account_id l \<mapsto>
        failed_row (lw_cfg w) l (lr_status_code res) now until a)"
proof -
  let ?code = "lr_status_code res"
  obtain w1 where w1: "failure_plan env now nano l res a w = Some (failure_patch (lw_cfg w) l ?code now until a, w1)"
    "cat_rows (lw_cat w1) = cat_rows (lw_cat w)" "cat_open (lw_cat w1) = cat_open (lw_cat w)" "lw_cfg w1 = lw_cfg w"
    by (rule failure_plan_spec [OF assms(4)])
  have get: "cat_get (lw_cat w) (ls_account_id l) = Inr a"
    using assms(1-3) by (simp add: cat_get_def cat_get_unlocked_def)
  then have r: "release_failure env now nano l res w = failure_commit env now l ?code (acc_failure_count a + 1)
      (failure_patch (lw_cfg w) l ?code now until a) w1"
    using w1(1) by (simp add: release_failure_def Let_def)
  define w3 where "w3 = report_proxy_fail env l ?code
      (if clears_sticky (lw_cfg w1) ?code then lease_clear_sticky env l w1 else w1)"
  have cat: "lw_cat w3 = lw_cat w1" by (simp add: w3_def)
  obtain b where b: "apply_patch (failure_patch (lw_cfg w) l ?code now until a) a = Inr b"
    "b\<lparr>acc_revision := acc_revision a + 1, acc_updated_at := now\<rparr> = failed_row (lw_cfg w) l ?code now until a"
    using apply_failure_patch by blast
  have "patch_health (lw_cat w3) now (ls_account_id l) (failure_patch (lw_cfg w) l ?code now until a) =
      (Inr (), (lw_cat w3)\<lparr>cat_rows := gm_put (ls_account_id l) (failed_row (lw_cfg w) l ?code now until a)
        (cat_rows (lw_cat w3))\<rparr>)"
    using patch_health_row [OF _ _ assms(3) b(1)] b(2) assms(1,2) w1(2,3) cat by simp
  then show ?thesis
    unfolding r failure_commit_def Let_def w3_def [symmetric] using cat w1(2) by simp
qed

lemma promote_hot_map:
  assumes "\<not> hi_closed (lw_idx w)" "map_of (hi_hot (lw_idx w)) i = Some m0" "hm_id m = i" "i \<noteq> []"
  shows "map_of (hi_hot (lw_idx (promote_hot env m w))) =
      (map_of (hi_hot (lw_idx w)))(i \<mapsto> m\<lparr>hm_inflight := hm_inflight m0\<rparr>)"
    and "\<not> hi_closed (lw_idx (promote_hot env m w))"
  using assms by (auto simp: promote_hot_def promote_def)

lemma sync_hot_map:
  assumes "\<not> hi_closed (lw_idx w)" "map_of (hi_hot (lw_idx w)) i = Some m" "hm_id m = i" "i \<noteq> []"
  shows "map_of (hi_hot (lw_idx (sync_hot env i fc p w))) = (map_of (hi_hot (lw_idx w)))(i \<mapsto>
    m\<lparr>hm_failure_score := of_int fc,
      hm_cooldown_until := (case hp_cooldown_until p of None \<Rightarrow> hm_cooldown_until m | Some v \<Rightarrow> v),
      hm_enabled := (case hp_enabled p of None \<Rightarrow> hm_enabled m | Some v \<Rightarrow> v),
      hm_lifecycle := (case hp_lifecycle p of None \<Rightarrow> hm_lifecycle m | Some v \<Rightarrow> v)\<rparr>)"
  using promote_hot_map(1) [OF assms(1,2) _ assms(4)] assms(2,3) by (simp add: sync_hot_def hot_get_def)

lemma failure_cooldown_hot:
  assumes "\<not> hi_closed (lw_idx w)" "map_of (hi_hot (lw_idx w)) (ls_account_id l) = Some m"
    "hm_id m = ls_account_id l" "ls_account_id l \<noteq> []"
    "snd (failure_cooldown env now l code cur until p w) = w1" "code \<in> {429, 401, 402, 403}"
  shows "\<not> hi_closed (lw_idx w1) \<and> (\<exists>m1. hm_id m1 = ls_account_id l \<and>
      map_of (hi_hot (lw_idx w1)) = (map_of (hi_hot (lw_idx w)))(ls_account_id l \<mapsto> m1) \<and>
      (\<exists>e u lcy. m1 = m\<lparr>hm_cooldown_until := u, hm_enabled := e, hm_lifecycle := lcy\<rparr> \<and>
        (\<not> cools l code \<longrightarrow> u = hm_cooldown_until m) \<and>
        (\<not> quarantines (lw_cfg w) code cur \<longrightarrow> e = hm_enabled m \<and> lcy = hm_lifecycle m)))"
proof -
  let ?i = "ls_account_id l"
  let ?x = "lw_idx w"
  let ?v = "if isolates_model l code then set_model_cooldown_err now ?i (ls_model l) until (failure_text code) w
             else w\<lparr>lw_idx := snd (set_cooldown ?i until ?x)\<rparr>"
  let ?m = "if isolates_model l code then m else m\<lparr>hm_cooldown_until := until\<rparr>"
  have v: "\<not> hi_closed (lw_idx ?v)" "map_of (hi_hot (lw_idx ?v)) = (map_of (hi_hot ?x))(?i \<mapsto> ?m)"
    using assms(1,2,4) by (auto simp: set_cooldown_def hot_modify_def fun_upd_idem)
  have w1: "w1 = (if quarantines (lw_cfg w) code cur then quarantine_hot env ?i until ?v else ?v)"
    using assms(5) unfolding failure_cooldown_def Let_def isolates_model_def by (auto split: if_split)
  have iso: "cools l code \<longleftrightarrow> \<not> isolates_model l code" using assms(6) by (simp add: cools_def)
  show ?thesis
  proof (cases "quarantines (lw_cfg w) code cur")
    case False
    then have w: "w1 = ?v" using w1 by simp
    have "?m = m\<lparr>hm_cooldown_until := if isolates_model l code then hm_cooldown_until m else until,
        hm_enabled := hm_enabled m, hm_lifecycle := hm_lifecycle m\<rparr>" by simp
    moreover have "hm_id ?m = ?i" using assms(3) by simp
    ultimately show ?thesis unfolding w using v iso by (intro conjI exI [of _ ?m]) (auto intro!: exI)
  next
    case True
    let ?q = "m\<lparr>hm_cooldown_until := until, hm_enabled := False, hm_lifecycle := LifecycleQuarantined\<rparr>"
    have q: "?m\<lparr>hm_enabled := False, hm_lifecycle := LifecycleQuarantined, hm_cooldown_until := until,
        hm_inflight := hm_inflight ?m\<rparr> = ?q" by (cases m) simp
    have c: "cools l code" using quarantines_code [OF True] by simp
    have m: "map_of (hi_hot (lw_idx ?v)) ?i = Some ?m" by (simp only: v(2) fun_upd_same)
    have "w1 = promote_hot env (?m\<lparr>hm_enabled := False, hm_lifecycle := LifecycleQuarantined,
        hm_cooldown_until := until\<rparr>) ?v"
      using w1 True m by (simp only: quarantine_hot_def hot_get_def if_True option.case)
    moreover have "hm_id (?m\<lparr>hm_enabled := False, hm_lifecycle := LifecycleQuarantined,
        hm_cooldown_until := until\<rparr>) = ?i" using assms(3) by simp
    ultimately have "map_of (hi_hot (lw_idx w1)) = (map_of (hi_hot ?x))(?i \<mapsto> ?q)" "\<not> hi_closed (lw_idx w1)"
      using promote_hot_map [OF v(1) m _ assms(4), of _ env] v(2) q by (simp_all only: fun_upd_upd not_False_eq_True)
    then show ?thesis using assms(3) True c
      by (intro conjI exI [of _ ?q] exI [of _ False] exI [of _ until] exI [of _ LifecycleQuarantined]) simp_all
  qed
qed

lemma release_failure_hot:
  assumes "cat_open (lw_cat w)" "map_of (cat_rows (lw_cat w)) (ls_account_id l) = Some a"
    "ls_account_id l \<noteq> []" "failure_until env (lw_cfg w) now nano res a = Some until"
    "\<not> hi_closed (lw_idx w)" "map_of (hi_hot (lw_idx w)) (ls_account_id l) = Some m" "hm_id m = ls_account_id l"
  shows "map_of (hi_hot (lw_idx (snd (release_failure env now nano l res w)))) =
    (map_of (hi_hot (lw_idx w)))(ls_account_id l \<mapsto> failed_meta (lw_cfg w) l (lr_status_code res) until a m)"
proof -
  let ?code = "lr_status_code res" and ?i = "ls_account_id l"
  let ?p = "failure_patch (lw_cfg w) l ?code now until a"
  obtain w1 where w1: "failure_plan env now nano l res a w = Some (?p, w1)"
    "cat_rows (lw_cat w1) = cat_rows (lw_cat w)" "cat_open (lw_cat w1) = cat_open (lw_cat w)" "lw_cfg w1 = lw_cfg w"
    "w1 = (if ?code \<in> {429, 401, 402, 403}
      then snd (failure_cooldown env now l ?code a until
        (no_patch\<lparr>hp_failure_count := Some (acc_failure_count a + 1), hp_last_used_at := Some now,
                 hp_last_error := Some (failure_text ?code)\<rparr>) w) else w)"
    by (rule failure_plan_spec [OF assms(4)])
  obtain m1 e u lcy where m1: "\<not> hi_closed (lw_idx w1)" "hm_id m1 = ?i"
    "map_of (hi_hot (lw_idx w1)) = (map_of (hi_hot (lw_idx w)))(?i \<mapsto> m1)"
    "m1 = m\<lparr>hm_cooldown_until := u, hm_enabled := e, hm_lifecycle := lcy\<rparr>"
    "\<not> cools l ?code \<longrightarrow> u = hm_cooldown_until m"
    "\<not> quarantines (lw_cfg w) ?code a \<longrightarrow> e = hm_enabled m \<and> lcy = hm_lifecycle m"
  proof (cases "?code \<in> {429, 401, 402, 403}")
    case True
    have "snd (failure_cooldown env now l ?code a until
        (no_patch\<lparr>hp_failure_count := Some (acc_failure_count a + 1), hp_last_used_at := Some now,
                 hp_last_error := Some (failure_text ?code)\<rparr>) w) = w1"
      using w1(5) True by (simp only: if_True)
    from failure_cooldown_hot [OF assms(5-7) assms(3) this True] obtain m1 e u lcy where
      "\<not> hi_closed (lw_idx w1)" "hm_id m1 = ?i"
      "map_of (hi_hot (lw_idx w1)) = (map_of (hi_hot (lw_idx w)))(?i \<mapsto> m1)"
      "m1 = m\<lparr>hm_cooldown_until := u, hm_enabled := e, hm_lifecycle := lcy\<rparr>"
      "\<not> cools l ?code \<longrightarrow> u = hm_cooldown_until m"
      "\<not> quarantines (lw_cfg w) ?code a \<longrightarrow> e = hm_enabled m \<and> lcy = hm_lifecycle m"
      by (elim exE conjE)
    then show ?thesis by (rule that)
  next
    case False
    then have "w1 = w" using w1(5) by simp
    show ?thesis
    proof (rule that)
      show "\<not> hi_closed (lw_idx w1)" using \<open>w1 = w\<close> assms(5) by simp
      show "hm_id m = ?i" by (rule assms(7))
      show "map_of (hi_hot (lw_idx w1)) = (map_of (hi_hot (lw_idx w)))(?i \<mapsto> m)"
        using \<open>w1 = w\<close> assms(6) by (simp add: fun_upd_idem)
      show "m = m\<lparr>hm_cooldown_until := hm_cooldown_until m, hm_enabled := hm_enabled m,
          hm_lifecycle := hm_lifecycle m\<rparr>" by simp
    qed simp_all
  qed
  have get: "cat_get (lw_cat w) ?i = Inr a"
    using assms(1-3) by (simp add: cat_get_def cat_get_unlocked_def)
  then have r: "release_failure env now nano l res w = failure_commit env now l ?code (acc_failure_count a + 1) ?p w1"
    using w1(1) by (simp add: release_failure_def Let_def)
  define w3 where "w3 = report_proxy_fail env l ?code
      (if clears_sticky (lw_cfg w1) ?code then lease_clear_sticky env l w1 else w1)"
  have w3: "lw_cat w3 = lw_cat w1" "lw_idx w3 = lw_idx w1" by (simp_all add: w3_def)
  obtain b where "apply_patch ?p a = Inr b" using apply_failure_patch by blast
  from patch_health_row [OF _ _ assms(3) this, of "lw_cat w3" now] assms(1,2) w1(2,3) w3
  obtain c' where "patch_health (lw_cat w3) now ?i ?p = (Inr (), c')" by auto
  then have "lw_idx (snd (release_failure env now nano l res w)) =
      lw_idx (sync_hot env ?i (acc_failure_count a + 1) ?p (w3\<lparr>lw_cat := c'\<rparr>))"
    unfolding r failure_commit_def Let_def w3_def [symmetric] by simp
  moreover have "map_of (hi_hot (lw_idx (sync_hot env ?i (acc_failure_count a + 1) ?p (w3\<lparr>lw_cat := c'\<rparr>)))) =
      (map_of (hi_hot (lw_idx w)))(?i \<mapsto> failed_meta (lw_cfg w) l ?code until a m)"
    using sync_hot_map [of "w3\<lparr>lw_cat := c'\<rparr>" ?i m1 env "acc_failure_count a + 1" ?p] m1 w3 assms(3)
    by (auto simp: failure_patch_def no_patch_def failed_meta_def)
  ultimately show ?thesis by simp
qed

section \<open>Cooldown bounds\<close>

definition int63n_ok :: "(int \<Rightarrow> int \<Rightarrow> int) \<Rightarrow> bool" where
  "int63n_ok f \<longleftrightarrow> (\<forall>seed n. 0 < n \<longrightarrow> 0 \<le> f seed n \<and> f seed n < n)"

lemma cooldown_clamp_range: "1 \<le> cooldown_clamp cfg s" "cooldown_clamp cfg s \<le> max 1 (lc_cooldown_cap_sec cfg)"
  by (auto simp: cooldown_clamp_def Let_def)

lemma sdiv_pos: "0 \<le> (a :: int) \<Longrightarrow> a sdiv 100 = a div 100"
  by (cases "a = 0") (auto simp: signed_divide_int_def sgn_if)

lemma cooldown_jitter_range:
  assumes "int63n_ok f" "1 \<le> sec" "sec \<le> 2 ^ 50" "0 \<le> lc_cooldown_jitter_pct cfg"
    "lc_cooldown_jitter_pct cfg \<le> 100"
  defines "d \<equiv> sec * lc_cooldown_jitter_pct cfg div 100"
  shows "max 1 (sec - d) \<le> cooldown_jitter f cfg nano fc sec" "cooldown_jitter f cfg nano fc sec \<le> sec + d"
proof -
  have m: "0 \<le> sec * lc_cooldown_jitter_pct cfg" "sec * lc_cooldown_jitter_pct cfg \<le> 2 ^ 50 * 100"
    using assms(2-5) by (simp, intro mult_mono) auto
  then have w: "wrap64 (sec * lc_cooldown_jitter_pct cfg) sdiv 100 = d" by (simp add: sdiv_pos d_def)
  have d: "0 \<le> d" "d \<le> 2 ^ 50" using m by (auto simp: d_def)
  have r: "0 \<le> f s (wrap64 (2 * d + 1)) \<and> f s (wrap64 (2 * d + 1)) < 2 * d + 1" for s
  proof -
    have "wrap64 (2 * d + 1) = 2 * d + 1" using d by simp
    moreover have "0 < 2 * d + 1" using d by linarith
    ultimately show ?thesis using assms(1) unfolding int63n_ok_def by metis
  qed
  have small: "wrap64 (sec - d + x) = sec - d + x" if "0 \<le> x" "x < 2 * d + 1" for x
    using that d assms(2,3) by (intro wrap64_small) simp_all
  have "wrap64 (sec - d + f s (wrap64 (2 * d + 1))) = sec - d + f s (wrap64 (2 * d + 1))" for s
    using r [of s] by (intro small) (rule conjunct1, assumption, rule conjunct2)
  then show "max 1 (sec - d) \<le> cooldown_jitter f cfg nano fc sec" "cooldown_jitter f cfg nano fc sec \<le> sec + d"
    using r [of "wrap64 (nano + fc * 31 + sec)"] d assms(2)
    by (auto simp: cooldown_jitter_def w Let_def)
qed

lemma cooldown_seconds_range:
  assumes "int63n_ok f" "lc_cooldown_cap_sec cfg \<le> 2 ^ 50" "0 \<le> lc_cooldown_jitter_pct cfg"
    "lc_cooldown_jitter_pct cfg \<le> 100" "cooldown_seconds f cfg nano code ra fc = Some sec"
  defines "cap \<equiv> max 1 (lc_cooldown_cap_sec cfg)"
  shows "1 \<le> sec \<and> sec \<le> cap + cap * lc_cooldown_jitter_pct cfg div 100"
proof -
  obtain b where b: "sec = cooldown_jitter f cfg nano fc (cooldown_clamp cfg b)"
    using assms(5) by (auto simp: cooldown_seconds_def)
  let ?s = "cooldown_clamp cfg b"
  have s: "1 \<le> ?s" "?s \<le> cap" "?s \<le> 2 ^ 50"
    using cooldown_clamp_range [of cfg b] assms(2) by (auto simp: cap_def)
  have "?s * lc_cooldown_jitter_pct cfg div 100 \<le> cap * lc_cooldown_jitter_pct cfg div 100"
    using s assms(3) by (intro zdiv_mono1 mult_right_mono) auto
  then show ?thesis
    using cooldown_jitter_range [OF assms(1) s(1,3) assms(3,4), of nano fc] s b by linarith
qed

end
