(* ===== verification/LeaseProps.thy ===== *)
theory LeaseProps
  imports Lease
begin

text \<open>
  What the lease manager guarantees: the meaning of a granted lease, the exactness of the
  in-flight counts over interleaved requests, the effect of a failure on the row and the hot
  entry, and the bounds of the cooldown times.
\<close>

section \<open>A sample process\<close>

definition sample_env :: "(nat, unit) lease_env" where
  "sample_env = \<lparr>le_rand = sample_rand, le_metas = (\<lambda>xs. xs), le_entries = rev, le_keys = rev,
     le_assign = None, le_report = None, le_int63n = (\<lambda>s n. s mod n)\<rparr>"

definition sample_world :: "(nat, unit) lease_world" where
  "sample_world = \<lparr>lw_cat = sample_catalog, lw_idx = sample_index, lw_sel = sample_selector,
     lw_cfg = lease_default_config, lw_model_cool = [], lw_require_proxy = False, lw_pool = ()\<rparr>"

definition sample_lease :: lease where
  "sample_lease = \<lparr>ls_account_id = ''b'', ls_revision = 1, ls_access_token = ''at'', ls_proxy_url = [],
     ls_proxy_mode = [], ls_sticky_key = ''k'', ls_model = ''m'', ls_attempt = 1\<rparr>"

lemma sample_env_ok: "env_ok sample_env"
  by (simp add: env_ok_def sample_env_def sample_rand_ok iteration_order_rev iteration_order_id)

lemma sample_world_ok: "world_ok sample_world"
  using wf_cat_steps [OF sample_catalog_steps wf_empty]
  by (simp add: world_ok_def sample_world_def sample_index_ok sample_selector_def sticky_put_ok new_sticky_ok)

lemma sample_acquire:
  "acquire sample_env (\<lambda>k. 20) (\<lambda>k. False) ''k'' ''m'' sample_world =
    (Inr sample_lease, snd (acquire sample_env (\<lambda>k. 20) (\<lambda>k. False) ''k'' ''m'' sample_world))"
proof -
  have "fst (acquire sample_env (\<lambda>k. 20) (\<lambda>k. False) ''k'' ''m'' sample_world) = Inr sample_lease"
    by code_simp
  then show ?thesis by (metis prod.collapse)
qed

lemma sample_inflight: "inflight_of (lw_idx sample_world) i = 0"
proof -
  have "hi_hot (lw_idx sample_world) = [(''a'', sample_meta ''a'' 1), (''b'', sample_meta ''b'' 2)]" by code_simp
  then show ?thesis by (simp add: inflight_of_def sample_meta_def eligible_meta_def)
qed

section \<open>Acquire and release\<close>

lemma granted_ready:
  assumes "granted now model l x w'"
  obtains y where "hot_frame x y" "hot_ready y" "hot_enter (ls_account_id l) y = (True, lw_idx w')"
proof -
  obtain y where y: "hot_frame x y" "hot_enter (ls_account_id l) y = (True, lw_idx w')"
    using assms by (auto simp: granted_def)
  have "\<not> hi_closed y" using y(2) by (auto simp: hot_enter_def add_inflight_def hot_modify_def split: if_splits)
  then show ?thesis using y that by (auto simp: hot_frame_def hot_ready_def)
qed

lemma hot_modify_max: "hi_max_inflight (snd (hot_modify i f x)) = hi_max_inflight x"
  by (auto simp: hot_modify_def split: option.split)

lemma granted_max: "granted now model l x w' \<Longrightarrow> hi_max_inflight (lw_idx w') = hi_max_inflight x"
  by (elim granted_ready) (auto simp: hot_frame_def hot_enter_def add_inflight_def split_beta Let_def hot_modify_max dest: sym)

lemma granted_inflight:
  assumes "granted now model l x w'" "0 \<le> inflight_of x (ls_account_id l)"
    "inflight_of x (ls_account_id l) < 2 ^ 31 - 1"
  shows "inflight_of (lw_idx w') j = (if j = ls_account_id l then inflight_of x j + 1 else inflight_of x j)"
    and "hot_ready (lw_idx w')"
proof -
  obtain y where y: "hot_frame x y" "hot_ready y" "hot_enter (ls_account_id l) y = (True, lw_idx w')"
    using granted_ready [OF assms(1)] .
  show "inflight_of (lw_idx w') j = (if j = ls_account_id l then inflight_of x j + 1 else inflight_of x j)"
    using hot_enter_count [OF y(3)] assms(2,3) y(1) by (simp add: hot_frame_def)
  show "hot_ready (lw_idx w')" by (rule hot_enter_ready [OF y(2,3)])
qed

lemma release_spec:
  assumes "env_ok env" "world_ok w" "ls_account_id l \<noteq> []" "hot_ready (lw_idx w)"
  shows "world_ok (snd (release env gone now nano l res w)) \<and>
    hot_ready (lw_idx (snd (release env gone now nano l res w))) \<and>
    inflight_of (lw_idx (snd (release env gone now nano l res w))) = inflight_of (hot_leave (ls_account_id l) (lw_idx w)) \<and>
    hi_max_inflight (lw_idx (snd (release env gone now nano l res w))) = hi_max_inflight (lw_idx w)"
  using release_frame [OF assms(1-3), of gone now nano res] hot_leave_ready [OF assms(4), of "ls_account_id l"]
  by (auto simp: hot_frame_def hot_ready_def hot_leave_def sub_inflight_def hot_modify_max)

lemma acquire_spec:
  assumes "env_ok env" "world_ok w" "acquire env clk cancelled sticky model w = (r, w')"
  shows "world_ok w' \<and> lw_require_proxy w' = lw_require_proxy w \<and>
    (case r of Inl e \<Rightarrow> hot_frame (lw_idx w) (lw_idx w')
     | Inr l \<Rightarrow> under_cap (lw_idx w) (ls_account_id l) \<and>
        (\<exists>k. 1 \<le> k \<and> k \<le> nat (lc_max_attempts (lw_cfg w)) \<and> \<not> cancelled k \<and>
          granted (clk k) model l (lw_idx w) w'))"
proof -
  obtain tried where "acquire_loop env clk cancelled sticky model (nat (lc_max_attempts (lw_cfg w))) 1 None [] w =
      (r, tried, w')"
    using assms(3) by (auto simp: acquire_def split: prod.splits)
  from acquire_loop_spec [OF assms(1,2) _ this] show ?thesis by (auto split: sum.split)
qed

lemma under_cap_hot: "under_cap x i \<Longrightarrow> idx_ok x \<Longrightarrow> i \<noteq> []"
  using idx_coreD(4) [OF idx_okD] by (auto simp: under_cap_def)

section \<open>Interleavings\<close>

text \<open>
  The manager is a gate: an attempt is an \<open>Acquire\<close> with its clock readings, context, sticky
  key and model, the ticket is the lease, and giving it back is a \<open>Release\<close> with its context,
  clock readings and outcome.
\<close>

definition lease_ready :: "('r, 'p) lease_env \<Rightarrow> int \<Rightarrow> ('r, 'p) lease_world \<Rightarrow> bool" where
  "lease_ready env mx w \<longleftrightarrow> env_ok env \<and> world_ok w \<and> \<not> hi_closed (lw_idx w) \<and> hi_max_inflight (lw_idx w) = mx"

text \<open>The cap per account of the hot index; a value that is not positive is no cap.\<close>

definition account_cap :: "int \<Rightarrow> int" where
  "account_cap mx = (if 0 < mx then mx else 2 ^ 31 - 1)"

definition world_inflight :: "('r, 'p) lease_world \<Rightarrow> string \<Rightarrow> int" where
  "world_inflight w = inflight_of (lw_idx w)"

definition lease_attempt ::
  "('r, 'p) lease_env \<Rightarrow> (nat \<Rightarrow> int) \<times> (nat \<Rightarrow> bool) \<times> string \<times> string \<Rightarrow> ('r, 'p) lease_world
   \<Rightarrow> lease option \<times> ('r, 'p) lease_world" where
  "lease_attempt env = (\<lambda>(clk, cancelled, sticky, model) w.
     case acquire env clk cancelled sticky model w of (Inl e, w') \<Rightarrow> (None, w') | (Inr l, w') \<Rightarrow> (Some l, w'))"

definition lease_give_back ::
  "('r, 'p) lease_env \<Rightarrow> bool \<times> int \<times> int \<times> lease_result \<Rightarrow> lease \<Rightarrow> ('r, 'p) lease_world \<Rightarrow> ('r, 'p) lease_world" where
  "lease_give_back env = (\<lambda>(gone, now, nano, res) l w. snd (release env gone now nano l res w))"

definition lease_valid :: "lease \<Rightarrow> bool" where "lease_valid l \<longleftrightarrow> ls_account_id l \<noteq> []"

lemma lease_ready_iff:
  "lease_ready env mx w \<longleftrightarrow> env_ok env \<and> world_ok w \<and> hot_ready (lw_idx w) \<and> hi_max_inflight (lw_idx w) = mx"
  by (auto simp: lease_ready_def hot_ready_def world_ok_def)

lemma granted_step:
  assumes "lease_ready env mx w" "\<And>j. 0 \<le> world_inflight w j \<and> world_inflight w j < 2 ^ 31 - 1"
    "granted now model l (lw_idx w) w'" "under_cap (lw_idx w) (ls_account_id l)" "world_ok w'"
  shows "lease_ready env mx w' \<and> lease_valid l \<and>
    world_inflight w' = (world_inflight w)(ls_account_id l := world_inflight w (ls_account_id l) + 1) \<and>
    world_inflight w' (ls_account_id l) \<le> account_cap mx"
proof -
  have env: "env_ok env" and ok: "world_ok w" and rdy: "hot_ready (lw_idx w)" "hi_max_inflight (lw_idx w) = mx"
    using assms(1) by (simp_all add: lease_ready_iff)
  have "0 \<le> inflight_of (lw_idx w) (ls_account_id l)" "inflight_of (lw_idx w) (ls_account_id l) < 2 ^ 31 - 1"
    using assms(2) [of "ls_account_id l"] by (simp_all add: world_inflight_def)
  note gi = granted_inflight [OF assms(3) this]
  have "ls_account_id l \<noteq> []" using under_cap_hot [OF assms(4)] ok by (simp add: world_ok_def)
  moreover have "hi_max_inflight (lw_idx w') = mx" using granted_max [OF assms(3)] rdy(2) by simp
  ultimately show ?thesis
    using gi assms(4,5) env rdy(2) assms(2) [of "ls_account_id l"]
    by (auto simp: lease_ready_iff lease_valid_def world_inflight_def under_cap_def account_cap_def)
qed

lemma hot_frame_step:
  assumes "lease_ready env mx w" "hot_frame (lw_idx w) (lw_idx w')" "world_ok w'"
  shows "lease_ready env mx w' \<and> world_inflight w' = world_inflight w"
  using assms by (auto simp: lease_ready_iff hot_ready_def hot_frame_def world_inflight_def)

lemma lease_attempt_granted:
  assumes "lease_ready env mx w" "\<And>j. 0 \<le> world_inflight w j \<and> world_inflight w j < 2 ^ 31 - 1"
    "lease_attempt env a w = (Some l, w')"
  shows "lease_ready env mx w' \<and> lease_valid l \<and>
    world_inflight w' = (world_inflight w)(ls_account_id l := world_inflight w (ls_account_id l) + 1) \<and>
    world_inflight w' (ls_account_id l) \<le> account_cap mx"
proof -
  obtain clk cancelled sticky model where a: "a = (clk, cancelled, sticky, model)" by (cases a)
  have env: "env_ok env" and ok: "world_ok w" using assms(1) by (simp_all add: lease_ready_iff)
  have "acquire env clk cancelled sticky model w = (Inr l, w')"
    using assms(3) by (auto simp: lease_attempt_def a split: prod.splits sum.splits)
  from acquire_spec [OF env ok this] obtain k where g: "granted (clk k) model l (lw_idx w) w'"
    and c: "under_cap (lw_idx w) (ls_account_id l)" and w': "world_ok w'" by auto
  show ?thesis by (rule granted_step [OF assms(1,2) g c w'])
qed

lemma lease_attempt_refused:
  assumes "lease_ready env mx w" "lease_attempt env a w = (None, w')"
  shows "lease_ready env mx w' \<and> world_inflight w' = world_inflight w"
proof -
  obtain clk cancelled sticky model where a: "a = (clk, cancelled, sticky, model)" by (cases a)
  have env: "env_ok env" and ok: "world_ok w" using assms(1) by (simp_all add: lease_ready_iff)
  obtain e where "acquire env clk cancelled sticky model w = (Inl e, w')"
    using assms(2) by (auto simp: lease_attempt_def a split: prod.splits sum.splits)
  from acquire_spec [OF env ok this] show ?thesis using hot_frame_step [OF assms(1)] by simp
qed

lemma lease_give_back_ok:
  assumes "lease_ready env mx w" "lease_valid l" "0 < world_inflight w (ls_account_id l)"
  shows "lease_ready env mx (lease_give_back env b l w) \<and>
    world_inflight (lease_give_back env b l w) = (world_inflight w)(ls_account_id l := world_inflight w (ls_account_id l) - 1)"
proof -
  obtain gone now nano res where b: "b = (gone, now, nano, res)" by (cases b)
  have rdy: "env_ok env" "world_ok w" "hot_ready (lw_idx w)" "ls_account_id l \<noteq> []" "hi_max_inflight (lw_idx w) = mx"
    using assms(1,2) by (simp_all add: lease_ready_iff lease_valid_def)
  show ?thesis
    using release_spec [OF rdy(1,2,4,3), of gone now nano res] hot_leave_count [OF rdy(3), of "ls_account_id l"] assms(3) rdy(1,5)
    by (auto simp: lease_ready_iff lease_give_back_def b world_inflight_def)
qed

interpretation lease_gate: capped_gate "lease_ready env mx" world_inflight ls_account_id lease_valid
  "lease_attempt env" "lease_give_back env" "2 ^ 31 - 1" "\<lambda>i. account_cap mx" for env mx
  by unfold_locales (use lease_attempt_granted lease_attempt_refused lease_give_back_ok in blast)+

section \<open>Properties\<close>

text \<open>
  C11. A lease that \<open>Acquire\<close> returns is sound, whichever of the attempts got it: it was not
  cancelled, the account's row was usable at the clock of that attempt and the lease carries
  its token, the model was not cooling down on it, there is a proxy when one is required, the
  account was hot and under its in-flight cap, and exactly its in-flight count went up by one.
\<close>

theorem acquire_grants:
  assumes "env_ok env" "world_ok w" "acquire env clk cancelled sticky model w = (Inr l, w')"
    and "\<And>i. 0 \<le> inflight_of (lw_idx w) i \<and> inflight_of (lw_idx w) i < 2 ^ 31 - 1"
  shows "\<exists>k a. 1 \<le> k \<and> k \<le> nat (lc_max_attempts (lw_cfg w)) \<and> \<not> cancelled k \<and>
    map_of (cat_rows (lw_cat w')) (ls_account_id l) = Some a \<and> account_usable a (clk k) \<and>
    ls_access_token l = acc_access_token a \<and>
    (model = [] \<or> model_cooldown_until (ls_account_id l) model w' \<le> max 0 (clk k)) \<and>
    (ls_proxy_url l \<noteq> [] \<or> \<not> lw_require_proxy w) \<and> under_cap (lw_idx w) (ls_account_id l) \<and>
    inflight_of (lw_idx w') = (inflight_of (lw_idx w))
      (ls_account_id l := inflight_of (lw_idx w) (ls_account_id l) + 1)"
proof -
  from acquire_spec [OF assms(1-3)] obtain k where k: "1 \<le> k" "k \<le> nat (lc_max_attempts (lw_cfg w))"
    "\<not> cancelled k" and g: "granted (clk k) model l (lw_idx w) w'"
    and c: "under_cap (lw_idx w) (ls_account_id l)" and p: "lw_require_proxy w' = lw_require_proxy w" by auto
  have "inflight_of (lw_idx w') = (inflight_of (lw_idx w))
      (ls_account_id l := inflight_of (lw_idx w) (ls_account_id l) + 1)"
    using granted_inflight [OF g] assms(4) by (auto simp: fun_eq_iff)
  with g c k p show ?thesis by (auto simp: granted_def)
qed

theorem acquire_grants_witness:
  "inflight_of (lw_idx (snd (acquire sample_env (\<lambda>k. 20) (\<lambda>k. False) ''k'' ''m'' sample_world))) ''b'' = 1"
  using acquire_grants [OF sample_env_ok sample_world_ok sample_acquire] sample_inflight
  by (auto simp: sample_lease_def)

text \<open>
  A failed \<open>Acquire\<close>, whatever the reason (no account, cancelled context, unusable row,
  model cooling, no proxy, a demotion in between), counts nothing in flight: every in-flight
  count, the set of hot accounts and the invariants of catalog, index and bindings are kept.
\<close>

theorem acquire_failure_clean:
  assumes "env_ok env" "world_ok w" "acquire env clk cancelled sticky model w = (Inl e, w')"
  shows "world_ok w' \<and> inflight_of (lw_idx w') = inflight_of (lw_idx w) \<and>
    dom (map_of (hi_hot (lw_idx w'))) = dom (map_of (hi_hot (lw_idx w)))"
  using acquire_spec [OF assms] by (auto simp: hot_frame_def fun_eq_iff)

theorem acquire_failure_clean_witness:
  "inflight_of (lw_idx (snd (acquire sample_env (\<lambda>k. 20) (\<lambda>k. True) ''k'' ''m'' sample_world))) ''b'' = 0"
proof -
  have "acquire sample_env (\<lambda>k. 20) (\<lambda>k. True) ''k'' ''m'' sample_world = (Inl LeaseCtx, sample_world)" by code_simp
  from acquire_failure_clean [OF sample_env_ok sample_world_ok this] show ?thesis
    using sample_inflight \<open>acquire _ _ _ _ _ _ = _\<close> by simp
qed



text \<open>The release of a failure counts the account out, then plans and commits.\<close>

lemma release_as_failure:
  assumes "ls_account_id l \<noteq> []" "\<not> lr_success res"
  shows "release env False now nano l res w = release_failure env now nano l res
    (w\<lparr>lw_idx := snd (sub_inflight (ls_account_id l) (lw_idx w))\<rparr>)"
  using assms by (simp add: release_def)

lemma patch_health_open [simp]: "cat_open (snd (patch_health c now i p)) = cat_open c"
  by (auto simp: patch_health_def split: sum.split)

lemma patch_health_keeps_open: "patch_health c now i p = (r, c') \<Longrightarrow> cat_open c' = cat_open c"
  using patch_health_open [of c now i p] by simp

lemma failure_plan_cfg:
  assumes "failure_plan env now nano l res a w = Some (p, w1)"
  shows "lw_cfg w1 = lw_cfg w" "cat_open (lw_cat w1) = cat_open (lw_cat w)"
  using assms failure_cooldown_cat [of env now l "lr_status_code res" a]
  by (auto simp: failure_plan_def Let_def split: if_splits option.splits) (metis snd_conv)+

lemma failure_commit_cfg:
  "lw_cfg (snd (failure_commit env now l code fc p w)) = lw_cfg w"
  "cat_open (lw_cat (snd (failure_commit env now l code fc p w))) = cat_open (lw_cat w)"
  by (auto dest: patch_health_keeps_open simp: failure_commit_def Let_def split: sum.split prod.split)

lemma release_failure_cfg:
  "lw_cfg (snd (release_failure env now nano l res w)) = lw_cfg w"
  "cat_open (lw_cat (snd (release_failure env now nano l res w))) = cat_open (lw_cat w)"
  by (auto simp: release_failure_def Let_def failure_commit_cfg failure_plan_cfg
      split: sum.split cat_error.split option.split)




text \<open>
  Cooldown times are bounded: under every normalised configuration (with a cap below
  2^50 s), status, Retry-After and failure count, \<open>cooldownSeconds\<close> returns (its shift never
  panics) at least one second and at most the cap plus the jitter percentage of it.
\<close>

theorem cooldown_bounds:
  assumes "int63n_ok f" "lc_cooldown_cap_sec c \<le> 2 ^ 50"
  shows "\<exists>sec. cooldown_seconds f (lease_normalize c) nano code retry_after fc = Some sec \<and> 1 \<le> sec \<and>
    sec \<le> lc_cooldown_cap_sec (lease_normalize c) +
      lc_cooldown_cap_sec (lease_normalize c) * lc_cooldown_jitter_pct (lease_normalize c) div 100"
proof -
  let ?c = "lease_normalize c"
  have n: "1 \<le> lc_cooldown_cap_sec ?c" "lc_cooldown_cap_sec ?c \<le> 2 ^ 50" "0 \<le> lc_cooldown_jitter_pct ?c"
    "lc_cooldown_jitter_pct ?c \<le> 100" "1 \<le> lc_cooldown_exp_max ?c"
    using assms(2) by (auto simp: lease_normalize_def lease_default_config_def Let_def)
  then have "cooldown_base ?c code retry_after fc \<noteq> None" by (auto simp: cooldown_base_def Let_def)
  then obtain sec where s: "cooldown_seconds f ?c nano code retry_after fc = Some sec"
    by (auto simp: cooldown_seconds_def)
  from cooldown_seconds_range [OF assms(1) n(2-4) s] n(1) s show ?thesis by (simp add: max_def split: if_splits)
qed

theorem cooldown_bounds_witness:
  "\<exists>sec. cooldown_seconds (\<lambda>s n. n - 1) (lease_normalize lease_default_config) 0 403 0 1 = Some sec \<and> sec \<le> 360"
proof -
  have "int63n_ok (\<lambda>s n. n - 1)" by (simp add: int63n_ok_def)
  from cooldown_bounds [OF this, of lease_default_config 0 403 0 1] show ?thesis
    by (auto simp: lease_normalize_def lease_default_config_def Let_def)
qed

text \<open>
  \<open>ApplyConfig\<close> lets a negative \<open>CooldownExpMax\<close> through, and then the first 429 without a
  Retry-After shifts by a negative count: the release panics and the failure is not recorded.
\<close>

theorem negative_exp_max_panics:
  assumes "lc_cooldown_exp_max c < 0" "lw_cfg w = lease_clamp c" "ls_account_id l \<noteq> []"
    "cat_get (lw_cat w) (ls_account_id l) = Inr a" "lr_status_code res = 429" "lr_retry_after res \<le> 0"
    "\<not> lr_success res"
  shows "case release env False now nano l res w of (e, w') \<Rightarrow> e = Some LeasePanic \<and> lw_cat w' = lw_cat w"
  using assms by (simp add: release_as_failure release_failure_def Let_def failure_plan_def cooldown_seconds_def
      cooldown_base_def lease_clamp_def)

theorem negative_exp_max_panics_witness:
  "fst (release sample_env False 21 7 sample_lease \<lparr>lr_status_code = 429, lr_retry_after = 0, lr_success = False\<rparr>
     (lease_apply_config (lease_default_config\<lparr>lc_cooldown_exp_max := -1\<rparr>) sample_world)) = Some LeasePanic"
proof -
  let ?w = "lease_apply_config (lease_default_config\<lparr>lc_cooldown_exp_max := -1\<rparr>) sample_world"
  have "cat_get (lw_cat ?w) ''b'' = Inr (sample_account ''b'' 2)" by code_simp
  from negative_exp_max_panics [of "lease_default_config\<lparr>lc_cooldown_exp_max := -1\<rparr>" ?w sample_lease,
      unfolded sample_lease_def, simplified, OF _ this, of "\<lparr>lr_status_code = 429, lr_retry_after = 0, lr_success = False\<rparr>"
      sample_env 21 7]
  show ?thesis by (simp add: lease_apply_config_def sample_lease_def split_beta)
qed

lemma failure_until_403: "lr_status_code res = 403 \<Longrightarrow> \<exists>u. failure_until env cfg now nano res a = Some u"
  by (simp add: failure_until_def cooldown_seconds_def cooldown_base_def Let_def)

text \<open>
  The quarantine streak of 403 is not a streak of 403: an account with \<open>n\<close> other failures
  behind it is quarantined by its second 403 in a row as soon as \<open>n + 2\<close> reaches the threshold,
  whatever the threshold is.
\<close>

theorem forbidden_streak_counts_all:
  assumes "cat_open (lw_cat w)" "map_of (cat_rows (lw_cat w)) (ls_account_id l) = Some a"
    "ls_account_id l \<noteq> []" "lr_status_code res = 403" "\<not> lr_success res"
    "0 < lc_forbidden_quarantine_after (lw_cfg w)"
    "lc_forbidden_quarantine_after (lw_cfg w) \<le> acc_failure_count a + 2"
  shows "case release env False now2 nano2 l res (snd (release env False now nano l res w)) of (e, w') \<Rightarrow>
    (\<exists>b. map_of (cat_rows (lw_cat w')) (ls_account_id l) = Some b \<and>
      acc_lifecycle b = LifecycleQuarantined \<and> \<not> acc_enabled b)"
proof -
  let ?sub = "\<lambda>w. w\<lparr>lw_idx := snd (sub_inflight (ls_account_id l) (lw_idx w))\<rparr>"
  define w1 where "w1 = snd (release_failure env now nano l res (?sub w))"
  obtain u where u: "failure_until env (lw_cfg (?sub w)) now nano res a = Some u"
    using failure_until_403 [OF assms(4)] by blast
  let ?a = "failed_row (lw_cfg w) l 403 now u a"
  have r1: "map_of (cat_rows (lw_cat w1)) (ls_account_id l) = Some ?a"
    using release_failure_row [OF _ _ assms(3) u] assms(1,2,4) by (simp add: w1_def)
  have c1: "lw_cfg w1 = lw_cfg w" "cat_open (lw_cat w1)"
    using release_failure_cfg [of env now nano l res "?sub w"] assms(1) by (simp_all add: w1_def)
  obtain v where v: "failure_until env (lw_cfg (?sub w1)) now2 nano2 res ?a = Some v"
    using failure_until_403 [OF assms(4)] by blast
  have q: "quarantines (lw_cfg w) 403 ?a"
    using assms(6,7) by (simp add: quarantines_def failed_row_def failure_text_def Let_def)
  have "map_of (cat_rows (lw_cat (snd (release_failure env now2 nano2 l res (?sub w1))))) (ls_account_id l) =
      Some (failed_row (lw_cfg w) l 403 now2 v ?a)"
    using release_failure_row [OF _ _ assms(3) v] r1 c1 assms(4) by simp
  then show ?thesis
    using q by (simp add: release_as_failure [OF assms(3,5)] w1_def split_beta failed_row_def)
qed


theorem forbidden_streak_counts_all_witness:
  "let w = sample_world\<lparr>lw_cfg := lease_default_config\<lparr>lc_forbidden_quarantine_after := 5\<rparr>,
         lw_cat := sample_catalog\<lparr>cat_rows := gm_put ''b'' ((sample_account ''b'' 2)\<lparr>acc_failure_count := 3,
           acc_last_error := ''upstream 500''\<rparr>) (cat_rows sample_catalog)\<rparr>\<rparr>;
       res = \<lparr>lr_status_code = 403, lr_retry_after = 0, lr_success = False\<rparr> in
   case release sample_env False 22 8 sample_lease res (snd (release sample_env False 21 7 sample_lease res w)) of
     (e, w') \<Rightarrow> \<exists>b. map_of (cat_rows (lw_cat w')) ''b'' = Some b \<and> acc_lifecycle b = LifecycleQuarantined"
proof -
  let ?a = "(sample_account ''b'' 2)\<lparr>acc_failure_count := 3, acc_last_error := ''upstream 500''\<rparr>"
  let ?res = "\<lparr>lr_status_code = 403, lr_retry_after = 0, lr_success = False\<rparr>"
  define w where "w = sample_world\<lparr>lw_cfg := lease_default_config\<lparr>lc_forbidden_quarantine_after := 5\<rparr>,
         lw_cat := sample_catalog\<lparr>cat_rows := gm_put ''b'' ?a (cat_rows sample_catalog)\<rparr>\<rparr>"
  have "cat_open sample_catalog" by code_simp
  then have w: "cat_open (lw_cat w)" "map_of (cat_rows (lw_cat w)) ''b'' = Some ?a"
    "lc_forbidden_quarantine_after (lw_cfg w) = 5" by (simp_all add: w_def)
  have l: "ls_account_id sample_lease = ''b''" by (simp add: sample_lease_def)
  from forbidden_streak_counts_all [OF w(1), of sample_lease ?a ?res sample_env 22 8 21 7, unfolded l, OF w(2)]
  show ?thesis by (auto simp: w(3) Let_def split_beta simp flip: w_def)
qed

end
