(* ===== verification/ClusterState.thy ===== *)
theory ClusterState
  imports Contracts
begin

text \<open>
  The shared coordination state (\<open>internal/clusterstate\<close>), in its process-local implementation
  \<open>Memory\<close>: sticky bindings, in-flight counts, cooldowns, shard leases, worksets and the queue
  of due refreshes with its locks. Every operation runs under one mutex, so it is one function
  of the state. Instants and durations are in nanoseconds, \<open>unix_sec\<close> is \<open>Time.Unix\<close>. An
  operation that reads the clock twice has two arguments for it. The Redis implementation of
  the same interface is calls of a server and is not modelled.
\<close>

section \<open>Data\<close>

datatype cs_error = CsNotFound | CsConflict | CsClosed

record sticky_binding =
  sb_account_id :: string
  sb_secondary_account_id :: string
  sb_worker_id :: string
  sb_shard_id :: int
  sb_exp :: int

record shard_lease =
  sh_shard_id :: int
  sh_worker_id :: string
  sh_version :: int
  sh_exp :: int

record memory =
  mem_sticky :: "(string, sticky_binding) gomap"
  mem_inflight :: "(string, int) gomap"
  mem_cooldown :: "(string, int) gomap"
  mem_shards :: "(int, shard_lease) gomap"
  mem_workset :: "(int, (string \<times> rat) list) gomap"
  mem_refresh :: "(string, int) gomap"
  mem_locks :: "(string, int) gomap"
  mem_closed :: bool

definition unix_sec :: "int \<Rightarrow> int" where
  "unix_sec t = t div 1000000000"

definition new_memory :: memory where
  "new_memory = \<lparr>mem_sticky = [], mem_inflight = [], mem_cooldown = [], mem_shards = [],
     mem_workset = [], mem_refresh = [], mem_locks = [], mem_closed = False\<rparr>"

definition mem_close :: "memory \<Rightarrow> memory" where
  "mem_close m = m\<lparr>mem_closed := True\<rparr>"

section \<open>Sticky bindings\<close>

definition get_sticky :: "int \<Rightarrow> string \<Rightarrow> memory \<Rightarrow> cs_error + sticky_binding" where
  "get_sticky now key m =
     (if mem_closed m then Inl CsClosed
      else case gm_get (mem_sticky m) key of
        None \<Rightarrow> Inl CsNotFound
      | Some b \<Rightarrow> if sb_exp b > 0 \<and> sb_exp b < unix_sec now then Inl CsNotFound else Inr b)"

definition put_sticky :: "int \<Rightarrow> string \<Rightarrow> sticky_binding \<Rightarrow> int \<Rightarrow> memory \<Rightarrow> cs_error option \<times> memory" where
  "put_sticky now key b ttl m =
     (if mem_closed m then (Some CsClosed, m)
      else let b' = (if sb_exp b = 0 then b\<lparr>sb_exp := unix_sec (now + ttl)\<rparr> else b) in
       (None, m\<lparr>mem_sticky := gm_put key b' (mem_sticky m)\<rparr>))"

definition clear_sticky :: "string \<Rightarrow> memory \<Rightarrow> cs_error option \<times> memory" where
  "clear_sticky key m =
     (if mem_closed m then (Some CsClosed, m)
      else (None, m\<lparr>mem_sticky := gm_del key (mem_sticky m)\<rparr>))"

text \<open>Deleting the current key while ranging over a map is deleting every matching entry.\<close>

definition clear_sticky_by_account :: "string \<Rightarrow> memory \<Rightarrow> cs_error option \<times> memory" where
  "clear_sticky_by_account i m =
     (if mem_closed m then (Some CsClosed, m)
      else (None, m\<lparr>mem_sticky := filter
        (\<lambda>(k, v). \<not> (sb_account_id v = i \<or> sb_secondary_account_id v = i)) (mem_sticky m)\<rparr>))"

section \<open>In-flight counts and cooldowns\<close>

definition incr_inflight :: "string \<Rightarrow> memory \<Rightarrow> (cs_error + int) \<times> memory" where
  "incr_inflight i m =
     (if mem_closed m then (Inl CsClosed, m)
      else let n = wrap64 (gm_default 0 (mem_inflight m) i + 1) in
       (Inr n, m\<lparr>mem_inflight := gm_put i n (mem_inflight m)\<rparr>))"

definition decr_inflight :: "string \<Rightarrow> memory \<Rightarrow> (cs_error + int) \<times> memory" where
  "decr_inflight i m =
     (if mem_closed m then (Inl CsClosed, m)
      else let n = wrap64 (gm_default 0 (mem_inflight m) i - 1) in
       if n \<le> 0 then (Inr 0, m\<lparr>mem_inflight := gm_del i (mem_inflight m)\<rparr>)
       else (Inr n, m\<lparr>mem_inflight := gm_put i n (mem_inflight m)\<rparr>))"

definition get_inflight :: "string \<Rightarrow> memory \<Rightarrow> cs_error + int" where
  "get_inflight i m = (if mem_closed m then Inl CsClosed else Inr (gm_default 0 (mem_inflight m) i))"

definition cs_set_cooldown :: "string \<Rightarrow> int \<Rightarrow> memory \<Rightarrow> cs_error option \<times> memory" where
  "cs_set_cooldown i until m =
     (if mem_closed m then (Some CsClosed, m)
      else (None, m\<lparr>mem_cooldown := gm_put i (unix_sec until) (mem_cooldown m)\<rparr>))"

text \<open>The result is the deadline, as an instant, of an active cooldown.\<close>

definition cs_get_cooldown :: "int \<Rightarrow> string \<Rightarrow> memory \<Rightarrow> cs_error + int option" where
  "cs_get_cooldown now i m =
     (if mem_closed m then Inl CsClosed
      else case gm_get (mem_cooldown m) i of
        None \<Rightarrow> Inr None
      | Some u \<Rightarrow> if u \<le> unix_sec now then Inr None else Inr (Some (u * 1000000000)))"

definition cs_clear_cooldown :: "string \<Rightarrow> memory \<Rightarrow> cs_error option \<times> memory" where
  "cs_clear_cooldown i m =
     (if mem_closed m then (Some CsClosed, m)
      else (None, m\<lparr>mem_cooldown := gm_del i (mem_cooldown m)\<rparr>))"

section \<open>Shard leases\<close>

definition try_acquire_shard ::
  "int \<Rightarrow> int \<Rightarrow> int \<Rightarrow> string \<Rightarrow> int \<Rightarrow> memory \<Rightarrow> (cs_error + shard_lease option \<times> bool) \<times> memory" where
  "try_acquire_shard now1 now2 shard worker ttl m =
     (if mem_closed m then (Inl CsClosed, m)
      else case gm_get (mem_shards m) shard of
        Some cur \<Rightarrow>
          if sh_exp cur > unix_sec now1 \<and> sh_worker_id cur \<noteq> worker then (Inr (Some cur, False), m)
          else let l = \<lparr>sh_shard_id = shard, sh_worker_id = worker,
                 sh_version = wrap64 (sh_version cur + 1), sh_exp = unix_sec (now2 + ttl)\<rparr> in
            (Inr (Some l, True), m\<lparr>mem_shards := gm_put shard l (mem_shards m)\<rparr>)
      | None \<Rightarrow>
          let l = \<lparr>sh_shard_id = shard, sh_worker_id = worker, sh_version = 1,
                 sh_exp = unix_sec (now2 + ttl)\<rparr> in
            (Inr (Some l, True), m\<lparr>mem_shards := gm_put shard l (mem_shards m)\<rparr>))"

definition renew_shard :: "int \<Rightarrow> int \<Rightarrow> string \<Rightarrow> int \<Rightarrow> memory \<Rightarrow> (cs_error + bool) \<times> memory" where
  "renew_shard now shard worker ttl m =
     (if mem_closed m then (Inl CsClosed, m)
      else case gm_get (mem_shards m) shard of
        None \<Rightarrow> (Inr False, m)
      | Some cur \<Rightarrow>
          if sh_worker_id cur \<noteq> worker then (Inr False, m)
          else (Inr True, m\<lparr>mem_shards := gm_put shard (cur\<lparr>sh_exp := unix_sec (now + ttl)\<rparr>) (mem_shards m)\<rparr>))"

definition release_shard :: "int \<Rightarrow> string \<Rightarrow> memory \<Rightarrow> cs_error option \<times> memory" where
  "release_shard shard worker m =
     (if mem_closed m then (Some CsClosed, m)
      else case gm_get (mem_shards m) shard of
        None \<Rightarrow> (None, m)
      | Some cur \<Rightarrow>
          if sh_worker_id cur = worker
          then (None, m\<lparr>mem_shards := gm_del shard (mem_shards m)\<rparr>) else (None, m))"

definition get_shard_owner :: "int \<Rightarrow> int \<Rightarrow> memory \<Rightarrow> cs_error + shard_lease" where
  "get_shard_owner now shard m =
     (if mem_closed m then Inl CsClosed
      else case gm_get (mem_shards m) shard of
        None \<Rightarrow> Inl CsNotFound
      | Some cur \<Rightarrow> if sh_exp cur \<le> unix_sec now then Inl CsNotFound else Inr cur)"

section \<open>Worksets\<close>

fun score_items :: "string list \<Rightarrow> rat list \<Rightarrow> (string \<times> rat) list" where
  "score_items [] scs = []"
| "score_items (i # is) [] = (i, 0) # score_items is []"
| "score_items (i # is) (sc # scs) = (i, sc) # score_items is scs"

definition replace_workset :: "int \<Rightarrow> string list \<Rightarrow> rat list \<Rightarrow> memory \<Rightarrow> cs_error option \<times> memory" where
  "replace_workset shard ids scores m =
     (if mem_closed m then (Some CsClosed, m)
      else (None, m\<lparr>mem_workset := gm_put shard (score_items ids scores) (mem_workset m)\<rparr>))"

definition list_workset :: "int \<Rightarrow> int \<Rightarrow> memory \<Rightarrow> cs_error + string list" where
  "list_workset shard limit m =
     (if mem_closed m then Inl CsClosed
      else let items = gm_default [] (mem_workset m) shard;
               n = (if limit \<le> 0 \<or> limit > int (length items) then length items else nat limit) in
       Inr (map fst (take n items)))"

section \<open>Due refreshes\<close>

definition add_refresh_due :: "string \<Rightarrow> int \<Rightarrow> memory \<Rightarrow> cs_error option \<times> memory" where
  "add_refresh_due i due m =
     (if mem_closed m then (Some CsClosed, m)
      else (None, m\<lparr>mem_refresh := gm_put i (unix_sec due) (mem_refresh m)\<rparr>))"

text \<open>The loop of \<open>ClaimRefreshDue\<close> over the entries in the order Go ranges over them.\<close>

fun claim_loop :: "int \<Rightarrow> nat \<Rightarrow> int \<Rightarrow> (string \<times> int) list \<Rightarrow> string list \<Rightarrow> memory \<Rightarrow> string list \<times> memory" where
  "claim_loop now limit lock_exp [] out m = (out, m)"
| "claim_loop now limit lock_exp ((i, due) # es) out m =
     (if length out \<ge> limit then (out, m)
      else if due > now then claim_loop now limit lock_exp es out m
      else if (case gm_get (mem_locks m) i of None \<Rightarrow> False | Some x \<Rightarrow> x > now)
        then claim_loop now limit lock_exp es out m
      else claim_loop now limit lock_exp es (out @ [i])
        (m\<lparr>mem_locks := gm_put i lock_exp (mem_locks m), mem_refresh := gm_del i (mem_refresh m)\<rparr>))"

definition claim_refresh_due ::
  "((string \<times> int) list \<Rightarrow> (string \<times> int) list) \<Rightarrow> int \<Rightarrow> int \<Rightarrow> int \<Rightarrow> memory \<Rightarrow> (cs_error + string list) \<times> memory" where
  "claim_refresh_due ord now limit lock_ttl m =
     (if mem_closed m then (Inl CsClosed, m)
      else let lim = (if limit \<le> 0 then 1 else nat limit);
               (out, m') = claim_loop (unix_sec now) lim (unix_sec (now + lock_ttl)) (ord (mem_refresh m)) [] m in
       (Inr out, m'))"


section \<open>The interfaces\<close>

text \<open>The in-flight counts are a gate: an increment that succeeds enters, a decrement leaves.\<close>

definition mem_count :: "memory \<Rightarrow> string \<Rightarrow> int" where
  "mem_count m i = gm_default 0 (mem_inflight m) i"

lemma incr_inflight_spec:
  assumes "\<not> mem_closed m" "0 \<le> mem_count m i" "mem_count m i < 2 ^ 63 - 1"
  shows "\<exists>m'. incr_inflight i m = (Inr (mem_count m i + 1), m') \<and> \<not> mem_closed m' \<and>
    mem_count m' = (mem_count m)(i := mem_count m i + 1)"
  using assms by (auto simp: incr_inflight_def mem_count_def Let_def)

lemma decr_inflight_spec:
  assumes "\<not> mem_closed m" "0 < mem_count m i" "mem_count m i < 2 ^ 63 - 1"
  shows "\<exists>m'. decr_inflight i m = (Inr (mem_count m i - 1), m') \<and> \<not> mem_closed m' \<and>
    mem_count m' = (mem_count m)(i := mem_count m i - 1)"
  using assms by (auto simp: decr_inflight_def mem_count_def Let_def fun_eq_iff)

definition mem_attempt :: "string \<Rightarrow> memory \<Rightarrow> string option \<times> memory" where
  "mem_attempt i m = (case incr_inflight i m of (Inl e, m') \<Rightarrow> (None, m') | (Inr n, m') \<Rightarrow> (Some i, m'))"

interpretation mem_gate: inflight_gate "\<lambda>m. \<not> mem_closed m" mem_count "\<lambda>i. i" "\<lambda>_. True" mem_attempt
  "\<lambda>_ :: unit. \<lambda>i m. snd (decr_inflight i m)" "2 ^ 63 - 1"
proof
  fix m m' :: memory and i t :: string
  assume m: "\<not> mem_closed m" and bnd: "\<And>j. 0 \<le> mem_count m j \<and> mem_count m j < 2 ^ 63 - 1"
  show "\<not> mem_closed m' \<and> True \<and> mem_count m' = (mem_count m)(t := mem_count m t + 1)"
    if "mem_attempt i m = (Some t, m')"
    using that incr_inflight_spec [OF m, of i] bnd [of i] by (auto simp: mem_attempt_def)
  show "\<not> mem_closed m' \<and> mem_count m' = mem_count m" if "mem_attempt i m = (None, m')"
    using that incr_inflight_spec [OF m, of i] bnd [of i] by (auto simp: mem_attempt_def)
next
  fix m :: memory and t :: string
  assume "\<not> mem_closed m" "0 < mem_count m t" "mem_count m t < 2 ^ 63 - 1"
  from decr_inflight_spec [OF this]
  show "\<not> mem_closed (snd (decr_inflight t m)) \<and> mem_count (snd (decr_inflight t m)) = (mem_count m)(t := mem_count m t - 1)"
    by auto
qed

text \<open>The shard leases are locks of the workers; an entry that expired is not a holder.\<close>

definition shard_holder :: "memory \<Rightarrow> int \<Rightarrow> (string \<times> int) option" where
  "shard_holder m k = map_option (\<lambda>l. (sh_worker_id l, sh_exp l)) (gm_get (mem_shards m) k)"

definition shard_try :: "int \<Rightarrow> int \<Rightarrow> int \<Rightarrow> string \<Rightarrow> int \<Rightarrow> memory \<Rightarrow> bool \<times> memory" where
  "shard_try t1 t2 k v ttl m =
     (case try_acquire_shard t1 t2 k v ttl m of (Inl e, m') \<Rightarrow> (False, m') | (Inr (l, b), m') \<Rightarrow> (b, m'))"

definition shard_renew :: "int \<Rightarrow> int \<Rightarrow> string \<Rightarrow> int \<Rightarrow> memory \<Rightarrow> memory" where
  "shard_renew t k v ttl m = snd (renew_shard t k v ttl m)"

definition shard_free :: "int \<Rightarrow> string \<Rightarrow> memory \<Rightarrow> memory" where
  "shard_free k v m = snd (release_shard k v m)"

interpretation shard_lock: lease_lock shard_holder unix_sec shard_try shard_renew shard_free
proof
  show "shard_try t1 t2 k v ttl s = (False, s)"
    if "shard_holder s k = Some (w, e)" "unix_sec t1 < e" "v \<noteq> w" for s k w e t1 v t2 ttl
    using that by (auto simp: shard_holder_def shard_try_def try_acquire_shard_def)
  show "shard_holder (snd (shard_try t1 t2 k v ttl s)) j = shard_holder s j" if "j \<noteq> k" for j k t1 t2 v ttl s
    using that by (auto simp: shard_holder_def shard_try_def try_acquire_shard_def Let_def split: option.split)
  show "shard_holder (shard_renew t k v ttl s) j = shard_holder s j"
    if "shard_holder s j = Some (w, e)" "j \<noteq> k \<or> v \<noteq> w" for s j w e k v t ttl
    using that by (auto simp: shard_holder_def shard_renew_def renew_shard_def split: option.split)
  show "shard_holder (shard_free k v s) j = shard_holder s j"
    if "shard_holder s j = Some (w, e)" "j \<noteq> k \<or> v \<noteq> w" for s j w e k v
    using that by (auto simp: shard_holder_def shard_free_def release_shard_def split: option.split)
qed

section \<open>Claiming due refreshes\<close>

definition claimable :: "int \<Rightarrow> memory \<Rightarrow> string \<times> int \<Rightarrow> bool" where
  "claimable now m e \<longleftrightarrow> snd e \<le> now \<and>
     (case gm_get (mem_locks m) (fst e) of None \<Rightarrow> True | Some x \<Rightarrow> x \<le> now)"

lemma claim_loop_spec:
  assumes "distinct (map fst es)" "claim_loop now mx lexp es out m = (out', m')"
  defines "new \<equiv> take (mx - length out) (map fst (filter (claimable now m) es))"
  shows "out' = out @ new \<and> mem_closed m' = mem_closed m \<and> mem_shards m' = mem_shards m \<and>
    map_of (mem_locks m') = (\<lambda>i. if i \<in> set new then Some lexp else map_of (mem_locks m) i) \<and>
    map_of (mem_refresh m') = map_of (mem_refresh m) |` (- set new) \<and>
    (gm_wf (mem_refresh m) \<longrightarrow> gm_wf (mem_refresh m'))"
  using assms(1,2) unfolding new_def
proof (induction es arbitrary: out m)
  case Nil
  then show ?case by simp
next
  case (Cons e es)
  obtain i due where e: "e = (i, due)" by fastforce
  show ?case
  proof (cases "length out \<ge> mx")
    case True
    then show ?thesis using Cons.prems e by simp
  next
    case False
    note lt = this
    show ?thesis
    proof (cases "claimable now m e")
      case False
      then have "claim_loop now mx lexp es out m = (out', m')"
        using Cons.prems e lt by (auto simp: claimable_def split: option.splits if_splits)
      from Cons.IH [OF _ this] Cons.prems(1) False show ?thesis by simp
    next
      case True
      let ?m = "m\<lparr>mem_locks := gm_put i lexp (mem_locks m), mem_refresh := gm_del i (mem_refresh m)\<rparr>"
      have step: "claim_loop now mx lexp es (out @ [i]) ?m = (out', m')"
        using Cons.prems e lt True by (auto simp: claimable_def split: option.splits if_splits)
      have f: "filter (claimable now ?m) es = filter (claimable now m) es"
        using Cons.prems(1) e by (intro filter_cong refl) (force simp: claimable_def)
      obtain n where n: "mx - length out = Suc n" "mx - length (out @ [i]) = n"
        using lt by (cases "mx - length out") auto
      from Cons.IH [OF _ step] Cons.prems(1) e True n f show ?thesis
        by (auto simp: restrict_map_def fun_eq_iff)
    qed
  qed
qed


lemma claim_refresh_spec:
  assumes "iteration_order ord" "gm_wf (mem_refresh m)" "claim_refresh_due ord now limit ttl m = (Inr out, m')"
  shows "distinct out" "length out = min (nat (max 1 limit)) (card (fst ` Set.filter (claimable (unix_sec now) m) (set (mem_refresh m))))"
    "set out \<subseteq> fst ` Set.filter (claimable (unix_sec now) m) (set (mem_refresh m))"
    "mem_closed m' = mem_closed m" "mem_shards m' = mem_shards m"
    "map_of (mem_locks m') = (\<lambda>i. if i \<in> set out then Some (unix_sec (now + ttl)) else map_of (mem_locks m) i)"
    "map_of (mem_refresh m') = map_of (mem_refresh m) |` (- set out)" "gm_wf (mem_refresh m')"
proof -
  let ?ok = "claimable (unix_sec now) m" and ?mx = "nat (max 1 limit)"
  let ?due = "map fst (filter ?ok (ord (mem_refresh m)))"
  have d: "distinct (map fst (ord (mem_refresh m)))"
    using assms(1,2) by (simp add: iteration_order_distinct_map gm_wf_def)
  have mx: "(if limit \<le> 0 then 1 else nat limit) = ?mx" by auto
  have "claim_loop (unix_sec now) ?mx (unix_sec (now + ttl)) (ord (mem_refresh m)) [] m = (out, m')"
    using assms(3) unfolding claim_refresh_due_def mx Let_def by (auto split: if_splits prod.splits)
  note spec = claim_loop_spec [OF d this]
  then have out: "out = take ?mx ?due" by simp
  have dd: "distinct ?due" using d by (simp add: distinct_map_filter)
  have s: "set ?due = fst ` Set.filter ?ok (set (mem_refresh m))" using assms(1) by auto
  show "distinct out" using dd out by simp
  show "length out = min ?mx (card (fst ` Set.filter ?ok (set (mem_refresh m))))"
    unfolding out s [symmetric] using distinct_card [OF dd] by (simp only: length_take min.commute)
  show "set out \<subseteq> fst ` Set.filter ?ok (set (mem_refresh m))"
    unfolding s [symmetric] out by (rule set_take_subset)
  show "mem_closed m' = mem_closed m" "mem_shards m' = mem_shards m"
    "map_of (mem_locks m') = (\<lambda>i. if i \<in> set out then Some (unix_sec (now + ttl)) else map_of (mem_locks m) i)"
    "map_of (mem_refresh m') = map_of (mem_refresh m) |` (- set out)" "gm_wf (mem_refresh m')"
    using spec out assms(2) by auto
qed

definition enqueue_all :: "(string \<times> int) list \<Rightarrow> memory \<Rightarrow> memory" where
  "enqueue_all adds m = fold (\<lambda>(i, due) m. snd (add_refresh_due i due m)) adds m"

lemma enqueue_all_frame:
  "mem_locks (enqueue_all adds m) = mem_locks m" "mem_closed (enqueue_all adds m) = mem_closed m"
  "gm_wf (mem_refresh m) \<Longrightarrow> gm_wf (mem_refresh (enqueue_all adds m))"
  unfolding enqueue_all_def
  by (induction adds arbitrary: m) (auto simp: add_refresh_due_def split_beta)

section \<open>Properties\<close>

definition sample_memory :: memory where
  "sample_memory = enqueue_all [(''a'', 5000000000), (''b'', 9000000000), (''c'', 2000000000)]
     (snd (shard_try 1000000000 1000000000 3 ''w1'' 30000000000 new_memory))"

text \<open>
  C25. A shard has one owner: while the lease that a worker got has not expired, no sequence of
  attempts, renewals and releases of other workers (on any shard, with any clocks before the
  expiry) takes it away, every attempt of another worker in that time is refused, and the
  lookup names the owner.
\<close>

theorem shard_exclusive:
  assumes "shard_holder m k = Some (w, e)" "list_all (shard_lock.foreign k w e) es"
    and "unix_sec t1 < e" "v \<noteq> w"
  shows "shard_holder (shard_lock.lock_run es m) k = Some (w, e) \<and>
    fst (shard_try t1 t2 k v ttl (shard_lock.lock_run es m)) = False \<and>
    (mem_closed (shard_lock.lock_run es m) \<or>
     (\<exists>l. get_shard_owner t1 k (shard_lock.lock_run es m) = Inr l \<and> sh_worker_id l = w))"
  using shard_lock.exclusive [OF assms(1,2)]
    shard_lock.take_held [OF shard_lock.exclusive [OF assms(1,2)] assms(3,4), of t2 ttl] assms(3)
  by (auto simp: shard_holder_def get_shard_owner_def)

theorem shard_exclusive_witness:
  "fst (shard_try 20000000000 20000000000 3 ''w3'' 1000 (shard_lock.lock_run
     [LockTry 2000000000 2000000000 3 ''w2'' 50, LockFree 3 ''w2'', LockRenew 3000000000 4 ''w1'' 50] sample_memory)) = False"
proof -
  have h: "shard_holder sample_memory 3 = Some (''w1'', 31)" by code_simp
  show ?thesis
    using shard_exclusive [OF h, of "[LockTry 2000000000 2000000000 3 ''w2'' 50, LockFree 3 ''w2'',
      LockRenew 3000000000 4 ''w1'' 50]" 20000000000 "''w3''" 20000000000 1000]
    by (simp add: unix_sec_def)
qed

text \<open>
  Refreshers do not duplicate work: a claim returns distinct due accounts that nobody has
  locked, as many as the limit or as there are, whatever order Go ranges over the queue in; and
  until its lock expires no later claim returns any of them, even when they are queued again.
\<close>

theorem refresh_claims_exclusive:
  assumes "iteration_order ord" "iteration_order ord'" "gm_wf (mem_refresh m)"
    and "claim_refresh_due ord now limit ttl m = (Inr out, m1)"
    and "claim_refresh_due ord' now' limit' ttl' (enqueue_all adds m1) = (Inr out', m2)"
    and "unix_sec now' < unix_sec (now + ttl)"
  shows "distinct out \<and> set out \<inter> set out' = {} \<and>
    length out = min (nat (max 1 limit)) (card (fst ` Set.filter (claimable (unix_sec now) m) (set (mem_refresh m))))"
proof -
  note c1 = claim_refresh_spec [OF assms(1,3,4)]
  have "gm_wf (mem_refresh (enqueue_all adds m1))" using c1(8) by (rule enqueue_all_frame)
  note c2 = claim_refresh_spec [OF assms(2) this assms(5)]
  have "i \<notin> set out'" if "i \<in> set out" for i
    using that c1(6) c2(3) assms(6) by (fastforce simp: claimable_def enqueue_all_frame)
  then show ?thesis using c1(1,2) by blast
qed


theorem refresh_claims_exclusive_witness:
  "case fst (claim_refresh_due rev 20000000000 5 1 (enqueue_all [(''a'', 0)]
      (snd (claim_refresh_due rev 10000000000 5 60000000000 sample_memory)))) of
     Inl e \<Rightarrow> True | Inr ids \<Rightarrow> ''a'' \<notin> set ids"
proof -
  have w: "gm_wf (mem_refresh sample_memory)"
    unfolding sample_memory_def by (intro enqueue_all_frame) code_simp
  have "fst (claim_refresh_due rev 10000000000 5 60000000000 sample_memory) = Inr [''c'', ''b'', ''a'']" by code_simp
  then have a: "claim_refresh_due rev 10000000000 5 60000000000 sample_memory =
      (Inr [''c'', ''b'', ''a''], snd (claim_refresh_due rev 10000000000 5 60000000000 sample_memory))"
    by (metis prod.collapse)
  obtain r m2 where b: "claim_refresh_due rev 20000000000 5 1
     (enqueue_all [(''a'', 0)] (snd (claim_refresh_due rev 10000000000 5 60000000000 sample_memory))) = (r, m2)"
    by fastforce
  show ?thesis
    using refresh_claims_exclusive [OF iteration_order_rev iteration_order_rev w a, of 20000000000 5 1 "[(''a'', 0)]"] b
    by (cases r) (auto simp: unix_sec_def)
qed

end
