(* ===== verification/Worker.thy ===== *)
theory Worker
  imports LeaseProps ClusterState
begin

text \<open>
  The leaser of a worker (\<open>internal/worker/leaser.go\<close>): it joins the account store, the local
  hot index and selector, and the shared coordination state, whose in-flight count is the hard
  gate across processes. The store is the SQLite adapter over the catalog
  (\<open>internal/store/sqlite_adapter.go\<close>), the shared state is \<open>Memory\<close> or absent. Instants and
  durations are in nanoseconds; the clock is read once per attempt and once per release.
\<close>

section \<open>State\<close>

record 'r worker_world =
  ww_cat :: catalog
  ww_idx :: index
  ww_sel :: "'r selector"
  ww_state :: "memory option"
  ww_max_inflight :: int
  ww_max_attempts :: int

record 'r worker_env =
  we_rand :: "'r rand_source"
  we_metas :: "hot_meta list \<Rightarrow> hot_meta list"
  we_keys :: "string list \<Rightarrow> string list"

datatype store_error = StNotFound | StCASConflict | StInvalid | StClosed

definition map_catalog_err :: "cat_error \<Rightarrow> store_error" where
  "map_catalog_err e =
     (case e of CatNotFound \<Rightarrow> StNotFound | CatCASConflict \<Rightarrow> StCASConflict
      | CatInvalidInput \<Rightarrow> StInvalid | CatClosed \<Rightarrow> StClosed)"

definition store_get :: "catalog \<Rightarrow> string \<Rightarrow> store_error + account" where
  "store_get c i = map_sum map_catalog_err id (cat_get c i)"

definition store_update_tokens ::
  "catalog \<Rightarrow> int \<Rightarrow> string \<Rightarrow> int \<Rightarrow> token_set \<Rightarrow> (store_error + unit) \<times> catalog" where
  "store_update_tokens c now i n t = map_prod (map_sum map_catalog_err id) id (update_tokens c now i n t)"

definition store_patch_health ::
  "catalog \<Rightarrow> int \<Rightarrow> string \<Rightarrow> health_patch \<Rightarrow> (store_error + unit) \<times> catalog" where
  "store_patch_health c now i p = map_prod (map_sum map_catalog_err id) id (patch_health c now i p)"

datatype worker_error =
  WkNoAccount | WkCtx | WkCooling | WkState cs_error | WkOverInflight | WkStore store_error | WkNotUsable

definition new_store_leaser ::
  "catalog \<Rightarrow> index \<Rightarrow> 'r selector \<Rightarrow> memory option \<Rightarrow> int \<Rightarrow> int \<Rightarrow> 'r worker_world" where
  "new_store_leaser cat idx sel st max_inflight max_attempts =
     \<lparr>ww_cat = cat, ww_idx = idx, ww_sel = sel, ww_state = st,
      ww_max_inflight = (if max_inflight \<le> 0 then 2 else max_inflight),
      ww_max_attempts = (if max_attempts \<le> 0 then 4 else max_attempts)\<rparr>"

section \<open>Acquire\<close>

definition wk_account_usable :: "account \<Rightarrow> int \<Rightarrow> bool" where
  "wk_account_usable a now =
     (if \<not> acc_enabled a \<or> acc_manual_disabled a then False
      else if acc_lifecycle a \<noteq> [] \<and> acc_lifecycle a \<noteq> LifecycleActive then False
      else if acc_access_token a = [] then False
      else if acc_cooldown_until a > now then False
      else True)"

text \<open>The shared binding of the session is copied into the local sticky LRU.\<close>

definition hydrate_sticky :: "int \<Rightarrow> string \<Rightarrow> 'r worker_world \<Rightarrow> 'r worker_world" where
  "hydrate_sticky t sticky w =
     (case ww_state w of
        None \<Rightarrow> w
      | Some m \<Rightarrow>
          if sticky = [] then w
          else case get_sticky t sticky m of
            Inl e \<Rightarrow> w
          | Inr b \<Rightarrow>
              let now = unix_sec t;
                  s1 = (if sb_account_id b \<noteq> [] then bind_sticky now sticky (sb_account_id b) (ww_sel w)
                        else ww_sel w);
                  s2 = (if sb_secondary_account_id b \<noteq> [] \<and> sb_secondary_account_id b \<noteq> sb_account_id b
                        then bind_sticky_secondary now sticky (sb_secondary_account_id b) s1 else s1)
              in w\<lparr>ww_sel := s2\<rparr>)"

definition undo_inflight :: "string \<Rightarrow> 'r worker_world \<Rightarrow> 'r worker_world" where
  "undo_inflight i w = w\<lparr>ww_state := map_option (\<lambda>m. snd (decr_inflight i m)) (ww_state w)\<rparr>"

text \<open>The gates of the cluster: the shared cooldown, then the shared in-flight count.\<close>

definition cluster_gate :: "int \<Rightarrow> string \<Rightarrow> 'r worker_world \<Rightarrow> (worker_error + unit) \<times> 'r worker_world" where
  "cluster_gate t i w =
     (case ww_state w of
        None \<Rightarrow> (Inr (), w)
      | Some m \<Rightarrow>
          if (case cs_get_cooldown t i m of Inr (Some until) \<Rightarrow> until > t | _ \<Rightarrow> False) then (Inl WkCooling, w)
          else case incr_inflight i m of
            (Inl e, m') \<Rightarrow> (Inl (WkState e), w\<lparr>ww_state := Some m'\<rparr>)
          | (Inr n, m') \<Rightarrow>
              let w1 = w\<lparr>ww_state := Some m'\<rparr> in
              if n > ww_max_inflight w then (Inl WkOverInflight, undo_inflight i w1) else (Inr (), w1))"

definition wk_acquire_attempt ::
  "'r worker_env \<Rightarrow> int \<Rightarrow> bool \<Rightarrow> string \<Rightarrow> string \<Rightarrow> string list \<Rightarrow> 'r worker_world
   \<Rightarrow> (worker_error + lease) \<times> string list \<times> 'r worker_world" where
  "wk_acquire_attempt env t cancelled sticky model tried w =
     (if cancelled then (Inl WkCtx, tried, w)
      else let now = unix_sec t; w1 = hydrate_sticky t sticky w in
       case pick_excluding (we_metas env) (we_rand env) (ww_idx w1) now now sticky tried (ww_sel w1) of
         (None, sel') \<Rightarrow> (Inl WkNoAccount, tried, w1\<lparr>ww_sel := sel'\<rparr>)
       | (Some i, sel') \<Rightarrow>
          let w2 = w1\<lparr>ww_sel := sel'\<rparr> in
          if i = [] then (Inl WkNoAccount, tried, w2)
          else let tried' = i # tried in
           (case cluster_gate t i w2 of
              (Inl e, w3) \<Rightarrow> (Inl e, tried', w3)
            | (Inr u, w3) \<Rightarrow>
                (case store_get (ww_cat w3) i of
                   Inl e \<Rightarrow> (Inl (WkStore e), tried', undo_inflight i w3)
                 | Inr a \<Rightarrow>
                     if \<not> wk_account_usable a now then (Inl WkNotUsable, tried', undo_inflight i w3)
                     else
                       (Inr \<lparr>ls_account_id = acc_id a, ls_revision = acc_revision a mod 2 ^ 64,
                             ls_access_token = acc_access_token a, ls_proxy_url = acc_proxy_url a,
                             ls_proxy_mode = acc_proxy_mode a, ls_sticky_key = sticky, ls_model = model,
                             ls_attempt = length tried'\<rparr>,
                        tried', w3\<lparr>ww_idx := snd (add_inflight i (ww_idx w3))\<rparr>))))"

text \<open>The failover loop; \<open>clk\<close> and \<open>cancelled\<close> give clock and context at each attempt.\<close>

function wk_acquire_loop ::
  "'r worker_env \<Rightarrow> (nat \<Rightarrow> int) \<Rightarrow> (nat \<Rightarrow> bool) \<Rightarrow> string \<Rightarrow> string \<Rightarrow> nat \<Rightarrow> nat \<Rightarrow> worker_error option
   \<Rightarrow> string list \<Rightarrow> 'r worker_world \<Rightarrow> (worker_error + lease) \<times> 'r worker_world" where
  "wk_acquire_loop env clk cancelled sticky model mx attempt last_err tried w =
     (if attempt \<le> mx then
        case wk_acquire_attempt env (clk attempt) (cancelled attempt) sticky model tried w of
          (Inr l, tried', w') \<Rightarrow> (Inr l, w')
        | (Inl e, tried', w') \<Rightarrow>
            if e = WkNoAccount then (Inl WkNoAccount, w')
            else wk_acquire_loop env clk cancelled sticky model mx (Suc attempt) (Some e) tried' w'
      else (Inl (case last_err of None \<Rightarrow> WkNoAccount | Some e \<Rightarrow> e), w))"
  by pat_completeness auto
termination
  by (relation "measure (\<lambda>(env, clk, cancelled, sticky, model, mx, attempt, last_err, tried, w). Suc mx - attempt)")
     auto

declare wk_acquire_loop.simps [simp del]

definition wk_acquire ::
  "'r worker_env \<Rightarrow> (nat \<Rightarrow> int) \<Rightarrow> (nat \<Rightarrow> bool) \<Rightarrow> string \<Rightarrow> string \<Rightarrow> 'r worker_world
   \<Rightarrow> (worker_error + lease) \<times> 'r worker_world" where
  "wk_acquire env clk cancelled sticky model w =
     wk_acquire_loop env clk cancelled sticky model (nat (ww_max_attempts w)) 1 None [] w"

section \<open>Release\<close>

definition cooldown_for_status :: "int \<Rightarrow> int \<Rightarrow> int" where
  "cooldown_for_status code retry_after =
     (let sec = (\<lambda>n. n * 1000000000) in
      if retry_after > 0 then retry_after
      else if code = 401 then sec 120
      else if code = 402 then sec 300
      else if code = 403 then sec 900
      else if code = 429 then sec 60
      else if code = 0 then sec 30
      else if code \<ge> 500 then sec 30
      else 0)"

definition wk_release_success :: "int \<Rightarrow> lease \<Rightarrow> 'r worker_world \<Rightarrow> 'r worker_world" where
  "wk_release_success t l w =
     (if ls_sticky_key l = [] then w
      else let w1 = w\<lparr>ww_sel := bind_sticky (unix_sec t) (ls_sticky_key l) (ls_account_id l) (ww_sel w)\<rparr> in
       case ww_state w1 of
         None \<Rightarrow> w1
       | Some m \<Rightarrow>
           let (p, sel') = sticky_pair (unix_sec t) (ls_sticky_key l) (ww_sel w1);
               sec = (case p of None \<Rightarrow> [] | Some (a, s2) \<Rightarrow> if s2 = ls_account_id l then [] else s2);
               ttl = 1800 * 1000000000;
               m' = snd (put_sticky t (ls_sticky_key l)
                 \<lparr>sb_account_id = ls_account_id l, sb_secondary_account_id = sec, sb_worker_id = [],
                  sb_shard_id = 0, sb_exp = unix_sec (t + ttl)\<rparr> ttl m)
           in w1\<lparr>ww_sel := sel', ww_state := Some m'\<rparr>)"

definition wk_release_failure :: "'r worker_env \<Rightarrow> int \<Rightarrow> lease \<Rightarrow> lease_result \<Rightarrow> 'r worker_world \<Rightarrow> 'r worker_world" where
  "wk_release_failure env t l res w =
     (let cd = cooldown_for_status (lr_status_code res) (lr_retry_after res); i = ls_account_id l in
      if cd \<le> 0 then w
      else let until = t + cd;
               shared = (\<lambda>m. let m1 = snd (cs_set_cooldown i until m);
                                 m2 = (if ls_sticky_key l \<noteq> [] then snd (clear_sticky (ls_sticky_key l) m1) else m1)
                             in snd (clear_sticky_by_account i m2))
           in w\<lparr>ww_idx := snd (set_cooldown i (unix_sec until) (ww_idx w)),
                ww_state := map_option shared (ww_state w),
                ww_sel := clear_sticky_account (we_keys env) i (ww_sel w),
                ww_cat := snd (store_patch_health (ww_cat w) (unix_sec t) i
                  (no_patch\<lparr>hp_cooldown_until := Some (unix_sec until),
                            hp_last_error := Some (''status='' @ show_int (lr_status_code res))\<rparr>))\<rparr>)"

definition wk_release ::
  "'r worker_env \<Rightarrow> int \<Rightarrow> lease \<Rightarrow> lease_result \<Rightarrow> 'r worker_world \<Rightarrow> 'r worker_world" where
  "wk_release env t l res w =
     (let w1 = (if ls_account_id l \<noteq> []
                then undo_inflight (ls_account_id l)
                  (w\<lparr>ww_idx := snd (sub_inflight (ls_account_id l) (ww_idx w))\<rparr>)
                else w)
      in if lr_success res then wk_release_success t l w1 else wk_release_failure env t l res w1)"


section \<open>The shared count as a gate\<close>

definition cluster_count :: "'r worker_world \<Rightarrow> string \<Rightarrow> int" where
  "cluster_count w i = (case ww_state w of None \<Rightarrow> 0 | Some m \<Rightarrow> mem_count m i)"

definition wk_ready :: "int \<Rightarrow> 'r worker_world \<Rightarrow> bool" where
  "wk_ready cap w \<longleftrightarrow> wf_catalog (ww_cat w) \<and> ww_max_inflight w = cap \<and>
     (\<exists>m. ww_state w = Some m \<and> \<not> mem_closed m)"

lemma wk_readyE:
  assumes "wk_ready cap w"
  obtains m where "ww_state w = Some m" "\<not> mem_closed m" "cluster_count w = mem_count m"
  using assms by (auto simp: wk_ready_def cluster_count_def fun_eq_iff)

lemma hydrate_frame [simp, frame_simps]:
  "ww_state (hydrate_sticky t k w) = ww_state w" "ww_cat (hydrate_sticky t k w) = ww_cat w"
  "ww_idx (hydrate_sticky t k w) = ww_idx w" "ww_max_inflight (hydrate_sticky t k w) = ww_max_inflight w"
  by (auto simp: hydrate_sticky_def Let_def split: option.split sum.split)

lemma same_account_usable: "wk_account_usable a now = account_usable a now"
  by (auto simp: wk_account_usable_def account_usable_def)

lemma undo_inflight_spec:
  assumes "wk_ready cap w" "0 < cluster_count w i" "cluster_count w i < 2 ^ 63 - 1"
  shows "wk_ready cap (undo_inflight i w)"
    "cluster_count (undo_inflight i w) = (cluster_count w)(i := cluster_count w i - 1)"
proof -
  obtain m where m: "ww_state w = Some m" "\<not> mem_closed m" "cluster_count w = mem_count m"
    using assms(1) by (rule wk_readyE)
  from decr_inflight_spec [OF m(2), of i] assms(2,3) m(3) obtain m' where
    "decr_inflight i m = (Inr (mem_count m i - 1), m')" "\<not> mem_closed m'"
    "mem_count m' = (mem_count m)(i := mem_count m i - 1)" by auto
  then show "wk_ready cap (undo_inflight i w)"
    "cluster_count (undo_inflight i w) = (cluster_count w)(i := cluster_count w i - 1)"
    using assms(1) m by (auto simp: wk_ready_def undo_inflight_def cluster_count_def fun_eq_iff)
qed

lemma cluster_gate_spec:
  assumes "wk_ready cap w" "0 \<le> cluster_count w i" "cluster_count w i < 2 ^ 63 - 2" "cluster_gate t i w = (r, w')"
  shows "wk_ready cap w' \<and> ww_cat w' = ww_cat w \<and> ww_idx w' = ww_idx w \<and> ww_sel w' = ww_sel w \<and>
    (case r of Inl e \<Rightarrow> cluster_count w' = cluster_count w
     | Inr u \<Rightarrow> cluster_count w' = (cluster_count w)(i := cluster_count w i + 1) \<and> cluster_count w' i \<le> cap)"
proof -
  obtain m where m: "ww_state w = Some m" "\<not> mem_closed m" "cluster_count w = mem_count m"
    using assms(1) by (rule wk_readyE)
  from incr_inflight_spec [OF m(2), of i] assms(2,3) m(3) obtain m' where
    i: "incr_inflight i m = (Inr (mem_count m i + 1), m')" "\<not> mem_closed m'"
    "mem_count m' = (mem_count m)(i := mem_count m i + 1)" by auto
  define w1 where "w1 = w\<lparr>ww_state := Some m'\<rparr>"
  have w1: "wk_ready cap w1" "cluster_count w1 = (cluster_count w)(i := cluster_count w i + 1)"
    "ww_cat w1 = ww_cat w" "ww_idx w1 = ww_idx w" "ww_sel w1 = ww_sel w"
    using assms(1) i m by (auto simp: w1_def wk_ready_def cluster_count_def fun_eq_iff)
  consider (cooling) "r = Inl WkCooling" "w' = w" | (over) "r = Inl WkOverInflight" "w' = undo_inflight i w1"
    | (ok) "r = Inr ()" "w' = w1" "mem_count m i + 1 \<le> cap"
    using assms(1,4) m(1) i(1) by (auto simp: cluster_gate_def Let_def w1_def wk_ready_def split: if_splits)
  then show ?thesis
  proof cases
    case over
    have "0 < cluster_count w1 i" "cluster_count w1 i < 2 ^ 63 - 1" using assms(2,3) w1(2) by simp_all
    from undo_inflight_spec [OF w1(1) this] over w1 show ?thesis by (auto simp: undo_inflight_def)
  qed (use assms(1) w1 m in auto)
qed

lemma wk_attempt_spec:
  assumes "wk_ready cap w" "\<And>j. 0 \<le> cluster_count w j \<and> cluster_count w j < 2 ^ 63 - 2"
    "wk_acquire_attempt env t cancelled sticky model tried w = (r, tried', w')"
  shows "wk_ready cap w' \<and>
    (case r of Inl e \<Rightarrow> cluster_count w' = cluster_count w
     | Inr l \<Rightarrow> ls_account_id l \<noteq> [] \<and> cluster_count w' (ls_account_id l) \<le> cap \<and>
         cluster_count w' = (cluster_count w)(ls_account_id l := cluster_count w (ls_account_id l) + 1))"
proof (cases cancelled)
  case True
  then show ?thesis using assms(1,3) by (auto simp: wk_acquire_attempt_def)
next
  case False
  note go = False
  define w1 where "w1 = hydrate_sticky t sticky w"
  obtain p sel' where p: "pick_excluding (we_metas env) (we_rand env) (ww_idx w1) (unix_sec t) (unix_sec t) sticky tried (ww_sel w1) = (p, sel')"
    by fastforce
  define w2 where "w2 = w1\<lparr>ww_sel := sel'\<rparr>"
  have w2: "wk_ready cap w2" "cluster_count w2 = cluster_count w" "ww_cat w2 = ww_cat w"
    using assms(1) by (auto simp: w2_def w1_def wk_ready_def cluster_count_def)
  show ?thesis
  proof (cases "\<exists>i. p = Some i \<and> i \<noteq> []")
    case False
    then have "(\<exists>e. r = Inl e) \<and> w' = w2"
      using assms(3) go p by (cases p) (auto simp: wk_acquire_attempt_def Let_def w2_def simp flip: w1_def)
    then show ?thesis using w2 by auto
  next
    case True
    then obtain i where i: "p = Some i" "i \<noteq> []" by blast
    obtain g w3 where g: "cluster_gate t i w2 = (g, w3)" by fastforce
    have bi: "0 \<le> cluster_count w2 i" "cluster_count w2 i < 2 ^ 63 - 2" using assms(2) [of i] w2(2) by simp_all
    note gate = cluster_gate_spec [OF w2(1) bi g]
    show ?thesis
    proof (cases g)
      case (Inl e)
      then have "(\<exists>e. r = Inl e) \<and> w' = w3"
        using assms(3) go p i g by (auto simp: wk_acquire_attempt_def Let_def w2_def simp flip: w1_def)
      then show ?thesis using gate Inl w2 by auto
    next
      case (Inr u)
      then have w3: "wk_ready cap w3" "cluster_count w3 = (cluster_count w)(i := cluster_count w i + 1)"
        "cluster_count w3 i \<le> cap" "ww_cat w3 = ww_cat w" using gate w2 by auto
      have pos: "0 < cluster_count w3 i" "cluster_count w3 i < 2 ^ 63 - 1" using assms(2) [of i] w3(2) by auto
      note undo = undo_inflight_spec [OF w3(1) pos]
      consider (undone) "\<exists>e. r = Inl e" "w' = undo_inflight i w3"
        | (got) a where "store_get (ww_cat w3) i = Inr a" "\<exists>l. r = Inr l \<and> ls_account_id l = acc_id a"
            "w' = w3\<lparr>ww_idx := snd (add_inflight i (ww_idx w3))\<rparr>"
        using assms(3) go p i g Inr
        by (auto simp: wk_acquire_attempt_def Let_def w2_def simp flip: w1_def split: sum.splits if_splits)
      then show ?thesis
      proof cases
        case undone
        then show ?thesis using undo w3(2) by auto
      next
        case got
        have "cat_get (ww_cat w3) i = Inr a" using got(1) by (auto simp: store_get_def map_sum_def split: sum.splits)
        then have "acc_id a = i"
          using cat_get_Inr wf_rowsD [OF wf_catalogD] w3(1) by (fastforce simp: wk_ready_def wf_account_def)
        moreover have "cluster_count w' = cluster_count w3" "wk_ready cap w'"
          using got(3) w3(1) by (simp_all add: cluster_count_def wk_ready_def fun_eq_iff)
        ultimately show ?thesis using got(2) w3(2,3) i(2) by auto
      qed
    qed
  qed
qed


lemma wk_loop_spec:
  assumes "wk_ready cap w" "\<And>j. 0 \<le> cluster_count w j \<and> cluster_count w j < 2 ^ 63 - 2"
    "wk_acquire_loop env clk cancelled sticky model mx attempt last_err tried w = (r, w')"
  shows "wk_ready cap w' \<and>
    (case r of Inl e \<Rightarrow> cluster_count w' = cluster_count w
     | Inr l \<Rightarrow> ls_account_id l \<noteq> [] \<and> cluster_count w' (ls_account_id l) \<le> cap \<and>
         cluster_count w' = (cluster_count w)(ls_account_id l := cluster_count w (ls_account_id l) + 1))"
  using assms
proof (induction "Suc mx - attempt" arbitrary: attempt last_err tried w rule: less_induct)
  case less
  show ?case
  proof (cases "attempt \<le> mx")
    case False
    then show ?thesis using less(2,4) by (subst (asm) wk_acquire_loop.simps) auto
  next
    case True
    obtain r1 t1 w1 where a: "wk_acquire_attempt env (clk attempt) (cancelled attempt) sticky model tried w = (r1, t1, w1)"
      by (metis prod.exhaust)
    note spec = wk_attempt_spec [OF less(2,3) a]
    show ?thesis
    proof (cases "\<exists>e. r1 = Inl e \<and> e \<noteq> WkNoAccount")
      case False
      then have "w' = w1" "r = r1"
        using less(4) True a by (subst (asm) wk_acquire_loop.simps; cases r1; simp)+
      then show ?thesis using spec by (simp only:)
    next
      case True
      then obtain e where e: "r1 = Inl e" "e \<noteq> WkNoAccount" by blast
      have "wk_acquire_loop env clk cancelled sticky model mx (Suc attempt) (Some e) t1 w1 = (r, w')"
        using less(4) \<open>attempt \<le> mx\<close> a e by (subst (asm) wk_acquire_loop.simps) simp
      moreover have w1: "wk_ready cap w1" "cluster_count w1 = cluster_count w" using spec e by simp_all
      moreover have "Suc mx - Suc attempt < Suc mx - attempt" using \<open>attempt \<le> mx\<close> by simp
      ultimately show ?thesis using less(1) [of "Suc attempt" w1 "Some e" t1] less(3) by (simp only: w1(2))
    qed
  qed
qed

lemma wk_release_spec:
  assumes "wk_ready cap w" "ls_account_id l \<noteq> []" "0 < cluster_count w (ls_account_id l)"
    "cluster_count w (ls_account_id l) < 2 ^ 63 - 2"
  shows "wk_ready cap (wk_release env t l res w) \<and>
    cluster_count (wk_release env t l res w) = (cluster_count w)(ls_account_id l := cluster_count w (ls_account_id l) - 1)"
proof -
  define w1 where "w1 = undo_inflight (ls_account_id l) (w\<lparr>ww_idx := snd (sub_inflight (ls_account_id l) (ww_idx w))\<rparr>)"
  let ?w0 = "w\<lparr>ww_idx := snd (sub_inflight (ls_account_id l) (ww_idx w))\<rparr>"
  have w0: "wk_ready cap ?w0" "cluster_count ?w0 = cluster_count w"
    using assms(1) by (simp_all add: wk_ready_def cluster_count_def fun_eq_iff)
  have w1: "wk_ready cap w1" "cluster_count w1 = (cluster_count w)(ls_account_id l := cluster_count w (ls_account_id l) - 1)"
    using undo_inflight_spec [OF w0(1), of "ls_account_id l"] w0(2) assms(3,4) by (simp_all add: w1_def)
  obtain m where m: "ww_state w1 = Some m" "\<not> mem_closed m" using w1(1) by (rule wk_readyE)
  have s: "wk_ready cap (wk_release_success t l w1) \<and> cluster_count (wk_release_success t l w1) = cluster_count w1"
    using w1(1) m by (auto simp: wk_release_success_def wk_ready_def cluster_count_def fun_eq_iff Let_def
        put_sticky_def mem_count_def split: prod.split)
  have f: "wk_ready cap (wk_release_failure env t l res w1) \<and> cluster_count (wk_release_failure env t l res w1) = cluster_count w1"
    using w1(1) m wf_patch_health
    by (auto simp: wk_release_failure_def wk_ready_def cluster_count_def fun_eq_iff Let_def mem_count_def
        cs_set_cooldown_def clear_sticky_def clear_sticky_by_account_def store_patch_health_def)
  have "wk_release env t l res w = (if lr_success res then wk_release_success t l w1 else wk_release_failure env t l res w1)"
    using assms(2) by (simp add: wk_release_def w1_def)
  then show ?thesis using s f w1(2) by simp
qed

definition wk_attempt ::
  "'r worker_env \<Rightarrow> (nat \<Rightarrow> int) \<times> (nat \<Rightarrow> bool) \<times> string \<times> string \<Rightarrow> 'r worker_world
   \<Rightarrow> lease option \<times> 'r worker_world" where
  "wk_attempt env = (\<lambda>(clk, cancelled, sticky, model) w.
     case wk_acquire env clk cancelled sticky model w of (Inl e, w') \<Rightarrow> (None, w') | (Inr l, w') \<Rightarrow> (Some l, w'))"

definition wk_give_back :: "'r worker_env \<Rightarrow> int \<times> lease_result \<Rightarrow> lease \<Rightarrow> 'r worker_world \<Rightarrow> 'r worker_world" where
  "wk_give_back env = (\<lambda>(t, res) l w. wk_release env t l res w)"

lemma wk_attempt_cases:
  assumes "wk_ready cap w" "\<And>j. 0 \<le> cluster_count w j \<and> cluster_count w j < 2 ^ 63 - 2" "wk_attempt env a w = (r, w')"
  shows "wk_ready cap w' \<and> (case r of None \<Rightarrow> cluster_count w' = cluster_count w
     | Some l \<Rightarrow> lease_valid l \<and> cluster_count w' (ls_account_id l) \<le> cap \<and>
         cluster_count w' = (cluster_count w)(ls_account_id l := cluster_count w (ls_account_id l) + 1))"
proof -
  obtain clk cancelled sticky model where a: "a = (clk, cancelled, sticky, model)" by (cases a)
  obtain q where "wk_acquire env clk cancelled sticky model w = (q, w')" "r = (case q of Inl e \<Rightarrow> None | Inr l \<Rightarrow> Some l)"
    using assms(3) by (auto simp: wk_attempt_def a split: prod.splits sum.splits)
  moreover from this have "wk_acquire_loop env clk cancelled sticky model (nat (ww_max_attempts w)) 1 None [] w = (q, w')"
    by (simp add: wk_acquire_def)
  note wk_loop_spec [OF assms(1,2) this]
  ultimately show ?thesis by (cases q) (auto simp: lease_valid_def)
qed

interpretation worker_gate: capped_gate "wk_ready cap" cluster_count ls_account_id lease_valid
  "wk_attempt env" "wk_give_back env" "2 ^ 63 - 2" "\<lambda>i. cap" for env cap
proof
  fix env :: "'a worker_env" and w w' :: "'a worker_world" and a l
  assume w: "wk_ready cap w" and bnd: "\<And>j. 0 \<le> cluster_count w j \<and> cluster_count w j < 2 ^ 63 - 2"
  show "wk_ready cap w' \<and> lease_valid l \<and> cluster_count w' = (cluster_count w)(ls_account_id l := cluster_count w (ls_account_id l) + 1)"
    if "wk_attempt env a w = (Some l, w')" using wk_attempt_cases [OF w bnd that] by auto
  show "cluster_count w' (ls_account_id l) \<le> cap" if "wk_attempt env a w = (Some l, w')"
    using wk_attempt_cases [OF w bnd that] by auto
  show "wk_ready cap w' \<and> cluster_count w' = cluster_count w" if "wk_attempt env a w = (None, w')"
    using wk_attempt_cases [OF w bnd that] by auto
next
  fix env :: "'a worker_env" and w :: "'a worker_world" and b l
  assume "wk_ready cap w" "lease_valid l" "0 < cluster_count w (ls_account_id l)" "cluster_count w (ls_account_id l) < 2 ^ 63 - 2"
  then show "wk_ready cap (wk_give_back env b l w) \<and>
      cluster_count (wk_give_back env b l w) = (cluster_count w)(ls_account_id l := cluster_count w (ls_account_id l) - 1)"
    using wk_release_spec [of cap w l env "fst b" "snd b"] by (simp add: lease_valid_def wk_give_back_def split_beta)
qed


section \<open>Properties\<close>

definition sample_worker_env :: "nat worker_env" where
  "sample_worker_env = \<lparr>we_rand = sample_rand, we_metas = (\<lambda>xs. xs), we_keys = rev\<rparr>"

definition sample_worker :: "nat worker_world" where
  "sample_worker = new_store_leaser sample_catalog sample_index sample_selector (Some new_memory) 1 0"

lemma sample_worker_ready: "wk_ready 1 sample_worker"
  using wf_cat_steps [OF sample_catalog_steps wf_empty]
  by (simp add: wk_ready_def sample_worker_def new_store_leaser_def new_memory_def)

lemma sample_worker_count: "cluster_count sample_worker i = 0"
  by (simp add: sample_worker_def new_store_leaser_def cluster_count_def mem_count_def new_memory_def)

text \<open>
  C18. The cluster gate of a worker is exact and hard: over any interleaving of its acquisitions
  (each failing over up to the configured attempts, with any clocks, contexts and bindings) and
  releases, the shared in-flight count of every account is its initial count plus the leases
  that are out, and it never gets above the worker's limit.
\<close>

theorem worker_gate_balanced:
  assumes "wk_ready mx w" "worker_gate.run env es [] w = (out, w')"
    and "\<And>i. 0 \<le> cluster_count w i \<and> cluster_count w i \<le> mx \<and> cluster_count w i + int (length es) < 2 ^ 63 - 2"
  shows "cluster_count w' i = cluster_count w i + int (count_list (map ls_account_id out) i) \<and>
    cluster_count w' i \<le> mx \<and> wf_catalog (ww_cat w')"
  using worker_gate.run_tracks [of mx w "[]" es env i] worker_gate.run_capped [of mx w "[]" es env i] assms
  by (simp add: worker_gate.held_def wk_ready_def)

theorem worker_gate_balanced_witness:
  "cluster_count (snd (worker_gate.run sample_worker_env
     [Enter (\<lambda>k. 20000000000, \<lambda>k. False, ''k'', ''m''), Enter (\<lambda>k. 21000000000, \<lambda>k. False, ''k'', ''m'')] [] sample_worker)) ''b'' = 1"
proof -
  define a where "a = (\<lambda>k :: nat. 20000000000 :: int, \<lambda>k :: nat. False, ''k'', ''m'')"
  define b where "b = (\<lambda>k :: nat. 21000000000 :: int, \<lambda>k :: nat. False, ''k'', ''m'')"
  define w1 where "w1 = snd (wk_attempt sample_worker_env a sample_worker)"
  define w2 where "w2 = snd (wk_attempt sample_worker_env b w1)"
  have "map_option ls_account_id (fst (wk_attempt sample_worker_env a sample_worker)) = Some ''b''"
    unfolding a_def by code_simp
  then obtain l where 1: "wk_attempt sample_worker_env a sample_worker = (Some l, w1)" "ls_account_id l = ''b''"
    by (auto simp: w1_def prod_eq_iff)
  have "map_option ls_account_id (fst (wk_attempt sample_worker_env b w1)) = Some ''a''"
    unfolding a_def b_def w1_def by code_simp
  then obtain k where 2: "wk_attempt sample_worker_env b w1 = (Some k, w2)" "ls_account_id k = ''a''"
    by (auto simp: w2_def prod_eq_iff)
  have out: "worker_gate.run sample_worker_env [Enter a, Enter b] [] sample_worker = ([k, l], w2)"
    by (simp add: 1(1) 2(1))
  from worker_gate_balanced [OF sample_worker_ready out, of "''b''"] show ?thesis
    by (simp add: sample_worker_count out 1(2) 2(2) del: worker_gate.run.simps flip: a_def b_def)
qed


lemma wk_failure_shared:
  assumes "ww_state w = Some m" "\<not> mem_closed m" "0 < cooldown_for_status (lr_status_code res) (lr_retry_after res)"
  shows "\<exists>m2. ww_state (wk_release_failure env t l res w) = Some m2 \<and> \<not> mem_closed m2 \<and>
    map_of (mem_cooldown m2) (ls_account_id l) =
      Some (unix_sec (t + cooldown_for_status (lr_status_code res) (lr_retry_after res))) \<and>
    mem_sticky m2 = filter (\<lambda>(k, b). \<not> (sb_account_id b = ls_account_id l \<or> sb_secondary_account_id b = ls_account_id l))
      (if ls_sticky_key l \<noteq> [] then gm_del (ls_sticky_key l) (mem_sticky m) else mem_sticky m)"
  using assms
  by (simp add: wk_release_failure_def Let_def cs_set_cooldown_def clear_sticky_def clear_sticky_by_account_def)

text \<open>
  A failure that cools an account down is visible to every worker on the shared state: after
  the release of a lease with such a status the gate refuses the account until the deadline,
  whatever the worker's own index says, and no shared binding of any session names it.
\<close>

theorem worker_cooldown_shared:
  assumes "ww_state w = Some m" "\<not> mem_closed m" "\<not> lr_success res"
    "0 < cooldown_for_status (lr_status_code res) (lr_retry_after res)"
    "unix_sec t' < unix_sec (t + cooldown_for_status (lr_status_code res) (lr_retry_after res))"
    "ww_state v = ww_state (wk_release env t l res w)"
  shows "cluster_gate t' (ls_account_id l) v = (Inl WkCooling, v) \<and>
    (case ww_state v of None \<Rightarrow> False | Some m' \<Rightarrow> list_all (\<lambda>(k, b).
      sb_account_id b \<noteq> ls_account_id l \<and> sb_secondary_account_id b \<noteq> ls_account_id l) (mem_sticky m'))"
proof -
  let ?i = "ls_account_id l" and ?u = "t + cooldown_for_status (lr_status_code res) (lr_retry_after res)"
  define w1 where "w1 = (if ?i \<noteq> [] then undo_inflight ?i
      (w\<lparr>ww_idx := snd (sub_inflight ?i (ww_idx w))\<rparr>) else w)"
  obtain m1 where m1: "ww_state w1 = Some m1" "\<not> mem_closed m1"
    using assms(1,2) that
    by (cases "?i = []") (auto simp: w1_def undo_inflight_def decr_inflight_def Let_def)
  have "wk_release env t l res w = wk_release_failure env t l res w1"
    using assms(3) by (simp add: wk_release_def w1_def)
  then obtain m2 where m2: "ww_state v = Some m2" "\<not> mem_closed m2" "gm_get (mem_cooldown m2) ?i = Some (unix_sec ?u)"
    "list_all (\<lambda>(k, b). sb_account_id b \<noteq> ?i \<and> sb_secondary_account_id b \<noteq> ?i) (mem_sticky m2)"
    using wk_failure_shared [OF m1 assms(4), of env t l] assms(6) by (auto simp: list_all_iff)
  have "t' < unix_sec ?u * 1000000000" using assms(5) by (simp add: unix_sec_def)
  then have "cluster_gate t' ?i v = (Inl WkCooling, v)"
    using m2 assms(5) by (simp add: cluster_gate_def cs_get_cooldown_def)
  then show ?thesis using m2(1,4) by simp
qed

theorem worker_cooldown_shared_witness:
  "cluster_gate 25000000000 ''b'' (wk_release sample_worker_env 20000000000 sample_lease
     \<lparr>lr_status_code = 429, lr_retry_after = 0, lr_success = False\<rparr> sample_worker) =
   (Inl WkCooling, wk_release sample_worker_env 20000000000 sample_lease
     \<lparr>lr_status_code = 429, lr_retry_after = 0, lr_success = False\<rparr> sample_worker)"
proof -
  let ?res = "\<lparr>lr_status_code = 429, lr_retry_after = 0, lr_success = False\<rparr>"
  have s: "ww_state sample_worker = Some new_memory" "\<not> mem_closed new_memory"
    by (simp_all add: sample_worker_def new_store_leaser_def new_memory_def)
  show ?thesis
    using worker_cooldown_shared [OF s, of ?res 25000000000 20000000000
        "wk_release sample_worker_env 20000000000 sample_lease ?res sample_worker" sample_worker_env sample_lease]
    by (simp add: cooldown_for_status_def unix_sec_def sample_lease_def)
qed

end
