(* ===== verification/Clients.thy ===== *)
theory Clients
  imports Contracts
begin

text \<open>
  The client tokens (\<open>internal/clients/store.go\<close>, \<open>types.go\<close>): the table of issued keys with
  their quota, and the in-process gates of concurrency and requests per minute. The table is a
  map from ids to rows; every statement runs under the store's mutex. The SHA-256 of a key is
  the argument \<open>hash\<close>; the random hex strings of new ids and keys are arguments. SQL statements
  are taken to execute as defined, and the quota counters to stay within SQLite's integers.
\<close>

section \<open>Data\<close>

datatype client_error =
  ClNotFound | ClDisabled | ClExpired | ClQuotaExceeded | ClUnauthorized | ClConcurrencyLimit int
  | ClRPMLimit int | ClBadRequest | ClConstraint

record token =
  tk_id :: string
  tk_name :: string
  tk_key_prefix :: string
  tk_key_hash :: string
  tk_api_key :: string
  tk_enabled :: bool
  tk_remain_quota :: int
  tk_unlimited_quota :: bool
  tk_max_concurrent :: int
  tk_rpm :: int
  tk_used_quota :: int
  tk_request_count :: int
  tk_inflight :: int
  tk_expires_at :: int
  tk_created_at :: int
  tk_updated_at :: int
  tk_last_used_at :: int

record create_request =
  cr_name :: string
  cr_remain_quota :: "int option"
  cr_unlimited_quota :: "bool option"
  cr_max_concurrent :: "int option"
  cr_rpm :: "int option"
  cr_expires_at :: int
  cr_count :: int

record patch_request =
  pr_name :: "string option"
  pr_remain_quota :: "int option"
  pr_unlimited_quota :: "bool option"
  pr_max_concurrent :: "int option"
  pr_rpm :: "int option"
  pr_enabled :: "bool option"
  pr_expires_at :: "int option"

record auth_info =
  ai_token_id :: string
  ai_name :: string
  ai_max_concurrent :: int
  ai_rpm :: int

record rpm_window =
  rw_start :: int
  rw_count :: int

record client_store =
  cl_tokens :: "(string, token) gomap"
  cl_inflight :: "(string, int) gomap"
  cl_rpm_win :: "(string, rpm_window) gomap"

definition empty_clients :: client_store where
  "empty_clients = \<lparr>cl_tokens = [], cl_inflight = [], cl_rpm_win = []\<rparr>"

section \<open>Issuing keys\<close>

text \<open>The ellipsis of the displayed prefix is the UTF-8 encoding of U+2026.\<close>

definition ellipsis :: string where
  "ellipsis = [char_of (226 :: nat), char_of (128 :: nat), char_of (166 :: nat)]"

definition new_api_key :: "(string \<Rightarrow> string) \<Rightarrow> string \<Rightarrow> string \<times> string \<times> string" where
  "new_api_key hash hex =
     (let plain = ''sk-'' @ hex;
          prefix = (if length plain > 10 then take 7 plain @ ellipsis @ drop (length plain - 4) plain else plain)
      in (plain, prefix, hash plain))"

definition new_token :: "(string \<Rightarrow> string) \<Rightarrow> int \<Rightarrow> create_request \<Rightarrow> string \<Rightarrow> string \<Rightarrow> string \<Rightarrow> token" where
  "new_token hash now req name id_hex key_hex =
     (let (plain, prefix, h) = new_api_key hash key_hex; val = (\<lambda>f. case f of None \<Rightarrow> 0 | Some v \<Rightarrow> v) in
      \<lparr>tk_id = ''tok_'' @ id_hex, tk_name = name, tk_key_prefix = prefix, tk_key_hash = h, tk_api_key = plain,
       tk_enabled = True, tk_remain_quota = val (cr_remain_quota req),
       tk_unlimited_quota = (case cr_unlimited_quota req of None \<Rightarrow> False | Some b \<Rightarrow> b),
       tk_max_concurrent = val (cr_max_concurrent req), tk_rpm = val (cr_rpm req), tk_used_quota = 0,
       tk_request_count = 0, tk_inflight = 0, tk_expires_at = cr_expires_at req, tk_created_at = now,
       tk_updated_at = now, tk_last_used_at = 0\<rparr>)"

text \<open>The checks of a request, in the order of the code.\<close>

definition create_args_ok :: "create_request \<Rightarrow> bool" where
  "create_args_ok req \<longleftrightarrow> cr_count req \<le> 100 \<and>
     (case cr_remain_quota req of None \<Rightarrow> True | Some v \<Rightarrow> 0 \<le> v) \<and>
     (case cr_max_concurrent req of None \<Rightarrow> True | Some v \<Rightarrow> 0 \<le> v) \<and>
     (case cr_rpm req of None \<Rightarrow> True | Some v \<Rightarrow> 0 \<le> v)"

text \<open>
  The inserts of one transaction; the id and the key hash are unique in the table. The random
  source gives one pair of hex strings (id, key) for each token.
\<close>

fun create_loop ::
  "(string \<Rightarrow> string) \<Rightarrow> int \<Rightarrow> create_request \<Rightarrow> string \<Rightarrow> nat \<Rightarrow> nat \<Rightarrow> (string \<times> string) list
   \<Rightarrow> (string, token) gomap \<Rightarrow> token list \<Rightarrow> client_error + token list \<times> (string, token) gomap" where
  "create_loop hash now req name n i [] rows out = Inr (out, rows)"
| "create_loop hash now req name n i ((id_hex, key_hex) # rest) rows out =
     (let item = (if n > 1 then name @ ''-'' @ show_int (int i + 1) else name);
          t = new_token hash now req item id_hex key_hex in
      if gm_get rows (tk_id t) \<noteq> None \<or> list_ex (\<lambda>(k, u). tk_key_hash u = tk_key_hash t) rows then Inl ClConstraint
      else create_loop hash now req name n (Suc i) rest (gm_put (tk_id t) t rows) (out @ [t]))"

definition cl_create ::
  "(string \<Rightarrow> string) \<Rightarrow> int \<Rightarrow> (nat \<Rightarrow> string \<times> string) \<Rightarrow> create_request \<Rightarrow> client_store
   \<Rightarrow> (client_error + token list) \<times> client_store" where
  "cl_create hash now random req s =
     (if \<not> create_args_ok req then (Inl ClBadRequest, s)
      else let n = (if cr_count req \<le> 0 then 1 else nat (cr_count req));
               name = (if trim_space (cr_name req) = [] then ''token'' else trim_space (cr_name req)) in
       case create_loop hash now req name n 0 (map random [0..<n]) (cl_tokens s) [] of
         Inl e \<Rightarrow> (Inl e, s)
       | Inr (ts, rows) \<Rightarrow> (Inr ts, s\<lparr>cl_tokens := rows\<rparr>))"

section \<open>Reading\<close>

text \<open>The columns the reads select: not the hash; the in-flight count comes from the gate.\<close>

definition shown :: "client_store \<Rightarrow> token \<Rightarrow> token" where
  "shown s t = t\<lparr>tk_key_hash := [], tk_inflight := gm_default 0 (cl_inflight s) (tk_id t)\<rparr>"

definition current_inflight :: "client_store \<Rightarrow> string \<Rightarrow> int" where
  "current_inflight s i = gm_default 0 (cl_inflight s) i"

definition cl_get_by_id :: "client_store \<Rightarrow> string \<Rightarrow> client_error + token" where
  "cl_get_by_id s i =
     (case gm_get (cl_tokens s) i of
        None \<Rightarrow> Inl ClNotFound
      | Some t \<Rightarrow> Inr (t\<lparr>tk_key_hash := [], tk_inflight := 0\<rparr>))"

definition cl_get :: "client_store \<Rightarrow> string \<Rightarrow> client_error + token" where
  "cl_get s i = map_sum id (\<lambda>t. t\<lparr>tk_inflight := current_inflight s i\<rparr>) (cl_get_by_id s i)"

text \<open>Rows created in the same second come in an order SQL leaves open: \<open>ord\<close>.\<close>

definition cl_list :: "(token list \<Rightarrow> token list) \<Rightarrow> client_store \<Rightarrow> int \<Rightarrow> token list" where
  "cl_list ord s limit0 =
     (let limit = (if limit0 \<le> 0 \<or> limit0 > 500 then 100 else limit0) in
      map (shown s) (take (nat limit) (sort_key (\<lambda>t. - tk_created_at t) (ord (map snd (cl_tokens s))))))"

definition cl_stats :: "client_store \<Rightarrow> nat \<times> nat \<times> nat" where
  "cl_stats s =
     (let ts = map snd (cl_tokens s) in
      (length ts, length (filter tk_enabled ts),
       length (filter (\<lambda>t. \<not> tk_unlimited_quota t \<and> tk_remain_quota t \<le> 0) ts)))"

section \<open>Administration\<close>

definition forget_gates :: "string \<Rightarrow> client_store \<Rightarrow> client_store" where
  "forget_gates i s = s\<lparr>cl_inflight := gm_del i (cl_inflight s), cl_rpm_win := gm_del i (cl_rpm_win s)\<rparr>"

definition cl_delete :: "string \<Rightarrow> client_store \<Rightarrow> client_error option \<times> client_store" where
  "cl_delete i s =
     (if gm_get (cl_tokens s) i = None then (Some ClNotFound, s)
      else (None, forget_gates i (s\<lparr>cl_tokens := gm_del i (cl_tokens s)\<rparr>)))"

text \<open>The deletions run in chunks of 400 ids inside one transaction.\<close>

function delete_many_loop :: "string list \<Rightarrow> (string, token) gomap \<Rightarrow> nat \<Rightarrow> nat \<times> (string, token) gomap" where
  "delete_many_loop ids rows n =
     (if ids = [] then (n, rows)
      else let part = take 400 ids; rows' = filter (\<lambda>(k, t). k \<notin> set part) rows in
        delete_many_loop (drop 400 ids) rows' (n + (length rows - length rows')))"
  by pat_completeness auto
termination by (relation "measure (\<lambda>(ids, rows, n). length ids)") auto

declare delete_many_loop.simps [simp del]

definition cl_delete_many :: "string list \<Rightarrow> client_store \<Rightarrow> (client_error + nat) \<times> client_store" where
  "cl_delete_many ids s =
     (let clean = clean_ids [] ids in
      if clean = [] then (Inl ClBadRequest, s)
      else let (n, rows) = delete_many_loop clean (cl_tokens s) 0 in
        (Inr n, fold forget_gates clean (s\<lparr>cl_tokens := rows\<rparr>)))"

definition cl_set_enabled :: "int \<Rightarrow> string \<Rightarrow> bool \<Rightarrow> client_store \<Rightarrow> client_error option \<times> client_store" where
  "cl_set_enabled now i en s =
     (case gm_get (cl_tokens s) i of
        None \<Rightarrow> (Some ClNotFound, s)
      | Some t \<Rightarrow> (None, s\<lparr>cl_tokens := gm_put i (t\<lparr>tk_enabled := en, tk_updated_at := now\<rparr>) (cl_tokens s)\<rparr>))"

text \<open>What a patch makes of a row, or None when a value is refused.\<close>

definition patched :: "int \<Rightarrow> patch_request \<Rightarrow> token \<Rightarrow> token option" where
  "patched now p t =
     (let nonneg = (\<lambda>f. case f of None \<Rightarrow> True | Some v \<Rightarrow> (0 :: int) \<le> v);
          set' = (\<lambda>f old. case f of None \<Rightarrow> old | Some v \<Rightarrow> v) in
      if (case pr_name p of None \<Rightarrow> False | Some n \<Rightarrow> trim_space n = []) then None
      else if \<not> nonneg (pr_remain_quota p) \<or> \<not> nonneg (pr_max_concurrent p) \<or> \<not> nonneg (pr_rpm p) \<or>
              \<not> nonneg (pr_expires_at p) then None
      else Some (t\<lparr>tk_name := (case pr_name p of None \<Rightarrow> tk_name t | Some n \<Rightarrow> trim_space n),
          tk_remain_quota := set' (pr_remain_quota p) (tk_remain_quota t),
          tk_unlimited_quota := (case pr_unlimited_quota p of None \<Rightarrow> tk_unlimited_quota t | Some v \<Rightarrow> v),
          tk_max_concurrent := set' (pr_max_concurrent p) (tk_max_concurrent t),
          tk_rpm := set' (pr_rpm p) (tk_rpm t),
          tk_enabled := (case pr_enabled p of None \<Rightarrow> tk_enabled t | Some v \<Rightarrow> v),
          tk_expires_at := set' (pr_expires_at p) (tk_expires_at t), tk_updated_at := now\<rparr>))"

definition cl_patch :: "int \<Rightarrow> string \<Rightarrow> patch_request \<Rightarrow> client_store \<Rightarrow> (client_error + token) \<times> client_store" where
  "cl_patch now i p s =
     (case gm_get (cl_tokens s) i of
        None \<Rightarrow> (Inl ClNotFound, s)
      | Some t \<Rightarrow>
          (case patched now p t of
             None \<Rightarrow> (Inl ClBadRequest, s)
           | Some t' \<Rightarrow>
               (Inr (t'\<lparr>tk_key_hash := [], tk_inflight := gm_default 0 (cl_inflight s) i\<rparr>),
                s\<lparr>cl_tokens := gm_put i t' (cl_tokens s)\<rparr>)))"

definition cl_patch_quota ::
  "int \<Rightarrow> string \<Rightarrow> int option \<Rightarrow> bool option \<Rightarrow> int option \<Rightarrow> int option \<Rightarrow> client_store
   \<Rightarrow> client_error option \<times> client_store" where
  "cl_patch_quota now i remain unlimited max_conc rpm s =
     (case cl_patch now i \<lparr>pr_name = None, pr_remain_quota = remain, pr_unlimited_quota = unlimited,
        pr_max_concurrent = max_conc, pr_rpm = rpm, pr_enabled = None, pr_expires_at = None\<rparr> s of
        (Inl e, s') \<Rightarrow> (Some e, s') | (Inr t, s') \<Rightarrow> (None, s'))"

section \<open>Authentication and the gates\<close>

definition cl_authenticate :: "(string \<Rightarrow> string) \<Rightarrow> int \<Rightarrow> string \<Rightarrow> client_store \<Rightarrow> client_error + auth_info" where
  "cl_authenticate hash now plaintext s =
     (let key = trim_space plaintext in
      if key = [] then Inl ClUnauthorized
      else case find (\<lambda>t. tk_key_hash t = hash key) (map snd (cl_tokens s)) of
        None \<Rightarrow> Inl ClUnauthorized
      | Some t \<Rightarrow>
          if \<not> tk_enabled t then Inl ClDisabled
          else if tk_expires_at t > 0 \<and> now > tk_expires_at t then Inl ClExpired
          else if \<not> tk_unlimited_quota t \<and> tk_remain_quota t \<le> 0 then Inl ClQuotaExceeded
          else Inr \<lparr>ai_token_id = tk_id t, ai_name = tk_name t, ai_max_concurrent = tk_max_concurrent t,
                    ai_rpm = tk_rpm t\<rparr>)"

text \<open>The window a request with a rate limit sees: a new one when it is missing or over.\<close>

definition rpm_window_at :: "int \<Rightarrow> string \<Rightarrow> client_store \<Rightarrow> rpm_window" where
  "rpm_window_at now i s =
     (case gm_get (cl_rpm_win s) i of
        None \<Rightarrow> \<lparr>rw_start = now, rw_count = 0\<rparr>
      | Some w \<Rightarrow> if now - rw_start w \<ge> 60000000000 then \<lparr>rw_start = now, rw_count = 0\<rparr> else w)"

definition acquire_slot :: "int \<Rightarrow> string \<Rightarrow> int \<Rightarrow> int \<Rightarrow> client_store \<Rightarrow> client_error option \<times> client_store" where
  "acquire_slot now i max_conc rpm s =
     (if i = [] then (Some ClBadRequest, s)
      else let w = rpm_window_at now i s;
               s1 = (if rpm > 0 then s\<lparr>cl_rpm_win := gm_put i w (cl_rpm_win s)\<rparr> else s) in
       if rpm > 0 \<and> rw_count w \<ge> rpm then (Some (ClRPMLimit rpm), s1)
       else let cur = gm_default 0 (cl_inflight s1) i in
        if max_conc > 0 \<and> cur \<ge> max_conc then (Some (ClConcurrencyLimit max_conc), s1)
        else let s2 = s1\<lparr>cl_inflight := gm_put i (wrap64 (cur + 1)) (cl_inflight s1)\<rparr> in
         (None, if rpm > 0 then s2\<lparr>cl_rpm_win := gm_put i (w\<lparr>rw_count := rw_count w + 1\<rparr>) (cl_rpm_win s2)\<rparr> else s2))"

definition release_slot :: "string \<Rightarrow> client_store \<Rightarrow> client_store" where
  "release_slot i s =
     (if i = [] then s
      else let cur = gm_default 0 (cl_inflight s) i;
               m = (if cur > 0 then gm_put i (cur - 1) (cl_inflight s) else cl_inflight s) in
       s\<lparr>cl_inflight := (if gm_default 0 m i = 0 then gm_del i m else m)\<rparr>)"

section \<open>Quota\<close>

definition at_least_one :: "int \<Rightarrow> int" where
  "at_least_one n = (if n \<le> 0 then 1 else n)"

text \<open>How the code tells apart the reasons for which a guarded update hit no row.\<close>

definition no_row_error :: "int \<Rightarrow> string \<Rightarrow> client_store \<Rightarrow> client_error" where
  "no_row_error amount i s =
     (case gm_get (cl_tokens s) i of
        None \<Rightarrow> ClNotFound
      | Some t \<Rightarrow>
          if \<not> tk_enabled t then ClDisabled
          else if \<not> tk_unlimited_quota t \<and> tk_remain_quota t < amount then ClQuotaExceeded
          else ClNotFound)"

definition reserve_quota :: "int \<Rightarrow> string \<Rightarrow> int \<Rightarrow> client_store \<Rightarrow> client_error option \<times> client_store" where
  "reserve_quota now i amount0 s =
     (let amount = at_least_one amount0 in
      case gm_get (cl_tokens s) i of
        Some t \<Rightarrow>
          if tk_enabled t \<and> (tk_unlimited_quota t \<or> tk_remain_quota t \<ge> amount)
          then (None, s\<lparr>cl_tokens := gm_put i (t\<lparr>tk_remain_quota :=
                  (if tk_unlimited_quota t then tk_remain_quota t else tk_remain_quota t - amount),
                  tk_updated_at := now\<rparr>) (cl_tokens s)\<rparr>)
          else (Some (no_row_error amount i s), s)
      | None \<Rightarrow> (Some (no_row_error amount i s), s))"

definition refund_quota :: "int \<Rightarrow> string \<Rightarrow> int \<Rightarrow> client_store \<Rightarrow> client_error option \<times> client_store" where
  "refund_quota now i amount0 s =
     (let amount = at_least_one amount0 in
      case gm_get (cl_tokens s) i of
        Some t \<Rightarrow>
          if tk_enabled t
          then (None, s\<lparr>cl_tokens := gm_put i (t\<lparr>tk_remain_quota :=
                  (if tk_unlimited_quota t then tk_remain_quota t else tk_remain_quota t + amount),
                  tk_updated_at := now\<rparr>) (cl_tokens s)\<rparr>)
          else (Some ClNotFound, s)
      | None \<Rightarrow> (Some ClNotFound, s))"

definition settle_usage :: "int \<Rightarrow> string \<Rightarrow> int \<Rightarrow> int \<Rightarrow> client_store \<Rightarrow> client_error option \<times> client_store" where
  "settle_usage now i reserved0 actual0 s =
     (let reserved = at_least_one reserved0; actual = at_least_one actual0; delta = actual - reserved in
      case gm_get (cl_tokens s) i of
        None \<Rightarrow> (Some ClNotFound, s)
      | Some t \<Rightarrow>
          if \<not> tk_enabled t then (Some ClDisabled, s)
          else
            let short = (delta > 0 \<and> \<not> tk_unlimited_quota t \<and> tk_remain_quota t < delta);
                extra = (if delta > 0 \<and> \<not> tk_unlimited_quota t
                         then (if short then tk_remain_quota t else delta) else 0);
                refund = (if delta < 0 \<and> \<not> tk_unlimited_quota t then - delta else 0)
            in (if short then Some ClQuotaExceeded else None,
                s\<lparr>cl_tokens := gm_put i
                  (t\<lparr>tk_used_quota := tk_used_quota t + actual, tk_request_count := tk_request_count t + 1,
                     tk_remain_quota := (if tk_unlimited_quota t then tk_remain_quota t
                                         else tk_remain_quota t - extra + refund),
                     tk_last_used_at := now, tk_updated_at := now\<rparr>) (cl_tokens s)\<rparr>))"

definition record_usage :: "int \<Rightarrow> string \<Rightarrow> int \<Rightarrow> client_store \<Rightarrow> client_error option \<times> client_store" where
  "record_usage now i cost0 s =
     (let cost = at_least_one cost0 in
      case gm_get (cl_tokens s) i of
        Some t \<Rightarrow>
          if tk_enabled t \<and> (tk_unlimited_quota t \<or> tk_remain_quota t \<ge> cost)
          then (None, s\<lparr>cl_tokens := gm_put i
                 (t\<lparr>tk_used_quota := tk_used_quota t + cost, tk_request_count := tk_request_count t + 1,
                    tk_remain_quota := (if tk_unlimited_quota t then tk_remain_quota t else tk_remain_quota t - cost),
                    tk_last_used_at := now, tk_updated_at := now\<rparr>) (cl_tokens s)\<rparr>)
          else (Some (no_row_error cost i s), s)
      | None \<Rightarrow> (Some (no_row_error cost i s), s))"


section \<open>The table is well formed\<close>

definition clients_ok :: "client_store \<Rightarrow> bool" where
  "clients_ok s \<longleftrightarrow> gm_wf (cl_tokens s) \<and>
     (\<forall>i t. gm_get (cl_tokens s) i = Some t \<longrightarrow> tk_id t = i \<and> 0 \<le> tk_remain_quota t \<and>
       0 \<le> tk_max_concurrent t \<and> 0 \<le> tk_rpm t) \<and>
     (\<forall>i j t u. gm_get (cl_tokens s) i = Some t \<and> gm_get (cl_tokens s) j = Some u \<and>
       tk_key_hash t = tk_key_hash u \<longrightarrow> i = j)"

lemma clients_okD:
  assumes "clients_ok s" "map_of (cl_tokens s) i = Some t"
  shows "tk_id t = i" "0 \<le> tk_remain_quota t" "0 \<le> tk_max_concurrent t" "0 \<le> tk_rpm t"
  using assms by (auto simp: clients_ok_def)

lemma clients_ok_rows: "cl_tokens s' = cl_tokens s \<Longrightarrow> clients_ok s' = clients_ok s"
  by (simp add: clients_ok_def)

text \<open>A row may be added or replaced; its limits are not negative and its hash is its own.\<close>

lemma clients_ok_put:
  assumes "clients_ok s" "tk_id u = i" "0 \<le> tk_remain_quota u" "0 \<le> tk_max_concurrent u" "0 \<le> tk_rpm u"
    and "\<And>j t. map_of (cl_tokens s) j = Some t \<Longrightarrow> tk_key_hash t = tk_key_hash u \<Longrightarrow> j = i"
  shows "clients_ok (s\<lparr>cl_tokens := gm_put i u (cl_tokens s)\<rparr>)"
proof -
  define rows where "rows = gm_put i u (cl_tokens s)"
  have get: "gm_get rows j = (if j = i then Some u else gm_get (cl_tokens s) j)" for j by (simp add: rows_def)
  have "gm_wf rows" using assms(1) by (simp add: rows_def clients_ok_def)
  moreover have "tk_id t = j \<and> 0 \<le> tk_remain_quota t \<and> 0 \<le> tk_max_concurrent t \<and> 0 \<le> tk_rpm t"
    if "gm_get rows j = Some t" for j t
    using that assms(2-5) clients_okD [OF assms(1), of j t] by (auto simp: get split: if_splits)
  moreover have "j = k" if "gm_get rows j = Some t" "gm_get rows k = Some v" "tk_key_hash t = tk_key_hash v" for j k t v
  proof (cases "j = i \<or> k = i")
    case True
    then show ?thesis using that assms(6) [of j t] assms(6) [of k v] by (auto simp: get split: if_splits)
  next
    case False
    then show ?thesis using that assms(1) unfolding clients_ok_def get by auto
  qed
  ultimately show ?thesis unfolding clients_ok_def rows_def [symmetric] by simp
qed

lemma clients_ok_update:
  assumes "clients_ok s" "map_of (cl_tokens s) i = Some t" "tk_id u = tk_id t" "tk_key_hash u = tk_key_hash t"
    "0 \<le> tk_remain_quota u" "0 \<le> tk_max_concurrent u" "0 \<le> tk_rpm u"
  shows "clients_ok (s\<lparr>cl_tokens := gm_put i u (cl_tokens s)\<rparr>)"
proof (rule clients_ok_put [OF assms(1) _ assms(5-7)])
  show "tk_id u = i" using assms(3) clients_okD(1) [OF assms(1,2)] by simp
  show "j = i" if "map_of (cl_tokens s) j = Some v" "tk_key_hash v = tk_key_hash u" for j v
    using that assms(1,2,4) unfolding clients_ok_def by auto
qed

lemma clients_ok_subset:
  assumes "clients_ok s" "gm_wf rows" "\<And>i t. map_of rows i = Some t \<Longrightarrow> map_of (cl_tokens s) i = Some t"
  shows "clients_ok (s\<lparr>cl_tokens := rows\<rparr>)"
  using assms unfolding clients_ok_def by (simp del: map_of_eq_None_iff) blast

lemma filter_keys_wf: "gm_wf m \<Longrightarrow> gm_wf (filter (\<lambda>(k, t). k \<notin> K) m)"
  by (simp add: gm_wf_def distinct_map_filter)

lemma filter_keys_get: "map_of (filter (\<lambda>(k, t). k \<notin> K) m) i = (if i \<in> K then None else map_of m i)"
  by (induction m) auto

lemma forget_gates_tokens [simp]: "cl_tokens (forget_gates i s) = cl_tokens s"
  by (simp add: forget_gates_def)

lemma fold_forget_tokens [simp]: "cl_tokens (fold forget_gates is s) = cl_tokens s"
  by (induction "is" arbitrary: s) simp_all

lemma clients_ok_forget [simp]:
  "clients_ok (forget_gates i s) = clients_ok s" "clients_ok (fold forget_gates ids s) = clients_ok s"
  by (rule clients_ok_rows, simp)+

lemma slot_tokens [simp]:
  "cl_tokens (snd (acquire_slot now i mx rpm s)) = cl_tokens s" "cl_tokens (release_slot i s) = cl_tokens s"
  by (simp_all add: acquire_slot_def release_slot_def Let_def)

lemma clients_ok_slot [simp]:
  "clients_ok (snd (acquire_slot now i mx rpm s)) = clients_ok s" "clients_ok (release_slot i s) = clients_ok s"
  by (rule clients_ok_rows, simp)+

lemma new_token_limits:
  assumes "create_args_ok req"
  shows "0 \<le> tk_remain_quota (new_token hash now req nm a b)" "0 \<le> tk_max_concurrent (new_token hash now req nm a b)"
    "0 \<le> tk_rpm (new_token hash now req nm a b)"
  using assms by (auto simp: new_token_def new_api_key_def create_args_ok_def Let_def split: option.splits)

lemma create_loop_ok:
  assumes "create_args_ok req"
  shows "create_loop hash now req name n i hexes rows out = Inr (out', rows') \<Longrightarrow>
    clients_ok (s\<lparr>cl_tokens := rows\<rparr>) \<Longrightarrow> clients_ok (s\<lparr>cl_tokens := rows'\<rparr>)"
proof (induction hexes arbitrary: i rows out)
  case (Cons h rest)
  obtain id_hex key_hex where h: "h = (id_hex, key_hex)" by (cases h)
  define t where "t = new_token hash now req (if n > 1 then name @ ''-'' @ show_int (int i + 1) else name) id_hex key_hex"
  have fresh: "map_of rows (tk_id t) = None" "\<not> list_ex (\<lambda>(k, u). tk_key_hash u = tk_key_hash t) rows"
    and step: "create_loop hash now req name n (Suc i) rest (gm_put (tk_id t) t rows) (out @ [t]) = Inr (out', rows')"
    using Cons.prems(1) unfolding h by (simp_all add: Let_def t_def split: if_splits)
  have "clients_ok ((s\<lparr>cl_tokens := rows\<rparr>)\<lparr>cl_tokens := gm_put (tk_id t) t (cl_tokens (s\<lparr>cl_tokens := rows\<rparr>))\<rparr>)"
  proof (rule clients_ok_put [OF Cons.prems(2) refl])
    show "0 \<le> tk_remain_quota t" "0 \<le> tk_max_concurrent t" "0 \<le> tk_rpm t"
      unfolding t_def by (rule new_token_limits [OF assms])+
    show "j = tk_id t" if "map_of (cl_tokens (s\<lparr>cl_tokens := rows\<rparr>)) j = Some v" "tk_key_hash v = tk_key_hash t" for j v
      using that fresh(2) by (auto simp: list_ex_iff dest: map_of_SomeD)
  qed
  then show ?case using Cons.IH [OF step] by simp
qed simp

lemma delete_many_loop_spec:
  "gm_wf rows \<Longrightarrow> delete_many_loop ids rows n = (n', rows') \<Longrightarrow>
    gm_wf rows' \<and> map_of rows' = map_of rows |` (- set ids) \<and> n' + length rows' = n + length rows"
proof (induction ids rows n arbitrary: n' rows' rule: delete_many_loop.induct)
  case (1 ids rows n)
  show ?case
  proof (cases "ids = []")
    case True
    then show ?thesis using 1(2,3) by (simp add: delete_many_loop.simps [of "[]"])
  next
    case False
    define mid where "mid = filter (\<lambda>(k, t). k \<notin> set (take 400 ids)) rows"
    have mid: "gm_wf mid" "map_of mid = map_of rows |` (- set (take 400 ids))" "length mid \<le> length rows"
      using 1(2) by (simp_all add: mid_def filter_keys_wf filter_keys_get restrict_map_def fun_eq_iff)
    have "delete_many_loop (drop 400 ids) mid (n + (length rows - length mid)) = (n', rows')"
      using 1(3) False by (simp add: delete_many_loop.simps [of ids] mid_def Let_def)
    note ih = 1(1) [OF False refl refl, folded mid_def, OF mid(1) this]
    have "- set (take 400 ids) \<inter> - set (drop 400 ids) = - set ids"
      by (metis Compl_Un append_take_drop_id set_append)
    then show ?thesis using ih mid by auto
  qed
qed

text \<open>Every operation that writes the table or the gates.\<close>

inductive client_step :: "(string \<Rightarrow> string) \<Rightarrow> client_store \<Rightarrow> client_store \<Rightarrow> bool" for hash where
  create: "client_step hash s (snd (cl_create hash now random req s))"
| delete: "client_step hash s (snd (cl_delete i s))"
| delete_many: "client_step hash s (snd (cl_delete_many ids s))"
| set_enabled: "client_step hash s (snd (cl_set_enabled now i en s))"
| patch: "client_step hash s (snd (cl_patch now i p s))"
| patch_quota: "client_step hash s (snd (cl_patch_quota now i remain unl mx rpm s))"
| acquire: "client_step hash s (snd (acquire_slot now i mx rpm s))"
| release: "client_step hash s (release_slot i s)"
| reserve: "client_step hash s (snd (reserve_quota now i n s))"
| refund: "client_step hash s (snd (refund_quota now i n s))"
| settle: "client_step hash s (snd (settle_usage now i r n s))"
| recorded: "client_step hash s (snd (record_usage now i n s))"

lemma at_least_one_pos [simp]: "0 < at_least_one n" "1 \<le> at_least_one n" "0 \<le> at_least_one n" by (simp_all add: at_least_one_def)

lemma option_nonneg:
  "(case f of None \<Rightarrow> True | Some v \<Rightarrow> (0 :: int) \<le> v) \<Longrightarrow> 0 \<le> old \<Longrightarrow> 0 \<le> (case f of None \<Rightarrow> old | Some v \<Rightarrow> v)"
  by (cases f) auto

lemma patched_limits:
  assumes "patched now p t = Some u" "0 \<le> tk_remain_quota t" "0 \<le> tk_max_concurrent t" "0 \<le> tk_rpm t"
  shows "tk_id u = tk_id t" "tk_key_hash u = tk_key_hash t" "0 \<le> tk_remain_quota u" "0 \<le> tk_max_concurrent u" "0 \<le> tk_rpm u"
  using assms by (auto simp: patched_def Let_def split: if_splits intro: option_nonneg)

lemma cl_patch_ok: "clients_ok s \<Longrightarrow> clients_ok (snd (cl_patch now i p s))"
  using clients_okD [of s i] patched_limits [of now p]
  by (auto simp: cl_patch_def split: option.split intro!: clients_ok_update)

lemma cl_create_ok:
  assumes "clients_ok s"
  shows "clients_ok (snd (cl_create hash now random req s))"
proof (cases "create_args_ok req")
  case True
  define n where "n = (if cr_count req \<le> 0 then 1 else nat (cr_count req))"
  define nm where "nm = (if trim_space (cr_name req) = [] then ''token'' else trim_space (cr_name req))"
  obtain q where q: "create_loop hash now req nm n 0 (map random [0..<n]) (cl_tokens s) [] = q" by blast
  then have c: "cl_create hash now random req s =
      (case q of Inl e \<Rightarrow> (Inl e, s) | Inr (ts, rows) \<Rightarrow> (Inr ts, s\<lparr>cl_tokens := rows\<rparr>))"
    unfolding cl_create_def n_def [symmetric] nm_def [symmetric] Let_def using True by simp
  show ?thesis
  proof (cases q)
    case (Inr r)
    obtain ts rows where r: "r = (ts, rows)" by fastforce
    show ?thesis using create_loop_ok [OF True q [unfolded Inr r], of s] assms c Inr r by simp
  qed (use assms c in simp)
qed (use assms in \<open>simp add: cl_create_def\<close>)

lemma client_step_ok: "client_step hash s s' \<Longrightarrow> clients_ok s \<Longrightarrow> clients_ok s'"
proof (induction rule: client_step.induct)
  case (create s now random req)
  then show ?case by (rule cl_create_ok)
next
  case (delete s i)
  have "clients_ok (s\<lparr>cl_tokens := gm_del i (cl_tokens s)\<rparr>)"
    using delete by (intro clients_ok_subset) (auto simp: clients_ok_def split: if_splits)
  with delete show ?case by (simp add: cl_delete_def)
next
  case (delete_many s ids)
  obtain n rows where l: "delete_many_loop (clean_ids [] ids) (cl_tokens s) 0 = (n, rows)" by fastforce
  have "clients_ok (s\<lparr>cl_tokens := rows\<rparr>)"
    using delete_many_loop_spec [OF _ l] delete_many
    by (intro clients_ok_subset) (auto simp: clients_ok_def restrict_map_def split: if_splits)
  then show ?case using l delete_many
    by (simp add: cl_delete_many_def Let_def)
next
  case (set_enabled s now i en)
  then show ?case using clients_okD [of s i]
    by (auto simp: cl_set_enabled_def split: option.split intro!: clients_ok_update)
next
  case (patch s now i p)
  then show ?case by (rule cl_patch_ok)
next
  case (patch_quota s now i remain unl mx rpm)
  then show ?case using cl_patch_ok [of s now i "\<lparr>pr_name = None, pr_remain_quota = remain, pr_unlimited_quota = unl,
        pr_max_concurrent = mx, pr_rpm = rpm, pr_enabled = None, pr_expires_at = None\<rparr>"]
    by (simp add: cl_patch_quota_def split_beta split: sum.split)
next
  case (acquire s now i mx rpm)
  then show ?case by simp
next
  case (release s i)
  then show ?case by simp
next
  case (reserve s now i n)
  then show ?case using clients_okD [of s i]
    by (auto simp: reserve_quota_def Let_def split: option.split intro!: clients_ok_update)
next
  case (refund s now i n)
  then show ?case using clients_okD [of s i] at_least_one_pos [of n]
    by (auto simp: refund_quota_def Let_def split: option.split intro!: clients_ok_update)
next
  case (settle s now i r n)
  show ?case
  proof (cases "map_of (cl_tokens s) i")
    case None
    then show ?thesis using settle by (simp add: settle_usage_def Let_def)
  next
    case (Some t)
    then show ?thesis using settle clients_okD [OF settle Some]
      by (simp add: settle_usage_def Let_def clients_ok_update [OF settle Some])
  qed
next
  case (recorded s now i n)
  then show ?case using clients_okD [of s i]
    by (auto simp: record_usage_def Let_def split: option.split intro!: clients_ok_update)
qed


section \<open>The concurrency gate\<close>

definition slot_attempt :: "(string \<Rightarrow> int) \<Rightarrow> int \<times> string \<times> int \<Rightarrow> client_store \<Rightarrow> string option \<times> client_store" where
  "slot_attempt mx = (\<lambda>(now, i, rpm) s.
     case acquire_slot now i (mx i) rpm s of (None, s') \<Rightarrow> (Some i, s') | (Some e, s') \<Rightarrow> (None, s'))"

definition slot_give_back :: "unit \<Rightarrow> string \<Rightarrow> client_store \<Rightarrow> client_store" where
  "slot_give_back b i s = release_slot i s"

lemma slot_attempt_apply:
  "slot_attempt mx (now, i, rpm) s =
     (case acquire_slot now i (mx i) rpm s of (None, s') \<Rightarrow> (Some i, s') | (Some e, s') \<Rightarrow> (None, s'))"
  by (simp add: slot_attempt_def)

definition slot_cap :: "(string \<Rightarrow> int) \<Rightarrow> string \<Rightarrow> int" where
  "slot_cap mx i = (if 0 < mx i then mx i else 2 ^ 63 - 1)"

lemma acquire_slot_count:
  assumes "0 \<le> current_inflight s i" "current_inflight s i < 2 ^ 63 - 1"
  shows "current_inflight (snd (acquire_slot now i mx rpm s)) =
      (if fst (acquire_slot now i mx rpm s) = None
       then (current_inflight s)(i := current_inflight s i + 1) else current_inflight s) \<and>
    (fst (acquire_slot now i mx rpm s) = None \<longrightarrow> i \<noteq> [] \<and> (0 < mx \<longrightarrow> current_inflight s i < mx))"
  using assms by (auto simp: acquire_slot_def current_inflight_def Let_def fun_eq_iff)

lemma release_slot_count:
  "i \<noteq> [] \<Longrightarrow> 0 < current_inflight s i \<Longrightarrow>
    current_inflight (release_slot i s) = (current_inflight s)(i := current_inflight s i - 1)"
  by (auto simp: release_slot_def current_inflight_def Let_def fun_eq_iff)

interpretation slot_gate: capped_gate "\<lambda>s. True" current_inflight "\<lambda>i. i" "\<lambda>i. i \<noteq> []"
  "slot_attempt mx" slot_give_back "2 ^ 63 - 1" "slot_cap mx" for mx
proof
  fix s s' :: client_store and a :: "int \<times> string \<times> int" and i :: string
  assume bnd: "\<And>j. 0 \<le> current_inflight s j \<and> current_inflight s j < 2 ^ 63 - 1"
  obtain now k rpm where a: "a = (now, k, rpm)" by (cases a)
  note acq = acquire_slot_count [of s k now "mx k" rpm] bnd [of k]
  show "True \<and> i \<noteq> [] \<and> current_inflight s' = (current_inflight s)(i := current_inflight s i + 1)"
    "current_inflight s' i \<le> slot_cap mx i" if "slot_attempt mx a s = (Some i, s')"
    using that acq by (auto simp: slot_attempt_def a slot_cap_def split: prod.splits option.splits)
  show "True \<and> current_inflight s' = current_inflight s" if "slot_attempt mx a s = (None, s')"
    using that acq by (auto simp: slot_attempt_def a split: prod.splits option.splits)
next
  fix s :: client_store and i and b :: unit
  assume "i \<noteq> []" "0 < current_inflight s i"
  then show "True \<and> current_inflight (slot_give_back b i s) = (current_inflight s)(i := current_inflight s i - 1)"
    by (simp add: slot_give_back_def release_slot_count)
qed

section \<open>The rate of requests\<close>

text \<open>The times of the requests of a token that a run of attempts lets through.\<close>

fun granted_at :: "string \<Rightarrow> int \<Rightarrow> (int \<times> int) list \<Rightarrow> client_store \<Rightarrow> int list" where
  "granted_at i rpm [] s = []"
| "granted_at i rpm ((now, mx) # es) s =
     (case acquire_slot now i mx rpm s of
        (None, s') \<Rightarrow> now # granted_at i rpm es s'
      | (Some e, s') \<Rightarrow> granted_at i rpm es s')"

definition rpm_minute :: int where "rpm_minute = 60000000000"

lemma acquire_rpm_window:
  assumes "0 < rpm" "i \<noteq> []"
  shows "map_of (cl_rpm_win (snd (acquire_slot now i mx rpm s))) i =
      Some (if fst (acquire_slot now i mx rpm s) = None
            then (rpm_window_at now i s)\<lparr>rw_count := rw_count (rpm_window_at now i s) + 1\<rparr> else rpm_window_at now i s)"
    "fst (acquire_slot now i mx rpm s) = None \<longrightarrow> rw_count (rpm_window_at now i s) < rpm"
  using assms by (auto simp: acquire_slot_def Let_def)

definition granted_within :: "int \<Rightarrow> string \<Rightarrow> int \<Rightarrow> (int \<times> int) list \<Rightarrow> client_store \<Rightarrow> int" where
  "granted_within a i rpm es s = int (length (filter (\<lambda>t. a \<le> t \<and> t < a + rpm_minute) (granted_at i rpm es s)))"

lemma granted_within_Cons:
  assumes "acquire_slot now i mx rpm s = (r, s')"
  shows "granted_within a i rpm ((now, mx) # es) s =
    (if r = None \<and> a \<le> now \<and> now < a + rpm_minute then 1 else 0) + granted_within a i rpm es s'"
  using assms by (auto simp: granted_within_def split: option.split)

lemma granted_late: "list_all (\<lambda>e. a + rpm_minute \<le> fst e) es \<Longrightarrow> granted_within a i rpm es s = 0"
proof (induction es arbitrary: s)
  case Nil
  then show ?case by (simp add: granted_within_def)
next
  case (Cons e es)
  obtain r s' where "acquire_slot (fst e) i (snd e) rpm s = (r, s')" by fastforce
  then show ?case using Cons granted_within_Cons [of "fst e" i "snd e" rpm s r s' a es] by simp
qed

text \<open>Grants inside the minute that begins at \<open>a\<close>, when the window began inside it too.\<close>

lemma granted_in_window:
  assumes "0 < rpm" "i \<noteq> []" "map_of (cl_rpm_win s) i = Some w" "rw_count w \<le> rpm" "a \<le> rw_start w"
    "sorted (map fst es)"
  shows "granted_within a i rpm es s \<le> rpm - rw_count w"
  using assms(3-)
proof (induction es arbitrary: s w)
  case Nil
  then show ?case by (simp add: granted_within_def)
next
  case (Cons e es)
  obtain now mx where e: "e = (now, mx)" by (cases e)
  obtain r s' where acq: "acquire_slot now i mx rpm s = (r, s')" by fastforce
  note win = acquire_rpm_window [OF assms(1,2), of now mx s, unfolded acq fst_conv snd_conv]
  show ?case
  proof (cases "now < rw_start w + rpm_minute")
    case True
    then have w: "rpm_window_at now i s = w" using Cons.prems by (simp add: rpm_window_at_def rpm_minute_def)
    let ?w = "if r = None then w\<lparr>rw_count := rw_count w + 1\<rparr> else w"
    have "granted_within a i rpm es s' \<le> rpm - rw_count ?w"
      using win w Cons.prems by (intro Cons.IH) auto
    then show ?thesis using granted_within_Cons [OF acq, of a es] e by (cases "r = None") auto
  next
    case False
    then have "list_all (\<lambda>e. a + rpm_minute \<le> fst e) (e # es)"
      using Cons.prems e by (auto simp: list_all_iff)
    then show ?thesis using granted_late [of a "e # es"] Cons.prems by simp
  qed
qed

text \<open>What the window already counts of the minute that begins at \<open>a\<close>.\<close>

definition window_part :: "int \<Rightarrow> string \<Rightarrow> client_store \<Rightarrow> int" where
  "window_part a i s =
     (case map_of (cl_rpm_win s) i of None \<Rightarrow> 0
      | Some w \<Rightarrow> if a < rw_start w + rpm_minute then rw_count w else 0)"

definition rpm_ok :: "string \<Rightarrow> int \<Rightarrow> client_store \<Rightarrow> bool" where
  "rpm_ok i rpm s \<longleftrightarrow> (case map_of (cl_rpm_win s) i of None \<Rightarrow> True | Some w \<Rightarrow> 0 \<le> rw_count w \<and> rw_count w \<le> rpm)"

lemma granted_in_minute:
  assumes "0 < rpm" "i \<noteq> []" "rpm_ok i rpm s" "sorted (map fst es)"
  shows "granted_within a i rpm es s \<le> 2 * rpm - window_part a i s"
  using assms(3-)
proof (induction es arbitrary: s)
  case Nil
  then show ?case using assms(1) by (auto simp: granted_within_def window_part_def rpm_ok_def split: option.splits)
next
  case (Cons e es)
  obtain now mx where e: "e = (now, mx)" by (cases e)
  obtain r s' where acq: "acquire_slot now i mx rpm s = (r, s')" by fastforce
  define w where "w = rpm_window_at now i s"
  define w' where "w' = (if r = None then w\<lparr>rw_count := rw_count w + 1\<rparr> else w)"
  have w': "map_of (cl_rpm_win s') i = Some w'" and room: "r = None \<longrightarrow> rw_count w < rpm"
    using acquire_rpm_window [OF assms(1,2), of now mx s] acq by (simp_all add: w_def w'_def)
  have rng: "0 \<le> rw_count w \<and> rw_count w \<le> rpm"
    using Cons.prems(1) assms(1) by (auto simp: w_def rpm_window_at_def rpm_ok_def split: option.splits)
  then have "rpm_ok i rpm s'" using w' room by (auto simp: rpm_ok_def w'_def)
  then have ih: "granted_within a i rpm es s' \<le> 2 * rpm - window_part a i s'"
    using Cons.prems(2) by (intro Cons.IH) auto
  have part: "window_part a i s' = (if a < rw_start w + rpm_minute then rw_count w' else 0)"
    using w' by (simp add: window_part_def w'_def)
  have step: "granted_within a i rpm (e # es) s =
      (if r = None \<and> a \<le> now \<and> now < a + rpm_minute then 1 else 0) + granted_within a i rpm es s'"
    using granted_within_Cons [OF acq] e by simp
  show ?case
  proof (cases "\<exists>v. map_of (cl_rpm_win s) i = Some v \<and> now < rw_start v + rpm_minute")
    case True
    then have "map_of (cl_rpm_win s) i = Some w" "now < rw_start w + rpm_minute"
      by (auto simp: w_def rpm_window_at_def rpm_minute_def)
    then show ?thesis using ih part step by (auto simp: window_part_def w'_def split: if_splits)
  next
    case False
    then have w: "w = \<lparr>rw_start = now, rw_count = 0\<rparr>"
      by (auto simp: w_def rpm_window_at_def rpm_minute_def split: option.splits)
    show ?thesis
    proof (cases "a \<le> now")
      case True
      have "granted_within a i rpm es s' \<le> rpm - rw_count w'"
        using granted_in_window [OF assms(1,2) w'] True w room assms(1) Cons.prems(2) by (simp add: w'_def)
      moreover have "window_part a i s \<le> rpm" using Cons.prems(1) assms(1)
        by (auto simp: window_part_def rpm_ok_def split: option.splits)
      ultimately show ?thesis using step w by (auto simp: w'_def split: if_splits)
    next
      case early: False
      have "window_part a i s = 0" using False early by (auto simp: window_part_def split: option.splits)
      moreover have "0 \<le> window_part a i s'" using part w by (simp add: w'_def)
      ultimately show ?thesis using ih step early by simp
    qed
  qed
qed


section \<open>The ledger of a quota\<close>

text \<open>
  A run of the calls around requests: a reservation, and for one that is out either the
  settlement with the actual cost or the refund. The list of reservations that are out holds the
  amounts the caller passed; the second list what settlements that returned \<open>ErrQuotaExceeded\<close>
  could not collect.
\<close>

datatype quota_event = QReserve int string int | QSettle int nat int | QRefund int nat

definition shortfall :: "string \<Rightarrow> int \<Rightarrow> int \<Rightarrow> client_store \<Rightarrow> int" where
  "shortfall i reserved actual s =
     (case map_of (cl_tokens s) i of None \<Rightarrow> 0
      | Some t \<Rightarrow> at_least_one actual - at_least_one reserved - tk_remain_quota t)"

fun quota_run ::
  "quota_event list \<Rightarrow> (string \<times> int) list \<Rightarrow> (string \<times> int) list \<Rightarrow> client_store
   \<Rightarrow> (string \<times> int) list \<times> (string \<times> int) list \<times> client_store" where
  "quota_run [] out lost s = (out, lost, s)"
| "quota_run (QReserve now i n # es) out lost s =
     (case reserve_quota now i n s of
        (None, s') \<Rightarrow> quota_run es ((i, n) # out) lost s'
      | (Some e, s') \<Rightarrow> quota_run es out lost s')"
| "quota_run (QSettle now k actual # es) out lost s =
     (if k < length out
      then let (i, n) = out ! k; (r, s') = settle_usage now i n actual s in
        quota_run es (take k out @ drop (Suc k) out)
          (if r = Some ClQuotaExceeded then (i, shortfall i n actual s) # lost else lost) s'
      else quota_run es out lost s)"
| "quota_run (QRefund now k # es) out lost s =
     (if k < length out
      then let (i, n) = out ! k in
        quota_run es (take k out @ drop (Suc k) out) lost (snd (refund_quota now i n s))
      else quota_run es out lost s)"

definition reserved_of :: "(string \<times> int) list \<Rightarrow> string \<Rightarrow> int" where
  "reserved_of out i = sum_list (map (\<lambda>(j, n). if j = i then at_least_one n else 0) out)"

definition lost_of :: "(string \<times> int) list \<Rightarrow> string \<Rightarrow> int" where
  "lost_of lost i = sum_list (map (\<lambda>(j, n). if j = i then n else 0) lost)"

lemma reserved_of_simps [simp]:
  "reserved_of [] i = 0"
  "reserved_of ((j, n) # out) i = (if j = i then at_least_one n else 0) + reserved_of out i"
  "reserved_of (out @ out') i = reserved_of out i + reserved_of out' i"
  by (simp_all add: reserved_of_def)

lemma lost_of_simps [simp]:
  "lost_of [] i = 0" "lost_of ((j, n) # lost) i = (if j = i then n else 0) + lost_of lost i"
  by (simp_all add: lost_of_def)

lemma reserved_of_take_drop:
  assumes "k < length out" "out ! k = (j, n)"
  shows "reserved_of (take k out @ drop (Suc k) out) i = reserved_of out i - (if j = i then at_least_one n else 0)"
proof -
  have "reserved_of out i = reserved_of (take k out @ out ! k # drop (Suc k) out) i"
    using assms(1) by (simp only: id_take_nth_drop [symmetric])
  then show ?thesis using assms(2) by simp
qed

definition finite_row :: "client_store \<Rightarrow> string \<Rightarrow> token \<Rightarrow> bool" where
  "finite_row s i t \<longleftrightarrow> map_of (cl_tokens s) i = Some t \<and> tk_enabled t \<and> \<not> tk_unlimited_quota t \<and> 0 \<le> tk_remain_quota t"

definition owed :: "token \<Rightarrow> int" where
  "owed t = tk_remain_quota t + tk_used_quota t"

lemma reserve_row:
  assumes "finite_row s i t" "reserve_quota now j n s = (r, s')"
  shows "\<exists>t'. finite_row s' i t' \<and> owed t' = owed t - (if j = i \<and> r = None then at_least_one n else 0)"
  using assms by (cases "j = i") (auto simp: finite_row_def owed_def reserve_quota_def Let_def split: option.splits if_splits)

lemma refund_row:
  assumes "finite_row s i t"
  shows "\<exists>t'. finite_row (snd (refund_quota now j n s)) i t' \<and> owed t' = owed t + (if j = i then at_least_one n else 0)"
  using assms by (cases "j = i") (auto simp: finite_row_def owed_def refund_quota_def Let_def split: option.splits)

lemma settle_row:
  assumes "finite_row s i t" "settle_usage now j n actual s = (r, s')"
  shows "\<exists>t'. finite_row s' i t' \<and> owed t' = owed t +
    (if j = i then at_least_one n + (if r = Some ClQuotaExceeded then shortfall i n actual s else 0) else 0)"
proof (cases "j = i")
  case True
  then show ?thesis
    using assms by (auto simp: finite_row_def owed_def shortfall_def settle_usage_def Let_def split: if_splits)
next
  case False
  then show ?thesis
    using assms by (auto simp: finite_row_def owed_def settle_usage_def Let_def split: if_splits option.splits)
qed

lemma quota_run_ledger:
  "finite_row s i t \<Longrightarrow> quota_run es out lost s = (out', lost', s') \<Longrightarrow>
    \<exists>t'. finite_row s' i t' \<and> owed t' + reserved_of out' i - lost_of lost' i = owed t + reserved_of out i - lost_of lost i"
proof (induction es out lost s arbitrary: t rule: quota_run.induct)
  case (1 out lost s)
  then show ?case by auto
next
  case (2 now j n es out lost s)
  obtain r s1 where r: "reserve_quota now j n s = (r, s1)" by fastforce
  obtain t1 where t1: "finite_row s1 i t1" "owed t1 = owed t - (if j = i \<and> r = None then at_least_one n else 0)"
    using reserve_row [OF 2(3) r] by auto
  show ?case
  proof (cases r)
    case None
    then have "quota_run es ((j, n) # out) lost s1 = (out', lost', s')" using 2(4) r by simp
    from 2(1) [OF r [symmetric] None t1(1) this] t1(2) None show ?thesis by auto
  next
    case (Some e)
    then have "quota_run es out lost s1 = (out', lost', s')" using 2(4) r by simp
    from 2(2) [OF r [symmetric] Some t1(1) this] t1(2) Some show ?thesis by auto
  qed
next
  case (3 now k actual es out lost s)
  show ?case
  proof (cases "k < length out")
    case True
    obtain j n where o: "out ! k = (j, n)" by fastforce
    obtain r s1 where r: "settle_usage now j n actual s = (r, s1)" by fastforce
    from settle_row [OF 3(3) r] obtain t1 where t1: "finite_row s1 i t1" "owed t1 = owed t +
      (if j = i then at_least_one n + (if r = Some ClQuotaExceeded then shortfall i n actual s else 0) else 0)" by auto
    have "quota_run es (take k out @ drop (Suc k) out)
        (if r = Some ClQuotaExceeded then (j, shortfall j n actual s) # lost else lost) s1 = (out', lost', s')"
      using 3(4) True o r by simp
    from 3(1) [OF True o [symmetric] refl r [symmetric] refl t1(1) this] show ?thesis
      using t1(2) reserved_of_take_drop [OF True o, of i] by (auto split: if_splits)
  next
    case False
    then show ?thesis using 3(2) [OF False 3(3)] 3(4) by simp
  qed
next
  case (4 now k es out lost s)
  show ?case
  proof (cases "k < length out")
    case True
    obtain j n where o: "out ! k = (j, n)" by fastforce
    from refund_row [OF 4(3), of now j n] obtain t1 where t1: "finite_row (snd (refund_quota now j n s)) i t1"
      "owed t1 = owed t + (if j = i then at_least_one n else 0)" by auto
    have "quota_run es (take k out @ drop (Suc k) out) lost (snd (refund_quota now j n s)) = (out', lost', s')"
      using 4(4) True o by simp
    from 4(1) [OF True o [symmetric] refl t1(1) this] show ?thesis
      using t1(2) reserved_of_take_drop [OF True o, of i] by auto
  next
    case False
    then show ?thesis using 4(2) [OF False 4(3)] 4(4) by simp
  qed
qed


lemma quota_lost_pos:
  "quota_run es out lost s = (out', lost', s') \<Longrightarrow> list_all (\<lambda>e. 0 < snd e) lost \<Longrightarrow> list_all (\<lambda>e. 0 < snd e) lost'"
proof (induction es out lost s rule: quota_run.induct)
  case (2 now j n es out lost s)
  then show ?case by (auto split: prod.splits option.splits)
next
  case (3 now k actual es out lost s)
  have "0 < shortfall i n actual s" if "settle_usage now i n actual s = (Some ClQuotaExceeded, s1)" for i n s1
    using that by (auto simp: settle_usage_def shortfall_def Let_def split: option.splits if_splits)
  with 3 show ?case by (auto split: prod.splits if_splits)
next
  case (4 now k es out lost s)
  then show ?case by (auto split: prod.splits if_splits)
qed simp

section \<open>Keys that were issued\<close>

text \<open>What the state of a row says about a request with its key.\<close>

definition key_verdict :: "int \<Rightarrow> token \<Rightarrow> client_error + auth_info" where
  "key_verdict now t =
     (if \<not> tk_enabled t then Inl ClDisabled
      else if tk_expires_at t > 0 \<and> now > tk_expires_at t then Inl ClExpired
      else if \<not> tk_unlimited_quota t \<and> tk_remain_quota t \<le> 0 then Inl ClQuotaExceeded
      else Inr \<lparr>ai_token_id = tk_id t, ai_name = tk_name t, ai_max_concurrent = tk_max_concurrent t, ai_rpm = tk_rpm t\<rparr>)"

lemma find_unique:
  assumes "x \<in> set xs" "P x" "\<And>y. y \<in> set xs \<Longrightarrow> P y \<Longrightarrow> y = x"
  shows "find P xs = Some x"
proof -
  obtain y where "find P xs = Some y" using assms(1,2) by (cases "find P xs") (auto simp: find_None_iff)
  then show ?thesis using assms(3) by (auto simp: find_Some_iff in_set_conv_nth)
qed

lemma clients_ok_hash:
  "clients_ok s \<Longrightarrow> map_of (cl_tokens s) i = Some t \<Longrightarrow> map_of (cl_tokens s) j = Some u \<Longrightarrow>
    tk_key_hash t = tk_key_hash u \<Longrightarrow> i = j"
  unfolding clients_ok_def by blast

lemma authenticate_row:
  assumes "clients_ok s" "map_of (cl_tokens s) i = Some t" "tk_key_hash t = hash (trim_space key)" "trim_space key \<noteq> []"
  shows "cl_authenticate hash now key s = key_verdict now t"
proof -
  have wf: "gm_wf (cl_tokens s)" using assms(1) by (simp add: clients_ok_def)
  have "find (\<lambda>u. tk_key_hash u = hash (trim_space key)) (map snd (cl_tokens s)) = Some t"
  proof (rule find_unique)
    show "t \<in> set (map snd (cl_tokens s))" using map_of_SomeD [OF assms(2)] by force
    show "u = t" if u: "u \<in> set (map snd (cl_tokens s))" "tk_key_hash u = hash (trim_space key)" for u
    proof -
      obtain j where j: "map_of (cl_tokens s) j = Some u" using u(1) gm_values_iff [OF wf, of u] by auto
      then have "j = i" using clients_ok_hash [OF assms(1) j assms(2)] assms(3) u(2) by simp
      with j assms(2) show ?thesis by simp
    qed
  qed (rule assms(3))
  then show ?thesis using assms(4) by (simp add: cl_authenticate_def key_verdict_def Let_def)
qed

definition hex_digits :: string where
  "hex_digits = ''0123456789abcdef''"

lemma trim_space_key: "set hex \<subseteq> set hex_digits \<Longrightarrow> trim_space (''sk-'' @ hex) = ''sk-'' @ hex"
proof (rule trim_space_visible)
  assume hex: "set hex \<subseteq> set hex_digits"
  have "list_all visible_char (''sk-'' @ hex_digits)" by code_simp
  then show "set (''sk-'' @ hex) \<subseteq> Collect visible_char" using hex by (auto simp: list_all_iff)
qed simp

lemma create_loop_rows:
  assumes "create_loop hash now req name n i hexes rows out = Inr (out', rows')" "t \<in> set out'" "t \<notin> set out"
  shows "map_of rows' (tk_id t) = Some t \<and>
    (\<exists>nm a b. (a, b) \<in> set hexes \<and> t = new_token hash now req nm a b)"
proof -
  have "(\<forall>k v. map_of rows k = Some v \<longrightarrow> map_of rows' k = Some v) \<and>
    (\<forall>t \<in> set out'. t \<in> set out \<or> map_of rows' (tk_id t) = Some t \<and>
      (\<exists>nm a b. (a, b) \<in> set hexes \<and> t = new_token hash now req nm a b))"
    using assms(1)
  proof (induction hexes arbitrary: i rows out)
    case (Cons h rest)
    obtain id_hex key_hex where h: "h = (id_hex, key_hex)" by (cases h)
    define nm where "nm = (if n > 1 then name @ ''-'' @ show_int (int i + 1) else name)"
    define t where "t = new_token hash now req nm id_hex key_hex"
    have fresh: "map_of rows (tk_id t) = None"
      and step: "create_loop hash now req name n (Suc i) rest (gm_put (tk_id t) t rows) (out @ [t]) = Inr (out', rows')"
      using Cons.prems(1) unfolding h by (simp_all add: Let_def t_def nm_def split: if_splits)
    note ih = Cons.IH [OF step]
    then have keep: "map_of rows' k = Some v" if "map_of rows k = Some v" for k v
      using that fresh by (cases "k = tk_id t") auto
    have "map_of rows' (tk_id t) = Some t" using ih by simp
    moreover have "(id_hex, key_hex) \<in> set (h # rest)" by (simp add: h)
    ultimately have new: "map_of rows' (tk_id t) = Some t \<and>
      (\<exists>nm a b. (a, b) \<in> set (h # rest) \<and> t = new_token hash now req nm a b)" using t_def by blast
    show ?case
    proof (intro conjI ballI allI impI)
      show "map_of rows' k = Some v" if "map_of rows k = Some v" for k v using keep [OF that] .
      fix u assume "u \<in> set out'"
      with ih consider "u \<in> set (out @ [t])" | "map_of rows' (tk_id u) = Some u"
        "\<exists>nm a b. (a, b) \<in> set rest \<and> u = new_token hash now req nm a b" by blast
      then show "u \<in> set out \<or> map_of rows' (tk_id u) = Some u \<and>
        (\<exists>nm a b. (a, b) \<in> set (h # rest) \<and> u = new_token hash now req nm a b)"
        by cases (use new in auto)
    qed
  qed simp
  with assms(2,3) show ?thesis by blast
qed

lemma cl_create_rows:
  assumes "cl_create hash now random req s = (Inr ts, s')" "t \<in> set ts"
  shows "map_of (cl_tokens s') (tk_id t) = Some t"
    "\<exists>nm k. t = new_token hash now req nm (fst (random k)) (snd (random k))"
proof -
  define n where "n = (if cr_count req \<le> 0 then 1 else nat (cr_count req))"
  define nm where "nm = (if trim_space (cr_name req) = [] then ''token'' else trim_space (cr_name req))"
  have ok: "create_args_ok req" using assms(1) by (auto simp: cl_create_def split: if_splits)
  obtain q where q: "create_loop hash now req nm n 0 (map random [0..<n]) (cl_tokens s) [] = q" by blast
  have "cl_create hash now random req s =
      (case q of Inl e \<Rightarrow> (Inl e, s) | Inr (ts, rows) \<Rightarrow> (Inr ts, s\<lparr>cl_tokens := rows\<rparr>))"
    unfolding cl_create_def n_def [symmetric] nm_def [symmetric] Let_def using q ok by simp
  with assms(1) obtain rows where r: "q = Inr (ts, rows)" "cl_tokens s' = rows"
    by (auto split: sum.splits prod.splits)
  from create_loop_rows [OF q [unfolded r(1)] assms(2)] r(2)
  show "map_of (cl_tokens s') (tk_id t) = Some t" "\<exists>nm k. t = new_token hash now req nm (fst (random k)) (snd (random k))"
    by (auto simp: prod_eq_iff) (metis fst_conv snd_conv)
qed


section \<open>Properties\<close>

definition sample_request :: create_request where
  "sample_request = \<lparr>cr_name = ''bot'', cr_remain_quota = Some 10, cr_unlimited_quota = None,
     cr_max_concurrent = Some 1, cr_rpm = Some 2, cr_expires_at = 0, cr_count = 2\<rparr>"

definition sample_random :: "nat \<Rightarrow> string \<times> string" where
  "sample_random k = (if k = 0 then (''a0'', ''b1'') else (''a1'', ''b2''))"

definition sample_clients :: client_store where
  "sample_clients = snd (cl_create rev 100 sample_random sample_request empty_clients)"

lemma clients_ok_empty: "clients_ok empty_clients"
  by (simp add: clients_ok_def empty_clients_def)

lemma sample_clients_ok: "clients_ok sample_clients"
  unfolding sample_clients_def by (rule cl_create_ok [OF clients_ok_empty])

text \<open>
  The key table keeps its invariant through every operation of the store: ids are distinct
  and rows are keyed by them, no two keys have the same hash, and quota and limits are never
  negative, whatever is reserved, settled, refunded, patched or deleted and in which order.
\<close>

theorem reachable_clients:
  assumes "(client_step hash)\<^sup>*\<^sup>* empty_clients s"
  shows "distinct (map fst (cl_tokens s)) \<and>
    list_all (\<lambda>(i, t). tk_id t = i \<and> 0 \<le> tk_remain_quota t \<and> 0 \<le> tk_max_concurrent t \<and> 0 \<le> tk_rpm t) (cl_tokens s) \<and>
    distinct (map (\<lambda>(i, t). tk_key_hash t) (cl_tokens s))"
proof -
  have ok: "clients_ok s" using assms
    by (induction rule: rtranclp_induct) (auto intro: clients_ok_empty client_step_ok)
  then have wf: "gm_wf (cl_tokens s)" by (simp add: clients_ok_def)
  have "inj_on (\<lambda>(i, t). tk_key_hash t) (set (cl_tokens s))"
    using clients_ok_hash [OF ok] wf by (auto simp: inj_on_def gm_in_iff) force
  moreover have "distinct (cl_tokens s)" using wf by (simp add: gm_wf_def distinct_map)
  ultimately show ?thesis
    using ok wf clients_okD [OF ok] by (auto simp: gm_wf_def list_all_iff distinct_map)
qed

theorem reachable_clients_witness:
  "distinct (map (\<lambda>(i, t). tk_key_hash t) (cl_tokens (snd (reserve_quota 5 ''tok_a0'' 4 sample_clients))))"
proof -
  have "client_step rev empty_clients sample_clients" unfolding sample_clients_def by (rule client_step.create)
  moreover have "client_step rev sample_clients (snd (reserve_quota 5 ''tok_a0'' 4 sample_clients))"
    by (rule client_step.reserve)
  ultimately have "(client_step rev)\<^sup>*\<^sup>* empty_clients (snd (reserve_quota 5 ''tok_a0'' 4 sample_clients))"
    by (rule rtranclp.rtrancl_into_rtrancl [OF r_into_rtranclp])
  then show ?thesis using reachable_clients by blast
qed

text \<open>
  The concurrency gate of the tokens is exact: over any interleaving of acquisitions (with any
  clocks and rates) and releases, the in-flight count of every token is its initial count plus
  the slots that are out, and it never exceeds the limit of a token that has one.
\<close>

theorem client_slots_balanced:
  assumes "slot_gate.run mx es [] s = (out, s')"
    and "\<And>i. 0 \<le> current_inflight s i \<and> current_inflight s i + int (length es) < 2 ^ 63 - 1"
  shows "current_inflight s' i = current_inflight s i + int (count_list out i) \<and>
    ((\<forall>j. 0 < mx j \<longrightarrow> current_inflight s j \<le> mx j) \<longrightarrow> 0 < mx i \<longrightarrow> current_inflight s' i \<le> mx i)"
proof -
  have "current_inflight s' i = current_inflight s i + int (count_list out i)"
    using slot_gate.run_tracks [of "[]" s es mx i] assms by (simp add: slot_gate.held_def)
  moreover have "current_inflight s' i \<le> slot_cap mx i" if "\<And>j. 0 < mx j \<Longrightarrow> current_inflight s j \<le> mx j"
  proof -
    have "current_inflight s j \<le> slot_cap mx j" for j
      using that [of j] assms(2) [of j] by (auto simp: slot_cap_def)
    then show ?thesis using slot_gate.run_capped [of "[]" s es mx i] assms by (simp add: slot_gate.held_def)
  qed
  ultimately show ?thesis by (auto simp: slot_cap_def)
qed

theorem client_slots_balanced_witness:
  "current_inflight (snd (slot_gate.run (\<lambda>i. 1) [Enter (1, ''t'', 0), Enter (2, ''t'', 0), Leave 0 (), Enter (3, ''t'', 5)]
     [] empty_clients)) ''t'' = 1"
proof -
  let ?es = "[Enter (1, ''t'', 0), Enter (2, ''t'', 0), Leave 0 (), Enter (3, ''t'', 5)]"
  let ?enter = "slot_attempt (\<lambda>i. 1)"
  define s1 where "s1 = snd (?enter (1, ''t'', 0) empty_clients)"
  define s2 where "s2 = snd (?enter (2, ''t'', 0) s1)"
  define s3 where "s3 = slot_give_back () ''t'' s2"
  define s4 where "s4 = snd (?enter (3, ''t'', 5) s3)"
  have "fst (?enter (1, ''t'', 0) empty_clients) = Some ''t''" "fst (?enter (2, ''t'', 0) s1) = None"
    "fst (?enter (3, ''t'', 5) s3) = Some ''t''"
    unfolding s3_def s2_def s1_def by code_simp+
  then have "?enter (1, ''t'', 0) empty_clients = (Some ''t'', s1)" "?enter (2, ''t'', 0) s1 = (None, s2)"
    "?enter (3, ''t'', 5) s3 = (Some ''t'', s4)"
    by (simp_all add: s1_def s2_def s4_def prod_eq_iff)
  then have r: "slot_gate.run (\<lambda>i. 1) ?es [] empty_clients = ([''t''], s4)" by (simp add: s3_def)
  show ?thesis
    using client_slots_balanced [OF r, of "''t''"] r by (simp add: current_inflight_def empty_clients_def)
qed

text \<open>
  The rate limit of a token: with a clock that does not go back, however many requests come
  and whatever the concurrency gate says, at most twice the limit are let through in any
  minute, wherever it begins (the windows are fixed, so two can share it).
\<close>

theorem rpm_bounded:
  assumes "0 < rpm" "i \<noteq> []" "sorted (map fst es)" "gm_get (cl_rpm_win s) i = None"
  shows "int (length (filter (\<lambda>t. a \<le> t \<and> t < a + rpm_minute) (granted_at i rpm es s))) \<le> 2 * rpm"
  using granted_in_minute [of rpm i s es a] assms by (simp add: rpm_ok_def window_part_def granted_within_def)

theorem rpm_bounded_witness:
  "int (length (filter (\<lambda>t. 59000000000 \<le> t \<and> t < 59000000000 + rpm_minute) (granted_at ''t'' 1
     [(1, 0), (2, 0), (60000000001, 0), (60000000002, 0)] empty_clients))) \<le> 2"
  using rpm_bounded [of 1 "''t''" "[(1, 0), (2, 0), (60000000001, 0), (60000000002, 0)]" empty_clients 59000000000]
  by (simp add: empty_clients_def)

text \<open>
  C26. Quota is conserved: for an enabled token with a finite quota, over any interleaving of
  reservations, settlements and refunds (of this and other tokens), what remains plus what is
  reserved plus what is used stays constant, save for what settlements that returned
  \<open>ErrQuotaExceeded\<close> could not collect; what remains is never negative.
\<close>

theorem quota_conserved:
  assumes "gm_get (cl_tokens s) i = Some t" "tk_enabled t" "\<not> tk_unlimited_quota t" "0 \<le> tk_remain_quota t"
    and "quota_run es out [] s = (out', lost, s')"
  shows "\<exists>t'. gm_get (cl_tokens s') i = Some t' \<and> tk_enabled t' \<and> 0 \<le> tk_remain_quota t' \<and>
    tk_remain_quota t' + tk_used_quota t' + reserved_of out' i =
      tk_remain_quota t + tk_used_quota t + reserved_of out i + lost_of lost i \<and>
    list_all (\<lambda>e. 0 < snd e) lost"
proof -
  have "finite_row s i t" using assms by (simp add: finite_row_def)
  from quota_run_ledger [OF this assms(5)] quota_lost_pos [OF assms(5)] show ?thesis
    by (auto simp: finite_row_def owed_def)
qed

theorem quota_conserved_witness:
  "case gm_get (cl_tokens (snd (snd (quota_run [QReserve 1 ''tok_a0'' 3, QReserve 2 ''tok_a0'' 4, QSettle 3 0 6, QRefund 4 0]
      [] [] sample_clients)))) ''tok_a0'' of None \<Rightarrow> False
   | Some t \<Rightarrow> tk_remain_quota t + tk_used_quota t = 10"
proof -
  let ?es = "[QReserve 1 ''tok_a0'' 3, QReserve 2 ''tok_a0'' 4, QSettle 3 0 6, QRefund 4 0]"
  define t where "t = the (map_of (cl_tokens sample_clients) ''tok_a0'')"
  have "map_of (cl_tokens sample_clients) ''tok_a0'' \<noteq> None" by code_simp
  then have t: "map_of (cl_tokens sample_clients) ''tok_a0'' = Some t" by (auto simp: t_def)
  have v: "tk_enabled t" "\<not> tk_unlimited_quota t" "tk_remain_quota t = 10" "tk_used_quota t = 0"
    unfolding t_def by code_simp+
  have "fst (quota_run ?es [] [] sample_clients) = []" "fst (snd (quota_run ?es [] [] sample_clients)) = []" by code_simp+
  then obtain s' where r: "quota_run ?es [] [] sample_clients = ([], [], s')" by (metis prod.collapse)
  from quota_conserved [OF t v(1,2) _ r] v(3,4) obtain t' where
    "gm_get (cl_tokens s') ''tok_a0'' = Some t'" "tk_remain_quota t' + tk_used_quota t' = 10" by auto
  then show ?thesis using r by simp
qed

text \<open>
  C27. A key that was issued authenticates: in every later state of the store that still holds
  its hash, \<open>Authenticate\<close> with the key (the random part is hexadecimal) finds the row of that key
  and no other, and refuses or accepts by that row's switch, expiry and quota.
\<close>

theorem issued_key_authenticates:
  assumes "clients_ok s" "cl_create hash now random req s = (Inr ts, s1)" "t \<in> set ts"
    and "\<And>k. set (snd (random k)) \<subseteq> set hex_digits"
    and "(client_step hash)\<^sup>*\<^sup>* s1 s2" "gm_get (cl_tokens s2) i = Some u" "tk_key_hash u = tk_key_hash t"
  shows "cl_authenticate hash now2 (tk_api_key t) s2 = key_verdict now2 u \<and>
    cl_authenticate hash now2 (tk_api_key t) s1 = key_verdict now2 t \<and> (s2 = s1 \<longrightarrow> u = t)"
proof -
  have ok1: "clients_ok s1" using cl_create_ok [OF assms(1), of hash now random req] assms(2) by simp
  from assms(5) have ok2: "clients_ok s2"
    by (induction rule: rtranclp_induct) (auto intro: ok1 client_step_ok)
  note row = cl_create_rows(1) [OF assms(2,3)]
  obtain nm k where "t = new_token hash now req nm (fst (random k)) (snd (random k))"
    using cl_create_rows(2) [OF assms(2,3)] by blast
  then have key: "trim_space (tk_api_key t) = tk_api_key t" "tk_api_key t \<noteq> []" "tk_key_hash t = hash (tk_api_key t)"
    using trim_space_key [OF assms(4) [of k]] by (simp_all add: new_token_def new_api_key_def Let_def)
  show ?thesis
    using authenticate_row [OF ok1 row, of hash "tk_api_key t"] authenticate_row [OF ok2 assms(6), of hash "tk_api_key t"]
      key assms(6,7) clients_ok_hash [OF ok1 row, of i u] row by auto
qed

theorem issued_key_authenticates_witness:
  "list_all (\<lambda>k. cl_authenticate rev 200 k sample_clients \<noteq> Inl ClUnauthorized)
     (case fst (cl_create rev 100 sample_random sample_request empty_clients) of Inl e \<Rightarrow> [] | Inr ts \<Rightarrow> map tk_api_key ts)"
proof (cases "fst (cl_create rev 100 sample_random sample_request empty_clients)")
  case (Inr ts)
  then have c: "cl_create rev 100 sample_random sample_request empty_clients = (Inr ts, sample_clients)"
    by (simp add: sample_clients_def prod_eq_iff)
  have hex: "set (snd (sample_random k)) \<subseteq> set hex_digits" for k
    by (auto simp: sample_random_def hex_digits_def)
  have "cl_authenticate rev 200 (tk_api_key t) sample_clients = key_verdict 200 t" if "t \<in> set ts" for t
    using issued_key_authenticates [OF clients_ok_empty c that hex rtranclp.rtrancl_refl
      cl_create_rows(1) [OF c that] refl] by simp
  then show ?thesis using Inr by (auto simp: list_all_iff key_verdict_def)
qed simp

end
