(* ===== verification/Refresh.thy ===== *)
theory Refresh
  imports Worker
begin

text \<open>
  Token refresh: the in-process service (\<open>internal/refresh\<close>: configuration, failure policy,
  \<open>EnsureFresh\<close>, \<open>ForceRefresh\<close>, the background scan and the adapter the executor uses) and the
  worker of the refresh fleet (\<open>internal/refresher\<close>), which drains the due queue of the shared
  state.

  The identity provider is a parameter with a state of its own. The rate limiter
  (\<open>golang.org/x/time/rate\<close>) may refuse to wait, an input of the call; the single-flight group
  (\<open>golang.org/x/sync\<close>) runs the function once for all concurrent callers of a key, so the model
  is of the call that runs. Other writers of the catalog may come between any two steps of a
  refresh: they are the function \<open>fc_mid\<close> of the call. The clock readings and the states of the
  context are functions of the position of the reading. Rates, float64 in Go, are rationals.
\<close>

section \<open>Configuration\<close>

record refresh_config =
  rc_workers :: int
  rc_qps :: rat
  rc_burst :: int
  rc_skew_sec :: int
  rc_scan_interval :: int
  rc_scan_limit :: int
  rc_job_buffer :: int
  rc_cooldown_on_fail_sec :: int
  rc_cooldown_cap_sec :: int
  rc_quarantine_after :: int

definition refresh_default_config :: refresh_config where
  "refresh_default_config =
     \<lparr>rc_workers = 3, rc_qps = 30, rc_burst = 0, rc_skew_sec = 300, rc_scan_interval = 5 * 1000000000,
      rc_scan_limit = 200, rc_job_buffer = 512, rc_cooldown_on_fail_sec = 60, rc_cooldown_cap_sec = 900,
      rc_quarantine_after = 5\<rparr>"

definition refresh_normalize :: "refresh_config \<Rightarrow> refresh_config" where
  "refresh_normalize c =
     (let d = refresh_default_config;
          pos = (\<lambda>v dflt. if v \<le> (0 :: int) then dflt else v);
          w0 = pos (rc_workers c) (rc_workers d);
          w1 = (if w0 < 1 then 1 else w0);
          qps = (if rc_qps c \<le> 0 then rc_qps d else rc_qps c);
          b0 = \<lfloor>qps / 10\<rfloor>; b1 = (if b0 < 1 then 1 else b0)
      in \<lparr>rc_workers = (if w1 > 256 then 256 else w1), rc_qps = qps,
          rc_burst = (if rc_burst c \<le> 0 then (if b1 > 10 then 10 else b1) else rc_burst c),
          rc_skew_sec = pos (rc_skew_sec c) (rc_skew_sec d),
          rc_scan_interval = pos (rc_scan_interval c) (rc_scan_interval d),
          rc_scan_limit = pos (rc_scan_limit c) (rc_scan_limit d),
          rc_job_buffer = pos (rc_job_buffer c) (rc_job_buffer d),
          rc_cooldown_on_fail_sec = pos (rc_cooldown_on_fail_sec c) (rc_cooldown_on_fail_sec d),
          rc_cooldown_cap_sec = pos (rc_cooldown_cap_sec c) (rc_cooldown_cap_sec d),
          rc_quarantine_after = pos (rc_quarantine_after c) (rc_quarantine_after d)\<rparr>)"

section \<open>The failure policy\<close>

record default_policy =
  dp_cooldown_sec :: int
  dp_cooldown_cap_sec :: int
  dp_quarantine_after :: int

definition new_default_policy :: "refresh_config \<Rightarrow> default_policy" where
  "new_default_policy cfg0 =
     (let cfg = refresh_normalize cfg0 in
      \<lparr>dp_cooldown_sec = rc_cooldown_on_fail_sec cfg, dp_cooldown_cap_sec = rc_cooldown_cap_sec cfg,
       dp_quarantine_after = rc_quarantine_after cfg\<rparr>)"

definition policy_cooldown :: "default_policy \<Rightarrow> int" where
  "policy_cooldown p =
     (let cool = (if dp_cooldown_sec p \<le> 0 then 60 else dp_cooldown_sec p) in
      if dp_cooldown_cap_sec p > 0 \<and> cool > dp_cooldown_cap_sec p then dp_cooldown_cap_sec p else cool)"

definition policy_threshold :: "default_policy \<Rightarrow> int" where
  "policy_threshold p = (if dp_quarantine_after p \<le> 0 then 5 else dp_quarantine_after p)"

text \<open>\<open>gone\<close>: the context is cancelled. The service ignores the error the policy returns.\<close>

definition on_refresh_failure :: "default_policy \<Rightarrow> bool \<Rightarrow> int \<Rightarrow> string \<Rightarrow> string \<Rightarrow> catalog \<Rightarrow> catalog" where
  "on_refresh_failure p gone now i err c =
     (if i = [] \<or> gone then c
      else case cat_get c i of
        Inl e \<Rightarrow> c
      | Inr cur \<Rightarrow>
          let cu = acc_consecutive_unauthorized cur + 1;
              patch = no_patch\<lparr>hp_failure_count := Some (acc_failure_count cur + 1),
                hp_cooldown_until := Some (now + policy_cooldown p),
                hp_last_error := Some (take 240 (''refresh failed: '' @ err)),
                hp_consecutive_unauthorized := Some cu\<rparr>;
              patch' = (if cu \<ge> policy_threshold p
                then patch\<lparr>hp_lifecycle := Some LifecycleQuarantined, hp_enabled := Some False\<rparr> else patch)
          in snd (patch_health c now i patch'))"

definition on_refresh_success :: "bool \<Rightarrow> int \<Rightarrow> string \<Rightarrow> catalog \<Rightarrow> catalog" where
  "on_refresh_success gone now i c =
     (if i = [] \<or> gone then c
      else snd (patch_health c now i
        (no_patch\<lparr>hp_consecutive_unauthorized := Some 0, hp_clear_last_error := True\<rparr>)))"

section \<open>The service\<close>

datatype refresh_error =
  RfInvalidInput | RfCtx | RfLimiter | RfCatalog cat_error | RfOAuth string | RfEmptyTokens | RfPersist cat_error

record refresh_service =
  rs_cfg :: refresh_config
  rs_policy :: default_policy
  rs_refresh_ok :: int
  rs_refresh_fail :: int
  rs_ensure_hit :: int
  rs_running :: bool
  rs_active_workers :: int
  rs_jobs :: "string list"
  rs_jobs_cap :: int

record 'o refresh_world =
  fw_cat :: catalog
  fw_svc :: refresh_service
  fw_idp :: 'o

text \<open>
  One call: the clock and context at each reading, whether the limiter lets it through, and what
  other writers do to the catalog after each step.
\<close>

record refresh_call =
  fc_now :: "nat \<Rightarrow> int"
  fc_gone :: "nat \<Rightarrow> bool"
  fc_wait :: bool
  fc_mid :: "nat \<Rightarrow> catalog \<Rightarrow> catalog"

definition refresh_new :: "refresh_config \<Rightarrow> refresh_service" where
  "refresh_new cfg0 =
     (let cfg = refresh_normalize cfg0 in
      \<lparr>rs_cfg = cfg, rs_policy = new_default_policy cfg, rs_refresh_ok = 0, rs_refresh_fail = 0,
       rs_ensure_hit = 0, rs_running = False, rs_active_workers = 0, rs_jobs = [], rs_jobs_cap = 0\<rparr>)"

text \<open>A reload of the configuration; the number of worker goroutines it adds.\<close>

definition refresh_apply_config :: "refresh_config \<Rightarrow> refresh_service \<Rightarrow> int \<times> refresh_service" where
  "refresh_apply_config cfg0 s =
     (let cfg = refresh_normalize cfg0; s1 = s\<lparr>rs_cfg := cfg\<rparr> in
      if rs_running s \<and> rc_workers cfg > rs_active_workers s
      then (rc_workers cfg - rs_active_workers s, s1\<lparr>rs_active_workers := rc_workers cfg\<rparr>)
      else (0, s1))"

definition refresh_start :: "refresh_service \<Rightarrow> (refresh_error + int) \<times> refresh_service" where
  "refresh_start s =
     (if rs_running s then (Inl RfInvalidInput, s)
      else (Inr (rc_workers (rs_cfg s)),
        s\<lparr>rs_jobs := [], rs_jobs_cap := rc_job_buffer (rs_cfg s), rs_running := True,
          rs_active_workers := rc_workers (rs_cfg s)\<rparr>))"

definition refresh_stop :: "refresh_service \<Rightarrow> refresh_service" where
  "refresh_stop s = (if \<not> rs_running s then s else s\<lparr>rs_running := False, rs_active_workers := 0\<rparr>)"

definition fresh :: "refresh_config \<Rightarrow> int \<Rightarrow> account \<Rightarrow> bool" where
  "fresh cfg now a \<longleftrightarrow> acc_expires_at a \<ge> now + rc_skew_sec cfg \<and> acc_access_token a \<noteq> []"

definition row_tokens :: "account \<Rightarrow> token_set" where
  "row_tokens a = \<lparr>ts_access_token = acc_access_token a, ts_refresh_token = acc_refresh_token a,
     ts_expires_at = acc_expires_at a\<rparr>"

text \<open>The texts of the errors of \<open>UpdateTokens\<close>, which end up in the row's last error.\<close>

definition update_error_text :: "cat_error \<Rightarrow> string \<Rightarrow> int \<Rightarrow> string" where
  "update_error_text e i n =
     (case e of
        CatNotFound \<Rightarrow> ''catalog: account not found: '' @ i
      | CatCASConflict \<Rightarrow> ''catalog: revision conflict: id='' @ i @ '' expected_rev='' @ show_int n
      | CatInvalidInput \<Rightarrow> ''catalog: invalid input: '' @
          (if i = [] then ''empty id'' else if n < 1 then ''expected revision must be >= 1'' else ''tokens must be non-empty'')
      | CatClosed \<Rightarrow> ''catalog: closed'')"

definition count_fail :: "refresh_service \<Rightarrow> refresh_service" where
  "count_fail s = s\<lparr>rs_refresh_fail := wrap64 (rs_refresh_fail s + 1)\<rparr>"

definition count_ok :: "refresh_service \<Rightarrow> refresh_service" where
  "count_ok s = s\<lparr>rs_refresh_ok := wrap64 (rs_refresh_ok s + 1)\<rparr>"

text \<open>A failure that the policy is told of.\<close>

definition punish :: "refresh_call \<Rightarrow> string \<Rightarrow> string \<Rightarrow> 'o refresh_world \<Rightarrow> 'o refresh_world" where
  "punish call i err w =
     w\<lparr>fw_svc := count_fail (fw_svc w),
       fw_cat := on_refresh_failure (rs_policy (fw_svc w)) (fc_gone call 2) (fc_now call 5) i err (fw_cat w)\<rparr>"

definition between :: "refresh_call \<Rightarrow> nat \<Rightarrow> 'o refresh_world \<Rightarrow> 'o refresh_world" where
  "between call k w = w\<lparr>fw_cat := fc_mid call k (fw_cat w)\<rparr>"

text \<open>How the outcome of the last write of the tokens is reported and recorded.\<close>

definition persist_outcome ::
  "refresh_call \<Rightarrow> string \<Rightarrow> int \<Rightarrow> token_set \<Rightarrow> cat_error + unit \<Rightarrow> 'o refresh_world
   \<Rightarrow> (refresh_error + token_set) \<times> 'o refresh_world" where
  "persist_outcome call i n tokens r w =
     (case r of
        Inl e \<Rightarrow> (Inl (RfPersist e), punish call i (update_error_text e i n) w)
      | Inr u \<Rightarrow> (Inr tokens, w\<lparr>fw_svc := count_ok (fw_svc w),
           fw_cat := on_refresh_success (fc_gone call 2) (fc_now call 5) i (fw_cat w)\<rparr>))"

definition refresh_and_persist ::
  "(string \<Rightarrow> 'o \<Rightarrow> (string + token_set) \<times> 'o) \<Rightarrow> refresh_call \<Rightarrow> account \<Rightarrow> 'o refresh_world
   \<Rightarrow> (refresh_error + token_set) \<times> 'o refresh_world" where
  "refresh_and_persist oauth call a w =
     (if \<not> fc_wait call then (Inl RfLimiter, w)
      else if fc_gone call 1 then (Inl RfCtx, w)
      else let (res, o') = oauth (acc_refresh_token a) (fw_idp w);
               w1 = between call 1 (w\<lparr>fw_idp := o'\<rparr>) in
       case res of
         Inl err \<Rightarrow> (Inl (RfOAuth err), punish call (acc_id a) err w1)
       | Inr tokens \<Rightarrow>
          if ts_access_token tokens = [] \<or> ts_refresh_token tokens = []
          then (Inl RfEmptyTokens,
                punish call (acc_id a) ''refresh: invalid input: empty tokens from oauth'' w1)
          else let (r, c) = update_tokens (fw_cat w1) (fc_now call 2) (acc_id a) (acc_revision a) tokens;
                   w2 = w1\<lparr>fw_cat := c\<rparr> in
           if r = Inl CatCASConflict then
             let w3 = between call 2 w2 in
             (case cat_get (fw_cat w3) (acc_id a) of
                Inl e \<Rightarrow> (Inl (RfCatalog e), w3\<lparr>fw_svc := count_fail (fw_svc w3)\<rparr>)
              | Inr cur \<Rightarrow>
                  if fresh (rs_cfg (fw_svc w3)) (fc_now call 3) cur
                  then (Inr (row_tokens cur), w3\<lparr>fw_svc := count_ok (fw_svc w3)\<rparr>)
                  else let w4 = between call 3 w3;
                           (r', c') = update_tokens (fw_cat w4) (fc_now call 4) (acc_id a) (acc_revision cur) tokens in
                    persist_outcome call (acc_id a) (acc_revision cur) tokens r' (w4\<lparr>fw_cat := c'\<rparr>))
           else persist_outcome call (acc_id a) (acc_revision a) tokens r w2)"

definition ensure_fresh ::
  "(string \<Rightarrow> 'o \<Rightarrow> (string + token_set) \<times> 'o) \<Rightarrow> refresh_call \<Rightarrow> string \<Rightarrow> 'o refresh_world
   \<Rightarrow> (refresh_error + token_set) \<times> 'o refresh_world" where
  "ensure_fresh oauth call i w =
     (if i = [] then (Inl RfInvalidInput, w)
      else if fc_gone call 0 then (Inl RfCtx, w)
      else case cat_get (fw_cat w) i of
        Inl e \<Rightarrow> (Inl (RfCatalog e), w)
      | Inr a \<Rightarrow>
          if fresh (rs_cfg (fw_svc w)) (fc_now call 0) a
          then (Inr (row_tokens a), w\<lparr>fw_svc := (fw_svc w)\<lparr>rs_ensure_hit := wrap64 (rs_ensure_hit (fw_svc w) + 1)\<rparr>\<rparr>)
          else let w1 = between call 0 w in
           (case cat_get (fw_cat w1) i of
              Inl e \<Rightarrow> (Inl (RfCatalog e), w1)
            | Inr cur \<Rightarrow>
                if fresh (rs_cfg (fw_svc w1)) (fc_now call 1) cur then (Inr (row_tokens cur), w1)
                else refresh_and_persist oauth call cur w1))"

definition force_refresh ::
  "(string \<Rightarrow> 'o \<Rightarrow> (string + token_set) \<times> 'o) \<Rightarrow> refresh_call \<Rightarrow> string \<Rightarrow> 'o refresh_world
   \<Rightarrow> (refresh_error + token_set) \<times> 'o refresh_world" where
  "force_refresh oauth call i w =
     (if i = [] then (Inl RfInvalidInput, w)
      else if fc_gone call 0 then (Inl RfCtx, w)
      else case cat_get (fw_cat w) i of
        Inl e \<Rightarrow> (Inl (RfCatalog e), w)
      | Inr cur \<Rightarrow> refresh_and_persist oauth call cur w)"

text \<open>
  The scan: ids go to the channel until its buffer is full, then the rest waits for the next
  scan. A worker takes the first id and refreshes it.
\<close>

definition enqueue_expiring :: "int \<Rightarrow> catalog \<Rightarrow> refresh_service \<Rightarrow> refresh_service" where
  "enqueue_expiring now c s =
     (case list_expiring c (rc_scan_limit (rs_cfg s)) (now + rc_skew_sec (rs_cfg s)) of
        Inl e \<Rightarrow> s
      | Inr as \<Rightarrow> s\<lparr>rs_jobs := rs_jobs s @ take (nat (rs_jobs_cap s) - length (rs_jobs s)) (map acc_id as)\<rparr>)"

definition worker_turn ::
  "(string \<Rightarrow> 'o \<Rightarrow> (string + token_set) \<times> 'o) \<Rightarrow> refresh_call \<Rightarrow> 'o refresh_world \<Rightarrow> 'o refresh_world" where
  "worker_turn oauth call w =
     (case rs_jobs (fw_svc w) of
        [] \<Rightarrow> w
      | i # rest \<Rightarrow> snd (ensure_fresh oauth call i (w\<lparr>fw_svc := (fw_svc w)\<lparr>rs_jobs := rest\<rparr>\<rparr>)))"

section \<open>The adapter of the executor\<close>

definition patch_hot_expires ::
  "((string \<times> hot_meta) list \<Rightarrow> (string \<times> hot_meta) list) \<Rightarrow> string \<Rightarrow> int \<Rightarrow> index \<Rightarrow> index" where
  "patch_hot_expires ord i expires x =
     (if i = [] \<or> expires \<le> 0 then x
      else case hot_get i x of
        None \<Rightarrow> x
      | Some m \<Rightarrow> if hm_expires_at m = expires then x else snd (promote ord (m\<lparr>hm_expires_at := expires\<rparr>) x))"

definition token_and_rev ::
  "((string \<times> hot_meta) list \<Rightarrow> (string \<times> hot_meta) list) \<Rightarrow> string \<Rightarrow> token_set \<Rightarrow> catalog \<Rightarrow> index
   \<Rightarrow> (refresh_error + string \<times> int) \<times> index" where
  "token_and_rev ord i ts c x =
     (let (n, ts') =
        (case cat_get c i of
           Inl e \<Rightarrow> (0, ts)
         | Inr a \<Rightarrow>
             (if acc_revision a > 0 then acc_revision a else 0,
              \<lparr>ts_access_token = (if acc_access_token a \<noteq> [] then acc_access_token a else ts_access_token ts),
               ts_refresh_token = ts_refresh_token ts,
               ts_expires_at = (if acc_expires_at a > 0 then acc_expires_at a else ts_expires_at ts)\<rparr>));
          x' = patch_hot_expires ord i (ts_expires_at ts') x
      in (if ts_access_token ts' = [] then Inl RfInvalidInput else Inr (ts_access_token ts', n), x'))"

section \<open>The refresh fleet\<close>

record refresher_config =
  fr_refresher_id :: string
  fr_poll_every :: int
  fr_batch_size :: int
  fr_lock_ttl :: int
  fr_global_qps :: rat

definition refresher_normalize :: "refresher_config \<Rightarrow> refresher_config" where
  "refresher_normalize c =
     \<lparr>fr_refresher_id = (if fr_refresher_id c = [] then ''refresher-0'' else fr_refresher_id c),
      fr_poll_every = (if fr_poll_every c \<le> 0 then 2 * 1000000000 else fr_poll_every c),
      fr_batch_size = (if fr_batch_size c \<le> 0 then 20 else fr_batch_size c),
      fr_lock_ttl = (if fr_lock_ttl c \<le> 0 then 60 * 1000000000 else fr_lock_ttl c),
      fr_global_qps = (if fr_global_qps c \<le> 0 then 20 else fr_global_qps c)\<rparr>"

datatype refresher_error = RrStore store_error | RrProvider string | RrState cs_error

record 'o fleet_world =
  ft_cat :: catalog
  ft_state :: memory
  ft_idp :: 'o

definition refresh_one ::
  "(account \<Rightarrow> 'o \<Rightarrow> (string + token_set) \<times> 'o) \<Rightarrow> int \<Rightarrow> (catalog \<Rightarrow> catalog) \<Rightarrow> string \<Rightarrow> 'o fleet_world
   \<Rightarrow> (refresher_error + unit) \<times> 'o fleet_world" where
  "refresh_one oauth now mid i w =
     (case store_get (ft_cat w) i of
        Inl e \<Rightarrow> (Inl (RrStore e), w)
      | Inr a \<Rightarrow>
          let (res, o') = oauth a (ft_idp w); w1 = w\<lparr>ft_idp := o', ft_cat := mid (ft_cat w)\<rparr> in
          (case res of
             Inl err \<Rightarrow>
               (Inl (RrProvider err),
                w1\<lparr>ft_state := snd (add_refresh_due i (now + 5 * 60 * 1000000000)
                     (snd (cs_set_cooldown i (now + 2 * 60 * 1000000000) (ft_state w1))))\<rparr>)
           | Inr tokens \<Rightarrow>
               (case store_update_tokens (ft_cat w1) (unix_sec now) i (acc_revision a) tokens of
                  (Inl e, c) \<Rightarrow> (Inl (RrStore e), w1\<lparr>ft_cat := c\<rparr>)
                | (Inr u, c) \<Rightarrow> (Inr (), w1\<lparr>ft_cat := c\<rparr>))))"

text \<open>The claimed ids in turn, until the context is cancelled; \<open>now\<close> and \<open>mid\<close> for each of them.\<close>

fun refresh_batch ::
  "(account \<Rightarrow> 'o \<Rightarrow> (string + token_set) \<times> 'o) \<Rightarrow> (nat \<Rightarrow> int) \<Rightarrow> (nat \<Rightarrow> catalog \<Rightarrow> catalog) \<Rightarrow> (nat \<Rightarrow> bool)
   \<Rightarrow> nat \<Rightarrow> string list \<Rightarrow> 'o fleet_world \<Rightarrow> 'o fleet_world" where
  "refresh_batch oauth now mid gone k [] w = w"
| "refresh_batch oauth now mid gone k (i # ids) w =
     (let w1 = snd (refresh_one oauth (now k) (mid k) i w) in
      if gone k then w1 else refresh_batch oauth now mid gone (Suc k) ids w1)"

definition refresher_tick ::
  "refresher_config \<Rightarrow> (account \<Rightarrow> 'o \<Rightarrow> (string + token_set) \<times> 'o)
   \<Rightarrow> ((string \<times> int) list \<Rightarrow> (string \<times> int) list) \<Rightarrow> int \<Rightarrow> (nat \<Rightarrow> int) \<Rightarrow> (nat \<Rightarrow> catalog \<Rightarrow> catalog) \<Rightarrow> (nat \<Rightarrow> bool)
   \<Rightarrow> 'o fleet_world \<Rightarrow> 'o fleet_world" where
  "refresher_tick cfg oauth ord t now mid gone w =
     (case claim_refresh_due ord t (fr_batch_size cfg) (fr_lock_ttl cfg) (ft_state w) of
        (Inl e, m) \<Rightarrow> w\<lparr>ft_state := m\<rparr>
      | (Inr ids, m) \<Rightarrow> refresh_batch oauth now mid gone 0 ids (w\<lparr>ft_state := m\<rparr>))"

fun enqueue_accounts :: "int \<Rightarrow> account list \<Rightarrow> int \<Rightarrow> memory \<Rightarrow> (cs_error option \<times> int) \<times> memory" where
  "enqueue_accounts now [] n m = ((None, n), m)"
| "enqueue_accounts now (a # as) n m =
     (let due = (if acc_expires_at a > 0 then (acc_expires_at a - 600) * 1000000000 else now) in
      case add_refresh_due (acc_id a) due m of
        (Some e, m') \<Rightarrow> ((Some e, n), m')
      | (None, m') \<Rightarrow> enqueue_accounts now as (n + 1) m')"

definition fleet_enqueue_expiring ::
  "int \<Rightarrow> int \<Rightarrow> int \<Rightarrow> catalog \<Rightarrow> memory \<Rightarrow> ((refresher_error option \<times> int)) \<times> memory" where
  "fleet_enqueue_expiring now span0 limit0 c m =
     (let span = (if span0 \<le> 0 then 15 * 60 * 1000000000 else span0);
          limit = (if limit0 \<le> 0 then 1000 else limit0) in
      case list_expiring c limit (unix_sec (now + span)) of
        Inl e \<Rightarrow> ((Some (RrStore (map_catalog_err e)), 0), m)
      | Inr as \<Rightarrow>
          (case enqueue_accounts now as 0 m of
             ((e, n), m') \<Rightarrow> ((map_option RrState e, n), m')))"


section \<open>What a refresh returns is what is stored\<close>

definition stored :: "catalog \<Rightarrow> string \<Rightarrow> token_set \<Rightarrow> bool" where
  "stored c i ts \<longleftrightarrow> (\<exists>a. map_of (cat_rows c) i = Some a \<and> row_tokens a = ts)"

lemma patch_keeps_tokens:
  assumes "map_of (cat_rows c) i = Some a"
  shows "\<exists>b. map_of (cat_rows (snd (patch_health c now j p))) i = Some b \<and> row_tokens b = row_tokens a"
  using assms
  by (cases "map_of (cat_rows c) j"; cases "i = j")
     (auto simp: patch_health_def cat_get_unlocked_def apply_patch_def row_tokens_def Let_def)

lemma success_keeps_tokens: "stored c i ts \<Longrightarrow> stored (on_refresh_success gone now j c) i ts"
  using patch_keeps_tokens [of c i] by (auto simp: on_refresh_success_def stored_def)

lemma update_tokens_stored: "update_tokens c now i n ts = (Inr (), c') \<Longrightarrow> stored c' i ts"
  by (erule update_tokens_Inr) (simp add: stored_def row_tokens_def)

lemma persist_outcome_stored:
  assumes "persist_outcome call i n ts r w = (Inr ts', w')" "r = Inr () \<Longrightarrow> stored (fw_cat w) i ts"
  shows "stored (fw_cat w') i ts' \<and> ts' = ts"
  using assms success_keeps_tokens by (auto simp: persist_outcome_def split: sum.splits)

lemma refresh_and_persist_stored:
  assumes "refresh_and_persist oauth call a w = (Inr ts, w')"
  shows "stored (fw_cat w') (acc_id a) ts \<and> ts_access_token ts \<noteq> []"
proof -
  obtain res o' where o: "oauth (acc_refresh_token a) (fw_idp w) = (res, o')" by fastforce
  define w1 where "w1 = between call 1 (w\<lparr>fw_idp := o'\<rparr>)"
  obtain tokens where t: "res = Inr tokens" "ts_access_token tokens \<noteq> []"
    using assms o by (auto simp: refresh_and_persist_def Let_def split: if_splits sum.splits)
  obtain r c where u: "update_tokens (fw_cat w1) (fc_now call 2) (acc_id a) (acc_revision a) tokens = (r, c)" by fastforce
  define w2 where "w2 = w1\<lparr>fw_cat := c\<rparr>"
  define w3 where "w3 = between call 2 w2"
  show ?thesis
  proof (cases "r = Inl CatCASConflict")
    case False
    then have "persist_outcome call (acc_id a) (acc_revision a) tokens r w2 = (Inr ts, w')"
      using assms o t u by (auto simp: refresh_and_persist_def Let_def w1_def w2_def split: if_splits)
    moreover have "stored c (acc_id a) tokens" if "r = Inr ()" using that u update_tokens_stored by blast
    ultimately show ?thesis using persist_outcome_stored t(2) by (fastforce simp: w2_def)
  next
    case True
    then obtain cur where cur: "cat_get (fw_cat w3) (acc_id a) = Inr cur" and
      rest: "(if fresh (rs_cfg (fw_svc w3)) (fc_now call 3) cur
        then (Inr (row_tokens cur), w3\<lparr>fw_svc := count_ok (fw_svc w3)\<rparr>)
        else let w4 = between call 3 w3;
                 (r', c') = update_tokens (fw_cat w4) (fc_now call 4) (acc_id a) (acc_revision cur) tokens in
          persist_outcome call (acc_id a) (acc_revision cur) tokens r' (w4\<lparr>fw_cat := c'\<rparr>)) = (Inr ts, w')"
      using assms o t u by (auto simp: refresh_and_persist_def Let_def w1_def w2_def w3_def split: if_splits sum.splits)
    show ?thesis
    proof (cases "fresh (rs_cfg (fw_svc w3)) (fc_now call 3) cur")
      case True
      then show ?thesis using rest cat_get_Inr [OF cur] by (auto simp: stored_def fresh_def row_tokens_def)
    next
      case False
      define w4 where "w4 = between call 3 w3"
      obtain r' c' where u': "update_tokens (fw_cat w4) (fc_now call 4) (acc_id a) (acc_revision cur) tokens = (r', c')"
        by fastforce
      have "persist_outcome call (acc_id a) (acc_revision cur) tokens r' (w4\<lparr>fw_cat := c'\<rparr>) = (Inr ts, w')"
        using rest False u' by (simp add: w4_def)
      moreover have "stored c' (acc_id a) tokens" if "r' = Inr ()" using that u' update_tokens_stored by blast
      ultimately show ?thesis using persist_outcome_stored t(2) by fastforce
    qed
  qed
qed

section \<open>The exact effect of an undisturbed refresh\<close>

definition refreshed_row :: "refresh_call \<Rightarrow> token_set \<Rightarrow> account \<Rightarrow> account" where
  "refreshed_row call ts a =
     (a\<lparr>acc_access_token := ts_access_token ts, acc_refresh_token := ts_refresh_token ts,
       acc_expires_at := ts_expires_at ts, acc_revision := acc_revision a + 1,
       acc_last_refresh_at := Some (fc_now call 2), acc_updated_at := fc_now call 2\<rparr>)
     \<lparr>acc_last_error := [], acc_consecutive_unauthorized := 0, acc_revision := 2 + acc_revision a,
      acc_updated_at := fc_now call 5\<rparr>"

definition punished_row :: "default_policy \<Rightarrow> int \<Rightarrow> string \<Rightarrow> account \<Rightarrow> account" where
  "punished_row p now err a =
     (let q = policy_threshold p \<le> acc_consecutive_unauthorized a + 1 in
      a\<lparr>acc_enabled := (acc_enabled a \<and> \<not> q),
        acc_lifecycle := (if q then LifecycleQuarantined else acc_lifecycle a),
        acc_failure_count := acc_failure_count a + 1,
        acc_cooldown_until := now + policy_cooldown p,
        acc_last_error := take 240 (''refresh failed: '' @ err),
        acc_consecutive_unauthorized := acc_consecutive_unauthorized a + 1,
        acc_revision := acc_revision a + 1, acc_updated_at := now\<rparr>)"

lemma on_refresh_failure_row:
  assumes "cat_open c" "map_of (cat_rows c) i = Some a" "i \<noteq> []"
  shows "on_refresh_failure p False now i err c = c\<lparr>cat_rows := gm_put i (punished_row p now err a) (cat_rows c)\<rparr>"
proof -
  have "cat_get c i = Inr a" using assms by (simp add: cat_get_def cat_get_unlocked_def)
  then show ?thesis using assms(1,2,3)
    by (auto simp: on_refresh_failure_def punished_row_def patch_health_def cat_get_unlocked_def apply_patch_def
        no_patch_def Let_def LifecycleQuarantined_def)
qed

lemma on_refresh_success_row:
  assumes "cat_open c" "map_of (cat_rows c) i = Some a" "i \<noteq> []"
  shows "on_refresh_success False now i c = c\<lparr>cat_rows := gm_put i
    (a\<lparr>acc_last_error := [], acc_consecutive_unauthorized := 0, acc_revision := acc_revision a + 1,
       acc_updated_at := now\<rparr>) (cat_rows c)\<rparr>"
  using assms
  by (simp add: on_refresh_success_def patch_health_def cat_get_unlocked_def apply_patch_def no_patch_def)

text \<open>A call that nothing disturbs: the context lives, the limiter admits it, nobody else writes.\<close>

definition undisturbed :: "refresh_call \<Rightarrow> bool" where
  "undisturbed call \<longleftrightarrow> fc_wait call \<and> (\<forall>k. \<not> fc_gone call k) \<and> (\<forall>k c. fc_mid call k c = c)"

lemma between_undisturbed [simp]: "undisturbed call \<Longrightarrow> between call k w = w"
  by (simp add: undisturbed_def between_def)

lemma undisturbedD [simp]: "undisturbed call \<Longrightarrow> fc_wait call" "undisturbed call \<Longrightarrow> \<not> fc_gone call k"
  by (simp_all add: undisturbed_def)

lemma refresh_undisturbed:
  assumes "undisturbed call" "cat_open (fw_cat w)" "map_of (cat_rows (fw_cat w)) (acc_id a) = Some a" "acc_id a \<noteq> []"
    "1 \<le> acc_revision a" "oauth (acc_refresh_token a) (fw_idp w) = (res, o')" "refresh_and_persist oauth call a w = (r, w')"
  shows "fw_idp w' = o' \<and> rs_policy (fw_svc w') = rs_policy (fw_svc w) \<and> rs_cfg (fw_svc w') = rs_cfg (fw_svc w) \<and>
    (case res of
      Inl err \<Rightarrow> r = Inl (RfOAuth err) \<and> fw_cat w' = (fw_cat w)\<lparr>cat_rows := gm_put (acc_id a)
        (punished_row (rs_policy (fw_svc w)) (fc_now call 5) err a) (cat_rows (fw_cat w))\<rparr>
    | Inr ts \<Rightarrow>
        if ts_access_token ts = [] \<or> ts_refresh_token ts = []
        then r = Inl RfEmptyTokens \<and> fw_cat w' = (fw_cat w)\<lparr>cat_rows := gm_put (acc_id a)
          (punished_row (rs_policy (fw_svc w)) (fc_now call 5) ''refresh: invalid input: empty tokens from oauth'' a)
          (cat_rows (fw_cat w))\<rparr>
        else r = Inr ts \<and> fw_cat w' = (fw_cat w)\<lparr>cat_rows := gm_put (acc_id a) (refreshed_row call ts a) (cat_rows (fw_cat w))\<rparr>)"
  using assms
  by (auto simp: refresh_and_persist_def Let_def punish_def on_refresh_failure_row count_fail_def count_ok_def
      persist_outcome_def update_tokens_def on_refresh_success_row refreshed_row_def update_last split: sum.splits if_splits)


lemma cat_get_row:
  assumes "wf_catalog c" "cat_open c" "map_of (cat_rows c) i = Some a"
  shows "cat_get c i = Inr a" "acc_id a = i" "i \<noteq> []" "1 \<le> acc_revision a"
  using assms wf_rowsD [OF wf_catalogD [OF assms(1)] assms(3)]
  by (auto simp: cat_get_def cat_get_unlocked_def wf_account_def)

lemma ensure_fresh_undisturbed:
  assumes "undisturbed call" "wf_catalog (fw_cat w)" "cat_open (fw_cat w)" "map_of (cat_rows (fw_cat w)) i = Some a"
  shows "ensure_fresh oauth call i w =
    (if fresh (rs_cfg (fw_svc w)) (fc_now call 0) a
     then (Inr (row_tokens a), w\<lparr>fw_svc := (fw_svc w)\<lparr>rs_ensure_hit := wrap64 (rs_ensure_hit (fw_svc w) + 1)\<rparr>\<rparr>)
     else if fresh (rs_cfg (fw_svc w)) (fc_now call 1) a then (Inr (row_tokens a), w)
     else refresh_and_persist oauth call a w)"
  using assms cat_get_row [OF assms(2-4)] by (simp add: ensure_fresh_def)

section \<open>Repeated failures\<close>

text \<open>The calls of a list, one after the other, for one account.\<close>

fun refresh_calls ::
  "(string \<Rightarrow> 'o \<Rightarrow> (string + token_set) \<times> 'o) \<Rightarrow> string \<Rightarrow> refresh_call list \<Rightarrow> 'o refresh_world \<Rightarrow> 'o refresh_world" where
  "refresh_calls oauth i [] w = w"
| "refresh_calls oauth i (call # cs) w = refresh_calls oauth i cs (snd (ensure_fresh oauth call i w))"

definition stale_call :: "refresh_config \<Rightarrow> int \<Rightarrow> refresh_call \<Rightarrow> bool" where
  "stale_call cfg expires call \<longleftrightarrow> undisturbed call \<and>
     expires < fc_now call 0 + rc_skew_sec cfg \<and> expires < fc_now call 1 + rc_skew_sec cfg"

lemma wf_punished:
  assumes "wf_catalog c" "map_of (cat_rows c) i = Some a"
  shows "wf_catalog (c\<lparr>cat_rows := gm_put i (punished_row p now err a) (cat_rows c)\<rparr>)"
proof -
  have "wf_rows (gm_put i (punished_row p now err a) (cat_rows c))"
    using assms wf_rowsD [OF wf_catalogD [OF assms(1)] assms(2)]
    by (intro wf_rows_put) (auto simp: wf_account_def punished_row_def Let_def LifecycleQuarantined_def wf_catalogD)
  then show ?thesis using assms(1) by (simp add: wf_catalog_def)
qed

lemma failing_calls:
  assumes "\<And>r o'. \<exists>err o''. oauth r o' = (Inl err, o'')"
  shows "wf_catalog (fw_cat w) \<Longrightarrow> cat_open (fw_cat w) \<Longrightarrow> map_of (cat_rows (fw_cat w)) i = Some a \<Longrightarrow>
    list_all (stale_call (rs_cfg (fw_svc w)) (acc_expires_at a)) cs \<Longrightarrow>
    \<exists>b. map_of (cat_rows (fw_cat (refresh_calls oauth i cs w))) i = Some b \<and> row_tokens b = row_tokens a \<and>
      acc_failure_count b = acc_failure_count a + int (length cs) \<and>
      acc_consecutive_unauthorized b = acc_consecutive_unauthorized a + int (length cs) \<and>
      (let q = cs \<noteq> [] \<and> policy_threshold (rs_policy (fw_svc w)) \<le> acc_consecutive_unauthorized a + int (length cs) in
        acc_enabled b = (acc_enabled a \<and> \<not> q) \<and>
        acc_lifecycle b = (if q then LifecycleQuarantined else acc_lifecycle a)) \<and>
      (cs \<noteq> [] \<longrightarrow> acc_cooldown_until b = fc_now (last cs) 5 + policy_cooldown (rs_policy (fw_svc w)))"
proof (induction cs arbitrary: w a)
  case Nil
  then show ?case by simp
next
  case (Cons call cs)
  obtain err o' where o: "oauth (acc_refresh_token a) (fw_idp w) = (Inl err, o')" using assms by blast
  have call: "undisturbed call" "\<not> fresh (rs_cfg (fw_svc w)) (fc_now call 0) a" "\<not> fresh (rs_cfg (fw_svc w)) (fc_now call 1) a"
    using Cons.prems(4) by (auto simp: stale_call_def fresh_def)
  note row = cat_get_row [OF Cons.prems(1-3)]
  obtain r w1 where r: "refresh_and_persist oauth call a w = (r, w1)" by fastforce
  have e: "ensure_fresh oauth call i w = (r, w1)"
    using ensure_fresh_undisturbed [OF call(1) Cons.prems(1-3), of oauth] call r by simp
  let ?p = "rs_policy (fw_svc w)"
  let ?b = "punished_row ?p (fc_now call 5) err a"
  have ww: "map_of (cat_rows (fw_cat w)) (acc_id a) = Some a" "acc_id a \<noteq> []" using Cons.prems(3) row(2,3) by simp_all
  have w1: "fw_cat w1 = (fw_cat w)\<lparr>cat_rows := gm_put i ?b (cat_rows (fw_cat w))\<rparr>"
    "rs_policy (fw_svc w1) = ?p" "rs_cfg (fw_svc w1) = rs_cfg (fw_svc w)"
    using refresh_undisturbed [where oauth = oauth, OF call(1) Cons.prems(2) ww row(4) o r] row(2) by auto
  have "wf_catalog (fw_cat w1)" "cat_open (fw_cat w1)" "map_of (cat_rows (fw_cat w1)) i = Some ?b"
    using wf_punished [OF Cons.prems(1,3)] w1(1) Cons.prems(2) by simp_all
  moreover have b: "acc_expires_at ?b = acc_expires_at a" "row_tokens ?b = row_tokens a"
    "acc_failure_count ?b = acc_failure_count a + 1"
    "acc_consecutive_unauthorized ?b = acc_consecutive_unauthorized a + 1"
    "acc_cooldown_until ?b = fc_now call 5 + policy_cooldown ?p"
    "acc_enabled ?b = (acc_enabled a \<and> \<not> policy_threshold ?p \<le> acc_consecutive_unauthorized a + 1)"
    "acc_lifecycle ?b = (if policy_threshold ?p \<le> acc_consecutive_unauthorized a + 1 then LifecycleQuarantined else acc_lifecycle a)"
    by (simp_all add: punished_row_def row_tokens_def Let_def)
  moreover have "list_all (stale_call (rs_cfg (fw_svc w1)) (acc_expires_at ?b)) cs"
    using Cons.prems(4) w1(3) b(1) by simp
  ultimately obtain c where c: "map_of (cat_rows (fw_cat (refresh_calls oauth i cs w1))) i = Some c"
    "row_tokens c = row_tokens ?b"
    "acc_failure_count c = acc_failure_count ?b + int (length cs)"
    "acc_consecutive_unauthorized c = acc_consecutive_unauthorized ?b + int (length cs)"
    "acc_enabled c = (acc_enabled ?b \<and> \<not> (cs \<noteq> [] \<and> policy_threshold ?p \<le> acc_consecutive_unauthorized ?b + int (length cs)))"
    "acc_lifecycle c = (if cs \<noteq> [] \<and> policy_threshold ?p \<le> acc_consecutive_unauthorized ?b + int (length cs)
      then LifecycleQuarantined else acc_lifecycle ?b)"
    "cs \<noteq> [] \<longrightarrow> acc_cooldown_until c = fc_now (last cs) 5 + policy_cooldown ?p"
    "cs = [] \<longrightarrow> c = ?b"
    using Cons.IH [of w1 ?b] unfolding Let_def w1(2) by (cases cs) auto
  have "refresh_calls oauth i (call # cs) w = refresh_calls oauth i cs w1" by (simp add: e)
  then show ?case using c b unfolding Let_def
    by (cases "cs = []") (auto split: if_splits)
qed


section \<open>Properties\<close>

definition sample_call :: "int \<Rightarrow> refresh_call" where
  "sample_call t = \<lparr>fc_now = (\<lambda>k. t), fc_gone = (\<lambda>k. False), fc_wait = True, fc_mid = (\<lambda>k c. c)\<rparr>"

definition good_provider :: "string \<Rightarrow> nat \<Rightarrow> (string + token_set) \<times> nat" where
  "good_provider r n = (Inr sample_tokens, Suc n)"

definition bad_provider :: "string \<Rightarrow> nat \<Rightarrow> (string + token_set) \<times> nat" where
  "bad_provider r n = (Inl ''down'', Suc n)"

definition sample_refresh_world :: "nat refresh_world" where
  "sample_refresh_world = \<lparr>fw_cat = sample_catalog, fw_svc = refresh_new refresh_default_config, fw_idp = 0\<rparr>"

lemma sample_catalog_wf: "wf_catalog sample_catalog"
  using wf_cat_steps [OF sample_catalog_steps wf_empty] .

lemma sample_row_b: "map_of (cat_rows sample_catalog) ''b'' = Some (sample_account ''b'' 2)"
  by code_simp

lemma sample_call_undisturbed: "undisturbed (sample_call t)"
  by (simp add: undisturbed_def sample_call_def)


definition rival_call :: refresh_call where
  "rival_call = (sample_call 10)\<lparr>fc_mid := (\<lambda>k c. if k = 1
     then snd (update_tokens c 10 ''b'' 1 \<lparr>ts_access_token = ''peer'', ts_refresh_token = ''rt2'', ts_expires_at = 9999\<rparr>)
     else c)\<rparr>"


text \<open>
  C28. The exact effect of an undisturbed \<open>EnsureFresh\<close>: a row that is fresh is returned without a
  call to the provider and without a write. Otherwise the provider is called once with the row's
  refresh token; its tokens replace the row's and reset its failures, and a failure (or an empty
  token) leaves the tokens alone, counts one failure, cools the account down and quarantines it
  from the threshold on. No other row changes.
\<close>

theorem ensure_fresh_exact:
  assumes "undisturbed call" "wf_catalog (fw_cat w)" "cat_open (fw_cat w)" "gm_get (cat_rows (fw_cat w)) i = Some a"
    and "fc_now call 0 \<le> fc_now call 1" "oauth (acc_refresh_token a) (fw_idp w) = (res, o')"
    and "ensure_fresh oauth call i w = (r, w')"
  shows "if fresh (rs_cfg (fw_svc w)) (fc_now call 0) a
    then r = Inr (row_tokens a) \<and> fw_cat w' = fw_cat w \<and> fw_idp w' = fw_idp w
    else fw_idp w' = o' \<and> (case res of
      Inl err \<Rightarrow> r = Inl (RfOAuth err) \<and> fw_cat w' = (fw_cat w)\<lparr>cat_rows := gm_put i
        (punished_row (rs_policy (fw_svc w)) (fc_now call 5) err a) (cat_rows (fw_cat w))\<rparr>
    | Inr ts \<Rightarrow>
        if ts_access_token ts = [] \<or> ts_refresh_token ts = []
        then r = Inl RfEmptyTokens \<and> fw_cat w' = (fw_cat w)\<lparr>cat_rows := gm_put i
          (punished_row (rs_policy (fw_svc w)) (fc_now call 5) ''refresh: invalid input: empty tokens from oauth'' a)
          (cat_rows (fw_cat w))\<rparr>
        else r = Inr ts \<and> fw_cat w' = (fw_cat w)\<lparr>cat_rows := gm_put i (refreshed_row call ts a) (cat_rows (fw_cat w))\<rparr>)"
proof (cases "fresh (rs_cfg (fw_svc w)) (fc_now call 0) a")
  case True
  then show ?thesis using assms(7) ensure_fresh_undisturbed [OF assms(1-4), of oauth] by auto
next
  case False
  then have "\<not> fresh (rs_cfg (fw_svc w)) (fc_now call 1) a" using assms(5) by (auto simp: fresh_def)
  with False have r: "refresh_and_persist oauth call a w = (r, w')"
    using assms(7) ensure_fresh_undisturbed [OF assms(1-4), of oauth] by simp
  note row = cat_get_row [OF assms(2-4)]
  from assms(4) row have "gm_get (cat_rows (fw_cat w)) (acc_id a) = Some a" "acc_id a \<noteq> []" by simp_all
  from refresh_undisturbed [where oauth = oauth, OF assms(1,3) this row(4) assms(6) r] show ?thesis
    using False row(2) by (cases res) auto
qed

theorem ensure_fresh_exact_witness:
  "fw_cat (snd (ensure_fresh good_provider (sample_call 10) ''b'' sample_refresh_world)) =
     sample_catalog\<lparr>cat_rows := gm_put ''b'' (refreshed_row (sample_call 10) sample_tokens (sample_account ''b'' 2))
       (cat_rows sample_catalog)\<rparr>"
proof -
  obtain r w' where r: "ensure_fresh good_provider (sample_call 10) ''b'' sample_refresh_world = (r, w')" by fastforce
  let ?w = "sample_refresh_world"
  have op: "cat_open (fw_cat ?w)" by code_simp
  have cat: "wf_catalog (fw_cat ?w)" "map_of (cat_rows (fw_cat ?w)) ''b'' = Some (sample_account ''b'' 2)"
    using sample_catalog_wf sample_row_b by (simp_all add: sample_refresh_world_def)
  have o: "good_provider (acc_refresh_token (sample_account ''b'' 2)) (fw_idp ?w) = (Inr sample_tokens, 1)" by code_simp
  have nf: "\<not> fresh (rs_cfg (fw_svc ?w)) (fc_now (sample_call 10) 0) (sample_account ''b'' 2)" by code_simp
  have le: "fc_now (sample_call 10) 0 \<le> fc_now (sample_call 10) 1" by (simp add: sample_call_def)
  show ?thesis
    using ensure_fresh_exact [OF sample_call_undisturbed cat(1) op cat(2) le o r] nf r
    by (simp add: sample_tokens_def sample_refresh_world_def)
qed

text \<open>
  An account whose refresh keeps failing is taken out of service, and only then: after n calls
  in a row that the provider fails, the row still has its tokens, has n more failures, is cooling
  down from the last of them, and is quarantined and disabled exactly when the failures in a row
  have reached the policy's threshold.
\<close>

theorem refresh_failures_quarantine:
  assumes "\<And>r o'. \<exists>err o''. oauth r o' = (Inl err, o'')" "cs \<noteq> []"
    and "wf_catalog (fw_cat w)" "cat_open (fw_cat w)" "gm_get (cat_rows (fw_cat w)) i = Some a"
    and "list_all (stale_call (rs_cfg (fw_svc w)) (acc_expires_at a)) cs"
  shows "\<exists>b. gm_get (cat_rows (fw_cat (refresh_calls oauth i cs w))) i = Some b \<and> row_tokens b = row_tokens a \<and>
    acc_failure_count b = acc_failure_count a + int (length cs) \<and>
    acc_cooldown_until b = fc_now (last cs) 5 + policy_cooldown (rs_policy (fw_svc w)) \<and>
    (if policy_threshold (rs_policy (fw_svc w)) \<le> acc_consecutive_unauthorized a + int (length cs)
     then acc_lifecycle b = LifecycleQuarantined \<and> \<not> acc_enabled b
     else acc_lifecycle b = acc_lifecycle a \<and> acc_enabled b = acc_enabled a)"
  using failing_calls [where oauth = oauth, OF assms(1,3-6)] assms(2) unfolding Let_def
  by (elim exE conjE) (intro exI conjI, assumption+, simp_all)

theorem refresh_failures_quarantine_witness:
  "\<exists>b. gm_get (cat_rows (fw_cat (refresh_calls bad_provider ''b'' (map sample_call [10, 20, 30, 40, 50]) sample_refresh_world))) ''b'' = Some b \<and>
     acc_lifecycle b = LifecycleQuarantined \<and> acc_cooldown_until b = 110"
proof -
  have "cat_open sample_catalog" by code_simp
  moreover have "list_all (stale_call (rs_cfg (refresh_new refresh_default_config)) 0) (map sample_call [10, 20, 30, 40, 50])"
    by (simp add: stale_call_def sample_call_undisturbed) (simp add: sample_call_def refresh_new_def refresh_normalize_def refresh_default_config_def Let_def)
  ultimately show ?thesis
    using refresh_failures_quarantine [of bad_provider "map sample_call [10, 20, 30, 40, 50]" sample_refresh_world "''b''" "sample_account ''b'' 2"]
      sample_catalog_wf sample_row_b
    by (auto simp: bad_provider_def sample_refresh_world_def sample_account_def sample_call_def refresh_new_def
        new_default_policy_def refresh_normalize_def refresh_default_config_def policy_threshold_def policy_cooldown_def Let_def)
qed

text \<open>
  What the refresh fleet does with an account it has claimed: when the provider fails, the
  account cools down for two minutes and is queued again for five minutes later; when it answers,
  the tokens are stored exactly if the row has not changed since it was read (and they are not
  empty), and the shared state is left alone. In particular a claim whose write is refused is not
  queued again.
\<close>

theorem refresh_one_outcome:
  assumes "refresh_one oauth now mid i w = (r, w')" "store_get (ft_cat w) i = Inr a" "\<not> mem_closed (ft_state w)"
    and "oauth a (ft_idp w) = (res, o')" "wf_catalog (ft_cat w)" "cat_open (mid (ft_cat w))"
  shows "ft_idp w' = o' \<and> (case res of
      Inl err \<Rightarrow> r = Inl (RrProvider err) \<and> ft_cat w' = mid (ft_cat w) \<and>
        gm_get (mem_refresh (ft_state w')) i = Some (unix_sec (now + 300 * 1000000000)) \<and>
        gm_get (mem_cooldown (ft_state w')) i = Some (unix_sec (now + 120 * 1000000000))
    | Inr ts \<Rightarrow> ft_state w' = ft_state w \<and>
        (if cat_rev (mid (ft_cat w)) i = Some (acc_revision a) \<and> ts_access_token ts \<noteq> [] \<and> ts_refresh_token ts \<noteq> []
         then r = Inr () \<and> stored (ft_cat w') i ts \<and> cat_rev (ft_cat w') i = Some (acc_revision a + 1)
         else (\<exists>e. r = Inl (RrStore e)) \<and> ft_cat w' = mid (ft_cat w)))"
proof -
  have g: "cat_get (ft_cat w) i = Inr a" using assms(2) by (auto simp: store_get_def map_sum_def split: sum.splits)
  then have "i \<noteq> []" "1 \<le> acc_revision a"
    using cat_get_Inr [OF g] wf_rowsD [OF wf_catalogD [OF assms(5)]] by (auto simp: wf_account_def)
  then show ?thesis
    using assms(1-4,6)
    by (auto simp: refresh_one_def add_refresh_due_def cs_set_cooldown_def store_update_tokens_def update_tokens_def
        cat_rev_def stored_def row_tokens_def Let_def split: sum.splits option.splits if_splits prod.splits)
qed

definition sample_fleet :: "nat fleet_world" where
  "sample_fleet = \<lparr>ft_cat = sample_catalog, ft_state = new_memory, ft_idp = 0\<rparr>"

theorem refresh_one_outcome_witness:
  "gm_get (mem_refresh (ft_state (snd (refresh_one (\<lambda>a. bad_provider (acc_refresh_token a)) 1000000000 (\<lambda>c. c) ''b'' sample_fleet)))) ''b'' = Some 301"
proof -
  obtain r w' where r: "refresh_one (\<lambda>a. bad_provider (acc_refresh_token a)) 1000000000 (\<lambda>c. c) ''b'' sample_fleet = (r, w')"
    by fastforce
  have g: "store_get (ft_cat sample_fleet) ''b'' = Inr (sample_account ''b'' 2)" by code_simp
  have o: "bad_provider (acc_refresh_token (sample_account ''b'' 2)) (ft_idp sample_fleet) = (Inl ''down'', 1)" by code_simp
  have "cat_open sample_catalog" by code_simp
  then show ?thesis
    using refresh_one_outcome [OF r g _ o] r sample_catalog_wf by (simp add: sample_fleet_def new_memory_def unix_sec_def)
qed

end
