(* ===== verification/Executor.thy ===== *)
theory Executor
  imports Refresh Worker LeaseProps
begin

text \<open>
  The request executor (\<open>internal/protocol/executor\<close>): it takes a lease, posts the request
  upstream and releases the lease with what came of it, failing over to other accounts while
  nothing has reached the caller.

  The leaser, the refresher and the upstream client are interfaces of the Go code; here they are
  the functions of an environment over one shared state \<open>'s\<close>, which holds whatever they change.
  A lease is taken from the manager or from the worker's leaser, both interpreted below. The
  attempt number indexes the readings of context and clock.
\<close>

section \<open>Responses\<close>

record response =
  rp_status :: int
  rp_retry_after :: string
  rp_body :: string
  rp_on_close :: "lease option"

datatype 'e exec_error =
  XeCtx | XeNoCredential | XeLease 'e | XeResolve string | XeRefresh refresh_error | XeUpstream string
  | XeStatus int bool

record post_request =
  pq_model :: string
  pq_conv_id :: string
  pq_body :: string
  pq_stream :: bool
  pq_idempotency_key :: string

definition is_retryable_status :: "int \<Rightarrow> bool" where
  "is_retryable_status code \<longleftrightarrow> code \<in> {402, 429, 403, 401, 500, 502, 503, 504} \<or> code \<ge> 500"

text \<open>\<open>parse_time\<close> is \<open>http.ParseTime\<close>, in nanoseconds; durations wrap at 64 bits.\<close>

definition parse_retry_after :: "(string \<Rightarrow> int option) \<Rightarrow> string \<Rightarrow> int \<Rightarrow> int" where
  "parse_retry_after parse_time v0 now =
     (let v = trim_space v0 in
      if v = [] then 0
      else case atoi v of
        Some sec \<Rightarrow> if sec < 0 then 0 else wrap64 (sec * 1000000000)
      | None \<Rightarrow>
          (case parse_time v of
             Some t \<Rightarrow> if t - now < 0 then 0 else t - now
           | None \<Rightarrow> 0))"

definition buffer_error_response :: "response \<Rightarrow> response" where
  "buffer_error_response r = r\<lparr>rp_body := take (2 ^ 20) (rp_body r)\<rparr>"

section \<open>The environment and the state of a request\<close>

text \<open>\<open>EnsureFresh\<close> and \<open>ForceRefresh\<close> of the refresher give a token and a revision.\<close>

type_synonym 's refresh_fun = "string \<Rightarrow> 's \<Rightarrow> (refresh_error + string \<times> int) \<times> 's"

record ('s, 'e) exec_env =
  xe_gone :: "nat \<Rightarrow> bool"
  xe_now :: "nat \<Rightarrow> int"
  xe_attempt :: "nat \<Rightarrow> string \<Rightarrow> string \<Rightarrow> string list \<Rightarrow> 's \<Rightarrow> ('e option + lease) \<times> string list \<times> 's"
  xe_release :: "nat \<Rightarrow> lease \<Rightarrow> lease_result \<Rightarrow> 's \<Rightarrow> 's"
  xe_resolve :: "lease \<Rightarrow> string option"
  xe_refresher :: "('s refresh_fun \<times> 's refresh_fun) option"
  xe_post :: "lease \<Rightarrow> post_request \<Rightarrow> 's \<Rightarrow> (string + response) \<times> 's"
  xe_dial_error :: "string \<Rightarrow> string \<Rightarrow> string \<Rightarrow> 's \<Rightarrow> 's"
  xe_rate_break :: "'s \<Rightarrow> 's"
  xe_parse_time :: "string \<Rightarrow> int option"

record ('s, 'e) exec_state =
  xs_pool :: 's
  xs_acquire_count :: int
  xs_tried :: "string list"
  xs_last_err :: "'e exec_error option"
  xs_last_resp :: "response option"
  xs_failovers :: int

datatype 'e verdict = Finish "'e exec_error + response" | Continue

definition max_rate_limit_failovers :: int where "max_rate_limit_failovers = 1"

definition post_max_attempts :: "int \<Rightarrow> nat" where
  "post_max_attempts n = (if n \<le> 0 then 2 else nat n)"

definition outcome :: "int \<Rightarrow> int \<Rightarrow> bool \<Rightarrow> lease_result" where
  "outcome status retry_after ok = \<lparr>lr_status_code = status, lr_retry_after = retry_after, lr_success = ok\<rparr>"

definition exec_release ::
  "('s, 'e) exec_env \<Rightarrow> nat \<Rightarrow> lease \<Rightarrow> lease_result \<Rightarrow> ('s, 'e) exec_state \<Rightarrow> ('s, 'e) exec_state" where
  "exec_release env k l res st = st\<lparr>xs_pool := xe_release env k l res (xs_pool st)\<rparr>"

definition with_error :: "'e exec_error \<Rightarrow> ('s, 'e) exec_state \<Rightarrow> ('s, 'e) exec_state" where
  "with_error e st = st\<lparr>xs_last_err := Some e\<rparr>"

text \<open>What a request that runs out of accounts or attempts returns: the last response, the last error.\<close>

definition exhausted :: "('s, 'e) exec_state \<Rightarrow> 'e exec_error + response" where
  "exhausted st =
     (case xs_last_resp st of
        Some r \<Rightarrow> Inr r
      | None \<Rightarrow> (case xs_last_err st of Some e \<Rightarrow> Inl e | None \<Rightarrow> Inl XeNoCredential))"

text \<open>The lease after a refresh that gave a token and a revision.\<close>

definition with_token :: "string \<Rightarrow> int \<Rightarrow> lease \<Rightarrow> lease" where
  "with_token tok n l =
     (if tok \<noteq> [] then let l1 = l\<lparr>ls_access_token := tok\<rparr> in if n > 0 then l1\<lparr>ls_revision := n\<rparr> else l1 else l)"

section \<open>One attempt\<close>

text \<open>The second and later 429 of a request breaks the failover off.\<close>

definition fail_over ::
  "('s, 'e) exec_env \<Rightarrow> nat \<Rightarrow> lease \<Rightarrow> int \<Rightarrow> response \<Rightarrow> bool \<Rightarrow> ('s, 'e) exec_state \<Rightarrow> 'e verdict \<times> ('s, 'e) exec_state" where
  "fail_over env k l ra buffered refreshed st =
     (let status = rp_status buffered;
          st1 = (exec_release env k l (outcome status ra False) st)
                  \<lparr>xs_last_resp := Some buffered, xs_last_err := Some (XeStatus status refreshed)\<rparr> in
      if status = 429 then
        let st2 = st1\<lparr>xs_failovers := xs_failovers st1 + 1\<rparr> in
        if xs_failovers st2 > max_rate_limit_failovers
        then (Finish (Inr buffered), st2\<lparr>xs_pool := xe_rate_break env (xs_pool st2)\<rparr>)
        else (Continue, st2)
      else (Continue, st1))"

text \<open>A response that ends the request: 426 is passed on, a success keeps the lease until it is closed.\<close>

definition is_success :: "int \<Rightarrow> bool" where "is_success status \<longleftrightarrow> 200 \<le> status \<and> status < 300"

definition deliver :: "lease \<Rightarrow> response \<Rightarrow> response" where
  "deliver l r = r\<lparr>rp_on_close := Some l\<rparr>"

definition retry_after_refresh ::
  "('s, 'e) exec_env \<Rightarrow> nat \<Rightarrow> post_request \<Rightarrow> lease \<Rightarrow> response
   \<Rightarrow> 's refresh_fun \<Rightarrow> ('s, 'e) exec_state \<Rightarrow> 'e verdict \<times> ('s, 'e) exec_state" where
  "retry_after_refresh env k rq l resp force st =
     (let unauthorized = buffer_error_response resp;
          refused = (\<lambda>l e st. (Continue,
            exec_release env k l (outcome 401 0 False) ((with_error e st)\<lparr>xs_last_resp := Some unauthorized\<rparr>))) in
      case force (ls_account_id l) (xs_pool st) of
        (Inl e, p) \<Rightarrow> refused l (XeRefresh e) (st\<lparr>xs_pool := p\<rparr>)
      | (Inr (tok, n), p) \<Rightarrow>
          let l = with_token tok n l in
          (case xe_post env l rq p of
             (Inl e, p') \<Rightarrow> refused l (XeUpstream e) (st\<lparr>xs_pool := p'\<rparr>)
           | (Inr retry, p') \<Rightarrow>
               let st = st\<lparr>xs_pool := p'\<rparr> in
               if rp_status retry = 426 then (Finish (Inr retry), exec_release env k l (outcome 426 0 False) st)
               else if is_success (rp_status retry) then (Finish (Inr (deliver l retry)), st)
               else fail_over env k l (parse_retry_after (xe_parse_time env) (rp_retry_after retry) (xe_now env k))
                 (buffer_error_response retry) True st))"

definition handle_response ::
  "('s, 'e) exec_env \<Rightarrow> nat \<Rightarrow> post_request \<Rightarrow> lease \<Rightarrow> response \<Rightarrow> ('s, 'e) exec_state
   \<Rightarrow> 'e verdict \<times> ('s, 'e) exec_state" where
  "handle_response env k rq l resp st =
     (let status = rp_status resp in
      if status = 426 then (Finish (Inr resp), exec_release env k l (outcome 426 0 False) st)
      else if is_success status then (Finish (Inr (deliver l resp)), st)
      else case (if status = 401 then xe_refresher env else None) of
        Some (ensure, force) \<Rightarrow> retry_after_refresh env k rq l resp force st
      | None \<Rightarrow>
          let ra = parse_retry_after (xe_parse_time env) (rp_retry_after resp) (xe_now env k);
              buffered = buffer_error_response resp in
          if is_retryable_status status then fail_over env k l ra buffered False st
          else (Finish (Inr buffered), exec_release env k l (outcome status ra False) st))"

definition post_lease ::
  "('s, 'e) exec_env \<Rightarrow> nat \<Rightarrow> post_request \<Rightarrow> lease \<Rightarrow> ('s, 'e) exec_state \<Rightarrow> 'e verdict \<times> ('s, 'e) exec_state" where
  "post_lease env k rq l st =
     (case xe_post env l rq (xs_pool st) of
        (Inl e, p) \<Rightarrow>
          (Continue, exec_release env k l (outcome 0 0 False)
             ((with_error (XeUpstream e) st)\<lparr>xs_pool := xe_dial_error env (ls_account_id l) (ls_proxy_url l) e p\<rparr>))
      | (Inr resp, p) \<Rightarrow> handle_response env k rq l resp (st\<lparr>xs_pool := p\<rparr>))"

definition use_lease ::
  "('s, 'e) exec_env \<Rightarrow> nat \<Rightarrow> post_request \<Rightarrow> lease \<Rightarrow> ('s, 'e) exec_state \<Rightarrow> 'e verdict \<times> ('s, 'e) exec_state" where
  "use_lease env k rq l st =
     (case xe_resolve env l of
        Some e \<Rightarrow> (Continue, exec_release env k l (outcome 0 0 False) (with_error (XeResolve e) st))
      | None \<Rightarrow>
          (case xe_refresher env of
             None \<Rightarrow> post_lease env k rq l st
           | Some (ensure, force) \<Rightarrow>
               (case ensure (ls_account_id l) (xs_pool st) of
                  (Inl e, p) \<Rightarrow>
                    (Continue, exec_release env k l (outcome 0 0 False) ((with_error (XeRefresh e) st)\<lparr>xs_pool := p\<rparr>))
                | (Inr (tok, n), p) \<Rightarrow> post_lease env k rq (with_token tok n l) (st\<lparr>xs_pool := p\<rparr>))))"

definition exec_attempt ::
  "('s, 'e) exec_env \<Rightarrow> nat \<Rightarrow> post_request \<Rightarrow> ('s, 'e) exec_state \<Rightarrow> 'e verdict \<times> ('s, 'e) exec_state" where
  "exec_attempt env k rq st =
     (if xe_gone env k then (Finish (Inl XeCtx), st)
      else case xe_attempt env k (pq_conv_id rq) (pq_model rq) (xs_tried st) (xs_pool st) of
        (Inl None, tried, p) \<Rightarrow> (Finish (exhausted st), st\<lparr>xs_tried := tried, xs_pool := p\<rparr>)
      | (Inl (Some e), tried, p) \<Rightarrow> (Continue, with_error (XeLease e) (st\<lparr>xs_tried := tried, xs_pool := p\<rparr>))
      | (Inr l, tried, p) \<Rightarrow>
          use_lease env k rq l
            (st\<lparr>xs_tried := tried, xs_pool := p, xs_acquire_count := xs_acquire_count st + 1\<rparr>))"

section \<open>The request\<close>

function post_loop ::
  "('s, 'e) exec_env \<Rightarrow> post_request \<Rightarrow> nat \<Rightarrow> nat \<Rightarrow> ('s, 'e) exec_state
   \<Rightarrow> ('e exec_error + response) \<times> ('s, 'e) exec_state" where
  "post_loop env rq mx k st =
     (if k \<le> mx then
        case exec_attempt env k rq st of
          (Finish r, st') \<Rightarrow> (r, st')
        | (Continue, st') \<Rightarrow> post_loop env rq mx (Suc k) st'
      else (exhausted st, st))"
  by pat_completeness auto
termination by (relation "measure (\<lambda>(env, rq, mx, k, st). Suc mx - k)") auto

declare post_loop.simps [simp del]

text \<open>\<open>Post\<close> on a pool; the second component counts the leases the executor has taken so far.\<close>

definition exec_post ::
  "('s, 'e) exec_env \<Rightarrow> int \<Rightarrow> post_request \<Rightarrow> 's \<times> int \<Rightarrow> ('e exec_error + response) \<times> 's \<times> int" where
  "exec_post env max_attempts rq w =
     (let (r, st) = post_loop env rq (post_max_attempts max_attempts) 1
            \<lparr>xs_pool = fst w, xs_acquire_count = snd w, xs_tried = [], xs_last_err = None,
             xs_last_resp = None, xs_failovers = 0\<rparr>
      in (r, xs_pool st, xs_acquire_count st))"

text \<open>Closing the body of a delivered response; the release runs once.\<close>

definition close_body :: "('s, 'e) exec_env \<Rightarrow> nat \<Rightarrow> response \<Rightarrow> 's \<Rightarrow> response \<times> 's" where
  "close_body env k r p =
     (case rp_on_close r of
        None \<Rightarrow> (r, p)
      | Some l \<Rightarrow> (r\<lparr>rp_on_close := None\<rparr>, xe_release env k l (outcome (rp_status r) 0 True) p))"


section \<open>What a request needs of its interfaces\<close>

definition exec_enter ::
  "('s, 'e) exec_env \<Rightarrow> nat \<times> string \<times> string \<times> string list \<Rightarrow> 's \<Rightarrow> lease option \<times> 's" where
  "exec_enter env = (\<lambda>(k, sticky, model, tried) s.
     case xe_attempt env k sticky model tried s of (Inl e, t, s') \<Rightarrow> (None, s') | (Inr l, t, s') \<Rightarrow> (Some l, s'))"

definition exec_leave :: "('s, 'e) exec_env \<Rightarrow> nat \<times> lease_result \<Rightarrow> lease \<Rightarrow> 's \<Rightarrow> 's" where
  "exec_leave env = (\<lambda>(k, res) l s. xe_release env k l res s)"

text \<open>
  The leaser is a gate over its accounts; refresher, upstream and callbacks leave the counts
  alone, and a response from upstream has no release attached.
\<close>

locale post_client = inflight_gate ready count ls_account_id lease_valid "exec_enter env" "exec_leave env" limit
  for ready :: "'s \<Rightarrow> bool" and count :: "'s \<Rightarrow> string \<Rightarrow> int" and env :: "('s, 'e) exec_env" and limit :: int +
  assumes refresher_keeps: "xe_refresher env = Some (ensure, force) \<Longrightarrow> ready s \<Longrightarrow>
      (ensure i s = (r, s') \<or> force i s = (r, s')) \<Longrightarrow> ready s' \<and> count s' = count s"
    and post_keeps: "ready s \<Longrightarrow> xe_post env l rq s = (q, s') \<Longrightarrow> ready s' \<and> count s' = count s"
    and post_plain: "xe_post env l rq s = (Inr resp, s') \<Longrightarrow> rp_on_close resp = None"
    and callbacks_keep: "ready s \<Longrightarrow> ready (xe_dial_error env i url e s) \<and> count (xe_dial_error env i url e s) = count s"
      "ready s \<Longrightarrow> ready (xe_rate_break env s) \<and> count (xe_rate_break env s) = count s"
begin

text \<open>The counts while a lease is held, and when an attempt is over.\<close>

definition holding :: "lease \<Rightarrow> (string \<Rightarrow> int) \<Rightarrow> 's \<Rightarrow> bool" where
  "holding l c s \<longleftrightarrow> ready s \<and> lease_valid l \<and> count s = c(ls_account_id l := c (ls_account_id l) + 1) \<and>
     0 \<le> c (ls_account_id l) \<and> c (ls_account_id l) + 1 < limit"

definition settled :: "(string \<Rightarrow> int) \<Rightarrow> 'e exec_error + response \<Rightarrow> 's \<Rightarrow> bool" where
  "settled c r s \<longleftrightarrow> ready s \<and>
     (case r of
        Inl e \<Rightarrow> count s = c
      | Inr resp \<Rightarrow>
          (case rp_on_close resp of
             None \<Rightarrow> count s = c \<and> \<not> is_success (rp_status resp)
           | Some l \<Rightarrow> holding l c s \<and> is_success (rp_status resp)))"

definition attempt_ok :: "(string \<Rightarrow> int) \<Rightarrow> 'e verdict \<times> ('s, 'e) exec_state \<Rightarrow> bool" where
  "attempt_ok c vs \<longleftrightarrow>
     (case fst vs of Finish r \<Rightarrow> settled c r (xs_pool (snd vs)) | Continue \<Rightarrow> ready (xs_pool (snd vs)) \<and> count (xs_pool (snd vs)) = c) \<and>
     (\<forall>r. xs_last_resp (snd vs) = Some r \<longrightarrow> rp_on_close r = None \<and> \<not> is_success (rp_status r))"

lemma release_back:
  assumes "holding l c s"
  shows "ready (xe_release env k l res s) \<and> count (xe_release env k l res s) = c"
  using leave_ok [of s l "(k, res)"] assms by (auto simp: holding_def exec_leave_def)

lemma holding_cong:
  "ready s' \<and> count s' = count s \<Longrightarrow> holding l c s \<Longrightarrow> holding l c s'"
  by (simp add: holding_def)

lemma holding_token: "holding (with_token tok n l) c s = holding l c s"
  by (simp add: holding_def with_token_def lease_valid_def Let_def)

lemma fail_over_ok:
  assumes "holding l c (xs_pool st)" "rp_on_close r = None" "\<not> is_success (rp_status r)"
  shows "attempt_ok c (fail_over env k l ra r refreshed st)"
  using release_back [OF assms(1), of k "outcome (rp_status r) ra False"] assms(2,3) callbacks_keep(2)
  by (auto simp: fail_over_def attempt_ok_def settled_def exec_release_def Let_def)

lemma retry_after_refresh_ok:
  assumes "xe_refresher env = Some (ensure, force)" "holding l c (xs_pool st)"
    "\<And>r. xs_last_resp st = Some r \<Longrightarrow> rp_on_close r = None \<and> \<not> is_success (rp_status r)" "rp_on_close resp = None" "\<not> is_success (rp_status resp)"
  shows "attempt_ok c (retry_after_refresh env k rq l resp force st)"
proof -
  obtain r p where f: "force (ls_account_id l) (xs_pool st) = (r, p)" by fastforce
  have p: "holding l c p"
    using refresher_keeps [OF assms(1) _ disjI2 [OF f]] assms(2) by (auto simp: holding_def)
  show ?thesis
  proof (cases r)
    case (Inl e)
    then show ?thesis using f p assms(4,5) release_back [OF p]
      by (simp add: retry_after_refresh_def attempt_ok_def exec_release_def with_error_def buffer_error_response_def)
  next
    case (Inr tn)
    obtain tok n where tn: "tn = (tok, n)" by fastforce
    define l' where "l' = with_token tok n l"
    have l': "holding l' c p" using p by (simp add: l'_def holding_token)
    obtain q p' where q: "xe_post env l' rq p = (q, p')" by fastforce
    have p': "holding l' c p'" using holding_cong [OF post_keeps [OF _ q] l'] l' by (simp add: holding_def)
    show ?thesis
    proof (cases q)
      case (Inl e)
      show ?thesis using f Inr Inl tn q assms(4,5) release_back [OF p']
        by (auto simp: retry_after_refresh_def attempt_ok_def exec_release_def with_error_def
            buffer_error_response_def Let_def simp flip: l'_def)
    next
      case (Inr retry)
      have plain: "rp_on_close retry = None" using post_plain q Inr by simp
      have rdy: "ready p'" using p' by (simp add: holding_def)
      let ?st = "st\<lparr>xs_pool := p'\<rparr>"
      let ?ra = "parse_retry_after (xe_parse_time env) (rp_retry_after retry) (xe_now env k)"
      have e: "retry_after_refresh env k rq l resp force st =
        (if rp_status retry = 426 then (Finish (Inr retry), exec_release env k l' (outcome 426 0 False) ?st)
         else if is_success (rp_status retry) then (Finish (Inr (deliver l' retry)), ?st)
         else fail_over env k l' ?ra (buffer_error_response retry) True ?st)"
        using f \<open>r = Inr tn\<close> tn q Inr by (simp add: retry_after_refresh_def Let_def flip: l'_def)
      have "\<not> is_success (rp_status retry) \<Longrightarrow> attempt_ok c (fail_over env k l' ?ra (buffer_error_response retry) True ?st)"
        by (rule fail_over_ok) (use p' plain in \<open>simp_all add: buffer_error_response_def\<close>)
      moreover have "rp_status retry = 426 \<Longrightarrow> attempt_ok c (Finish (Inr retry), exec_release env k l' (outcome 426 0 False) ?st)"
        using plain assms(3) release_back [OF p'] by (simp add: attempt_ok_def settled_def exec_release_def is_success_def)
      moreover have "is_success (rp_status retry) \<Longrightarrow> attempt_ok c (Finish (Inr (deliver l' retry)), ?st)"
        using rdy p' assms(3) by (simp add: attempt_ok_def settled_def deliver_def)
      ultimately show ?thesis unfolding e by simp
    qed
  qed
qed

lemma handle_response_ok:
  assumes "holding l c (xs_pool st)" "\<And>r. xs_last_resp st = Some r \<Longrightarrow> rp_on_close r = None \<and> \<not> is_success (rp_status r)" "rp_on_close resp = None"
  shows "attempt_ok c (handle_response env k rq l resp st)"
proof -
  have b: "rp_on_close (buffer_error_response resp) = None" using assms(3) by (simp add: buffer_error_response_def)
  have final: "attempt_ok c (Finish (Inr r), exec_release env k l res st)" if "rp_on_close r = None" "\<not> is_success (rp_status r)" for r res
    using release_back [OF assms(1)] assms(2) that by (simp add: attempt_ok_def settled_def exec_release_def)
  consider (passed) "rp_status resp = 426" | (ok) "rp_status resp \<noteq> 426" "is_success (rp_status resp)"
    | (failed) "rp_status resp \<noteq> 426" "\<not> is_success (rp_status resp)" by blast
  then show ?thesis
  proof cases
    case passed
    then show ?thesis using final [OF assms(3)] by (simp add: handle_response_def is_success_def)
  next
    case ok
    have "ready (xs_pool st)" using assms(1) by (simp add: holding_def)
    then show ?thesis using ok assms(1,2) by (simp add: handle_response_def attempt_ok_def settled_def deliver_def)
  next
    case failed
    show ?thesis
    proof (cases "if rp_status resp = 401 then xe_refresher env else None")
      case None
      moreover have "\<not> is_success (rp_status (buffer_error_response resp))"
        using failed by (simp add: buffer_error_response_def)
      ultimately show ?thesis using failed final [OF b] fail_over_ok [OF assms(1) b] by (simp add: handle_response_def Let_def)
    next
      case (Some ef)
      obtain ensure force where ef: "ef = (ensure, force)" by fastforce
      have "xe_refresher env = Some (ensure, force)" using Some ef by (simp split: if_splits)
      from retry_after_refresh_ok [OF this assms failed(2)] show ?thesis
        using failed Some ef by (simp add: handle_response_def split: if_splits)
    qed
  qed
qed

lemma post_lease_ok:
  assumes "holding l c (xs_pool st)" "\<And>r. xs_last_resp st = Some r \<Longrightarrow> rp_on_close r = None \<and> \<not> is_success (rp_status r)"
  shows "attempt_ok c (post_lease env k rq l st)"
proof -
  obtain r p where p: "xe_post env l rq (xs_pool st) = (r, p)" by fastforce
  have h: "holding l c p" using holding_cong [OF post_keeps [OF _ p] assms(1)] assms(1) by (simp add: holding_def)
  show ?thesis
  proof (cases r)
    case (Inl e)
    have "holding l c (xe_dial_error env (ls_account_id l) (ls_proxy_url l) e p)"
      using holding_cong [OF callbacks_keep(1) h] h by (simp add: holding_def)
    then show ?thesis using p Inl assms(2) release_back
      by (simp add: post_lease_def attempt_ok_def exec_release_def with_error_def)
  next
    case (Inr resp)
    then show ?thesis
      using handle_response_ok [of l c "st\<lparr>xs_pool := p\<rparr>" resp k rq] post_plain p h assms(2) by (simp add: post_lease_def)
  qed
qed

lemma use_lease_ok:
  assumes "holding l c (xs_pool st)" "\<And>r. xs_last_resp st = Some r \<Longrightarrow> rp_on_close r = None \<and> \<not> is_success (rp_status r)"
  shows "attempt_ok c (use_lease env k rq l st)"
proof (cases "xe_resolve env l")
  case (Some e)
  then show ?thesis using release_back [OF assms(1)] assms(2)
    by (simp add: use_lease_def attempt_ok_def exec_release_def with_error_def)
next
  case None
  note res = None
  show ?thesis
  proof (cases "xe_refresher env")
    case None
    then show ?thesis using post_lease_ok assms res by (simp add: use_lease_def)
  next
    case (Some ef)
    obtain ensure force where ef: "ef = (ensure, force)" by fastforce
    obtain r p where f: "ensure (ls_account_id l) (xs_pool st) = (r, p)" by fastforce
    have p: "holding l c p"
      using refresher_keeps [OF Some [unfolded ef] _ disjI1 [OF f]] assms(1) by (auto simp: holding_def)
    show ?thesis
    proof (cases r)
      case (Inl e)
      then show ?thesis using f res Some ef assms(2) release_back [OF p]
        by (simp add: use_lease_def attempt_ok_def exec_release_def with_error_def)
    next
      case (Inr tn)
      obtain tok n where tn: "tn = (tok, n)" by fastforce
      have "holding (with_token tok n l) c p" using p by (simp add: holding_token)
      then show ?thesis using f res Some ef Inr tn assms(2) post_lease_ok [of "with_token tok n l" c "st\<lparr>xs_pool := p\<rparr>" k rq]
        by (simp add: use_lease_def)
    qed
  qed
qed

lemma exec_attempt_ok:
  assumes "ready (xs_pool st)" "\<And>j. 0 \<le> count (xs_pool st) j \<and> count (xs_pool st) j + 1 < limit"
    "\<And>r. xs_last_resp st = Some r \<Longrightarrow> rp_on_close r = None \<and> \<not> is_success (rp_status r)"
  shows "attempt_ok (count (xs_pool st)) (exec_attempt env k rq st)"
proof (cases "xe_gone env k")
  case True
  then show ?thesis using assms by (simp add: exec_attempt_def attempt_ok_def settled_def)
next
  case False
  obtain r tried p where a: "xe_attempt env k (pq_conv_id rq) (pq_model rq) (xs_tried st) (xs_pool st) = (r, tried, p)"
    by (metis prod.exhaust)
  let ?a = "(k, pq_conv_id rq, pq_model rq, xs_tried st)"
  have bnd: "0 \<le> count (xs_pool st) j \<and> count (xs_pool st) j < limit" for j using assms(2) [of j] by simp
  show ?thesis
  proof (cases r)
    case (Inl e)
    then have "exec_enter env ?a (xs_pool st) = (None, p)" using a by (simp add: exec_enter_def)
    from enter_refused [OF assms(1) this bnd] have "ready p" "count p = count (xs_pool st)" by auto
    then show ?thesis using a Inl False assms(3)
      by (cases e) (auto simp: exec_attempt_def attempt_ok_def settled_def exhausted_def with_error_def split: option.split)
  next
    case (Inr l)
    then have "exec_enter env ?a (xs_pool st) = (Some l, p)" using a by (simp add: exec_enter_def)
    from enter_ok [OF assms(1) this bnd] have "holding l (count (xs_pool st)) p"
      using assms(2) by (auto simp: holding_def)
    then show ?thesis
      using use_lease_ok [of l "count (xs_pool st)" "st\<lparr>xs_tried := tried, xs_pool := p, xs_acquire_count := xs_acquire_count st + 1\<rparr>" k rq]
        a Inr False assms(3) by (simp add: exec_attempt_def)
  qed
qed

lemma post_loop_ok:
  assumes "ready (xs_pool st)" "\<And>j. 0 \<le> count (xs_pool st) j \<and> count (xs_pool st) j + 1 < limit"
    "\<And>r. xs_last_resp st = Some r \<Longrightarrow> rp_on_close r = None \<and> \<not> is_success (rp_status r)" "post_loop env rq mx k st = (r, st')"
  shows "settled (count (xs_pool st)) r (xs_pool st')"
  using assms
proof (induction "Suc mx - k" arbitrary: k st)
  case 0
  then show ?case by (auto simp: post_loop.simps [of env] settled_def exhausted_def split: option.splits)
next
  case (Suc n)
  note rdy = Suc.prems(1) and bnd = Suc.prems(2) and plain = Suc.prems(3)
  have k: "k \<le> mx" using Suc.hyps(2) by simp
  obtain v st1 where a: "exec_attempt env k rq st = (v, st1)" by fastforce
  have ok: "attempt_ok (count (xs_pool st)) (v, st1)" using exec_attempt_ok [OF rdy bnd plain, of k rq] a by simp
  show ?case
  proof (cases v)
    case (Finish q)
    then show ?thesis using Suc.prems(4) ok a k by (auto simp: post_loop.simps [of env] attempt_ok_def)
  next
    case Continue
    have l: "post_loop env rq mx (Suc k) st1 = (r, st')"
      using Suc.prems(4) a k Continue by (simp add: post_loop.simps [of env _ _ k])
    have c: "ready (xs_pool st1)" "count (xs_pool st1) = count (xs_pool st)"
      "\<And>r. xs_last_resp st1 = Some r \<Longrightarrow> rp_on_close r = None \<and> \<not> is_success (rp_status r)"
      using ok Continue by (auto simp: attempt_ok_def)
    have "settled (count (xs_pool st1)) r (xs_pool st')"
      using Suc.hyps(1) [OF _ c(1) _ c(3) l] Suc.hyps(2) bnd c(2) by simp
    then show ?thesis using c(2) by simp
  qed
qed

lemma post_balanced:
  assumes "ready (fst w)" "\<And>j. 0 \<le> count (fst w) j \<and> count (fst w) j + 1 < limit"
    "exec_post env n rq w = (r, s', m)"
  shows "settled (count (fst w)) r s'"
proof -
  obtain st where st: "post_loop env rq (post_max_attempts n) 1 \<lparr>xs_pool = fst w, xs_acquire_count = snd w, xs_tried = [],
      xs_last_err = None, xs_last_resp = None, xs_failovers = 0\<rparr> = (r, st)" "s' = xs_pool st"
    using assms(3) by (auto simp: exec_post_def split: prod.splits)
  from post_loop_ok [OF _ _ _ st(1)] assms(1,2) st(2) show ?thesis by simp
qed

lemma close_balanced:
  assumes "settled c (Inr resp) s"
  shows "ready (snd (close_body env k resp s)) \<and> count (snd (close_body env k resp s)) = c"
  using assms release_back by (auto simp: settled_def close_body_def split: option.splits)

text \<open>The same, written out.\<close>

lemma post_accounts:
  assumes "ready s" "\<And>j. 0 \<le> count s j \<and> count s j + 1 < limit"
    "exec_post env n rq (s, m0) = (r, s', m)"
  shows "ready s' \<and>
    (case r of
       Inl e \<Rightarrow> count s' = count s
     | Inr resp \<Rightarrow>
         (case rp_on_close resp of
            None \<Rightarrow> \<not> is_success (rp_status resp) \<and> count s' = count s
          | Some l \<Rightarrow> is_success (rp_status resp) \<and>
              count s' = (count s)(ls_account_id l := count s (ls_account_id l) + 1)) \<and>
         count (snd (close_body env k resp s')) = count s)"
  using post_balanced [of "(s, m0)", simplified, OF assms] close_balanced [of "count s" _ s' k]
  by (auto simp: settled_def holding_def split: sum.splits option.splits)

end

section \<open>How often a request goes upstream\<close>

lemma count_step [simp, frame_simps]:
  "xs_acquire_count (exec_release env k l res st) = xs_acquire_count st"
  "xs_acquire_count (with_error e st) = xs_acquire_count st"
  "xs_failovers (exec_release env k l res st) = xs_failovers st"
  "xs_failovers (with_error e st) = xs_failovers st"
  by (simp_all add: exec_release_def with_error_def)

lemma fail_over_count [simp, frame_simps]: "xs_acquire_count (snd (fail_over env k l ra r b st)) = xs_acquire_count st"
  by (simp add: fail_over_def Let_def)

lemma retry_count [simp, frame_simps]:
  "xs_acquire_count (snd (retry_after_refresh env k rq l resp force st)) = xs_acquire_count st"
  by (simp add: retry_after_refresh_def Let_def split: prod.split sum.split)

lemma handle_count [simp, frame_simps]: "xs_acquire_count (snd (handle_response env k rq l resp st)) = xs_acquire_count st"
  by (simp add: handle_response_def Let_def split: option.split)

lemma post_lease_count [simp, frame_simps]: "xs_acquire_count (snd (post_lease env k rq l st)) = xs_acquire_count st"
  by (simp add: post_lease_def split: prod.split sum.split)

lemma use_lease_count [simp, frame_simps]: "xs_acquire_count (snd (use_lease env k rq l st)) = xs_acquire_count st"
  by (simp add: use_lease_def split: prod.split sum.split option.split)

lemma attempt_count:
  "xs_acquire_count (snd (exec_attempt env k rq st)) \<in> {xs_acquire_count st, xs_acquire_count st + 1}"
  by (auto simp: exec_attempt_def split: prod.split sum.split option.split)

lemma post_loop_count:
  "post_loop env rq mx k st = (r, st') \<Longrightarrow>
    xs_acquire_count st \<le> xs_acquire_count st' \<and> xs_acquire_count st' \<le> xs_acquire_count st + int (Suc mx - k)"
proof (induction env rq mx k st arbitrary: r st' rule: post_loop.induct)
  case (1 env rq mx k st)
  show ?case
  proof (cases "k \<le> mx")
    case False
    then show ?thesis using 1(2) by (simp add: post_loop.simps)
  next
    case True
    obtain v st1 where a: "exec_attempt env k rq st = (v, st1)" by fastforce
    have c: "xs_acquire_count st1 \<in> {xs_acquire_count st, xs_acquire_count st + 1}" using attempt_count [of env k rq st] a by simp
    show ?thesis
    proof (cases v)
      case (Finish q)
      then show ?thesis using 1(2) a True c by (auto simp: post_loop.simps [of env])
    next
      case Continue
      have "post_loop env rq mx (Suc k) st1 = (r, st')" using 1(2) a True Continue by (simp add: post_loop.simps [of env _ _ k])
      from 1(1) [OF True a [symmetric] Continue this] c True show ?thesis by auto
    qed
  qed
qed

text \<open>An upstream that limits every request: 429, and no account is lost before it is asked.\<close>

definition always_limited :: "('s, 'e) exec_env \<Rightarrow> bool" where
  "always_limited env \<longleftrightarrow> xe_refresher env = None \<and> (\<forall>l. xe_resolve env l = None) \<and>
     (\<forall>l rq s. \<exists>resp s'. xe_post env l rq s = (Inr resp, s') \<and> rp_status resp = 429)"

lemma limited_use:
  assumes "always_limited env" "use_lease env k rq l st = (v, st')"
  shows "xs_failovers st' = xs_failovers st + 1 \<and> (1 \<le> xs_failovers st \<longrightarrow> v \<noteq> Continue)"
proof -
  obtain resp s' where p: "xe_post env l rq (xs_pool st) = (Inr resp, s')" "rp_status resp = 429"
    using assms(1) unfolding always_limited_def by blast
  then show ?thesis using assms
    by (auto simp: use_lease_def post_lease_def handle_response_def fail_over_def always_limited_def is_success_def
        is_retryable_status_def buffer_error_response_def max_rate_limit_failovers_def Let_def split: if_splits)
qed

lemma limited_loop:
  assumes "always_limited env"
  shows "post_loop env rq mx k st = (r, st') \<Longrightarrow> 0 \<le> xs_failovers st \<Longrightarrow> xs_failovers st \<le> 1 \<Longrightarrow>
    xs_acquire_count st' \<le> xs_acquire_count st + 2 - xs_failovers st"
proof (induction "Suc mx - k" arbitrary: k st)
  case 0
  then show ?case by (simp add: post_loop.simps)
next
  case (Suc n)
  then have k: "k \<le> mx" by simp
  obtain v st1 where a: "exec_attempt env k rq st = (v, st1)" by fastforce
  have c: "(xs_acquire_count st1 = xs_acquire_count st \<and> xs_failovers st1 = xs_failovers st) \<or>
    (xs_acquire_count st1 = xs_acquire_count st + 1 \<and> xs_failovers st1 = xs_failovers st + 1 \<and>
     (1 \<le> xs_failovers st \<longrightarrow> v \<noteq> Continue))"
  proof (cases "\<exists>l. fst (xe_attempt env k (pq_conv_id rq) (pq_model rq) (xs_tried st) (xs_pool st)) = Inr l \<and> \<not> xe_gone env k")
    case True
    then obtain l t p where l: "xe_attempt env k (pq_conv_id rq) (pq_model rq) (xs_tried st) (xs_pool st) = (Inr l, t, p)"
      "\<not> xe_gone env k" by (metis prod.collapse)
    define st0 where "st0 = st\<lparr>xs_tried := t, xs_pool := p, xs_acquire_count := xs_acquire_count st + 1\<rparr>"
    have u: "use_lease env k rq l st0 = (v, st1)" using a l by (simp add: exec_attempt_def st0_def)
    have "xs_acquire_count st1 = xs_acquire_count st0" using use_lease_count [of env k rq l st0] u by simp
    then show ?thesis using limited_use [OF assms u] by (simp add: st0_def)
  next
    case False
    then show ?thesis using a
      by (auto simp: exec_attempt_def split: prod.splits sum.splits option.splits if_splits)
  qed
  show ?case
  proof (cases v)
    case (Finish q)
    then show ?thesis using Suc.prems a k c by (auto simp: post_loop.simps [of env])
  next
    case Continue
    have "post_loop env rq mx (Suc k) st1 = (r, st')"
      using Suc.prems(1) a k Continue by (simp add: post_loop.simps [of env _ _ k])
    moreover have "0 \<le> xs_failovers st1" "xs_failovers st1 \<le> 1" using Suc.prems(2,3) c Continue by auto
    ultimately have "xs_acquire_count st' \<le> xs_acquire_count st1 + 2 - xs_failovers st1"
      using Suc.hyps(1) [of "Suc k" st1] Suc.hyps(2) by simp
    then show ?thesis using c by auto
  qed
qed

section \<open>The request over the lease manager\<close>

text \<open>
  The wiring of the gateway process: the leaser is the manager, the refresher the adapter of the
  refresh service over the same catalog and hot index. The body of a success is closed outside
  the context of the request.
\<close>

record ('r, 'p, 'o, 'u) pool_world =
  pw_lease :: "('r, 'p) lease_world"
  pw_svc :: refresh_service
  pw_idp :: 'o
  pw_up :: 'u

record ('r, 'p, 'o, 'u) pool_env =
  pe_lease :: "('r, 'p) lease_env"
  pe_oauth :: "string \<Rightarrow> 'o \<Rightarrow> (string + token_set) \<times> 'o"
  pe_call :: refresh_call
  pe_gone :: "nat \<Rightarrow> bool"
  pe_now :: "nat \<Rightarrow> int"
  pe_client :: "lease \<Rightarrow> string option"
  pe_post :: "lease \<Rightarrow> post_request \<Rightarrow> 'u \<Rightarrow> (string + int \<times> string \<times> string) \<times> 'u"
  pe_dial_error :: "string \<Rightarrow> string \<Rightarrow> string \<Rightarrow> 'u \<Rightarrow> 'u"
  pe_parse_time :: "string \<Rightarrow> int option"

definition plain_response :: "int \<times> string \<times> string \<Rightarrow> response" where
  "plain_response = (\<lambda>(status, ra, body). \<lparr>rp_status = status, rp_retry_after = ra, rp_body = body, rp_on_close = None\<rparr>)"

definition adapt ::
  "('r, 'p, 'o, 'u) pool_env \<Rightarrow> (refresh_call \<Rightarrow> string \<Rightarrow> 'o refresh_world \<Rightarrow> (refresh_error + token_set) \<times> 'o refresh_world)
   \<Rightarrow> ('r, 'p, 'o, 'u) pool_world refresh_fun" where
  "adapt env f i s =
     (let (r, fw) = f (pe_call env) i \<lparr>fw_cat = lw_cat (pw_lease s), fw_svc = pw_svc s, fw_idp = pw_idp s\<rparr>;
          s1 = s\<lparr>pw_lease := (pw_lease s)\<lparr>lw_cat := fw_cat fw\<rparr>, pw_svc := fw_svc fw, pw_idp := fw_idp fw\<rparr> in
      case r of
        Inl e \<Rightarrow> (Inl e, s1)
      | Inr ts \<Rightarrow>
          let (q, x) = token_and_rev (le_entries (pe_lease env)) i ts (fw_cat fw) (lw_idx (pw_lease s1)) in
          (q, s1\<lparr>pw_lease := (pw_lease s1)\<lparr>lw_idx := x\<rparr>\<rparr>))"

definition manager_env :: "('r, 'p, 'o, 'u) pool_env \<Rightarrow> (('r, 'p, 'o, 'u) pool_world, lease_error) exec_env" where
  "manager_env env =
     \<lparr>xe_gone = pe_gone env, xe_now = pe_now env,
      xe_attempt = (\<lambda>k sticky model tried s.
        let (r, t, w) = acquire_attempt (pe_lease env) (unix_sec (pe_now env k)) (pe_gone env k) sticky model tried (pw_lease s) in
        (map_sum (\<lambda>e. if e = LeaseNoAccount then None else Some e) id r, t, s\<lparr>pw_lease := w\<rparr>)),
      xe_release = (\<lambda>k l res s. s\<lparr>pw_lease := snd (release (pe_lease env) (pe_gone env k \<and> \<not> lr_success res)
        (unix_sec (pe_now env k)) (pe_now env k) l res (pw_lease s))\<rparr>),
      xe_resolve = pe_client env,
      xe_refresher = Some (adapt env (ensure_fresh (pe_oauth env)), adapt env (force_refresh (pe_oauth env))),
      xe_post = (\<lambda>l rq s. map_prod (map_sum id plain_response) (\<lambda>u. s\<lparr>pw_up := u\<rparr>) (pe_post env l rq (pw_up s))),
      xe_dial_error = (\<lambda>i url e s. s\<lparr>pw_up := pe_dial_error env i url e (pw_up s)\<rparr>),
      xe_rate_break = (\<lambda>s. s), xe_parse_time = pe_parse_time env\<rparr>"

definition pool_ready :: "('r, 'p, 'o, 'u) pool_env \<Rightarrow> int \<Rightarrow> ('r, 'p, 'o, 'u) pool_world \<Rightarrow> bool" where
  "pool_ready env mx s \<longleftrightarrow> lease_ready (pe_lease env) mx (pw_lease s) \<and>
     (\<forall>k c. wf_catalog c \<longrightarrow> wf_catalog (fc_mid (pe_call env) k c))"

definition pool_count :: "('r, 'p, 'o, 'u) pool_world \<Rightarrow> string \<Rightarrow> int" where
  "pool_count s = world_inflight (pw_lease s)"

lemma wf_refresh_hooks:
  "wf_catalog c \<Longrightarrow> wf_catalog (on_refresh_failure p gone now i err c)"
  "wf_catalog c \<Longrightarrow> wf_catalog (on_refresh_success gone now i c)"
  using wf_patch_health by (auto simp: on_refresh_failure_def on_refresh_success_def Let_def split: sum.split)

lemma wf_persist: "wf_catalog (fw_cat w) \<Longrightarrow> wf_catalog (fw_cat (snd (persist_outcome call i n ts r w)))"
  using wf_refresh_hooks by (auto simp: persist_outcome_def punish_def split: sum.split)

lemma wf_refresh_and_persist:
  assumes "\<And>k c. wf_catalog c \<Longrightarrow> wf_catalog (fc_mid call k c)" "wf_catalog (fw_cat w)"
  shows "wf_catalog (fw_cat (snd (refresh_and_persist oauth call a w)))"
proof -
  obtain res o' where o: "oauth (acc_refresh_token a) (fw_idp w) = (res, o')" by fastforce
  define w1 where "w1 = between call 1 (w\<lparr>fw_idp := o'\<rparr>)"
  have w1: "wf_catalog (fw_cat w1)" using assms by (simp add: w1_def between_def)
  show ?thesis
  proof (cases res)
    case (Inl e)
    then show ?thesis using o w1 assms(2) wf_refresh_hooks
      by (simp add: refresh_and_persist_def punish_def Let_def del: One_nat_def flip: w1_def)
  next
    case (Inr ts)
    obtain r c where u: "update_tokens (fw_cat w1) (fc_now call 2) (acc_id a) (acc_revision a) ts = (r, c)" by fastforce
    have c: "wf_catalog c" using wf_update_tokens [OF w1] u by (metis snd_conv)
    then have b: "wf_catalog (fw_cat (between call k (w1\<lparr>fw_cat := c\<rparr>)))" "wf_catalog (fc_mid call j (fc_mid call k c))" for j k
      using assms(1) by (simp_all add: between_def)
    have u2: "wf_catalog c'" if "update_tokens (fc_mid call 3 (fc_mid call 2 c)) now i n ts = (r', c')" for now i n r' c'
      using wf_update_tokens [OF b(2)] that by (metis snd_conv)
    show ?thesis using Inr o u w1 c b assms(2)
      by (simp add: refresh_and_persist_def punish_def Let_def del: One_nat_def flip: w1_def split: sum.split prod.split)
        (auto simp: between_def intro!: wf_persist wf_refresh_hooks dest: u2)
  qed
qed


lemma wf_ensure_fresh:
  assumes "\<And>k c. wf_catalog c \<Longrightarrow> wf_catalog (fc_mid call k c)" "wf_catalog (fw_cat w)"
  shows "wf_catalog (fw_cat (snd (ensure_fresh oauth call i w)))" "wf_catalog (fw_cat (snd (force_refresh oauth call i w)))"
proof -
  have "wf_catalog (fw_cat (between call 0 w))" using assms by (simp add: between_def)
  then show "wf_catalog (fw_cat (snd (ensure_fresh oauth call i w)))"
    using assms(2) by (simp add: ensure_fresh_def Let_def wf_refresh_and_persist [OF assms(1)] split: sum.split)
  show "wf_catalog (fw_cat (snd (force_refresh oauth call i w)))"
    using assms(2) by (simp add: force_refresh_def wf_refresh_and_persist [OF assms(1)] split: sum.split)
qed

lemma token_and_rev_frame:
  assumes "idx_ok x" "iteration_order ord"
  shows "hot_frame x (snd (token_and_rev ord i ts c x))"
proof -
  have "hot_frame x (patch_hot_expires ord i e x)" for e
    using assms promote_frame [OF assms, where m = "m\<lparr>hm_expires_at := e\<rparr>" for m] hot_get_id [OF assms(1), of i]
    by (auto simp: patch_hot_expires_def split: option.split)
  then show ?thesis by (simp add: token_and_rev_def Let_def split: prod.split)
qed

lemma adapt_keeps:
  assumes "pool_ready env mx s" "adapt env f i s = (r, s')"
    and "\<And>w. wf_catalog (fw_cat w) \<Longrightarrow> wf_catalog (fw_cat (snd (f (pe_call env) i w)))"
  shows "pool_ready env mx s' \<and> pool_count s' = pool_count s"
proof -
  obtain q fw where f: "f (pe_call env) i \<lparr>fw_cat = lw_cat (pw_lease s), fw_svc = pw_svc s, fw_idp = pw_idp s\<rparr> = (q, fw)"
    by fastforce
  have rdy: "lease_ready (pe_lease env) mx (pw_lease s)" using assms(1) by (simp add: pool_ready_def)
  then have ok: "world_ok (pw_lease s)" "idx_ok (lw_idx (pw_lease s))" "iteration_order (le_entries (pe_lease env))"
    by (auto simp: lease_ready_iff world_ok_def env_ok_def)
  have "wf_catalog (fw_cat fw)"
    using assms(3) [of "\<lparr>fw_cat = lw_cat (pw_lease s), fw_svc = pw_svc s, fw_idp = pw_idp s\<rparr>"] ok(1) f
    by (simp add: world_ok_def)
  moreover have "\<exists>x. pw_lease s' = (pw_lease s)\<lparr>lw_cat := fw_cat fw, lw_idx := x\<rparr> \<and> hot_frame (lw_idx (pw_lease s)) x"
  proof (cases q)
    case (Inl e)
    then have "pw_lease s' = (pw_lease s)\<lparr>lw_cat := fw_cat fw, lw_idx := lw_idx (pw_lease s)\<rparr>"
      using assms(2) f by (auto simp: adapt_def)
    then show ?thesis using hot_frame_refl [OF ok(2)] by blast
  next
    case (Inr ts)
    obtain p x where t: "token_and_rev (le_entries (pe_lease env)) i ts (fw_cat fw) (lw_idx (pw_lease s)) = (p, x)" by fastforce
    then have "pw_lease s' = (pw_lease s)\<lparr>lw_cat := fw_cat fw, lw_idx := x\<rparr>"
      using assms(2) f Inr by (auto simp: adapt_def)
    then show ?thesis using token_and_rev_frame [OF ok(2,3), of i ts "fw_cat fw"] t by auto
  qed
  ultimately obtain x where cat: "wf_catalog (fw_cat fw)" and
    x: "pw_lease s' = (pw_lease s)\<lparr>lw_cat := fw_cat fw, lw_idx := x\<rparr>" "hot_frame (lw_idx (pw_lease s)) x" by blast
  then have "world_ok (pw_lease s')" "hot_frame (lw_idx (pw_lease s)) (lw_idx (pw_lease s'))"
    using ok(1) hot_frame_ok by (auto simp: world_ok_def)
  then show ?thesis using hot_frame_step [OF rdy] assms(1) by (simp add: pool_ready_def pool_count_def)
qed

interpretation manager_post: post_client "pool_ready env mx" pool_count "manager_env env" "2 ^ 31 - 1" for env mx
proof
  fix env :: "('r, 'p, 'o, 'u) pool_env" and s s' :: "('r, 'p, 'o, 'u) pool_world" and mx
  assume rdy: "pool_ready env mx s"
  have lr: "lease_ready (pe_lease env) mx (pw_lease s)" using rdy by (simp add: pool_ready_def)
  then have ok: "env_ok (pe_lease env)" "world_ok (pw_lease s)" by (simp_all add: lease_ready_iff)
  {
    fix a :: "nat \<times> string \<times> string \<times> string list" and l
    assume bnd: "\<And>j. 0 \<le> pool_count s j \<and> pool_count s j < 2 ^ 31 - 1"
    obtain k sticky model tried where a: "a = (k, sticky, model, tried)" by (cases a)
    obtain q t w where q: "acquire_attempt (pe_lease env) (unix_sec (pe_now env k)) (pe_gone env k) sticky model tried (pw_lease s) = (q, t, w)"
      by (metis prod.exhaust)
    have enter: "exec_enter (manager_env env) a s = ((case q of Inl e \<Rightarrow> None | Inr l \<Rightarrow> Some l), s\<lparr>pw_lease := w\<rparr>)"
      using q by (cases q) (auto simp: exec_enter_def a manager_env_def)
    have spec: "world_ok w \<and> (case q of Inl e \<Rightarrow> hot_frame (lw_idx (pw_lease s)) (lw_idx w)
      | Inr l \<Rightarrow> granted (unix_sec (pe_now env k)) model l (lw_idx (pw_lease s)) w \<and> under_cap (lw_idx (pw_lease s)) (ls_account_id l))"
      using q ok acquire_once_spec [OF ok, of "unix_sec (pe_now env k)" sticky model tried 1 q t w]
      by (auto simp: acquire_attempt_def world_ok_def split: if_splits sum.splits)
    show "pool_ready env mx s' \<and> lease_valid l \<and> pool_count s' = (pool_count s)(ls_account_id l := pool_count s (ls_account_id l) + 1)"
      if "exec_enter (manager_env env) a s = (Some l, s')"
    proof -
      have "q = Inr l" "s' = s\<lparr>pw_lease := w\<rparr>" using that unfolding enter by (cases q; simp)+
      moreover from this have "granted (unix_sec (pe_now env k)) model l (lw_idx (pw_lease s)) w"
        "under_cap (lw_idx (pw_lease s)) (ls_account_id l)" "world_ok w" using spec by auto
      note granted_step [OF lr _ this]
      ultimately show ?thesis using bnd rdy by (simp add: pool_ready_def pool_count_def)
    qed
    show "pool_ready env mx s' \<and> pool_count s' = pool_count s" if no: "exec_enter (manager_env env) a s = (None, s')"
    proof -
      obtain e where "q = Inl e" "s' = s\<lparr>pw_lease := w\<rparr>" using no unfolding enter by (cases q) simp_all
      then show ?thesis using hot_frame_step [OF lr] spec rdy by (simp add: pool_ready_def pool_count_def)
    qed
  }
  show "pool_ready env mx (exec_leave (manager_env env) b l s) \<and>
      pool_count (exec_leave (manager_env env) b l s) = (pool_count s)(ls_account_id l := pool_count s (ls_account_id l) - 1)"
    if "lease_valid l" "0 < pool_count s (ls_account_id l)" for b l
    using lease_give_back_ok [OF lr that(1), of "(pe_gone env (fst b) \<and> \<not> lr_success (snd b), unix_sec (pe_now env (fst b)), pe_now env (fst b), snd b)"] that(2) rdy
    by (auto simp: exec_leave_def manager_env_def pool_ready_def pool_count_def lease_give_back_def split: prod.split)
  show "pool_ready env mx s' \<and> pool_count s' = pool_count s"
    if "xe_refresher (manager_env env) = Some (ensure, force)" "ensure i s = (r, s') \<or> force i s = (r, s')" for ensure force i r
  proof -
    have mid: "\<And>k c. wf_catalog c \<Longrightarrow> wf_catalog (fc_mid (pe_call env) k c)" using rdy by (simp add: pool_ready_def)
    from that consider "adapt env (ensure_fresh (pe_oauth env)) i s = (r, s')" | "adapt env (force_refresh (pe_oauth env)) i s = (r, s')"
      by (auto simp: manager_env_def)
    then show ?thesis
      by cases (erule adapt_keeps [OF rdy]; rule wf_ensure_fresh [OF mid]; assumption)+
  qed
  show "pool_ready env mx s' \<and> pool_count s' = pool_count s" if "xe_post (manager_env env) l rq s = (q, s')" for l rq q
    using that rdy
    by (cases "pe_post env l rq (pw_up s)") (auto simp: manager_env_def pool_ready_def pool_count_def)
  show "pool_ready env mx (xe_dial_error (manager_env env) i url e s) \<and>
      pool_count (xe_dial_error (manager_env env) i url e s) = pool_count s" for i url e
    using rdy by (simp add: manager_env_def pool_ready_def pool_count_def)
  show "pool_ready env mx (xe_rate_break (manager_env env) s) \<and> pool_count (xe_rate_break (manager_env env) s) = pool_count s"
    using rdy by (simp add: manager_env_def pool_ready_def pool_count_def)
next
  fix env :: "('r, 'p, 'o, 'u) pool_env" and s s' :: "('r, 'p, 'o, 'u) pool_world" and l rq resp
  assume "xe_post (manager_env env) l rq s = (Inr resp, s')"
  then show "rp_on_close resp = None"
    by (cases "pe_post env l rq (pw_up s)"; cases "fst (pe_post env l rq (pw_up s))")
       (auto simp: manager_env_def plain_response_def)
qed


section \<open>The request over the worker's leaser\<close>

text \<open>The wiring of a worker process: its leaser over the shared state, and no refresher.\<close>

record ('r, 'u) serve_world =
  sw_pool :: "'r worker_world"
  sw_up :: 'u

record ('r, 'u) serve_env =
  se_worker :: "'r worker_env"
  se_gone :: "nat \<Rightarrow> bool"
  se_now :: "nat \<Rightarrow> int"
  se_client :: "lease \<Rightarrow> string option"
  se_post :: "lease \<Rightarrow> post_request \<Rightarrow> 'u \<Rightarrow> (string + int \<times> string \<times> string) \<times> 'u"
  se_dial_error :: "string \<Rightarrow> string \<Rightarrow> string \<Rightarrow> 'u \<Rightarrow> 'u"
  se_parse_time :: "string \<Rightarrow> int option"

definition worker_exec_env :: "('r, 'u) serve_env \<Rightarrow> (('r, 'u) serve_world, worker_error) exec_env" where
  "worker_exec_env env =
     \<lparr>xe_gone = se_gone env, xe_now = se_now env,
      xe_attempt = (\<lambda>k sticky model tried s.
        let (r, t, w) = wk_acquire_attempt (se_worker env) (se_now env k) (se_gone env k) sticky model tried (sw_pool s) in
        (map_sum (\<lambda>e. if e = WkNoAccount then None else Some e) id r, t, s\<lparr>sw_pool := w\<rparr>)),
      xe_release = (\<lambda>k l res s. s\<lparr>sw_pool := wk_release (se_worker env) (se_now env k) l res (sw_pool s)\<rparr>),
      xe_resolve = se_client env, xe_refresher = None,
      xe_post = (\<lambda>l rq s. map_prod (map_sum id plain_response) (\<lambda>u. s\<lparr>sw_up := u\<rparr>) (se_post env l rq (sw_up s))),
      xe_dial_error = (\<lambda>i url e s. s\<lparr>sw_up := se_dial_error env i url e (sw_up s)\<rparr>),
      xe_rate_break = (\<lambda>s. s), xe_parse_time = se_parse_time env\<rparr>"

interpretation worker_post: post_client "\<lambda>s. wk_ready cap (sw_pool s)" "\<lambda>s. cluster_count (sw_pool s)"
  "worker_exec_env env" "2 ^ 63 - 2" for env cap
proof
  fix env :: "('r, 'u) serve_env" and s s' :: "('r, 'u) serve_world" and cap
  assume rdy: "wk_ready cap (sw_pool s)"
  {
    fix a :: "nat \<times> string \<times> string \<times> string list" and l
    assume bnd: "\<And>j. 0 \<le> cluster_count (sw_pool s) j \<and> cluster_count (sw_pool s) j < 2 ^ 63 - 2"
    obtain k sticky model tried where a: "a = (k, sticky, model, tried)" by (cases a)
    obtain q t w where q: "wk_acquire_attempt (se_worker env) (se_now env k) (se_gone env k) sticky model tried (sw_pool s) = (q, t, w)"
      by (metis prod.exhaust)
    have enter: "exec_enter (worker_exec_env env) a s = ((case q of Inl e \<Rightarrow> None | Inr l \<Rightarrow> Some l), s\<lparr>sw_pool := w\<rparr>)"
      using q by (cases q) (auto simp: exec_enter_def a worker_exec_env_def)
    note spec = wk_attempt_spec [OF rdy bnd q]
    show "wk_ready cap (sw_pool s') \<and> lease_valid l \<and> cluster_count (sw_pool s') =
        (cluster_count (sw_pool s))(ls_account_id l := cluster_count (sw_pool s) (ls_account_id l) + 1)"
      if "exec_enter (worker_exec_env env) a s = (Some l, s')"
      using that spec unfolding enter by (cases q) (auto simp: lease_valid_def)
    show "wk_ready cap (sw_pool s') \<and> cluster_count (sw_pool s') = cluster_count (sw_pool s)"
      if "exec_enter (worker_exec_env env) a s = (None, s')"
      using that spec unfolding enter by (cases q) auto
  }
  show "wk_ready cap (sw_pool (exec_leave (worker_exec_env env) b l s)) \<and>
      cluster_count (sw_pool (exec_leave (worker_exec_env env) b l s)) =
        (cluster_count (sw_pool s))(ls_account_id l := cluster_count (sw_pool s) (ls_account_id l) - 1)"
    if "lease_valid l" "0 < cluster_count (sw_pool s) (ls_account_id l)" "cluster_count (sw_pool s) (ls_account_id l) < 2 ^ 63 - 2" for b l
    using wk_release_spec [OF rdy, of l "se_worker env" "se_now env (fst b)" "snd b"] that
    by (auto simp: exec_leave_def worker_exec_env_def lease_valid_def split: prod.split)
  show "wk_ready cap (sw_pool s') \<and> cluster_count (sw_pool s') = cluster_count (sw_pool s)"
    if "xe_post (worker_exec_env env) l rq s = (q, s')" for l rq q
    using that rdy by (cases "se_post env l rq (sw_up s)") (auto simp: worker_exec_env_def)
qed (auto simp: worker_exec_env_def plain_response_def map_prod_def map_sum_def split: prod.splits sum.splits)

end
