(* ===== verification/ExecutorProps.thy ===== *)
theory ExecutorProps
  imports Executor
begin

text \<open>
  What requests promise: the waits read from \<open>Retry-After\<close>, that no request leaves a lease
  behind (over the lease manager and over the leaser of a worker), and the rate-limit breaker.
\<close>

section \<open>Retry-After\<close>

text \<open>
  A \<open>Retry-After\<close> of seconds is read back as it was written: negative ones are no wait, and up
  to 9223372036 seconds the wait is exact. Above that (the 292 years a duration can hold) the
  product wraps, first to negative waits.
\<close>

theorem retry_after_seconds:
  assumes "- (2 ^ 63) \<le> n" "n < 2 ^ 63"
  shows "(n < 0 \<longrightarrow> parse_retry_after parse_time (show_int n) now = 0) \<and>
    (0 \<le> n \<and> n \<le> 9223372036 \<longrightarrow> parse_retry_after parse_time (show_int n) now = n * 1000000000) \<and>
    (9223372037 \<le> n \<and> n \<le> 18446744073 \<longrightarrow> parse_retry_after parse_time (show_int n) now = n * 1000000000 - 2 ^ 64 \<and>
       parse_retry_after parse_time (show_int n) now < 0)"
proof -
  have "show_int n \<noteq> []" by (simp add: show_int_def)
  then have v: "parse_retry_after parse_time (show_int n) now = (if n < 0 then 0 else wrap64 (n * 1000000000))"
    using atoi_show_int [OF assms] by (simp add: parse_retry_after_def trim_space_show_int)
  have "wrap64 (n * 1000000000) = n * 1000000000" if "0 \<le> n" "n \<le> 9223372036"
    using that by (simp add: wrap64_small)
  moreover have "wrap64 (n * 1000000000) = n * 1000000000 - 2 ^ 64" if "9223372037 \<le> n" "n \<le> 18446744073"
  proof -
    have "wrap64 (n * 1000000000) = wrap64 (n * 1000000000 - 2 ^ 64)" by (simp add: wrap64_def mod_eq_dvd_iff)
    also have "\<dots> = n * 1000000000 - 2 ^ 64" using that by (simp add: wrap64_small)
    finally show ?thesis .
  qed
  ultimately show ?thesis unfolding v by auto
qed

theorem retry_after_seconds_witness:
  "parse_retry_after (\<lambda>s. None) (show_int 120) 0 = 120000000000 \<and>
   parse_retry_after (\<lambda>s. None) (show_int 9223372037) 0 = - 9223372036709551616"
  using retry_after_seconds [of 120 "\<lambda>s. None" 0] retry_after_seconds [of 9223372037 "\<lambda>s. None" 0] by simp

section \<open>Requests leave no lease behind\<close>

lemma close_twice:
  "close_body env k (fst (close_body env j r p)) q = (fst (close_body env j r p), q)"
  by (cases "rp_on_close r") (simp_all add: close_body_def)

lemma post_count:
  assumes "exec_post env n rq (s, m) = (r, s', m')"
  shows "m \<le> m' \<and> m' \<le> m + int (post_max_attempts n)"
proof -
  obtain st where st: "post_loop env rq (post_max_attempts n) 1 \<lparr>xs_pool = s, xs_acquire_count = m, xs_tried = [],
      xs_last_err = None, xs_last_resp = None, xs_failovers = 0\<rparr> = (r, st)" "m' = xs_acquire_count st"
    using assms by (auto simp: exec_post_def split: prod.splits)
  from post_loop_count [OF st(1)] st(2) show ?thesis by simp
qed

text \<open>
  C30. A request over the lease manager and the refresh service leaks no lease, whatever the
  identity provider, the upstream, the other writers of the catalog and the contexts do: it takes
  at most the configured number of leases, and when it returns every account's in-flight count is
  what it was, except that a success (a 2xx response, and only that) keeps one on the account that
  served it. Closing the body of the response gives that back; closing it again does nothing.
\<close>

theorem request_leaks_no_lease:
  assumes "pool_ready env mx s" "\<And>j. 0 \<le> pool_count s j \<and> pool_count s j + 1 < 2 ^ 31 - 1"
    "exec_post (manager_env env) n rq (s, m) = (r, s', m')"
  shows "pool_ready env mx s' \<and> m \<le> m' \<and> m' \<le> m + int (post_max_attempts n) \<and>
    (case r of
       Inl e \<Rightarrow> pool_count s' = pool_count s
     | Inr resp \<Rightarrow>
         (case rp_on_close resp of
            None \<Rightarrow> \<not> is_success (rp_status resp) \<and> pool_count s' = pool_count s
          | Some l \<Rightarrow> is_success (rp_status resp) \<and>
              pool_count s' = (pool_count s)(ls_account_id l := pool_count s (ls_account_id l) + 1)) \<and>
         pool_count (snd (close_body (manager_env env) k resp s')) = pool_count s \<and>
         close_body (manager_env env) k' (fst (close_body (manager_env env) k resp s')) t =
           (fst (close_body (manager_env env) k resp s'), t))"
  using manager_post.post_accounts [of env mx s n rq m r s' m' k] assms post_count [OF assms(3)]
  by (auto simp: close_twice split: sum.splits)

definition sample_pool_env :: "string + int \<Rightarrow> (nat, unit, nat, unit) pool_env" where
  "sample_pool_env q = \<lparr>pe_lease = sample_env, pe_oauth = good_provider, pe_call = sample_call 10, pe_gone = (\<lambda>k. False),
     pe_now = (\<lambda>k. 20000000000), pe_client = (\<lambda>l. None), pe_post = (\<lambda>l rq u. (map_sum id (\<lambda>status. (status, [], ''ok'')) q, u)),
     pe_dial_error = (\<lambda>i url e u. u), pe_parse_time = (\<lambda>s. None)\<rparr>"

definition sample_pool_world :: "(nat, unit, nat, unit) pool_world" where
  "sample_pool_world = \<lparr>pw_lease = sample_world, pw_svc = refresh_new refresh_default_config, pw_idp = 0, pw_up = ()\<rparr>"

definition sample_request :: post_request where
  "sample_request = \<lparr>pq_model = ''m'', pq_conv_id = ''k'', pq_body = ''{}'', pq_stream = False, pq_idempotency_key = ''i''\<rparr>"

theorem request_leaks_no_lease_witness:
  "pool_count (fst (snd (exec_post (manager_env (sample_pool_env (Inr 200))) 0 sample_request (sample_pool_world, 0)))) ''b'' = 1 \<and>
   pool_count (fst (snd (exec_post (manager_env (sample_pool_env (Inl ''refused''))) 0 sample_request (sample_pool_world, 0)))) ''b'' = 0"
proof -
  have c: "\<not> hi_closed (lw_idx sample_world)" by code_simp
  have rdy: "pool_ready (sample_pool_env q) (hi_max_inflight (lw_idx sample_world)) sample_pool_world" for q
    using sample_env_ok sample_world_ok c
    by (simp add: pool_ready_def lease_ready_def sample_pool_env_def sample_pool_world_def sample_call_def)
  have n: "pool_count sample_pool_world = (\<lambda>i. 0)"
    by (simp add: fun_eq_iff pool_count_def sample_pool_world_def world_inflight_def sample_inflight)
  let ?r = "\<lambda>q. exec_post (manager_env (sample_pool_env q)) 0 sample_request (sample_pool_world, 0)"
  obtain r s m r' s' m' where e: "?r (Inr 200) = (r, s, m)" "?r (Inl ''refused'') = (r', s', m')" by (metis prod.exhaust)
  have "case fst (?r (Inr 200)) of Inl e \<Rightarrow> False | Inr resp \<Rightarrow> map_option ls_account_id (rp_on_close resp) = Some ''b''" by code_simp
  moreover have "case fst (?r (Inl ''refused'')) of Inl e \<Rightarrow> True | Inr resp \<Rightarrow> False" by code_simp
  ultimately obtain q e' l where q: "r = Inr q" "rp_on_close q = Some l" "ls_account_id l = ''b''" "r' = Inl e'"
    using e by (auto split: sum.splits)
  show ?thesis
    using request_leaks_no_lease [OF rdy _ e(1)] request_leaks_no_lease [OF rdy _ e(2)] q e n by simp
qed

text \<open>
  A request served by a worker leaks no slot of the shared in-flight counts of the cluster
  either: it takes at most the configured number of leases, gives back each that does not end in a
  2xx response, and the close of that response gives back the last.
\<close>

theorem worker_request_leaks_no_lease:
  assumes "wk_ready cap (sw_pool s)" "\<And>j. 0 \<le> cluster_count (sw_pool s) j \<and> cluster_count (sw_pool s) j + 1 < 2 ^ 63 - 2"
    "exec_post (worker_exec_env env) n rq (s, m) = (r, s', m')"
  shows "wk_ready cap (sw_pool s') \<and> m \<le> m' \<and> m' \<le> m + int (post_max_attempts n) \<and>
    (case r of
       Inl e \<Rightarrow> cluster_count (sw_pool s') = cluster_count (sw_pool s)
     | Inr resp \<Rightarrow>
         (case rp_on_close resp of
            None \<Rightarrow> \<not> is_success (rp_status resp) \<and> cluster_count (sw_pool s') = cluster_count (sw_pool s)
          | Some l \<Rightarrow> is_success (rp_status resp) \<and> cluster_count (sw_pool s') =
              (cluster_count (sw_pool s))(ls_account_id l := cluster_count (sw_pool s) (ls_account_id l) + 1)) \<and>
         cluster_count (sw_pool (snd (close_body (worker_exec_env env) k resp s'))) = cluster_count (sw_pool s))"
  using worker_post.post_accounts [of cap s env n rq m r s' m' k] assms post_count [OF assms(3)]
  by simp

definition sample_serve_env :: "int \<Rightarrow> (nat, unit) serve_env" where
  "sample_serve_env status = \<lparr>se_worker = sample_worker_env, se_gone = (\<lambda>k. False), se_now = (\<lambda>k. 20000000000),
     se_client = (\<lambda>l. None), se_post = (\<lambda>l rq u. (Inr (status, [], ''ok''), u)),
     se_dial_error = (\<lambda>i url e u. u), se_parse_time = (\<lambda>s. None)\<rparr>"

definition sample_serve_world :: "(nat, unit) serve_world" where
  "sample_serve_world = \<lparr>sw_pool = sample_worker, sw_up = ()\<rparr>"

theorem worker_request_leaks_no_lease_witness:
  "cluster_count (sw_pool (fst (snd (exec_post (worker_exec_env (sample_serve_env 200)) 2 sample_request (sample_serve_world, 0))))) ''b'' = 1"
proof -
  let ?r = "exec_post (worker_exec_env (sample_serve_env 200)) 2 sample_request (sample_serve_world, 0)"
  have rdy: "wk_ready 1 (sw_pool sample_serve_world)" "cluster_count (sw_pool sample_serve_world) i = 0" for i
    using sample_worker_ready sample_worker_count by (simp_all add: sample_serve_world_def)
  obtain r s m where e: "?r = (r, s, m)" by (metis prod.exhaust)
  have "case fst ?r of Inl e \<Rightarrow> False | Inr resp \<Rightarrow> map_option ls_account_id (rp_on_close resp) = Some ''b''" by code_simp
  then obtain q l where q: "r = Inr q" "rp_on_close q = Some l" "ls_account_id l = ''b''"
    using e by (auto split: sum.splits)
  show ?thesis using worker_request_leaks_no_lease [OF rdy(1) _ e] q e rdy(2) by simp
qed



end
