(* ===== verification/ProxyPool.thy ===== *)
theory ProxyPool
  imports LeaseProps
begin

text \<open>
  The pool of outbound proxies (\<open>internal/proxypool\<close>): nodes with their health, kept in a file,
  from which an account without a proxy is given one.

  Parameters: \<open>parse_url\<close> is \<open>url.Parse\<close> (scheme and host, or an error), \<open>sha\<close> is SHA-256 as a
  list of bytes. The file is its document; \<open>ok\<close> says whether a write of it (into a temporary file
  that is then renamed) succeeds. \<open>now\<close> is the clock in seconds.
\<close>

section \<open>Nodes and their file\<close>

record proxy_node =
  pn_id :: string
  pn_url :: string
  pn_enabled :: bool
  pn_weight :: int
  pn_fail_count :: int
  pn_cooldown_until :: int
  pn_last_error :: string
  pn_assigned_accounts :: int

record proxy_pool =
  pl_nodes :: "proxy_node list"
  pl_file :: "proxy_node list option"

datatype proxy_error =
  PxEmptyPath | PxRead | PxParse | PxBadURL | PxScheme string | PxNoHost | PxDuplicate string | PxWrite

text \<open>What reading the file gives.\<close>

datatype pool_file = FileMissing | FileUnreadable | FileMalformed | FileNodes "proxy_node list"

definition short_id :: "(string \<Rightarrow> nat list) \<Rightarrow> string \<Rightarrow> string" where
  "short_id sha s = ''p_'' @ concat (map hex_byte (take 4 (sha s)))"

definition normalize_node :: "(string \<Rightarrow> nat list) \<Rightarrow> proxy_node \<Rightarrow> proxy_node" where
  "normalize_node sha n =
     (let n1 = n\<lparr>pn_id := trim_space (pn_id n), pn_url := trim_space (pn_url n),
                pn_weight := (if pn_weight n \<le> 0 then 1 else pn_weight n)\<rparr> in
      if pn_id n1 = [] \<and> pn_url n1 \<noteq> [] then n1\<lparr>pn_id := short_id sha (pn_url n1)\<rparr> else n1)"

definition pool_open :: "(string \<Rightarrow> nat list) \<Rightarrow> string \<Rightarrow> pool_file \<Rightarrow> proxy_error + proxy_pool" where
  "pool_open sha path f =
     (if trim_space path = [] then Inl PxEmptyPath
      else case f of
        FileMissing \<Rightarrow> Inr \<lparr>pl_nodes = [], pl_file = None\<rparr>
      | FileUnreadable \<Rightarrow> Inl PxRead
      | FileMalformed \<Rightarrow> Inl PxParse
      | FileNodes ns \<Rightarrow> Inr \<lparr>pl_nodes = map (normalize_node sha) ns, pl_file = Some ns\<rparr>)"

definition pool_persist :: "bool \<Rightarrow> proxy_pool \<Rightarrow> proxy_error option \<times> proxy_pool" where
  "pool_persist ok p = (if ok then (None, p\<lparr>pl_file := Some (pl_nodes p)\<rparr>) else (Some PxWrite, p))"

section \<open>URLs\<close>

type_synonym url_parser = "string \<Rightarrow> (string \<times> string) option"

definition validate_url :: "url_parser \<Rightarrow> string \<Rightarrow> proxy_error option" where
  "validate_url parse_url raw =
     (case parse_url (trim_space raw) of
        None \<Rightarrow> Some PxBadURL
      | Some (scheme, host) \<Rightarrow>
          if to_lower scheme \<notin> {''http'', ''https'', ''socks5'', ''socks5h''} then Some (PxScheme scheme)
          else if host = [] then Some PxNoHost
          else None)"

definition mode_from_url :: "url_parser \<Rightarrow> string \<Rightarrow> string" where
  "mode_from_url parse_url raw =
     (case parse_url (trim_space raw) of
        None \<Rightarrow> []
      | Some (scheme, host) \<Rightarrow>
          if scheme = [] then []
          else if to_lower scheme \<in> {''socks5'', ''socks5h''} then ''socks5''
          else if to_lower scheme = ''https'' then ''https''
          else ''http'')"

section \<open>Replacing the list\<close>

text \<open>A node that was there before, with the same id and URL, keeps its health.\<close>

definition keep_health :: "proxy_node list \<Rightarrow> proxy_node \<Rightarrow> proxy_node" where
  "keep_health old n =
     (case find (\<lambda>m. pn_id m = pn_id n \<and> pn_url m = pn_url n) old of
        None \<Rightarrow> n
      | Some m \<Rightarrow> n\<lparr>pn_fail_count := pn_fail_count m, pn_cooldown_until := pn_cooldown_until m,
                    pn_last_error := pn_last_error m, pn_assigned_accounts := pn_assigned_accounts m\<rparr>)"

fun replace_loop ::
  "(string \<Rightarrow> nat list) \<Rightarrow> url_parser \<Rightarrow> proxy_node list \<Rightarrow> string list \<Rightarrow> proxy_node list \<Rightarrow> proxy_node list
   \<Rightarrow> proxy_error + proxy_node list" where
  "replace_loop sha parse_url old seen clean [] = Inr clean"
| "replace_loop sha parse_url old seen clean (n0 # ns) =
     (let n1 = normalize_node sha n0 in
      if pn_url n1 = [] then replace_loop sha parse_url old seen clean ns
      else case validate_url parse_url (pn_url n1) of
        Some e \<Rightarrow> Inl e
      | None \<Rightarrow>
          let n2 = (if pn_id n1 = [] then n1\<lparr>pn_id := short_id sha (pn_url n1)\<rparr> else n1) in
          if pn_id n2 \<in> set seen then Inl (PxDuplicate (pn_id n2))
          else replace_loop sha parse_url old (pn_id n2 # seen) (clean @ [keep_health old n2]) ns)"

definition pool_replace_all ::
  "(string \<Rightarrow> nat list) \<Rightarrow> url_parser \<Rightarrow> bool \<Rightarrow> proxy_node list \<Rightarrow> proxy_pool \<Rightarrow> proxy_error option \<times> proxy_pool" where
  "pool_replace_all sha parse_url ok ns p =
     (case replace_loop sha parse_url (pl_nodes p) [] [] ns of
        Inl e \<Rightarrow> (Some e, p)
      | Inr clean \<Rightarrow> pool_persist ok (p\<lparr>pl_nodes := clean\<rparr>))"

section \<open>Picking a node\<close>

definition node_healthy :: "int \<Rightarrow> proxy_node \<Rightarrow> bool" where
  "node_healthy now n \<longleftrightarrow> \<not> (\<not> pn_enabled n \<or> pn_url n = []) \<and> \<not> pn_cooldown_until n > now"

text \<open>The positions of the nodes that can be assigned.\<close>

definition healthy_idxs :: "int \<Rightarrow> proxy_node list \<Rightarrow> nat list" where
  "healthy_idxs now ns = filter (\<lambda>i. node_healthy now (ns ! i)) [0..<length ns]"

definition healthy_count :: "int \<Rightarrow> proxy_pool \<Rightarrow> int" where
  "healthy_count now p = int (length (healthy_idxs now (pl_nodes p)))"

fun least_loop :: "proxy_node list \<Rightarrow> nat list \<Rightarrow> nat \<Rightarrow> int \<Rightarrow> nat" where
  "least_loop ns [] pick best = pick"
| "least_loop ns (i # idxs) pick best =
     (if pn_assigned_accounts (ns ! i) < best then least_loop ns idxs i (pn_assigned_accounts (ns ! i))
      else least_loop ns idxs pick best)"

text \<open>\<open>binary.BigEndian.Uint64\<close>.\<close>

definition big_endian :: "nat list \<Rightarrow> nat" where
  "big_endian bs = foldl (\<lambda>n b. n * 256 + b) 0 (take 8 bs)"

definition pick_index :: "(string \<Rightarrow> nat list) \<Rightarrow> string \<Rightarrow> string \<Rightarrow> nat list \<Rightarrow> proxy_node list \<Rightarrow> nat" where
  "pick_index sha account mode idxs ns =
     (if mode = ''least_accounts''
      then least_loop ns (tl idxs) (hd idxs) (pn_assigned_accounts (ns ! hd idxs))
      else idxs ! (big_endian (sha account) mod length idxs))"

definition pool_pick ::
  "(string \<Rightarrow> nat list) \<Rightarrow> url_parser \<Rightarrow> bool \<Rightarrow> int \<Rightarrow> string \<Rightarrow> string \<Rightarrow> proxy_pool
   \<Rightarrow> (string \<times> string) option \<times> proxy_pool" where
  "pool_pick sha parse_url ok now account mode p =
     (let account = trim_space account; mode = to_lower (trim_space mode);
          mode = (if mode = [] then ''hash'' else mode);
          idxs = healthy_idxs now (pl_nodes p) in
      if idxs = [] then (None, p)
      else let k = pick_index sha account mode idxs (pl_nodes p);
               node = pl_nodes p ! k;
               node = node\<lparr>pn_assigned_accounts := pn_assigned_accounts node + 1\<rparr>;
               (e, p') = pool_persist ok (p\<lparr>pl_nodes := (pl_nodes p)[k := node]\<rparr>) in
           (Some (pn_url node, mode_from_url parse_url (pn_url node)), p'))"

section \<open>Health\<close>

fun update_first :: "string \<Rightarrow> (proxy_node \<Rightarrow> proxy_node) \<Rightarrow> proxy_node list \<Rightarrow> proxy_node list option" where
  "update_first url f [] = None"
| "update_first url f (n # ns) =
     (if pn_url n \<noteq> url then map_option ((#) n) (update_first url f ns) else Some (f n # ns))"

definition failed_node :: "int \<Rightarrow> string \<Rightarrow> proxy_node \<Rightarrow> proxy_node" where
  "failed_node now err n =
     (let fc = pn_fail_count n + 1;
          e = fc - 1; e = (if e < 0 then 0 else e); e = (if e > 4 then 4 else e);
          sec = shl64 30 (nat e); sec = (if sec > 900 then 900 else sec) in
      n\<lparr>pn_fail_count := fc, pn_cooldown_until := now + sec, pn_last_error := trim_space err\<rparr>)"

definition recovered_node :: "proxy_node \<Rightarrow> proxy_node" where
  "recovered_node n =
     (let fc = (if pn_fail_count n > 0 then pn_fail_count n - 1 else pn_fail_count n) in
      n\<lparr>pn_fail_count := fc, pn_cooldown_until := (if fc = 0 then 0 else pn_cooldown_until n), pn_last_error := []\<rparr>)"

definition mark_node :: "bool \<Rightarrow> string \<Rightarrow> (proxy_node \<Rightarrow> proxy_node) \<Rightarrow> proxy_pool \<Rightarrow> proxy_pool" where
  "mark_node ok url f p =
     (let url = trim_space url in
      if url = [] then p
      else case update_first url f (pl_nodes p) of
        None \<Rightarrow> p
      | Some ns \<Rightarrow> snd (pool_persist ok (p\<lparr>pl_nodes := ns\<rparr>)))"

definition mark_fail :: "bool \<Rightarrow> int \<Rightarrow> string \<Rightarrow> string \<Rightarrow> proxy_pool \<Rightarrow> proxy_pool" where
  "mark_fail ok now url err p = mark_node ok url (failed_node now err) p"

definition mark_ok :: "bool \<Rightarrow> string \<Rightarrow> proxy_pool \<Rightarrow> proxy_pool" where
  "mark_ok ok url p = mark_node ok url recovered_node p"

section \<open>What every pool keeps\<close>

definition node_ok :: "(string \<Rightarrow> nat list) \<Rightarrow> url_parser \<Rightarrow> proxy_node \<Rightarrow> bool" where
  "node_ok sha parse_url n \<longleftrightarrow> normalize_node sha n = n \<and> pn_url n \<noteq> [] \<and> validate_url parse_url (pn_url n) = None"

definition nodes_ok :: "(string \<Rightarrow> nat list) \<Rightarrow> url_parser \<Rightarrow> proxy_node list \<Rightarrow> bool" where
  "nodes_ok sha parse_url ns \<longleftrightarrow> (\<forall>n \<in> set ns. node_ok sha parse_url n) \<and> distinct (map pn_id ns)"

definition pool_ok :: "(string \<Rightarrow> nat list) \<Rightarrow> url_parser \<Rightarrow> proxy_pool \<Rightarrow> bool" where
  "pool_ok sha parse_url p \<longleftrightarrow> nodes_ok sha parse_url (pl_nodes p) \<and>
     (case pl_file p of None \<Rightarrow> True | Some ns \<Rightarrow> nodes_ok sha parse_url ns)"

definition file_of :: "proxy_pool \<Rightarrow> pool_file" where
  "file_of p = (case pl_file p of None \<Rightarrow> FileMissing | Some ns \<Rightarrow> FileNodes ns)"

text \<open>The states a pool can reach, a restart on its own file included.\<close>

inductive pool_reach :: "(string \<Rightarrow> nat list) \<Rightarrow> url_parser \<Rightarrow> proxy_pool \<Rightarrow> bool" for sha parse_url where
  Reach_Empty: "pool_open sha path FileMissing = Inr p \<Longrightarrow> pool_reach sha parse_url p"
| Reach_Replace: "pool_reach sha parse_url p \<Longrightarrow> pool_reach sha parse_url (snd (pool_replace_all sha parse_url ok ns p))"
| Reach_Pick: "pool_reach sha parse_url p \<Longrightarrow> pool_reach sha parse_url (snd (pool_pick sha parse_url ok now account mode p))"
| Reach_Fail: "pool_reach sha parse_url p \<Longrightarrow> pool_reach sha parse_url (mark_fail ok now url err p)"
| Reach_Ok: "pool_reach sha parse_url p \<Longrightarrow> pool_reach sha parse_url (mark_ok ok url p)"
| Reach_Reopen: "pool_reach sha parse_url p \<Longrightarrow> pool_open sha path (file_of p) = Inr p' \<Longrightarrow> pool_reach sha parse_url p'"

lemma trim_short_id: "trim_space (short_id sha s) = short_id sha s"
proof (rule trim_space_visible)
  have "list_all visible_char ''p_''" by code_simp
  then show "set (short_id sha s) \<subseteq> Collect visible_char"
    using hex_byte_visible by (auto simp: short_id_def)
qed (simp add: short_id_def)

lemma normalize_idem [simp]: "normalize_node sha (normalize_node sha n) = normalize_node sha n"
  by (simp add: normalize_node_def Let_def trim_space_idem trim_short_id)

lemma normalize_id: "pn_url (normalize_node sha n) \<noteq> [] \<Longrightarrow> pn_id (normalize_node sha n) \<noteq> []"
  by (auto simp: normalize_node_def Let_def short_id_def split: if_splits)

lemma node_ok_health [simp]:
  "node_ok sha parse_url (n\<lparr>pn_assigned_accounts := c\<rparr>) = node_ok sha parse_url n"
  "node_ok sha parse_url (n\<lparr>pn_fail_count := f, pn_cooldown_until := t, pn_last_error := e\<rparr>) = node_ok sha parse_url n"
  "node_ok sha parse_url (n\<lparr>pn_fail_count := f, pn_cooldown_until := t, pn_last_error := e, pn_assigned_accounts := c\<rparr>) =
    node_ok sha parse_url n"
  by (cases n; simp add: node_ok_def normalize_node_def Let_def split: if_split; blast)+

lemma keep_health_id [simp]: "pn_id (keep_health old n) = pn_id n"
  by (simp add: keep_health_def split: option.split)

lemma keep_health_ok [simp]: "node_ok sha parse_url (keep_health old n) = node_ok sha parse_url n"
  by (simp add: keep_health_def split: option.split)

lemma replace_loop_ok:
  "replace_loop sha parse_url old seen clean ns = Inr out \<Longrightarrow> nodes_ok sha parse_url clean \<Longrightarrow> set seen = pn_id ` set clean
    \<Longrightarrow> nodes_ok sha parse_url out"
proof (induction sha parse_url old seen clean ns rule: replace_loop.induct)
  case (2 sha parse_url old seen clean n0 ns)
  let ?n = "normalize_node sha n0"
  show ?case
  proof (cases "pn_url ?n = []")
    case True
    then show ?thesis using 2 by simp
  next
    case False
    note id = normalize_id [OF False]
    then show ?thesis using 2 False
      by (auto simp: Let_def nodes_ok_def node_ok_def [of _ _ ?n] split: option.splits if_splits)
  qed
qed simp

lemma update_first_Some:
  "update_first url f ns = Some ns' \<Longrightarrow> \<exists>k < length ns. pn_url (ns ! k) = url \<and> (\<forall>j < k. pn_url (ns ! j) \<noteq> url) \<and>
    ns' = ns[k := f (ns ! k)]"
proof (induction ns arbitrary: ns')
  case (Cons n ns)
  show ?case
  proof (cases "pn_url n = url")
    case True
    then show ?thesis using Cons.prems by (intro exI [of _ 0]) auto
  next
    case False
    then obtain ms where "update_first url f ns = Some ms" "ns' = n # ms" using Cons.prems by auto
    then obtain k where "k < length ns" "pn_url (ns ! k) = url" "\<forall>j < k. pn_url (ns ! j) \<noteq> url" "ns' = n # ns[k := f (ns ! k)]"
      using Cons.IH by blast
    then show ?thesis using False by (intro exI [of _ "Suc k"]) (auto simp: less_Suc_eq_0_disj)
  qed
qed simp

lemma update_first_None: "update_first url f ns = None \<longleftrightarrow> url \<notin> pn_url ` set ns"
  by (induction ns) auto

lemma nodes_ok_update:
  assumes "nodes_ok sha parse_url ns" "k < length ns" "pn_id m = pn_id (ns ! k)" "node_ok sha parse_url m"
  shows "nodes_ok sha parse_url (ns[k := m])"
proof -
  have "map pn_id (ns[k := m]) = map pn_id ns" using assms(2,3) by (simp add: map_update list_update_same_conv)
  then show ?thesis using assms by (auto simp: nodes_ok_def dest!: set_update_subset_insert [THEN subsetD])
qed

lemma persist_ok: "nodes_ok sha parse_url (pl_nodes p) \<Longrightarrow> pool_ok sha parse_url p \<Longrightarrow> pool_ok sha parse_url (snd (pool_persist ok p))"
  by (simp add: pool_persist_def pool_ok_def)

lemma pool_ok_nodes: "pool_ok sha parse_url p \<Longrightarrow> nodes_ok sha parse_url ns \<Longrightarrow>
    pool_ok sha parse_url (snd (pool_persist ok (p\<lparr>pl_nodes := ns\<rparr>)))"
  by (simp add: pool_persist_def pool_ok_def)

lemma mark_node_ok:
  assumes "pool_ok sha parse_url p" "\<And>n. pn_id (f n) = pn_id n" "\<And>n. node_ok sha parse_url n \<Longrightarrow> node_ok sha parse_url (f n)"
  shows "pool_ok sha parse_url (mark_node ok url f p)"
proof -
  have n: "nodes_ok sha parse_url (pl_nodes p)" using assms(1) by (simp add: pool_ok_def)
  have "nodes_ok sha parse_url ns" if "update_first u f (pl_nodes p) = Some ns" for u ns
  proof -
    from update_first_Some [OF that] obtain k where k: "k < length (pl_nodes p)" "ns = (pl_nodes p)[k := f (pl_nodes p ! k)]" by blast
    have "node_ok sha parse_url (pl_nodes p ! k)" using n k(1) by (simp add: nodes_ok_def)
    from nodes_ok_update [OF n k(1) assms(2) assms(3) [OF this]] show ?thesis using k(2) by simp
  qed
  then show ?thesis
    using assms(1) pool_ok_nodes by (cases "update_first (trim_space url) f (pl_nodes p)") (auto simp: mark_node_def Let_def)
qed

lemma least_loop_in: "least_loop ns idxs pick best \<in> insert pick (set idxs)"
  by (induction ns idxs pick best rule: least_loop.induct) auto

lemma pick_index_in: "idxs \<noteq> [] \<Longrightarrow> pick_index sha account mode idxs ns \<in> set idxs"
  using least_loop_in [of ns "tl idxs" "hd idxs"] nth_mem [of "big_endian (sha account) mod length idxs" idxs]
  by (cases idxs) (auto simp: pick_index_def simp del: nth_mem)

lemma healthy_idxs_iff: "k \<in> set (healthy_idxs now ns) \<longleftrightarrow> k < length ns \<and> node_healthy now (ns ! k)"
  by (simp add: healthy_idxs_def)

text \<open>The node that a pick takes, if any.\<close>

definition assign_mode :: "string \<Rightarrow> string" where
  "assign_mode mode = (let m = to_lower (trim_space mode) in if m = [] then ''hash'' else m)"

definition picked :: "(string \<Rightarrow> nat list) \<Rightarrow> int \<Rightarrow> string \<Rightarrow> string \<Rightarrow> proxy_node list \<Rightarrow> nat option" where
  "picked sha now account mode ns =
     (let idxs = healthy_idxs now ns in
      if idxs = [] then None else Some (pick_index sha (trim_space account) (assign_mode mode) idxs ns))"

definition count_one :: "nat \<Rightarrow> proxy_node list \<Rightarrow> proxy_node list" where
  "count_one k ns = ns[k := (ns ! k)\<lparr>pn_assigned_accounts := pn_assigned_accounts (ns ! k) + 1\<rparr>]"

lemma pool_pick_picked:
  "pool_pick sha parse_url ok now account mode p =
    (case picked sha now account mode (pl_nodes p) of
       None \<Rightarrow> (None, p)
     | Some k \<Rightarrow> (Some (pn_url (pl_nodes p ! k), mode_from_url parse_url (pn_url (pl_nodes p ! k))),
         snd (pool_persist ok (p\<lparr>pl_nodes := count_one k (pl_nodes p)\<rparr>))))"
  by (simp add: pool_pick_def picked_def assign_mode_def count_one_def Let_def split: prod.split)

lemma picked_Some: "picked sha now account mode ns = Some k \<Longrightarrow> k < length ns \<and> node_healthy now (ns ! k)"
  using pick_index_in [of "healthy_idxs now ns" sha "trim_space account" "assign_mode mode" ns] healthy_idxs_iff [of k now ns]
  by (auto simp: picked_def Let_def split: if_splits)

lemma persist_nodes [simp]: "pl_nodes (snd (pool_persist ok p)) = pl_nodes p"
  by (simp add: pool_persist_def)

lemma pick_ok: "pool_ok sha parse_url p \<Longrightarrow> pool_ok sha parse_url (snd (pool_pick sha parse_url ok now account mode p))"
proof -
  assume p: "pool_ok sha parse_url p"
  have "nodes_ok sha parse_url (count_one k (pl_nodes p))" if "k < length (pl_nodes p)" for k
    unfolding count_one_def using p that by (intro nodes_ok_update) (auto simp: pool_ok_def nodes_ok_def)
  then show ?thesis using p picked_Some [of sha now account mode "pl_nodes p"]
    by (auto simp: pool_pick_picked split: option.split intro!: pool_ok_nodes)
qed

lemma open_ok:
  assumes "pool_ok sha parse_url p" "pool_open sha path (file_of p) = Inr p'"
  shows "pool_ok sha parse_url p'"
proof (cases "pl_file p")
  case None
  then show ?thesis using assms by (auto simp: pool_open_def file_of_def pool_ok_def nodes_ok_def split: if_splits)
next
  case (Some ns)
  then have "nodes_ok sha parse_url ns" using assms(1) by (simp add: pool_ok_def)
  then have "map (normalize_node sha) ns = ns" by (intro map_idI) (simp add: nodes_ok_def node_ok_def)
  then show ?thesis using assms Some by (auto simp: pool_open_def file_of_def pool_ok_def split: if_splits)
qed

lemma pool_reach_ok: "pool_reach sha parse_url p \<Longrightarrow> pool_ok sha parse_url p"
proof (induction rule: pool_reach.induct)
  case (Reach_Empty path p)
  then show ?case by (auto simp: pool_open_def pool_ok_def nodes_ok_def split: if_splits)
next
  case (Reach_Replace p ok ns)
  have "nodes_ok sha parse_url out" if "replace_loop sha parse_url (pl_nodes p) [] [] ns = Inr out" for out
    using replace_loop_ok [OF that] by (simp add: nodes_ok_def)
  then show ?case using Reach_Replace.IH pool_ok_nodes
    by (auto simp: pool_replace_all_def split: sum.split)
next
  case (Reach_Pick p ok now account mode)
  then show ?case by (intro pick_ok)
next
  case (Reach_Fail p ok now url err)
  show ?case unfolding mark_fail_def
    by (rule mark_node_ok [OF Reach_Fail.IH]) (simp_all add: failed_node_def Let_def)
next
  case (Reach_Ok p ok url)
  show ?case unfolding mark_ok_def
    by (rule mark_node_ok [OF Reach_Ok.IH]) (simp_all add: recovered_node_def Let_def)
next
  case (Reach_Reopen p path p')
  show ?case by (rule open_ok [OF Reach_Reopen.IH Reach_Reopen.hyps(2)])
qed

definition sample_node :: "string \<Rightarrow> string \<Rightarrow> proxy_node" where
  "sample_node i url = \<lparr>pn_id = i, pn_url = url, pn_enabled = True, pn_weight = 1, pn_fail_count = 0, pn_cooldown_until = 0,
     pn_last_error = [], pn_assigned_accounts = 0\<rparr>"

definition sample_sha :: "string \<Rightarrow> nat list" where
  "sample_sha s = replicate 7 0 @ [length s] @ replicate 24 0"

definition sample_parse :: url_parser where
  "sample_parse s = (if has_prefix s ''http://'' then Some (''http'', drop 7 s) else None)"

definition sample_pool :: proxy_pool where
  "sample_pool = snd (pool_replace_all sample_sha sample_parse True
     [sample_node [] '' http://a '', sample_node ''n2'' ''http://b'', sample_node ''n3'' ''http://a'']
     \<lparr>pl_nodes = [], pl_file = None\<rparr>)"

lemma sample_pool_reach: "pool_reach sample_sha sample_parse sample_pool"
  unfolding sample_pool_def
  by (intro Reach_Replace Reach_Empty [where path = "''p''"]) (simp add: pool_open_def trim_space_visible visible_char_def less_eq_char_def)



section \<open>Who gets which node\<close>

fun pool_picks ::
  "(string \<Rightarrow> nat list) \<Rightarrow> url_parser \<Rightarrow> (bool \<times> int \<times> string \<times> string) list \<Rightarrow> proxy_pool \<Rightarrow> proxy_pool" where
  "pool_picks sha parse_url [] p = p"
| "pool_picks sha parse_url ((ok, now, account, mode) # es) p =
     pool_picks sha parse_url es (snd (pool_pick sha parse_url ok now account mode p))"

lemma count_one_same [simp]:
  "length (count_one k ns) = length ns"
  "map pn_url (count_one k ns) = map pn_url ns"
  "healthy_idxs now (count_one k ns) = healthy_idxs now ns"
proof -
  show "length (count_one k ns) = length ns" by (simp add: count_one_def)
  show "map pn_url (count_one k ns) = map pn_url ns"
    by (cases "k < length ns") (simp_all add: count_one_def map_update list_update_same_conv list_update_beyond)
  have "node_healthy now (count_one k ns ! i) = node_healthy now (ns ! i)" if "i < length ns" for i
    using that by (cases "i = k") (simp_all add: count_one_def node_healthy_def)
  then show "healthy_idxs now (count_one k ns) = healthy_idxs now ns"
    unfolding healthy_idxs_def by (intro filter_cong) (simp_all add: count_one_def)
qed

lemma pick_same:
  assumes "snd (pool_pick sha parse_url ok now account mode p) = p'"
  shows "map pn_url (pl_nodes p') = map pn_url (pl_nodes p) \<and> healthy_idxs t (pl_nodes p') = healthy_idxs t (pl_nodes p)"
  using assms by (auto simp: pool_pick_picked split: option.splits)

lemma picks_same:
  "map pn_url (pl_nodes (pool_picks sha parse_url es p)) = map pn_url (pl_nodes p) \<and>
   healthy_idxs t (pl_nodes (pool_picks sha parse_url es p)) = healthy_idxs t (pl_nodes p)"
  by (induction sha parse_url es p rule: pool_picks.induct) (simp_all add: pick_same)

lemma pick_hash_eq:
  assumes "map pn_url (pl_nodes p) = map pn_url (pl_nodes q)" "healthy_idxs t (pl_nodes p) = healthy_idxs t' (pl_nodes q)"
    "assign_mode mode \<noteq> ''least_accounts''"
  shows "fst (pool_pick sha parse_url ok t account mode p) = fst (pool_pick sha parse_url ok' t' account mode q)"
proof -
  have k: "picked sha t account mode (pl_nodes p) = picked sha t' account mode (pl_nodes q)"
    using assms(2,3) by (simp add: picked_def pick_index_def Let_def)
  show ?thesis
  proof (cases "picked sha t account mode (pl_nodes p)")
    case None
    then show ?thesis using k by (simp add: pool_pick_picked)
  next
    case (Some i)
    then have "i < length (pl_nodes p)" "i < length (pl_nodes q)" using k picked_Some by metis+
    then have "pn_url (pl_nodes p ! i) = pn_url (pl_nodes q ! i)" using assms(1) by (metis nth_map)
    then show ?thesis using k Some k [unfolded Some, symmetric] by (simp add: pool_pick_picked)
  qed
qed

text \<open>
  Picking is safe and, by hash, stable: a pick gives a healthy node and counts one account more on
  it and nothing else, and gives none exactly when none is healthy. With the hash mode, the same account is given
  the same node again after any picks for other accounts, as long as the same nodes are healthy.
\<close>

theorem pool_pick_stable:
  assumes "pool_pick sha parse_url ok now account mode p = (r, p')"
  shows "(r = None \<longleftrightarrow> (\<forall>n \<in> set (pl_nodes p). \<not> node_healthy now n)) \<and> (r = None \<longrightarrow> p' = p) \<and>
    (\<forall>u md. r = Some (u, md) \<longrightarrow> (\<exists>k < length (pl_nodes p). node_healthy now (pl_nodes p ! k) \<and> u = pn_url (pl_nodes p ! k) \<and>
       md = mode_from_url parse_url u \<and> pl_nodes p' = count_one k (pl_nodes p))) \<and>
    (assign_mode mode \<noteq> ''least_accounts'' \<and> healthy_idxs t (pl_nodes p) = healthy_idxs now (pl_nodes p) \<longrightarrow>
       fst (pool_pick sha parse_url ok' t account mode (pool_picks sha parse_url es p')) = r)"
proof -
  have h: "picked sha now account mode (pl_nodes p) = None \<longleftrightarrow> (\<forall>n \<in> set (pl_nodes p). \<not> node_healthy now n)"
    by (simp add: picked_def healthy_idxs_def Let_def filter_empty_conv all_set_conv_all_nth) auto
  have p': "map pn_url (pl_nodes p') = map pn_url (pl_nodes p)" "healthy_idxs t (pl_nodes p') = healthy_idxs t (pl_nodes p)"
    using pick_same [of sha parse_url ok now account mode p p' t] assms by simp_all
  have "fst (pool_pick sha parse_url ok' t account mode (pool_picks sha parse_url es p')) = r"
    if "assign_mode mode \<noteq> ''least_accounts''" "healthy_idxs t (pl_nodes p) = healthy_idxs now (pl_nodes p)"
    using pick_hash_eq [OF _ _ that(1), of "pool_picks sha parse_url es p'" p t now sha parse_url ok' account ok]
      picks_same [of sha parse_url es p' t] p' that(2) assms by simp
  then show ?thesis using assms h picked_Some [of sha now account mode "pl_nodes p"]
    by (auto simp: pool_pick_picked split: option.splits)
qed

theorem pool_pick_stable_witness:
  "fst (pool_pick sample_sha sample_parse True 9 ''acct'' [] (pool_picks sample_sha sample_parse
     [(True, 5, ''x'', ''least_accounts''), (False, 6, ''y'', [])] (snd (pool_pick sample_sha sample_parse True 4 ''acct'' [] sample_pool)))) =
   Some (''http://b'', ''http'')"
proof -
  have "fst (pool_pick sample_sha sample_parse True 4 ''acct'' [] sample_pool) = Some (''http://b'', ''http'')"
    "assign_mode [] \<noteq> ''least_accounts''" "healthy_idxs 9 (pl_nodes sample_pool) = healthy_idxs 4 (pl_nodes sample_pool)"
    by code_simp+
  then show ?thesis
    using pool_pick_stable [of sample_sha sample_parse True 4 "''acct''" "[]" sample_pool _ _ 9, OF prod.collapse [symmetric]]
    by (simp del: pool_picks.simps)
qed

section \<open>Balance\<close>

definition spread_ok :: "proxy_node list \<Rightarrow> bool" where
  "spread_ok ns \<longleftrightarrow> (\<forall>m \<in> set ns. \<forall>n \<in> set ns. pn_assigned_accounts m \<le> pn_assigned_accounts n + 1)"

definition assigned_total :: "proxy_node list \<Rightarrow> int" where
  "assigned_total ns = sum_list (map pn_assigned_accounts ns)"

lemma least_loop_min:
  "best = pn_assigned_accounts (ns ! pick) \<Longrightarrow>
    pn_assigned_accounts (ns ! least_loop ns idxs pick best) \<le> best \<and>
    (\<forall>i \<in> set idxs. pn_assigned_accounts (ns ! least_loop ns idxs pick best) \<le> pn_assigned_accounts (ns ! i))"
  by (induction ns idxs pick best rule: least_loop.induct) (fastforce split: if_splits)+

lemma picked_least:
  assumes "picked sha now account mode ns = Some k" "assign_mode mode = ''least_accounts''"
    "i < length ns" "node_healthy now (ns ! i)"
  shows "pn_assigned_accounts (ns ! k) \<le> pn_assigned_accounts (ns ! i)"
proof -
  let ?is = "healthy_idxs now ns"
  have i: "i \<in> set ?is" "?is \<noteq> []" using assms(3,4) healthy_idxs_iff [of i now ns] by auto
  then have k: "k = least_loop ns (tl ?is) (hd ?is) (pn_assigned_accounts (ns ! hd ?is))"
    using assms(1,2) by (simp add: picked_def pick_index_def Let_def)
  have "i = hd ?is \<or> i \<in> set (tl ?is)" using i by (cases ?is) auto
  then show ?thesis using least_loop_min [of _ ns "hd ?is" "tl ?is", OF refl] k by auto
qed

lemma nth_count_one:
  "i < length ns \<Longrightarrow> pn_assigned_accounts (count_one k ns ! i) = pn_assigned_accounts (ns ! i) + (if i = k then 1 else 0)"
  by (simp add: count_one_def nth_list_update)

lemma sum_list_int_update: "k < length xs \<Longrightarrow> sum_list (xs[k := y]) = sum_list xs + y - (xs ! k :: int)"
  by (induction xs arbitrary: k) (auto split: nat.split)

lemma count_one_total: "k < length ns \<Longrightarrow> assigned_total (count_one k ns) = assigned_total ns + 1"
  by (simp add: assigned_total_def count_one_def map_update sum_list_int_update)

lemma count_one_spread:
  assumes "spread_ok ns" "k < length ns" "\<And>i. i < length ns \<Longrightarrow> pn_assigned_accounts (ns ! k) \<le> pn_assigned_accounts (ns ! i)"
  shows "spread_ok (count_one k ns)"
proof -
  have "pn_assigned_accounts (count_one k ns ! i) \<le> pn_assigned_accounts (count_one k ns ! j) + 1"
    if "i < length ns" "j < length ns" for i j
  proof -
    have "pn_assigned_accounts (ns ! i) \<le> pn_assigned_accounts (ns ! j) + 1" using assms(1) that by (simp add: spread_ok_def)
    then show ?thesis using assms(3) [OF that(2)] that by (auto simp: nth_count_one)
  qed
  then show ?thesis by (simp add: spread_ok_def all_set_conv_all_nth)
qed

lemma healthy_count_one [simp]:
  "(\<forall>n \<in> set (count_one k ns). node_healthy now n) \<longleftrightarrow> (\<forall>n \<in> set ns. node_healthy now n)"
proof -
  have "node_healthy now (count_one k ns ! i) = node_healthy now (ns ! i)" if "i < length ns" for i
    using that by (cases "i = k") (simp_all add: count_one_def node_healthy_def)
  then show ?thesis by (simp add: all_set_conv_all_nth)
qed

text \<open>
  The least-accounts mode balances: while all nodes stay healthy, any sequence of picks, for
  whichever accounts, keeps the counts of any two nodes within one of each other, and every pick
  is counted once.
\<close>

theorem least_accounts_balanced:
  assumes "pl_nodes p \<noteq> []" "spread_ok (pl_nodes p)"
    "\<And>ok now account mode. (ok, now, account, mode) \<in> set es \<Longrightarrow>
       assign_mode mode = ''least_accounts'' \<and> (\<forall>n \<in> set (pl_nodes p). node_healthy now n)"
  shows "spread_ok (pl_nodes (pool_picks sha parse_url es p)) \<and>
    assigned_total (pl_nodes (pool_picks sha parse_url es p)) = assigned_total (pl_nodes p) + int (length es)"
  using assms
proof (induction sha parse_url es p rule: pool_picks.induct)
  case (2 sha parse_url ok now account mode es p)
  have m: "assign_mode mode = ''least_accounts''" "\<forall>n \<in> set (pl_nodes p). node_healthy now n"
    using 2(4) [of ok now account mode] by simp_all
  have "hd (pl_nodes p) \<in> set (pl_nodes p)" using 2(2) by simp
  then have "picked sha now account mode (pl_nodes p) \<noteq> None"
    using m(2) healthy_idxs_iff [of 0 now "pl_nodes p"] 2(2) by (auto simp: picked_def Let_def)
  then obtain k where k: "picked sha now account mode (pl_nodes p) = Some k" by blast
  define q where "q = snd (pool_pick sha parse_url ok now account mode p)"
  have q: "pl_nodes q = count_one k (pl_nodes p)" using k by (simp add: q_def pool_pick_picked)
  have kl: "k < length (pl_nodes p)" using picked_Some [OF k] by simp
  have "spread_ok (pl_nodes q)" unfolding q
    by (rule count_one_spread [OF 2(3) kl]) (use picked_least [OF k m(1)] m(2) in simp)
  moreover have "pl_nodes q \<noteq> []" using 2(2) by (metis q count_one_same(1) length_0_conv)
  moreover have "\<And>ok now account mode. (ok, now, account, mode) \<in> set es \<Longrightarrow>
       assign_mode mode = ''least_accounts'' \<and> (\<forall>n \<in> set (pl_nodes q). node_healthy now n)"
    using 2(4) unfolding q healthy_count_one by (meson list.set_intros(2))
  ultimately show ?case using 2(1) count_one_total [OF kl] by (simp add: q flip: q_def)
qed simp

theorem least_accounts_balanced_witness:
  "spread_ok (pl_nodes (pool_picks sample_sha sample_parse
     [(True, 5, ''x'', ''least_accounts''), (False, 6, ''y'', '' LEAST_accounts''), (True, 7, ''x'', ''least_accounts''), (True, 8, ''z'', ''least_accounts'')]
     sample_pool))"
proof -
  let ?es = "[(True, 5, ''x'', ''least_accounts''), (False, 6, ''y'', '' LEAST_accounts''), (True, 7, ''x'', ''least_accounts''),
    (True, 8, ''z'', ''least_accounts'')] :: (bool \<times> int \<times> string \<times> string) list"
  have "pl_nodes sample_pool \<noteq> []" "spread_ok (pl_nodes sample_pool)"
    "\<forall>(ok, now, account, mode) \<in> set ?es. assign_mode mode = ''least_accounts'' \<and> (\<forall>n \<in> set (pl_nodes sample_pool). node_healthy now n)"
    by code_simp+
  then show ?thesis using least_accounts_balanced [of sample_pool ?es] by blast
qed

section \<open>Failures\<close>

text \<open>The cooldown after a failure, when the node had \<open>f\<close> failures before.\<close>

definition proxy_backoff :: "int \<Rightarrow> int" where
  "proxy_backoff f = 30 * 2 ^ min (nat f) 4"

lemma failed_node_eq:
  "failed_node now err n = n\<lparr>pn_fail_count := pn_fail_count n + 1, pn_cooldown_until := now + proxy_backoff (pn_fail_count n),
     pn_last_error := trim_space err\<rparr>"
proof -
  define f where "f = pn_fail_count n"
  consider "f \<le> 0" | "f = 1" | "f = 2" | "f = 3" | "f \<ge> 4" by linarith
  then show ?thesis
    by cases (simp_all add: failed_node_def proxy_backoff_def Let_def shl64_small min_def flip: f_def)
qed

lemma update_first_at:
  "k < length ns \<Longrightarrow> pn_url (ns ! k) = url \<Longrightarrow> (\<And>j. j < k \<Longrightarrow> pn_url (ns ! j) \<noteq> url) \<Longrightarrow>
    update_first url f ns = Some (ns[k := f (ns ! k)])"
proof (induction ns arbitrary: k)
  case (Cons n ns)
  show ?case
  proof (cases k)
    case 0
    then show ?thesis using Cons.prems by simp
  next
    case (Suc i)
    have "pn_url (ns ! j) \<noteq> url" if "j < i" for j using Cons.prems(3) [of "Suc j"] that Suc by simp
    then have "update_first url f ns = Some (ns[i := f (ns ! i)])" using Cons.IH [of i] Cons.prems(1,2) Suc by simp
    then show ?thesis using Cons.prems(3) [of 0] Suc by simp
  qed
qed simp

text \<open>
  The exact effect of a reported failure: the first node with the URL counts one failure more
  and is not assigned for 30 seconds doubled with each failure it already had, at most four times,
  so never longer than 480 seconds; any other node keeps its state, also one with the same
  URL, which can still be assigned.
\<close>

theorem mark_fail_backoff:
  assumes "k < length (pl_nodes p)" "pn_url (pl_nodes p ! k) = trim_space url" "trim_space url \<noteq> []"
    "\<And>j. j < k \<Longrightarrow> pn_url (pl_nodes p ! j) \<noteq> trim_space url"
  shows "pl_nodes (mark_fail ok now url err p) = (pl_nodes p)[k := (pl_nodes p ! k)
      \<lparr>pn_fail_count := pn_fail_count (pl_nodes p ! k) + 1,
       pn_cooldown_until := now + proxy_backoff (pn_fail_count (pl_nodes p ! k)), pn_last_error := trim_space err\<rparr>] \<and>
    30 \<le> proxy_backoff (pn_fail_count (pl_nodes p ! k)) \<and> proxy_backoff (pn_fail_count (pl_nodes p ! k)) \<le> 480 \<and>
    (\<forall>i < length (pl_nodes p). node_healthy t (pl_nodes (mark_fail ok now url err p) ! i) \<longleftrightarrow>
       (if i = k then pn_enabled (pl_nodes p ! k) \<and> now + proxy_backoff (pn_fail_count (pl_nodes p ! k)) \<le> t
        else node_healthy t (pl_nodes p ! i)))"
proof -
  have n: "pl_nodes (mark_fail ok now url err p) = (pl_nodes p)[k := failed_node now err (pl_nodes p ! k)]"
    using update_first_at [OF assms(1,2,4)] assms(3) by (simp add: mark_fail_def mark_node_def)
  have "(2 :: int) ^ min i 4 \<le> 2 ^ 4" for i :: nat by (rule power_increasing) simp_all
  then have "30 \<le> proxy_backoff f \<and> proxy_backoff f \<le> 480" for f by (simp add: proxy_backoff_def)
  then show ?thesis using assms(1-3) unfolding n failed_node_eq by (auto simp: node_healthy_def nth_list_update)
qed

theorem mark_fail_backoff_witness:
  "healthy_idxs 20 (pl_nodes (mark_fail True 10 ''http://a'' ''down'' sample_pool)) = [1, 2] \<and>
   map pn_url (pl_nodes sample_pool) = [''http://a'', ''http://b'', ''http://a'']"
proof -
  let ?u = "''http://a''"
  have s: "length (pl_nodes sample_pool) = 3" "pn_url (pl_nodes sample_pool ! 0) = trim_space ?u" "trim_space ?u \<noteq> []"
    "list_all (node_healthy 20) (pl_nodes sample_pool)" "map pn_url (pl_nodes sample_pool) = [''http://a'', ''http://b'', ''http://a'']"
    by code_simp+
  have fc: "pn_fail_count (pl_nodes sample_pool ! 0) = 0" by code_simp
  let ?q = "pl_nodes (mark_fail True 10 ?u ''down'' sample_pool)"
  note m = mark_fail_backoff [of 0 sample_pool ?u True 10 "''down''" 20, unfolded s(1) fc, simplified, OF s(2,3)]
  have len: "length ?q = 3" using m s(1) by (metis length_list_update)
  have h: "\<forall>i < 3. node_healthy 20 (pl_nodes sample_pool ! i)" using s(1,4) by (simp add: list_all_length)
  have "node_healthy 20 (?q ! i) = (if i = 0 then pn_enabled (pl_nodes sample_pool ! 0) \<and> 10 + proxy_backoff 0 \<le> 20
      else node_healthy 20 (pl_nodes sample_pool ! i))" if "i < 3" for i using m that by blast
  then have "\<not> node_healthy 20 (?q ! 0)" "node_healthy 20 (?q ! 1)" "node_healthy 20 (?q ! 2)"
    using h by (simp_all add: proxy_backoff_def)
  then show ?thesis using s(5) len by (simp add: healthy_idxs_def upt_rec numeral_eq_Suc)
qed

section \<open>The exit of an account\<close>

text \<open>The policy that the gateway installs in the lease manager when the pool is enabled.\<close>

definition pool_assigner ::
  "(string \<Rightarrow> nat list) \<Rightarrow> url_parser \<Rightarrow> bool \<Rightarrow> int \<Rightarrow> string \<Rightarrow> proxy_pool \<Rightarrow> string \<Rightarrow> (string \<times> string) option \<times> proxy_pool" where
  "pool_assigner sha parse_url ok clk mode p i = pool_pick sha parse_url ok clk i mode p"

definition pool_reporter :: "bool \<Rightarrow> int \<Rightarrow> proxy_pool \<Rightarrow> string \<Rightarrow> string \<Rightarrow> proxy_pool" where
  "pool_reporter ok clk p url err = mark_fail ok clk url err p"

definition pool_policy ::
  "(string \<Rightarrow> nat list) \<Rightarrow> url_parser \<Rightarrow> bool \<Rightarrow> int \<Rightarrow> string \<Rightarrow> ('r, proxy_pool) lease_env \<Rightarrow> ('r, proxy_pool) lease_env" where
  "pool_policy sha parse_url ok clk mode0 env =
     (let mode = (if trim_space mode0 = [] then ''hash'' else trim_space mode0) in
      env\<lparr>le_assign := Some (pool_assigner sha parse_url ok clk mode), le_report := Some (pool_reporter ok clk)\<rparr>)"

lemma set_proxy_row_stored:
  assumes "set_proxy c now i url mode = (Inr u, c')" "trim_space i = i" "trim_space url = url"
  shows "\<exists>a. map_of (cat_rows c') i = Some a \<and> acc_proxy_url a = url"
  using assms
  by (auto simp: set_proxy_def set_proxies_def set_proxy_row_def Let_def split: if_splits sum.splits option.splits)

lemma set_proxy_accepts:
  assumes "cat_open c" "map_of (cat_rows c) i = Some a" "i \<noteq> []" "trim_space i = i"
  shows "\<exists>c'. set_proxy c now i url mode = (Inr (), c')"
  using assms by (simp add: set_proxy_def set_proxies_def Let_def)

lemma cat_get_open: "cat_get c i = Inr a \<Longrightarrow> cat_open c \<and> i \<noteq> [] \<and> map_of (cat_rows c) i = Some a"
  by (auto simp: cat_get_def cat_get_unlocked_def split: if_splits option.splits)

lemma resolve_proxy_stored:
  assumes "cat_open (lw_cat w)" "map_of (cat_rows (lw_cat w)) (acc_id a) = Some b" "acc_id a \<noteq> []"
    "trim_space (acc_id a) = acc_id a" "trim_space (acc_proxy_url a) = []"
    "resolve_proxy env now a w = ((url, mode), w')" "url \<noteq> []"
  obtains assign u md c where "le_assign env = Some assign" "assign (lw_pool w) (acc_id a) = (Some (u, md), lw_pool w')"
    "url = trim_space u" "map_of (cat_rows (lw_cat w')) (acc_id a) = Some c" "acc_proxy_url c = url"
proof -
  obtain assign where as: "le_assign env = Some assign"
    using assms(5-7) by (auto simp: resolve_proxy_def Let_def split: option.splits)
  obtain r p' where r: "assign (lw_pool w) (acc_id a) = (r, p')" by fastforce
  then obtain u md where u: "r = Some (u, md)" "url = trim_space u" "trim_space u \<noteq> []"
    using assms(5-7) as
    by (cases r) (auto simp: resolve_proxy_def Let_def split: if_splits prod.splits sum.splits option.splits)
  obtain c where sp: "set_proxy (lw_cat w) now (acc_id a) (trim_space u) (trim_space md) = (Inr (), c)"
    using set_proxy_accepts [OF assms(1,2,3,4)] by blast
  have w': "lw_cat w' = c \<and> lw_pool w' = p'"
    using assms(5,6) as r u sp by (auto simp: resolve_proxy_def Let_def promote_hot_def split: option.splits)
  obtain d where d: "map_of (cat_rows c) (acc_id a) = Some d" "acc_proxy_url d = url"
    using set_proxy_row_stored [OF sp assms(4) trim_space_idem] u(2) by auto
  from that [of assign u md d] as r u w' d show thesis by simp
qed

lemma acquire_account_exit:
  assumes "acquire_account env now sticky model n i w = (Inr l, w')"
  obtains a w1 md w2 where "cat_get (lw_cat w) i = Inr a" "lw_cat w1 = lw_cat w" "lw_pool w1 = lw_pool w"
    "resolve_proxy env now a w1 = ((ls_proxy_url l, md), w2)" "lw_pool w' = lw_pool w2" "lw_cat w' = lw_cat w2"
proof -
  obtain a where a: "cat_get (lw_cat w) i = Inr a"
    using assms by (auto simp: acquire_account_def split: sum.splits cat_error.splits)
  obtain cool w1 where c: "(if model \<noteq> [] then model_cooldown_active i model now w else (False, w)) = (cool, w1)" by fastforce
  have w1: "lw_cat w1 = lw_cat w" "lw_pool w1 = lw_pool w"
    using c model_cooldown_active_spec(1) [of i model now w cool w1] by (auto split: if_splits)
  obtain url md w2 where r: "resolve_proxy env now a w1 = ((url, md), w2)" by (metis prod.exhaust)
  have "ls_proxy_url l = url" "lw_pool w' = lw_pool w2" "lw_cat w' = lw_cat w2"
    using assms a c r by (auto simp: acquire_account_def Let_def split: if_splits prod.splits option.splits)
  with that [OF a w1] r show thesis by simp
qed

text \<open>
  C39. One account, one exit: when the lease manager takes a proxy from the pool for an account that
  has none, the proxy is a healthy node of the pool, and it is written to the account's row. As
  long as the row keeps it, each later lease of the account, with any assigner, at any time and for any
  model, gets the same proxy, and the pool is not asked.
\<close>

theorem egress_sticky:
  assumes "wf_catalog (lw_cat w)" "map_of (cat_rows (lw_cat w)) i = Some a" "trim_space i = i" "trim_space (acc_proxy_url a) = []"
    "acquire_account (pool_policy sha parse_url ok clk mode env) now sticky model n i w = (Inr l, w')" "ls_proxy_url l \<noteq> []"
  shows "(\<exists>k < length (pl_nodes (lw_pool w)). node_healthy clk (pl_nodes (lw_pool w) ! k) \<and>
      ls_proxy_url l = trim_space (pn_url (pl_nodes (lw_pool w) ! k)) \<and>
      pl_nodes (lw_pool w') = count_one k (pl_nodes (lw_pool w))) \<and>
    (\<exists>b. map_of (cat_rows (lw_cat w')) i = Some b \<and> acc_proxy_url b = ls_proxy_url l) \<and>
    (\<forall>b. map_of (cat_rows (lw_cat v)) i = Some b \<and> acc_proxy_url b = ls_proxy_url l \<and>
        acquire_account env' now' sticky' model' n' i v = (Inr l', v') \<longrightarrow>
      ls_proxy_url l' = ls_proxy_url l \<and> lw_pool v' = lw_pool v)"
proof -
  let ?env = "pool_policy sha parse_url ok clk mode env"
  obtain a' w1 md w2 where e0: "cat_get (lw_cat w) i = Inr a'" and e1: "lw_cat w1 = lw_cat w" "lw_pool w1 = lw_pool w"
    "resolve_proxy ?env now a' w1 = ((ls_proxy_url l, md), w2)" "lw_pool w' = lw_pool w2" "lw_cat w' = lw_cat w2"
    by (rule acquire_account_exit [OF assms(5)])
  have "a' = a" using cat_get_open [OF e0] assms(2) by simp
  note e = e0 [unfolded this] e1 [unfolded this]
  have i: "acc_id a = i" "cat_open (lw_cat w)" "i \<noteq> []"
    using cat_get_open [OF e(1)] wf_rowsD [OF wf_catalogD [OF assms(1)] assms(2)] by (simp_all add: wf_account_def)
  obtain assign u m c where s: "le_assign ?env = Some assign" "assign (lw_pool w) i = (Some (u, m), lw_pool w2)"
    "ls_proxy_url l = trim_space u" "map_of (cat_rows (lw_cat w2)) i = Some c" "acc_proxy_url c = ls_proxy_url l"
    by (rule resolve_proxy_stored [OF _ _ _ _ assms(4) e(4) assms(6)]) (use assms(2,3) i e(2,3) in simp_all)
  obtain mode' where "pool_pick sha parse_url ok clk i mode' (lw_pool w) = (Some (u, m), lw_pool w2)"
    using s(1,2) by (auto simp: pool_policy_def pool_assigner_def Let_def split: if_splits)
  from pool_pick_picked [of sha parse_url ok clk i mode' "lw_pool w", unfolded this]
  have "\<exists>k < length (pl_nodes (lw_pool w)). node_healthy clk (pl_nodes (lw_pool w) ! k) \<and>
      ls_proxy_url l = trim_space (pn_url (pl_nodes (lw_pool w) ! k)) \<and> pl_nodes (lw_pool w') = count_one k (pl_nodes (lw_pool w))"
    using s(3) e(5) picked_Some [of sha clk i mode' "pl_nodes (lw_pool w)"] by (auto split: option.splits)
  moreover have "ls_proxy_url l' = ls_proxy_url l \<and> lw_pool v' = lw_pool v"
    if b: "map_of (cat_rows (lw_cat v)) i = Some b" "acc_proxy_url b = ls_proxy_url l"
      and v: "acquire_account env' now' sticky' model' n' i v = (Inr l', v')" for b
  proof -
    obtain b' w3 md3 w4 where g: "cat_get (lw_cat v) i = Inr b'" and f: "lw_pool w3 = lw_pool v"
      "resolve_proxy env' now' b' w3 = ((ls_proxy_url l', md3), w4)" "lw_pool v' = lw_pool w4"
      by (rule acquire_account_exit [OF v])
    have "b' = b" using cat_get_open [OF g] b(1) by simp
    with f show ?thesis using b(2) s(3) assms(6) by (auto simp: resolve_proxy_def trim_space_idem Let_def)
  qed
  ultimately show ?thesis using s(4,5) e(6) by auto
qed

definition sample_lease_pool :: "(nat, proxy_pool) lease_world" where
  "sample_lease_pool = \<lparr>lw_cat = sample_catalog, lw_idx = sample_index, lw_sel = sample_selector,
     lw_cfg = lease_default_config, lw_model_cool = [], lw_require_proxy = True, lw_pool = sample_pool\<rparr>"

definition sample_lease_env :: "(nat, proxy_pool) lease_env" where
  "sample_lease_env = \<lparr>le_rand = sample_rand, le_metas = (\<lambda>xs. xs), le_entries = rev, le_keys = rev,
     le_assign = None, le_report = None, le_int63n = (\<lambda>s n. s mod n)\<rparr>"



theorem egress_sticky_witness:
  "case acquire_account (pool_policy sample_sha sample_parse True 20 [] sample_lease_env) 20 ''k'' ''m'' 1 ''b'' sample_lease_pool of
     (Inl e, w') \<Rightarrow> False
   | (Inr l, w') \<Rightarrow> ls_proxy_url l = ''http://b'' \<and>
       (\<exists>b. map_of (cat_rows (lw_cat w')) ''b'' = Some b \<and> acc_proxy_url b = ''http://b'')"
proof -
  let ?r = "acquire_account (pool_policy sample_sha sample_parse True 20 [] sample_lease_env) 20 ''k'' ''m'' 1 ''b'' sample_lease_pool"
  have "map_sum id ls_proxy_url (fst ?r) = Inr ''http://b''" by code_simp
  then obtain l w' where l: "?r = (Inr l, w')" "ls_proxy_url l = ''http://b''" by (cases ?r; cases "fst ?r") auto
  have w: "wf_catalog (lw_cat sample_lease_pool)" using wf_cat_steps [OF sample_catalog_steps wf_empty]
    by (simp add: sample_lease_pool_def)
  have c: "map_of (cat_rows (lw_cat sample_lease_pool)) ''b'' = Some (sample_account ''b'' 2)"
    "trim_space ''b'' = ''b''" "trim_space (acc_proxy_url (sample_account ''b'' 2)) = []" by code_simp+
  have "ls_proxy_url l \<noteq> []" using l(2) by simp
  from egress_sticky [OF w c l(1) this, THEN conjunct2, THEN conjunct1] show ?thesis using l by simp
qed

end
