(* ===== verification/Outbound.thy ===== *)
theory Outbound
  imports Prelude
begin

text \<open>
  Outgoing requests: the client of the upstream (\<open>internal/protocol/upstream\<close>: configuration,
  URLs and headers) and the factory that keeps one client per account and proxy
  (\<open>internal/outbound\<close>).

  The transport is not modelled; a client is the configuration it was built from, its proxy, and a
  serial number, which stands for the identity of its connection pool. Parameters: \<open>parse_url\<close> is
  \<open>url.Parse\<close> (scheme and host), \<open>socks_ok\<close> says whether the SOCKS package accepts the URL.
\<close>

section \<open>The upstream client\<close>

definition DefaultBaseURL :: string where "DefaultBaseURL = ''https://cli-chat-proxy.grok.com/v1''"
definition DefaultClientVersion :: string where "DefaultClientVersion = ''0.2.93''"
definition DefaultClientIdentifier :: string where "DefaultClientIdentifier = ''grok-pager''"
definition DefaultTokenAuth :: string where "DefaultTokenAuth = ''xai-grok-cli''"
definition DefaultUserAgent :: string where
  "DefaultUserAgent = ''grok-pager/0.2.93 grok-shell/0.2.93 (linux; x86_64)''"

record upstream_config =
  uc_base_url :: string
  uc_client_version :: string
  uc_client_identifier :: string
  uc_token_auth :: string
  uc_user_agent :: string
  uc_request_timeout :: int

definition or_default :: "string \<Rightarrow> string \<Rightarrow> string" where
  "or_default d s = (if trim_space s = [] then d else s)"

definition normalize_config :: "upstream_config \<Rightarrow> upstream_config" where
  "normalize_config cfg =
     (let base = trim_right CHR ''/'' (trim_space (uc_base_url cfg)) in
      cfg\<lparr>uc_base_url := (if base = [] then DefaultBaseURL else base),
          uc_client_version := or_default DefaultClientVersion (uc_client_version cfg),
          uc_client_identifier := or_default DefaultClientIdentifier (uc_client_identifier cfg),
          uc_token_auth := or_default DefaultTokenAuth (uc_token_auth cfg),
          uc_user_agent := or_default DefaultUserAgent (uc_user_agent cfg)\<rparr>)"

definition upstream_apply_config :: "upstream_config \<Rightarrow> upstream_config \<Rightarrow> upstream_config" where
  "upstream_apply_config new old =
     (let cfg = normalize_config new in
      if uc_request_timeout cfg \<le> 0 then cfg\<lparr>uc_request_timeout := uc_request_timeout old\<rparr> else cfg)"

definition join_url :: "string \<Rightarrow> string \<Rightarrow> string" where
  "join_url base0 path0 =
     (let base = trim_right CHR ''/'' (trim_space base0); path = trim_space path0 in
      if path = [] then base
      else if has_prefix path ''http://'' \<or> has_prefix path ''https://'' then path
      else base @ (if has_prefix path ''/'' then path else CHR ''/'' # path))"

section \<open>Headers\<close>

text \<open>
  An \<open>http.Header\<close> keeps its values under canonical keys: the letters after the start and after a
  hyphen in upper case, the others in lower case; a key with another byte than those of a token is left alone.
\<close>

definition token_char :: "char \<Rightarrow> bool" where
  "token_char c \<longleftrightarrow> (CHR ''a'' \<le> c \<and> c \<le> CHR ''z'') \<or> (CHR ''A'' \<le> c \<and> c \<le> CHR ''Z'') \<or> (CHR ''0'' \<le> c \<and> c \<le> CHR ''9'') \<or>
     c \<in> set ''!#$%&*+-.^_|~'' \<or> c = CHR 0x27 \<or> c = CHR 0x60"

definition upper_char :: "char \<Rightarrow> char" where
  "upper_char c = (if CHR ''a'' \<le> c \<and> c \<le> CHR ''z'' then char_of ((of_char c :: nat) - 32) else c)"

fun canonical_from :: "bool \<Rightarrow> string \<Rightarrow> string" where
  "canonical_from up [] = []"
| "canonical_from up (c # cs) = (if up then upper_char c else lower_char c) # canonical_from (c = CHR ''-'') cs"

definition canonical_key :: "string \<Rightarrow> string" where
  "canonical_key k = (if list_all token_char k then canonical_from True k else k)"

type_synonym http_header = "(string, string list) gomap"

definition header_set :: "string \<Rightarrow> string \<Rightarrow> http_header \<Rightarrow> http_header" where
  "header_set k v h = gm_put (canonical_key k) [v] h"

definition header_add :: "string \<Rightarrow> string \<Rightarrow> http_header \<Rightarrow> http_header" where
  "header_add k v h = gm_put (canonical_key k) (gm_default [] h (canonical_key k) @ [v]) h"

definition header_get :: "http_header \<Rightarrow> string \<Rightarrow> string" where
  "header_get h k = (case gm_get h (canonical_key k) of Some (v # vs) \<Rightarrow> v | _ \<Rightarrow> [])"

definition set_trimmed :: "string \<Rightarrow> string \<Rightarrow> string \<Rightarrow> http_header \<Rightarrow> http_header" where
  "set_trimmed k prefix v h = (if trim_space v \<noteq> [] then header_set k (prefix @ trim_space v) h else h)"

record header_input =
  hd_access_token :: string
  hd_model :: string
  hd_conv_id :: string
  hd_client_version :: string
  hd_client_identifier :: string
  hd_token_auth :: string
  hd_user_agent :: string
  hd_accept :: string
  hd_content_type :: string
  hd_extra :: "(string \<times> string list) list"

fun extra_values :: "string \<Rightarrow> bool \<Rightarrow> string list \<Rightarrow> http_header \<Rightarrow> http_header" where
  "extra_values k first [] h = h"
| "extra_values k first (v # vs) h = extra_values k False vs (if first then header_set k v h else header_add k v h)"

text \<open>\<open>request_id\<close> is the random id; the extra headers are the list of their map in iteration order.\<close>

definition apply_headers :: "string \<Rightarrow> header_input \<Rightarrow> http_header \<Rightarrow> http_header" where
  "apply_headers request_id inp h0 =
     (let h1 = set_trimmed ''Authorization'' ''Bearer '' (hd_access_token inp) h0;
          h2 = header_set ''X-XAI-Token-Auth'' (or_default DefaultTokenAuth (hd_token_auth inp)) h1;
          h3 = header_set ''x-grok-client-version'' (or_default DefaultClientVersion (hd_client_version inp)) h2;
          h4 = header_set ''x-grok-client-identifier'' (or_default DefaultClientIdentifier (hd_client_identifier inp)) h3;
          h5 = header_set ''User-Agent'' (or_default DefaultUserAgent (hd_user_agent inp)) h4;
          h6 = (if trim_space (header_get h5 ''x-xai-request-id'') = [] \<and> trim_space (header_get h5 ''X-Request-Id'') = []
                then header_set ''x-xai-request-id'' request_id h5 else h5);
          h7 = set_trimmed ''x-grok-model-override'' [] (hd_model inp) h6;
          h8 = set_trimmed ''x-grok-conv-id'' [] (hd_conv_id inp) h7;
          h9 = set_trimmed ''Accept'' [] (hd_accept inp) h8;
          h10 = set_trimmed ''Content-Type'' [] (hd_content_type inp) h9 in
      fold (\<lambda>(k, vs). extra_values k True vs) (hd_extra inp) h10)"

text \<open>
  The request of \<open>PostResponses\<close>: URL and headers. \<open>body_model\<close> is the model named in the body
  (read by the JSON library), trimmed.
\<close>

record responses_options =
  ro_access_token :: string
  ro_model :: string
  ro_conv_id :: string
  ro_stream :: bool
  ro_extra :: "(string \<times> string list) list"

definition responses_request ::
  "string \<Rightarrow> upstream_config \<Rightarrow> string \<Rightarrow> responses_options \<Rightarrow> string \<times> http_header" where
  "responses_request request_id cfg body_model opts =
     (let model = (if trim_space (ro_model opts) = [] then body_model else trim_space (ro_model opts));
          accept = (if ro_stream opts then ''text/event-stream'' else ''application/json'') in
      (join_url (uc_base_url cfg) ''/responses'',
       apply_headers request_id
         \<lparr>hd_access_token = ro_access_token opts, hd_model = model, hd_conv_id = ro_conv_id opts,
          hd_client_version = uc_client_version cfg, hd_client_identifier = uc_client_identifier cfg,
          hd_token_auth = uc_token_auth cfg, hd_user_agent = uc_user_agent cfg, hd_accept = accept,
          hd_content_type = ''application/json'', hd_extra = ro_extra opts\<rparr> []))"

text \<open>The extra headers of the request executor; a header map has two orders.\<close>

definition idempotency_headers :: "string \<Rightarrow> (string \<times> string list) list" where
  "idempotency_headers key = [(canonical_key ''Idempotency-Key'', [key]), (canonical_key ''X-Idempotency-Key'', [key])]"

section \<open>The client factory\<close>

record outbound_client =
  oc_serial :: nat
  oc_cfg :: upstream_config
  oc_proxy :: string

record factory =
  fa_base :: upstream_config
  fa_cache :: "(string, outbound_client) gomap"
  fa_last_proxy :: "(string, string) gomap"
  fa_made :: nat

datatype outbound_error = OutBadURL | OutDialer | OutScheme string

definition new_factory :: "upstream_config \<Rightarrow> factory" where
  "new_factory base = \<lparr>fa_base = base, fa_cache = [], fa_last_proxy = [], fa_made = 0\<rparr>"

definition apply_base :: "upstream_config \<Rightarrow> factory \<Rightarrow> factory" where
  "apply_base base f = f\<lparr>fa_base := base, fa_cache := []\<rparr>"

definition update_base_url :: "string \<Rightarrow> factory \<Rightarrow> factory" where
  "update_base_url url f = f\<lparr>fa_base := (fa_base f)\<lparr>uc_base_url := url\<rparr>, fa_cache := []\<rparr>"

definition nul :: char where "nul = CHR 0x00"

definition cache_key :: "string \<Rightarrow> string \<Rightarrow> string" where
  "cache_key account proxy =
     (let proxy = trim_space proxy; account = trim_space account in
      if account = [] then proxy else account @ nul # proxy)"

definition proxy_refused ::
  "(string \<Rightarrow> (string \<times> string) option) \<Rightarrow> (string \<Rightarrow> bool) \<Rightarrow> string \<Rightarrow> outbound_error option" where
  "proxy_refused parse_url socks_ok proxy =
     (if proxy = [] then None
      else case parse_url proxy of
        None \<Rightarrow> Some OutBadURL
      | Some (scheme, host) \<Rightarrow>
          if to_lower scheme \<in> {''http'', ''https''} then None
          else if to_lower scheme \<in> {''socks5'', ''socks5h''} then (if socks_ok proxy then None else Some OutDialer)
          else Some (OutScheme scheme))"

definition build_client ::
  "(string \<Rightarrow> (string \<times> string) option) \<Rightarrow> (string \<Rightarrow> bool) \<Rightarrow> string \<Rightarrow> factory \<Rightarrow> outbound_error + outbound_client" where
  "build_client parse_url socks_ok proxy f =
     (case proxy_refused parse_url socks_ok proxy of
        Some e \<Rightarrow> Inl e
      | None \<Rightarrow> Inr \<lparr>oc_serial = fa_made f, oc_cfg = normalize_config (fa_base f), oc_proxy = proxy\<rparr>)"

definition note_proxy :: "string \<Rightarrow> string \<Rightarrow> factory \<Rightarrow> factory" where
  "note_proxy account proxy f =
     (if account \<noteq> [] then f\<lparr>fa_last_proxy := gm_put account proxy (fa_last_proxy f)\<rparr> else f)"

definition client_for ::
  "(string \<Rightarrow> (string \<times> string) option) \<Rightarrow> (string \<Rightarrow> bool) \<Rightarrow> string \<Rightarrow> string \<Rightarrow> factory
   \<Rightarrow> (outbound_error + outbound_client) \<times> factory" where
  "client_for parse_url socks_ok account0 proxy0 f =
     (let account = trim_space account0; proxy = trim_space proxy0; key = cache_key account proxy in
      case gm_get (fa_cache f) key of
        Some c \<Rightarrow> (Inr c, note_proxy account proxy f)
      | None \<Rightarrow>
          (case build_client parse_url socks_ok proxy f of
             Inl e \<Rightarrow> (Inl e, f)
           | Inr c \<Rightarrow> (Inr c, note_proxy account proxy
               (f\<lparr>fa_cache := gm_put key c (fa_cache f), fa_made := fa_made f + 1\<rparr>))))"

definition last_proxy :: "string \<Rightarrow> factory \<Rightarrow> string option" where
  "last_proxy account f = (if trim_space account = [] then None else gm_get (fa_last_proxy f) (trim_space account))"

definition forget_proxy :: "string \<Rightarrow> factory \<Rightarrow> factory" where
  "forget_proxy proxy0 f =
     (let proxy = trim_space proxy0 in
      f\<lparr>fa_cache := filter (\<lambda>(k, c). \<not> (k = proxy \<or> has_suffix k (nul # proxy))) (gm_del proxy (fa_cache f)),
        fa_last_proxy := filter (\<lambda>(a, p). p \<noteq> proxy) (fa_last_proxy f)\<rparr>)"

definition forget_account :: "string \<Rightarrow> factory \<Rightarrow> factory" where
  "forget_account account0 f =
     (let account = trim_space account0 in
      if account = [] then f
      else f\<lparr>fa_cache := filter (\<lambda>(k, c). \<not> has_prefix k (account @ [nul])) (fa_cache f),
             fa_last_proxy := gm_del account (fa_last_proxy f)\<rparr>)"

text \<open>The callback of the executor on a connection error.\<close>

definition on_dial_error :: "string \<Rightarrow> string \<Rightarrow> factory \<Rightarrow> factory" where
  "on_dial_error account proxy f =
     (let f1 = (if account \<noteq> [] then forget_account account f else f) in
      if proxy \<noteq> [] then forget_proxy proxy f1 else f1)"

section \<open>What a request carries\<close>

lemma header_get_set: "header_get (header_set k v h) k' = (if canonical_key k = canonical_key k' then v else header_get h k')"
  by (simp add: header_get_def header_set_def)

lemma header_get_trimmed: "header_get (set_trimmed k p v h) k' =
    (if trim_space v \<noteq> [] \<and> canonical_key k = canonical_key k' then p @ trim_space v else header_get h k')"
  by (simp add: set_trimmed_def header_get_set)

lemma canonical_keys:
  "canonical_key ''Authorization'' = ''Authorization''" "canonical_key ''X-XAI-Token-Auth'' = ''X-Xai-Token-Auth''"
  "canonical_key ''x-grok-client-version'' = ''X-Grok-Client-Version''"
  "canonical_key ''x-grok-client-identifier'' = ''X-Grok-Client-Identifier''" "canonical_key ''User-Agent'' = ''User-Agent''"
  "canonical_key ''x-xai-request-id'' = ''X-Xai-Request-Id''" "canonical_key ''X-Request-Id'' = ''X-Request-Id''"
  "canonical_key ''x-grok-model-override'' = ''X-Grok-Model-Override''" "canonical_key ''x-grok-conv-id'' = ''X-Grok-Conv-Id''"
  "canonical_key ''Accept'' = ''Accept''" "canonical_key ''Content-Type'' = ''Content-Type''"
  "canonical_key ''Idempotency-Key'' = ''Idempotency-Key''" "canonical_key ''X-Idempotency-Key'' = ''X-Idempotency-Key''"
  by code_simp+

lemma or_default_nonempty: "trim_space d \<noteq> [] \<Longrightarrow> trim_space (or_default d s) \<noteq> []"
  by (simp add: or_default_def)

lemma default_texts: "trim_space DefaultTokenAuth \<noteq> []" "trim_space DefaultClientVersion \<noteq> []"
  "trim_space DefaultClientIdentifier \<noteq> []" "trim_space DefaultUserAgent \<noteq> []"
  by code_simp+

lemma trim_nonempty: "trim_space s \<noteq> [] \<Longrightarrow> s \<noteq> []"
  by (auto simp: trim_space_def trim_with_code)

text \<open>
  What the executor's request to the upstream carries: the token of the lease as bearer token,
  the model (that of the call, else that of the body), the conversation, the accepted type, the
  idempotency key under both names, and the client headers, none of them empty, whatever
  the configuration says.
\<close>

theorem responses_request_headers:
  assumes "trim_space token \<noteq> []"
    "responses_request rid cfg body_model \<lparr>ro_access_token = token, ro_model = model, ro_conv_id = conv, ro_stream = stream,
       ro_extra = idempotency_headers key\<rparr> = (url, h)"
  shows "header_get h ''Authorization'' = ''Bearer '' @ trim_space token \<and>
    header_get h ''Idempotency-Key'' = key \<and> header_get h ''X-Idempotency-Key'' = key \<and>
    header_get h ''Accept'' = (if stream then ''text/event-stream'' else ''application/json'') \<and>
    header_get h ''X-Grok-Conv-Id'' = trim_space conv \<and>
    header_get h ''x-grok-model-override'' = trim_space (if trim_space model = [] then body_model else model) \<and>
    (\<forall>name \<in> {''X-XAI-Token-Auth'', ''x-grok-client-version'', ''x-grok-client-identifier'', ''User-Agent''}.
       trim_space (header_get h name) \<noteq> [])"
proof -
  have t: "trim_space ''text/event-stream'' = ''text/event-stream''" "trim_space ''application/json'' = ''application/json''"
    "canonical_key ''X-Grok-Conv-Id'' = ''X-Grok-Conv-Id''"
    by code_simp+
  have e: "header_get [] k = []" for k by (simp add: header_get_def)
  have h: "h = snd (responses_request rid cfg body_model \<lparr>ro_access_token = token, ro_model = model, ro_conv_id = conv,
      ro_stream = stream, ro_extra = idempotency_headers key\<rparr>)"
    using assms(2) by simp
  note defs = responses_request_def apply_headers_def idempotency_headers_def Let_def header_get_set header_get_trimmed
    canonical_keys t e trim_space_idem or_default_nonempty default_texts
  show ?thesis unfolding h by (intro conjI ballI; (elim insertE emptyE)?; simp add: defs assms(1))
qed

theorem responses_request_headers_witness:
  "header_get (snd (responses_request ''r'' \<lparr>uc_base_url = [], uc_client_version = [], uc_client_identifier = [], uc_token_auth = [],
      uc_user_agent = [], uc_request_timeout = 0\<rparr> ''m'' \<lparr>ro_access_token = '' at '', ro_model = [], ro_conv_id = ''c'', ro_stream = True,
      ro_extra = idempotency_headers ''k''\<rparr>)) ''Authorization'' = ''Bearer at''"
proof -
  let ?r = "responses_request ''r'' \<lparr>uc_base_url = [], uc_client_version = [], uc_client_identifier = [], uc_token_auth = [],
      uc_user_agent = [], uc_request_timeout = 0\<rparr> ''m'' \<lparr>ro_access_token = '' at '', ro_model = [], ro_conv_id = ''c'', ro_stream = True,
      ro_extra = idempotency_headers ''k''\<rparr>"
  have t: "trim_space '' at '' = ''at''" by code_simp
  obtain url h where e: "?r = (url, h)" by fastforce
  then have "header_get h ''Authorization'' = ''Bearer '' @ trim_space '' at ''"
    by (intro responses_request_headers [OF _ e, THEN conjunct1]) (simp add: t)
  then show ?thesis by (simp add: e t)
qed

section \<open>One client per account and proxy\<close>

definition nul_free :: "string \<Rightarrow> bool" where
  "nul_free s \<longleftrightarrow> nul \<notin> set s"

text \<open>The states that a factory reaches with account ids and URLs without NUL bytes.\<close>

inductive factory_reach ::
  "(string \<Rightarrow> (string \<times> string) option) \<Rightarrow> (string \<Rightarrow> bool) \<Rightarrow> factory \<Rightarrow> bool" for parse_url socks_ok where
  Factory_New: "factory_reach parse_url socks_ok (new_factory base)"
| Factory_Base: "factory_reach parse_url socks_ok f \<Longrightarrow> factory_reach parse_url socks_ok (apply_base base f)"
| Factory_Url: "factory_reach parse_url socks_ok f \<Longrightarrow> factory_reach parse_url socks_ok (update_base_url url f)"
| Factory_Client: "factory_reach parse_url socks_ok f \<Longrightarrow> nul_free a \<Longrightarrow> nul_free p \<Longrightarrow>
    factory_reach parse_url socks_ok (snd (client_for parse_url socks_ok a p f))"
| Factory_Forget: "factory_reach parse_url socks_ok f \<Longrightarrow> factory_reach parse_url socks_ok (forget_proxy p f)"
| Factory_Account: "factory_reach parse_url socks_ok f \<Longrightarrow> factory_reach parse_url socks_ok (forget_account a f)"

lemma trim_with_sub: "set (trim_with ws s) \<subseteq> set s"
  using trim_with_suffix [of s ws] by (metis set_append sup_ge2)

lemma trim_space_sub: "set (trim_space s) \<subseteq> set s"
  using trim_with_sub [of go_spaces s] trim_with_sub [of "map rev go_spaces" "rev (trim_with go_spaces s)"]
  by (auto simp: trim_space_def)

lemma nul_free_trim: "nul_free s \<Longrightarrow> nul_free (trim_space s)"
  using trim_space_sub [of s] by (auto simp: nul_free_def)

lemma split_at_nul: "nul_free a \<Longrightarrow> takeWhile ((\<noteq>) nul) (a @ nul # p) = a"
  by (induction a) (auto simp: nul_free_def)

lemma cache_key_inj:
  assumes "nul_free a" "nul_free p" "nul_free a'" "nul_free p'" "cache_key a p = cache_key a' p'"
  shows "trim_space a = trim_space a' \<and> trim_space p = trim_space p'"
proof -
  note n = assms(1-4) [THEN nul_free_trim]
  have "trim_space a = trim_space a'" if "trim_space a \<noteq> []" "trim_space a' \<noteq> []"
  proof -
    have "trim_space a @ nul # trim_space p = trim_space a' @ nul # trim_space p'"
      using assms(5) that by (simp add: cache_key_def Let_def)
    then show ?thesis using split_at_nul [OF n(1), of "trim_space p"] split_at_nul [OF n(3), of "trim_space p'"] by simp
  qed
  moreover have "x @ nul # y \<noteq> z" if "nul_free z" for x y z using that by (auto simp: nul_free_def)
  from this [OF n(2), of "trim_space a'" "trim_space p'"] this [OF n(4), of "trim_space a" "trim_space p"]
  have "trim_space a = [] \<longleftrightarrow> trim_space a' = []"
    using assms(5) by (auto simp: cache_key_def Let_def split: if_splits)
  ultimately show ?thesis using assms(5) by (auto simp: cache_key_def Let_def split: if_splits)
qed

definition client_at :: "factory \<Rightarrow> string \<Rightarrow> outbound_client \<Rightarrow> bool" where
  "client_at f k c \<longleftrightarrow> oc_cfg c = normalize_config (fa_base f) \<and> oc_serial c < fa_made f \<and>
     (\<exists>a. nul_free a \<and> nul_free (oc_proxy c) \<and> k = cache_key a (oc_proxy c) \<and> trim_space (oc_proxy c) = oc_proxy c)"

definition cache_ok :: "factory \<Rightarrow> bool" where
  "cache_ok f \<longleftrightarrow> gm_wf (fa_cache f) \<and> (\<forall>k c. gm_get (fa_cache f) k = Some c \<longrightarrow> client_at f k c) \<and>
     (\<forall>k k' c c'. gm_get (fa_cache f) k = Some c \<and> gm_get (fa_cache f) k' = Some c' \<and> oc_serial c = oc_serial c' \<longrightarrow> k = k')"

lemma cache_okI:
  "gm_wf (fa_cache f) \<Longrightarrow> (\<And>k c. gm_get (fa_cache f) k = Some c \<Longrightarrow> client_at f k c) \<Longrightarrow>
    (\<And>k k' c c'. gm_get (fa_cache f) k = Some c \<Longrightarrow> gm_get (fa_cache f) k' = Some c' \<Longrightarrow> oc_serial c = oc_serial c' \<Longrightarrow> k = k')
    \<Longrightarrow> cache_ok f"
  unfolding cache_ok_def by blast

lemma cache_key_trim [simp]: "cache_key (trim_space a) p = cache_key a p" "cache_key a (trim_space p) = cache_key a p"
  by (simp_all add: cache_key_def trim_space_idem)

lemma note_proxy_frame [simp]:
  "fa_cache (note_proxy a p f) = fa_cache f" "fa_base (note_proxy a p f) = fa_base f" "fa_made (note_proxy a p f) = fa_made f"
  by (simp_all add: note_proxy_def)

lemma cache_ok_cong:
  "cache_ok f \<Longrightarrow> fa_cache g = fa_cache f \<Longrightarrow> fa_base g = fa_base f \<Longrightarrow> fa_made g = fa_made f \<Longrightarrow> cache_ok g"
  by (simp add: cache_ok_def client_at_def)

lemma cache_ok_sub:
  assumes "cache_ok f" "gm_wf m" "\<And>k c. gm_get m k = Some c \<Longrightarrow> gm_get (fa_cache f) k = Some c"
  shows "cache_ok (f\<lparr>fa_cache := m, fa_last_proxy := l\<rparr>)"
proof -
  have "client_at (f\<lparr>fa_cache := m, fa_last_proxy := l\<rparr>) k c" if "client_at f k c" for k c using that by (simp add: client_at_def)
  then show ?thesis using assms unfolding cache_ok_def by (simp; blast)
qed

lemma gm_filter:
  "gm_wf m \<Longrightarrow> gm_wf (filter P m)"
  "gm_wf m \<Longrightarrow> gm_get (filter P m) k = Some v \<Longrightarrow> gm_get m k = Some v \<and> P (k, v)"
proof -
  show w: "gm_wf (filter P m)" if "gm_wf m" using that by (simp add: gm_wf_def distinct_map_filter)
  show "gm_get m k = Some v \<and> P (k, v)" if "gm_wf m" "gm_get (filter P m) k = Some v"
    using that gm_in_iff [OF w [OF that(1)], of k v] gm_in_iff [OF that(1), of k v] by simp
qed

lemma client_for_cases:
  assumes "client_for parse_url socks_ok a p f = (r, f')"
  obtains (hit) c where "gm_get (fa_cache f) (cache_key a p) = Some c" "r = Inr c" "f' = note_proxy (trim_space a) (trim_space p) f"
  | (refused) e where "gm_get (fa_cache f) (cache_key a p) = None" "r = Inl e" "f' = f"
  | (built) c where "gm_get (fa_cache f) (cache_key a p) = None" "r = Inr c"
    "c = \<lparr>oc_serial = fa_made f, oc_cfg = normalize_config (fa_base f), oc_proxy = trim_space p\<rparr>"
    "f' = note_proxy (trim_space a) (trim_space p) (f\<lparr>fa_cache := gm_put (cache_key a p) c (fa_cache f), fa_made := fa_made f + 1\<rparr>)"
proof (cases "gm_get (fa_cache f) (cache_key a p)")
  case (Some c)
  have "r = Inr c" "f' = note_proxy (trim_space a) (trim_space p) f" using Some assms by (simp_all add: client_for_def)
  with Some show thesis by (rule hit)
next
  case None
  show thesis
  proof (cases "proxy_refused parse_url socks_ok (trim_space p)")
    case (Some e)
    have "r = Inl e" "f' = f" using None Some assms by (simp_all add: client_for_def build_client_def)
    with None show thesis by (rule refused)
  next
    case no: None
    let ?c = "\<lparr>oc_serial = fa_made f, oc_cfg = normalize_config (fa_base f), oc_proxy = trim_space p\<rparr>"
    have "r = Inr ?c" "f' = note_proxy (trim_space a) (trim_space p)
        (f\<lparr>fa_cache := gm_put (cache_key a p) ?c (fa_cache f), fa_made := fa_made f + 1\<rparr>)"
      using None no assms by (auto simp: client_for_def build_client_def Let_def)
    then show thesis by (intro built [OF None _ refl])
  qed
qed

lemma cache_ok_client:
  assumes "cache_ok f" "nul_free a" "nul_free p" "client_for parse_url socks_ok a p f = (r, f')"
  shows "cache_ok f'"
  using assms(4)
proof (cases rule: client_for_cases)
  case (hit c)
  then show ?thesis using cache_ok_cong [OF assms(1)] by simp
next
  case (refused e)
  then show ?thesis using assms(1) by simp
next
  case (built c)
  let ?f = "f\<lparr>fa_cache := gm_put (cache_key a p) c (fa_cache f), fa_made := fa_made f + 1\<rparr>"
  have old: "client_at ?f k d" if "client_at f k d" for k d using that by (simp add: client_at_def)
  have "nul_free (trim_space a)" "nul_free (trim_space p)" using assms(2,3) nul_free_trim by blast+
  then have new: "client_at ?f (cache_key a p) c"
    unfolding client_at_def built(3) using assms(2) by (auto simp: trim_space_idem)
  have "oc_serial d \<noteq> fa_made f" if "gm_get (fa_cache f) k = Some d" for k d
  proof -
    have "client_at f k d" using assms(1) that by (simp add: cache_ok_def)
    then show ?thesis by (simp add: client_at_def)
  qed
  then have fresh: "gm_get (fa_cache f) k = Some d \<Longrightarrow> oc_serial d \<noteq> oc_serial c" for k d
    unfolding built(3) by fastforce
  have m: "gm_get (fa_cache ?f) k = (if k = cache_key a p then Some c else gm_get (fa_cache f) k)" for k by simp
  have okd: "gm_wf (fa_cache f)" "gm_get (fa_cache f) k = Some d \<Longrightarrow> client_at f k d"
    "gm_get (fa_cache f) k = Some d \<Longrightarrow> gm_get (fa_cache f) k' = Some d' \<Longrightarrow> oc_serial d = oc_serial d' \<Longrightarrow> k = k'" for k k' d d'
    using assms(1) unfolding cache_ok_def by blast+
  have "client_at ?f k d" if "gm_get (fa_cache ?f) k = Some d" for k d
  proof (cases "k = cache_key a p")
    case True
    then show ?thesis using that new unfolding m by simp
  next
    case False
    then show ?thesis using that old okd(2) unfolding m by simp
  qed
  moreover have "k = k'" if d: "gm_get (fa_cache ?f) k = Some d" "gm_get (fa_cache ?f) k' = Some d'" "oc_serial d = oc_serial d'"
    for k k' d d'
  proof (cases "k = cache_key a p \<or> k' = cache_key a p")
    case True
    then show ?thesis using d fresh [of k d] fresh [of k' d'] unfolding m by (metis option.inject)
  next
    case False
    then show ?thesis using d okd(3) unfolding m by simp
  qed
  moreover have "gm_wf (fa_cache ?f)" using okd(1) by simp
  ultimately have "cache_ok ?f" by (intro cache_okI)
  then show ?thesis by (rule cache_ok_cong) (simp_all add: built(4))
qed

lemma reach_cache_ok: "factory_reach parse_url socks_ok f \<Longrightarrow> cache_ok f"
proof (induction rule: factory_reach.induct)
  case (Factory_Client f a p)
  then show ?case using cache_ok_client [of f a p parse_url socks_ok] by (metis prod.collapse)
next
  case (Factory_Forget f p)
  have w: "gm_wf (gm_del (trim_space p) (fa_cache f))" using Factory_Forget by (simp add: cache_ok_def)
  show ?case unfolding forget_proxy_def Let_def
    by (rule cache_ok_sub [OF Factory_Forget.IH gm_filter(1) [OF w]]) (use gm_filter(2) [OF w] in \<open>force split: if_splits\<close>)
next
  case (Factory_Account f a)
  have w: "gm_wf (fa_cache f)" using Factory_Account by (simp add: cache_ok_def)
  have "cache_ok (f\<lparr>fa_cache := filter P (fa_cache f), fa_last_proxy := l\<rparr>)" for P l
    by (rule cache_ok_sub [OF Factory_Account.IH gm_filter(1) [OF w]]) (use gm_filter(2) [OF w] in blast)
  then show ?case using Factory_Account.IH by (simp add: forget_account_def Let_def)
qed (auto simp: cache_ok_def new_factory_def apply_base_def update_base_url_def)

lemma client_for_hit:
  "gm_get (fa_cache f) (cache_key a p) = Some c \<Longrightarrow>
    client_for parse_url socks_ok a p f = (Inr c, note_proxy (trim_space a) (trim_space p) f)"
  by (simp add: client_for_def)

lemma client_for_cached:
  "client_for parse_url socks_ok a p f = (Inr c, f') \<Longrightarrow> gm_get (fa_cache f') (cache_key a p) = Some c \<and> fa_base f' = fa_base f"
  by (erule client_for_cases) auto

lemma dial_error_drops:
  assumes "cache_ok f" "trim_space a \<noteq> []"
  shows "gm_get (fa_cache (on_dial_error a p f)) (cache_key a q) = None \<and> fa_made (on_dial_error a p f) = fa_made f"
proof -
  have w: "gm_wf (fa_cache f)" using assms(1) by (simp add: cache_ok_def)
  have pre: "has_prefix (cache_key a q) (trim_space a @ [nul])" using assms(2) by (simp add: cache_key_def has_prefix_def)
  have f: "fa_cache (forget_account a f) = filter (\<lambda>(k, c). \<not> has_prefix k (trim_space a @ [nul])) (fa_cache f)"
    using assms(2) by (simp add: forget_account_def Let_def)
  have none: "gm_get (fa_cache (forget_account a f)) (cache_key a q) = None"
    using gm_filter(2) [OF w, of "\<lambda>(k, c). \<not> has_prefix k (trim_space a @ [nul])" "cache_key a q"] pre unfolding f
    by (cases "gm_get (filter (\<lambda>(k, c). \<not> has_prefix k (trim_space a @ [nul])) (fa_cache f)) (cache_key a q)") auto
  have w2: "gm_wf (gm_del (trim_space p) (fa_cache (forget_account a f)))" unfolding f using gm_filter(1) [OF w] by simp
  have fp: "fa_cache (forget_proxy p g) = filter (\<lambda>(k, c). \<not> (k = trim_space p \<or> has_suffix k (nul # trim_space p)))
      (gm_del (trim_space p) (fa_cache g))" for g
    by (simp add: forget_proxy_def Let_def)
  have "gm_get (fa_cache (forget_proxy p (forget_account a f))) (cache_key a q) \<noteq> Some c" for c
  proof
    assume "gm_get (fa_cache (forget_proxy p (forget_account a f))) (cache_key a q) = Some c"
    from gm_filter(2) [OF w2 this [unfolded fp]] none show False by (simp split: if_splits)
  qed
  then have "gm_get (fa_cache (forget_proxy p (forget_account a f))) (cache_key a q) = None"
    using not_Some_eq by blast
  moreover have "a \<noteq> []" using assms(2) trim_nonempty by blast
  moreover have "fa_made (forget_proxy p g) = fa_made g" "fa_made (forget_account a g) = fa_made g" for g
    by (simp_all add: forget_proxy_def forget_account_def Let_def)
  ultimately show ?thesis using none by (simp add: on_dial_error_def Let_def)
qed

text \<open>
  C38. Clients are per account and proxy: in every state the factory reaches, the client it gives for an
  account and a proxy is built from the configuration in force and goes through that proxy;
  it is the one given again until something is forgotten; no other account and no other proxy ever gets
  the same client; and after a connection error of the account it is not given again.
\<close>

theorem client_for_isolated:
  assumes "factory_reach parse_url socks_ok f" "nul_free a" "nul_free p" "client_for parse_url socks_ok a p f = (Inr c, f')"
  shows "oc_cfg c = normalize_config (fa_base f) \<and> oc_proxy c = trim_space p \<and>
    fst (client_for parse_url socks_ok a p f') = Inr c \<and>
    (\<forall>a' p' c' f''. nul_free a' \<and> nul_free p' \<and> client_for parse_url socks_ok a' p' f' = (Inr c', f'') \<and>
        oc_serial c' = oc_serial c \<longrightarrow> trim_space a' = trim_space a \<and> trim_space p' = trim_space p) \<and>
    (trim_space a \<noteq> [] \<longrightarrow> fst (client_for parse_url socks_ok a p (on_dial_error a p f')) \<noteq> Inr c)"
proof -
  have ok: "cache_ok f'" using cache_ok_client [OF reach_cache_ok [OF assms(1)] assms(2-4)] .
  have c: "gm_get (fa_cache f') (cache_key a p) = Some c" "fa_base f' = fa_base f" using client_for_cached [OF assms(4)] by simp_all
  then have at: "client_at f' (cache_key a p) c" using ok by (simp add: cache_ok_def)
  then obtain b where b: "nul_free b" "nul_free (oc_proxy c)" "cache_key a p = cache_key b (oc_proxy c)" "trim_space (oc_proxy c) = oc_proxy c"
    by (auto simp: client_at_def)
  have "oc_proxy c = trim_space p" using cache_key_inj [OF assms(2,3) b(1-3)] b(4) by simp
  moreover have "trim_space a' = trim_space a \<and> trim_space p' = trim_space p"
    if n: "nul_free a'" "nul_free p'" and e: "client_for parse_url socks_ok a' p' f' = (Inr c', f'')" "oc_serial c' = oc_serial c"
    for a' p' c' f''
    using e(1)
  proof (cases rule: client_for_cases)
    case (hit d)
    then have "cache_key a' p' = cache_key a p" using ok c(1) e(2) unfolding cache_ok_def by blast
    then show ?thesis using cache_key_inj [OF n assms(2,3)] by blast
  next
    case (built d)
    then show ?thesis using at e(2) by (simp add: client_at_def)
  qed simp
  moreover have "fst (client_for parse_url socks_ok a p (on_dial_error a p f')) \<noteq> Inr c" if a: "trim_space a \<noteq> []"
  proof -
    obtain r g where r: "client_for parse_url socks_ok a p (on_dial_error a p f') = (r, g)" by fastforce
    from r show ?thesis
    proof (cases rule: client_for_cases)
      case (built d)
      then show ?thesis using at dial_error_drops [OF ok a] r by (auto simp: client_at_def)
    qed (use dial_error_drops [OF ok a] r in auto)
  qed
  moreover have "oc_cfg c = normalize_config (fa_base f)" using at c(2) by (simp add: client_at_def)
  moreover have "fst (client_for parse_url socks_ok a p f') = Inr c" by (simp add: client_for_hit [OF c(1)])
  ultimately show ?thesis by blast
qed

definition sample_factory :: factory where
  "sample_factory = new_factory \<lparr>uc_base_url = [], uc_client_version = [], uc_client_identifier = [], uc_token_auth = [],
      uc_user_agent = [], uc_request_timeout = 0\<rparr>"

theorem client_for_isolated_witness:
  "case client_for (\<lambda>u. Some (''http'', u)) (\<lambda>u. True) ''a'' '' p '' sample_factory of
     (Inl e, f') \<Rightarrow> False
   | (Inr c, f') \<Rightarrow> oc_proxy c = ''p'' \<and> fst (client_for (\<lambda>u. Some (''http'', u)) (\<lambda>u. True) ''a'' '' p '' (on_dial_error ''a'' '' p '' f')) \<noteq> Inr c"
proof -
  let ?r = "client_for (\<lambda>u. Some (''http'', u)) (\<lambda>u. True) ''a'' '' p '' sample_factory"
  have "case fst ?r of Inl e \<Rightarrow> False | Inr c \<Rightarrow> True" by code_simp
  then obtain c f' where r: "?r = (Inr c, f')" by (cases ?r; cases "fst ?r") auto
  have t: "trim_space '' p '' = ''p''" "trim_space ''a'' \<noteq> []" "nul_free ''a''" "nul_free '' p ''" by code_simp+
  have "factory_reach (\<lambda>u. Some (''http'', u)) (\<lambda>u. True) sample_factory" unfolding sample_factory_def by (rule Factory_New)
  from client_for_isolated [OF this t(3,4) r] t have "oc_proxy c = ''p''" by simp
  moreover from client_for_isolated [OF \<open>factory_reach _ _ _\<close> t(3,4) r] t(2)
  have "fst (client_for (\<lambda>u. Some (''http'', u)) (\<lambda>u. True) ''a'' '' p '' (on_dial_error ''a'' '' p '' f')) \<noteq> Inr c" by blast
  ultimately show ?thesis using r by simp
qed

end
