(* ===== verification/Json.thy ===== *)
theory Json
  imports Prelude
begin

text \<open>
  JSON values as the code sees them after decoding into \<open>any\<close>: an object is a Go map, a number is
  its literal (\<open>json.Number\<close>). The decoder of the library is a parameter where it is used. Also
  the byte-string searches (\<open>bytes.Split\<close>, \<open>Contains\<close>, \<open>LastIndex\<close>) that the code does on
  raw bodies, and the cost of a response in quota units (\<open>internal/clients/usage.go\<close>,
  \<open>usage_parse.go\<close>).
\<close>

datatype json = JNull | JBool bool | JNum string | JStr string | JArr "json list" | JObj "(string \<times> json) list"

text \<open>\<open>m[k]\<close> on a \<open>map[string]any\<close>: \<open>nil\<close> when the key is missing.\<close>

definition json_get :: "(string, json) gomap \<Rightarrow> string \<Rightarrow> json" where
  "json_get m k = gm_default JNull m k"

definition json_object :: "json \<Rightarrow> (string, json) gomap option" where
  "json_object v = (case v of JObj m \<Rightarrow> Some m | _ \<Rightarrow> None)"

definition json_string :: "json \<Rightarrow> string option" where
  "json_string v = (case v of JStr s \<Rightarrow> Some s | _ \<Rightarrow> None)"

text \<open>
  \<open>json.Unmarshal\<close> into a field of a struct: missing and \<open>null\<close> are the zero value, the last of equal names
  wins, and \<open>None\<close> is the error of another type.
\<close>

definition entry_text :: "(string \<times> json) list \<Rightarrow> string \<Rightarrow> string option" where
  "entry_text ms k =
     (case map_of (rev ms) k of None \<Rightarrow> Some [] | Some JNull \<Rightarrow> Some [] | Some (JStr s) \<Rightarrow> Some s | Some v \<Rightarrow> None)"

definition entry_bool :: "(string \<times> json) list \<Rightarrow> string \<Rightarrow> bool option" where
  "entry_bool ms k =
     (case map_of (rev ms) k of None \<Rightarrow> Some False | Some JNull \<Rightarrow> Some False | Some (JBool b) \<Rightarrow> Some b | Some v \<Rightarrow> None)"

definition entry_int :: "(string \<times> json) list \<Rightarrow> string \<Rightarrow> int option" where
  "entry_int ms k =
     (case map_of (rev ms) k of None \<Rightarrow> Some 0 | Some JNull \<Rightarrow> Some 0 | Some (JNum s) \<Rightarrow> atoi s | Some v \<Rightarrow> None)"

section \<open>Searching byte strings\<close>

fun str_contains :: "string \<Rightarrow> string \<Rightarrow> bool" where
  "str_contains [] p = (p = [])"
| "str_contains (c # cs) p = (has_prefix (c # cs) p \<or> str_contains cs p)"

fun last_index :: "string \<Rightarrow> string \<Rightarrow> nat option" where
  "last_index [] p = (if p = [] then Some 0 else None)"
| "last_index (c # cs) p =
     (case last_index cs p of
        Some n \<Rightarrow> Some (Suc n)
      | None \<Rightarrow> if has_prefix (c # cs) p then Some 0 else None)"

fun split_on :: "char \<Rightarrow> string \<Rightarrow> string list" where
  "split_on d [] = [[]]"
| "split_on d (c # cs) =
     (if c = d then [] # split_on d cs
      else case split_on d cs of [] \<Rightarrow> [[c]] | w # ws \<Rightarrow> (c # w) # ws)"

definition trim_prefix :: "string \<Rightarrow> string \<Rightarrow> string" where
  "trim_prefix s p = (if has_prefix s p then drop (length p) s else s)"

text \<open>\<open>bufio.ScanLines\<close>: the last line is one if not empty, and a carriage return before the newline is dropped.\<close>

definition raw_lines :: "string \<Rightarrow> string list" where
  "raw_lines s = (let ls = split_on (CHR 0x0A) s in if last ls = [] then butlast ls else ls)"

definition drop_cr :: "string \<Rightarrow> string" where
  "drop_cr l = (if l \<noteq> [] \<and> last l = CHR 0x0D then butlast l else l)"

definition scan_lines :: "string \<Rightarrow> string list" where
  "scan_lines s = map drop_cr (raw_lines s)"

section \<open>The cost of a response\<close>

definition usage_cost_from_tokens :: "int \<Rightarrow> int \<Rightarrow> int" where
  "usage_cost_from_tokens inp out =
     (let i = (if inp < 0 then 0 else inp); o' = (if out < 0 then 0 else out);
          tot = wrap64 (i + o'); cost = tot sdiv 1000 in
      if cost < 1 then 1 else cost)"

text \<open>
  \<open>as_int64\<close> on a number: \<open>Int64\<close>, else \<open>Float64\<close> converted, which is the parameter
  \<open>float_int\<close>.
\<close>

definition as_int64 :: "(string \<Rightarrow> int option) \<Rightarrow> json \<Rightarrow> int option" where
  "as_int64 float_int v =
     (case v of JNum s \<Rightarrow> (case atoi s of Some n \<Rightarrow> Some n | None \<Rightarrow> float_int s) | _ \<Rightarrow> None)"

definition cost_from_usage_map :: "(string \<Rightarrow> int option) \<Rightarrow> (string, json) gomap \<Rightarrow> int option" where
  "cost_from_usage_map float_int m =
     (let get = (\<lambda>k. as_int64 float_int (json_get m k));
          inp = (case get ''input_tokens'' of None \<Rightarrow> get ''prompt_tokens'' | Some n \<Rightarrow> Some n);
          out = (case get ''output_tokens'' of None \<Rightarrow> get ''completion_tokens'' | Some n \<Rightarrow> Some n);
          val = (\<lambda>v. case v of None \<Rightarrow> 0 | Some n \<Rightarrow> n) in
      if inp \<noteq> None \<or> out \<noteq> None then Some (usage_cost_from_tokens (val inp) (val out))
      else case get ''total_tokens'' of
        Some tot \<Rightarrow> if tot > 0 then Some (usage_cost_from_tokens tot 0) else None
      | None \<Rightarrow> None)"

text \<open>The usage object under a path of keys.\<close>

fun usage_at :: "string list \<Rightarrow> json \<Rightarrow> (string, json) gomap option" where
  "usage_at [] v = json_object v"
| "usage_at (k # ks) v = (case v of JObj m \<Rightarrow> usage_at ks (json_get m k) | _ \<Rightarrow> None)"

definition parse_usage_cost_from_body ::
  "(string \<Rightarrow> json option) \<Rightarrow> (string \<Rightarrow> int option) \<Rightarrow> string \<Rightarrow> int option" where
  "parse_usage_cost_from_body decode float_int body0 =
     (let body = trim_space body0 in
      if body = [] \<or> hd body \<noteq> CHR ''{'' then None
      else case decode body of
        None \<Rightarrow> None
      | Some rt \<Rightarrow>
          (case usage_at [''usage''] rt of
             Some u \<Rightarrow> cost_from_usage_map float_int u
           | None \<Rightarrow>
               (case usage_at [''response'', ''usage''] rt of
                  Some u \<Rightarrow> cost_from_usage_map float_int u
                | None \<Rightarrow> None)))"

text \<open>The first of several usage objects that gives a cost.\<close>

fun first_cost :: "(string \<Rightarrow> int option) \<Rightarrow> json \<Rightarrow> string list list \<Rightarrow> int option" where
  "first_cost float_int rt [] = None"
| "first_cost float_int rt (p # ps) =
     (case (case usage_at p rt of None \<Rightarrow> None | Some u \<Rightarrow> cost_from_usage_map float_int u) of
        Some c \<Rightarrow> Some c
      | None \<Rightarrow> first_cost float_int rt ps)"

definition sse_line_cost :: "(string \<Rightarrow> json option) \<Rightarrow> (string \<Rightarrow> int option) \<Rightarrow> string \<Rightarrow> int option" where
  "sse_line_cost decode float_int line0 =
     (let line = trim_space line0 in
      if \<not> has_prefix line ''data:'' then None
      else let payload = trim_space (trim_prefix line ''data:'') in
       if payload = [] \<or> payload = ''[DONE]'' then None
       else if \<not> str_contains payload ''usage'' then None
       else case decode payload of
         Some (JObj m) \<Rightarrow> first_cost float_int (JObj m) [[''usage''], [''response'', ''usage''], [''message'', ''usage'']]
       | _ \<Rightarrow> None)"

fun sse_scan :: "(string \<Rightarrow> json option) \<Rightarrow> (string \<Rightarrow> int option) \<Rightarrow> string list \<Rightarrow> int option" where
  "sse_scan decode float_int [] = None"
| "sse_scan decode float_int (line # lines) =
     (case sse_line_cost decode float_int line of
        Some c \<Rightarrow> Some c
      | None \<Rightarrow> sse_scan decode float_int lines)"

text \<open>The bytes that the scan of a stream looks at.\<close>

definition max_scan :: int where "max_scan = 262144"

definition tail_of :: "int \<Rightarrow> string \<Rightarrow> string" where
  "tail_of n s = (if int (length s) > n then drop (nat (int (length s) - n)) s else s)"

definition parse_usage_cost_from_sse ::
  "(string \<Rightarrow> json option) \<Rightarrow> (string \<Rightarrow> int option) \<Rightarrow> string \<Rightarrow> int option" where
  "parse_usage_cost_from_sse decode float_int body =
     (if body = [] then None
      else let data = tail_of max_scan body in
       case sse_scan decode float_int (rev (split_on (CHR 0x0A) data)) of
         Some c \<Rightarrow> Some c
       | None \<Rightarrow>
           (case last_index data (CHR 0x22 # ''usage'' @ [CHR 0x22]) of
              None \<Rightarrow> None
            | Some i \<Rightarrow>
                (case last_index (take i data) ''{'' of
                   None \<Rightarrow> None
                 | Some j \<Rightarrow>
                     (case decode (drop j data) of
                        None \<Rightarrow> None
                      | Some rt \<Rightarrow>
                          (case usage_at [''usage''] rt of
                             Some u \<Rightarrow> cost_from_usage_map float_int u
                           | None \<Rightarrow> None)))))"

lemma usage_cost_pos: "1 \<le> usage_cost_from_tokens i out"
  by (simp add: usage_cost_from_tokens_def Let_def)

lemma cost_from_usage_pos: "cost_from_usage_map float_int m = Some c \<Longrightarrow> 1 \<le> c"
  by (auto simp: cost_from_usage_map_def Let_def usage_cost_pos split: if_splits option.splits)

lemma first_cost_pos: "first_cost float_int rt ps = Some c \<Longrightarrow> 1 \<le> c"
  by (induction float_int rt ps rule: first_cost.induct) (auto split: option.splits dest: cost_from_usage_pos)

lemma body_cost_pos: "parse_usage_cost_from_body decode float_int b = Some c \<Longrightarrow> 1 \<le> c"
  by (auto simp: parse_usage_cost_from_body_def Let_def split: if_splits option.splits dest: cost_from_usage_pos)

lemma sse_line_cost_pos: "sse_line_cost decode float_int l = Some c \<Longrightarrow> 1 \<le> c"
  by (auto simp: sse_line_cost_def Let_def simp del: first_cost.simps split: if_splits option.splits json.splits
      dest: first_cost_pos)

lemma sse_scan_pos: "sse_scan decode float_int ls = Some c \<Longrightarrow> 1 \<le> c"
  by (induction ls) (auto split: option.splits dest: sse_line_cost_pos)

lemma sse_cost_pos: "parse_usage_cost_from_sse decode float_int b = Some c \<Longrightarrow> 1 \<le> c"
  by (auto simp: parse_usage_cost_from_sse_def Let_def split: if_splits option.splits
      dest: cost_from_usage_pos sse_scan_pos)

end
