(* ===== verification/Middleware.thy ===== *)
theory Middleware
  imports Clients Outbound Json
begin

text \<open>
  The middleware in front of the API (\<open>internal/httpserver/middleware.go\<close>): the global limit of
  concurrent requests, the authentication of clients with their slots and quota, and the recorder
  that measures what a response used. A handler is what it does to the response writer; the
  readings of the clock are arguments.
\<close>

section \<open>Keys and ids\<close>

definition xor_byte :: "char \<Rightarrow> char \<Rightarrow> 8 word" where
  "xor_byte a b = xor (of_char a) (of_char b)"

definition constant_time_eq :: "string \<Rightarrow> string \<Rightarrow> bool" where
  "constant_time_eq a b \<longleftrightarrow>
     (if length a \<noteq> length b then False else foldl (\<lambda>v (x, y). or v (xor_byte x y)) 0 (zip a b) = 0)"

text \<open>\<open>strings.EqualFold\<close> with a constant whose letters fold to ASCII only.\<close>

definition extract_api_key :: "http_header \<Rightarrow> string" where
  "extract_api_key h =
     (let x = trim_space (header_get h ''x-api-key''); authz = trim_space (header_get h ''Authorization'');
          anthropic = trim_space (header_get h ''anthropic-api-key'') in
      if x \<noteq> [] then x
      else if trim_space (header_get h ''X-Api-Key'') \<noteq> [] then trim_space (header_get h ''X-Api-Key'')
      else if length authz \<ge> 7 \<and> to_lower (take 7 authz) = ''bearer '' then trim_space (drop 7 authz)
      else anthropic)"

definition request_id_char :: "char \<Rightarrow> bool" where
  "request_id_char c \<longleftrightarrow> (CHR ''a'' \<le> c \<and> c \<le> CHR ''z'') \<or> (CHR ''A'' \<le> c \<and> c \<le> CHR ''Z'') \<or>
     (CHR ''0'' \<le> c \<and> c \<le> CHR ''9'') \<or> c = CHR ''-'' \<or> c = CHR ''_'' \<or> c = CHR ''.''"

definition normalize_request_id :: "string \<Rightarrow> string" where
  "normalize_request_id v0 =
     (let v = trim_space v0 in
      if v = [] \<or> length v > 128 then [] else if list_all request_id_char v then v else [])"

definition route_label :: "string \<Rightarrow> string" where
  "route_label path =
     (if path \<in> {''/healthz'', ''/readyz'', ''/metrics''} then path
      else case find (has_prefix path) [''/v1/messages'', ''/v1/chat/completions'', ''/v1/responses'', ''/v1/models''] of
        Some p \<Rightarrow> p
      | None \<Rightarrow> ''other'')"

section \<open>The global limit\<close>

record limiter =
  lm_limit :: int
  lm_in_use :: int

definition new_limiter :: "int \<Rightarrow> limiter" where
  "new_limiter n = \<lparr>lm_limit = (if n < 0 then 0 else n), lm_in_use = 0\<rparr>"

definition set_limit :: "int \<Rightarrow> limiter \<Rightarrow> limiter" where
  "set_limit n l = l\<lparr>lm_limit := (if n < 0 then 0 else n)\<rparr>"

definition try_acquire :: "limiter \<Rightarrow> bool \<times> limiter" where
  "try_acquire l =
     (if lm_limit l > 0 \<and> lm_in_use l \<ge> lm_limit l then (False, l)
      else (True, l\<lparr>lm_in_use := wrap64 (lm_in_use l + 1)\<rparr>))"

definition limiter_release :: "limiter \<Rightarrow> limiter" where
  "limiter_release l = (if lm_in_use l > 0 then l\<lparr>lm_in_use := lm_in_use l - 1\<rparr> else l)"

section \<open>The recorder of a response\<close>

text \<open>What a handler does to its writer.\<close>

datatype write_op = WriteHeader int | WriteBytes string

record usage_recorder =
  ur_code :: int
  ur_buf :: string
  ur_wrote_hdr :: bool

definition new_recorder :: usage_recorder where
  "new_recorder = \<lparr>ur_code = 200, ur_buf = [], ur_wrote_hdr = False\<rparr>"

definition default_usage_capture :: int where "default_usage_capture = 524288"

definition recorder_header :: "int \<Rightarrow> usage_recorder \<Rightarrow> usage_recorder" where
  "recorder_header code r = (if ur_wrote_hdr r then r else r\<lparr>ur_code := code, ur_wrote_hdr := True\<rparr>)"

definition recorder_write :: "int \<Rightarrow> string \<Rightarrow> usage_recorder \<Rightarrow> usage_recorder" where
  "recorder_write max_capture p r0 =
     (let r = (if ur_wrote_hdr r0 then r0 else recorder_header 200 r0);
          mx = (if max_capture \<le> 0 then default_usage_capture else max_capture); buf = ur_buf r in
      r\<lparr>ur_buf :=
        (if int (length buf) + int (length p) \<le> mx then buf @ p
         else if int (length p) \<ge> mx then drop (nat (int (length p) - mx)) p
         else let keep = mx - int (length p);
                  keep = (if keep > int (length buf) then int (length buf) else keep) in
              drop (nat (int (length buf) - keep)) buf @ p)\<rparr>)"

fun record_op :: "int \<Rightarrow> write_op \<Rightarrow> usage_recorder \<Rightarrow> usage_recorder" where
  "record_op mx (WriteHeader code) r = recorder_header code r"
| "record_op mx (WriteBytes p) r = recorder_write mx p r"

definition parsed_cost :: "(string \<Rightarrow> json option) \<Rightarrow> (string \<Rightarrow> int option) \<Rightarrow> usage_recorder \<Rightarrow> int option" where
  "parsed_cost decode float_int r =
     (if ur_buf r = [] then None
      else case parse_usage_cost_from_body decode float_int (ur_buf r) of
        Some c \<Rightarrow> Some c
      | None \<Rightarrow> parse_usage_cost_from_sse decode float_int (ur_buf r))"

section \<open>Clients\<close>

record mw_config =
  mc_api_key :: string
  mc_token_store :: bool

datatype reject_reason =
  NoKey | BadKey | TokenDisabled | TokenExpired | QuotaUsedUp | RpmReached | TokenBusy | SlotError | TooManyRequests

text \<open>\<open>NoKey\<close> and its like stand for the texts of the answers; the number is the status.\<close>

definition auth_reject :: "client_error \<Rightarrow> int \<times> reject_reason" where
  "auth_reject e =
     (case e of ClDisabled \<Rightarrow> (403, TokenDisabled) | ClExpired \<Rightarrow> (403, TokenExpired)
      | ClQuotaExceeded \<Rightarrow> (402, QuotaUsedUp) | _ \<Rightarrow> (401, BadKey))"

definition slot_reject :: "client_error \<Rightarrow> int \<times> reject_reason" where
  "slot_reject e =
     (503, case e of ClRPMLimit n \<Rightarrow> RpmReached | ClConcurrencyLimit n \<Rightarrow> TokenBusy | _ \<Rightarrow> SlotError)"

record mw_state =
  ms_store :: client_store
  ms_limiter :: limiter
  ms_rejects :: "64 word"

definition inc_reject :: "mw_state \<Rightarrow> mw_state" where
  "inc_reject s = s\<lparr>ms_rejects := ms_rejects s + 1\<rparr>"

text \<open>The part of a request with a token before its handler: the reservation gives the slot back when it fails.\<close>

definition reserve_units :: int where "reserve_units = 1"

definition admit_token ::
  "(string \<Rightarrow> string) \<Rightarrow> int \<times> int \<times> int \<Rightarrow> string \<Rightarrow> mw_state \<Rightarrow> (int \<times> reject_reason + auth_info) \<times> mw_state" where
  "admit_token hash = (\<lambda>(t1, t2, t3) key s.
     case cl_authenticate hash t1 key (ms_store s) of
       Inl e \<Rightarrow> (Inl (auth_reject e), s)
     | Inr info \<Rightarrow>
         (case acquire_slot t2 (ai_token_id info) (ai_max_concurrent info) (ai_rpm info) (ms_store s) of
            (Some e, st) \<Rightarrow> (Inl (slot_reject e), inc_reject (s\<lparr>ms_store := st\<rparr>))
          | (None, st) \<Rightarrow>
              (case reserve_quota t3 (ai_token_id info) reserve_units st of
                 (Some e, st2) \<Rightarrow>
                   (Inl (if e = ClQuotaExceeded then (402, QuotaUsedUp) else (401, BadKey)),
                    s\<lparr>ms_store := release_slot (ai_token_id info) st2\<rparr>)
               | (None, st2) \<Rightarrow> (Inr info, s\<lparr>ms_store := st2\<rparr>))))"

text \<open>\<open>RequireClient\<close> before the handler; \<open>None\<close> is a request that is not metered.\<close>

definition require_client ::
  "mw_config \<Rightarrow> (string \<Rightarrow> string) \<Rightarrow> int \<times> int \<times> int \<Rightarrow> http_header \<Rightarrow> mw_state
   \<Rightarrow> (int \<times> reject_reason + auth_info option) \<times> mw_state" where
  "require_client cfg hash clk h s =
     (let key = extract_api_key h in
      if mc_token_store cfg then
        if key = [] then (Inl (401, NoKey), s)
        else if trim_space (mc_api_key cfg) \<noteq> [] \<and> constant_time_eq key (mc_api_key cfg) then (Inr None, s)
        else case admit_token hash clk key s of (Inl e, s') \<Rightarrow> (Inl e, s') | (Inr info, s') \<Rightarrow> (Inr (Some info), s')
      else if trim_space (mc_api_key cfg) = [] then (Inr None, s)
      else if key = [] then (Inl (401, NoKey), s)
      else if \<not> constant_time_eq key (mc_api_key cfg) then (Inl (401, BadKey), s)
      else (Inr None, s))"

text \<open>How a handler ends: it returns, having written, or it panics.\<close>

datatype handler_end = Returned "write_op list" | Panicked

definition settle_response ::
  "(string \<Rightarrow> json option) \<Rightarrow> (string \<Rightarrow> int option) \<Rightarrow> int \<Rightarrow> string \<Rightarrow> usage_recorder \<Rightarrow> client_store \<Rightarrow> client_store" where
  "settle_response decode float_int now i rw st =
     (if 200 \<le> ur_code rw \<and> ur_code rw < 500
      then snd (settle_usage now i reserve_units
             (case parsed_cost decode float_int rw of None \<Rightarrow> 1 | Some c \<Rightarrow> c) st)
      else snd (refund_quota now i reserve_units st))"

definition finish_token ::
  "(string \<Rightarrow> json option) \<Rightarrow> (string \<Rightarrow> int option) \<Rightarrow> int \<times> handler_end \<Rightarrow> auth_info \<Rightarrow> mw_state \<Rightarrow> mw_state" where
  "finish_token decode float_int = (\<lambda>(now, e) info s.
     s\<lparr>ms_store := release_slot (ai_token_id info)
        (case e of
           Panicked \<Rightarrow> ms_store s
         | Returned ops \<Rightarrow>
             settle_response decode float_int now (ai_token_id info) (fold (record_op 0) ops new_recorder) (ms_store s))\<rparr>)"

section \<open>The chain of the API\<close>

text \<open>\<open>Chain(api, LimitConcurrency, LimitBody, RequireClient)\<close> around a request.\<close>

definition api_enter ::
  "mw_config \<Rightarrow> (string \<Rightarrow> string) \<Rightarrow> (int \<times> int \<times> int) \<times> http_header \<Rightarrow> mw_state
   \<Rightarrow> (int \<times> reject_reason + auth_info option) \<times> mw_state" where
  "api_enter cfg hash = (\<lambda>(clk, h) s.
     case try_acquire (ms_limiter s) of
       (False, l) \<Rightarrow> (Inl (503, TooManyRequests), inc_reject s)
     | (True, l) \<Rightarrow>
         (case require_client cfg hash clk h (s\<lparr>ms_limiter := l\<rparr>) of
            (Inl e, s') \<Rightarrow> (Inl e, s'\<lparr>ms_limiter := limiter_release (ms_limiter s')\<rparr>)
          | (Inr a, s') \<Rightarrow> (Inr a, s')))"

definition api_leave ::
  "(string \<Rightarrow> json option) \<Rightarrow> (string \<Rightarrow> int option) \<Rightarrow> int \<times> handler_end \<Rightarrow> auth_info option \<Rightarrow> mw_state \<Rightarrow> mw_state" where
  "api_leave decode float_int b a s =
     (let s' = (case a of None \<Rightarrow> s | Some info \<Rightarrow> finish_token decode float_int b info s) in
      s'\<lparr>ms_limiter := limiter_release (ms_limiter s')\<rparr>)"

section \<open>The gates\<close>

definition token_enter ::
  "(string \<Rightarrow> string) \<Rightarrow> (int \<times> int \<times> int) \<times> string \<Rightarrow> mw_state \<Rightarrow> auth_info option \<times> mw_state" where
  "token_enter hash a s =
     (case admit_token hash (fst a) (snd a) s of (Inl e, s') \<Rightarrow> (None, s') | (Inr info, s') \<Rightarrow> (Some info, s'))"

definition api_ticket ::
  "mw_config \<Rightarrow> (string \<Rightarrow> string) \<Rightarrow> (int \<times> int \<times> int) \<times> http_header \<Rightarrow> mw_state \<Rightarrow> auth_info option option \<times> mw_state" where
  "api_ticket cfg hash a s = (case api_enter cfg hash a s of (Inl e, s') \<Rightarrow> (None, s') | (Inr t, s') \<Rightarrow> (Some t, s'))"

definition token_count :: "mw_state \<Rightarrow> string \<Rightarrow> int" where
  "token_count s = current_inflight (ms_store s)"

lemma quota_inflight [simp]:
  "current_inflight (snd (settle_usage now i n c st)) = current_inflight st"
  "current_inflight (snd (refund_quota now i n st)) = current_inflight st"
  "current_inflight (snd (reserve_quota now i n st)) = current_inflight st"
  by (auto simp: settle_usage_def refund_quota_def reserve_quota_def current_inflight_def Let_def fun_eq_iff split: option.split)

lemma settle_response_inflight [simp]:
  "current_inflight (settle_response decode float_int now i rw st) = current_inflight st"
  by (simp add: settle_response_def)

lemma admit_limiter:
  "admit_token hash clk key s = (r, s') \<Longrightarrow> ms_limiter s' = ms_limiter s"
  by (cases clk) (auto simp: admit_token_def inc_reject_def split: sum.splits option.splits prod.splits)

lemma admit_count:
  assumes "admit_token hash clk key s = (r, s')" "\<And>j. 0 \<le> token_count s j \<and> token_count s j < 2 ^ 63 - 1"
  shows "case r of
      Inl e \<Rightarrow> token_count s' = token_count s
    | Inr info \<Rightarrow> ai_token_id info \<noteq> [] \<and>
        token_count s' = (token_count s)(ai_token_id info := token_count s (ai_token_id info) + 1)"
proof -
  obtain t1 t2 t3 where clk: "clk = (t1, t2, t3)" by (cases clk)
  show ?thesis
  proof (cases "cl_authenticate hash t1 key (ms_store s)")
    case (Inl e)
    then show ?thesis using assms(1) by (auto simp: admit_token_def clk)
  next
    case (Inr info)
    define i where "i = ai_token_id info"
    obtain e st where a: "acquire_slot t2 i (ai_max_concurrent info) (ai_rpm info) (ms_store s) = (e, st)" by fastforce
    have bnd: "0 \<le> current_inflight (ms_store s) i" "current_inflight (ms_store s) i < 2 ^ 63 - 1"
      using assms(2) [of i] by (simp_all add: token_count_def)
    note c = acquire_slot_count [OF bnd, of t2 "ai_max_concurrent info" "ai_rpm info"]
    show ?thesis
    proof (cases e)
      case (Some err)
      then show ?thesis using assms(1) a Inr c
        by (auto simp: admit_token_def clk token_count_def inc_reject_def simp flip: i_def)
    next
      case None
      obtain q st2 where q: "reserve_quota t3 i reserve_units st = (q, st2)" by fastforce
      have "current_inflight st2 = current_inflight st" using quota_inflight(3) [of t3 i reserve_units st] q by simp
      moreover have "i \<noteq> []" "current_inflight st = (current_inflight (ms_store s))(i := current_inflight (ms_store s) i + 1)"
        using a None c by auto
      ultimately show ?thesis using assms(1) a Inr None q bnd release_slot_count [of i st2]
        by (auto simp: admit_token_def clk token_count_def simp flip: i_def split: option.splits)
    qed
  qed
qed

lemma finish_count:
  assumes "ai_token_id info \<noteq> []" "0 < token_count s (ai_token_id info)"
  shows "token_count (finish_token decode float_int b info s) =
    (token_count s)(ai_token_id info := token_count s (ai_token_id info) - 1)"
  using assms by (cases b) (simp add: finish_token_def token_count_def release_slot_count split: handler_end.split)

interpretation client_gate: inflight_gate "\<lambda>s. True" token_count ai_token_id "\<lambda>i. ai_token_id i \<noteq> []"
  "token_enter hash" "finish_token decode float_int" "2 ^ 63 - 1" for hash decode float_int
proof
  fix s s' :: mw_state and a :: "(int \<times> int \<times> int) \<times> string" and info
  assume bnd: "\<And>j. 0 \<le> token_count s j \<and> token_count s j < 2 ^ 63 - 1"
  obtain r t where r: "admit_token hash (fst a) (snd a) s = (r, t)" by fastforce
  note c = admit_count [OF r bnd]
  show "True \<and> ai_token_id info \<noteq> [] \<and> token_count s' = (token_count s)(ai_token_id info := token_count s (ai_token_id info) + 1)"
    if "token_enter hash a s = (Some info, s')"
    using that r c by (cases r) (auto simp: token_enter_def)
  show "True \<and> token_count s' = token_count s" if "token_enter hash a s = (None, s')"
    using that r c by (cases r) (auto simp: token_enter_def)
qed (simp add: finish_count)

text \<open>The global limit, with every request that passed it as one holder.\<close>

definition global_count :: "mw_state \<Rightarrow> unit \<Rightarrow> int" where
  "global_count s = (\<lambda>u. lm_in_use (ms_limiter s))"

definition global_cap :: "int \<Rightarrow> int" where
  "global_cap n = (if n > 0 then n else 2 ^ 63 - 1)"

lemma require_limiter: "require_client cfg hash clk h s = (r, s') \<Longrightarrow> ms_limiter s' = ms_limiter s"
  by (auto simp: require_client_def Let_def dest: admit_limiter split: if_splits sum.splits prod.splits)

lemma finish_limiter [simp]: "ms_limiter (finish_token decode float_int b info s) = ms_limiter s"
  by (cases b) (simp add: finish_token_def)

lemma api_enter_global:
  assumes "api_ticket cfg hash a s = (t, s')" "0 \<le> global_count s () \<and> global_count s () < 2 ^ 63 - 1"
  shows "lm_limit (ms_limiter s') = lm_limit (ms_limiter s) \<and>
    global_count s' () = (if t = None then global_count s () else global_count s () + 1) \<and>
    (t \<noteq> None \<longrightarrow> global_count s' () \<le> global_cap (lm_limit (ms_limiter s)))"
proof -
  obtain clk h where a: "a = (clk, h)" by (cases a)
  obtain ok l where acq: "try_acquire (ms_limiter s) = (ok, l)" by fastforce
  show ?thesis
  proof (cases ok)
    case False
    then show ?thesis using assms acq
      by (auto simp: api_ticket_def api_enter_def a inc_reject_def global_count_def)
  next
    case True
    then have l: "lm_limit l = lm_limit (ms_limiter s)" "lm_in_use l = lm_in_use (ms_limiter s) + 1"
      "lm_in_use l \<le> global_cap (lm_limit l)"
      using acq assms(2) by (auto simp: try_acquire_def global_count_def global_cap_def split: if_splits)
    obtain r s1 where r: "require_client cfg hash clk h (s\<lparr>ms_limiter := l\<rparr>) = (r, s1)" by fastforce
    have "ms_limiter s1 = l" using require_limiter [OF r] by simp
    then show ?thesis using assms acq True r l
      by (cases r) (auto simp: api_ticket_def api_enter_def a global_count_def limiter_release_def)
  qed
qed

interpretation global_gate: capped_gate "\<lambda>s. lm_limit (ms_limiter s) = n" global_count "\<lambda>t. ()" "\<lambda>t. True"
  "api_ticket cfg hash" "api_leave decode float_int" "2 ^ 63 - 1" "\<lambda>u. global_cap n" for n cfg hash decode float_int
proof
  fix s s' :: mw_state and a :: "(int \<times> int \<times> int) \<times> http_header" and t
  assume n: "lm_limit (ms_limiter s) = n" and bnd: "\<And>j. 0 \<le> global_count s j \<and> global_count s j < 2 ^ 63 - 1"
  show "lm_limit (ms_limiter s') = n \<and> True \<and> global_count s' = (global_count s)(() := global_count s () + 1)"
    "global_count s' () \<le> global_cap n" if "api_ticket cfg hash a s = (Some t, s')"
    using api_enter_global [OF that bnd] n by (auto simp: fun_eq_iff)
  show "lm_limit (ms_limiter s') = n \<and> global_count s' = global_count s" if "api_ticket cfg hash a s = (None, s')"
    using api_enter_global [OF that bnd] n by (auto simp: fun_eq_iff)
next
  fix s :: mw_state and t b
  assume n: "lm_limit (ms_limiter s) = n" and "0 < global_count s ()"
  then show "lm_limit (ms_limiter (api_leave decode float_int b t s)) = n \<and>
      global_count (api_leave decode float_int b t s) = (global_count s)(() := global_count s () - 1)"
    by (auto simp: api_leave_def Let_def global_count_def limiter_release_def fun_eq_iff split: option.split)
qed

lemma held_unit: "global_gate.held out () = int (length out)"
  by (induction out) (simp_all add: inflight_gate.held_def [OF global_gate.inflight_gate_axioms])

definition sample_mw :: mw_state where
  "sample_mw = \<lparr>ms_store = sample_clients, ms_limiter = new_limiter 1, ms_rejects = 0\<rparr>"

text \<open>
  The global limit is exact and hard: over any interleaving of arrivals on the API (with any headers
  and clocks, metered or not, refused at any of the gates) and endings (a handler that returns after
  any writes, or panics), the number of requests in flight is that at the start plus the requests that
  were let in and have not ended, and it stays within the limit.
\<close>

theorem global_limit_exact:
  assumes "global_gate.run cfg hash decode float_int es [] s = (out, s')"
    "0 \<le> lm_in_use (ms_limiter s)" "lm_in_use (ms_limiter s) \<le> global_cap (lm_limit (ms_limiter s))"
    "lm_in_use (ms_limiter s) + int (length es) < 2 ^ 63 - 1"
  shows "lm_in_use (ms_limiter s') = lm_in_use (ms_limiter s) + int (length out) \<and>
    lm_in_use (ms_limiter s') \<le> global_cap (lm_limit (ms_limiter s))"
  using global_gate.run_tracks [of s "lm_limit (ms_limiter s)" "[]" es cfg hash decode float_int "()"]
    global_gate.run_capped [of s "lm_limit (ms_limiter s)" "[]" es cfg hash decode float_int "()"] assms held_unit [of out]
  by (simp add: global_count_def)

definition sample_config :: mw_config where
  "sample_config = \<lparr>mc_api_key = [], mc_token_store = True\<rparr>"

definition sample_header :: http_header where
  "sample_header = header_set ''authorization'' ''Bearer sk-b1'' []"

theorem global_limit_exact_witness:
  "lm_in_use (ms_limiter (snd (global_gate.run sample_config rev (\<lambda>s. None) (\<lambda>s. None)
     [Enter ((200, 200, 200), sample_header), Enter ((201, 201, 201), sample_header), Leave 0 (202, Panicked),
      Enter ((203, 203, 203), sample_header)] [] sample_mw))) \<le> 1"
proof -
  have "0 \<le> lm_in_use (ms_limiter sample_mw)" "lm_in_use (ms_limiter sample_mw) \<le> global_cap (lm_limit (ms_limiter sample_mw))"
    "global_cap (lm_limit (ms_limiter sample_mw)) = 1" "lm_in_use (ms_limiter sample_mw) = 0"
    by code_simp+
  moreover obtain out s' where r: "global_gate.run sample_config rev (\<lambda>s. None) (\<lambda>s. None)
     [Enter ((200, 200, 200), sample_header), Enter ((201, 201, 201), sample_header), Leave 0 (202, Panicked),
      Enter ((203, 203, 203), sample_header)] [] sample_mw = (out, s')"
    by fastforce
  ultimately show ?thesis using global_limit_exact [OF r] unfolding r by simp
qed
text \<open>
  C37. The slots of a token follow its requests: over any interleaving of admissions (with any
  key, refused by the authentication, by the concurrency or rate gate, or by the quota, which then gives
  back the slot just taken) and endings, the in-flight count of every token is its initial count plus its
  requests that were admitted and have not ended.
\<close>

theorem admitted_slots_exact:
  assumes "client_gate.run hash decode float_int es [] s = (out, s')"
    "\<And>j. 0 \<le> token_count s j \<and> token_count s j + int (length es) < 2 ^ 63 - 1"
  shows "token_count s' i = token_count s i + int (length (filter (\<lambda>t. ai_token_id t = i) out))"
proof -
  have "client_gate.held out i = int (length (filter (\<lambda>t. ai_token_id t = i) out))"
    by (induction out) (simp_all add: inflight_gate.held_def [OF client_gate.inflight_gate_axioms])
  then show ?thesis
    using client_gate.run_tracks [of "[]" s es hash decode float_int i] assms by simp
qed

theorem admitted_slots_exact_witness:
  "token_count (snd (client_gate.run rev (\<lambda>s. None) (\<lambda>s. None)
     [Enter ((200, 200, 200), ''sk-b1''), Enter ((201, 201, 201), ''sk-b1''), Leave 0 (202, Returned [])] [] sample_mw)) ''tok_a0'' =
   int (length (filter (\<lambda>t. ai_token_id t = ''tok_a0'') (fst (client_gate.run rev (\<lambda>s. None) (\<lambda>s. None)
     [Enter ((200, 200, 200), ''sk-b1''), Enter ((201, 201, 201), ''sk-b1''), Leave 0 (202, Returned [])] [] sample_mw))))"
proof -
  have "cl_inflight (ms_store sample_mw) = []" by code_simp
  then have z: "token_count sample_mw j = 0" for j by (simp add: token_count_def current_inflight_def)
  obtain out s' where r: "client_gate.run rev (\<lambda>s. None) (\<lambda>s. None)
     [Enter ((200, 200, 200), ''sk-b1''), Enter ((201, 201, 201), ''sk-b1''), Leave 0 (202, Returned [])] [] sample_mw = (out, s')"
    by fastforce
  from admitted_slots_exact [OF r, of "''tok_a0''"] z show ?thesis unfolding r by simp
qed
section \<open>What a request costs\<close>

lemma parsed_cost_pos: "parsed_cost decode float_int r = Some c \<Longrightarrow> 1 \<le> c"
  by (auto simp: parsed_cost_def split: if_splits option.splits dest: body_cost_pos sse_cost_pos)

text \<open>The units a finished response is charged; none for a server error.\<close>

definition response_cost :: "(string \<Rightarrow> json option) \<Rightarrow> (string \<Rightarrow> int option) \<Rightarrow> write_op list \<Rightarrow> int" where
  "response_cost decode float_int ops =
     (let rw = fold (record_op 0) ops new_recorder in
      if 200 \<le> ur_code rw \<and> ur_code rw < 500
      then (case parsed_cost decode float_int rw of None \<Rightarrow> 1 | Some c \<Rightarrow> c) else 0)"

lemma finite_row_release [simp]: "finite_row (release_slot i st) j t = finite_row st j t"
  by (simp add: finite_row_def release_slot_def Let_def)

lemma finite_row_acquire: "acquire_slot now i mx rpm st = (e, st') \<Longrightarrow> finite_row st' j t = finite_row st j t"
  by (auto simp: finite_row_def acquire_slot_def Let_def split: if_splits)

lemma reserved_row:
  assumes "finite_row st i t" "reserve_quota now i reserve_units st = (None, st')"
  shows "finite_row st' i (t\<lparr>tk_remain_quota := tk_remain_quota t - 1, tk_updated_at := now\<rparr>)"
  using assms by (auto simp: finite_row_def reserve_quota_def reserve_units_def at_least_one_def Let_def split: if_splits)

lemma settled_row:
  assumes "finite_row st i t" "1 \<le> c"
  shows "\<exists>t'. finite_row (snd (settle_usage now i reserve_units c st)) i t' \<and> tk_used_quota t' = tk_used_quota t + c \<and>
    tk_remain_quota t' = max 0 (tk_remain_quota t + 1 - c)"
  using assms by (auto simp: finite_row_def settle_usage_def reserve_units_def at_least_one_def Let_def)

lemma refunded_row:
  assumes "finite_row st i t"
  shows "\<exists>t'. finite_row (snd (refund_quota now i reserve_units st)) i t' \<and> tk_used_quota t' = tk_used_quota t \<and>
    tk_remain_quota t' = tk_remain_quota t + 1"
  using assms by (auto simp: finite_row_def refund_quota_def reserve_units_def at_least_one_def Let_def)


lemma mw_authenticate:
  "fst (admit_token rev (200, 200, 200) ''sk-b1'' sample_mw) =
     Inr \<lparr>ai_token_id = ''tok_a0'', ai_name = ''bot-1'', ai_max_concurrent = 1, ai_rpm = 2\<rparr>"
  by code_simp


section \<open>Comparing and recording bytes\<close>

lemma of_char_byte_eq: "of_char a = (of_char b :: 8 word) \<longleftrightarrow> a = b"
proof
  assume "of_char a = (of_char b :: 8 word)"
  then have "word_of_nat (of_char a) = (word_of_nat (of_char b) :: 8 word)" by (simp only: of_nat_of_char)
  then have "take_bit 8 (of_char a :: nat) = take_bit 8 (of_char b)" by (simp add: word_of_nat_eq_iff)
  moreover have "take_bit 8 (of_char c :: nat) = of_char c" for c
    using nat_of_char_less_256 [of c] by (simp add: take_bit_eq_mod)
  ultimately show "a = b" by simp
qed simp

lemma xor_byte_0: "xor_byte a b = 0 \<longleftrightarrow> a = b"
proof
  assume "xor_byte a b = 0"
  then have "xor (xor_byte a b) (of_char b) = of_char b" by simp
  then have "of_char a = (of_char b :: 8 word)" by (simp add: xor_byte_def xor.assoc)
  then show "a = b" by (simp add: of_char_byte_eq)
qed (simp add: xor_byte_def)

lemma or_all_zero: "foldl (\<lambda>v (x, y). or v (xor_byte x y)) v0 ps = 0 \<longleftrightarrow> v0 = 0 \<and> (\<forall>(x, y) \<in> set ps. x = y)"
  by (induction ps arbitrary: v0) (auto simp: or_eq_0_iff xor_byte_0)

text \<open>
  Comparing keys byte by byte, without stopping at the first difference, decides their equality.
\<close>

theorem constant_time_eq_iff: "constant_time_eq a b \<longleftrightarrow> a = b"
proof (cases "length a = length b")
  case True
  then have "(\<forall>(x, y) \<in> set (zip a b). x = y) \<longleftrightarrow> a = b"
    by (induction a b rule: list_induct2) auto
  then show ?thesis using True by (simp add: constant_time_eq_def or_all_zero)
qed (auto simp: constant_time_eq_def)

lemma recorder_write_tail:
  assumes "0 < m" "ur_buf r = tail_of m s"
  shows "ur_buf (recorder_write m p r) = tail_of m (s @ p)"
proof -
  have d: "drop (nat (int (length s) + int (length p) - m)) (s @ p) =
      drop (nat (int (length s) + int (length p) - m)) s @ drop (nat (int (length s) + int (length p) - m) - length s) p"
    by simp
  consider (fits) "int (length s) + int (length p) \<le> m" | (big) "m \<le> int (length p)" "m < int (length s) + int (length p)"
    | (mid) "int (length p) < m" "m < int (length s) + int (length p)" "int (length s) \<le> m"
    | (ring) "int (length p) < m" "m < int (length s)"
    by linarith
  then show ?thesis
  proof cases
    case fits
    then show ?thesis using assms by (simp add: recorder_write_def tail_of_def Let_def recorder_header_def)
  next
    case big
    have "int (length (ur_buf r)) \<le> m" using assms by (simp add: tail_of_def)
    show ?thesis
    proof (cases "int (length (ur_buf r)) + int (length p) \<le> m")
      case True
      have "length (ur_buf r) = 0" "int (length p) = m" using True big by linarith+
      then have "int (length p) = m" "ur_buf r = []" by simp_all
      then have "s = []" using assms by (simp add: tail_of_def split: if_splits)
      then show ?thesis using big \<open>int (length p) = m\<close> by simp
    next
      case False
      have "nat (int (length s) + int (length p) - m) = length s + nat (int (length p) - m)" using big by linarith
      then show ?thesis using big assms False
        by (simp add: recorder_write_def tail_of_def Let_def recorder_header_def)
    qed
  next
    case mid
    then have "ur_buf r = s" using assms(2) by (simp add: tail_of_def)
    moreover have "nat (int (length s) - (m - int (length p))) = nat (int (length s) + int (length p) - m)" by (simp add: algebra_simps)
    moreover have "nat (int (length s) + int (length p) - m) \<le> length s" using mid by linarith
    ultimately show ?thesis using mid assms(1)
      by (simp add: recorder_write_def tail_of_def Let_def recorder_header_def)
  next
    case ring
    let ?d = "nat (int (length s) - m)"
    have b: "ur_buf r = drop ?d s" "int (length (ur_buf r)) = m" using assms ring by (simp_all add: tail_of_def)
    have "drop (nat (m - (m - int (length p)))) (drop ?d s) = drop (nat (int (length s) + int (length p) - m)) s"
    proof -
      have "nat (m - (m - int (length p))) + ?d = nat (int (length s) + int (length p) - m)" using ring by linarith
      then show ?thesis by simp
    qed
    moreover have "nat (int (length s) + int (length p) - m) \<le> length s" using ring by linarith
    ultimately show ?thesis using ring assms(1) b
      by (simp add: recorder_write_def tail_of_def Let_def recorder_header_def)
  qed
qed

text \<open>
  The recorder is a ring: whatever a handler writes, and in whichever pieces, the captured bytes are
  the last ones of all it wrote, as many as the capacity allows, and the recorded status is the
  first that was written, or 200.
\<close>

theorem recorder_keeps_tail:
  assumes "0 < m"
  shows "ur_buf (fold (record_op m) ops new_recorder) =
      tail_of m (concat (map (\<lambda>op. case op of WriteHeader code \<Rightarrow> [] | WriteBytes p \<Rightarrow> p) ops)) \<and>
    ur_code (fold (record_op m) ops new_recorder) =
      (case ops of WriteHeader code # ops' \<Rightarrow> code | _ \<Rightarrow> 200)"
proof -
  have code: "ur_wrote_hdr r \<Longrightarrow> ur_code (fold (record_op m) ops r) = ur_code r" for r :: usage_recorder and ops
  proof (induction ops arbitrary: r)
    case (Cons op ops)
    then show ?case by (cases op) (simp_all add: recorder_header_def recorder_write_def Let_def)
  qed simp
  have buf: "ur_buf r = tail_of m s \<Longrightarrow> ur_buf (fold (record_op m) ops r) =
      tail_of m (s @ concat (map (\<lambda>op. case op of WriteHeader code \<Rightarrow> [] | WriteBytes p \<Rightarrow> p) ops))" for r s
  proof (induction ops arbitrary: r s)
    case (Cons op ops)
    show ?case
    proof (cases op)
      case (WriteHeader code)
      then show ?thesis using Cons.IH [of "recorder_header code r" s] Cons.prems by (simp add: recorder_header_def)
    next
      case (WriteBytes p)
      then show ?thesis using Cons.IH [OF recorder_write_tail [OF assms Cons.prems], of p] by simp
    qed
  qed simp
  have "ur_code (fold (record_op m) ops new_recorder) = (case ops of WriteHeader code # ops' \<Rightarrow> code | _ \<Rightarrow> 200)"
    using code by (auto simp: new_recorder_def recorder_header_def recorder_write_def Let_def split: list.split write_op.split)
  then show ?thesis using buf [of new_recorder "[]"] assms by (simp add: new_recorder_def tail_of_def)
qed

theorem recorder_keeps_tail_witness:
  "ur_buf (fold (record_op 4) [WriteBytes ''abc'', WriteBytes ''de'', WriteHeader 500] new_recorder) = ''bcde''"
proof -
  have "tail_of 4 ''abcde'' = ''bcde''" by code_simp
  then show ?thesis using recorder_keeps_tail [of 4 "[WriteBytes ''abc'', WriteBytes ''de'', WriteHeader 500]"] by simp
qed

end
