(* ===== verification/Fleet.thy ===== *)
theory Fleet
  imports Worker
begin

text \<open>
  The control plane (\<open>internal/controlplane/service.go\<close>), which fills the workset of each shard,
  and the worker service (\<open>internal/worker/service.go\<close>), which claims shards and loads their
  accounts into the local hot index. Both work on the shared state \<open>Memory\<close> and on the SQLite adapter.
  A tick of \<open>Run\<close> is one operation; the iteration orders of Go maps and the clock readings
  are arguments.
\<close>

section \<open>The control plane\<close>

record control_config =
  cc_shard_count :: int
  cc_workset_size :: int
  cc_desired_hot :: int
  cc_refill_interval :: int

definition control_normalize :: "control_config \<Rightarrow> control_config" where
  "control_normalize c =
     (let shards = (if cc_shard_count c \<le> 0 then 64 else cc_shard_count c);
          size = (if cc_workset_size c \<le> 0 then 30000 else cc_workset_size c) in
      \<lparr>cc_shard_count = shards, cc_workset_size = size,
       cc_desired_hot = (if cc_desired_hot c \<le> 0 then max 1 (size div shards) else cc_desired_hot c),
       cc_refill_interval = (if cc_refill_interval c \<le> 0 then 45000000000 else cc_refill_interval c)\<rparr>)"

fun shard_hash :: "32 word \<Rightarrow> string \<Rightarrow> 32 word" where
  "shard_hash h [] = h"
| "shard_hash h (c # cs) = shard_hash (xor (h * 16777619) (of_char c)) cs"

definition shard_of :: "string \<Rightarrow> int \<Rightarrow> int" where
  "shard_of i n = (if n \<le> 0 then 0 else uint (shard_hash 0 i mod word_of_int n))"

definition store_list_eligible ::
  "(string \<Rightarrow> int option) \<Rightarrow> catalog \<Rightarrow> int \<Rightarrow> int \<Rightarrow> string \<Rightarrow> store_error + hot_meta list" where
  "store_list_eligible probe c now limit after = map_sum map_catalog_err id (list_eligible probe c now limit after)"

definition list_workset_candidates ::
  "(string \<Rightarrow> int option) \<Rightarrow> catalog \<Rightarrow> int \<Rightarrow> int \<Rightarrow> store_error + hot_meta list" where
  "list_workset_candidates probe c now limit = store_list_eligible probe c now limit []"

definition list_by_shard ::
  "(string \<Rightarrow> int option) \<Rightarrow> catalog \<Rightarrow> int \<Rightarrow> int \<Rightarrow> int \<Rightarrow> string \<Rightarrow> store_error + hot_meta list" where
  "list_by_shard probe c now shard limit after =
     (if shard < 0 then Inl StInvalid else store_list_eligible probe c now limit after)"

text \<open>A bucket holds the ids of a shard with their scores.\<close>

fun fill_buckets :: "control_config \<Rightarrow> hot_meta list \<Rightarrow> (string \<times> rat) list list \<Rightarrow> (string \<times> rat) list list" where
  "fill_buckets cfg [] bs = bs"
| "fill_buckets cfg (m # ms) bs =
     (let k = nat (shard_of (hm_id m) (cc_shard_count cfg)) in
      if int (length (bs ! k)) \<ge> cc_desired_hot cfg then fill_buckets cfg ms bs
      else fill_buckets cfg ms (bs[k := bs ! k @ [(hm_id m, of_int (hm_priority m) - hm_failure_score m)]]))"

fun replace_worksets :: "int \<Rightarrow> (string \<times> rat) list list \<Rightarrow> memory \<Rightarrow> cs_error option \<times> memory" where
  "replace_worksets shard [] m = (None, m)"
| "replace_worksets shard (b # bs) m =
     (case replace_workset shard (map fst b) (map snd b) m of
        (Some e, m') \<Rightarrow> (Some e, m')
      | (None, m') \<Rightarrow> replace_worksets (shard + 1) bs m')"

definition refill_once ::
  "(string \<Rightarrow> int option) \<Rightarrow> control_config \<Rightarrow> catalog \<Rightarrow> int \<Rightarrow> memory \<Rightarrow> (store_error + cs_error) option \<times> memory" where
  "refill_once probe cfg cat now m =
     (case list_workset_candidates probe cat now (cc_workset_size cfg) of
        Inl e \<Rightarrow> (Some (Inl e), m)
      | Inr metas \<Rightarrow>
          (case replace_worksets 0 (fill_buckets cfg metas (replicate (nat (cc_shard_count cfg)) [])) m of
             (Some e, m') \<Rightarrow> (Some (Inr e), m')
           | (None, m') \<Rightarrow> (None, m')))"

section \<open>The worker\<close>

record worker_config =
  wc_worker_id :: string
  wc_listen :: string
  wc_shard_count :: int
  wc_hot_size :: int
  wc_max_inflight :: int
  wc_max_attempts :: int
  wc_shard_lease_ttl :: int
  wc_shard_renew_every :: int
  wc_reconcile_every :: int
  wc_pow2_k :: int
  wc_sticky_ttl_sec :: int
  wc_base_url :: string
  wc_client_version :: string
  wc_client_identifier :: string
  wc_user_agent :: string
  wc_token_auth :: string
  wc_max_body :: int

definition or_text :: "string \<Rightarrow> string \<Rightarrow> string" where
  "or_text s d = (if s = [] then d else s)"

definition or_pos :: "int \<Rightarrow> int \<Rightarrow> int" where
  "or_pos n d = (if n \<le> 0 then d else n)"

definition worker_normalize :: "worker_config \<Rightarrow> worker_config" where
  "worker_normalize c =
     \<lparr>wc_worker_id = or_text (wc_worker_id c) ''worker-0'', wc_listen = or_text (wc_listen c) ''0.0.0.0:8081'',
      wc_shard_count = or_pos (wc_shard_count c) 64, wc_hot_size = or_pos (wc_hot_size c) 5000,
      wc_max_inflight = or_pos (wc_max_inflight c) 2, wc_max_attempts = or_pos (wc_max_attempts c) 4,
      wc_shard_lease_ttl = or_pos (wc_shard_lease_ttl c) 45000000000,
      wc_shard_renew_every = or_pos (wc_shard_renew_every c) 15000000000,
      wc_reconcile_every = or_pos (wc_reconcile_every c) 30000000000,
      wc_pow2_k = or_pos (wc_pow2_k c) 2, wc_sticky_ttl_sec = or_pos (wc_sticky_ttl_sec c) 1800,
      wc_base_url = or_text (wc_base_url c) ''https://cli-chat-proxy.grok.com/v1'',
      wc_client_version = or_text (wc_client_version c) ''0.2.93'',
      wc_client_identifier = or_text (wc_client_identifier c) ''grok-pager'',
      wc_user_agent = or_text (wc_user_agent c) ''grok-pager/0.2.93 grok-shell/0.2.93 (linux; x86_64)'',
      wc_token_auth = or_text (wc_token_auth c) ''xai-grok-cli'', wc_max_body = or_pos (wc_max_body c) 20971520\<rparr>"

text \<open>The shards a worker believes it holds.\<close>

type_synonym shards = "(int, shard_lease) gomap"

definition estimate_workers :: "int \<Rightarrow> int" where
  "estimate_workers hot_size = (if hot_size \<le> 0 then 6 else max 1 (30000 div hot_size))"

definition target_shards :: "worker_config \<Rightarrow> int" where
  "target_shards cfg = max 1 (wc_shard_count cfg div max 1 (estimate_workers (wc_hot_size cfg)))"

text \<open>The loop of \<open>claimShards\<close> over the shards still to try; \<open>clk\<close> gives the two readings of each try.\<close>

fun claim_shards_loop ::
  "(int \<Rightarrow> int \<times> int) \<Rightarrow> worker_config \<Rightarrow> int \<Rightarrow> int list \<Rightarrow> shards \<Rightarrow> memory \<Rightarrow> cs_error option \<times> shards \<times> memory" where
  "claim_shards_loop clk cfg claimed [] sh m = (None, sh, m)"
| "claim_shards_loop clk cfg claimed (shard # ids) sh m =
     (if claimed < target_shards cfg then
        case try_acquire_shard (fst (clk shard)) (snd (clk shard)) shard (wc_worker_id cfg) (wc_shard_lease_ttl cfg) m of
          (Inl e, m') \<Rightarrow> (Some e, sh, m')
        | (Inr (Some l, True), m') \<Rightarrow> claim_shards_loop clk cfg (claimed + 1) ids (gm_put shard l sh) m'
        | (Inr (l, b), m') \<Rightarrow> claim_shards_loop clk cfg claimed ids sh m'
      else (None, sh, m))"

definition claim_shards :: "(int \<Rightarrow> int \<times> int) \<Rightarrow> worker_config \<Rightarrow> shards \<Rightarrow> memory \<Rightarrow> cs_error option \<times> shards \<times> memory" where
  "claim_shards clk cfg sh m = claim_shards_loop clk cfg 0 (map int [0..<nat (wc_shard_count cfg)]) sh m"

fun renew_loop :: "(int \<Rightarrow> int) \<Rightarrow> worker_config \<Rightarrow> int list \<Rightarrow> shards \<Rightarrow> memory \<Rightarrow> shards \<times> memory" where
  "renew_loop clk cfg [] sh m = (sh, m)"
| "renew_loop clk cfg (i # ids) sh m =
     (case renew_shard (clk i) i (wc_worker_id cfg) (wc_shard_lease_ttl cfg) m of
        (Inr True, m') \<Rightarrow> renew_loop clk cfg ids sh m'
      | (r, m') \<Rightarrow> renew_loop clk cfg ids (gm_del i sh) m')"

definition renew_shards ::
  "(int list \<Rightarrow> int list) \<Rightarrow> (int \<Rightarrow> int) \<Rightarrow> worker_config \<Rightarrow> shards \<Rightarrow> memory \<Rightarrow> shards \<times> memory" where
  "renew_shards ord clk cfg sh m = renew_loop clk cfg (ord (map fst sh)) sh m"

definition release_all :: "(int list \<Rightarrow> int list) \<Rightarrow> worker_config \<Rightarrow> shards \<Rightarrow> memory \<Rightarrow> memory" where
  "release_all ord cfg sh m = fold (\<lambda>i m. snd (release_shard i (wc_worker_id cfg) m)) (ord (map fst sh)) m"

section \<open>The local hot set\<close>

text \<open>The metas of an account read by its id, and of a page, up to the hot size.\<close>

fun add_accounts :: "int \<Rightarrow> catalog \<Rightarrow> string list \<Rightarrow> hot_meta list \<Rightarrow> hot_meta list" where
  "add_accounts hot cat [] metas = metas"
| "add_accounts hot cat (i # is) metas =
     (case store_get cat i of
        Inl e \<Rightarrow> add_accounts hot cat is metas
      | Inr a \<Rightarrow>
          let metas' = metas @ [hot_meta_from_account a] in
          if int (length metas') \<ge> hot then metas' else add_accounts hot cat is metas')"

fun add_page :: "int \<Rightarrow> hot_meta list \<Rightarrow> hot_meta list \<Rightarrow> hot_meta list" where
  "add_page hot [] metas = metas"
| "add_page hot (m # ms) metas =
     (let metas' = metas @ [m] in if int (length metas') \<ge> hot then metas' else add_page hot ms metas')"

text \<open>The loop over the held shards: a shard without a workset is read from the store, and is not followed by the test of the size.\<close>

fun gather :: "(string \<Rightarrow> int option) \<Rightarrow> (int \<Rightarrow> int) \<Rightarrow> worker_config \<Rightarrow> catalog \<Rightarrow> memory \<Rightarrow> int list \<Rightarrow> hot_meta list
    \<Rightarrow> cs_error + hot_meta list" where
  "gather probe clk cfg cat m [] metas = Inr metas"
| "gather probe clk cfg cat m (s # ss) metas =
     (case list_workset s (wc_hot_size cfg) m of
        Inl e \<Rightarrow> Inl e
      | Inr [] \<Rightarrow>
          (case list_by_shard probe cat (clk s) s (wc_hot_size cfg) [] of
             Inl e \<Rightarrow> gather probe clk cfg cat m ss metas
           | Inr ms \<Rightarrow> gather probe clk cfg cat m ss (add_page (wc_hot_size cfg) ms metas))
      | Inr (i # is) \<Rightarrow>
          let metas' = add_accounts (wc_hot_size cfg) cat (i # is) metas in
          if int (length metas') \<ge> wc_hot_size cfg then Inr metas' else gather probe clk cfg cat m ss metas')"

datatype reconcile_error = RcState cs_error | RcHot hot_error | RcNever

text \<open>\<open>RcNever\<close> is a loop of \<open>Resize\<close> that does not end.\<close>

definition reconcile_hot ::
  "(int list \<Rightarrow> int list) \<Rightarrow> (string list \<Rightarrow> string list) \<Rightarrow> (string \<Rightarrow> int option) \<Rightarrow> (int \<Rightarrow> int) \<Rightarrow> int
   \<Rightarrow> worker_config \<Rightarrow> shards \<Rightarrow> catalog \<Rightarrow> memory \<Rightarrow> index \<Rightarrow> (reconcile_error + nat) \<times> index" where
  "reconcile_hot ord hot_ord probe clk now cfg sh cat m x =
     (case gather probe clk cfg cat m (ord (map fst sh)) [] of
        Inl e \<Rightarrow> (Inl (RcState e), x)
      | Inr metas0 \<Rightarrow>
          let metas = (if metas0 = []
                       then case store_list_eligible probe cat now (wc_hot_size cfg) [] of Inr ms \<Rightarrow> ms | Inl e \<Rightarrow> metas0
                       else metas0) in
          (case hot_resize (wc_hot_size cfg) x of
             None \<Rightarrow> (Inl RcNever, x)
           | Some y \<Rightarrow> (case load_metas hot_ord metas y of (Inl e, z) \<Rightarrow> (Inl (RcHot e), z) | (Inr n, z) \<Rightarrow> (Inr n, z))))"

text \<open>\<open>claimShards\<close> as a whole: the claims, then a reconciliation.\<close>

definition claim_and_reconcile ::
  "(int list \<Rightarrow> int list) \<Rightarrow> (string list \<Rightarrow> string list) \<Rightarrow> (string \<Rightarrow> int option) \<Rightarrow> (int \<Rightarrow> int \<times> int) \<Rightarrow> (int \<Rightarrow> int)
   \<Rightarrow> int \<Rightarrow> worker_config \<Rightarrow> shards \<Rightarrow> catalog \<Rightarrow> memory \<Rightarrow> index \<Rightarrow> (reconcile_error + nat) \<times> shards \<times> memory \<times> index" where
  "claim_and_reconcile ord hot_ord probe claim_clk clk now cfg sh cat m x =
     (case claim_shards claim_clk cfg sh m of
        (Some e, sh', m') \<Rightarrow> (Inl (RcState e), sh', m', x)
      | (None, sh', m') \<Rightarrow>
          (case reconcile_hot ord hot_ord probe clk now cfg sh' cat m' x of (r, y) \<Rightarrow> (r, sh', m', y)))"

section \<open>Worksets\<close>

lemma shard_of_range: "0 < n \<Longrightarrow> n < 2 ^ 32 \<Longrightarrow> 0 \<le> shard_of i n \<and> shard_of i n < n"
proof -
  assume n: "0 < n" "n < 2 ^ 32"
  then have "uint (word_of_int n :: 32 word) = n" by (simp add: uint_word_of_int)
  then show ?thesis using n by (simp add: shard_of_def uint_mod)
qed

definition workset_entry :: "hot_meta \<Rightarrow> string \<times> rat" where
  "workset_entry m = (hm_id m, of_int (hm_priority m) - hm_failure_score m)"

lemma fill_buckets_length [simp]: "length (fill_buckets cfg ms bs) = length bs"
  by (induction cfg ms bs rule: fill_buckets.induct) (simp_all add: Let_def)

lemma fill_buckets_nth:
  assumes "k < length bs" "0 < cc_desired_hot cfg"
    "\<And>m. m \<in> set ms \<Longrightarrow> 0 \<le> shard_of (hm_id m) (cc_shard_count cfg) \<and> nat (shard_of (hm_id m) (cc_shard_count cfg)) < length bs"
  shows "fill_buckets cfg ms bs ! k = bs ! k @ take (nat (cc_desired_hot cfg) - length (bs ! k))
    (map workset_entry (filter (\<lambda>m. shard_of (hm_id m) (cc_shard_count cfg) = int k) ms))"
  using assms(1,3)
proof (induction ms arbitrary: bs)
  case (Cons m ms)
  let ?s = "shard_of (hm_id m) (cc_shard_count cfg)"
  let ?j = "nat ?s"
  have j: "0 \<le> ?s" "?j < length bs" using Cons.prems(2) [of m] by simp_all
  have ms: "0 \<le> shard_of (hm_id x) (cc_shard_count cfg) \<and> nat (shard_of (hm_id x) (cc_shard_count cfg)) < length bs"
    if "x \<in> set ms" for x
    using Cons.prems(2) [of x] that by simp
  show ?case
  proof (cases "int (length (bs ! ?j)) \<ge> cc_desired_hot cfg")
    case True
    then have "take (nat (cc_desired_hot cfg) - length (bs ! k)) xs = []" if "?s = int k" for xs :: "(string \<times> rat) list"
      using that by simp
    then show ?thesis using True Cons.IH [OF Cons.prems(1) ms] by (cases "?s = int k") (simp_all add: Let_def)
  next
    case False
    let ?bs = "bs[?j := bs ! ?j @ [workset_entry m]]"
    have IH: "fill_buckets cfg ms ?bs ! k = ?bs ! k @ take (nat (cc_desired_hot cfg) - length (?bs ! k))
      (map workset_entry (filter (\<lambda>m. shard_of (hm_id m) (cc_shard_count cfg) = int k) ms))"
      using Cons.IH [of ?bs] Cons.prems(1) ms by simp
    have step: "fill_buckets cfg (m # ms) bs = fill_buckets cfg ms ?bs"
      using False by (simp add: Let_def workset_entry_def)
    show ?thesis
    proof (cases "?s = int k")
      case True
      have "nat (cc_desired_hot cfg) - length (bs ! k) = Suc (nat (cc_desired_hot cfg) - Suc (length (bs ! k)))"
        using False True by simp
      then show ?thesis unfolding step using IH True Cons.prems(1) by simp
    next
      case ne: False
      then have "?j \<noteq> k" using j by auto
      then show ?thesis unfolding step using IH ne by simp
    qed
  qed
qed simp

lemma score_items_zip [simp]: "score_items (map fst b) (map snd b) = b"
  by (induction b) auto

lemma replace_worksets_open:
  assumes "\<not> mem_closed m"
  shows "\<exists>m'. replace_worksets k bs m = (None, m') \<and> \<not> mem_closed m' \<and> mem_shards m' = mem_shards m \<and>
    map_of (mem_workset m') = (\<lambda>s. if k \<le> s \<and> s < k + int (length bs) then Some (bs ! nat (s - k)) else map_of (mem_workset m) s)"
  using assms
proof (induction bs arbitrary: k m)
  case (Cons b bs)
  let ?m = "m\<lparr>mem_workset := gm_put k b (mem_workset m)\<rparr>"
  obtain m' where m': "replace_worksets (k + 1) bs ?m = (None, m')" "\<not> mem_closed m'" "mem_shards m' = mem_shards m"
    "map_of (mem_workset m') = (\<lambda>s. if k + 1 \<le> s \<and> s < k + 1 + int (length bs) then Some (bs ! nat (s - (k + 1)))
       else map_of (mem_workset ?m) s)"
    using Cons.IH [of ?m "k + 1"] Cons.prems by auto
  have "nat (s - k) = Suc (nat (s - (k + 1)))" if "k + 1 \<le> s" for s using that by simp
  then have "map_of (mem_workset m') = (\<lambda>s. if k \<le> s \<and> s < k + int (length (b # bs)) then Some ((b # bs) ! nat (s - k))
      else map_of (mem_workset m) s)"
    unfolding m'(4) by (intro ext) auto
  then show ?case using m'(1-3) Cons.prems by (simp add: replace_workset_def)
qed (auto simp: fun_eq_iff)

lemma refill_worksets:
  assumes "\<not> mem_closed m" "0 < cc_shard_count cfg" "cc_shard_count cfg < 2 ^ 32" "0 < cc_desired_hot cfg"
    "list_workset_candidates probe cat now (cc_workset_size cfg) = Inr metas" "refill_once probe cfg cat now m = (e, m')"
  shows "e = None \<and> \<not> mem_closed m' \<and> mem_shards m' = mem_shards m \<and>
    (\<forall>s. list_workset s 0 m' =
       (if 0 \<le> s \<and> s < cc_shard_count cfg
        then Inr (take (nat (cc_desired_hot cfg)) (filter (\<lambda>i. shard_of i (cc_shard_count cfg) = s) (map hm_id metas)))
        else list_workset s 0 m))"
proof -
  let ?n = "cc_shard_count cfg" and ?bs = "fill_buckets cfg metas (replicate (nat (cc_shard_count cfg)) [])"
  obtain m1 where m1: "replace_worksets 0 ?bs m = (None, m1)" "\<not> mem_closed m1" "mem_shards m1 = mem_shards m"
    "map_of (mem_workset m1) = (\<lambda>s. if 0 \<le> s \<and> s < ?n then Some (?bs ! nat s) else map_of (mem_workset m) s)"
  proof -
    from replace_worksets_open [OF assms(1), of 0 ?bs] obtain m2 where "replace_worksets 0 ?bs m = (None, m2)"
      "\<not> mem_closed m2" "mem_shards m2 = mem_shards m"
      "map_of (mem_workset m2) = (\<lambda>s. if 0 \<le> s \<and> s < 0 + int (length ?bs) then Some (?bs ! nat (s - 0)) else map_of (mem_workset m) s)"
      by blast
    then show thesis using that [of m2] assms(2) by (simp cong: if_cong)
  qed
  have e: "e = None" "m' = m1" using assms(5,6) m1(1) by (auto simp: refill_once_def)
  have b: "map fst (?bs ! nat s) = take (nat (cc_desired_hot cfg)) (filter (\<lambda>i. shard_of i ?n = s) (map hm_id metas))"
    if s: "0 \<le> s" "s < ?n" for s
  proof -
    have "map fst (?bs ! nat s) = take (nat (cc_desired_hot cfg))
        (map (fst \<circ> workset_entry) (filter (\<lambda>m. shard_of (hm_id m) ?n = int (nat s)) metas))"
      using fill_buckets_nth [of "nat s" "replicate (nat ?n) []" cfg metas] s assms(4) shard_of_range [OF assms(2,3)]
      by (simp add: take_map)
    moreover have "fst \<circ> workset_entry = hm_id" by (simp add: fun_eq_iff workset_entry_def)
    ultimately show ?thesis using s by (simp add: filter_map comp_def)
  qed
  have "list_workset s 0 m' = (if 0 \<le> s \<and> s < ?n
      then Inr (take (nat (cc_desired_hot cfg)) (filter (\<lambda>i. shard_of i ?n = s) (map hm_id metas))) else list_workset s 0 m)" for s
    using b [of s] assms(1) m1(2,4) by (simp add: e(2) list_workset_def gm_default_def)
  then show ?thesis using e m1(2,3) by blast
qed

text \<open>
  C23. A refill with an open state always succeeds once the candidates are read, and the workset of each shard is then what
  the plain definition says: the ids of the candidates that hash to the shard, in their order, as many as
  a shard should have; so the worksets of two shards share no account. Worksets of other
  shards and the leases stay.
\<close>

theorem refill_exact:
  assumes "\<not> mem_closed m" "0 < cc_shard_count cfg" "cc_shard_count cfg < 2 ^ 32" "0 < cc_desired_hot cfg"
    "list_workset_candidates probe cat now (cc_workset_size cfg) = Inr metas" "refill_once probe cfg cat now m = (e, m')"
  shows "e = None \<and> mem_shards m' = mem_shards m \<and>
    (\<forall>s. list_workset s 0 m' =
       (if 0 \<le> s \<and> s < cc_shard_count cfg
        then Inr (take (nat (cc_desired_hot cfg)) (filter (\<lambda>i. shard_of i (cc_shard_count cfg) = s) (map hm_id metas)))
        else list_workset s 0 m))"
  using refill_worksets [OF assms] by simp

section \<open>Shards\<close>

text \<open>A shard that a worker can take at an instant: free, expired, or its own.\<close>

definition takeable :: "int \<Rightarrow> string \<Rightarrow> memory \<Rightarrow> int \<Rightarrow> bool" where
  "takeable t v m s \<longleftrightarrow> (case shard_holder m s of None \<Rightarrow> True | Some (w, e) \<Rightarrow> w = v \<or> e \<le> unix_sec t)"

lemma shard_holder_simps:
  "shard_holder (m\<lparr>mem_shards := gm_put k l (mem_shards m)\<rparr>) s =
    (if s = k then Some (sh_worker_id l, sh_exp l) else shard_holder m s)"
  "shard_holder (m\<lparr>mem_shards := gm_del k (mem_shards m)\<rparr>) s = (if s = k then None else shard_holder m s)"
  by (simp_all add: shard_holder_def)

lemma try_acquire_cases:
  assumes "\<not> mem_closed m"
  obtains (no) l where "\<not> takeable ta v m s" "try_acquire_shard ta tb s v ttl m = (Inr (l, False), m)"
  | (yes) l m' where "takeable ta v m s" "try_acquire_shard ta tb s v ttl m = (Inr (Some l, True), m')" "\<not> mem_closed m'"
      "mem_workset m' = mem_workset m"
      "\<And>j. shard_holder m' j = (if j = s then Some (v, unix_sec (tb + ttl)) else shard_holder m j)"
proof (cases "takeable ta v m s")
  case False
  then obtain cur where "gm_get (mem_shards m) s = Some cur" "sh_exp cur > unix_sec ta" "sh_worker_id cur \<noteq> v"
    by (auto simp: takeable_def shard_holder_def split: option.splits)
  then show ?thesis using no [of "Some cur"] False assms by (simp add: try_acquire_shard_def)
next
  case True
  define l where "l = \<lparr>sh_shard_id = s, sh_worker_id = v,
    sh_version = (case gm_get (mem_shards m) s of None \<Rightarrow> 1 | Some cur \<Rightarrow> wrap64 (sh_version cur + 1)), sh_exp = unix_sec (tb + ttl)\<rparr>"
  have "try_acquire_shard ta tb s v ttl m = (Inr (Some l, True), m\<lparr>mem_shards := gm_put s l (mem_shards m)\<rparr>)"
    using True assms by (auto simp: try_acquire_shard_def takeable_def shard_holder_def l_def Let_def split: option.splits)
  then show ?thesis using yes [OF True] assms by (simp add: shard_holder_simps l_def)
qed

lemma claim_loop_exact:
  assumes "\<not> mem_closed m" "distinct ids" "claim_shards_loop clk cfg n ids sh m = (e, sh', m')"
  shows "e = None \<and> \<not> mem_closed m' \<and> mem_workset m' = mem_workset m \<and>
    fst ` set sh' = fst ` set sh \<union> set (take (nat (target_shards cfg - n))
      (filter (\<lambda>s. takeable (fst (clk s)) (wc_worker_id cfg) m s) ids)) \<and>
    (\<forall>j. shard_holder m' j = (if j \<in> set (take (nat (target_shards cfg - n))
        (filter (\<lambda>s. takeable (fst (clk s)) (wc_worker_id cfg) m s) ids))
      then Some (wc_worker_id cfg, unix_sec (snd (clk j) + wc_shard_lease_ttl cfg)) else shard_holder m j))"
  using assms
proof (induction ids arbitrary: n sh m)
  case (Cons s ids)
  let ?v = "wc_worker_id cfg" and ?t = "target_shards cfg"
  show ?case
  proof (cases "n < ?t")
    case False
    then show ?thesis using Cons.prems by simp
  next
    case lt: True
    show ?thesis
    proof (rule try_acquire_cases [OF Cons.prems(1), where ta = "fst (clk s)" and v = ?v and s = s and tb = "snd (clk s)"
          and ttl = "wc_shard_lease_ttl cfg"])
      fix l assume a: "\<not> takeable (fst (clk s)) ?v m s"
        "try_acquire_shard (fst (clk s)) (snd (clk s)) s ?v (wc_shard_lease_ttl cfg) m = (Inr (l, False), m)"
      then have "claim_shards_loop clk cfg n ids sh m = (e, sh', m')" using Cons.prems(3) lt by (cases l) simp_all
      from Cons.IH [OF Cons.prems(1) _ this] Cons.prems(2) a(1) show ?thesis by simp
    next
      fix l m1 assume a: "takeable (fst (clk s)) ?v m s"
        "try_acquire_shard (fst (clk s)) (snd (clk s)) s ?v (wc_shard_lease_ttl cfg) m = (Inr (Some l, True), m1)"
        "\<not> mem_closed m1" "mem_workset m1 = mem_workset m"
        "\<And>j. shard_holder m1 j = (if j = s then Some (?v, unix_sec (snd (clk s) + wc_shard_lease_ttl cfg)) else shard_holder m j)"
      then have "claim_shards_loop clk cfg (n + 1) ids (gm_put s l sh) m1 = (e, sh', m')" using Cons.prems(3) lt by simp
      note IH = Cons.IH [OF a(3) _ this]
      have f: "filter (\<lambda>j. takeable (fst (clk j)) ?v m1 j) ids = filter (\<lambda>j. takeable (fst (clk j)) ?v m j) ids"
        using Cons.prems(2) a(5) by (intro filter_cong refl) (auto simp: takeable_def)
      have "nat (?t - n) = Suc (nat (?t - (n + 1)))" using lt by simp
      then show ?thesis using IH Cons.prems(2) a(1,4,5) f by (auto simp: gm_put_keys dest: in_set_takeD)
    qed
  qed
qed auto

text \<open>
  Claiming is exact: a worker takes the first shards that are free, expired or its own, as many as its target, in the
  order of their numbers; each of them is its own until the lease ends, and no other shard
  changes hands. A worker never takes a shard whose lease of another worker has not expired.
\<close>

theorem claim_first_free:
  assumes "\<not> mem_closed m" "claim_shards clk cfg [] m = (e, sh, m')"
  defines "mine \<equiv> take (nat (target_shards cfg))
    (filter (\<lambda>s. takeable (fst (clk s)) (wc_worker_id cfg) m s) (map int [0..<nat (wc_shard_count cfg)]))"
  shows "e = None \<and> fst ` set sh = set mine \<and> length mine \<le> nat (target_shards cfg) \<and>
    (\<forall>s. shard_holder m' s = (if s \<in> set mine
       then Some (wc_worker_id cfg, unix_sec (snd (clk s) + wc_shard_lease_ttl cfg)) else shard_holder m s)) \<and>
    (\<forall>s w x. shard_holder m s = Some (w, x) \<and> w \<noteq> wc_worker_id cfg \<and> unix_sec (fst (clk s)) < x \<longrightarrow>
       s \<notin> fst ` set sh \<and> shard_holder m' s = Some (w, x))"
proof -
  have "distinct (map int [0..<nat (wc_shard_count cfg)])" by (simp add: distinct_map)
  from claim_loop_exact [OF assms(1) this assms(2) [unfolded claim_shards_def]]
  have c: "e = None" "fst ` set sh = set mine"
    "\<And>s. shard_holder m' s = (if s \<in> set mine
       then Some (wc_worker_id cfg, unix_sec (snd (clk s) + wc_shard_lease_ttl cfg)) else shard_holder m s)"
    by (simp_all add: mine_def)
  have "s \<notin> set mine" if "shard_holder m s = Some (w, x)" "w \<noteq> wc_worker_id cfg" "unix_sec (fst (clk s)) < x" for s w x
  proof
    assume "s \<in> set mine"
    then have "takeable (fst (clk s)) (wc_worker_id cfg) m s" by (auto simp: mine_def dest: in_set_takeD)
    then show False using that by (simp add: takeable_def)
  qed
  then show ?thesis using c by (auto simp: mine_def)
qed

lemma renew_cases:
  assumes "\<not> mem_closed m"
  shows "case shard_holder m s of
      Some (w, x) \<Rightarrow>
        if w = v then \<exists>m'. renew_shard t s v ttl m = (Inr True, m') \<and> \<not> mem_closed m' \<and> mem_workset m' = mem_workset m \<and>
          (\<forall>j. shard_holder m' j = (if j = s then Some (v, unix_sec (t + ttl)) else shard_holder m j))
        else renew_shard t s v ttl m = (Inr False, m)
    | None \<Rightarrow> renew_shard t s v ttl m = (Inr False, m)"
  using assms by (auto simp: renew_shard_def shard_holder_def split: option.split)

lemma renew_loop_exact:
  assumes "\<not> mem_closed m" "distinct ids" "renew_loop clk cfg ids sh m = (sh', m')"
  shows "\<not> mem_closed m' \<and> mem_workset m' = mem_workset m \<and>
    fst ` set sh' = fst ` set sh - {s \<in> set ids. map_option fst (shard_holder m s) \<noteq> Some (wc_worker_id cfg)} \<and>
    (\<forall>j. shard_holder m' j = (if j \<in> set ids \<and> map_option fst (shard_holder m j) = Some (wc_worker_id cfg)
      then Some (wc_worker_id cfg, unix_sec (clk j + wc_shard_lease_ttl cfg)) else shard_holder m j))"
  using assms
proof (induction ids arbitrary: sh m)
  case (Cons s ids)
  let ?v = "wc_worker_id cfg"
  show ?case
  proof (cases "map_option fst (shard_holder m s) = Some ?v")
    case True
    then obtain m1 where a: "renew_shard (clk s) s ?v (wc_shard_lease_ttl cfg) m = (Inr True, m1)" "\<not> mem_closed m1"
      "mem_workset m1 = mem_workset m"
      "\<And>j. shard_holder m1 j = (if j = s then Some (?v, unix_sec (clk s + wc_shard_lease_ttl cfg)) else shard_holder m j)"
      using renew_cases [OF Cons.prems(1), where s = s and v = ?v and t = "clk s" and ttl = "wc_shard_lease_ttl cfg"] by auto
    then have "renew_loop clk cfg ids sh m1 = (sh', m')" using Cons.prems(3) by simp
    from Cons.IH [OF a(2) _ this] Cons.prems(2) a(3,4) True show ?thesis by auto
  next
    case False
    then have "renew_shard (clk s) s ?v (wc_shard_lease_ttl cfg) m = (Inr False, m)"
      using renew_cases [OF Cons.prems(1), where s = s and v = ?v and t = "clk s" and ttl = "wc_shard_lease_ttl cfg"] by (auto split: option.splits if_splits)
    then have "renew_loop clk cfg ids (gm_del s sh) m = (sh', m')" using Cons.prems(3) by simp
    from Cons.IH [OF Cons.prems(1) _ this] Cons.prems(2) False show ?thesis by (auto simp: gm_del_keys)
  qed
qed auto

text \<open>
  Renewing keeps a worker's view true and exclusive. After a renewal the worker holds exactly those of its shards that the
  shared state still gives it, each until a full lease from its own reading of the clock. While
  these leases last, whatever claims, renewals and releases other workers make, no other worker's
  renewal leaves it with one of these shards, and the leases stay as they are.
\<close>

theorem renewed_shards_exclusive:
  assumes "\<not> mem_closed m" "iteration_order ord" "gm_wf sh" "renew_shards ord clk cfg sh m = (sh', m1)"
    and "\<And>s. s \<in> fst ` set sh' \<Longrightarrow>
      list_all (shard_lock.foreign s (wc_worker_id cfg) (unix_sec (clk s + wc_shard_lease_ttl cfg))) es"
    and "m2 = shard_lock.lock_run es m1" "\<not> mem_closed m2" "iteration_order ord'" "gm_wf shv"
    and "renew_shards ord' clk' cfgv shv m2 = (shv', m3)" "wc_worker_id cfgv \<noteq> wc_worker_id cfg"
  shows "fst ` set sh' = {s \<in> fst ` set sh. map_option fst (shard_holder m s) = Some (wc_worker_id cfg)} \<and>
    fst ` set sh' \<inter> fst ` set shv' = {} \<and>
    (\<forall>s \<in> fst ` set sh'. shard_holder m1 s = Some (wc_worker_id cfg, unix_sec (clk s + wc_shard_lease_ttl cfg)) \<and>
       shard_holder m3 s = shard_holder m1 s)"
proof -
  have d: "distinct (ord (map fst sh))" "distinct (ord' (map fst shv))"
    using assms(3,9) iteration_order_distinct_map [OF assms(2), of id "map fst sh"]
      iteration_order_distinct_map [OF assms(8), of id "map fst shv"] by (simp_all add: gm_wf_def)
  note r = renew_loop_exact [OF assms(1) d(1) assms(4) [unfolded renew_shards_def]]
  note v = renew_loop_exact [OF assms(7) d(2) assms(10) [unfolded renew_shards_def]]
  have keys: "fst ` set sh' = {s \<in> fst ` set sh. map_option fst (shard_holder m s) = Some (wc_worker_id cfg)}"
    using r assms(2) by auto
  have own: "shard_holder m1 s = Some (wc_worker_id cfg, unix_sec (clk s + wc_shard_lease_ttl cfg))" if "s \<in> fst ` set sh'" for s
    using that keys r assms(2) by auto
  have kept: "shard_holder m2 s = shard_holder m1 s" if "s \<in> fst ` set sh'" for s
    using shard_lock.exclusive [OF own [OF that] assms(5) [OF that]] own [OF that] assms(6) by simp
  have "s \<notin> fst ` set shv'" "shard_holder m3 s = shard_holder m1 s" if "s \<in> fst ` set sh'" for s
    using v kept [OF that] own [OF that] assms(8,11) by auto
  then show ?thesis using keys own by blast
qed

section \<open>The hot sets of workers\<close>

lemma add_accounts_set:
  "x \<in> set (add_accounts hot cat is metas) \<Longrightarrow>
     x \<in> set metas \<or> (\<exists>i \<in> set is. \<exists>a. store_get cat i = Inr a \<and> x = hot_meta_from_account a)"
proof (induction "is" arbitrary: metas)
  case (Cons i js)
  show ?case
  proof (cases "store_get cat i")
    case (Inl e)
    then show ?thesis using Cons by auto
  next
    case (Inr a)
    show ?thesis
    proof (cases "int (length (metas @ [hot_meta_from_account a])) \<ge> hot")
      case True
      then show ?thesis using Cons.prems Inr by (auto simp: Let_def)
    next
      case False
      then have "x \<in> set (add_accounts hot cat js (metas @ [hot_meta_from_account a]))"
        using Cons.prems Inr by (simp add: Let_def)
      from Cons.IH [OF this] Inr show ?thesis by auto
    qed
  qed
qed simp

lemma add_accounts_grows: "length metas \<le> length (add_accounts hot cat is metas)"
proof (induction "is" arbitrary: metas)
  case (Cons i js)
  have "length metas \<le> length (add_accounts hot cat js (metas @ [m]))" for m using Cons.IH [of "metas @ [m]"] by simp
  then show ?case using Cons.IH [of metas] by (cases "store_get cat i") (simp_all add: Let_def)
qed simp

lemma add_accounts_nonempty: "store_get cat i = Inr a \<Longrightarrow> add_accounts hot cat (i # is) metas \<noteq> []"
  using add_accounts_grows [of "metas @ [hot_meta_from_account a]" hot cat "is"] by (auto simp: Let_def)

text \<open>With a workset for every held shard, only accounts of these worksets are gathered.\<close>

definition workset_of :: "memory \<Rightarrow> int \<Rightarrow> string list" where
  "workset_of m s = map fst (gm_default [] (mem_workset m) s)"

lemma list_workset_take:
  assumes "\<not> mem_closed m"
  shows "list_workset s limit m = Inr (if limit \<le> 0 then workset_of m s else take (nat limit) (workset_of m s))"
  using assms by (auto simp: list_workset_def workset_of_def Let_def take_map)

lemma gather_own:
  assumes "\<not> mem_closed m" "0 < wc_hot_size cfg" "\<And>s. s \<in> set ss \<Longrightarrow> workset_of m s \<noteq> []"
  shows "\<exists>metas'. gather probe clk cfg cat m ss metas = Inr metas' \<and>
    set metas' \<subseteq> set metas \<union>
      {hot_meta_from_account a |a i s. s \<in> set ss \<and> i \<in> set (workset_of m s) \<and> store_get cat i = Inr a} \<and>
    length metas \<le> length metas' \<and>
    (ss \<noteq> [] \<and> (\<forall>i \<in> set (workset_of m (hd ss)). \<exists>a. store_get cat i = Inr a) \<longrightarrow> metas' \<noteq> [])"
  using assms(3)
proof (induction ss arbitrary: metas)
  case (Cons s ss)
  obtain i js where ws: "take (nat (wc_hot_size cfg)) (workset_of m s) = i # js" "workset_of m s \<noteq> []"
    using Cons.prems [of s] assms(2) by (cases "workset_of m s"; cases "nat (wc_hot_size cfg)") auto
  have sub: "set (i # js) \<subseteq> set (workset_of m s)" using ws(1) by (metis set_take_subset)
  let ?metas = "add_accounts (wc_hot_size cfg) cat (i # js) metas"
  have g: "gather probe clk cfg cat m (s # ss) metas =
      (if int (length ?metas) \<ge> wc_hot_size cfg then Inr ?metas else gather probe clk cfg cat m ss ?metas)"
    using list_workset_take [OF assms(1), of s "wc_hot_size cfg"] assms(2) ws(1) by (simp add: Let_def)
  have set_m: "set ?metas \<subseteq> set metas \<union>
      {hot_meta_from_account a |a i s'. s' \<in> set (s # ss) \<and> i \<in> set (workset_of m s') \<and> store_get cat i = Inr a}"
  proof
    fix x assume "x \<in> set ?metas"
    from add_accounts_set [OF this] sub show "x \<in> set metas \<union>
      {hot_meta_from_account a |a i s'. s' \<in> set (s # ss) \<and> i \<in> set (workset_of m s') \<and> store_get cat i = Inr a}"
      by auto
  qed
  have len_m: "length metas \<le> length ?metas" by (rule add_accounts_grows)
  have ne: "?metas \<noteq> []" if "\<forall>i \<in> set (workset_of m s). \<exists>a. store_get cat i = Inr a"
    using that sub add_accounts_nonempty by fastforce
  obtain metas' where m': "gather probe clk cfg cat m ss ?metas = Inr metas'"
    "set metas' \<subseteq> set ?metas \<union>
      {hot_meta_from_account a |a i s. s \<in> set ss \<and> i \<in> set (workset_of m s) \<and> store_get cat i = Inr a}"
    "length ?metas \<le> length metas'"
    using Cons.IH [of ?metas] Cons.prems by auto
  have "metas' \<noteq> []" if "?metas \<noteq> []" using that m'(3) by auto
  moreover have "set metas' \<subseteq> set metas \<union>
      {hot_meta_from_account a |a i s'. s' \<in> set (s # ss) \<and> i \<in> set (workset_of m s') \<and> store_get cat i = Inr a}"
    using m'(2) set_m by fastforce
  ultimately show ?case using g m'(1,3) set_m len_m ne by (auto simp del: add_accounts.simps)
qed simp

lemma metas_map_keys: "fst ` set (metas_map ms) = hm_id ` set ms"
proof -
  have "fst ` set (fold (\<lambda>m. gm_put (hm_id m) m) ms hot) = fst ` set hot \<union> hm_id ` set ms" for hot
    by (induction ms arbitrary: hot) (auto simp: gm_put_keys)
  from this [of "[]"] show ?thesis by (simp add: metas_map_def)
qed

lemma load_metas_keys:
  assumes "\<not> hi_closed x" "\<And>m. m \<in> set metas \<Longrightarrow> hm_id m \<noteq> []"
  shows "\<exists>n y. load_metas ord metas x = (Inr n, y) \<and> dom (map_of (hi_hot y)) \<subseteq> hm_id ` set metas"
proof -
  have k: "hm_id (keep_inflight prev m) = hm_id m" for prev m
    by (simp add: keep_inflight_def split: option.split)
  have "\<not> (\<exists>m \<in> set (take (hi_cap x) metas). hm_id m = [])" using assms(2) by (auto dest: in_set_takeD)
  moreover have "dom (map_of (metas_map (map (keep_inflight prev) (take (hi_cap x) metas)))) \<subseteq> hm_id ` set metas" for prev
    using k by (auto simp: gm_keys_dom [symmetric] metas_map_keys dest: in_set_takeD)
  ultimately show ?thesis using assms(1) by (simp add: load_metas_def Let_def replace_all_locked_def)
qed

lemma wf_catalog_row: "wf_catalog c \<Longrightarrow> map_of (cat_rows c) i = Some a \<Longrightarrow> acc_id a = i \<and> i \<noteq> []"
  by (auto simp: wf_catalog_def wf_rows_def wf_account_def dest!: map_of_SomeD)

lemma reconcile_own:
  assumes "\<not> mem_closed m" "0 < wc_hot_size cfg" "sh \<noteq> []" "iteration_order ord" "iteration_order hot_ord"
    and "wf_catalog cat" "cat_open cat" "idx_ok x" "\<not> hi_closed x"
    and "\<And>s. s \<in> fst ` set sh \<Longrightarrow> workset_of m s \<noteq> [] \<and> set (workset_of m s) \<subseteq> dom (map_of (cat_rows cat))"
  shows "\<exists>n y. reconcile_hot ord hot_ord probe clk now cfg sh cat m x = (Inr n, y) \<and> idx_ok y \<and>
    (\<forall>i \<in> dom (map_of (hi_hot y)). \<exists>s \<in> fst ` set sh. i \<in> set (workset_of m s))"
proof -
  let ?ss = "ord (map fst sh)"
  have ss: "set ?ss = fst ` set sh" "?ss \<noteq> []"
    using assms(3,4) by (simp, metis iteration_order_length length_0_conv length_map)
  have row: "store_get cat i = Inr a \<longleftrightarrow> map_of (cat_rows cat) i = Some a" if "map_of (cat_rows cat) i = Some b" for i a b
    using that assms(6,7) wf_catalog_row [OF assms(6) that]
    by (auto simp: store_get_def cat_get_def cat_get_unlocked_def)
  have key: "acc_id a = i \<and> i \<noteq> []" if "map_of (cat_rows cat) i = Some a" for i a
    using wf_catalog_row [OF assms(6) that] by simp
  have hd: "hd ?ss \<in> fst ` set sh" using ss hd_in_set by blast
  obtain metas where m: "gather probe clk cfg cat m ?ss [] = Inr metas"
    "set metas \<subseteq> {hot_meta_from_account a |a i s. s \<in> set ?ss \<and> i \<in> set (workset_of m s) \<and> store_get cat i = Inr a}"
    "?ss \<noteq> [] \<and> (\<forall>i \<in> set (workset_of m (hd ?ss)). \<exists>a. store_get cat i = Inr a) \<longrightarrow> metas \<noteq> []"
    using gather_own [OF assms(1,2), of ?ss probe clk cat "[]"] assms(10) ss by auto
  have ne: "metas \<noteq> []" using m(3) ss(2) assms(10) [OF hd] row by blast
  have ids: "\<exists>s \<in> fst ` set sh. hm_id u \<in> set (workset_of m s) \<and> hm_id u \<noteq> []" if u: "u \<in> set metas" for u
  proof -
    obtain a i s where e: "u = hot_meta_from_account a" "s \<in> set ?ss" "i \<in> set (workset_of m s)" "store_get cat i = Inr a"
      using m(2) u by blast
    then have "i \<in> dom (map_of (cat_rows cat))" using assms(10) ss(1) by blast
    then have "acc_id a = i \<and> i \<noteq> []" using row key e(4) by blast
    then show ?thesis using e ss(1) by (auto simp: hot_meta_from_account_def)
  qed
  obtain y where y: "hot_resize (wc_hot_size cfg) x = Some y" "idx_ok y" "hi_closed y = hi_closed x"
    using hot_resize_ok [OF assms(8)] hot_resize_frame [OF assms(8)] by blast
  obtain n z where z: "load_metas hot_ord metas y = (Inr n, z)" "dom (map_of (hi_hot z)) \<subseteq> hm_id ` set metas"
  proof -
    have c: "\<not> hi_closed y" using y(3) assms(9) by simp
    have i: "hm_id u \<noteq> []" if "u \<in> set metas" for u using ids [OF that] by auto
    have "\<exists>n z. load_metas hot_ord metas y = (Inr n, z) \<and> dom (map_of (hi_hot z)) \<subseteq> hm_id ` set metas"
      by (rule load_metas_keys [OF c i])
    then show thesis using that by blast
  qed
  have "idx_ok z" using load_metas_ok [OF y(2) assms(5), of metas] z(1) by simp
  moreover have "reconcile_hot ord hot_ord probe clk now cfg sh cat m x = (Inr n, z)"
    using m(1) ne y(1) z(1) by (simp add: reconcile_hot_def Let_def)
  moreover have "\<forall>i \<in> dom (map_of (hi_hot z)). \<exists>s \<in> fst ` set sh. i \<in> set (workset_of m s)"
  proof
    fix i assume "i \<in> dom (map_of (hi_hot z))"
    then obtain u where "u \<in> set metas" "i = hm_id u" using z(2) by auto
    then show "\<exists>s \<in> fst ` set sh. i \<in> set (workset_of m s)" using ids by auto
  qed
  ultimately show ?thesis by blast
qed

text \<open>
  C22. The parts together keep two workers apart. Take any state with the worksets that a refill from the
  catalog wrote, and two workers whose shards are disjoint: after each reconciles, both hot indexes are well
  formed, every hot account hashes to a shard of its worker, and no account is hot on both. (A worker without
  shards, or with a shard without candidates, loads accounts of every shard instead: this is why the hypotheses ask
  for both.)
\<close>

theorem hot_sets_disjoint:
  assumes "wf_catalog cat" "cat_open cat" "\<not> mem_closed m0" "0 < cc_shard_count ccfg" "cc_shard_count ccfg < 2 ^ 32"
    and "0 < cc_desired_hot ccfg" "0 < cc_workset_size ccfg" "refill_once probe ccfg cat now m0 = (None, m1)"
    and "\<not> mem_closed m" "mem_workset m = mem_workset m1"
    and "\<And>cfg sh. (cfg, sh) \<in> {(cfg1, sh1), (cfg2, sh2)} \<Longrightarrow> 0 < wc_hot_size cfg \<and> sh \<noteq> [] \<and>
      (\<forall>s \<in> fst ` set sh. 0 \<le> s \<and> s < cc_shard_count ccfg \<and> list_workset s 0 m \<noteq> Inr [])"
    and "fst ` set sh1 \<inter> fst ` set sh2 = {}" "idx_ok x1" "idx_ok x2" "\<not> hi_closed x1" "\<not> hi_closed x2"
    and "iteration_order ord" "iteration_order hot_ord"
    and "reconcile_hot ord hot_ord probe clk t cfg1 sh1 cat m x1 = (r1, y1)"
    and "reconcile_hot ord hot_ord probe clk t cfg2 sh2 cat m x2 = (r2, y2)"
  shows "idx_ok y1 \<and> idx_ok y2 \<and> dom (map_of (hi_hot y1)) \<inter> dom (map_of (hi_hot y2)) = {} \<and>
    (\<forall>i \<in> dom (map_of (hi_hot y1)). shard_of i (cc_shard_count ccfg) \<in> fst ` set sh1) \<and>
    (\<forall>i \<in> dom (map_of (hi_hot y2)). shard_of i (cc_shard_count ccfg) \<in> fst ` set sh2)"
proof -
  let ?n = "cc_shard_count ccfg"
  obtain metas where metas: "list_workset_candidates probe cat now (cc_workset_size ccfg) = Inr metas"
    using assms(8) by (auto simp: refill_once_def split: sum.splits)
  have ids: "set (map hm_id metas) \<subseteq> dom (map_of (cat_rows cat))"
  proof -
    have "set metas \<subseteq> eligible_meta ` snd ` set (cat_rows cat)"
      using metas assms(2,7) by (auto simp: list_workset_candidates_def store_list_eligible_def list_eligible_def dest!: in_set_takeD)
    moreover have "hm_id (eligible_meta a) \<in> dom (map_of (cat_rows cat))" if "(i, a) \<in> set (cat_rows cat)" for i a
      using that assms(1) by (fastforce simp: eligible_meta_def wf_catalog_def wf_rows_def wf_account_def gm_wf_def dest: map_of_is_SomeI)
    ultimately show ?thesis by fastforce
  qed
  have "\<not> mem_closed m1 \<and> (\<forall>s. list_workset s 0 m1 = (if 0 \<le> s \<and> s < ?n
      then Inr (take (nat (cc_desired_hot ccfg)) (filter (\<lambda>i. shard_of i ?n = s) (map hm_id metas))) else list_workset s 0 m0))"
    using refill_worksets [OF assms(3-6) metas assms(8)] by blast
  then have ws: "workset_of m s = take (nat (cc_desired_hot ccfg)) (filter (\<lambda>i. shard_of i ?n = s) (map hm_id metas))"
    if "0 \<le> s" "s < ?n" for s
    using that list_workset_take [of m1 s 0] assms(10) by (auto simp: workset_of_def)
  have own: "idx_ok y \<and> (\<forall>i \<in> dom (map_of (hi_hot y)). shard_of i ?n \<in> fst ` set sh)"
    if c: "(cfg, sh) \<in> {(cfg1, sh1), (cfg2, sh2)}" and x: "idx_ok x" "\<not> hi_closed x"
      and r: "reconcile_hot ord hot_ord probe clk t cfg sh cat m x = (r, y)" for cfg sh x r y
  proof -
    have w: "workset_of m s \<noteq> [] \<and> set (workset_of m s) \<subseteq> dom (map_of (cat_rows cat))" if s: "s \<in> fst ` set sh" for s
    proof
      show "workset_of m s \<noteq> []" using assms(11) [OF c] s list_workset_take [OF assms(9), of s 0] by auto
      have "set (workset_of m s) \<subseteq> set (map hm_id metas)"
        using ws [of s] assms(11) [OF c] s by (auto dest!: in_set_takeD)
      then show "set (workset_of m s) \<subseteq> dom (map_of (cat_rows cat))" using ids by blast
    qed
    obtain n y' where y': "reconcile_hot ord hot_ord probe clk t cfg sh cat m x = (Inr n, y')" "idx_ok y'"
      "\<forall>i \<in> dom (map_of (hi_hot y')). \<exists>s \<in> fst ` set sh. i \<in> set (workset_of m s)"
    proof -
      have "0 < wc_hot_size cfg" "sh \<noteq> []" using assms(11) [OF c] by simp_all
      from reconcile_own [OF assms(9) this assms(17,18,1,2) x w] show thesis using that by blast
    qed
    have "shard_of i ?n \<in> fst ` set sh" if i: "i \<in> dom (map_of (hi_hot y'))" for i
    proof -
      obtain s where s: "s \<in> fst ` set sh" "i \<in> set (workset_of m s)" using y'(3) i by blast
      then have "shard_of i ?n = s" using ws [of s] assms(11) [OF c] by (auto dest!: in_set_takeD)
      then show ?thesis using s(1) by simp
    qed
    then show ?thesis using y' r by simp
  qed
  show ?thesis using own [OF _ assms(13,15,19)] own [OF _ assms(14,16,20)] assms(12) by blast
qed

section \<open>Witnesses\<close>

definition sample_control :: control_config where
  "sample_control = \<lparr>cc_shard_count = 2, cc_workset_size = 10, cc_desired_hot = 2, cc_refill_interval = 1\<rparr>"

definition sample_worker_config :: "string \<Rightarrow> worker_config" where
  "sample_worker_config v = worker_normalize
     \<lparr>wc_worker_id = v, wc_listen = [], wc_shard_count = 2, wc_hot_size = 15000, wc_max_inflight = 0, wc_max_attempts = 0,
      wc_shard_lease_ttl = 0, wc_shard_renew_every = 0, wc_reconcile_every = 0, wc_pow2_k = 0, wc_sticky_ttl_sec = 0,
      wc_base_url = [], wc_client_version = [], wc_client_identifier = [], wc_user_agent = [], wc_token_auth = [], wc_max_body = 0\<rparr>"

definition sample_refilled :: memory where
  "sample_refilled = snd (refill_once (\<lambda>_. None) sample_control sample_catalog 10 new_memory)"

text \<open>Two workers claim after the refill, the second one while the lease of the first lasts.\<close>

definition sample_claim :: "string \<Rightarrow> int \<Rightarrow> memory \<Rightarrow> shards \<times> memory" where
  "sample_claim v t m = snd (claim_shards (\<lambda>s. (t * 1000000000, t * 1000000000)) (sample_worker_config v) [] m)"

lemma sample_refill: "refill_once (\<lambda>_. None) sample_control sample_catalog 10 new_memory = (None, sample_refilled)"
proof -
  have "fst (refill_once (\<lambda>_. None) sample_control sample_catalog 10 new_memory) = None" by code_simp
  then show ?thesis by (simp add: sample_refilled_def prod_eq_iff)
qed

lemma fleet_catalog_wf: "wf_catalog sample_catalog"
  by (rule wf_cat_steps [OF sample_catalog_steps wf_empty])

lemma single_key: "map fst m = [k] \<Longrightarrow> fst ` set m = {k} \<and> m \<noteq> [] \<and> gm_wf m"
  by (cases m) (auto simp: gm_wf_def)

theorem refill_exact_witness: "list_workset 1 0 sample_refilled = Inr [''a'', ''c'']"
proof -
  define metas where "metas = (case list_workset_candidates (\<lambda>_. None) sample_catalog 10 10 of Inr ms \<Rightarrow> ms | Inl e \<Rightarrow> [])"
  have "\<not> isl (list_workset_candidates (\<lambda>_. None) sample_catalog 10 10)" by code_simp
  then have m: "list_workset_candidates (\<lambda>_. None) sample_catalog 10 10 = Inr metas"
    by (auto simp: metas_def split: sum.splits)
  have "take 2 (filter (\<lambda>i. shard_of i 2 = 1) (map hm_id metas)) = [''a'', ''c'']" unfolding metas_def by code_simp
  moreover have "\<not> mem_closed new_memory" by code_simp
  ultimately show ?thesis
    using refill_exact [of new_memory sample_control "\<lambda>_. None" sample_catalog 10 metas None sample_refilled] m sample_refill
    by (simp add: sample_control_def)
qed

theorem claim_first_free_witness:
  "fst ` set (fst (sample_claim ''w2'' 20 (snd (sample_claim ''w1'' 10 sample_refilled)))) = {1}"
proof -
  let ?m = "snd (sample_claim ''w1'' 10 sample_refilled)"
  obtain e sh m' where c: "claim_shards (\<lambda>s. (20 * 1000000000, 20 * 1000000000)) (sample_worker_config ''w2'') [] ?m = (e, sh, m')"
    by (metis prod_cases3)
  have opn: "\<not> mem_closed ?m" by code_simp
  have "take (nat (target_shards (sample_worker_config ''w2''))) (filter (\<lambda>s. takeable 20000000000 ''w2'' ?m s) [0, 1]) = [1]"
    by code_simp
  moreover have "map int [0..<nat (wc_shard_count (sample_worker_config ''w2''))] = [0, 1]"
    "wc_worker_id (sample_worker_config ''w2'') = ''w2''" by code_simp+
  ultimately show ?thesis using claim_first_free [OF opn c] c by (simp add: sample_claim_def)
qed

theorem renewed_shards_exclusive_witness:
  "fst ` set (fst (renew_shards rev (\<lambda>s. 30000000000) (sample_worker_config ''w2'')
       (fst (sample_claim ''w2'' 20 (snd (sample_claim ''w1'' 10 sample_refilled))))
       (shard_lock.lock_run [LockTry 40000000000 40000000000 0 ''w2'' 50]
         (snd (renew_shards rev (\<lambda>s. 30000000000) (sample_worker_config ''w1'') (fst (sample_claim ''w1'' 10 sample_refilled))
           (snd (sample_claim ''w2'' 20 (snd (sample_claim ''w1'' 10 sample_refilled)))))))))
   \<inter> {0} = {}"
proof -
  let ?sh1 = "fst (sample_claim ''w1'' 10 sample_refilled)" and ?m1 = "snd (sample_claim ''w1'' 10 sample_refilled)"
  let ?sh2 = "fst (sample_claim ''w2'' 20 ?m1)" and ?m2 = "snd (sample_claim ''w2'' 20 ?m1)"
  let ?c1 = "sample_worker_config ''w1''" and ?c2 = "sample_worker_config ''w2''"
  obtain sh' ma where r1: "renew_shards rev (\<lambda>s. 30000000000) ?c1 ?sh1 ?m2 = (sh', ma)" by fastforce
  let ?es = "[LockTry 40000000000 40000000000 0 ''w2'' (50 :: int)]"
  obtain shv mb where r2: "renew_shards rev (\<lambda>s. 30000000000) ?c2 ?sh2 (shard_lock.lock_run ?es ma) = (shv, mb)" by fastforce
  have opn: "\<not> mem_closed ?m2" and keys: "map fst (fst (renew_shards rev (\<lambda>s. 30000000000) ?c1 ?sh1 ?m2)) = [0]"
    and open2: "\<not> mem_closed (snd (shard_try 40000000000 40000000000 0 ''w2'' 50
        (snd (renew_shards rev (\<lambda>s. 30000000000) ?c1 ?sh1 ?m2))))"
    and wf: "map fst ?sh1 = [0]" "map fst ?sh2 = [1]"
    and ids: "wc_worker_id ?c1 = ''w1''" "wc_worker_id ?c2 = ''w2''" "wc_shard_lease_ttl ?c1 = 45000000000"
    by code_simp+
  have sh': "fst ` set sh' = {0}" using single_key keys r1 by (metis fst_conv)
  have "list_all (shard_lock.foreign s (wc_worker_id ?c1) (unix_sec (30000000000 + wc_shard_lease_ttl ?c1))) ?es"
    if "s \<in> fst ` set sh'" for s
    by (simp add: ids unix_sec_def)
  moreover have "\<not> mem_closed (shard_lock.lock_run ?es ma)" using open2 r1 by simp
  moreover have "wc_worker_id ?c2 \<noteq> wc_worker_id ?c1" by (simp add: ids)
  ultimately have "fst ` set sh' \<inter> fst ` set shv = {}"
    using renewed_shards_exclusive [OF opn iteration_order_rev _ r1 _ refl _ iteration_order_rev _ r2]
      single_key [OF wf(1)] single_key [OF wf(2)] by blast
  then show ?thesis using sh' by (simp add: r1 r2 Int_commute del: shard_lock.lock_run.simps)
qed

theorem hot_sets_disjoint_witness:
  "dom (map_of (hi_hot (snd (reconcile_hot rev rev (\<lambda>_. None) (\<lambda>_. 10) 10 (sample_worker_config ''w1'')
       (fst (sample_claim ''w1'' 10 sample_refilled)) sample_catalog sample_refilled sample_index)))) \<inter>
   dom (map_of (hi_hot (snd (reconcile_hot rev rev (\<lambda>_. None) (\<lambda>_. 10) 10 (sample_worker_config ''w2'')
       (fst (sample_claim ''w2'' 20 (snd (sample_claim ''w1'' 10 sample_refilled)))) sample_catalog sample_refilled sample_index)))) = {}"
proof -
  let ?sh1 = "fst (sample_claim ''w1'' 10 sample_refilled)"
  let ?sh2 = "fst (sample_claim ''w2'' 20 (snd (sample_claim ''w1'' 10 sample_refilled)))"
  let ?c1 = "sample_worker_config ''w1''" and ?c2 = "sample_worker_config ''w2''"
  have keys: "map fst ?sh1 = [0]" "map fst ?sh2 = [1]" by code_simp+
  have ws: "list_workset 0 0 sample_refilled = Inr [''b'']" "list_workset 1 0 sample_refilled = Inr [''a'', ''c'']"
    and cfg: "wc_hot_size ?c1 = 15000" "wc_hot_size ?c2 = 15000"
    and opn: "cat_open sample_catalog" "\<not> mem_closed new_memory" "\<not> mem_closed sample_refilled" "\<not> hi_closed sample_index"
    and ctl: "0 < cc_shard_count sample_control" "cc_shard_count sample_control < 2 ^ 32" "cc_shard_count sample_control = 2"
      "0 < cc_desired_hot sample_control" "0 < cc_workset_size sample_control"
    by code_simp+
  obtain r1 y1 where r1: "reconcile_hot rev rev (\<lambda>_. None) (\<lambda>_. 10) 10 ?c1 ?sh1 sample_catalog sample_refilled sample_index = (r1, y1)"
    by fastforce
  obtain r2 y2 where r2: "reconcile_hot rev rev (\<lambda>_. None) (\<lambda>_. 10) 10 ?c2 ?sh2 sample_catalog sample_refilled sample_index = (r2, y2)"
    by fastforce
  note sets = single_key [OF keys(1)] single_key [OF keys(2)]
  have "0 < wc_hot_size cfg \<and> sh \<noteq> [] \<and>
      (\<forall>s \<in> fst ` set sh. 0 \<le> s \<and> s < cc_shard_count sample_control \<and> list_workset s 0 sample_refilled \<noteq> Inr [])"
    if c: "(cfg, sh) \<in> {(?c1, ?sh1), (?c2, ?sh2)}" for cfg sh
  proof -
    from c consider "cfg = ?c1" "sh = ?sh1" | "cfg = ?c2" "sh = ?sh2" by blast
    then show ?thesis by cases (simp_all only: sets ws cfg ctl(3), simp_all add: ws)
  qed
  from hot_sets_disjoint [OF fleet_catalog_wf opn(1,2) ctl(1,2,4,5) sample_refill opn(3) refl this _ sample_index_ok sample_index_ok
      opn(4,4) iteration_order_rev iteration_order_rev r1 r2]
  show ?thesis using sets r1 r2 by simp
qed

end
