(* ===== verification/Stream.thy ===== *)
theory Stream
  imports Json
begin

text \<open>
  The translation of a stream of Responses events into Anthropic events
  (\<open>internal/protocol/anthropic/stream.go\<close>, \<open>thinking_stream.go\<close>). A handler changes the translator and writes
  events; a write can fail. The JSON decoder is a parameter: it gives an object as the list of
  its fields, read by exact name. Of a struct that the code decodes into, a field of another
  type stays zero, as \<open>json.Unmarshal\<close> leaves it.
\<close>

section \<open>Data\<close>

datatype block_kind = KText | KTool | KThinking

record block =
  bk_index :: int
  bk_kind :: block_kind
  bk_call_id :: string
  bk_name :: string
  bk_emitted :: bool
  bk_stopped :: bool

text \<open>The payloads that are written; the strings and numbers are the fields that vary.\<close>

datatype event =
    MessageStart string string int
  | TextStart int
  | ToolStart int string string
  | ThinkingStart int
  | TextDelta int string
  | ArgsDelta int string
  | ThinkingDelta int string
  | SignatureDelta int string
  | BlockStop int
  | MessageDelta string int int
  | MessageStop
  | ErrorEvent string string

datatype stream_error = StWrite | StInvalidEvent | StUnexpectedEOF | StScan

record translator =
  tr_msg_id :: string
  tr_model :: string
  tr_request_model :: string
  tr_has_tool :: bool
  tr_started :: bool
  tr_finished :: bool
  tr_failed :: bool
  tr_in_tokens :: int
  tr_out_tokens :: int
  tr_enabled :: bool
  tr_display :: string
  tr_blocks :: "(string, block) gomap"
  tr_next :: int
  tr_thinking :: "block option"
  tr_signature :: string
  tr_stop_pending :: bool
  tr_reasoning_key :: string
  tr_completed :: "string list"
  tr_limit :: "nat option"
  tr_out :: "event list"

text \<open>
  Decoder, the bytes of a raw value, \<open>rawString\<close> after \<open>strconv.Quote\<close>, \<open>http.StatusText\<close>, and the clock at
  the start of a message.
\<close>

record stream_env =
  se_decode :: "string \<Rightarrow> json option"
  se_raw :: "json \<Rightarrow> string"
  se_requote :: "string \<Rightarrow> string"
  se_status_text :: "int \<Rightarrow> string"
  se_now :: int

text \<open>\<open>tr_limit\<close> is the number of writes that the client's connection accepts; \<open>None\<close> is no limit.\<close>

definition new_translator :: "string \<Rightarrow> bool \<Rightarrow> string \<Rightarrow> nat option \<Rightarrow> translator" where
  "new_translator request_model enabled display limit =
     \<lparr>tr_msg_id = [], tr_model = request_model, tr_request_model = request_model, tr_has_tool = False,
      tr_started = False, tr_finished = False, tr_failed = False, tr_in_tokens = 0, tr_out_tokens = 0,
      tr_enabled = enabled, tr_display = display, tr_blocks = [], tr_next = 0, tr_thinking = None,
      tr_signature = [], tr_stop_pending = False, tr_reasoning_key = [], tr_completed = [],
      tr_limit = limit, tr_out = []\<rparr>"

text \<open>A step returns an error or not; \<open>seq\<close> is the usual \<open>if err != nil { return err }\<close>.\<close>

type_synonym step = "translator \<Rightarrow> stream_error option \<times> translator"

definition seq :: "step \<Rightarrow> step \<Rightarrow> step" where
  "seq f g t = (case f t of (Some e, t') \<Rightarrow> (Some e, t') | (None, t') \<Rightarrow> g t')"

definition skip :: step where "skip t = (None, t)"

definition modify :: "(translator \<Rightarrow> translator) \<Rightarrow> step" where
  "modify f t = (None, f t)"

definition write_event :: "event \<Rightarrow> step" where
  "write_event e t =
     (if (case tr_limit t of None \<Rightarrow> True | Some n \<Rightarrow> length (tr_out t) < n)
      then (None, t\<lparr>tr_out := tr_out t @ [e]\<rparr>) else (Some StWrite, t))"

section \<open>Reading values\<close>

definition trim_quotes :: "string \<Rightarrow> string" where
  "trim_quotes s = rev (dropWhile (\<lambda>c. c = CHR 0x22) (rev (dropWhile (\<lambda>c. c = CHR 0x22) s)))"

definition raw_string :: "stream_env \<Rightarrow> json \<Rightarrow> string" where
  "raw_string env v =
     (case v of JNull \<Rightarrow> [] | JStr s \<Rightarrow> s | _ \<Rightarrow> trim_quotes (se_raw env v))"

definition field :: "stream_env \<Rightarrow> (string, json) gomap \<Rightarrow> string \<Rightarrow> string" where
  "field env m k = raw_string env (json_get m k)"

text \<open>Fields of a struct.\<close>

definition struct_string :: "(string, json) gomap \<Rightarrow> string \<Rightarrow> string" where
  "struct_string m k = (case json_get m k of JStr s \<Rightarrow> s | _ \<Rightarrow> [])"

definition struct_int :: "(string, json) gomap \<Rightarrow> string \<Rightarrow> int" where
  "struct_int m k = (case json_get m k of JNum s \<Rightarrow> (case atoi s of Some n \<Rightarrow> n | None \<Rightarrow> 0) | _ \<Rightarrow> 0)"

definition struct_object :: "(string, json) gomap \<Rightarrow> string \<Rightarrow> (string, json) gomap" where
  "struct_object m k = (case json_get m k of JObj o' \<Rightarrow> o' | _ \<Rightarrow> [])"

text \<open>\<open>json.Unmarshal\<close> into a slice of objects; a \<open>null\<close> is a nil map.\<close>

fun object_list :: "json list \<Rightarrow> (string, json) gomap list option" where
  "object_list [] = Some []"
| "object_list (v # vs) =
     (case v of
        JObj m \<Rightarrow> map_option ((#) m) (object_list vs)
      | JNull \<Rightarrow> map_option ((#) []) (object_list vs)
      | _ \<Rightarrow> None)"

definition decode_objects :: "json \<Rightarrow> (string, json) gomap list option" where
  "decode_objects v = (case v of JArr vs \<Rightarrow> object_list vs | JNull \<Rightarrow> Some [] | _ \<Rightarrow> None)"

definition first_non_empty :: "string list \<Rightarrow> string" where
  "first_non_empty vs = (case filter (\<lambda>v. v \<noteq> []) (map trim_space vs) of [] \<Rightarrow> [] | v # _ \<Rightarrow> v)"

definition stream_item_key :: "string list \<Rightarrow> string" where
  "stream_item_key vs = (if first_non_empty vs = [] then ''default'' else first_non_empty vs)"

definition stream_event_key :: "stream_env \<Rightarrow> (string, json) gomap \<Rightarrow> string" where
  "stream_event_key env m =
     stream_item_key [field env m ''item_id'', field env m ''output_index'', field env m ''content_index'']"

definition normalize_block_key :: "string \<Rightarrow> string \<Rightarrow> string" where
  "normalize_block_key kind key0 =
     (let key = trim_space key0; key = (if key = [] then ''default'' else key) in
      if has_prefix key (kind @ '':'') then key else kind @ '':'' @ key)"

definition normalize_reasoning_key :: "string \<Rightarrow> string" where
  "normalize_reasoning_key key0 =
     (let key = trim_space key0 in
      if key = [] then ''reasoning:default'' else if has_prefix key ''reasoning:'' then key else ''reasoning:'' @ key)"

definition reasoning_event_key :: "stream_env \<Rightarrow> (string, json) gomap \<Rightarrow> string" where
  "reasoning_event_key env m = normalize_reasoning_key (first_non_empty [field env m ''item_id'', field env m ''output_index''])"

text \<open>The texts of a message item, none of them empty.\<close>

definition part_text :: "stream_env \<Rightarrow> (string, json) gomap \<Rightarrow> string list" where
  "part_text env p =
     (if field env p ''type'' \<in> {''output_text'', ''text'', ''input_text''} \<and> field env p ''text'' \<noteq> []
      then [field env p ''text''] else [])"

definition message_texts :: "stream_env \<Rightarrow> json option \<Rightarrow> string list" where
  "message_texts env v =
     (case v of
        None \<Rightarrow> []
      | Some v \<Rightarrow>
          (case decode_objects v of
             Some ps \<Rightarrow> concat (map (part_text env) ps)
           | None \<Rightarrow> (case v of JStr s \<Rightarrow> if s \<noteq> [] then [s] else [] | _ \<Rightarrow> [])))"

fun join_lines :: "string list \<Rightarrow> string" where
  "join_lines [] = []"
| "join_lines [s] = s"
| "join_lines (s # ss) = s @ CHR 0x0A # join_lines ss"

definition summary_part :: "stream_env \<Rightarrow> (string, json) gomap \<Rightarrow> string" where
  "summary_part env p = (if field env p ''text'' = [] then field env p ''content'' else field env p ''text'')"

definition reasoning_summary :: "stream_env \<Rightarrow> json \<Rightarrow> string" where
  "reasoning_summary env v =
     (case v of
        JNull \<Rightarrow> []
      | JStr s \<Rightarrow> s
      | _ \<Rightarrow> (case decode_objects v of
               None \<Rightarrow> []
             | Some ps \<Rightarrow> join_lines (filter (\<lambda>s. s \<noteq> []) (map (summary_part env) ps))))"

definition or_zero :: "int \<Rightarrow> int \<Rightarrow> int" where
  "or_zero a b = (if a = 0 then b else a)"

definition extract_usage :: "json \<Rightarrow> int \<times> int" where
  "extract_usage v =
     (let m = (case v of JObj m \<Rightarrow> m | _ \<Rightarrow> []) in
      (or_zero (or_zero (struct_int m ''input_tokens'') (struct_int m ''prompt_tokens'')) (struct_int m ''input_token_count''),
       or_zero (or_zero (struct_int m ''output_tokens'') (struct_int m ''completion_tokens'')) (struct_int m ''output_token_count'')))"

section \<open>Thinking blocks\<close>

definition ensure_start :: "stream_env \<Rightarrow> string \<Rightarrow> string \<Rightarrow> step" where
  "ensure_start env id0 model0 t =
     (if tr_started t then (None, t)
      else let id = (if id0 = [] then ''msg_'' @ show_int (se_now env) else id0);
               id = (if has_prefix id ''resp_'' then ''msg_'' @ trim_prefix id ''resp_'' else id);
               model = (if model0 = [] then tr_request_model t else model0);
               model = (if model = [] then tr_model t else model) in
        write_event (MessageStart id model (tr_in_tokens t))
          (t\<lparr>tr_msg_id := id, tr_model := model, tr_started := True\<rparr>))"

text \<open>\<open>EnsureStart(t.State.MsgID, t.State.Model)\<close>.\<close>

definition started :: "stream_env \<Rightarrow> step" where
  "started env t = ensure_start env (tr_msg_id t) (tr_model t) t"

definition close_thinking :: "bool \<Rightarrow> translator \<Rightarrow> translator" where
  "close_thinking clear t =
     (let t1 = (if tr_reasoning_key t \<noteq> [] then t\<lparr>tr_completed := List.insert (tr_reasoning_key t) (tr_completed t)\<rparr> else t);
          t2 = t1\<lparr>tr_thinking := None, tr_stop_pending := False\<rparr> in
      if clear then t2\<lparr>tr_signature := [], tr_reasoning_key := []\<rparr> else t2)"

definition finalize_thinking :: "bool \<Rightarrow> step" where
  "finalize_thinking clear t =
     (if \<not> tr_enabled t then (None, t)
      else case tr_thinking t of
        None \<Rightarrow> (None, if clear then t\<lparr>tr_signature := []\<rparr> else t)
      | Some b \<Rightarrow>
          seq (if tr_signature t \<noteq> [] then write_event (SignatureDelta (bk_index b) (tr_signature t)) else skip)
            (seq (write_event (BlockStop (bk_index b))) (modify (close_thinking clear))) t)"

definition finish_thinking_before_content :: step where
  "finish_thinking_before_content t = (if tr_thinking t = None then (None, t) else finalize_thinking True t)"

definition new_block :: "int \<Rightarrow> block_kind \<Rightarrow> string \<Rightarrow> string \<Rightarrow> block" where
  "new_block i k call_id name =
     \<lparr>bk_index = i, bk_kind = k, bk_call_id = call_id, bk_name = name, bk_emitted = False, bk_stopped = False\<rparr>"

definition open_thinking :: step where
  "open_thinking t =
     seq (write_event (ThinkingStart (tr_next t)))
       (modify (\<lambda>u. u\<lparr>tr_thinking := Some (new_block (tr_next t) KThinking [] []), tr_stop_pending := False\<rparr>))
       (t\<lparr>tr_next := tr_next t + 1\<rparr>)"

definition ensure_thinking_block :: "stream_env \<Rightarrow> step" where
  "ensure_thinking_block env t =
     (if \<not> tr_enabled t \<or> tr_thinking t \<noteq> None then (None, t) else seq (started env) open_thinking t)"

definition start_thinking_part :: "stream_env \<Rightarrow> string \<Rightarrow> step" where
  "start_thinking_part env key t =
     (if \<not> tr_enabled t then (None, t)
      else seq (if tr_thinking t \<noteq> None \<and> tr_stop_pending t then finalize_thinking False else skip)
             (seq (modify (\<lambda>t. t\<lparr>tr_reasoning_key := normalize_reasoning_key key\<rparr>)) (ensure_thinking_block env)) t)"

definition emit_thinking :: "string \<Rightarrow> step" where
  "emit_thinking text t =
     (case tr_thinking t of
        None \<Rightarrow> (None, t)
      | Some b \<Rightarrow>
          seq (write_event (ThinkingDelta (bk_index b) text))
            (modify (\<lambda>t. t\<lparr>tr_thinking := Some (b\<lparr>bk_emitted := True\<rparr>)\<rparr>)) t)"

definition thinking_delta :: "stream_env \<Rightarrow> string \<Rightarrow> step" where
  "thinking_delta env text t =
     (if \<not> tr_enabled t \<or> tr_display t = ''omitted'' \<or> text = [] then (None, t)
      else seq (ensure_thinking_block env) (emit_thinking text) t)"

definition capture_signature :: "string \<Rightarrow> string \<Rightarrow> translator \<Rightarrow> translator" where
  "capture_signature key signature t =
     (if \<not> tr_enabled t \<or> signature = [] then t
      else let t1 = (if trim_space key \<noteq> [] then t\<lparr>tr_reasoning_key := normalize_reasoning_key (trim_space key)\<rparr> else t) in
        t1\<lparr>tr_signature := signature\<rparr>)"

definition emit_final_reasoning :: "stream_env \<Rightarrow> (string, json) gomap \<Rightarrow> string \<Rightarrow> step" where
  "emit_final_reasoning env item fallback t =
     (if \<not> tr_enabled t then (None, t)
      else let key = normalize_reasoning_key (first_non_empty [field env item ''id'', fallback]) in
       if key \<in> set (tr_completed t) then (None, t)
       else let summary = (if tr_display t = ''omitted'' then [] else reasoning_summary env (json_get item ''summary''));
                signature = (if field env item ''encrypted_content'' = [] then tr_signature t
                             else field env item ''encrypted_content'') in
        if summary = [] \<and> signature = [] then (None, t)
        else seq (ensure_thinking_block env) (seq (thinking_delta env summary) (finalize_thinking True))
          (t\<lparr>tr_reasoning_key := key, tr_signature := (if signature \<noteq> [] then signature else tr_signature t)\<rparr>))"

section \<open>Text and tool blocks\<close>

text \<open>The result names the block by its key in the map, for the code's pointer to it.\<close>

definition open_block :: "string \<Rightarrow> block \<Rightarrow> event \<Rightarrow> (translator \<Rightarrow> translator) \<Rightarrow> step" where
  "open_block key b e f t =
     seq (write_event e) (modify (\<lambda>u. f (u\<lparr>tr_blocks := gm_put key b (tr_blocks u)\<rparr>))) (t\<lparr>tr_next := tr_next t + 1\<rparr>)"

definition ensure_text_block :: "string \<Rightarrow> step" where
  "ensure_text_block key0 =
     seq finish_thinking_before_content (\<lambda>t.
       let key = normalize_block_key ''text'' key0 in
       case gm_get (tr_blocks t) key of
         Some b \<Rightarrow> (None, t)
       | None \<Rightarrow> open_block key (new_block (tr_next t) KText [] []) (TextStart (tr_next t)) id t)"

definition tool_key :: "string \<Rightarrow> string \<Rightarrow> string" where
  "tool_key key call_id = normalize_block_key ''tool'' (first_non_empty [key, call_id])"

definition ensure_tool_block :: "string \<Rightarrow> string \<Rightarrow> string \<Rightarrow> step" where
  "ensure_tool_block key0 call_id0 name0 =
     seq finish_thinking_before_content (\<lambda>t.
       let key = tool_key key0 call_id0 in
       case gm_get (tr_blocks t) key of
         Some b \<Rightarrow> (None, t)
       | None \<Rightarrow>
           let call_id = (if call_id0 = [] then trim_prefix key ''tool:'' else call_id0);
               name = (if name0 = [] then ''tool'' else name0) in
           open_block key (new_block (tr_next t) KTool call_id name) (ToolStart (tr_next t) call_id name)
             (\<lambda>u. u\<lparr>tr_has_tool := True\<rparr>) t)"

definition update_block :: "string \<Rightarrow> (block \<Rightarrow> block) \<Rightarrow> translator \<Rightarrow> translator" where
  "update_block key f t =
     (case gm_get (tr_blocks t) key of
        None \<Rightarrow> t
      | Some b \<Rightarrow> t\<lparr>tr_blocks := gm_put key (f b) (tr_blocks t)\<rparr>)"

definition emit_delta :: "string \<Rightarrow> (int \<Rightarrow> event) \<Rightarrow> step" where
  "emit_delta key e t =
     (case gm_get (tr_blocks t) key of
        None \<Rightarrow> (None, t)
      | Some b \<Rightarrow>
          if bk_stopped b then (None, t)
          else seq (write_event (e (bk_index b))) (modify (update_block key (\<lambda>b. b\<lparr>bk_emitted := True\<rparr>))) t)"

definition text_delta :: "string \<Rightarrow> string \<Rightarrow> step" where
  "text_delta key text t =
     (if text = [] then (None, t)
      else seq (ensure_text_block key) (emit_delta (normalize_block_key ''text'' key) (\<lambda>i. TextDelta i text)) t)"

definition tool_args_delta :: "string \<Rightarrow> string \<Rightarrow> string \<Rightarrow> string \<Rightarrow> step" where
  "tool_args_delta key call_id name args t =
     (if args = [] then (None, t)
      else seq (ensure_tool_block key call_id name) (emit_delta (tool_key key call_id) (\<lambda>i. ArgsDelta i args)) t)"

definition stop_at :: "string \<Rightarrow> step" where
  "stop_at key t =
     (case gm_get (tr_blocks t) key of
        None \<Rightarrow> (None, t)
      | Some b \<Rightarrow>
          if bk_stopped b then (None, t)
          else seq (write_event (BlockStop (bk_index b))) (modify (update_block key (\<lambda>b. b\<lparr>bk_stopped := True\<rparr>))) t)"

definition stop_block :: "string \<Rightarrow> string \<Rightarrow> step" where
  "stop_block key kind = stop_at (normalize_block_key kind key)"

fun each :: "('a \<Rightarrow> step) \<Rightarrow> 'a list \<Rightarrow> step" where
  "each f [] t = (None, t)"
| "each f (x # xs) t = seq (f x) (each f xs) t"

definition stop_all_blocks :: step where
  "stop_all_blocks t =
     each stop_at (map fst (sort_key (\<lambda>(k, b). bk_index b) (filter (\<lambda>(k, b). \<not> bk_stopped b) (tr_blocks t)))) t"

section \<open>The end of a stream\<close>

definition finish :: "stream_env \<Rightarrow> string \<Rightarrow> int \<Rightarrow> int \<Rightarrow> step" where
  "finish env stop inp out t =
     (if tr_finished t then (None, t)
      else seq (started env) (seq (finalize_thinking True) (seq stop_all_blocks (\<lambda>t.
        let reason = (if stop = [] then (if tr_has_tool t then ''tool_use'' else ''end_turn'') else stop);
            i = (if inp = 0 \<and> tr_in_tokens t > 0 then tr_in_tokens t else inp);
            o' = (if out = 0 \<and> tr_out_tokens t > 0 then tr_out_tokens t else out) in
        seq (write_event (MessageDelta reason i o'))
          (seq (write_event MessageStop) (modify (\<lambda>t. t\<lparr>tr_finished := True\<rparr>))) t))) t)"

definition error_type_from_status :: "int \<Rightarrow> string" where
  "error_type_from_status status =
     (if status = 401 then ''authentication_error'' else if status = 402 then ''billing_error''
      else if status = 403 then ''permission_error'' else if status = 404 then ''not_found_error''
      else if status = 413 then ''request_too_large'' else if status = 429 then ''rate_limit_error''
      else if status = 504 then ''timeout_error'' else if status = 529 then ''overloaded_error''
      else if status \<ge> 500 then ''api_error'' else ''invalid_request_error'')"

definition or_trimmed :: "json \<Rightarrow> string \<Rightarrow> string" where
  "or_trimmed v d = (case v of JStr s \<Rightarrow> if trim_space s \<noteq> [] then trim_space s else d | _ \<Rightarrow> d)"

definition new_error_envelope :: "stream_env \<Rightarrow> int \<Rightarrow> string \<Rightarrow> string \<times> string" where
  "new_error_envelope env status message0 =
     (let msg = trim_space message0;
          msg = (if msg = [] then (if se_status_text env status = [] then ''error'' else se_status_text env status) else msg);
          typ = error_type_from_status status in
      case se_decode env msg of
        Some (JObj m) \<Rightarrow>
          (case json_get m ''error'' of
             JObj e \<Rightarrow> (or_trimmed (json_get e ''type'') typ, or_trimmed (json_get e ''message'') msg)
           | _ \<Rightarrow> (typ, msg))
      | _ \<Rightarrow> (typ, msg))"

definition fail :: "stream_env \<Rightarrow> int \<Rightarrow> string \<Rightarrow> step" where
  "fail env status message t =
     (if tr_finished t then (None, t)
      else seq (finalize_thinking True) (seq stop_all_blocks
        (seq (write_event (ErrorEvent (fst (new_error_envelope env status message)) (snd (new_error_envelope env status message))))
          (modify (\<lambda>t. t\<lparr>tr_failed := True, tr_finished := True\<rparr>)))) t)"

text \<open>\<open>FormatErrorMessage\<close>: the probe is used only when it decodes without a type error.\<close>

definition is_text :: "json \<Rightarrow> bool" where
  "is_text v \<longleftrightarrow> (case v of JStr s \<Rightarrow> True | JNull \<Rightarrow> True | _ \<Rightarrow> False)"

definition error_probe :: "json \<Rightarrow> (string \<times> string \<times> string) option" where
  "error_probe v =
     (case v of
        JObj m \<Rightarrow>
          if is_text (json_get m ''message'') \<and>
             (case json_get m ''error'' of
                JObj e \<Rightarrow> is_text (json_get e ''message'') \<and> is_text (json_get e ''type'') \<and> is_text (json_get e ''code'')
              | JNull \<Rightarrow> True | _ \<Rightarrow> False)
          then Some (struct_string (struct_object m ''error'') ''message'', struct_string m ''message'',
                     struct_string (struct_object m ''error'') ''code'')
          else None
      | JNull \<Rightarrow> Some ([], [], [])
      | _ \<Rightarrow> None)"

definition format_error_message :: "stream_env \<Rightarrow> int \<Rightarrow> string \<Rightarrow> string" where
  "format_error_message env status body =
     (if body = [] then (if se_status_text env status \<noteq> [] then se_status_text env status
                         else ''upstream status '' @ show_int status)
      else let s = trim_space body; short = (if length s > 512 then take 512 s else s) in
       case (case se_decode env body of None \<Rightarrow> None | Some v \<Rightarrow> error_probe v) of
         None \<Rightarrow> short
       | Some (em, m, c) \<Rightarrow>
           if trim_space em \<noteq> [] then trim_space em else if trim_space m \<noteq> [] then trim_space m
           else if trim_space c \<noteq> [] then trim_space c else short)"

definition stream_failure :: "stream_env \<Rightarrow> (string, json) gomap \<Rightarrow> int \<times> string" where
  "stream_failure env m =
     (let status = (case atoi (field env m ''status_code'') of Some n \<Rightarrow> if 400 \<le> n \<and> n \<le> 599 then n else 502 | None \<Rightarrow> 502);
          e = struct_object (struct_object m ''response'') ''error'';
          msg = trim_space (struct_string e ''message'');
          msg = (if msg = [] then trim_space (struct_string e ''code'') else msg) in
      (status, if msg = [] then ''upstream response failed'' else msg))"

section \<open>The final output\<close>

definition has_emitted_kind :: "block_kind \<Rightarrow> translator \<Rightarrow> bool" where
  "has_emitted_kind k t \<longleftrightarrow> (\<exists>(key, b) \<in> set (tr_blocks t). bk_kind b = k \<and> bk_emitted b)"

definition block_emitted :: "string \<Rightarrow> translator \<Rightarrow> bool" where
  "block_emitted key t = (case gm_get (tr_blocks t) key of None \<Rightarrow> False | Some b \<Rightarrow> bk_emitted b)"

definition unless_emitted :: "string \<Rightarrow> step \<Rightarrow> step" where
  "unless_emitted key f t = (if block_emitted key t then (None, t) else f t)"

definition final_message :: "stream_env \<Rightarrow> (string, json) gomap \<Rightarrow> string \<Rightarrow> step" where
  "final_message env item fallback t =
     (let key = stream_item_key [field env item ''id'', fallback]; bkey = normalize_block_key ''text'' key in
      if gm_get (tr_blocks t) bkey = None \<and> has_emitted_kind KText t then (None, t)
      else if block_emitted bkey t then stop_block key ''text'' t
      else seq (each (text_delta key) (message_texts env (gm_get item ''content''))) (stop_block key ''text'') t)"

definition final_call :: "stream_env \<Rightarrow> (string, json) gomap \<Rightarrow> string \<Rightarrow> step" where
  "final_call env item fallback =
     (let call_id = first_non_empty [field env item ''call_id'', field env item ''id''];
          key = stream_item_key [field env item ''id'', call_id, fallback]; name = field env item ''name'';
          args = (if field env item ''arguments'' = [] then ''{}'' else field env item ''arguments'') in
      seq (ensure_tool_block key call_id name)
        (seq (unless_emitted (tool_key key call_id) (tool_args_delta key call_id name args)) (stop_block key ''tool'')))"

definition final_item :: "stream_env \<Rightarrow> nat \<times> (string, json) gomap \<Rightarrow> step" where
  "final_item env ni =
     (let item = snd ni; n = show_int (int (fst ni)); typ = field env item ''type'' in
      if typ = ''reasoning'' then emit_final_reasoning env item (''final-reasoning-'' @ n)
      else if typ = ''message'' then final_message env item (''final-'' @ n)
      else if typ = ''function_call'' then final_call env item (''final-'' @ n)
      else skip)"

definition emit_final_output :: "stream_env \<Rightarrow> json \<Rightarrow> step" where
  "emit_final_output env v =
     (case decode_objects v of None \<Rightarrow> skip | Some items \<Rightarrow> each (final_item env) (zip [0..<length items] items))"

section \<open>Events\<close>

definition on_created :: "stream_env \<Rightarrow> (string, json) gomap \<Rightarrow> step" where
  "on_created env m t =
     (let r = struct_object m ''response'';
          model0 = (if struct_string r ''model'' \<noteq> [] \<and> tr_request_model t = [] then struct_string r ''model''
                    else tr_request_model t);
          n = struct_int (struct_object r ''usage'') ''input_tokens'';
          model = (if tr_request_model t \<noteq> [] then tr_request_model t else model0) in
      ensure_start env (struct_string r ''id'') model (if n > 0 then t\<lparr>tr_in_tokens := n\<rparr> else t))"

definition on_text_delta :: "stream_env \<Rightarrow> (string, json) gomap \<Rightarrow> step" where
  "on_text_delta env m = seq (started env) (text_delta (stream_event_key env m) (field env m ''delta''))"

definition on_part_added :: "stream_env \<Rightarrow> (string, json) gomap \<Rightarrow> step" where
  "on_part_added env m = seq (started env) (start_thinking_part env (reasoning_event_key env m))"

definition on_reasoning_delta :: "stream_env \<Rightarrow> (string, json) gomap \<Rightarrow> step" where
  "on_reasoning_delta env m =
     seq (started env)
      (seq (\<lambda>t. if tr_thinking t = None then start_thinking_part env (reasoning_event_key env m) t else (None, t))
        (thinking_delta env (field env m ''delta'')))"

definition on_content_added :: "stream_env \<Rightarrow> (string, json) gomap \<Rightarrow> step" where
  "on_content_added env m =
     (if struct_string (struct_object m ''part'') ''type'' = ''output_text''
      then seq (started env) (ensure_text_block (stream_event_key env m)) else skip)"

definition on_content_done :: "stream_env \<Rightarrow> (string, json) gomap \<Rightarrow> step" where
  "on_content_done env m =
     (let part = struct_object m ''part''; key = stream_event_key env m; text = struct_string part ''text'' in
      if struct_string part ''type'' = ''output_text''
      then seq (unless_emitted (normalize_block_key ''text'' key)
                 (if text \<noteq> [] then seq (started env) (text_delta key text) else skip))
             (stop_block key ''text'')
      else skip)"

definition call_id_of :: "string \<Rightarrow> string \<Rightarrow> string" where
  "call_id_of call_id item_id = (if call_id = [] then item_id else call_id)"

definition on_item_added :: "stream_env \<Rightarrow> (string, json) gomap \<Rightarrow> step" where
  "on_item_added env m =
     seq (started env)
      (let item = struct_object m ''item''; typ = struct_string item ''type''; id = struct_string item ''id'';
           rkey = normalize_reasoning_key (first_non_empty [id, reasoning_event_key env m]);
           call_id = call_id_of (struct_string item ''call_id'') id; name = struct_string item ''name'';
           key = stream_item_key [id, call_id, stream_event_key env m]; args = struct_string item ''arguments'' in
       if typ = ''reasoning''
       then modify (\<lambda>t. capture_signature rkey (struct_string item ''encrypted_content'') (t\<lparr>tr_reasoning_key := rkey\<rparr>))
       else if typ = ''function_call''
       then seq (ensure_tool_block key call_id name)
              (if args \<noteq> [] then tool_args_delta key call_id name args else skip)
       else skip)"

definition on_args_delta :: "stream_env \<Rightarrow> (string, json) gomap \<Rightarrow> step" where
  "on_args_delta env m =
     (let id = field env m ''item_id''; call_id = call_id_of (field env m ''call_id'') id in
      seq (started env)
        (tool_args_delta (stream_item_key [id, call_id, stream_event_key env m]) call_id (field env m ''name'') (field env m ''delta'')))"

definition on_args_done :: "stream_env \<Rightarrow> (string, json) gomap \<Rightarrow> step" where
  "on_args_done env m =
     (let id = field env m ''item_id''; call_id = call_id_of (field env m ''call_id'') id; name = field env m ''name'';
          key = stream_item_key [id, call_id, stream_event_key env m]; args = field env m ''arguments'' in
      seq (started env)
       (seq (ensure_tool_block key call_id name)
         (seq (unless_emitted (tool_key key call_id) (if args \<noteq> [] then tool_args_delta key call_id name args else skip))
           (stop_block key ''tool''))))"

text \<open>\<open>response.output_item.done\<close>, for a reasoning item, a call and a message.\<close>

definition done_reasoning :: "stream_env \<Rightarrow> (string, json) gomap \<Rightarrow> (string, json) gomap \<Rightarrow> step" where
  "done_reasoning env m item t =
     (let id = struct_string item ''id''; enc = struct_string item ''encrypted_content'';
          key = normalize_reasoning_key (first_non_empty [id, reasoning_event_key env m]);
          u = capture_signature key enc (t\<lparr>tr_reasoning_key := key\<rparr>) in
      if tr_thinking u = None
      then emit_final_reasoning env [(''id'', JStr (se_requote env id)), (''summary'', json_get item ''summary''),
             (''encrypted_content'', JStr (se_requote env enc))] key u
      else finalize_thinking True u)"

definition done_call :: "stream_env \<Rightarrow> (string, json) gomap \<Rightarrow> (string, json) gomap \<Rightarrow> step" where
  "done_call env m item =
     (let id = struct_string item ''id''; call_id = call_id_of (struct_string item ''call_id'') id;
          name = struct_string item ''name''; key = stream_item_key [id, call_id, stream_event_key env m];
          args = struct_string item ''arguments'' in
      seq (started env)
       (seq (ensure_tool_block key call_id name)
         (seq (unless_emitted (tool_key key call_id) (if args \<noteq> [] then tool_args_delta key call_id name args else skip))
           (stop_block key ''tool''))))"

definition done_message :: "stream_env \<Rightarrow> (string, json) gomap \<Rightarrow> (string, json) gomap \<Rightarrow> step" where
  "done_message env m item =
     (let key = stream_item_key [struct_string item ''id'', stream_event_key env m] in
      seq (unless_emitted (normalize_block_key ''text'' key)
            (each (\<lambda>text. seq (started env) (text_delta key text)) (message_texts env (gm_get item ''content''))))
        (stop_block key ''text''))"

definition on_item_done :: "stream_env \<Rightarrow> (string, json) gomap \<Rightarrow> step" where
  "on_item_done env m =
     (let item = struct_object m ''item''; typ = struct_string item ''type'' in
      if typ = ''reasoning'' then done_reasoning env m item
      else if typ = ''function_call'' then done_call env m item
      else if typ = ''message'' then done_message env m item
      else skip)"

definition on_completed :: "stream_env \<Rightarrow> bool \<Rightarrow> (string, json) gomap \<Rightarrow> step" where
  "on_completed env incomplete m t0 =
     (let r = struct_object m ''response''; id = struct_string r ''id'';
          t = snd (if id \<noteq> [] \<and> tr_msg_id t0 = [] then ensure_start env id (tr_request_model t0) t0 else started env t0);
          usage = (case gm_get r ''usage'' of Some v \<Rightarrow> extract_usage v | None \<Rightarrow> (tr_in_tokens t0, tr_out_tokens t0));
          u = (if gm_get r ''usage'' = None then t else t\<lparr>tr_in_tokens := fst usage, tr_out_tokens := snd usage\<rparr>) in
      seq (case gm_get r ''output'' of Some v \<Rightarrow> emit_final_output env v | None \<Rightarrow> skip)
        (\<lambda>t. finish env (if tr_has_tool t then ''tool_use'' else if incomplete then ''max_tokens'' else ''end_turn'')
               (fst usage) (snd usage) t) u)"

definition on_event :: "stream_env \<Rightarrow> string \<Rightarrow> (string, json) gomap \<Rightarrow> step" where
  "on_event env body m =
     (let typ = field env m ''type'' in
      if typ \<in> {''response.created'', ''response.in_progress''} then on_created env m
      else if typ = ''response.output_text.delta'' then on_text_delta env m
      else if typ = ''response.reasoning_summary_part.added'' then on_part_added env m
      else if typ \<in> {''response.reasoning_summary_text.delta'', ''response.reasoning_text.delta''} then on_reasoning_delta env m
      else if typ = ''response.reasoning_summary_part.done'' then modify (\<lambda>t. t\<lparr>tr_stop_pending := True\<rparr>)
      else if typ = ''response.content_part.added'' then on_content_added env m
      else if typ = ''response.content_part.done'' then on_content_done env m
      else if typ = ''response.output_item.added'' then on_item_added env m
      else if typ = ''response.function_call_arguments.delta'' then on_args_delta env m
      else if typ = ''response.function_call_arguments.done'' then on_args_done env m
      else if typ = ''response.output_item.done'' then on_item_done env m
      else if typ = ''response.completed'' then on_completed env False m
      else if typ = ''response.incomplete'' then on_completed env True m
      else if typ = ''response.failed'' then fail env (fst (stream_failure env m)) (snd (stream_failure env m))
      else if typ = ''error'' then fail env 502 (format_error_message env 500 body)
      else skip)"

definition process_data :: "stream_env \<Rightarrow> string \<Rightarrow> step" where
  "process_data env data0 t =
     (let data = trim_space data0 in
      if data = [] then (None, t)
      else if data = ''[DONE]''
      then (if tr_started t \<and> \<not> tr_finished t then finish env [] (tr_in_tokens t) (tr_out_tokens t) t else (None, t))
      else case se_decode env data of
        Some (JObj m) \<Rightarrow> on_event env data m t
      | Some JNull \<Rightarrow> (None, t)
      | _ \<Rightarrow> (Some StInvalidEvent, t))"

definition process_line :: "stream_env \<Rightarrow> string \<Rightarrow> step" where
  "process_line env line0 =
     (let line = trim_space line0 in
      if line = [] then skip
      else if has_prefix line ''data:'' then process_data env (trim_space (trim_prefix line ''data:''))
      else if hd line = CHR ''{'' then process_data env line
      else skip)"

section \<open>The pipe\<close>

definition pipe_flush :: "stream_env \<Rightarrow> string \<Rightarrow> step" where
  "pipe_flush env buf =
     (if buf = [] then skip
      else process_data env (if last buf = CHR 0x0A then butlast buf else buf))"

fun pipe_lines :: "stream_env \<Rightarrow> string list \<Rightarrow> string \<Rightarrow> translator \<Rightarrow> (stream_error + string) \<times> translator" where
  "pipe_lines env [] buf t = (Inr buf, t)"
| "pipe_lines env (l # ls) buf t =
     (if l = [] then
        case pipe_flush env buf t of (Some e, t') \<Rightarrow> (Inl e, t') | (None, t') \<Rightarrow> pipe_lines env ls [] t'
      else if has_prefix l ''data:'' then
        pipe_lines env ls ((if buf \<noteq> [] then buf @ [CHR 0x0A] else buf) @ trim_space (trim_prefix l ''data:'')) t
      else pipe_lines env ls buf t)"

text \<open>\<open>scan_fails\<close>: the reader ends with an error, after these bytes.\<close>

definition pipe_responses :: "stream_env \<Rightarrow> string \<Rightarrow> bool \<Rightarrow> step" where
  "pipe_responses env bytes scan_fails t =
     (case pipe_lines env (scan_lines bytes) [] t of
        (Inl e, t') \<Rightarrow> (Some e, t')
      | (Inr buf, t') \<Rightarrow>
          if scan_fails then (Some StScan, t')
          else seq (pipe_flush env buf) (\<lambda>t. (if tr_finished t then None else Some StUnexpectedEOF, t)) t')"

end
