(* ===== verification/StreamProps.thy ===== *)
theory StreamProps
  imports Stream
begin

text \<open>
  What a client of the translated stream can rely on: the protocol of Anthropic streams is an automaton, and the
  translator refines it whatever the upstream sends and wherever the connection to the client breaks.
\<close>

section \<open>The protocol\<close>

record protocol =
  pr_started :: bool
  pr_next :: int
  pr_open :: "(int, block_kind) gomap"
  pr_reason :: bool
  pr_done :: bool

definition proto_init :: protocol where
  "proto_init = \<lparr>pr_started = False, pr_next = 0, pr_open = [], pr_reason = False, pr_done = False\<rparr>"

text \<open>
  A block starts after the message, with the next index, and not inside a thinking block; a delta goes to an
  open block of its kind; a block stops once; the stop reason comes when no block is open, then the
  message stops. An error ends a stream with no open block. What follows the end is ignored.
\<close>

definition start_block :: "int \<Rightarrow> block_kind \<Rightarrow> protocol \<Rightarrow> protocol option" where
  "start_block i k p =
     (if pr_started p \<and> \<not> pr_reason p \<and> i = pr_next p \<and> list_all (\<lambda>(j, k). k \<noteq> KThinking) (pr_open p)
      then Some (p\<lparr>pr_next := i + 1, pr_open := gm_put i k (pr_open p)\<rparr>) else None)"

definition delta_to :: "int \<Rightarrow> block_kind \<Rightarrow> string \<Rightarrow> protocol \<Rightarrow> protocol option" where
  "delta_to i k s p = (if gm_get (pr_open p) i = Some k \<and> s \<noteq> [] then Some p else None)"

definition proto_step :: "event \<Rightarrow> protocol \<Rightarrow> protocol option" where
  "proto_step e p =
     (if pr_done p then Some p
      else case e of
        MessageStart msg_id model n \<Rightarrow> if pr_started p then None else Some (p\<lparr>pr_started := True\<rparr>)
      | TextStart i \<Rightarrow> start_block i KText p
      | ToolStart i call_id name \<Rightarrow> start_block i KTool p
      | ThinkingStart i \<Rightarrow> start_block i KThinking p
      | TextDelta i s \<Rightarrow> delta_to i KText s p
      | ArgsDelta i s \<Rightarrow> delta_to i KTool s p
      | ThinkingDelta i s \<Rightarrow> delta_to i KThinking s p
      | SignatureDelta i s \<Rightarrow> delta_to i KThinking s p
      | BlockStop i \<Rightarrow> if gm_get (pr_open p) i = None then None else Some (p\<lparr>pr_open := gm_del i (pr_open p)\<rparr>)
      | MessageDelta r inp out \<Rightarrow>
          if pr_started p \<and> \<not> pr_reason p \<and> pr_open p = [] \<and> r \<noteq> [] then Some (p\<lparr>pr_reason := True\<rparr>) else None
      | MessageStop \<Rightarrow> if pr_reason p then Some (p\<lparr>pr_done := True\<rparr>) else None
      | ErrorEvent t m \<Rightarrow> if \<not> pr_reason p \<and> pr_open p = [] then Some (p\<lparr>pr_done := True\<rparr>) else None)"

fun proto_run :: "event list \<Rightarrow> protocol \<Rightarrow> protocol option" where
  "proto_run [] p = Some p"
| "proto_run (e # es) p = (case proto_step e p of None \<Rightarrow> None | Some p' \<Rightarrow> proto_run es p')"

lemma proto_run_snoc: "proto_run es p = Some q \<Longrightarrow> proto_run (es @ [e]) p = proto_step e q"
  by (induction es arbitrary: p) (auto split: option.splits)

section \<open>The relation\<close>

definition kind_key :: "string \<Rightarrow> block_kind \<Rightarrow> bool" where
  "kind_key key k \<longleftrightarrow> (k = KText \<and> has_prefix key ''text:'') \<or> (k = KTool \<and> has_prefix key ''tool:'')"

definition index_inj :: "(string, block) gomap \<Rightarrow> bool" where
  "index_inj m \<longleftrightarrow> (\<forall>key b key' b'. map_of m key = Some b \<and> map_of m key' = Some b' \<and> bk_index b = bk_index b' \<longrightarrow> key = key')"

lemma index_inj_put:
  assumes "index_inj m" "\<And>key' b'. map_of m key' = Some b' \<Longrightarrow> bk_index b' \<noteq> bk_index b"
  shows "index_inj (gm_put key b m)"
  unfolding index_inj_def
proof (intro allI impI, elim conjE)
  fix k1 b1 k2 b2
  assume a: "map_of (gm_put key b m) k1 = Some b1" "map_of (gm_put key b m) k2 = Some b2" "bk_index b1 = bk_index b2"
  have 1: "k1 = key \<and> b1 = b \<or> map_of m k1 = Some b1" using a(1) by (auto split: if_splits)
  have 2: "k2 = key \<and> b2 = b \<or> map_of m k2 = Some b2" using a(2) by (auto split: if_splits)
  from 1 2 a(3) show "k1 = k2" using assms(2) [of k1 b1] assms(2) [of k2 b2] assms(1) by (auto simp: index_inj_def)
qed

definition shape :: "translator \<Rightarrow> bool" where
  "shape t \<longleftrightarrow> gm_wf (tr_blocks t) \<and>
     (\<forall>key b. map_of (tr_blocks t) key = Some b \<longrightarrow> bk_index b < tr_next t \<and> kind_key key (bk_kind b)) \<and>
     index_inj (tr_blocks t) \<and>
     (\<forall>b. tr_thinking t = Some b \<longrightarrow> tr_enabled t \<and> bk_index b < tr_next t \<and>
        (\<forall>key b'. map_of (tr_blocks t) key = Some b' \<longrightarrow> bk_index b' \<noteq> bk_index b)) \<and>
     (\<not> tr_started t \<longrightarrow> tr_blocks t = [] \<and> tr_thinking t = None)"

lemma shape_block: "shape t \<Longrightarrow> map_of (tr_blocks t) key = Some b \<Longrightarrow> bk_index b < tr_next t \<and> kind_key key (bk_kind b)"
  by (simp add: shape_def)

lemma shape_inj:
  "shape t \<Longrightarrow> map_of (tr_blocks t) key = Some b \<Longrightarrow> map_of (tr_blocks t) key' = Some b' \<Longrightarrow> bk_index b = bk_index b' \<Longrightarrow> key = key'"
  by (auto simp: shape_def index_inj_def)

lemma shape_thinking:
  "shape t \<Longrightarrow> tr_thinking t = Some b \<Longrightarrow> tr_enabled t \<and> bk_index b < tr_next t"
  "shape t \<Longrightarrow> tr_thinking t = Some b \<Longrightarrow> map_of (tr_blocks t) key = Some b' \<Longrightarrow> bk_index b' \<noteq> bk_index b"
  by (simp_all add: shape_def)

definition live :: "translator \<Rightarrow> int \<Rightarrow> block_kind \<Rightarrow> bool" where
  "live t i k \<longleftrightarrow> (k = KThinking \<and> (\<exists>b. tr_thinking t = Some b \<and> bk_index b = i)) \<or>
     (\<exists>key b. map_of (tr_blocks t) key = Some b \<and> \<not> bk_stopped b \<and> bk_index b = i \<and> bk_kind b = k)"

definition tracks :: "translator \<Rightarrow> protocol \<Rightarrow> bool" where
  "tracks t p \<longleftrightarrow> \<not> pr_done p \<and> \<not> pr_reason p \<and> pr_started p = tr_started t \<and> pr_next p = tr_next t \<and>
     gm_wf (pr_open p) \<and> (\<forall>i k. map_of (pr_open p) i = Some k \<longleftrightarrow> live t i k)"

definition alive :: "translator \<Rightarrow> bool" where
  "alive t \<longleftrightarrow> (case tr_limit t of None \<Rightarrow> True | Some n \<Rightarrow> length (tr_out t) < n)"

definition conforms :: "translator \<Rightarrow> bool" where
  "conforms t \<longleftrightarrow> shape t \<and>
     (\<exists>p. proto_run (tr_out t) proto_init = Some p \<and> (tr_finished t \<longrightarrow> pr_done p) \<and> (\<not> tr_finished t \<and> alive t \<longrightarrow> tracks t p))"

text \<open>What a step does from a conforming state: it leads to one, and to the postcondition if it reports no error.\<close>

definition triple :: "(translator \<Rightarrow> bool) \<Rightarrow> step \<Rightarrow> (translator \<Rightarrow> bool) \<Rightarrow> bool" where
  "triple P f Q \<longleftrightarrow> (\<forall>t. conforms t \<and> P t \<longrightarrow> conforms (snd (f t)) \<and> (fst (f t) = None \<longrightarrow> Q (snd (f t))))"

named_theorems keeps "steps that keep a condition"

lemma triple_seq: "triple P f Q \<Longrightarrow> triple Q g R \<Longrightarrow> triple P (seq f g) R"
  by (auto simp: triple_def seq_def split: prod.split option.split)

lemma triple_chain [keeps]: "triple P f P \<Longrightarrow> triple P g P \<Longrightarrow> triple P (seq f g) P"
  by (rule triple_seq)

lemma seq_some: "f t = (Some e, t') \<Longrightarrow> seq f g t = (Some e, t')"
  by (simp add: seq_def)

lemma seq_none: "f t = (None, t') \<Longrightarrow> seq f g t = g t'"
  by (simp add: seq_def)

lemma triple_weaken: "triple P f Q \<Longrightarrow> (\<And>t. P' t \<Longrightarrow> P t) \<Longrightarrow> (\<And>t. Q t \<Longrightarrow> Q' t) \<Longrightarrow> triple P' f Q'"
  by (auto simp: triple_def)

lemma triple_skip [keeps]: "triple P skip P"
  by (simp add: triple_def skip_def)

lemma triple_same [keeps]: "triple P (\<lambda>t. (None, t)) P"
  by (simp add: triple_def)

lemma triple_if [keeps]: "(b \<Longrightarrow> triple P f Q) \<Longrightarrow> (\<not> b \<Longrightarrow> triple P g Q) \<Longrightarrow> triple P (if b then f else g) Q"
  by simp

lemma triple_if_state:
  "triple (\<lambda>t. P t \<and> b t) f Q \<Longrightarrow> triple (\<lambda>t. P t \<and> \<not> b t) g Q \<Longrightarrow> triple P (\<lambda>t. if b t then f t else g t) Q"
  by (auto simp: triple_def)

lemma triple_each [keeps]: "(\<And>x. triple P (f x) P) \<Longrightarrow> triple P (each f xs) P"
proof (induction xs)
  case (Cons x xs)
  have "each f (x # xs) = seq (f x) (each f xs)" by (simp add: fun_eq_iff)
  then show ?case using Cons triple_seq by metis
qed (simp add: triple_def)

section \<open>Writing\<close>

lemma write_event_alive: "write_event e t = (if alive t then (None, t\<lparr>tr_out := tr_out t @ [e]\<rparr>) else (Some StWrite, t))"
  by (simp add: write_event_def alive_def)

text \<open>
  A write with what the code changes before (\<open>t\<close> from \<open>s\<close>) and after it (\<open>f\<close>): it is enough to look at a
  state that tracks the protocol.
\<close>

lemma write_conforms:
  assumes "conforms s" "tr_out t = tr_out s" "tr_limit t = tr_limit s" "tr_finished t = tr_finished s"
    and "\<And>u. tr_out (f u) = tr_out u \<and> tr_limit (f u) = tr_limit u \<and> tr_finished (f u) = tr_finished u"
    and "shape t" "shape (f (t\<lparr>tr_out := tr_out s @ [e]\<rparr>))"
    and "\<And>p. \<not> tr_finished s \<Longrightarrow> tracks s p \<Longrightarrow> \<exists>q. proto_step e p = Some q \<and> tracks (f (t\<lparr>tr_out := tr_out s @ [e]\<rparr>)) q"
  shows "conforms (snd (seq (write_event e) (modify f) t)) \<and>
    (fst (seq (write_event e) (modify f) t) = None \<longrightarrow> snd (seq (write_event e) (modify f) t) = f (t\<lparr>tr_out := tr_out s @ [e]\<rparr>))"
proof -
  obtain p where p: "proto_run (tr_out s) proto_init = Some p" "tr_finished s \<longrightarrow> pr_done p"
    "\<not> tr_finished s \<and> alive s \<longrightarrow> tracks s p"
    using assms(1) by (auto simp: conforms_def)
  have al: "alive t = alive s" unfolding alive_def assms(2,3) by (rule refl)
  show ?thesis
  proof (cases "alive s")
    case False
    then show ?thesis using assms(2-4,6) p al by (auto simp: seq_def write_event_alive conforms_def)
  next
    case True
    let ?u = "f (t\<lparr>tr_out := tr_out s @ [e]\<rparr>)"
    have r: "seq (write_event e) (modify f) t = (None, ?u)"
      using True al assms(2) by (simp add: seq_def write_event_alive modify_def)
    have u: "tr_out ?u = tr_out s @ [e]" "tr_finished ?u = tr_finished s" using assms(4,5) by simp_all
    have "\<exists>q. proto_step e p = Some q \<and> (tr_finished s \<longrightarrow> pr_done q) \<and> (\<not> tr_finished s \<longrightarrow> tracks ?u q)"
    proof (cases "tr_finished s")
      case True
      then show ?thesis using p(2) by (simp add: proto_step_def)
    next
      case False
      then show ?thesis using assms(8) [OF False] p(3) True by blast
    qed
    then have "conforms ?u" using proto_run_snoc [OF p(1), of e] u assms(7) by (auto simp: conforms_def)
    then show ?thesis using r by simp
  qed
qed

lemma write_only: "seq (write_event e) (modify (\<lambda>t. t)) = write_event e"
  by (auto simp: fun_eq_iff seq_def modify_def split: prod.split option.split)

text \<open>A change that the protocol does not see.\<close>

lemma unseen_conforms:
  assumes "conforms t" "tr_out u = tr_out t" "tr_limit u = tr_limit t" "tr_finished u = tr_finished t" "tr_started u = tr_started t"
    "tr_next u = tr_next t" "tr_blocks u = tr_blocks t" "tr_thinking u = tr_thinking t" "tr_enabled u = tr_enabled t"
  shows "conforms u"
proof -
  have "shape u = shape t" using assms by (simp add: shape_def)
  moreover have "alive u = alive t" unfolding alive_def assms(2,3) by (rule refl)
  moreover have "tracks u p = tracks t p" for p using assms by (simp add: tracks_def live_def)
  ultimately show ?thesis using assms(1-4) by (simp add: conforms_def)
qed

section \<open>The steps\<close>

lemma ensure_start_triple:
  assumes "\<And>t u. P t \<Longrightarrow> tr_thinking u = tr_thinking t \<Longrightarrow> tr_enabled u = tr_enabled t \<Longrightarrow> P u"
  shows "triple P (ensure_start env i m) (\<lambda>t. tr_started t \<and> P t)"
  unfolding triple_def
proof (intro allI impI, elim conjE)
  fix t assume t: "conforms t" "P t"
  show "conforms (snd (ensure_start env i m t)) \<and> (fst (ensure_start env i m t) = None \<longrightarrow>
    tr_started (snd (ensure_start env i m t)) \<and> P (snd (ensure_start env i m t)))"
  proof (cases "tr_started t")
    case True
    then show ?thesis using t by (simp add: ensure_start_def)
  next
    case False
    obtain mid mo where e: "ensure_start env i m t = write_event (MessageStart mid mo (tr_in_tokens t))
        (t\<lparr>tr_msg_id := mid, tr_model := mo, tr_started := True\<rparr>)" (is "_ = write_event ?e ?u")
      using False by (simp add: ensure_start_def Let_def)
    have sh: "shape t" using t(1) by (simp add: conforms_def)
    have "conforms (snd (seq (write_event ?e) (modify (\<lambda>t. t)) ?u)) \<and>
      (fst (seq (write_event ?e) (modify (\<lambda>t. t)) ?u) = None \<longrightarrow>
        snd (seq (write_event ?e) (modify (\<lambda>t. t)) ?u) = ?u\<lparr>tr_out := tr_out t @ [?e]\<rparr>)"
    proof (rule write_conforms [OF t(1)])
      fix p assume "tracks t p"
      then show "\<exists>q. proto_step ?e p = Some q \<and> tracks (?u\<lparr>tr_out := tr_out t @ [?e]\<rparr>) q"
        using False by (simp add: tracks_def proto_step_def live_def)
    qed (use sh in \<open>auto simp: shape_def\<close>)
    then show ?thesis using assms [OF t(2), of "?u\<lparr>tr_out := tr_out t @ [?e]\<rparr>"] unfolding e write_only by auto
  qed
qed

lemma started_triple:
  assumes "\<And>t u. P t \<Longrightarrow> tr_thinking u = tr_thinking t \<Longrightarrow> tr_enabled u = tr_enabled t \<Longrightarrow> P u"
  shows "triple P (started env) (\<lambda>t. tr_started t \<and> P t)"
proof -
  have "triple P (ensure_start env i m) (\<lambda>t. tr_started t \<and> P t)" for i m
    by (rule ensure_start_triple) (rule assms)
  then show ?thesis by (simp add: triple_def started_def)
qed

lemma started_plain: "triple (\<lambda>t. True) (started env) tr_started"
  using started_triple [of "\<lambda>t. True" env] by simp

lemma modify_triple:
  assumes "\<And>t. P t \<Longrightarrow> Q (f t)"
    "\<And>t. tr_out (f t) = tr_out t \<and> tr_limit (f t) = tr_limit t \<and> tr_finished (f t) = tr_finished t \<and> tr_started (f t) = tr_started t \<and>
      tr_next (f t) = tr_next t \<and> tr_blocks (f t) = tr_blocks t \<and> tr_thinking (f t) = tr_thinking t \<and> tr_enabled (f t) = tr_enabled t"
  shows "triple P (modify f) Q"
  using assms by (auto simp: triple_def modify_def intro: unseen_conforms)

lemma tracks_open: "tracks t p \<Longrightarrow> live t i k \<Longrightarrow> gm_get (pr_open p) i = Some k"
  by (simp add: tracks_def)

lemma live_thinking: "tr_thinking t = Some b \<Longrightarrow> live t (bk_index b) KThinking"
  by (simp add: live_def)

lemma live_block: "map_of (tr_blocks t) key = Some b \<Longrightarrow> \<not> bk_stopped b \<Longrightarrow> live t (bk_index b) (bk_kind b)"
  by (auto simp: live_def)

lemma kind_key_not_thinking: "kind_key key k \<Longrightarrow> k \<noteq> KThinking"
  by (auto simp: kind_key_def)

lemma no_thinking_open:
  assumes "shape t" "tracks t p" "tr_thinking t = None"
  shows "list_all (\<lambda>(j, k). k \<noteq> KThinking) (pr_open p)"
proof -
  have "k \<noteq> KThinking" if "(j, k) \<in> set (pr_open p)" for j k
  proof -
    have "live t j k" using that assms(2) by (simp add: tracks_def gm_in_iff)
    then obtain key b where "map_of (tr_blocks t) key = Some b" "bk_kind b = k" using assms(3) by (auto simp: live_def)
    then show ?thesis using assms(1) kind_key_not_thinking unfolding shape_def by metis
  qed
  then show ?thesis by (auto simp: list_all_iff)
qed

text \<open>Opening: the next index, a fresh key or no thinking block.\<close>

lemma live_index: "shape t \<Longrightarrow> live t i k \<Longrightarrow> i < tr_next t"
  by (auto simp: shape_def live_def)

lemma start_tracks:
  assumes "tracks t p" "tr_started t" "tr_thinking t = None" "shape t"
    and "tr_started u = tr_started t" "tr_next u = tr_next t + 1" "\<And>i j. live u i j \<longleftrightarrow> live t i j \<or> i = tr_next t \<and> j = k"
  shows "\<exists>q. start_block (tr_next t) k p = Some q \<and> tracks u q"
proof -
  have n: "pr_next p = tr_next t" "pr_started p" "\<not> pr_reason p" using assms(1,2) by (simp_all add: tracks_def)
  have "\<not> live t (tr_next t) j" for j using live_index [OF assms(4)] by blast
  then have "map_of (gm_put (tr_next t) k (pr_open p)) i = Some j \<longleftrightarrow> live u i j" for i j
    using assms(1,7) by (auto simp: tracks_def)
  then show ?thesis using n no_thinking_open [OF assms(4,1,3)] assms(1,5,6)
    by (auto simp: start_block_def tracks_def)
qed

lemma live_put:
  assumes "tr_blocks u = gm_put key b (tr_blocks t)" "map_of (tr_blocks t) key = None" "tr_thinking u = None" "tr_thinking t = None"
    "\<not> bk_stopped b"
  shows "live u i j \<longleftrightarrow> live t i j \<or> i = bk_index b \<and> j = bk_kind b"
proof
  assume "live u i j"
  then obtain key' b' where b': "map_of (tr_blocks u) key' = Some b'" "\<not> bk_stopped b'" "bk_index b' = i" "bk_kind b' = j"
    using assms(3) by (auto simp: live_def)
  then show "live t i j \<or> i = bk_index b \<and> j = bk_kind b"
    using assms(1) by (cases "key' = key") (auto simp: live_def)
next
  assume "live t i j \<or> i = bk_index b \<and> j = bk_kind b"
  then show "live u i j"
  proof
    assume "live t i j"
    then obtain key' b' where b': "map_of (tr_blocks t) key' = Some b'" "\<not> bk_stopped b'" "bk_index b' = i" "bk_kind b' = j"
      using assms(4) by (auto simp: live_def)
    then have "map_of (tr_blocks u) key' = Some b'" using assms(1,2) by auto
    then show ?thesis using b' by (auto simp: live_def)
  next
    assume "i = bk_index b \<and> j = bk_kind b"
    moreover have "map_of (tr_blocks u) key = Some b" using assms(1) by simp
    ultimately show ?thesis using live_block [of u key b] assms(5) by simp
  qed
qed

lemma open_block_triple:
  assumes "kind_key key k" "\<And>i. \<And>p. \<not> pr_done p \<Longrightarrow> proto_step (e i) p = start_block i k p"
    "\<And>u. tr_out (f u) = tr_out u \<and> tr_limit (f u) = tr_limit u \<and> tr_finished (f u) = tr_finished u \<and> tr_started (f u) = tr_started u \<and>
      tr_next (f u) = tr_next u \<and> tr_blocks (f u) = tr_blocks u \<and> tr_thinking (f u) = tr_thinking u \<and> tr_enabled (f u) = tr_enabled u"
  shows "triple (\<lambda>t. tr_started t \<and> tr_thinking t = None \<and> gm_get (tr_blocks t) key = None)
    (\<lambda>t. open_block key (new_block (tr_next t) k c n) (e (tr_next t)) f t) tr_started"
  unfolding triple_def
proof (intro allI impI, elim conjE)
  fix t assume t: "conforms t" "tr_started t" "tr_thinking t = None" "gm_get (tr_blocks t) key = None"
  let ?b = "new_block (tr_next t) k c n" and ?g = "\<lambda>u. f (u\<lparr>tr_blocks := gm_put key (new_block (tr_next t) k c n) (tr_blocks u)\<rparr>)"
  let ?t = "t\<lparr>tr_next := tr_next t + 1\<rparr>"
  let ?u = "?g (?t\<lparr>tr_out := tr_out t @ [e (tr_next t)]\<rparr>)"
  have sh: "shape t" using t(1) by (simp add: conforms_def)
  have b: "bk_index ?b = tr_next t" "bk_kind ?b = k" "\<not> bk_stopped ?b" by (simp_all add: new_block_def)
  have u: "tr_blocks ?u = gm_put key ?b (tr_blocks t)" "tr_next ?u = tr_next t + 1" "tr_thinking ?u = None"
    "tr_started ?u" "tr_enabled ?u = tr_enabled t"
    using assms(3) t(2,3) by simp_all
  have fresh: "bk_index b' \<noteq> tr_next t" if "map_of (tr_blocks t) key' = Some b'" for key' b'
    using shape_block [OF sh that] by simp
  have "conforms (snd (seq (write_event (e (tr_next t))) (modify ?g) ?t)) \<and>
    (fst (seq (write_event (e (tr_next t))) (modify ?g) ?t) = None \<longrightarrow> snd (seq (write_event (e (tr_next t))) (modify ?g) ?t) = ?u)"
  proof (rule write_conforms [OF t(1)])
    show "shape ?t" using sh by (force simp: shape_def)
    show "shape ?u" unfolding shape_def u
    proof (intro conjI allI impI)
      fix key' b' assume a: "map_of (gm_put key ?b (tr_blocks t)) key' = Some b'"
      show "bk_index b' < tr_next t + 1" using a b shape_block [OF sh, of key' b'] by (cases "key' = key") auto
      show "kind_key key' (bk_kind b')" using a b assms(1) shape_block [OF sh, of key' b'] by (cases "key' = key") auto
    next
      show "index_inj (gm_put key ?b (tr_blocks t))"
        by (rule index_inj_put) (use sh fresh b(1) in \<open>auto simp: shape_def\<close>)
    qed (use sh t(2) u(4) in \<open>auto simp: shape_def\<close>)
    fix p assume p: "tracks t p"
    have "live ?u i j \<longleftrightarrow> live t i j \<or> i = tr_next t \<and> j = k" for i j
      using live_put [OF u(1) t(4) u(3) t(3) b(3)] unfolding b(1,2) .
    from start_tracks [OF p t(2,3) sh _ u(2) this] u(4) t(2) p
    show "\<exists>q. proto_step (e (tr_next t)) p = Some q \<and> tracks ?u q" using assms(2) by (auto simp: tracks_def)
  qed (use assms(3) in simp_all)
  then show "conforms (snd (open_block key ?b (e (tr_next t)) f t)) \<and> (fst (open_block key ?b (e (tr_next t)) f t) = None \<longrightarrow>
    tr_started (snd (open_block key ?b (e (tr_next t)) f t)))"
    unfolding open_block_def using u(4) by auto
qed

text \<open>Deltas and stops of the open thinking block.\<close>

lemma thinking_write:
  assumes "conforms t" "tr_thinking t = Some b"
    and "\<And>u. tr_out (f u) = tr_out u \<and> tr_limit (f u) = tr_limit u \<and> tr_finished (f u) = tr_finished u \<and> tr_started (f u) = tr_started u \<and>
      tr_next (f u) = tr_next u \<and> tr_blocks (f u) = tr_blocks u \<and> tr_enabled (f u) = tr_enabled u"
    and "\<And>u. tr_thinking u = Some b \<Longrightarrow> \<exists>b'. tr_thinking (f u) = Some b' \<and> bk_index b' = bk_index b"
    and "\<And>p. \<not> pr_done p \<Longrightarrow> proto_step e p = delta_to (bk_index b) KThinking s p" "s \<noteq> []"
  shows "conforms (snd (seq (write_event e) (modify f) t)) \<and>
    (fst (seq (write_event e) (modify f) t) = None \<longrightarrow> snd (seq (write_event e) (modify f) t) = f (t\<lparr>tr_out := tr_out t @ [e]\<rparr>))"
proof (rule write_conforms [OF assms(1)])
  let ?u = "f (t\<lparr>tr_out := tr_out t @ [e]\<rparr>)"
  obtain b' where b': "tr_thinking ?u = Some b'" "bk_index b' = bk_index b"
    using assms(4) [of "t\<lparr>tr_out := tr_out t @ [e]\<rparr>"] assms(2) by auto
  have f: "tr_blocks ?u = tr_blocks t" "tr_next ?u = tr_next t" "tr_enabled ?u = tr_enabled t" "tr_started ?u = tr_started t"
    using assms(3) by simp_all
  show "shape t" using assms(1) by (simp add: conforms_def)
  then show "shape ?u" using b' assms(2) unfolding shape_def f by auto
  fix p assume p: "tracks t p"
  have "live ?u i k \<longleftrightarrow> live t i k" for i k using b' assms(2) unfolding live_def f by auto
  then have "tracks ?u p" using p f by (simp add: tracks_def)
  moreover have "proto_step e p = Some p"
    using p assms(5,6) tracks_open [OF p live_thinking [OF assms(2)]] by (simp add: delta_to_def tracks_def)
  ultimately show "\<exists>q. proto_step e p = Some q \<and> tracks ?u q" by blast
qed (use assms(3) in simp_all)

lemma emit_thinking_triple [keeps]: "text \<noteq> [] \<Longrightarrow> triple tr_started (emit_thinking text) tr_started"
  unfolding triple_def
proof (intro allI impI, elim conjE)
  fix t assume x: "text \<noteq> []" and t: "conforms t" "tr_started t"
  show "conforms (snd (emit_thinking text t)) \<and> (fst (emit_thinking text t) = None \<longrightarrow> tr_started (snd (emit_thinking text t)))"
  proof (cases "tr_thinking t")
    case None
    then show ?thesis using t by (simp add: emit_thinking_def)
  next
    case (Some b)
    have "conforms (snd (emit_thinking text t)) \<and> (fst (emit_thinking text t) = None \<longrightarrow>
        snd (emit_thinking text t) = (t\<lparr>tr_out := tr_out t @ [ThinkingDelta (bk_index b) text]\<rparr>)\<lparr>tr_thinking := Some (b\<lparr>bk_emitted := True\<rparr>)\<rparr>)"
      unfolding emit_thinking_def Some option.simps
      by (rule thinking_write [OF t(1) Some, where s = "text"]) (simp_all add: proto_step_def x)
    then show ?thesis using t(2) by (auto simp: emit_thinking_def)
  qed
qed

lemma close_thinking_frame [simp]:
  "tr_out (close_thinking c u) = tr_out u" "tr_limit (close_thinking c u) = tr_limit u" "tr_finished (close_thinking c u) = tr_finished u"
  "tr_started (close_thinking c u) = tr_started u" "tr_next (close_thinking c u) = tr_next u" "tr_blocks (close_thinking c u) = tr_blocks u"
  "tr_enabled (close_thinking c u) = tr_enabled u" "tr_thinking (close_thinking c u) = None"
  by (simp_all add: close_thinking_def Let_def)

lemma stop_tracks:
  assumes "tracks t p" "live t i k" "tr_started u = tr_started t" "tr_next u = tr_next t"
    "\<And>j l. live u j l \<longleftrightarrow> live t j l \<and> j \<noteq> i"
  shows "\<exists>q. proto_step (BlockStop i) p = Some q \<and> tracks u q"
  using assms tracks_open [OF assms(1,2)] by (auto simp: proto_step_def tracks_def)

lemma stop_thinking:
  assumes "conforms t" "tr_thinking t = Some b"
  shows "conforms (snd (seq (write_event (BlockStop (bk_index b))) (modify (close_thinking c)) t)) \<and>
    (fst (seq (write_event (BlockStop (bk_index b))) (modify (close_thinking c)) t) = None \<longrightarrow>
      tr_thinking (snd (seq (write_event (BlockStop (bk_index b))) (modify (close_thinking c)) t)) = None \<and>
      tr_started (snd (seq (write_event (BlockStop (bk_index b))) (modify (close_thinking c)) t)) = tr_started t)"
proof -
  let ?e = "BlockStop (bk_index b)"
  let ?u = "close_thinking c (t\<lparr>tr_out := tr_out t @ [?e]\<rparr>)"
  have sh: "shape t" using assms(1) by (simp add: conforms_def)
  have "conforms (snd (seq (write_event ?e) (modify (close_thinking c)) t)) \<and>
    (fst (seq (write_event ?e) (modify (close_thinking c)) t) = None \<longrightarrow> snd (seq (write_event ?e) (modify (close_thinking c)) t) = ?u)"
  proof (rule write_conforms [OF assms(1)])
    show "shape ?u" using sh by (simp add: shape_def)
    fix p assume p: "tracks t p"
    have other: "bk_index b' \<noteq> bk_index b" if "map_of (tr_blocks t) key = Some b'" for key b'
      using shape_thinking(2) [OF sh assms(2) that] .
    have "live ?u j l \<longleftrightarrow> live t j l \<and> j \<noteq> bk_index b" for j l
      using other assms(2) by (auto simp: live_def)
    from stop_tracks [OF p live_thinking [OF assms(2)] _ _ this]
    show "\<exists>q. proto_step ?e p = Some q \<and> tracks ?u q" by simp
  qed (use sh in simp_all)
  then show ?thesis by auto
qed

lemma finalize_thinking_conforms:
  assumes t: "conforms t"
  shows "conforms (snd (finalize_thinking c t)) \<and> (fst (finalize_thinking c t) = None \<longrightarrow>
    tr_thinking (snd (finalize_thinking c t)) = None \<and> tr_started (snd (finalize_thinking c t)) = tr_started t)"
proof (cases "tr_enabled t")
  case False
  then have "tr_thinking t = None" using shape_thinking(1) [of t] t by (cases "tr_thinking t") (auto simp: conforms_def)
  then show ?thesis using False t by (simp add: finalize_thinking_def)
next
  case en: True
  show ?thesis
  proof (cases "tr_thinking t")
    case None
    then show ?thesis using en unseen_conforms [OF t, of "t\<lparr>tr_signature := []\<rparr>"] t by (simp add: finalize_thinking_def)
  next
    case (Some b)
    let ?stop = "seq (write_event (BlockStop (bk_index b))) (modify (close_thinking c))"
    show ?thesis
    proof (cases "tr_signature t = []")
      case True
      then show ?thesis using stop_thinking [OF t Some, of c] en Some
        by (simp add: finalize_thinking_def seq_def skip_def)
    next
      case False
      let ?e = "SignatureDelta (bk_index b) (tr_signature t)"
      have w: "conforms (snd (write_event ?e t)) \<and> (fst (write_event ?e t) = None \<longrightarrow> snd (write_event ?e t) = t\<lparr>tr_out := tr_out t @ [?e]\<rparr>)"
        using thinking_write [OF t Some, of "\<lambda>u. u" ?e "tr_signature t"] False by (simp add: write_only proto_step_def)
      have f: "finalize_thinking c t = seq (write_event ?e) ?stop t"
        using en Some False by (simp add: finalize_thinking_def)
      show ?thesis
      proof (cases "fst (write_event ?e t) = None")
        case True
        let ?t = "t\<lparr>tr_out := tr_out t @ [?e]\<rparr>"
        have "write_event ?e t = (None, ?t)" using w True by (simp add: prod_eq_iff)
        then have "finalize_thinking c t = ?stop ?t" using f by (simp add: seq_def)
        moreover have "conforms ?t" using w True by metis
        moreover have "tr_thinking ?t = Some b" using Some by simp
        ultimately show ?thesis using stop_thinking [of ?t b c] by simp
      next
        case False
        then obtain er where "fst (write_event ?e t) = Some er" by blast
        then have "write_event ?e t = (Some er, snd (write_event ?e t))" by (simp add: prod_eq_iff)
        then have "finalize_thinking c t = (Some er, snd (write_event ?e t))" using f by (metis seq_some)
        then show ?thesis using w by simp
      qed
    qed
  qed
qed

lemma finalize_thinking_triple:
  "triple (\<lambda>t. True) (finalize_thinking c) (\<lambda>t. tr_thinking t = None)"
  "triple tr_started (finalize_thinking c) (\<lambda>t. tr_started t \<and> tr_thinking t = None)"
  using finalize_thinking_conforms by (auto simp: triple_def)

lemma finish_content_triple:
  "triple tr_started finish_thinking_before_content (\<lambda>t. tr_started t \<and> tr_thinking t = None)"
  using finalize_thinking_conforms by (auto simp: triple_def finish_thinking_before_content_def)

lemma open_thinking_triple:
  "triple (\<lambda>t. tr_started t \<and> tr_thinking t = None \<and> tr_enabled t) open_thinking tr_started"
  unfolding triple_def
proof (intro allI impI, elim conjE)
  fix t assume t: "conforms t" "tr_started t" "tr_thinking t = None" "tr_enabled t"
  let ?b = "new_block (tr_next t) KThinking [] []" and ?e = "ThinkingStart (tr_next t)"
  let ?f = "\<lambda>u. u\<lparr>tr_thinking := Some (new_block (tr_next t) KThinking [] []), tr_stop_pending := False\<rparr>"
  let ?t = "t\<lparr>tr_next := tr_next t + 1\<rparr>"
  let ?u = "?f (?t\<lparr>tr_out := tr_out t @ [?e]\<rparr>)"
  have sh: "shape t" using t(1) by (simp add: conforms_def)
  have b: "bk_index ?b = tr_next t" by (simp add: new_block_def)
  have "conforms (snd (seq (write_event ?e) (modify ?f) ?t)) \<and>
    (fst (seq (write_event ?e) (modify ?f) ?t) = None \<longrightarrow> snd (seq (write_event ?e) (modify ?f) ?t) = ?u)"
  proof (rule write_conforms [OF t(1)])
    have lt: "bk_index b' < tr_next t + 1" "bk_index b' \<noteq> tr_next t" if "map_of (tr_blocks t) key = Some b'" for key b'
      using shape_block [OF sh that] by simp_all
    show "shape ?t" using sh lt t(3) by (auto simp: shape_def)
    show "shape ?u" using sh lt t(2,4) b by (auto simp: shape_def)
    fix p assume p: "tracks t p"
    have "live ?u i j \<longleftrightarrow> live t i j \<or> i = tr_next t \<and> j = KThinking" for i j
      using t(3) b by (auto simp: live_def)
    from start_tracks [OF p t(2,3) sh _ _ this] p
    show "\<exists>q. proto_step ?e p = Some q \<and> tracks ?u q" using t(2) by (simp add: proto_step_def tracks_def)
  qed simp_all
  then show "conforms (snd (open_thinking t)) \<and> (fst (open_thinking t) = None \<longrightarrow> tr_started (snd (open_thinking t)))"
    unfolding open_thinking_def using t(2) by auto
qed

lemma ensure_thinking_triple [keeps]: "triple tr_started (ensure_thinking_block env) tr_started"
proof -
  have "triple (\<lambda>t. tr_thinking t = None \<and> tr_enabled t) (seq (started env) open_thinking) tr_started"
    by (rule triple_seq [OF started_triple open_thinking_triple]) simp
  then show ?thesis by (auto simp: triple_def ensure_thinking_block_def)
qed

lemma ensure_thinking_start: "triple (\<lambda>t. tr_enabled t \<and> tr_thinking t = None) (ensure_thinking_block env) tr_started"
proof -
  have "triple (\<lambda>t. tr_thinking t = None \<and> tr_enabled t) (seq (started env) open_thinking) tr_started"
    by (rule triple_seq [OF started_triple open_thinking_triple]) simp
  then show ?thesis by (auto simp: triple_def ensure_thinking_block_def)
qed

section \<open>Blocks in the map\<close>

lemma update_frame [simp]:
  "tr_out (update_block key f u) = tr_out u" "tr_limit (update_block key f u) = tr_limit u" "tr_finished (update_block key f u) = tr_finished u"
  "tr_started (update_block key f u) = tr_started u" "tr_next (update_block key f u) = tr_next u" "tr_thinking (update_block key f u) = tr_thinking u"
  "tr_enabled (update_block key f u) = tr_enabled u"
  by (simp_all add: update_block_def split: option.split)

lemma update_at: "map_of (tr_blocks u) key = Some b \<Longrightarrow> tr_blocks (update_block key f u) = gm_put key (f b) (tr_blocks u)"
  by (simp add: update_block_def)

lemma shape_update:
  assumes "shape t" "map_of (tr_blocks t) key = Some b" "tr_blocks u = gm_put key b' (tr_blocks t)" "bk_index b' = bk_index b" "bk_kind b' = bk_kind b"
    and "tr_next u = tr_next t" "tr_thinking u = tr_thinking t" "tr_enabled u = tr_enabled t" "tr_started u = tr_started t"
  shows "shape u"
proof -
  note b = shape_block [OF assms(1,2)]
  have old: "\<exists>b0. map_of (tr_blocks t) k = Some b0 \<and> bk_index b0 = bk_index c \<and> bk_kind b0 = bk_kind c" if "map_of (tr_blocks u) k = Some c" for k c
    using that assms(2-5) by (cases "k = key") auto
  have "index_inj (tr_blocks u)"
    unfolding index_inj_def using old shape_inj [OF assms(1)] by metis
  moreover have "bk_index c < tr_next u \<and> kind_key k (bk_kind c)" if "map_of (tr_blocks u) k = Some c" for k c
    using old [OF that] shape_block [OF assms(1), of k] assms(6) by auto
  moreover have "bk_index c \<noteq> bk_index d" if "map_of (tr_blocks u) k = Some c" "tr_thinking t = Some d" for k c d
    using old [OF that(1)] shape_thinking(2) [OF assms(1) that(2), of k] by auto
  moreover have "tr_started t" using assms(1,2) by (auto simp: shape_def)
  ultimately show ?thesis using assms(1,3,6-9) by (auto simp: shape_def)
qed

lemma block_write:
  assumes "conforms t" "map_of (tr_blocks t) key = Some b" "\<not> bk_stopped b" "\<And>b. bk_index (f b) = bk_index b \<and> bk_kind (f b) = bk_kind b"
    and "\<And>p u. tracks t p \<Longrightarrow> tr_started u = tr_started t \<Longrightarrow> tr_next u = tr_next t \<Longrightarrow> tr_thinking u = tr_thinking t \<Longrightarrow>
      tr_blocks u = gm_put key (f b) (tr_blocks t) \<Longrightarrow> \<exists>q. proto_step e p = Some q \<and> tracks u q"
  shows "conforms (snd (seq (write_event e) (modify (update_block key f)) t)) \<and>
    (fst (seq (write_event e) (modify (update_block key f)) t) = None \<longrightarrow>
      snd (seq (write_event e) (modify (update_block key f)) t) = update_block key f (t\<lparr>tr_out := tr_out t @ [e]\<rparr>))"
proof (rule write_conforms [OF assms(1)])
  let ?u = "update_block key f (t\<lparr>tr_out := tr_out t @ [e]\<rparr>)"
  have bs: "tr_blocks ?u = gm_put key (f b) (tr_blocks t)" using assms(2) by (simp add: update_at)
  show sh: "shape t" using assms(1) by (simp add: conforms_def)
  show "shape ?u" by (rule shape_update [OF sh assms(2) bs]) (simp_all add: assms(4))
  show "\<exists>q. proto_step e p = Some q \<and> tracks ?u q" if "tracks t p" for p
    by (rule assms(5) [OF that _ _ _ bs]) simp_all
qed simp_all

text \<open>The live blocks after a block of the map is replaced by one of the same index and kind.\<close>

lemma live_replace:
  assumes "shape t" "map_of (tr_blocks t) key = Some b" "tr_blocks u = gm_put key b' (tr_blocks t)" "tr_thinking u = tr_thinking t"
    and "bk_index b' = bk_index b" "bk_kind b' = bk_kind b" "\<not> bk_stopped b"
  shows "live u i k \<longleftrightarrow> live t i k \<and> (bk_stopped b' \<longrightarrow> i \<noteq> bk_index b)"
proof -
  have other: "bk_index c \<noteq> bk_index b" if "map_of (tr_blocks t) key' = Some c" "key' \<noteq> key" for key' c
    using shape_inj [OF assms(1,2) that(1)] that(2) by auto
  have th: "bk_index d \<noteq> bk_index b" if "tr_thinking t = Some d" for d
    using shape_thinking(2) [OF assms(1) that assms(2)] by auto
  have blk: "(\<exists>key' c. map_of (tr_blocks u) key' = Some c \<and> \<not> bk_stopped c \<and> bk_index c = i \<and> bk_kind c = k) \<longleftrightarrow>
    (\<exists>key' c. map_of (tr_blocks t) key' = Some c \<and> \<not> bk_stopped c \<and> bk_index c = i \<and> bk_kind c = k) \<and> (bk_stopped b' \<longrightarrow> i \<noteq> bk_index b)"
    (is "?l \<longleftrightarrow> ?r \<and> ?s")
  proof
    assume ?l
    then obtain key' c where c: "map_of (tr_blocks u) key' = Some c" "\<not> bk_stopped c" "bk_index c = i" "bk_kind c = k" by blast
    show "?r \<and> ?s"
    proof (cases "key' = key")
      case True
      then have "c = b'" using c(1) assms(3) by simp
      then show ?thesis using c assms(2,5-7) by auto
    next
      case False
      then have "map_of (tr_blocks t) key' = Some c" using c(1) assms(3) by auto
      then show ?thesis using c other [OF _ False] by auto
    qed
  next
    assume r: "?r \<and> ?s"
    then obtain key' c where c: "map_of (tr_blocks t) key' = Some c" "\<not> bk_stopped c" "bk_index c = i" "bk_kind c = k" by blast
    show ?l
    proof (cases "key' = key")
      case True
      then have "c = b" using c(1) assms(2) by simp
      then show ?thesis using c r assms(3,5,6) by (intro exI [of _ key] exI [of _ b']) auto
    next
      case False
      then have "map_of (tr_blocks u) key' = Some c" using c(1) assms(3) by auto
      then show ?thesis using c by blast
    qed
  qed
  show ?thesis unfolding live_def assms(4) blk using th by auto
qed

lemma emit_delta_triple:
  assumes "\<And>k. kind_key key k \<Longrightarrow> k = kd" "\<And>i p. \<not> pr_done p \<Longrightarrow> proto_step (e i) p = delta_to i kd s p" "s \<noteq> []"
  shows "triple tr_started (emit_delta key e) tr_started"
  unfolding triple_def
proof (intro allI impI, elim conjE)
  fix t assume t: "conforms t" "tr_started t"
  have sh: "shape t" using t(1) by (simp add: conforms_def)
  show "conforms (snd (emit_delta key e t)) \<and> (fst (emit_delta key e t) = None \<longrightarrow> tr_started (snd (emit_delta key e t)))"
  proof (cases "gm_get (tr_blocks t) key")
    case None
    then show ?thesis using t by (simp add: emit_delta_def)
  next
    case (Some b)
    show ?thesis
    proof (cases "bk_stopped b")
      case True
      then show ?thesis using t Some by (simp add: emit_delta_def)
    next
      case False
      let ?f = "\<lambda>b. b\<lparr>bk_emitted := True\<rparr>"
      have kd: "bk_kind b = kd" using shape_block [OF sh Some] assms(1) by blast
      have "emit_delta key e t = seq (write_event (e (bk_index b))) (modify (update_block key ?f)) t"
        using Some False by (simp add: emit_delta_def)
      moreover have "conforms (snd (seq (write_event (e (bk_index b))) (modify (update_block key ?f)) t)) \<and>
        (fst (seq (write_event (e (bk_index b))) (modify (update_block key ?f)) t) = None \<longrightarrow>
          snd (seq (write_event (e (bk_index b))) (modify (update_block key ?f)) t) =
            update_block key ?f (t\<lparr>tr_out := tr_out t @ [e (bk_index b)]\<rparr>))"
      proof (rule block_write [OF t(1) Some False])
        fix p and u :: translator assume p: "tracks t p" and u: "tr_started u = tr_started t" "tr_next u = tr_next t" "tr_thinking u = tr_thinking t"
          "tr_blocks u = gm_put key (?f b) (tr_blocks t)"
        have "live u i k \<longleftrightarrow> live t i k" for i k
          using live_replace [OF sh Some u(4,3) _ _ False, of i k] False by simp
        then have "tracks u p" using p u by (simp add: tracks_def)
        moreover have "proto_step (e (bk_index b)) p = Some p"
          using p assms(2,3) tracks_open [OF p live_block [OF Some False]] kd by (simp add: delta_to_def tracks_def)
        ultimately show "\<exists>q. proto_step (e (bk_index b)) p = Some q \<and> tracks u q" by blast
      qed simp
      ultimately show ?thesis using t(2) by auto
    qed
  qed
qed

lemma stop_at_conforms:
  assumes "conforms t"
  shows "conforms (snd (stop_at key t)) \<and> (fst (stop_at key t) = None \<longrightarrow>
    tr_started (snd (stop_at key t)) = tr_started t \<and> tr_thinking (snd (stop_at key t)) = tr_thinking t \<and>
    (\<forall>k b. map_of (tr_blocks (snd (stop_at key t))) k = Some b \<and> \<not> bk_stopped b \<longrightarrow> map_of (tr_blocks t) k = Some b \<and> k \<noteq> key))"
proof (cases "gm_get (tr_blocks t) key")
  case None
  then show ?thesis using assms by (auto simp: stop_at_def)
next
  case (Some b)
  have sh: "shape t" using assms by (simp add: conforms_def)
  show ?thesis
  proof (cases "bk_stopped b")
    case True
    then show ?thesis using assms Some by (auto simp: stop_at_def)
  next
    case False
    let ?f = "\<lambda>b. b\<lparr>bk_stopped := True\<rparr>" and ?e = "BlockStop (bk_index b)"
    have st: "stop_at key t = seq (write_event ?e) (modify (update_block key ?f)) t"
      using Some False by (simp add: stop_at_def)
    have w: "conforms (snd (seq (write_event ?e) (modify (update_block key ?f)) t)) \<and>
      (fst (seq (write_event ?e) (modify (update_block key ?f)) t) = None \<longrightarrow>
        snd (seq (write_event ?e) (modify (update_block key ?f)) t) = update_block key ?f (t\<lparr>tr_out := tr_out t @ [?e]\<rparr>))"
    proof (rule block_write [OF assms Some False])
      fix p and u :: translator assume p: "tracks t p" and u: "tr_started u = tr_started t" "tr_next u = tr_next t" "tr_thinking u = tr_thinking t"
        "tr_blocks u = gm_put key (?f b) (tr_blocks t)"
      have "live u i k \<longleftrightarrow> live t i k \<and> i \<noteq> bk_index b" for i k
        using live_replace [OF sh Some u(4,3) _ _ False, of i k] by simp
      from stop_tracks [OF p live_block [OF Some False] u(1,2) this]
      show "\<exists>q. proto_step ?e p = Some q \<and> tracks u q" .
    qed simp
    have "tr_blocks (update_block key ?f (t\<lparr>tr_out := tr_out t @ [?e]\<rparr>)) = gm_put key (?f b) (tr_blocks t)"
      using Some by (simp add: update_at)
    then show ?thesis using w unfolding st by auto
  qed
qed

lemma stop_at_triple [keeps]: "triple tr_started (stop_at key) tr_started"
  using stop_at_conforms by (auto simp: triple_def)

lemma stop_block_triple [keeps]: "triple tr_started (stop_block key kind) tr_started"
  by (simp add: stop_block_def stop_at_triple)

section \<open>Composed steps\<close>

lemma text_key: "kind_key (normalize_block_key ''text'' key) k \<longleftrightarrow> k = KText"
  by (auto simp: kind_key_def normalize_block_key_def Let_def has_prefix_def)

lemma tool_key_kind: "kind_key (tool_key key call_id) k \<longleftrightarrow> k = KTool"
  by (auto simp: kind_key_def tool_key_def normalize_block_key_def Let_def has_prefix_def)

lemma case_block_triple:
  assumes "triple (\<lambda>t. tr_started t \<and> tr_thinking t = None \<and> gm_get (tr_blocks t) key = None) f tr_started"
  shows "triple (\<lambda>t. tr_started t \<and> tr_thinking t = None)
    (\<lambda>t. case gm_get (tr_blocks t) key of Some b \<Rightarrow> (None, t) | None \<Rightarrow> f t) tr_started"
  using assms by (auto simp: triple_def split: option.split)

lemma ensure_text_triple [keeps]: "triple tr_started (ensure_text_block key) tr_started"
  unfolding ensure_text_block_def Let_def
  by (rule triple_seq [OF finish_content_triple], rule case_block_triple, rule open_block_triple)
    (simp_all add: text_key proto_step_def)

lemma ensure_tool_triple [keeps]: "triple tr_started (ensure_tool_block key call_id name) tr_started"
  unfolding ensure_tool_block_def Let_def
  by (rule triple_seq [OF finish_content_triple], rule case_block_triple, rule open_block_triple)
    (simp_all add: tool_key_kind proto_step_def)

lemma text_delta_triple [keeps]: "triple tr_started (text_delta key s) tr_started"
proof (cases "s = []")
  case False
  have "triple tr_started (emit_delta (normalize_block_key ''text'' key) (\<lambda>i. TextDelta i s)) tr_started"
    by (rule emit_delta_triple [where kd = KText and s = s]) (simp_all add: text_key proto_step_def False)
  from triple_seq [OF ensure_text_triple this] show ?thesis using False by (simp add: triple_def text_delta_def)
qed (simp add: triple_def text_delta_def)

lemma tool_delta_triple [keeps]: "triple tr_started (tool_args_delta key call_id name s) tr_started"
proof (cases "s = []")
  case False
  have "triple tr_started (emit_delta (tool_key key call_id) (\<lambda>i. ArgsDelta i s)) tr_started"
    by (rule emit_delta_triple [where kd = KTool and s = s]) (simp_all add: tool_key_kind proto_step_def False)
  from triple_seq [OF ensure_tool_triple this] show ?thesis using False by (simp add: triple_def tool_args_delta_def)
qed (simp add: triple_def tool_args_delta_def)

lemma thinking_delta_triple [keeps]: "triple tr_started (thinking_delta env s) tr_started"
proof (cases "s = []")
  case False
  from triple_seq [OF ensure_thinking_triple emit_thinking_triple [OF False]]
  show ?thesis using False by (simp add: triple_def thinking_delta_def)
qed (simp add: triple_def thinking_delta_def)

lemma unless_emitted_triple [keeps]: "triple P f P \<Longrightarrow> triple P (unless_emitted key f) P"
  by (auto simp: triple_def unless_emitted_def)

lemma start_part_triple [keeps]: "triple tr_started (start_thinking_part env key) tr_started"
proof -
  have m: "triple tr_started (modify (\<lambda>t. t\<lparr>tr_reasoning_key := k\<rparr>)) tr_started" for k
    by (rule modify_triple) simp_all
  have f: "triple tr_started (finalize_thinking False) tr_started"
    by (rule triple_weaken [OF finalize_thinking_triple(2)]) auto
  have "triple tr_started (seq g (seq (modify (\<lambda>t. t\<lparr>tr_reasoning_key := normalize_reasoning_key key\<rparr>)) (ensure_thinking_block env))) tr_started"
    if "triple tr_started g tr_started" for g
    by (rule triple_seq [OF that triple_seq [OF m ensure_thinking_triple]])
  from this [OF f] this [OF triple_skip] show ?thesis by (simp add: triple_def start_thinking_part_def)
qed

lemma final_reasoning_triple [keeps]: "triple tr_started (emit_final_reasoning env item key) tr_started"
  unfolding triple_def
proof (intro allI impI, elim conjE)
  fix t assume t: "conforms t" "tr_started t"
  have f: "triple tr_started (finalize_thinking True) tr_started"
    by (rule triple_weaken [OF finalize_thinking_triple(2)]) auto
  have s: "triple tr_started (seq (ensure_thinking_block env) (seq (thinking_delta env x) (finalize_thinking True))) tr_started" for x
    by (intro triple_seq [OF ensure_thinking_triple] triple_seq [OF thinking_delta_triple] f)
  have u: "conforms (t\<lparr>tr_reasoning_key := k, tr_signature := g\<rparr>) \<and> tr_started (t\<lparr>tr_reasoning_key := k, tr_signature := g\<rparr>)" for k g
    using unseen_conforms [OF t(1), of "t\<lparr>tr_reasoning_key := k, tr_signature := g\<rparr>"] t(2) by simp
  show "conforms (snd (emit_final_reasoning env item key t)) \<and>
    (fst (emit_final_reasoning env item key t) = None \<longrightarrow> tr_started (snd (emit_final_reasoning env item key t)))"
    using s u t unfolding triple_def emit_final_reasoning_def Let_def by (simp split: if_split)
qed

text \<open>Without a started message a reasoning item starts it.\<close>

lemma ensure_start_started: "tr_started (snd (ensure_start env i m t))"
  by (simp add: ensure_start_def Let_def write_event_def)

lemma started_started: "tr_started (snd (started env t))"
  by (simp add: started_def ensure_start_started)

section \<open>The end of a stream\<close>

definition all_stopped :: "translator \<Rightarrow> bool" where
  "all_stopped t \<longleftrightarrow> tr_thinking t = None \<and> (\<forall>k b. map_of (tr_blocks t) k = Some b \<longrightarrow> bk_stopped b)"

lemma each_stop:
  assumes "conforms t"
  shows "conforms (snd (each stop_at ks t)) \<and> (fst (each stop_at ks t) = None \<longrightarrow>
    tr_started (snd (each stop_at ks t)) = tr_started t \<and> tr_thinking (snd (each stop_at ks t)) = tr_thinking t \<and>
    (\<forall>k b. map_of (tr_blocks (snd (each stop_at ks t))) k = Some b \<and> \<not> bk_stopped b \<longrightarrow> map_of (tr_blocks t) k = Some b \<and> k \<notin> set ks))"
  using assms
proof (induction ks arbitrary: t)
  case (Cons key ks)
  obtain r t1 where s: "stop_at key t = (r, t1)" by fastforce
  note c = stop_at_conforms [OF Cons.prems, of key, unfolded s fst_conv snd_conv]
  show ?case
  proof (cases r)
    case None
    have "each stop_at (key # ks) t = each stop_at ks t1" using s None by (simp add: seq_none)
    then show ?thesis using Cons.IH [of t1] c None by auto
  next
    case (Some e)
    have "each stop_at (key # ks) t = (Some e, t1)" using s Some by (simp add: seq_some)
    then show ?thesis using c by simp
  qed
qed simp

lemma stop_all_triple:
  "triple (\<lambda>t. tr_thinking t = None \<and> P (tr_started t)) stop_all_blocks (\<lambda>t. all_stopped t \<and> P (tr_started t))"
  unfolding triple_def
proof (intro allI impI, elim conjE)
  fix t assume t: "conforms t" "tr_thinking t = None" "P (tr_started t)"
  define ks where "ks = map fst (sort_key (\<lambda>(k, b). bk_index b) (filter (\<lambda>(k, b). \<not> bk_stopped b) (tr_blocks t)))"
  have k: "k \<in> set ks" if "map_of (tr_blocks t) k = Some b" "\<not> bk_stopped b" for k b
    using map_of_SomeD [OF that(1)] that(2) by (force simp: ks_def)
  obtain r u where e: "each stop_at ks t = (r, u)" by fastforce
  note s = each_stop [OF t(1), of ks, unfolded e fst_conv snd_conv]
  have "stop_all_blocks t = (r, u)" using e by (simp add: stop_all_blocks_def ks_def)
  moreover have "all_stopped u \<and> P (tr_started u)" if "r = None"
  proof -
    have "bk_stopped b" if "map_of (tr_blocks u) j = Some b" for j b
      using s k [of j b] that \<open>r = None\<close> by blast
    then show ?thesis using s t(2,3) that by (simp add: all_stopped_def)
  qed
  ultimately show "conforms (snd (stop_all_blocks t)) \<and>
    (fst (stop_all_blocks t) = None \<longrightarrow> all_stopped (snd (stop_all_blocks t)) \<and> P (tr_started (snd (stop_all_blocks t))))"
    using s by simp
qed

lemma all_stopped_closed:
  assumes "tracks t p" "all_stopped t"
  shows "pr_open p = []"
proof -
  have "\<not> live t i k" for i k using assms(2) by (auto simp: live_def all_stopped_def)
  then have "map_of (pr_open p) i = None" for i using assms(1) by (cases "map_of (pr_open p) i") (auto simp: tracks_def)
  then have "map_of (pr_open p) = Map.empty" by blast
  then show ?thesis by simp
qed

lemma finish_write:
  assumes t: "conforms t" "all_stopped t" "tr_started t" "r \<noteq> []"
  shows "conforms (snd (seq (write_event (MessageDelta r i j)) (seq (write_event MessageStop) (modify (\<lambda>t. t\<lparr>tr_finished := True\<rparr>))) t)) \<and>
    (fst (seq (write_event (MessageDelta r i j)) (seq (write_event MessageStop) (modify (\<lambda>t. t\<lparr>tr_finished := True\<rparr>))) t) = None \<longrightarrow>
      tr_finished (snd (seq (write_event (MessageDelta r i j)) (seq (write_event MessageStop) (modify (\<lambda>t. t\<lparr>tr_finished := True\<rparr>))) t)))"
proof (cases "alive t")
  case False
  then show ?thesis using t(1) by (simp add: seq_def write_event_alive)
next
  case True
  have sh: "shape t" using t(1) by (simp add: conforms_def)
  obtain p where p: "proto_run (tr_out t) proto_init = Some p" "tr_finished t \<longrightarrow> pr_done p" "\<not> tr_finished t \<longrightarrow> tracks t p"
    using t(1) True by (auto simp: conforms_def)
  let ?t1 = "t\<lparr>tr_out := tr_out t @ [MessageDelta r i j]\<rparr>"
  let ?t2 = "?t1\<lparr>tr_out := tr_out ?t1 @ [MessageStop], tr_finished := True\<rparr>"
  have "\<exists>q. proto_step (MessageDelta r i j) p = Some q \<and> (pr_reason q \<or> pr_done q) \<and> (tr_finished t \<longrightarrow> pr_done q)"
  proof (cases "tr_finished t")
    case True
    then show ?thesis using p(2) by (simp add: proto_step_def)
  next
    case False
    then have tr: "tracks t p" using p(3) by simp
    then have "pr_open p = []" by (rule all_stopped_closed [OF _ t(2)])
    then show ?thesis using tr t(3,4) False by (simp add: proto_step_def tracks_def)
  qed
  then obtain q where q0: "proto_step (MessageDelta r i j) p = Some q"
    and q2: "pr_reason q \<or> pr_done q" "tr_finished t \<longrightarrow> pr_done q" by blast
  have q1: "proto_run (tr_out ?t1) proto_init = Some q" using proto_run_snoc [OF p(1)] q0 by simp
  note q = q1 q2
  have 1: "write_event (MessageDelta r i j) t = (None, ?t1)" using True by (simp add: write_event_alive)
  show ?thesis
  proof (cases "alive ?t1")
    case False
    have "conforms ?t1" using sh q False by (auto simp: conforms_def shape_def)
    then show ?thesis using 1 False by (simp add: seq_def write_event_alive)
  next
    case True
    have "\<exists>q'. proto_run (tr_out ?t2) proto_init = Some q' \<and> pr_done q'"
      using proto_run_snoc [OF q(1), of MessageStop] q(2) by (auto simp: proto_step_def)
    then have "conforms ?t2" using sh by (auto simp: conforms_def shape_def)
    then show ?thesis using 1 True by (simp add: seq_def write_event_alive modify_def)
  qed
qed

lemma finish_triple: "triple (\<lambda>t. True) (finish env stop i j) tr_finished"
proof -
  have w: "triple (\<lambda>t. all_stopped t \<and> tr_started t) (\<lambda>t.
        let reason = (if stop = [] then (if tr_has_tool t then ''tool_use'' else ''end_turn'') else stop);
            i = (if i = 0 \<and> tr_in_tokens t > 0 then tr_in_tokens t else i);
            o' = (if j = 0 \<and> tr_out_tokens t > 0 then tr_out_tokens t else j) in
        seq (write_event (MessageDelta reason i o')) (seq (write_event MessageStop) (modify (\<lambda>t. t\<lparr>tr_finished := True\<rparr>))) t) tr_finished"
    unfolding triple_def Let_def by (intro allI impI, elim conjE, rule finish_write) simp_all
  have f: "triple tr_started (finalize_thinking True) (\<lambda>t. tr_thinking t = None \<and> tr_started t)"
    by (rule triple_weaken [OF finalize_thinking_triple(2)]) auto
  have "triple (\<lambda>t. True) (seq (started env) (seq (finalize_thinking True) (seq stop_all_blocks (\<lambda>t.
        let reason = (if stop = [] then (if tr_has_tool t then ''tool_use'' else ''end_turn'') else stop);
            i = (if i = 0 \<and> tr_in_tokens t > 0 then tr_in_tokens t else i);
            o' = (if j = 0 \<and> tr_out_tokens t > 0 then tr_out_tokens t else j) in
        seq (write_event (MessageDelta reason i o')) (seq (write_event MessageStop) (modify (\<lambda>t. t\<lparr>tr_finished := True\<rparr>))) t)))) tr_finished"
    by (rule triple_seq [OF started_plain triple_seq [OF f triple_seq [OF stop_all_triple w]]])
  then show ?thesis by (simp add: triple_def finish_def)
qed

lemma fail_triple: "triple (\<lambda>t. True) (fail env status msg) tr_finished"
proof -
  let ?last = "\<lambda>a b. seq (write_event (ErrorEvent a b)) (modify (\<lambda>t. t\<lparr>tr_failed := True, tr_finished := True\<rparr>))"
  have "conforms (snd (?last a b t)) \<and> (fst (?last a b t) = None \<longrightarrow> tr_finished (snd (?last a b t)))"
    if t: "conforms t" "all_stopped t" for a b t
  proof (cases "alive t")
    case False
    then show ?thesis using t(1) by (simp add: seq_def write_event_alive)
  next
    case True
    have sh: "shape t" using t(1) by (simp add: conforms_def)
    obtain p where p: "proto_run (tr_out t) proto_init = Some p" "tr_finished t \<longrightarrow> pr_done p" "\<not> tr_finished t \<longrightarrow> tracks t p"
      using t(1) True by (auto simp: conforms_def)
    let ?u = "t\<lparr>tr_out := tr_out t @ [ErrorEvent a b], tr_failed := True, tr_finished := True\<rparr>"
    have "\<exists>q. proto_step (ErrorEvent a b) p = Some q \<and> pr_done q"
    proof (cases "tr_finished t")
      case True
      then show ?thesis using p(2) by (simp add: proto_step_def)
    next
      case False
      then have tr: "tracks t p" using p(3) by simp
      then have "pr_open p = []" by (rule all_stopped_closed [OF _ t(2)])
      then show ?thesis using tr by (simp add: proto_step_def tracks_def)
    qed
    then obtain q where "proto_step (ErrorEvent a b) p = Some q" "pr_done q" by blast
    then have "conforms ?u" using proto_run_snoc [OF p(1), of "ErrorEvent a b"] sh by (simp add: conforms_def shape_def)
    then show ?thesis using True by (simp add: seq_def write_event_alive modify_def)
  qed
  then have w: "triple (\<lambda>t. all_stopped t \<and> True) (?last a b) tr_finished" for a b by (simp add: triple_def)
  have "triple (\<lambda>t. tr_thinking t = None) (seq stop_all_blocks (?last a b)) tr_finished" for a b
    using triple_seq [OF stop_all_triple [of "\<lambda>s. True"] w] by simp
  from triple_seq [OF finalize_thinking_triple(1) this] show ?thesis by (simp add: triple_def fail_def)
qed

section \<open>The handlers\<close>

lemma final_item_triple [keeps]: "triple tr_started (final_item env ni) tr_started"
proof -
  have c: "triple tr_started (final_call env item k) tr_started" for item k
    unfolding final_call_def Let_def by (intro keeps)
  have m: "triple tr_started (final_message env item k) tr_started" for item k
  proof -
    have "triple tr_started (seq (each (text_delta key) ts) (stop_block key ''text'')) tr_started" for key ts by (intro keeps)
    then show ?thesis using stop_block_triple by (simp add: triple_def final_message_def Let_def)
  qed
  show ?thesis unfolding final_item_def Let_def by (intro keeps c m)
qed

lemma emit_final_output_triple [keeps]: "triple tr_started (emit_final_output env v) tr_started"
proof (cases "decode_objects v")
  case None
  then show ?thesis by (simp add: emit_final_output_def keeps)
next
  case (Some items)
  have "triple tr_started (each (final_item env) (zip [0..<length items] items)) tr_started" by (intro keeps)
  then show ?thesis using Some by (simp add: emit_final_output_def)
qed

text \<open>A handler that starts the message first, or does nothing without blocks.\<close>

lemma to_any: "triple (\<lambda>t. True) f Q \<Longrightarrow> triple (\<lambda>t. True) f (\<lambda>t. True)"
  by (simp add: triple_def)

lemma stop_block_any [keeps]: "triple (\<lambda>t. True) (stop_block key kind) (\<lambda>t. True)"
  using stop_at_conforms by (simp add: triple_def stop_block_def)

lemma after_start [keeps]: "triple tr_started f tr_started \<Longrightarrow> triple (\<lambda>t. True) (seq (started env) f) (\<lambda>t. True)"
  by (rule to_any) (rule triple_seq [OF started_plain])

lemma on_created_triple [keeps]: "triple (\<lambda>t. True) (on_created env m) (\<lambda>t. True)"
proof -
  have "conforms (if n > 0 then t\<lparr>tr_in_tokens := n\<rparr> else t)" if "conforms t" for t n
    using unseen_conforms [OF that, of "t\<lparr>tr_in_tokens := n\<rparr>"] that by simp
  moreover have "triple (\<lambda>t. True) (ensure_start env i mo) (\<lambda>t. True)" for i mo
    by (rule to_any) (rule ensure_start_triple, rule TrueI)
  ultimately show ?thesis unfolding triple_def on_created_def Let_def by blast
qed

lemma on_blocks_triple [keeps]:
  "triple (\<lambda>t. True) (on_text_delta env m) (\<lambda>t. True)"
  "triple (\<lambda>t. True) (on_part_added env m) (\<lambda>t. True)"
  "triple (\<lambda>t. True) (on_args_delta env m) (\<lambda>t. True)"
  "triple (\<lambda>t. True) (on_args_done env m) (\<lambda>t. True)"
  "triple (\<lambda>t. True) (on_content_added env m) (\<lambda>t. True)"
  unfolding on_text_delta_def on_part_added_def on_args_delta_def on_args_done_def on_content_added_def Let_def
  by (intro keeps)+

lemma on_content_done_triple [keeps]: "triple (\<lambda>t. True) (on_content_done env m) (\<lambda>t. True)"
  unfolding on_content_done_def Let_def by (intro keeps)

lemma on_reasoning_delta_triple [keeps]: "triple (\<lambda>t. True) (on_reasoning_delta env m) (\<lambda>t. True)"
proof -
  have "triple tr_started (\<lambda>t. if tr_thinking t = None then start_thinking_part env k t else (None, t)) tr_started" for k
    using start_part_triple by (simp add: triple_def)
  then show ?thesis unfolding on_reasoning_delta_def by (intro keeps)
qed

lemma capture_conforms:
  assumes "conforms t"
  shows "conforms (capture_signature k g (t\<lparr>tr_reasoning_key := r\<rparr>)) \<and>
    tr_started (capture_signature k g (t\<lparr>tr_reasoning_key := r\<rparr>)) = tr_started t"
  using unseen_conforms [OF assms, of "capture_signature k g (t\<lparr>tr_reasoning_key := r\<rparr>)"]
  by (simp add: capture_signature_def Let_def)

lemma on_item_added_triple [keeps]: "triple (\<lambda>t. True) (on_item_added env m) (\<lambda>t. True)"
proof -
  have "triple tr_started (modify (\<lambda>t. capture_signature k g (t\<lparr>tr_reasoning_key := r\<rparr>))) tr_started" for k g r
    using capture_conforms by (simp add: triple_def modify_def)
  then show ?thesis unfolding on_item_added_def Let_def by (intro keeps)
qed

text \<open>A reasoning item may come before the message has started.\<close>

lemma final_reasoning_any: "triple (\<lambda>t. tr_thinking t = None) (emit_final_reasoning env item key) (\<lambda>t. True)"
  unfolding triple_def
proof (intro allI impI, elim conjE)
  fix t assume t: "conforms t" "tr_thinking t = None"
  have f: "triple tr_started (finalize_thinking True) (\<lambda>t. True)"
    by (rule triple_weaken [OF finalize_thinking_triple(2)]) auto
  have s: "triple (\<lambda>t. tr_enabled t \<and> tr_thinking t = None)
      (seq (ensure_thinking_block env) (seq (thinking_delta env x) (finalize_thinking True))) (\<lambda>t. True)" for x
    by (intro triple_seq [OF ensure_thinking_start] triple_seq [OF thinking_delta_triple] f)
  have u: "conforms (t\<lparr>tr_reasoning_key := k, tr_signature := g\<rparr>)" for k g
    using unseen_conforms [OF t(1), of "t\<lparr>tr_reasoning_key := k, tr_signature := g\<rparr>"] by simp
  show "conforms (snd (emit_final_reasoning env item key t)) \<and> (fst (emit_final_reasoning env item key t) = None \<longrightarrow> True)"
    using s u t unfolding triple_def emit_final_reasoning_def Let_def by (simp split: if_split)
qed

lemma on_item_done_triple [keeps]: "triple (\<lambda>t. True) (on_item_done env m) (\<lambda>t. True)"
proof -
  have r: "triple (\<lambda>t. True) (done_reasoning env m item) (\<lambda>t. True)" for item
    using final_reasoning_any finalize_thinking_triple(1) capture_conforms unfolding triple_def done_reasoning_def Let_def
    by simp
  have c: "triple (\<lambda>t. True) (done_call env m item) (\<lambda>t. True)" for item
    unfolding done_call_def Let_def by (intro keeps)
  have g: "triple (\<lambda>t. True) (done_message env m item) (\<lambda>t. True)" for item
    unfolding done_message_def Let_def by (intro keeps)
  show ?thesis unfolding on_item_done_def Let_def by (intro keeps r c g)
qed

lemma on_completed_conforms:
  assumes "conforms t"
  shows "conforms (snd (on_completed env b m t)) \<and> (fst (on_completed env b m t) = None \<longrightarrow> tr_finished (snd (on_completed env b m t)))"
proof -
  let ?r = "struct_object m ''response''"
  define u where "u = snd (if struct_string ?r ''id'' \<noteq> [] \<and> tr_msg_id t = []
    then ensure_start env (struct_string ?r ''id'') (tr_request_model t) t else started env t)"
  have "triple (\<lambda>t. True) (ensure_start env i mo) (\<lambda>t. True)" for i mo
    by (rule to_any) (rule ensure_start_triple, rule TrueI)
  then have u: "conforms u" "tr_started u"
    using assms started_plain [of env] ensure_start_started started_started by (auto simp: u_def triple_def)
  have v: "conforms (if gm_get ?r ''usage'' = None then u else u\<lparr>tr_in_tokens := i, tr_out_tokens := j\<rparr>) \<and>
      tr_started (if gm_get ?r ''usage'' = None then u else u\<lparr>tr_in_tokens := i, tr_out_tokens := j\<rparr>)" for i j
    using unseen_conforms [OF u(1), of "u\<lparr>tr_in_tokens := i, tr_out_tokens := j\<rparr>"] u by simp
  have o': "triple tr_started (case gm_get ?r ''output'' of Some v \<Rightarrow> emit_final_output env v | None \<Rightarrow> skip) tr_started"
    using emit_final_output_triple triple_skip by (auto split: option.split)
  have f: "triple tr_started (\<lambda>t. finish env (if tr_has_tool t then ''tool_use'' else if b then ''max_tokens'' else ''end_turn'') i j t) tr_finished" for i j
    using finish_triple by (simp add: triple_def)
  show ?thesis
    using triple_seq [OF o' f] v unfolding triple_def on_completed_def Let_def u_def [symmetric] by blast
qed

lemma on_event_triple [keeps]: "triple (\<lambda>t. True) (on_event env body m) (\<lambda>t. True)"
proof -
  have c: "triple (\<lambda>t. True) (on_completed env b m) (\<lambda>t. True)" for b
    using on_completed_conforms by (simp add: triple_def)
  have f: "triple (\<lambda>t. True) (fail env i s) (\<lambda>t. True)" for i s by (rule to_any [OF fail_triple])
  have m: "triple (\<lambda>t. True) (modify (\<lambda>t. t\<lparr>tr_stop_pending := True\<rparr>)) (\<lambda>t. True)" by (rule modify_triple) simp_all
  show ?thesis unfolding on_event_def Let_def by (intro keeps c f m)
qed

lemma process_data_triple [keeps]: "triple (\<lambda>t. True) (process_data env data) (\<lambda>t. True)"
  using on_event_triple finish_triple unfolding triple_def process_data_def Let_def
  by (auto split: option.split json.split)

lemma process_line_triple [keeps]: "triple (\<lambda>t. True) (process_line env line) (\<lambda>t. True)"
  unfolding process_line_def Let_def by (intro keeps)

lemma pipe_flush_triple [keeps]: "triple (\<lambda>t. True) (pipe_flush env buf) (\<lambda>t. True)"
  unfolding pipe_flush_def by (intro keeps)

lemma pipe_lines_conforms: "conforms t \<Longrightarrow> conforms (snd (pipe_lines env ls buf t))"
proof (induction env ls buf t rule: pipe_lines.induct)
  case (2 env l ls buf t)
  have "conforms (snd (pipe_flush env buf t))" using pipe_flush_triple 2(4) by (simp add: triple_def)
  then show ?case using 2 by (auto split: prod.split option.split)
qed simp

lemma new_conforms: "conforms (new_translator model enabled display limit)"
  by (simp add: conforms_def new_translator_def shape_def index_inj_def tracks_def live_def proto_init_def gm_wf_def)

text \<open>
  C1. The translator refines the protocol of Anthropic streams. Whatever bytes the upstream sends, with whatever JSON in
  them, in whatever order, wherever reading breaks off, and after however many writes the connection to the client
  fails: the client has received a prefix of a stream that the protocol automaton accepts, one
  \<open>message_start\<close> first, blocks numbered in order, deltas only to an open block of their kind, every block
  stopped before the stop reason; and the pipe reports no error only if the
  stream was ended by \<open>message_stop\<close> or by an error event. Until then the automaton and the translator agree on
  what is open.
\<close>

theorem pipe_refines_protocol:
  assumes "pipe_responses env bytes scan_fails (new_translator model enabled display limit) = (r, t)"
  shows "\<exists>p. proto_run (tr_out t) proto_init = Some p \<and> (r = None \<longrightarrow> pr_done p) \<and> (\<not> tr_finished t \<and> alive t \<longrightarrow> tracks t p)"
proof -
  let ?t = "new_translator model enabled display limit"
  obtain q u where l: "pipe_lines env (scan_lines bytes) [] ?t = (q, u)" by fastforce
  have u: "conforms u" using pipe_lines_conforms [OF new_conforms, of env "scan_lines bytes" "[]" model enabled display limit] l by simp
  have w: "triple (\<lambda>t. True) (\<lambda>t. (if tr_finished t then None else Some StUnexpectedEOF, t)) tr_finished" by (simp add: triple_def)
  have "conforms t \<and> (r = None \<longrightarrow> tr_finished t)"
  proof (cases q)
    case (Inl e)
    then show ?thesis using l u assms by (auto simp: pipe_responses_def)
  next
    case (Inr buf)
    have "triple (\<lambda>t. True) (seq (pipe_flush env buf) (\<lambda>t. (if tr_finished t then None else Some StUnexpectedEOF, t))) tr_finished"
      by (rule triple_seq [OF pipe_flush_triple w])
    then have "conforms (snd (seq (pipe_flush env buf) (\<lambda>t. (if tr_finished t then None else Some StUnexpectedEOF, t)) u)) \<and>
        (fst (seq (pipe_flush env buf) (\<lambda>t. (if tr_finished t then None else Some StUnexpectedEOF, t)) u) = None \<longrightarrow>
          tr_finished (snd (seq (pipe_flush env buf) (\<lambda>t. (if tr_finished t then None else Some StUnexpectedEOF, t)) u)))"
      using u by (simp add: triple_def)
    then show ?thesis using l u Inr assms by (auto simp: pipe_responses_def split: if_splits)
  qed
  then show ?thesis by (auto simp: conforms_def)
qed

text \<open>A stream with reasoning, a text and a call, as it is sent whole, and broken off after the text.\<close>

definition sample_events :: "(string \<times> json) list" where
  "sample_events =
     [(''c'', JObj [(''type'', JStr ''response.created''), (''response'', JObj [(''id'', JStr ''resp_1'')])]),
      (''r'', JObj [(''type'', JStr ''response.reasoning_text.delta''), (''item_id'', JStr ''rs''), (''delta'', JStr ''hm'')]),
      (''d'', JObj [(''type'', JStr ''response.output_text.delta''), (''item_id'', JStr ''m''), (''delta'', JStr ''hi'')]),
      (''f'', JObj [(''type'', JStr ''response.function_call_arguments.done''), (''call_id'', JStr ''x''), (''arguments'', JStr ''{}'')]),
      (''e'', JObj [(''type'', JStr ''response.completed''), (''response'', JObj [(''status'', JStr ''completed'')])])]"

definition sample_stream_env :: stream_env where
  "sample_stream_env = \<lparr>se_decode = map_of sample_events, se_raw = (\<lambda>v. []), se_requote = (\<lambda>s. s), se_status_text = (\<lambda>n. []), se_now = 1\<rparr>"

definition sse :: "string \<Rightarrow> string" where
  "sse payloads = concat (map (\<lambda>c. ''data: '' @ [c, CHR 0x0A, CHR 0x0A]) payloads)"

definition sample_run :: "string \<Rightarrow> stream_error option \<times> translator" where
  "sample_run payloads = pipe_responses sample_stream_env (sse payloads) False (new_translator ''g'' True [] None)"

lemma sample_whole: "fst (sample_run ''crdfe'') = None \<and> last (tr_out (snd (sample_run ''crdfe''))) = MessageStop"
  by code_simp

lemma sample_broken: "fst (sample_run ''crd'') = Some StUnexpectedEOF \<and> \<not> tr_finished (snd (sample_run ''crd'')) \<and> alive (snd (sample_run ''crd'')) \<and>
    length (tr_out (snd (sample_run ''crd''))) = 6"
  by code_simp

theorem pipe_refines_protocol_witness:
  "(\<exists>p. proto_run (tr_out (snd (sample_run ''crdfe''))) proto_init = Some p \<and> pr_done p) \<and>
   (\<exists>p. proto_run (tr_out (snd (sample_run ''crd''))) proto_init = Some p \<and> tracks (snd (sample_run ''crd'')) p)"
proof -
  have run: "pipe_responses sample_stream_env (sse ps) False (new_translator ''g'' True [] None) = (fst (sample_run ps), snd (sample_run ps))" for ps
    by (simp add: sample_run_def)
  show ?thesis
    using pipe_refines_protocol [OF run, of "''crdfe''"] pipe_refines_protocol [OF run, of "''crd''"] sample_whole sample_broken
    by auto
qed

end
