(* ===== verification/AuthImport.thy ===== *)
theory AuthImport
  imports Catalog Json
begin

text \<open>
  Parsing credential files into accounts (\<open>internal/authimport/parse.go\<close>): one credential, an array, an object of
  credentials, or several documents after another; and the identity an account gets from its credential.

  Decoded documents are JSON values; the members of an object keep their order and duplicates, as
  \<open>json.Decoder\<close> gives them. Parameters: the decoder of a stream, \<open>time.Parse\<close> by layout in
  Unix seconds, \<open>url.Parse\<close>, SHA-256 and base64.
\<close>

section \<open>Credentials\<close>

record auth_entry =
  ae_type :: string
  ae_key :: string
  ae_access_token :: string
  ae_auth_mode :: string
  ae_create_time :: string
  ae_user_id :: string
  ae_email :: string
  ae_first_name :: string
  ae_profile_image :: string
  ae_principal_type :: string
  ae_principal_id :: string
  ae_team_id :: string
  ae_coding_opt_out :: bool
  ae_refresh_token :: string
  ae_expires_at :: string
  ae_expired :: string
  ae_oidc_issuer :: string
  ae_oidc_client_id :: string
  ae_sub :: string
  ae_disabled :: bool
  ae_proxy_url :: string
  ae_proxy :: string

type_synonym import_warning = "string \<times> string \<times> string"

record credential =
  ic_source_key :: string
  ic_access_token :: string
  ic_refresh_token :: string
  ic_expires_at :: int
  ic_email :: string
  ic_user_id :: string
  ic_team_id :: string
  ic_oidc_issuer :: string
  ic_oidc_client_id :: string
  ic_auth_mode :: string
  ic_disabled :: bool
  ic_proxy_url :: string
  ic_warnings :: "import_warning list"
  ic_raw :: auth_entry

text \<open>The seconds of Go's zero \<open>time.Time\<close>.\<close>

definition zero_time :: int where "zero_time = - 62135596800"

datatype auth_error =
    AuEmpty | AuSyntax | AuShape | AuField string | AuNoTokens string | AuType string | AuTime string
  | AuIssuer string | AuNotArray string | AuNoEntries "string list" | AuLimit | AuMissing string

record url_parts =
  up_scheme :: string
  up_hostname :: string
  up_port :: string
  up_user :: bool
  up_path :: string
  up_query :: string
  up_fragment :: string

text \<open>\<open>au_docs\<close> gives the values before the end of the stream or before an error, and whether there was an error.\<close>

record auth_env =
  au_docs :: "string \<Rightarrow> json list \<times> bool"
  au_layout :: "string \<Rightarrow> string \<Rightarrow> int option"
  au_url :: "string \<Rightarrow> url_parts option"
  au_sha :: "string \<Rightarrow> nat list"
  au_base64 :: "bool \<Rightarrow> string \<Rightarrow> string option"

definition auth_issuer :: string where "auth_issuer = ''https://auth.x.ai''"
definition default_client_id :: string where "default_client_id = ''b1a00492-073a-47ea-816f-4c329264a828''"
definition max_import_warnings :: nat where "max_import_warnings = 256"

section \<open>Strings\<close>

definition first_text :: "string list \<Rightarrow> string" where
  "first_text vs = (case filter (\<lambda>v. v \<noteq> []) (map trim_space vs) of [] \<Rightarrow> [] | v # _ \<Rightarrow> v)"

text \<open>\<open>strings.SplitN(s, sep, 2)\<close>: the parts around the first separator.\<close>

fun split_first :: "string \<Rightarrow> string \<Rightarrow> (string \<times> string) option" where
  "split_first sep [] = (if sep = [] then Some ([], []) else None)"
| "split_first sep (c # cs) =
     (if has_prefix (c # cs) sep then Some ([], drop (length sep) (c # cs))
      else map_option (\<lambda>(a, b). (c # a, b)) (split_first sep cs))"

definition trim_suffix :: "string \<Rightarrow> string \<Rightarrow> string" where
  "trim_suffix s p = (if has_suffix s p then take (length s - length p) s else s)"

definition split_source_key :: "string \<Rightarrow> (string \<times> string) option" where
  "split_source_key key =
     (case split_first ''::'' key of
        None \<Rightarrow> None
      | Some (a, b) \<Rightarrow> if trim_space a = [] \<or> trim_space b = [] then None else Some (trim_space a, trim_space b))"

text \<open>\<open>parseFlexibleTime\<close>: the first layout that fits.\<close>

definition time_layouts :: "string list" where
  "time_layouts =
     [''2006-01-02T15:04:05.999999999Z07:00'', ''2006-01-02T15:04:05Z07:00'',
      ''2006-01-02T15:04:05.999999999Z07:00'', ''2006-01-02T15:04:05Z07:00'', ''2006-01-02 15:04:05'']"

definition parse_flexible_time :: "auth_env \<Rightarrow> string \<Rightarrow> int option" where
  "parse_flexible_time env s =
     (case map_option (\<lambda>l. au_layout env l (trim_space s)) (find (\<lambda>l. au_layout env l (trim_space s) \<noteq> None) time_layouts) of
        Some r \<Rightarrow> r | None \<Rightarrow> None)"

definition normalize_trusted_issuer :: "auth_env \<Rightarrow> string \<Rightarrow> string option" where
  "normalize_trusted_issuer env raw0 =
     (let raw = trim_space raw0 in
      if raw = [] then Some auth_issuer
      else case au_url env raw of
        None \<Rightarrow> None
      | Some u \<Rightarrow>
          let host = to_lower (trim_suffix (up_hostname u) ''.''); path = trim_right CHR ''/'' (up_path u) in
          if up_scheme u \<noteq> ''https'' \<or> host \<noteq> ''auth.x.ai'' \<or> (up_port u \<noteq> [] \<and> up_port u \<noteq> ''443'') \<or> up_user u \<or>
             path \<noteq> [] \<or> up_query u \<noteq> [] \<or> up_fragment u \<noteq> []
          then None else Some auth_issuer)"

section \<open>Decoding an entry\<close>

definition known_text_fields :: "string list" where
  "known_text_fields =
     [''type'', ''key'', ''access_token'', ''auth_mode'', ''create_time'', ''user_id'', ''email'', ''first_name'',
      ''profile_image_asset_id'', ''principal_type'', ''principal_id'', ''team_id'', ''refresh_token'', ''expires_at'',
      ''expired'', ''oidc_issuer'', ''oidc_client_id'', ''sub'', ''proxy_url'', ''proxy'']"

definition known_bool_fields :: "string list" where
  "known_bool_fields = [''coding_data_retention_opt_out'', ''disabled'']"

text \<open>The known fields are kept by name and then decoded into the struct.\<close>

definition build_entry :: "(string \<times> json) list \<Rightarrow> auth_entry" where
  "build_entry ms =
     (let t = (\<lambda>k. case entry_text ms k of Some s \<Rightarrow> s | None \<Rightarrow> []);
          b = (\<lambda>k. case entry_bool ms k of Some v \<Rightarrow> v | None \<Rightarrow> False) in
      \<lparr>ae_type = t ''type'', ae_key = t ''key'', ae_access_token = t ''access_token'', ae_auth_mode = t ''auth_mode'',
       ae_create_time = t ''create_time'', ae_user_id = t ''user_id'', ae_email = t ''email'', ae_first_name = t ''first_name'',
       ae_profile_image = t ''profile_image_asset_id'', ae_principal_type = t ''principal_type'',
       ae_principal_id = t ''principal_id'', ae_team_id = t ''team_id'',
       ae_coding_opt_out = b ''coding_data_retention_opt_out'', ae_refresh_token = t ''refresh_token'',
       ae_expires_at = t ''expires_at'', ae_expired = t ''expired'', ae_oidc_issuer = t ''oidc_issuer'',
       ae_oidc_client_id = t ''oidc_client_id'', ae_sub = t ''sub'', ae_disabled = b ''disabled'',
       ae_proxy_url = t ''proxy_url'', ae_proxy = t ''proxy''\<rparr>)"

definition unsupported_field_warning :: "string \<Rightarrow> string \<Rightarrow> import_warning" where
  "unsupported_field_warning source name = (source, name, ''field is not supported and was ignored'')"

text \<open>The unknown names met so far, and whether one was left out.\<close>

fun scan_unknown :: "(string \<times> json) list \<Rightarrow> string list \<Rightarrow> bool \<Rightarrow> string list \<times> bool" where
  "scan_unknown [] unknown omitted = (unknown, omitted)"
| "scan_unknown ((k, v) # ms) unknown omitted =
     (if k \<in> set known_text_fields \<or> k \<in> set known_bool_fields then scan_unknown ms unknown omitted
      else if length unknown < max_import_warnings then scan_unknown ms (List.insert k unknown) omitted
      else scan_unknown ms unknown True)"

definition entry_warnings :: "string \<Rightarrow> (string \<times> json) list \<Rightarrow> import_warning list" where
  "entry_warnings source ms =
     (let (unknown, omitted) = scan_unknown ms [] False in
      map (unsupported_field_warning source) (sort unknown) @
      (if omitted then [(source, ''*'', ''additional unsupported fields omitted after warning limit'')] else []))"

definition decode_entry :: "string \<Rightarrow> json \<Rightarrow> auth_error + auth_entry \<times> import_warning list" where
  "decode_entry source v =
     (case v of
        JObj ms \<Rightarrow>
          if (\<forall>k\<in>set known_text_fields. entry_text ms k \<noteq> None) \<and> (\<forall>k\<in>set known_bool_fields. entry_bool ms k \<noteq> None)
          then Inr (build_entry ms, entry_warnings source ms)
          else Inl (AuField source)
      | _ \<Rightarrow> Inl AuShape)"

definition entry_has_token :: "auth_entry \<Rightarrow> bool" where
  "entry_has_token e \<longleftrightarrow>
     trim_space (ae_key e) \<noteq> [] \<or> trim_space (ae_access_token e) \<noteq> [] \<or> trim_space (ae_refresh_token e) \<noteq> []"

definition validate_cpa_type :: "string \<Rightarrow> auth_entry \<Rightarrow> auth_error option" where
  "validate_cpa_type source e =
     (let typ = to_lower (trim_space (ae_type e));
          cpa = (trim_space (ae_key e) = [] \<and> trim_space (ae_access_token e) \<noteq> [] \<and>
                 (trim_space (ae_expired e) \<noteq> [] \<or> trim_space (ae_sub e) \<noteq> [])) in
      if typ \<noteq> [] \<and> typ \<noteq> ''xai'' then Some (AuType source)
      else if cpa \<and> typ \<noteq> ''xai'' then Some (AuType source)
      else None)"

definition normalize_entry :: "auth_env \<Rightarrow> string \<Rightarrow> auth_entry \<Rightarrow> auth_error + credential" where
  "normalize_entry env source e =
     (let access = (if trim_space (ae_access_token e) = [] then trim_space (ae_key e) else trim_space (ae_access_token e));
          refresh = trim_space (ae_refresh_token e);
          expires = first_text [trim_space (ae_expires_at e), trim_space (ae_expired e)];
          client0 = trim_space (ae_oidc_client_id e); issuer0 = trim_space (ae_oidc_issuer e);
          base = (case split_first ''#entry'' source of None \<Rightarrow> source | Some (a, b) \<Rightarrow> a);
          hint = (if client0 = [] \<or> issuer0 = [] then split_source_key base else None);
          issuer1 = (if issuer0 = [] then (case hint of Some (i, c) \<Rightarrow> i | None \<Rightarrow> []) else issuer0);
          client1 = (if client0 = [] then (case hint of Some (i, c) \<Rightarrow> c | None \<Rightarrow> []) else client0);
          issuer2 = (if issuer1 = [] then auth_issuer else issuer1) in
      if access = [] \<and> refresh = [] then Inl (AuNoTokens source)
      else if expires \<noteq> [] \<and> parse_flexible_time env expires = None then Inl (AuTime source)
      else case normalize_trusted_issuer env issuer2 of
        None \<Rightarrow> Inl (AuIssuer source)
      | Some issuer \<Rightarrow> Inr
          \<lparr>ic_source_key = source, ic_access_token = access, ic_refresh_token = refresh,
           ic_expires_at = (if expires = [] then zero_time
                            else case parse_flexible_time env expires of Some t \<Rightarrow> t | None \<Rightarrow> zero_time),
           ic_email = trim_space (ae_email e),
           ic_user_id = first_text [trim_space (ae_user_id e), trim_space (ae_principal_id e), trim_space (ae_sub e)],
           ic_team_id = trim_space (ae_team_id e), ic_oidc_issuer = issuer,
           ic_oidc_client_id = (if client1 = [] then default_client_id else client1),
           ic_auth_mode = trim_space (ae_auth_mode e), ic_disabled = ae_disabled e,
           ic_proxy_url = first_text [trim_space (ae_proxy_url e), trim_space (ae_proxy e)],
           ic_warnings = [], ic_raw = e\<rparr>)"

section \<open>Documents\<close>

text \<open>A decoded entry with a token: its type is checked, it is normalised, and it carries its warnings.\<close>

definition accept_entry :: "auth_env \<Rightarrow> string \<Rightarrow> auth_entry \<Rightarrow> import_warning list \<Rightarrow> auth_error + credential" where
  "accept_entry env source e ws =
     (case validate_cpa_type source e of
        Some err \<Rightarrow> Inl err
      | None \<Rightarrow> map_sum id (\<lambda>c. c\<lparr>ic_warnings := ws\<rparr>) (normalize_entry env source e))"

fun normalize_values :: "auth_env \<Rightarrow> string \<Rightarrow> nat \<Rightarrow> json list \<Rightarrow> auth_error + credential list" where
  "normalize_values env prefix n [] = Inr []"
| "normalize_values env prefix n (v # vs) =
     (let source = prefix @ ''['' @ show_int (int n) @ '']'' in
      case decode_entry source v of
        Inl err \<Rightarrow> Inl err
      | Inr (e, ws) \<Rightarrow>
          if \<not> entry_has_token e then Inl (AuNoTokens source)
          else case accept_entry env source e ws of
            Inl err \<Rightarrow> Inl err
          | Inr c \<Rightarrow> map_sum id ((#) c) (normalize_values env prefix (Suc n) vs))"

definition normalize_raw_entries :: "auth_env \<Rightarrow> json list \<Rightarrow> string \<Rightarrow> auth_error + credential list" where
  "normalize_raw_entries env vs prefix =
     (case normalize_values env prefix 0 vs of
        Inl err \<Rightarrow> Inl err
      | Inr [] \<Rightarrow> Inl (AuNoEntries [])
      | Inr cs \<Rightarrow> Inr cs)"

definition unmarshal_values :: "json \<Rightarrow> json list option" where
  "unmarshal_values v = (case v of JArr vs \<Rightarrow> Some vs | JNull \<Rightarrow> Some [] | _ \<Rightarrow> None)"

fun parse_members ::
  "auth_env \<Rightarrow> (string \<times> json) list \<Rightarrow> (string, nat) gomap \<Rightarrow> credential list \<Rightarrow> import_warning list
   \<Rightarrow> auth_error + credential list \<times> import_warning list" where
  "parse_members env [] occ out ws = Inr (out, ws)"
| "parse_members env ((name, v) # ms) occ out ws =
     (let n = Suc (gm_default 0 occ name); occ' = gm_put name n occ;
          source = (if n > 1 then name @ ''#entry'' @ show_int (int n) else name) in
      if name = ''accounts'' \<or> name = ''credentials'' then
        case unmarshal_values v of
          None \<Rightarrow> Inl (AuNotArray name)
        | Some vs \<Rightarrow>
            (case normalize_raw_entries env vs source of
               Inl err \<Rightarrow> Inl err
             | Inr cs \<Rightarrow> parse_members env ms occ' (out @ cs) ws)
      else case v of
        JObj inner \<Rightarrow>
          (case decode_entry source v of
             Inl err \<Rightarrow> Inl err
           | Inr (e, ews) \<Rightarrow>
               if \<not> entry_has_token e
               then parse_members env ms occ' out (ws @ [unsupported_field_warning ''document'' name])
               else case accept_entry env source e ews of
                 Inl err \<Rightarrow> Inl err
               | Inr c \<Rightarrow> parse_members env ms occ' (out @ [c]) ws)
      | _ \<Rightarrow> parse_members env ms occ' out (ws @ [unsupported_field_warning ''document'' name]))"

definition parse_object :: "auth_env \<Rightarrow> (string \<times> json) list \<Rightarrow> auth_error + credential list \<times> import_warning list" where
  "parse_object env ms =
     (case decode_entry ''default'' (JObj ms) of
        Inl err \<Rightarrow> Inl err
      | Inr (bare, bare_warnings) \<Rightarrow>
          if entry_has_token bare then map_sum id (\<lambda>c. ([c], [])) (accept_entry env ''default'' bare bare_warnings)
          else case parse_members env ms [] [] [] of
            Inl err \<Rightarrow> Inl err
          | Inr ([], ws) \<Rightarrow> Inl (AuNoEntries (map (\<lambda>(s, f, m). f) ws))
          | Inr (out, ws) \<Rightarrow> Inr (out, ws))"

definition parse_document :: "auth_env \<Rightarrow> json \<Rightarrow> auth_error + credential list \<times> import_warning list" where
  "parse_document env v =
     (case v of
        JArr vs \<Rightarrow> map_sum id (\<lambda>cs. (cs, [])) (normalize_raw_entries env vs ''entry'')
      | JObj ms \<Rightarrow> parse_object env ms
      | _ \<Rightarrow> Inl AuShape)"

text \<open>Several documents are merged when each is valid; the source keys are prefixed by the document.\<close>

definition rename_source :: "nat \<Rightarrow> credential \<Rightarrow> credential" where
  "rename_source i c =
     c\<lparr>ic_source_key := (if ic_source_key c = ''default'' then ''doc'' @ show_int (int i)
                        else ''doc'' @ show_int (int i) @ '':'' @ ic_source_key c)\<rparr>"

fun parse_documents :: "auth_env \<Rightarrow> nat \<Rightarrow> json list \<Rightarrow> credential list option" where
  "parse_documents env i [] = Some []"
| "parse_documents env i (d # ds) =
     (case parse_document env d of
        Inl err \<Rightarrow> None
      | Inr (cs, ws) \<Rightarrow> map_option (\<lambda>rest. map (rename_source i) cs @ rest) (parse_documents env (Suc i) ds))"

text \<open>A stream of several values, or one that breaks off, fails as a whole when it is not a valid multi-document.\<close>

definition parse_auth :: "auth_env \<Rightarrow> string \<Rightarrow> auth_error + credential list \<times> import_warning list" where
  "parse_auth env data0 =
     (let data = trim_space data0 in
      if data = [] then Inl AuEmpty
      else if snd (au_docs env data) then Inl AuSyntax
      else case fst (au_docs env data) of
        [d] \<Rightarrow> parse_document env d
      | docs \<Rightarrow>
          (case parse_documents env 0 docs of
             None \<Rightarrow> Inl AuSyntax
           | Some [] \<Rightarrow> Inl AuSyntax
           | Some cs \<Rightarrow> Inr (cs, [])))"

section \<open>Counting before parsing\<close>

text \<open>
  \<open>rawEntryHasToken\<close> decodes into a struct of the three token fields: \<open>encoding/json\<close> also takes a name that
  differs in case only, a later member overwrites, null leaves the field, and another type is an error.
\<close>

definition token_fields :: "string list" where "token_fields = [''key'', ''access_token'', ''refresh_token'']"

fun raw_fields :: "(string \<times> json) list \<Rightarrow> (string, string) gomap \<Rightarrow> (string, string) gomap option" where
  "raw_fields [] fs = Some fs"
| "raw_fields ((k, v) # ms) fs =
     (if to_lower k \<in> set token_fields
      then case v of JStr s \<Rightarrow> raw_fields ms (gm_put (to_lower k) s fs) | JNull \<Rightarrow> raw_fields ms fs | _ \<Rightarrow> None
      else raw_fields ms fs)"

definition raw_entry_has_token :: "(string \<times> json) list \<Rightarrow> bool" where
  "raw_entry_has_token ms =
     (case raw_fields ms [] of
        None \<Rightarrow> False
      | Some fs \<Rightarrow> \<exists>k\<in>set token_fields. trim_space (gm_default [] fs k) \<noteq> [])"

text \<open>\<open>countTopLevelArray\<close> and \<open>countArrayFromDecoder\<close>.\<close>

fun count_values :: "int \<Rightarrow> int \<Rightarrow> json list \<Rightarrow> int" where
  "count_values limit n [] = n"
| "count_values limit n (v # vs) = (if 0 < limit \<and> limit \<le> n then limit + 1 else count_values limit (n + 1) vs)"

fun count_nested :: "int \<Rightarrow> int \<Rightarrow> json list \<Rightarrow> int option" where
  "count_nested remaining n [] = Some n"
| "count_nested remaining n (v # vs) =
     (if 0 \<le> remaining \<and> remaining \<le> n then None else count_nested remaining (n + 1) vs)"

fun count_map :: "int \<Rightarrow> int \<Rightarrow> int \<Rightarrow> (string \<times> json) list \<Rightarrow> auth_error + int" where
  "count_map limit members n [] = Inr n"
| "count_map limit members n ((name, v) # ms) =
     (if 0 < limit \<and> limit + int max_import_warnings < members + 1 then Inr (limit + 1)
      else if name = ''accounts'' \<or> name = ''credentials'' then
        case v of
          JArr vs \<Rightarrow>
            (case count_nested (limit - n) 0 vs of
               None \<Rightarrow> Inr (limit + 1)
             | Some k \<Rightarrow> count_map limit (members + 1) (n + k) ms)
        | _ \<Rightarrow> Inl (AuNotArray name)
      else case v of
        JObj inner \<Rightarrow>
          if raw_entry_has_token inner
          then if 0 < limit \<and> limit < n + 1 then Inr (limit + 1) else count_map limit (members + 1) (n + 1) ms
          else count_map limit (members + 1) n ms
      | _ \<Rightarrow> count_map limit (members + 1) n ms)"

definition count_document :: "int \<Rightarrow> json \<Rightarrow> auth_error + int" where
  "count_document limit v =
     (case v of
        JArr vs \<Rightarrow> Inr (count_values limit 0 vs)
      | JObj ms \<Rightarrow>
          (case decode_entry ''default'' v of
             Inl err \<Rightarrow> Inl err
           | Inr (e, ws) \<Rightarrow> if entry_has_token e then Inr 1 else count_map limit 0 0 ms)
      | _ \<Rightarrow> Inl AuShape)"

fun count_documents :: "int \<Rightarrow> int \<Rightarrow> json list \<Rightarrow> bool \<Rightarrow> auth_error + int" where
  "count_documents limit sofar [] broken = (if broken then Inl AuSyntax else Inr sofar)"
| "count_documents limit sofar (d # ds) broken =
     (if 0 < limit \<and> limit - sofar \<le> 0 then Inr (limit + 1)
      else case count_document (if 0 < limit then limit - sofar else 0) d of
        Inl err \<Rightarrow> Inl err
      | Inr n \<Rightarrow> if 0 < limit \<and> limit < sofar + n then Inr (limit + 1) else count_documents limit (sofar + n) ds broken)"

definition count_entries :: "auth_env \<Rightarrow> string \<Rightarrow> int \<Rightarrow> auth_error + int" where
  "count_entries env data0 limit =
     (let data = trim_space data0 in
      if data = [] then Inl AuEmpty
      else count_documents limit 0 (fst (au_docs env data)) (snd (au_docs env data)))"

definition parse_auth_limit :: "auth_env \<Rightarrow> string \<Rightarrow> int \<Rightarrow> auth_error + credential list \<times> import_warning list" where
  "parse_auth_limit env data max_entries =
     (if max_entries > 0
      then case count_entries env data max_entries of
        Inl err \<Rightarrow> Inl err
      | Inr n \<Rightarrow> if n > max_entries then Inl AuLimit else parse_auth env data
      else parse_auth env data)"

section \<open>Accounts\<close>

definition hex_string :: "nat list \<Rightarrow> string" where "hex_string bs = concat (map hex_byte bs)"

definition stable_identity ::
  "auth_env \<Rightarrow> string \<Rightarrow> string \<Rightarrow> string \<Rightarrow> string \<Rightarrow> string \<Rightarrow> string \<Rightarrow> string \<Rightarrow> string" where
  "stable_identity env issuer0 client0 user0 team0 email0 refresh access =
     (let issuer = to_lower (trim_right CHR ''/'' (trim_space issuer0)); client = to_lower (trim_space client0);
          user = trim_space user0; team = trim_space team0; email = to_lower (trim_space email0) in
      if user \<noteq> [] then ''oidc:'' @ issuer @ '':'' @ client @ '':'' @ user @ '':'' @ team
      else if email \<noteq> [] then ''email:'' @ issuer @ '':'' @ client @ '':'' @ email
      else if trim_space refresh \<noteq> [] then ''refresh:'' @ hex_string (au_sha env (trim_space refresh))
      else if trim_space access \<noteq> [] then ''access:'' @ hex_string (au_sha env (trim_space access))
      else [])"

definition account_id_from_identity :: "auth_env \<Rightarrow> string \<Rightarrow> string" where
  "account_id_from_identity env identity0 =
     (let identity = trim_space identity0 in
      if identity = [] then [] else ''acct-'' @ hex_string (take 12 (au_sha env identity)))"

text \<open>\<open>emailFromAccessToken\<close>: the payload of a JWT, padded for the first decoder.\<close>

definition email_from_payload :: "(string, json) gomap \<Rightarrow> string" where
  "email_from_payload m =
     (case json_get m ''email'' of
        JStr e \<Rightarrow> trim_space e
      | _ \<Rightarrow> (case json_get m ''preferred_username'' of
               JStr e \<Rightarrow> if str_contains e ''@'' then trim_space e else []
             | _ \<Rightarrow> []))"

definition email_from_access_token :: "auth_env \<Rightarrow> string \<Rightarrow> string" where
  "email_from_access_token env access =
     (case split_on CHR ''.'' access of
        h # p # rest \<Rightarrow>
          let k = length p mod 4; padded = (if k \<noteq> 0 then p @ replicate (4 - k) CHR ''='' else p) in
          (case (case au_base64 env True padded of Some raw \<Rightarrow> Some raw | None \<Rightarrow> au_base64 env False p) of
             None \<Rightarrow> []
           | Some raw \<Rightarrow>
               (case au_docs env raw of
                  ([JObj ms], False) \<Rightarrow> email_from_payload (rev ms)
                | _ \<Rightarrow> []))
      | _ \<Rightarrow> [])"

definition to_account :: "auth_env \<Rightarrow> credential \<Rightarrow> int \<Rightarrow> auth_error + account" where
  "to_account env c now =
     (let access = trim_space (ic_access_token c); refresh = trim_space (ic_refresh_token c);
          email = (if trim_space (ic_email c) = [] then email_from_access_token env access else ic_email c);
          identity = stable_identity env (ic_oidc_issuer c) (ic_oidc_client_id c) (ic_user_id c) (ic_team_id c) email refresh access;
          i = account_id_from_identity env identity in
      if access = [] then Inl (AuMissing ''access_token'')
      else if refresh = [] then Inl (AuMissing ''refresh_token'')
      else if i = [] then Inl (AuMissing ''id'')
      else Inr
        \<lparr>acc_id = i, acc_revision = 1, acc_identity_key = identity, acc_email = email,
         acc_name = first_text [email, ic_user_id c, ic_source_key c], acc_priority = 0, acc_enabled = \<not> ic_disabled c,
         acc_manual_disabled = False, acc_lifecycle = LifecycleActive, acc_access_token = access, acc_refresh_token = refresh,
         acc_expires_at = (if ic_expires_at c = zero_time then 0 else ic_expires_at c),
         acc_proxy_mode = (if trim_space (ic_proxy_url c) \<noteq> [] then ''url'' else []), acc_proxy_url = ic_proxy_url c,
         acc_failure_count = 0, acc_success_count = 0, acc_cooldown_until = 0, acc_last_error = [], acc_last_used_at = None,
         acc_last_success_at = None, acc_last_refresh_at = None, acc_consecutive_unauthorized = 0, acc_quarantine_fp = [],
         acc_purge_after = None, acc_billing_json = [], acc_created_at = now, acc_updated_at = now\<rparr>)"

section \<open>The limit of entries\<close>

text \<open>A member list without repeated names, and without names that differ from a token field in case only.\<close>

definition plain_members :: "(string \<times> json) list \<Rightarrow> bool" where
  "plain_members ms \<longleftrightarrow> distinct (map fst ms) \<and> (\<forall>k\<in>fst ` set ms. to_lower k \<in> set token_fields \<longrightarrow> k \<in> set token_fields)"

fun plain_document :: "json \<Rightarrow> bool" where
  "plain_document (JObj ms) = (\<forall>(k, v)\<in>set ms. case v of JObj inner \<Rightarrow> plain_members inner | _ \<Rightarrow> True)"
| "plain_document v = True"

lemma lower_token_fields: "k \<in> set token_fields \<Longrightarrow> to_lower k = k"
proof -
  have "list_all (\<lambda>k. to_lower k = k) token_fields" by code_simp
  then show "k \<in> set token_fields \<Longrightarrow> to_lower k = k" by (simp add: list_all_iff)
qed

lemma plain_text: "distinct (map fst ms) \<Longrightarrow> map_of (rev ms) = map_of ms"
  by (rule map_of_inject_set [THEN iffD2]) (auto simp: rev_map [symmetric])

lemma entry_text_Cons:
  assumes "distinct (map fst ((k, v) # ms))"
  shows "entry_text ((k, v) # ms) j = (if j = k then entry_text [(k, v)] k else entry_text ms j)"
  using plain_text [OF assms] plain_text [of ms] assms unfolding entry_text_def by simp

definition text_value :: "json option \<Rightarrow> string \<Rightarrow> string" where
  "text_value v d = (case v of Some (JStr s) \<Rightarrow> s | _ \<Rightarrow> d)"

lemma entry_text_value: "distinct (map fst ms) \<Longrightarrow> entry_text ms k = Some s \<Longrightarrow> s = text_value (map_of ms k) []"
  by (cases "map_of ms k") (auto simp: entry_text_def plain_text text_value_def simp del: map_of_eq_None_iff split: json.splits)

lemma raw_fields_exact:
  assumes "plain_members ms" "\<forall>k\<in>set token_fields. entry_text ms k \<noteq> None"
  shows "\<exists>fs'. raw_fields ms fs = Some fs' \<and>
    (\<forall>k\<in>set token_fields. gm_default [] fs' k = text_value (map_of ms k) (gm_default [] fs k))"
  using assms
proof (induction ms arbitrary: fs)
  case (Cons m ms)
  obtain k v where m: "m = (k, v)" by fastforce
  have d: "k \<notin> fst ` set ms" "plain_members ms" "distinct (map fst ((k, v) # ms))"
    using Cons.prems(1) by (auto simp: plain_members_def m)
  have none: "map_of ms k = None" using d(1) by (simp add: map_of_eq_None_iff)
  have t: "\<forall>j\<in>set token_fields. entry_text ms j \<noteq> None"
  proof
    fix j assume j: "j \<in> set token_fields"
    have "entry_text ms k = Some []" using none plain_text [of ms] d(3) by (simp add: entry_text_def)
    then show "entry_text ms j \<noteq> None"
      using Cons.prems(2) [rule_format, OF j] by (cases "j = k") (simp_all add: m entry_text_Cons [OF d(3)])
  qed
  show ?case
  proof (cases "to_lower k \<in> set token_fields")
    case False
    then have "k \<notin> set token_fields" using lower_token_fields by metis
    then show ?thesis using Cons.IH [OF d(2) t, of fs] False by (auto simp: m)
  next
    case True
    then have k: "k \<in> set token_fields" using Cons.prems(1) by (auto simp: plain_members_def m)
    have "entry_text [(k, v)] k \<noteq> None"
      using Cons.prems(2) [rule_format, OF k] entry_text_Cons [OF d(3), of k] by (simp add: m)
    then have v: "v = JNull \<or> (\<exists>s. v = JStr s)" unfolding entry_text_def by (auto split: json.splits)
    show ?thesis
    proof (cases "v = JNull")
      case True
      then show ?thesis using Cons.IH [OF d(2) t, of fs] \<open>to_lower k \<in> set token_fields\<close> none
        by (auto simp: m text_value_def)
    next
      case False
      then obtain s where s: "v = JStr s" using v by blast
      have r: "raw_fields (m # ms) fs = raw_fields ms (gm_put k s fs)" using s k by (simp add: m lower_token_fields)
      obtain fs' where "raw_fields ms (gm_put k s fs) = Some fs'"
        "\<forall>j\<in>set token_fields. gm_default [] fs' j = text_value (map_of ms j) (gm_default [] (gm_put k s fs) j)"
        using Cons.IH [OF d(2) t, of "gm_put k s fs"] by blast
      then show ?thesis using none s unfolding r by (auto simp: m text_value_def)
    qed
  qed
qed (simp add: text_value_def)

lemma counted_entry:
  assumes "plain_members ms" "decode_entry source (JObj ms) = Inr (e, ws)" "entry_has_token e"
  shows "raw_entry_has_token ms"
proof -
  have ok: "\<forall>k\<in>set known_text_fields. entry_text ms k \<noteq> None" and e: "e = build_entry ms"
    using assms(2) by (auto simp: decode_entry_def split: if_splits)
  have "set token_fields \<subseteq> set known_text_fields" by (simp add: token_fields_def known_text_fields_def)
  then have t: "\<forall>k\<in>set token_fields. entry_text ms k \<noteq> None" using ok by blast
  have d: "distinct (map fst ms)" using assms(1) by (simp add: plain_members_def)
  obtain fs where fs: "raw_fields ms [] = Some fs"
    "\<forall>k\<in>set token_fields. gm_default [] fs k = text_value (map_of ms k) (gm_default [] [] k)"
    using raw_fields_exact [OF assms(1) t, of "[]"] by blast
  have same: "(case entry_text ms k of Some s \<Rightarrow> s | None \<Rightarrow> []) = gm_default [] fs k" if k: "k \<in> set token_fields" for k
  proof -
    obtain s where "entry_text ms k = Some s" using t k by auto
    then show ?thesis using entry_text_value [OF d, of k s] fs(2) k by simp
  qed
  have "\<exists>k\<in>set token_fields. trim_space (case entry_text ms k of Some s \<Rightarrow> s | None \<Rightarrow> []) \<noteq> []"
    using assms(3) by (auto simp: e entry_has_token_def build_entry_def Let_def token_fields_def)
  then obtain k where "k \<in> set token_fields" "trim_space (gm_default [] fs k) \<noteq> []" using same by auto
  then show ?thesis using fs(1) by (auto simp: raw_entry_has_token_def)
qed

lemma count_values_exact: "0 < limit \<Longrightarrow> count_values limit n vs = k \<Longrightarrow> k \<le> limit \<Longrightarrow> k = n + int (length vs)"
  by (induction limit n vs arbitrary: k rule: count_values.induct) (auto split: if_splits)

lemma count_nested_exact: "count_nested r n vs = Some k \<Longrightarrow> k = n + int (length vs)"
  by (induction r n vs rule: count_nested.induct) (auto split: if_splits)

lemma map_sum_Inr: "map_sum f g x = Inr y \<longleftrightarrow> (\<exists>z. x = Inr z \<and> y = g z)"
  by (cases x) auto

lemma normalize_values_length: "normalize_values env prefix n vs = Inr cs \<Longrightarrow> length cs = length vs"
proof (induction vs arbitrary: n cs)
  case (Cons v vs)
  then show ?case by (auto simp: Let_def map_sum_Inr split: sum.splits prod.splits if_splits)
qed simp

lemma normalize_raw_length: "normalize_raw_entries env vs prefix = Inr cs \<Longrightarrow> length cs = length vs"
  by (auto simp: normalize_raw_entries_def dest: normalize_values_length split: sum.splits list.splits)

lemma count_map_covers:
  assumes "count_map limit members n ms = Inr k" "k \<le> limit" "0 < limit" "plain_document (JObj ms)"
    "parse_members env ms occ out ws = Inr (cs, ws')"
  shows "int (length cs) - int (length out) \<le> k - n"
  using assms
proof (induction ms arbitrary: members n occ out ws)
  case (Cons m ms)
  obtain name v where m: "m = (name, v)" by fastforce
  let ?occ = "gm_put name (Suc (gm_default 0 occ name)) occ"
  note count = Cons.prems(1) [unfolded m] and parse = Cons.prems(5) [unfolded m]
  have pl: "plain_document (JObj ms)" using Cons.prems(4) by simp
  have few: "\<not> limit + int max_import_warnings < members + 1" using count Cons.prems(2,3) by (auto split: if_splits)
  note IH = Cons.IH [OF _ Cons.prems(2,3) pl]
  show ?case
  proof (cases "name = ''accounts'' \<or> name = ''credentials''")
    case True
    obtain vs where v: "v = JArr vs" using count few True by (cases v) auto
    obtain j where j: "count_nested (limit - n) 0 vs = Some j" and c: "count_map limit (members + 1) (n + j) ms = Inr k"
      using count Cons.prems(2) few True v by (auto split: option.splits)
    obtain src new where new: "normalize_raw_entries env vs src = Inr new" "parse_members env ms ?occ (out @ new) ws = Inr (cs, ws')"
      using parse True v by (auto simp: Let_def unmarshal_values_def split: sum.splits)
    show ?thesis using IH [OF c new(2)] count_nested_exact [OF j] normalize_raw_length [OF new(1)] by simp
  next
    case False
    have one: "n' \<le> n + 1 \<Longrightarrow> count_map limit (members + 1) n' ms = Inr k \<Longrightarrow> parse_members env ms ?occ out' ws2 = Inr (cs, ws') \<Longrightarrow>
      length out' \<le> length out + nat (n' - n) \<Longrightarrow> n \<le> n' \<Longrightarrow> ?thesis" for n' out' ws2
      using IH [of "members + 1" n' ?occ out' ws2] by linarith
    show ?thesis
    proof (cases "\<exists>inner. v = JObj inner")
      case True
      then obtain inner where v: "v = JObj inner" by blast
      obtain src e ews where e: "decode_entry src v = Inr (e, ews)" using parse False v by (auto simp: Let_def split: sum.splits)
      show ?thesis
      proof (cases "raw_entry_has_token inner")
        case True
        then have c: "count_map limit (members + 1) (n + 1) ms = Inr k" using count Cons.prems(2,3) few False v by (auto split: if_splits)
        obtain out' ws2 where p: "parse_members env ms ?occ out' ws2 = Inr (cs, ws')" "length out' \<le> length out + 1"
          using parse False v by (fastforce simp: Let_def split: sum.splits if_splits)
        show ?thesis by (rule one [OF _ c p(1)]) (use p(2) in simp_all)
      next
        case no: False
        then have c: "count_map limit (members + 1) n ms = Inr k" using count few False v by simp
        have "plain_members inner" using Cons.prems(4) m v by simp
        then have "\<not> entry_has_token e'" if "decode_entry s v = Inr (e', w)" for s e' w
          using counted_entry [of inner s e' w] that no v by blast
        then obtain ws2 where p: "parse_members env ms ?occ out ws2 = Inr (cs, ws')"
          using parse False v by (auto simp: Let_def split: sum.splits if_splits)
        show ?thesis by (rule one [OF _ c p]) simp_all
      qed
    next
      case no: False
      then have c: "count_map limit (members + 1) n ms = Inr k" using count few False by (cases v) auto
      obtain ws2 where p: "parse_members env ms ?occ out ws2 = Inr (cs, ws')"
        using parse no False by (cases v) (auto simp: Let_def)
      show ?thesis by (rule one [OF _ c p]) simp_all
    qed
  qed
qed simp

lemma count_document_covers:
  assumes "count_document limit d = Inr k" "k \<le> limit" "0 < limit" "plain_document d" "parse_document env d = Inr (cs, ws)"
  shows "int (length cs) \<le> k"
proof (cases d)
  case (JArr vs)
  have "int (length cs) = int (length vs)"
    using assms(5) normalize_raw_length [of env vs "''entry''" cs] by (auto simp: JArr parse_document_def map_sum_Inr)
  moreover have "count_values limit 0 vs = k" using assms(1) by (simp add: JArr count_document_def)
  ultimately show ?thesis using count_values_exact [OF assms(3) _ assms(2), of 0 vs] by simp
next
  case (JObj ms)
  obtain e w where e: "decode_entry ''default'' (JObj ms) = Inr (e, w)"
    using assms(1) by (auto simp: JObj count_document_def split: sum.splits)
  show ?thesis
  proof (cases "entry_has_token e")
    case True
    then show ?thesis using e assms(1,5) by (auto simp: JObj count_document_def parse_document_def parse_object_def map_sum_Inr)
  next
    case False
    then have c: "count_map limit 0 0 ms = Inr k" using e assms(1) by (simp add: JObj count_document_def)
    obtain ws' where "parse_members env ms [] [] [] = Inr (cs, ws')"
      using e False assms(5) by (auto simp: JObj parse_document_def parse_object_def split: sum.splits list.splits)
    from count_map_covers [OF c assms(2,3) assms(4) [unfolded JObj] this] show ?thesis by simp
  qed
qed (use assms(1) in \<open>simp_all add: count_document_def\<close>)

lemma count_documents_covers:
  assumes "count_documents limit n ds broken = Inr k" "k \<le> limit" "0 < limit" "list_all plain_document ds"
    "parse_documents env i ds = Some cs"
  shows "int (length cs) \<le> k - n \<and> \<not> broken"
  using assms
proof (induction ds arbitrary: n i cs)
  case (Cons d ds)
  have room: "0 < limit - n" using Cons.prems(1-3) by (auto split: if_splits)
  obtain j where j: "count_document (limit - n) d = Inr j" "j \<le> limit - n" "count_documents limit (n + j) ds broken = Inr k"
    using Cons.prems(1-3) room by (auto split: sum.splits if_splits)
  obtain cs1 ws rest where p: "parse_document env d = Inr (cs1, ws)" "parse_documents env (Suc i) ds = Some rest"
    "cs = map (rename_source i) cs1 @ rest"
    using Cons.prems(5) by (auto split: sum.splits)
  have "int (length cs1) \<le> j" using count_document_covers [OF j(1,2) room _ p(1)] Cons.prems(4) by simp
  then show ?case using Cons.IH [OF j(3) Cons.prems(2,3) _ p(2)] Cons.prems(4) p(3) by simp
qed (auto split: if_splits)


section \<open>Identities\<close>

lemma go_spaces_hidden: "list_all (list_all (\<lambda>c. \<not> visible_char c)) go_spaces"
  by code_simp

lemma trim_space_framed:
  assumes "visible_char c" "visible_char d" "trim_space t = t"
  shows "trim_space (c # s @ d # t) = c # s @ d # t"
proof -
  let ?R = "map rev go_spaces" and ?x = "c # s @ d # t"
  have hidden: "\<not> visible_char x" if "w \<in> set go_spaces" "x \<in> set w" for w x
    using that go_spaces_hidden by (auto simp: list_all_iff)
  have "leading go_spaces ?x = None"
    by (rule leading_hd) (use hidden assms(1) in \<open>metis hd_in_set list.sel(1)\<close>)
  then have l: "trim_with go_spaces ?x = ?x" by (rule trim_with_none)
  have t: "leading ?R (rev t) = None"
    using assms(3) trim_with_leading [of ?R "rev (trim_with go_spaces t)"] unfolding trim_space_def by (metis rev_swap)
  have "leading ?R (rev t @ d # rev s @ [c]) = None"
  proof (rule ccontr)
    assume "leading ?R (rev t @ d # rev s @ [c]) \<noteq> None"
    then obtain w where w: "w \<in> set ?R" "w \<noteq> []" "take (length w) (rev t @ d # rev s @ [c]) = w"
      by (auto simp: leading_def find_None_iff simp del: set_map)
    show False
    proof (cases "length w \<le> length t")
      case True
      then have "take (length w) (rev t) = w" using w(3) by simp
      then show False using t w(1,2) by (auto simp: leading_def find_None_iff simp del: set_map)
    next
      case False
      then obtain k where "length w - length t = Suc k" by (metis Suc_diff_Suc not_le)
      then have "w = rev t @ d # take k (rev s @ [c])" using w(3) False by simp
      then have "d \<in> set w" by simp
      then show False using w(1) hidden assms(2) by auto
    qed
  qed
  then show ?thesis by (simp add: trim_space_def l trim_with_none)
qed

lemma hex_byte_inj:
  assumes "a < 256" "b < 256" "hex_byte a = hex_byte b"
  shows "a = b"
proof -
  have d: "distinct ''0123456789abcdef''" by code_simp
  have "j = k" if "''0123456789abcdef'' ! j = ''0123456789abcdef'' ! k" "j < 16" "k < 16" for j k
    using nth_eq_iff_index_eq [OF d, of j k] that by simp
  then have "a div 16 mod 16 = b div 16 mod 16" "a mod 16 = b mod 16"
    using assms(3) by (simp_all add: hex_byte_def)
  moreover have "a div 16 mod 16 = a div 16" "b div 16 mod 16 = b div 16" using assms(1,2) by simp_all
  ultimately show ?thesis by (metis div_mult_mod_eq)
qed

lemma hex_string_inj:
  "hex_string xs = hex_string ys \<Longrightarrow> \<forall>b\<in>set xs \<union> set ys. b < 256 \<Longrightarrow> xs = ys"
proof (induction xs arbitrary: ys)
  case Nil
  then show ?case by (cases ys) (simp_all add: hex_string_def hex_byte_def)
next
  case (Cons x xs)
  then obtain y ys' where ys: "ys = y # ys'" by (cases ys) (simp_all add: hex_string_def hex_byte_def)
  have "hex_byte x = hex_byte y" "hex_string xs = hex_string ys'"
    using Cons.prems(1) by (auto simp: ys hex_string_def hex_byte_def)
  then show ?case using Cons.IH [of ys'] Cons.prems(2) hex_byte_inj [of x y] by (auto simp: ys)
qed

lemma split_colon:
  assumes "a @ CHR '':'' # b = a' @ CHR '':'' # b'" "CHR '':'' \<notin> set a" "CHR '':'' \<notin> set a'"
  shows "a = a' \<and> b = b'"
  using assms by (induction a arbitrary: a') (auto simp: Cons_eq_append_conv append_eq_Cons_conv)

text \<open>The identity of a credential that names its user.\<close>

lemma to_account_identity:
  assumes "to_account env c now = Inr a" "trim_space (ic_user_id c) \<noteq> []"
  shows "acc_identity_key a = ''oidc:'' @ to_lower (trim_right CHR ''/'' (trim_space (ic_oidc_issuer c))) @ '':'' @
      to_lower (trim_space (ic_oidc_client_id c)) @ '':'' @ trim_space (ic_user_id c) @ '':'' @ trim_space (ic_team_id c)"
    "acc_id a = ''acct-'' @ hex_string (take 12 (au_sha env (acc_identity_key a)))"
    "validate_account_for_upsert a = None"
proof -
  show i: "acc_identity_key a = ''oidc:'' @ to_lower (trim_right CHR ''/'' (trim_space (ic_oidc_issuer c))) @ '':'' @
      to_lower (trim_space (ic_oidc_client_id c)) @ '':'' @ trim_space (ic_user_id c) @ '':'' @ trim_space (ic_team_id c)"
    using assms by (auto simp: to_account_def Let_def stable_identity_def split: if_splits)
  have v: "visible_char CHR ''o''" "visible_char CHR '':''" by code_simp+
  have "acc_identity_key a = CHR ''o'' # (''idc:'' @ to_lower (trim_right CHR ''/'' (trim_space (ic_oidc_issuer c))) @ '':'' @
      to_lower (trim_space (ic_oidc_client_id c)) @ '':'' @ trim_space (ic_user_id c)) @ CHR '':'' # trim_space (ic_team_id c)"
    unfolding i by simp
  then have "trim_space (acc_identity_key a) = acc_identity_key a"
    using trim_space_framed [OF v trim_space_idem] by metis
  then show "acc_id a = ''acct-'' @ hex_string (take 12 (au_sha env (acc_identity_key a)))"
    using assms(1) by (auto simp: to_account_def Let_def account_id_from_identity_def split: if_splits)
  show "validate_account_for_upsert a = None"
    using assms(1) by (auto simp: to_account_def Let_def validate_account_for_upsert_def split: if_splits)
qed

text \<open>
  The account of a credential is the account of its user. Two credentials of one issuer that name their users give
  accounts with the same id exactly if client, user and team are the same, the client in any case; tokens, e-mail, expiry and the
  time of the import do not matter. So a later export of the same user updates the row of the first, and one
  user's credential never overwrites the row of another. Client and user are taken to
  contain no colon, and SHA-256 not to collide on the two identities.
\<close>

theorem account_id_of_user:
  assumes "to_account env c now = Inr a" "to_account env c' now' = Inr a'"
    and "trim_space (ic_user_id c) \<noteq> []" "trim_space (ic_user_id c') \<noteq> []" "ic_oidc_issuer c = ic_oidc_issuer c'"
    and "CHR '':'' \<notin> set (to_lower (trim_space (ic_oidc_client_id c))) \<union> set (to_lower (trim_space (ic_oidc_client_id c'))) \<union>
      set (trim_space (ic_user_id c)) \<union> set (trim_space (ic_user_id c'))"
    and "\<And>s. set (au_sha env s) \<subseteq> {..<256}"
    and "take 12 (au_sha env (acc_identity_key a)) = take 12 (au_sha env (acc_identity_key a')) \<Longrightarrow> acc_identity_key a = acc_identity_key a'"
  shows "acc_id a = acc_id a' \<longleftrightarrow>
    to_lower (trim_space (ic_oidc_client_id c)) = to_lower (trim_space (ic_oidc_client_id c')) \<and>
    trim_space (ic_user_id c) = trim_space (ic_user_id c') \<and> trim_space (ic_team_id c) = trim_space (ic_team_id c')"
proof -
  note i = to_account_identity [OF assms(1,3)] and i' = to_account_identity [OF assms(2,4)]
  have "acc_id a = acc_id a' \<longleftrightarrow> acc_identity_key a = acc_identity_key a'"
  proof
    assume "acc_id a = acc_id a'"
    then have "hex_string (take 12 (au_sha env (acc_identity_key a))) = hex_string (take 12 (au_sha env (acc_identity_key a')))"
      using i(2) i'(2) by simp
    moreover have "\<forall>b \<in> set (take 12 (au_sha env (acc_identity_key a))) \<union> set (take 12 (au_sha env (acc_identity_key a'))). b < 256"
      using assms(7) by (auto dest!: in_set_takeD)
    ultimately show "acc_identity_key a = acc_identity_key a'" using hex_string_inj assms(8) by blast
  qed (simp add: i(2) i'(2))
  also have "\<dots> \<longleftrightarrow> to_lower (trim_space (ic_oidc_client_id c)) = to_lower (trim_space (ic_oidc_client_id c')) \<and>
      trim_space (ic_user_id c) = trim_space (ic_user_id c') \<and> trim_space (ic_team_id c) = trim_space (ic_team_id c')"
    (is "_ \<longleftrightarrow> ?same")
  proof
    assume "acc_identity_key a = acc_identity_key a'"
    then have "to_lower (trim_space (ic_oidc_client_id c)) @ CHR '':'' # trim_space (ic_user_id c) @ CHR '':'' # trim_space (ic_team_id c) =
        to_lower (trim_space (ic_oidc_client_id c')) @ CHR '':'' # trim_space (ic_user_id c') @ CHR '':'' # trim_space (ic_team_id c')"
      unfolding i(1) i'(1) by (simp add: assms(5))
    then show ?same using split_colon assms(6) by (metis UnCI)
  qed (simp add: i(1) i'(1) assms(5))
  finally show ?thesis .
qed

section \<open>Examples\<close>

text \<open>Files are named by a word; the digest is a stand-in of twelve bytes that keeps short texts apart.\<close>

definition sample_docs :: "(string \<times> json list) list" where
  "sample_docs =
     [(''two'', [JArr [JObj [(''key'', JStr ''a''), (''refresh_token'', JStr ''r''), (''user_id'', JStr ''u'')],
                      JObj [(''access_token'', JStr ''b''), (''refresh_token'', JStr ''s''), (''user_id'', JStr ''u'')]]]),
      (''map'', [JObj [(''x'', JObj [(''key'', JStr ''a'')]), (''y'', JObj [(''key'', JStr ''b'')]), (''n'', JNum ''1'')]]),
      (''trick'', [JObj [(''x'', JObj [(''Key'', JNum ''0''), (''key'', JStr ''a'')]), (''y'', JObj [(''Key'', JNum ''0''), (''key'', JStr ''b'')])]])]"

definition sample_auth_env :: auth_env where
  "sample_auth_env =
     \<lparr>au_docs = (\<lambda>s. (gm_default [] sample_docs s, False)), au_layout = (\<lambda>l s. None),
      au_url = (\<lambda>s. Some \<lparr>up_scheme = ''https'', up_hostname = ''auth.x.ai'', up_port = [], up_user = False, up_path = [],
                          up_query = [], up_fragment = []\<rparr>),
      au_sha = (\<lambda>s. map of_char (take 12 (rev s))), au_base64 = (\<lambda>b s. None)\<rparr>"

definition parsed :: "string \<Rightarrow> int \<Rightarrow> credential list" where
  "parsed name limit = (case parse_auth_limit sample_auth_env name limit of Inl e \<Rightarrow> [] | Inr (cs, ws) \<Rightarrow> cs)"

lemma sample_map: "\<exists>cs ws. parse_auth_limit sample_auth_env ''map'' 2 = Inr (cs, ws) \<and> length cs = 2 \<and> length ws = 1"
proof -
  have "(case parse_auth_limit sample_auth_env ''map'' 2 of Inl e \<Rightarrow> False | Inr (cs, ws) \<Rightarrow> length cs = 2 \<and> length ws = 1)"
    by code_simp
  then show ?thesis by (auto split: sum.splits prod.splits)
qed


text \<open>
  Why the objects have to be plain: a field \<open>Key\<close> that is no string makes the count skip an entry that the parser
  takes, so two credentials pass a limit of one.
\<close>

lemma limit_bypassed: "length (parsed ''trick'' 1) = 2"
  by code_simp

definition sample_credential :: "nat \<Rightarrow> credential" where
  "sample_credential k = parsed ''two'' 0 ! k"

definition sample_imported :: "nat \<Rightarrow> account" where
  "sample_imported k = (case to_account sample_auth_env (sample_credential k) 5 of Inr a \<Rightarrow> a | Inl e \<Rightarrow> undefined)"

lemma sample_to_account:
  "to_account sample_auth_env (sample_credential 0) 5 = Inr (sample_imported 0)"
  "to_account sample_auth_env (sample_credential 1) 5 = Inr (sample_imported 1)"
  by code_simp+

theorem account_id_of_user_witness:
  "acc_id (sample_imported 0) = acc_id (sample_imported 1) \<and>
   acc_access_token (sample_imported 0) = ''a'' \<and> acc_access_token (sample_imported 1) = ''b''"
proof -
  have f: "trim_space (ic_user_id (sample_credential 0)) = ''u''" "trim_space (ic_user_id (sample_credential 1)) = ''u''"
    "trim_space (ic_team_id (sample_credential 0)) = trim_space (ic_team_id (sample_credential 1))"
    "ic_oidc_issuer (sample_credential 0) = ic_oidc_issuer (sample_credential 1)"
    "to_lower (trim_space (ic_oidc_client_id (sample_credential 0))) = default_client_id"
    "to_lower (trim_space (ic_oidc_client_id (sample_credential 1))) = default_client_id"
    "CHR '':'' \<notin> set default_client_id" "acc_identity_key (sample_imported 0) = acc_identity_key (sample_imported 1)"
    by code_simp+
  have "set (au_sha sample_auth_env t) \<subseteq> {..<256}" for t by (auto simp: sample_auth_env_def)
  then have "acc_id (sample_imported 0) = acc_id (sample_imported 1)"
    using account_id_of_user [OF sample_to_account] f by simp
  moreover have "acc_access_token (sample_imported 0) = ''a'' \<and> acc_access_token (sample_imported 1) = ''b''"
    by code_simp
  ultimately show ?thesis by simp
qed

end
