(* ===== verification/Paths.thy ===== *)
theory Paths
  imports Json
begin

text \<open>
  Slash-separated paths as package \<open>path/filepath\<close> treats them, lexically: \<open>Clean\<close>, \<open>Join\<close>, \<open>Dir\<close>, \<open>Base\<close>, \<open>Ext\<close> and
  \<open>Rel\<close>. Symbolic links and the file system are parameters where they matter.
\<close>

abbreviation slash :: char where "slash \<equiv> CHR ''/''"

fun join_path :: "string list \<Rightarrow> string" where
  "join_path [] = []"
| "join_path [p] = p"
| "join_path (p # ps) = p @ slash # join_path ps"

text \<open>The elements that stay, last first; \<open>..\<close> at the root goes away.\<close>

fun clean_parts :: "bool \<Rightarrow> string list \<Rightarrow> string list \<Rightarrow> string list" where
  "clean_parts rooted acc [] = acc"
| "clean_parts rooted acc (p # ps) =
     (if p = [] \<or> p = ''.'' then clean_parts rooted acc ps
      else if p = ''..'' then
        (if acc \<noteq> [] \<and> hd acc \<noteq> ''..'' then clean_parts rooted (tl acc) ps
         else if rooted then clean_parts rooted acc ps
         else clean_parts rooted (p # acc) ps)
      else clean_parts rooted (p # acc) ps)"

definition is_abs :: "string \<Rightarrow> bool" where "is_abs p = has_prefix p ''/''"

definition path_parts :: "string \<Rightarrow> string list" where
  "path_parts p = rev (clean_parts (is_abs p) [] (split_on slash p))"

definition path_clean :: "string \<Rightarrow> string" where
  "path_clean p =
     (if is_abs p then slash # join_path (path_parts p)
      else if path_parts p = [] then ''.'' else join_path (path_parts p))"

definition path_join :: "string \<Rightarrow> string \<Rightarrow> string" where
  "path_join a b =
     (if a = [] \<and> b = [] then [] else path_clean (join_path (filter (\<lambda>p. p \<noteq> []) [a, b])))"

text \<open>The path up to its last slash, that included, and after it.\<close>

definition after_slash :: "string \<Rightarrow> string" where
  "after_slash p = rev (takeWhile (\<lambda>c. c \<noteq> slash) (rev p))"

definition path_dir :: "string \<Rightarrow> string" where
  "path_dir p = path_clean (take (length p - length (after_slash p)) p)"

definition path_base :: "string \<Rightarrow> string" where
  "path_base p =
     (if p = [] then ''.''
      else let b = after_slash (trim_right slash p) in if b = [] then ''/'' else b)"

definition path_ext :: "string \<Rightarrow> string" where
  "path_ext p =
     (let b = after_slash p; e = rev (takeWhile (\<lambda>c. c \<noteq> CHR ''.'') (rev b)) in
      if CHR ''.'' \<in> set b then CHR ''.'' # e else [])"

fun drop_common :: "string list \<Rightarrow> string list \<Rightarrow> string list \<times> string list" where
  "drop_common (a # as) (b # bs) = (if a = b then drop_common as bs else (a # as, b # bs))"
| "drop_common as bs = (as, bs)"

text \<open>\<open>Rel\<close> is an error when one path is absolute and the other not, or when the base leads out by \<open>..\<close>.\<close>

definition path_rel :: "string \<Rightarrow> string \<Rightarrow> string option" where
  "path_rel base targ =
     (if is_abs base \<noteq> is_abs targ then None
      else let (up, down) = drop_common (path_parts base) (path_parts targ) in
        if up \<noteq> [] \<and> hd up = ''..'' then None
        else if up = [] \<and> down = [] then Some ''.''
        else Some (join_path (map (\<lambda>p. ''..'') up @ down)))"

lemma drop_common_split:
  "drop_common as bs = (up, down) \<Longrightarrow> \<exists>c. as = c @ up \<and> bs = c @ down"
proof (induction as bs rule: drop_common.induct)
  case (1 a as b bs)
  then show ?case by (cases "a = b") (auto intro: exI [of _ "b # _"])
qed auto

text \<open>A relative path that does not begin with \<open>..\<close> stays below the base.\<close>

lemma path_rel_below:
  assumes "path_rel base targ = Some r" "r \<noteq> ''..''" "\<not> has_prefix r ''../''"
  shows "\<exists>rest. path_parts targ = path_parts base @ rest"
proof -
  obtain up down where d: "drop_common (path_parts base) (path_parts targ) = (up, down)" by fastforce
  obtain c where c: "path_parts base = c @ up" "path_parts targ = c @ down" using drop_common_split [OF d] by blast
  have "up = []"
  proof (rule ccontr)
    assume "up \<noteq> []"
    then obtain u us where u: "up = u # us" by (cases up) auto
    then have r: "r = join_path (''..'' # map (\<lambda>p. ''..'') us @ down)"
      using assms(1) d by (auto simp: path_rel_def Let_def split: if_splits)
    show False
    proof (cases "map (\<lambda>p. ''..'') us @ down")
      case Nil
      then show False using r assms(2) by simp
    next
      case (Cons x xs)
      then show False using r assms(3) by (simp add: has_prefix_def)
    qed
  qed
  then show ?thesis using c by simp
qed

end
