(* ===== verification/BulkImport.thy ===== *)
theory BulkImport
  imports AuthImport Paths
begin

text \<open>
  Bulk import of account files (\<open>internal/bulkimport/import.go\<close>) with its readers: JSON credentials (\<open>authimport\<close>),
  SSO values (\<open>internal/ssoimport/parse.go\<close>, \<open>client.go\<close>) and NDJSON rows (\<open>internal/synth/ndjson.go\<close>).

  Files are processed in parallel and their results taken in the order in which they finish, an
  argument. Parameters: the files, the clock, the SSO converter, the context (has it ended at a
  checkpoint of a file, or before a flush), and the guard of the memory. The store is a
  function on an abstract state, later the catalog's \<open>UpsertImportedMany\<close>. The progress
  callbacks change nothing here.
\<close>

section \<open>NDJSON rows\<close>

record ndjson_row =
  nd_id :: string
  nd_revision :: int
  nd_identity_key :: string
  nd_email :: string
  nd_name :: string
  nd_priority :: int
  nd_enabled :: "bool option"
  nd_lifecycle :: string
  nd_access_token :: string
  nd_refresh_token :: string
  nd_expires_at :: int
  nd_proxy_mode :: string
  nd_proxy_url :: string
  nd_created_at :: int
  nd_updated_at :: int

definition ndjson_to_account :: "int \<Rightarrow> ndjson_row \<Rightarrow> account option" where
  "ndjson_to_account now n =
     (if nd_id n = [] \<or> nd_access_token n = [] \<or> nd_refresh_token n = [] then None
      else Some
        \<lparr>acc_id = nd_id n, acc_revision = (if nd_revision n \<le> 0 then 1 else nd_revision n), acc_identity_key = nd_identity_key n,
         acc_email = nd_email n, acc_name = nd_name n, acc_priority = nd_priority n,
         acc_enabled = (case nd_enabled n of None \<Rightarrow> True | Some b \<Rightarrow> b), acc_manual_disabled = False,
         acc_lifecycle = (if nd_lifecycle n = [] then LifecycleActive else nd_lifecycle n),
         acc_access_token = nd_access_token n, acc_refresh_token = nd_refresh_token n, acc_expires_at = nd_expires_at n,
         acc_proxy_mode = nd_proxy_mode n, acc_proxy_url = nd_proxy_url n, acc_failure_count = 0, acc_success_count = 0,
         acc_cooldown_until = 0, acc_last_error = [], acc_last_used_at = None, acc_last_success_at = None,
         acc_last_refresh_at = None, acc_consecutive_unauthorized = 0, acc_quarantine_fp = [], acc_purge_after = None,
         acc_billing_json = [], acc_created_at = (if nd_created_at n = 0 then now else nd_created_at n),
         acc_updated_at = (if nd_updated_at n = 0 then now else nd_updated_at n)\<rparr>)"

definition row_from_account :: "account \<Rightarrow> ndjson_row" where
  "row_from_account a =
     \<lparr>nd_id = acc_id a, nd_revision = acc_revision a, nd_identity_key = acc_identity_key a, nd_email = acc_email a,
      nd_name = acc_name a, nd_priority = acc_priority a, nd_enabled = Some (acc_enabled a), nd_lifecycle = acc_lifecycle a,
      nd_access_token = acc_access_token a, nd_refresh_token = acc_refresh_token a, nd_expires_at = acc_expires_at a,
      nd_proxy_mode = acc_proxy_mode a, nd_proxy_url = acc_proxy_url a, nd_created_at = acc_created_at a,
      nd_updated_at = acc_updated_at a\<rparr>"

text \<open>Decoding a line: a field of another type, or a number that is no 64-bit integer, is an error.\<close>

definition row_texts :: "string list" where
  "row_texts = [''id'', ''identity_key'', ''email'', ''name'', ''lifecycle'', ''access_token'', ''refresh_token'', ''proxy_mode'', ''proxy_url'']"

definition row_ints :: "string list" where
  "row_ints = [''revision'', ''priority'', ''expires_at'', ''created_at'', ''updated_at'']"

definition decode_row :: "json \<Rightarrow> ndjson_row option" where
  "decode_row v =
     (case (case v of JObj ms \<Rightarrow> Some ms | JNull \<Rightarrow> Some [] | _ \<Rightarrow> None) of
        None \<Rightarrow> None
      | Some ms \<Rightarrow>
          if (\<exists>k\<in>set row_texts. entry_text ms k = None) \<or> (\<exists>k\<in>set row_ints. entry_int ms k = None) \<or> entry_bool ms ''enabled'' = None
          then None
          else let t = (\<lambda>k. case entry_text ms k of Some s \<Rightarrow> s | None \<Rightarrow> []); n = (\<lambda>k. case entry_int ms k of Some i \<Rightarrow> i | None \<Rightarrow> 0) in
            Some \<lparr>nd_id = t ''id'', nd_revision = n ''revision'', nd_identity_key = t ''identity_key'', nd_email = t ''email'',
                  nd_name = t ''name'', nd_priority = n ''priority'',
                  nd_enabled = (case map_of (rev ms) ''enabled'' of Some (JBool b) \<Rightarrow> Some b | _ \<Rightarrow> None),
                  nd_lifecycle = t ''lifecycle'', nd_access_token = t ''access_token'', nd_refresh_token = t ''refresh_token'',
                  nd_expires_at = n ''expires_at'', nd_proxy_mode = t ''proxy_mode'', nd_proxy_url = t ''proxy_url'',
                  nd_created_at = n ''created_at'', nd_updated_at = n ''updated_at''\<rparr>)"

text \<open>
  \<open>ReadNDJSONStreamLimit\<close> over the lines: the count of the rows before the first error, and the rows. A line longer than
  the limit fails in the scanner. \<open>gone\<close> is the error of the callback.
\<close>

datatype ndjson_error = NdTooLong nat | NdLimit | NdJson nat | NdAccount nat | NdStopped

fun read_ndjson ::
  "(string \<Rightarrow> json option) \<Rightarrow> (nat \<Rightarrow> bool) \<Rightarrow> int \<Rightarrow> int \<Rightarrow> int \<Rightarrow> nat \<Rightarrow> int \<Rightarrow> account list \<Rightarrow> string list
   \<Rightarrow> ndjson_error option \<times> int \<times> account list" where
  "read_ndjson dec gone now max_line max_entries line_no n out [] = (None, n, out)"
| "read_ndjson dec gone now max_line max_entries line_no n out (raw # raws) =
     (let line = drop_cr raw; no = Suc line_no in
      if int (length raw) > max_line then (Some (NdTooLong no), n, out)
      else if line = [] then read_ndjson dec gone now max_line max_entries no n out raws
      else if max_entries > 0 \<and> n \<ge> max_entries then (Some NdLimit, n, out)
      else case (case dec line of None \<Rightarrow> None | Some v \<Rightarrow> decode_row v) of
        None \<Rightarrow> (Some (NdJson no), n, out)
      | Some row \<Rightarrow>
          (case ndjson_to_account now row of
             None \<Rightarrow> (Some (NdAccount no), n, out)
           | Some a \<Rightarrow>
               if gone (nat n) then (Some NdStopped, n, out)
               else read_ndjson dec gone now max_line max_entries no (n + 1) (out @ [a]) raws))"

section \<open>SSO values\<close>

datatype sso_error = SsoEmpty | SsoEntryLimit | SsoValueLimit | SsoJson | SsoNone

fun count_substr :: "string \<Rightarrow> string \<Rightarrow> nat" where
  "count_substr p [] = 0"
| "count_substr p (c # cs) =
     (if has_prefix (c # cs) p then Suc (count_substr p (drop (length p - 1) cs)) else count_substr p cs)"

definition normalize_sso_value :: "string \<Rightarrow> string" where
  "normalize_sso_value value0 =
     (let value = trim_space value0 in
      if count_substr ''----'' value \<ge> 2 then
        case last_index value ''----'' of
          Some i \<Rightarrow> let sso = trim_space (drop (i + 4) value) in if sso \<noteq> [] then sso else value
        | None \<Rightarrow> value
      else value)"

definition add_sso :: "int \<Rightarrow> int \<Rightarrow> string \<Rightarrow> string list \<Rightarrow> sso_error + string list" where
  "add_sso limit max_value raw out =
     (if limit > 0 \<and> int (length out) \<ge> limit then Inl SsoEntryLimit
      else if max_value > 0 \<and> int (length raw) > max_value then Inl SsoValueLimit
      else let value = normalize_sso_value raw in
        if max_value > 0 \<and> int (length value) > max_value then Inl SsoValueLimit
        else Inr (out @ [value]))"

definition is_sso_field :: "string \<Rightarrow> bool" where
  "is_sso_field name \<longleftrightarrow> name \<in> {''sso'', ''sso_token'', ''cookie'', ''token'', ''cookies''}"

fun collect_sso :: "int \<Rightarrow> int \<Rightarrow> json \<Rightarrow> string list \<Rightarrow> sso_error + string list"
  and collect_items :: "int \<Rightarrow> int \<Rightarrow> json list \<Rightarrow> string list \<Rightarrow> sso_error + string list"
  and collect_fields :: "int \<Rightarrow> int \<Rightarrow> (string \<times> json) list \<Rightarrow> string list \<Rightarrow> sso_error + string list" where
  "collect_sso limit mv (JStr s) out = (if trim_space s = [] then Inr out else add_sso limit mv s out)"
| "collect_sso limit mv (JArr vs) out = collect_items limit mv vs out"
| "collect_sso limit mv (JObj ms) out = collect_fields limit mv ms out"
| "collect_sso limit mv v out = Inr out"
| "collect_items limit mv [] out = Inr out"
| "collect_items limit mv (v # vs) out =
     (case collect_sso limit mv v out of Inl e \<Rightarrow> Inl e | Inr out' \<Rightarrow> collect_items limit mv vs out')"
| "collect_fields limit mv [] out = Inr out"
| "collect_fields limit mv ((k, v) # ms) out =
     (if is_sso_field k
      then case collect_sso limit mv v out of Inl e \<Rightarrow> Inl e | Inr out' \<Rightarrow> collect_fields limit mv ms out'
      else collect_fields limit mv ms out)"

fun collect_lines :: "int \<Rightarrow> int \<Rightarrow> string list \<Rightarrow> string list \<Rightarrow> sso_error + string list" where
  "collect_lines limit mv [] out = Inr out"
| "collect_lines limit mv (l # ls) out =
     (let line = trim_space l in
      if line = [] \<or> has_prefix line ''#'' then collect_lines limit mv ls out
      else case add_sso limit mv line out of Inl e \<Rightarrow> Inl e | Inr out' \<Rightarrow> collect_lines limit mv ls out')"

definition parse_sso_values :: "auth_env \<Rightarrow> string \<Rightarrow> int \<Rightarrow> int \<Rightarrow> sso_error + string list" where
  "parse_sso_values env data0 limit mv =
     (let data = trim_space data0 in
      if data = [] then Inl SsoEmpty
      else if hd data = CHR ''['' \<or> hd data = CHR ''{'' then
        case au_docs env data of
          (d # ds, broken) \<Rightarrow>
            (case collect_sso limit mv d [] of
               Inl e \<Rightarrow> Inl e
             | Inr vs \<Rightarrow> if ds \<noteq> [] \<or> broken then Inl SsoJson else if vs = [] then Inl SsoNone else Inr vs)
        | ([], broken) \<Rightarrow> Inl SsoJson
      else case collect_lines limit mv (scan_lines data) [] of
        Inl e \<Rightarrow> Inl e
      | Inr vs \<Rightarrow> if vs = [] then Inl SsoNone else Inr vs)"

record converted =
  cv_email :: string
  cv_user_id :: string
  cv_team_id :: string
  cv_oidc_issuer :: string
  cv_oidc_client_id :: string
  cv_access_token :: string
  cv_refresh_token :: string
  cv_expires_at :: int
  cv_error :: string

definition no_entry :: auth_entry where "no_entry = build_entry []"

definition sso_to_account :: "auth_env \<Rightarrow> converted \<Rightarrow> int \<Rightarrow> auth_error + account" where
  "sso_to_account env c now =
     (if trim_space (cv_error c) \<noteq> [] then Inl (AuMissing ''conversion'')
      else to_account env
        \<lparr>ic_source_key = first_text [cv_email c, cv_user_id c, ''sso''], ic_access_token = cv_access_token c,
         ic_refresh_token = cv_refresh_token c, ic_expires_at = cv_expires_at c, ic_email = cv_email c, ic_user_id = cv_user_id c,
         ic_team_id = cv_team_id c, ic_oidc_issuer = first_text [cv_oidc_issuer c, auth_issuer],
         ic_oidc_client_id = first_text [cv_oidc_client_id c, default_client_id], ic_auth_mode = [], ic_disabled = False,
         ic_proxy_url = [], ic_warnings = [], ic_raw = no_entry\<rparr> now)"

section \<open>Files\<close>

record import_config =
  bc_format :: string
  bc_workers :: int
  bc_batch :: int
  bc_dry_run :: bool
  bc_max_rss :: int
  bc_progress_every :: int
  bc_converter :: "(string list \<Rightarrow> string + converted list) option"
  bc_max_entries :: int
  bc_max_line :: int
  bc_max_sso :: int

definition import_normalize :: "import_config \<Rightarrow> import_config" where
  "import_normalize c =
     (let fmt = to_lower (trim_space (bc_format c)); w = (if bc_workers c \<le> 0 then 4 else bc_workers c) in
      c\<lparr>bc_format := (if fmt = [] then ''auto'' else fmt), bc_workers := (if w > 512 then 512 else w),
        bc_batch := (if bc_batch c < 1 then 500 else bc_batch c),
        bc_max_rss := (if bc_max_rss c = 0 then 5368709120 else bc_max_rss c),
        bc_progress_every := (if bc_progress_every c \<le> 0 then 5000 else bc_progress_every c),
        bc_max_line := (if bc_max_line c \<le> 0 then 1048576 else bc_max_line c)\<rparr>)"

record input_file =
  if_path :: string
  if_format :: string

record file_result =
  fr_path :: string
  fr_format :: string
  fr_total :: int
  fr_ok :: int
  fr_failed :: int
  fr_skipped :: int
  fr_error :: string

record import_report =
  ir_total :: int
  ir_ok :: int
  ir_failed :: int
  ir_skipped :: int
  ir_files :: "file_result list"
  ir_dry_run :: bool

text \<open>\<open>bv_gone k n\<close>: the context has ended at checkpoint \<open>n\<close> of file \<open>k\<close>. The texts of errors are tags here.\<close>

record import_env =
  bv_auth :: auth_env
  bv_row :: "string \<Rightarrow> json option"
  bv_read :: "string \<Rightarrow> string option"
  bv_stat :: "string \<Rightarrow> bool option"
  bv_list :: "string \<Rightarrow> (string \<times> bool) list option"
  bv_now :: int
  bv_gone :: "nat \<Rightarrow> nat \<Rightarrow> bool"
  bv_flush_gone :: "nat \<Rightarrow> bool"
  bv_rss :: "nat \<Rightarrow> int option"

definition resolve_format :: "input_file \<Rightarrow> string \<Rightarrow> string \<Rightarrow> string" where
  "resolve_format file data cfg_format =
     (let f = to_lower (trim_space (if_format file)); c = to_lower (trim_space cfg_format);
          ext = to_lower (path_ext (if_path file)); data = trim_space data in
      if f \<noteq> [] \<and> f \<noteq> ''auto'' then f
      else if c \<noteq> [] \<and> c \<noteq> ''auto'' then c
      else if ext = ''.ndjson'' \<or> ext = ''.jsonl'' then ''ndjson''
      else if ext = ''.json'' then ''json''
      else if ext = ''.txt'' then ''sso''
      else if has_prefix data ''{'' \<or> has_prefix data ''['' then ''json''
      else ''sso'')"

definition failed_file :: "file_result \<Rightarrow> string \<Rightarrow> int \<Rightarrow> file_result" where
  "failed_file fr err n = fr\<lparr>fr_error := err, fr_failed := n\<rparr>"

definition file_start :: "input_file \<Rightarrow> file_result" where
  "file_start file =
     \<lparr>fr_path = if_path file, fr_format = if_format file, fr_total = 0, fr_ok = 0, fr_failed = 0, fr_skipped = 0, fr_error = []\<rparr>"

text \<open>The credentials of a JSON file; a context that ends on the way drops them all.\<close>

fun convert_credentials ::
  "import_env \<Rightarrow> (nat \<Rightarrow> bool) \<Rightarrow> int \<Rightarrow> nat \<Rightarrow> credential list \<Rightarrow> account list \<Rightarrow> file_result \<Rightarrow> file_result \<times> account list" where
  "convert_credentials env gone n k [] out fr = (fr, out)"
| "convert_credentials env gone n k (c # cs) out fr =
     (if gone k then (fr\<lparr>fr_error := ''context'', fr_failed := fr_failed fr + (n - int (length out))\<rparr>, [])
      else case to_account (bv_auth env) c (bv_now env) of
        Inl e \<Rightarrow> convert_credentials env gone n (Suc k) cs out (fr\<lparr>fr_failed := fr_failed fr + 1\<rparr>)
      | Inr a \<Rightarrow> convert_credentials env gone n (Suc k) cs (out @ [a]) (fr\<lparr>fr_ok := fr_ok fr + 1\<rparr>))"

definition process_json :: "import_env \<Rightarrow> import_config \<Rightarrow> (nat \<Rightarrow> bool) \<Rightarrow> string \<Rightarrow> file_result \<Rightarrow> file_result \<times> account list" where
  "process_json env cfg gone data fr =
     (case parse_auth_limit (bv_auth env) data (bc_max_entries cfg) of
        Inl e \<Rightarrow> (failed_file fr ''authimport'' 1, [])
      | Inr (creds, ws) \<Rightarrow>
          let n = int (length creds); fr = fr\<lparr>fr_total := n\<rparr> in
          if gone 3 then (failed_file fr ''context'' n, [])
          else convert_credentials env gone n 4 creds [] fr)"

text \<open>The results of one chunk of SSO values.\<close>

fun take_converted :: "import_env \<Rightarrow> converted list \<Rightarrow> account list \<Rightarrow> file_result \<Rightarrow> file_result \<times> account list" where
  "take_converted env [] out fr = (fr, out)"
| "take_converted env (c # cs) out fr =
     (if cv_error c \<noteq> [] then take_converted env cs out (fr\<lparr>fr_failed := fr_failed fr + 1\<rparr>)
      else case sso_to_account (bv_auth env) c (bv_now env) of
        Inl e \<Rightarrow> take_converted env cs out (fr\<lparr>fr_failed := fr_failed fr + 1\<rparr>)
      | Inr a \<Rightarrow> take_converted env cs (out @ [a]) (fr\<lparr>fr_ok := fr_ok fr + 1\<rparr>))"

definition sso_chunk :: "import_config \<Rightarrow> nat" where
  "sso_chunk cfg = (if bc_workers cfg \<ge> 12 then 32 else if bc_workers cfg \<ge> 8 then 24 else 16)"

function convert_chunks ::
  "import_env \<Rightarrow> (string list \<Rightarrow> string + converted list) \<Rightarrow> (nat \<Rightarrow> bool) \<Rightarrow> nat \<Rightarrow> int \<Rightarrow> nat \<Rightarrow> string list \<Rightarrow> account list
   \<Rightarrow> file_result \<Rightarrow> file_result \<times> account list" where
  "convert_chunks env conv gone width n k vs out fr =
     (if vs = [] then (fr, out)
      else if gone k then
        (let fr1 = fr\<lparr>fr_error := ''context''\<rparr>; remain = n - fr_ok fr1 - fr_failed fr1 in
         (if remain > 0 then fr1\<lparr>fr_failed := fr_failed fr1 + remain\<rparr> else fr1, out))
      else case conv (take (Suc width) vs) of
        Inl e \<Rightarrow> convert_chunks env conv gone width n (Suc k) (drop (Suc width) vs) out
                  (fr\<lparr>fr_failed := fr_failed fr + int (length (take (Suc width) vs)),
                      fr_error := (if fr_error fr = [] then e else fr_error fr)\<rparr>)
      | Inr part \<Rightarrow>
          (case take_converted env part out fr of
             (fr1, out1) \<Rightarrow> convert_chunks env conv gone width n (Suc k) (drop (Suc width) vs) out1 fr1))"
  by pat_completeness auto
termination by (relation "measure (\<lambda>(env, conv, gone, width, n, k, vs, out, fr). length vs)") auto

declare convert_chunks.simps [simp del]

definition process_sso :: "import_env \<Rightarrow> import_config \<Rightarrow> (nat \<Rightarrow> bool) \<Rightarrow> string \<Rightarrow> file_result \<Rightarrow> file_result \<times> account list" where
  "process_sso env cfg gone data fr =
     (case parse_sso_values (bv_auth env) data (bc_max_entries cfg) (bc_max_sso cfg) of
        Inl e \<Rightarrow> (failed_file fr ''ssoimport'' 1, [])
      | Inr values \<Rightarrow>
          let n = int (length values); fr = fr\<lparr>fr_total := n\<rparr> in
          (case bc_converter cfg of
             None \<Rightarrow> (failed_file fr ''ssoimport: SSO converter is not configured'' n, [])
           | Some conv \<Rightarrow>
               if gone 3 then (failed_file fr ''context'' n, [])
               else convert_chunks env conv gone (sso_chunk cfg - 1) n 4 values [] fr))"

definition process_ndjson :: "import_env \<Rightarrow> import_config \<Rightarrow> (nat \<Rightarrow> bool) \<Rightarrow> input_file \<Rightarrow> file_result \<times> account list" where
  "process_ndjson env cfg gone file =
     (let fr = (file_start file)\<lparr>fr_format := ''ndjson''\<rparr> in
      case bv_read env (if_path file) of
        None \<Rightarrow> (failed_file fr ''cannot read input file'' 1, [])
      | Some data \<Rightarrow>
          (case read_ndjson (bv_row env) (\<lambda>n. gone (4 + n)) (bv_now env) (bc_max_line cfg) (bc_max_entries cfg) 0 0 [] (raw_lines data) of
             (Some e, n, out) \<Rightarrow> (failed_file (fr\<lparr>fr_total := n\<rparr>) ''synth'' 1, [])
           | (None, n, out) \<Rightarrow> (fr\<lparr>fr_total := n, fr_ok := int (length out)\<rparr>, out)))"

definition process_file :: "import_env \<Rightarrow> import_config \<Rightarrow> nat \<Rightarrow> input_file \<Rightarrow> file_result \<times> account list" where
  "process_file env cfg k file =
     (let fr = file_start file; gone = bv_gone env k in
      if gone 1 then (failed_file fr ''context'' 1, [])
      else if resolve_format file [] (bc_format cfg) = ''ndjson'' then process_ndjson env cfg gone file
      else case bv_read env (if_path file) of
        None \<Rightarrow> (failed_file fr ''cannot read input file'' 1, [])
      | Some data \<Rightarrow>
          if gone 2 then (failed_file fr ''context'' 1, [])
          else let fmt = resolve_format file data (bc_format cfg); fr = fr\<lparr>fr_format := fmt\<rparr> in
            if fmt = ''json'' then process_json env cfg gone data fr
            else if fmt = ''sso'' then process_sso env cfg gone data fr
            else if fmt = ''ndjson'' then process_ndjson env cfg gone file
            else (failed_file fr ''unsupported format'' 1, []))"

text \<open>What a worker does with a file: nothing, when the context has ended.\<close>

definition worker_file :: "import_env \<Rightarrow> import_config \<Rightarrow> nat \<Rightarrow> input_file \<Rightarrow> file_result \<times> account list" where
  "worker_file env cfg k file =
     (if bv_gone env k 0 then (failed_file (file_start file) ''context'' 1, []) else process_file env cfg k file)"

section \<open>The import\<close>

datatype import_error =
  ImStat | ImNoFiles | ImNoCatalog | ImValidation string | ImEntryLimit | ImContext | ImStore string | ImMemory

record 's import_state =
  im_files :: "file_result list"
  im_total :: int
  im_ok :: int
  im_failed :: int
  im_skipped :: int
  im_buf :: "account list"
  im_flushes :: nat
  im_store :: 's

text \<open>In a file the last account with an id wins, at the place of the first.\<close>

definition dedupe :: "account list \<Rightarrow> account list" where
  "dedupe as = map snd (fold (\<lambda>a m. gm_put (acc_id a) a m) as [])"

definition flush_buf ::
  "import_env \<Rightarrow> import_config \<Rightarrow> (account list \<Rightarrow> 's \<Rightarrow> string option \<times> 's) \<Rightarrow> 's import_state
   \<Rightarrow> import_error option \<times> 's import_state" where
  "flush_buf env cfg write st =
     (if bv_flush_gone env (im_flushes st) then (Some ImContext, st)
      else if bc_dry_run cfg \<or> im_buf st = [] then (None, st\<lparr>im_buf := [], im_flushes := Suc (im_flushes st)\<rparr>)
      else case write (im_buf st) (im_store st) of
        (Some e, s) \<Rightarrow> (Some (ImStore e), st\<lparr>im_store := s\<rparr>)
      | (None, s) \<Rightarrow>
          let st1 = st\<lparr>im_store := s, im_buf := [], im_flushes := Suc (im_flushes st)\<rparr> in
          (case bv_rss env (im_flushes st) of
             None \<Rightarrow> (None, st1)
           | Some rss \<Rightarrow> if bc_max_rss cfg \<noteq> 0 \<and> rss > bc_max_rss cfg then (Some ImMemory, st1) else (None, st1)))"

fun queue_accounts ::
  "import_env \<Rightarrow> import_config \<Rightarrow> (account list \<Rightarrow> 's \<Rightarrow> string option \<times> 's) \<Rightarrow> account list \<Rightarrow> 's import_state
   \<Rightarrow> import_error option \<times> 's import_state" where
  "queue_accounts env cfg write [] st = (None, st)"
| "queue_accounts env cfg write (a # as) st =
     (let st1 = st\<lparr>im_buf := im_buf st @ [a], im_ok := im_ok st + 1\<rparr> in
      if int (length (im_buf st1)) \<ge> bc_batch cfg
      then case flush_buf env cfg write st1 of
        (Some e, st2) \<Rightarrow> (Some e, st2)
      | (None, st2) \<Rightarrow> queue_accounts env cfg write as st2
      else queue_accounts env cfg write as st1)"

text \<open>
  One result as it arrives. A failed file among several stops a bounded import, and the report says what was
  done; the other errors return an empty report.
\<close>

definition take_result ::
  "import_env \<Rightarrow> import_config \<Rightarrow> (account list \<Rightarrow> 's \<Rightarrow> string option \<times> 's) \<Rightarrow> nat \<Rightarrow> file_result \<Rightarrow> account list
   \<Rightarrow> 's import_state \<Rightarrow> import_error option \<times> 's import_state" where
  "take_result env cfg write k fr as st =
     (let st1 = st\<lparr>im_files := (im_files st)[k := fr], im_total := im_total st + fr_total fr,
                  im_failed := im_failed st + fr_failed fr, im_skipped := im_skipped st + fr_skipped fr\<rparr>;
          few = dedupe as; dup = int (length as) - int (length few) in
      if bc_max_entries cfg > 0 \<and> length (im_files st) > 1 \<and> fr_error fr \<noteq> [] then (Some (ImValidation (fr_error fr)), st1)
      else if bc_max_entries cfg > 0 \<and> im_total st1 > bc_max_entries cfg then (Some ImEntryLimit, st1)
      else if fr_error fr \<noteq> [] \<and> fr_ok fr = 0 \<and> fr_total fr = 0 then (None, st1)
      else queue_accounts env cfg write few
        (st1\<lparr>im_skipped := im_skipped st1 + dup,
             im_files := (im_files st1)[k := fr\<lparr>fr_skipped := fr_skipped fr + dup, fr_ok := fr_ok fr - dup\<rparr>]\<rparr>))"

fun take_results ::
  "import_env \<Rightarrow> import_config \<Rightarrow> (account list \<Rightarrow> 's \<Rightarrow> string option \<times> 's) \<Rightarrow> input_file list \<Rightarrow> nat list \<Rightarrow> 's import_state
   \<Rightarrow> import_error option \<times> 's import_state" where
  "take_results env cfg write files [] st = flush_buf env cfg write st"
| "take_results env cfg write files (k # ks) st =
     (case worker_file env cfg k (files ! k) of
        (fr, as) \<Rightarrow>
          (case take_result env cfg write k fr as st of
             (Some e, st') \<Rightarrow> (Some e, st')
           | (None, st') \<Rightarrow> take_results env cfg write files ks st'))"

definition empty_result :: file_result where
  "empty_result = \<lparr>fr_path = [], fr_format = [], fr_total = 0, fr_ok = 0, fr_failed = 0, fr_skipped = 0, fr_error = []\<rparr>"

definition empty_report :: import_report where
  "empty_report = \<lparr>ir_total = 0, ir_ok = 0, ir_failed = 0, ir_skipped = 0, ir_files = [], ir_dry_run = False\<rparr>"

definition report_of :: "import_config \<Rightarrow> 's import_state \<Rightarrow> import_report" where
  "report_of cfg st =
     \<lparr>ir_total = im_total st, ir_ok = im_ok st, ir_failed = im_failed st, ir_skipped = im_skipped st, ir_files = im_files st,
      ir_dry_run = bc_dry_run cfg\<rparr>"

definition import_files ::
  "import_env \<Rightarrow> import_config \<Rightarrow> (account list \<Rightarrow> 's \<Rightarrow> string option \<times> 's) option \<Rightarrow> nat list \<Rightarrow> input_file list \<Rightarrow> 's
   \<Rightarrow> import_error option \<times> import_report \<times> 's" where
  "import_files env cfg0 cat arrival files s =
     (let cfg = import_normalize cfg0; write = (case cat of Some w \<Rightarrow> w | None \<Rightarrow> (\<lambda>as s. (None, s))) in
      if \<not> bc_dry_run cfg \<and> cat = None then (Some ImNoCatalog, empty_report, s)
      else case take_results env cfg write files arrival
          \<lparr>im_files = replicate (length files) empty_result, im_total = 0, im_ok = 0, im_failed = 0, im_skipped = 0,
           im_buf = [], im_flushes = 0, im_store = s\<rparr> of
        (None, st) \<Rightarrow> (None, report_of cfg st, im_store st)
      | (Some (ImValidation e), st) \<Rightarrow> (Some (ImValidation e), report_of cfg st, im_store st)
      | (Some e, st) \<Rightarrow> (Some e, empty_report, im_store st))"

text \<open>\<open>collectInputFiles\<close>: the file itself, or the files of a directory with a known extension.\<close>

definition input_of :: "string \<Rightarrow> string \<Rightarrow> string \<Rightarrow> input_file list" where
  "input_of fmt ext full =
     (let file = (\<lambda>f. [\<lparr>if_path = full, if_format = f\<rparr>]) in
      if fmt = ''json'' then if ext = ''.json'' then file ''json'' else []
      else if fmt = ''sso'' then if ext = ''.txt'' \<or> ext = ''.json'' then file ''sso'' else []
      else if fmt = ''ndjson'' then if ext = ''.ndjson'' \<or> ext = ''.jsonl'' then file ''ndjson'' else []
      else if ext = ''.json'' then file ''auto''
      else if ext = ''.txt'' then file ''sso''
      else if ext = ''.ndjson'' \<or> ext = ''.jsonl'' then file ''ndjson''
      else [])"

definition collect_input_files :: "import_env \<Rightarrow> string \<Rightarrow> string \<Rightarrow> input_file list option" where
  "collect_input_files env path fmt0 =
     (let fmt = to_lower (trim_space fmt0) in
      case bv_stat env path of
        None \<Rightarrow> None
      | Some False \<Rightarrow> Some [\<lparr>if_path = path, if_format = fmt\<rparr>]
      | Some True \<Rightarrow>
          map_option (\<lambda>es. concat (map (\<lambda>(name, dir).
              if dir then [] else input_of fmt (to_lower (path_ext name)) (path_join path name)) es))
            (bv_list env path))"

definition import_paths ::
  "import_env \<Rightarrow> import_config \<Rightarrow> (account list \<Rightarrow> 's \<Rightarrow> string option \<times> 's) option \<Rightarrow> (input_file list \<Rightarrow> nat list) \<Rightarrow> string \<Rightarrow> 's
   \<Rightarrow> import_error option \<times> import_report \<times> 's" where
  "import_paths env cfg0 cat arrival path s =
     (let cfg = import_normalize cfg0 in
      case collect_input_files env path (bc_format cfg) of
        None \<Rightarrow> (Some ImStat, empty_report, s)
      | Some [] \<Rightarrow> (Some ImNoFiles, empty_report, s)
      | Some files \<Rightarrow> import_files env cfg cat (arrival files) files s)"

section \<open>Accounts and counts of a file\<close>

lemma convert_credentials_ok:
  "convert_credentials env gone n k cs out fr = (fr', as) \<Longrightarrow> fr_ok fr = int (length out) \<Longrightarrow>
   (as = [] \<or> fr_ok fr' = int (length as)) \<and>
   (fr_error fr = [] \<and> fr_error fr' = [] \<longrightarrow> fr_ok fr' + fr_failed fr' = fr_ok fr + fr_failed fr + int (length cs) \<and> fr_ok fr' = int (length as)) \<and>
   fr_total fr' = fr_total fr \<and> fr_skipped fr' = fr_skipped fr"
proof (induction env gone n k cs out fr rule: convert_credentials.induct)
  case (2 env gone n k c cs out fr)
  then show ?case by (cases "to_account (bv_auth env) c (bv_now env)") (auto split: if_splits)
qed auto

lemma take_converted_ok:
  "take_converted env cs out fr = (fr', as) \<Longrightarrow> fr_ok fr = int (length out) \<Longrightarrow>
   fr_ok fr' = int (length as) \<and> fr_ok fr' + fr_failed fr' = fr_ok fr + fr_failed fr + int (length cs) \<and>
   fr_error fr' = fr_error fr \<and> fr_total fr' = fr_total fr \<and> fr_skipped fr' = fr_skipped fr"
proof (induction env cs out fr rule: take_converted.induct)
  case (2 env c cs out fr)
  then show ?case by (cases "sso_to_account (bv_auth env) c (bv_now env)") (auto split: if_splits)
qed auto

text \<open>A converter returns one result for each value.\<close>

definition aligned :: "(string list \<Rightarrow> string + converted list) \<Rightarrow> bool" where
  "aligned conv \<longleftrightarrow> (\<forall>vs rs. conv vs = Inr rs \<longrightarrow> length rs = length vs)"

lemma convert_chunks_ok:
  assumes "convert_chunks env conv gone width n k vs out fr = (fr', as)" "fr_ok fr = int (length out)"
  shows "fr_ok fr' = int (length as) \<and> fr_total fr' = fr_total fr \<and> fr_skipped fr' = fr_skipped fr \<and> (fr_error fr \<noteq> [] \<longrightarrow> fr_error fr' \<noteq> []) \<and>
    (aligned conv \<and> (\<forall>vs. conv vs \<noteq> Inl []) \<and> fr_error fr' = [] \<longrightarrow> fr_ok fr' + fr_failed fr' = fr_ok fr + fr_failed fr + int (length vs))"
  using assms
proof (induction env conv gone width n k vs out fr rule: convert_chunks.induct)
  case (1 env conv gone width n k vs out fr)
  show ?case
  proof (cases "vs = [] \<or> gone k")
    case True
    then show ?thesis using 1(3,4) by (auto simp: convert_chunks.simps [of env conv gone width n k vs] Let_def split: if_splits)
  next
    case False
    then have ne: "vs \<noteq> []" "\<not> gone k" by simp_all
    show ?thesis
    proof (cases "conv (take (Suc width) vs)")
      case (Inl e)
      let ?fr = "fr\<lparr>fr_failed := fr_failed fr + int (length (take (Suc width) vs)), fr_error := (if fr_error fr = [] then e else fr_error fr)\<rparr>"
      have "convert_chunks env conv gone width n (Suc k) (drop (Suc width) vs) out ?fr = (fr', as)"
        using 1(3) ne Inl by (simp add: convert_chunks.simps [of env conv gone width n k vs])
      from 1(1) [OF ne Inl this] 1(4) show ?thesis using Inl by auto
    next
      case (Inr part)
      obtain fr1 out1 where t: "take_converted env part out fr = (fr1, out1)" by fastforce
      have "convert_chunks env conv gone width n (Suc k) (drop (Suc width) vs) out1 fr1 = (fr', as)"
        using 1(3) ne Inr t by (simp add: convert_chunks.simps [of env conv gone width n k vs])
      note IH = 1(2) [OF ne Inr t [symmetric] this]
      note ok = take_converted_ok [OF t 1(4)]
      have "aligned conv \<Longrightarrow> int (length part) + int (length (drop (Suc width) vs)) = int (length vs)"
        using Inr unfolding aligned_def by fastforce
      then show ?thesis using IH ok by auto
    qed
  qed
qed

lemma read_ndjson_ok:
  "read_ndjson dec gone now mx me no n out raws = (None, n', out') \<Longrightarrow> n = int (length out) \<Longrightarrow> n' = int (length out')"
proof (induction dec gone now mx me no n out raws rule: read_ndjson.induct)
  case (2 dec gone now mx me no n out raw raws)
  then show ?case by (auto simp: Let_def split: if_splits option.splits)
qed simp

text \<open>What every file result says: its accounts are counted, and without an error each entry is.\<close>

definition converters_ok :: "import_config \<Rightarrow> bool" where
  "converters_ok cfg \<longleftrightarrow> (\<forall>conv. bc_converter cfg = Some conv \<longrightarrow> aligned conv \<and> (\<forall>vs. conv vs \<noteq> Inl []))"

lemma process_json_ok:
  assumes "process_json env cfg gone data fr = (fr', as)" "fr_ok fr = 0" "fr_failed fr = 0" "fr_error fr = []"
  shows "(as = [] \<or> fr_ok fr' = int (length as)) \<and> (fr_error fr' = [] \<longrightarrow> fr_total fr' = fr_ok fr' + fr_failed fr' \<and> fr_ok fr' = int (length as)) \<and>
    fr_skipped fr' = fr_skipped fr"
proof (cases "parse_auth_limit (bv_auth env) data (bc_max_entries cfg)")
  case (Inl e)
  then show ?thesis using assms by (auto simp: process_json_def failed_file_def)
next
  case (Inr r)
  obtain creds ws where r: "r = (creds, ws)" by fastforce
  show ?thesis
  proof (cases "gone 3")
    case True
    then show ?thesis using assms Inr r by (auto simp: process_json_def failed_file_def Let_def)
  next
    case False
    then have "convert_credentials env gone (int (length creds)) 4 creds [] (fr\<lparr>fr_total := int (length creds)\<rparr>) = (fr', as)"
      using assms(1) Inr r by (simp add: process_json_def Let_def)
    from convert_credentials_ok [OF this] assms(2-4) show ?thesis by auto
  qed
qed

lemma process_sso_ok:
  assumes "process_sso env cfg gone data fr = (fr', as)" "fr_ok fr = 0" "fr_failed fr = 0" "fr_error fr = []"
  shows "(as = [] \<or> fr_ok fr' = int (length as)) \<and>
    (converters_ok cfg \<and> fr_error fr' = [] \<longrightarrow> fr_total fr' = fr_ok fr' + fr_failed fr' \<and> fr_ok fr' = int (length as)) \<and>
    fr_skipped fr' = fr_skipped fr"
proof (cases "parse_sso_values (bv_auth env) data (bc_max_entries cfg) (bc_max_sso cfg)")
  case (Inl e)
  then show ?thesis using assms by (auto simp: process_sso_def failed_file_def)
next
  case (Inr vals)
  show ?thesis
  proof (cases "bc_converter cfg = None \<or> gone 3")
    case True
    then show ?thesis using assms Inr by (auto simp: process_sso_def failed_file_def Let_def split: option.splits)
  next
    case False
    then obtain conv where c: "bc_converter cfg = Some conv" "\<not> gone 3" by auto
    then have "convert_chunks env conv gone (sso_chunk cfg - 1) (int (length vals)) 4 vals [] (fr\<lparr>fr_total := int (length vals)\<rparr>) = (fr', as)"
      using assms(1) Inr by (simp add: process_sso_def Let_def)
    from convert_chunks_ok [OF this] assms(2-4) c(1) show ?thesis by (auto simp: converters_ok_def)
  qed
qed

lemma process_ndjson_ok:
  assumes "process_ndjson env cfg gone file = (fr', as)"
  shows "(as = [] \<or> fr_ok fr' = int (length as)) \<and> (fr_error fr' = [] \<longrightarrow> fr_total fr' = fr_ok fr' + fr_failed fr' \<and> fr_ok fr' = int (length as)) \<and>
    fr_skipped fr' = 0"
  using assms read_ndjson_ok [of "bv_row env" "\<lambda>n. gone (4 + n)" "bv_now env" "bc_max_line cfg" "bc_max_entries cfg" 0 0 "[]"]
  by (auto simp: process_ndjson_def failed_file_def file_start_def Let_def split: option.splits prod.splits)

lemma worker_file_ok:
  assumes "worker_file env cfg k file = (fr, as)"
  shows "(as = [] \<or> fr_ok fr = int (length as)) \<and>
    (converters_ok cfg \<and> fr_error fr = [] \<longrightarrow> fr_total fr = fr_ok fr + fr_failed fr \<and> fr_ok fr = int (length as)) \<and> fr_skipped fr = 0"
proof -
  let ?gone = "bv_gone env k"
  consider "as = []" "fr_error fr \<noteq> []" "fr_skipped fr = 0"
    | data fmt where "process_json env cfg ?gone data ((file_start file)\<lparr>fr_format := fmt\<rparr>) = (fr, as)"
    | data fmt where "process_sso env cfg ?gone data ((file_start file)\<lparr>fr_format := fmt\<rparr>) = (fr, as)"
    | "process_ndjson env cfg ?gone file = (fr, as)"
    using assms by (auto simp: worker_file_def process_file_def failed_file_def file_start_def Let_def split: if_splits option.splits)
  then show ?thesis
  proof cases
    case 1
    then show ?thesis by simp
  next
    case (2 data fmt)
    then show ?thesis using process_json_ok [OF 2] by (simp add: file_start_def)
  next
    case (3 data fmt)
    then show ?thesis using process_sso_ok [OF 3] by (simp add: file_start_def)
  next
    case 4
    then show ?thesis using process_ndjson_ok [OF 4] by simp
  qed
qed

lemma dedupe_Nil [simp]: "dedupe [] = []" by (simp add: dedupe_def)

text \<open>The accounts of the files, in the order in which they arrive.\<close>

definition accounts_of :: "import_env \<Rightarrow> import_config \<Rightarrow> input_file list \<Rightarrow> nat list \<Rightarrow> account list" where
  "accounts_of env cfg files ks = concat (map (\<lambda>k. dedupe (snd (worker_file env cfg k (files ! k)))) ks)"

section \<open>Batches\<close>

text \<open>
  What the import needs of its store: two writes that succeed are one write of both. Then the batches and their size do not
  matter.
\<close>

locale bulk_writer =
  fixes save :: "account list \<Rightarrow> 's \<Rightarrow> string option \<times> 's"
  assumes save_append: "save as s = (None, s1) \<Longrightarrow> save bs s1 = (None, s2) \<Longrightarrow> save (as @ bs) s = (None, s2)"
begin

definition stored :: "account list \<Rightarrow> 's \<Rightarrow> 's \<Rightarrow> bool" where
  "stored as s s' \<longleftrightarrow> (if as = [] then s' = s else save as s = (None, s'))"

definition done_with :: "'s \<Rightarrow> account list \<Rightarrow> 's import_state \<Rightarrow> bool" where
  "done_with s as st \<longleftrightarrow> (\<exists>ws. stored ws s (im_store st) \<and> as = ws @ im_buf st)"

lemma stored_append: "stored as s s1 \<Longrightarrow> stored bs s1 s2 \<Longrightarrow> stored (as @ bs) s s2"
  by (auto simp: stored_def save_append split: if_splits)

lemma flush_done:
  assumes "flush_buf env cfg save st = (None, st')" "\<not> bc_dry_run cfg" "done_with s as st"
  shows "done_with s as st' \<and> im_buf st' = [] \<and> im_ok st' = im_ok st \<and> im_total st' = im_total st \<and> im_failed st' = im_failed st \<and>
    im_skipped st' = im_skipped st \<and> im_files st' = im_files st"
proof (cases "im_buf st = []")
  case True
  then show ?thesis using assms by (auto simp: flush_buf_def done_with_def split: if_splits)
next
  case False
  obtain ws where ws: "stored ws s (im_store st)" "as = ws @ im_buf st" using assms(3) by (auto simp: done_with_def)
  obtain s1 where w: "save (im_buf st) (im_store st) = (None, s1)"
    "st' = st\<lparr>im_store := s1, im_buf := [], im_flushes := Suc (im_flushes st)\<rparr>"
    using assms(1,2) False by (auto simp: flush_buf_def Let_def split: if_splits option.splits prod.splits)
  then have "stored (ws @ im_buf st) s s1" using stored_append [OF ws(1)] False by (simp add: stored_def)
  then show ?thesis using w(2) ws(2) by (auto simp: done_with_def)
qed

lemma queue_done:
  assumes "queue_accounts env cfg save as st = (None, st')" "\<not> bc_dry_run cfg" "done_with s bs st"
  shows "done_with s (bs @ as) st' \<and> im_ok st' = im_ok st + int (length as) \<and> im_total st' = im_total st \<and> im_failed st' = im_failed st \<and>
    im_skipped st' = im_skipped st \<and> im_files st' = im_files st"
  using assms(1,3)
proof (induction as arbitrary: st bs)
  case (Cons a as)
  let ?st = "st\<lparr>im_buf := im_buf st @ [a], im_ok := im_ok st + 1\<rparr>"
  have d: "done_with s (bs @ [a]) ?st" using Cons.prems(2) by (auto simp: done_with_def)
  show ?case
  proof (cases "int (length (im_buf ?st)) \<ge> bc_batch cfg")
    case True
    then obtain st2 where f: "flush_buf env cfg save ?st = (None, st2)" "queue_accounts env cfg save as st2 = (None, st')"
      using Cons.prems(1) by (auto simp: Let_def split: option.splits prod.splits)
    note flushed = flush_done [OF f(1) assms(2) d]
    then show ?thesis using Cons.IH [OF f(2), of "bs @ [a]"] by simp
  next
    case False
    then have "queue_accounts env cfg save as ?st = (None, st')" using Cons.prems(1) by (simp add: Let_def)
    from Cons.IH [OF this d] show ?thesis by simp
  qed
qed simp

lemma result_done:
  assumes "take_result env cfg save k fr as st = (None, st')" "\<not> bc_dry_run cfg" "done_with s bs st"
    "as = [] \<or> fr_ok fr = int (length as)"
  shows "done_with s (bs @ dedupe as) st' \<and> im_ok st' = im_ok st + int (length (dedupe as)) \<and> im_total st' = im_total st + fr_total fr \<and>
    im_failed st' = im_failed st + fr_failed fr \<and>
    im_skipped st' = im_skipped st + fr_skipped fr + (int (length as) - int (length (dedupe as))) \<and>
    (bc_max_entries cfg > 0 \<longrightarrow> im_total st' \<le> bc_max_entries cfg)"
proof -
  let ?st1 = "st\<lparr>im_files := (im_files st)[k := fr], im_total := im_total st + fr_total fr,
      im_failed := im_failed st + fr_failed fr, im_skipped := im_skipped st + fr_skipped fr\<rparr>"
  have bound: "bc_max_entries cfg > 0 \<longrightarrow> im_total st + fr_total fr \<le> bc_max_entries cfg"
    using assms(1) by (auto simp: take_result_def Let_def split: if_splits)
  show ?thesis
  proof (cases "fr_error fr \<noteq> [] \<and> fr_ok fr = 0 \<and> fr_total fr = 0")
    case True
    then have "as = []" using assms(4) by auto
    then show ?thesis using assms(1,3) True bound by (auto simp: take_result_def Let_def done_with_def split: if_splits)
  next
    case False
    let ?st2 = "?st1\<lparr>im_skipped := im_skipped ?st1 + (int (length as) - int (length (dedupe as))),
        im_files := (im_files ?st1)[k := fr\<lparr>fr_skipped := fr_skipped fr + (int (length as) - int (length (dedupe as))),
          fr_ok := fr_ok fr - (int (length as) - int (length (dedupe as)))\<rparr>]\<rparr>"
    have q: "queue_accounts env cfg save (dedupe as) ?st2 = (None, st')"
      using assms(1) False by (auto simp: take_result_def Let_def split: if_splits)
    have "done_with s bs ?st2" using assms(3) by (simp add: done_with_def)
    from queue_done [OF q assms(2) this] bound show ?thesis by auto
  qed
qed

lemma results_done:
  assumes "take_results env cfg save files ks st = (None, st')" "\<not> bc_dry_run cfg" "done_with s bs st"
    "bc_max_entries cfg > 0 \<longrightarrow> im_total st \<le> bc_max_entries cfg"
  shows "stored (bs @ accounts_of env cfg files ks) s (im_store st') \<and> im_ok st' = im_ok st + int (length (accounts_of env cfg files ks)) \<and>
    (bc_max_entries cfg > 0 \<longrightarrow> im_total st' \<le> bc_max_entries cfg) \<and>
    (converters_ok cfg \<and> (\<forall>k\<in>set ks. fr_error (fst (worker_file env cfg k (files ! k))) = []) \<longrightarrow>
       im_total st' - im_ok st' - im_failed st' - im_skipped st' = im_total st - im_ok st - im_failed st - im_skipped st)"
  using assms(1,3,4)
proof (induction ks arbitrary: st bs)
  case Nil
  then show ?case using flush_done [of env cfg st st' s bs] assms(2) by (auto simp: accounts_of_def done_with_def)
next
  case (Cons k ks)
  obtain fr as where w: "worker_file env cfg k (files ! k) = (fr, as)" by fastforce
  obtain st1 where t: "take_result env cfg save k fr as st = (None, st1)" "take_results env cfg save files ks st1 = (None, st')"
    using Cons.prems(1) w by (auto split: option.splits prod.splits)
  note ok = worker_file_ok [OF w]
  have r: "done_with s (bs @ dedupe as) st1 \<and> im_ok st1 = im_ok st + int (length (dedupe as)) \<and> im_total st1 = im_total st + fr_total fr \<and>
      im_failed st1 = im_failed st + fr_failed fr \<and>
      im_skipped st1 = im_skipped st + (int (length as) - int (length (dedupe as))) \<and>
      (bc_max_entries cfg > 0 \<longrightarrow> im_total st1 \<le> bc_max_entries cfg)"
    using result_done [OF t(1) assms(2) Cons.prems(2) conjunct1 [OF ok]] ok by auto
  have "bc_max_entries cfg > 0 \<longrightarrow> im_total st1 \<le> bc_max_entries cfg" using r by blast
  note IH = Cons.IH [OF t(2) conjunct1 [OF r] this]
  have "accounts_of env cfg files (k # ks) = dedupe as @ accounts_of env cfg files ks" by (simp add: accounts_of_def w)
  then show ?case using IH r ok w by auto
qed

lemma import_done:
  assumes "import_files env cfg (Some save) arrival files s = (None, rep, s')" "\<not> bc_dry_run cfg"
  defines "as \<equiv> accounts_of env (import_normalize cfg) files arrival"
  shows "stored as s s' \<and> ir_ok rep = int (length as) \<and>
    (bc_max_entries cfg > 0 \<longrightarrow> ir_total rep \<le> bc_max_entries cfg) \<and>
    (converters_ok cfg \<and> (\<forall>k\<in>set arrival. fr_error (fst (worker_file env (import_normalize cfg) k (files ! k))) = []) \<longrightarrow>
       ir_total rep = ir_ok rep + ir_failed rep + ir_skipped rep)"
proof -
  let ?cfg = "import_normalize cfg"
  let ?st = "\<lparr>im_files = replicate (length files) empty_result, im_total = 0, im_ok = 0, im_failed = 0, im_skipped = 0,
           im_buf = [], im_flushes = 0, im_store = s\<rparr>"
  have n: "bc_dry_run ?cfg = bc_dry_run cfg" "bc_max_entries ?cfg = bc_max_entries cfg" "bc_converter ?cfg = bc_converter cfg"
    by (simp_all add: import_normalize_def Let_def)
  obtain e st where r: "take_results env ?cfg save files arrival ?st = (e, st)" by fastforce
  have e: "e = None" "rep = report_of ?cfg st" "s' = im_store st"
    using assms(1) r n(1) by (auto simp: import_files_def Let_def split: option.splits import_error.splits if_splits)
  have "done_with s [] ?st" by (auto simp: done_with_def stored_def)
  from results_done [OF r [unfolded e(1)] _ this] assms(2)
  have d: "stored as s (im_store st)" "im_ok st = int (length as)" "bc_max_entries cfg > 0 \<longrightarrow> im_total st \<le> bc_max_entries cfg"
    "converters_ok ?cfg \<and> (\<forall>k\<in>set arrival. fr_error (fst (worker_file env ?cfg k (files ! k))) = []) \<longrightarrow>
       im_total st - im_ok st - im_failed st - im_skipped st = 0"
    unfolding as_def n by auto
  have "converters_ok ?cfg = converters_ok cfg" by (simp add: converters_ok_def n)
  with d show ?thesis unfolding e(2,3) report_of_def by (simp add: algebra_simps)
qed

end

text \<open>The catalog is such a store.\<close>

definition catalog_writer :: "int \<Rightarrow> account list \<Rightarrow> catalog \<Rightarrow> string option \<times> catalog" where
  "catalog_writer now as c =
     (case upsert_imported_many c now as of (Inl e, c') \<Rightarrow> (Some ''catalog'', c') | (Inr u, c') \<Rightarrow> (None, c'))"

lemma import_loop_append:
  "import_loop now (as @ bs) rs = (case import_loop now as rs of Inl e \<Rightarrow> Inl e | Inr rs' \<Rightarrow> import_loop now bs rs')"
  by (induction now as rs rule: import_loop.induct) (auto split: option.split)

interpretation cat_writer: bulk_writer "catalog_writer now" for now
proof
  fix as bs :: "account list" and c c1 c2
  assume a: "catalog_writer now as c = (None, c1)" "catalog_writer now bs c1 = (None, c2)"
  show "catalog_writer now (as @ bs) c = (None, c2)"
  proof (cases "as = [] \<or> bs = []")
    case True
    then show ?thesis using a by (auto simp: catalog_writer_def upsert_imported_many_def split: if_splits)
  next
    case False
    then obtain rs where rs: "cat_open c" "import_loop now as (cat_rows c) = Inr rs" "c1 = c\<lparr>cat_rows := rs\<rparr>"
      using a(1) by (auto simp: catalog_writer_def upsert_imported_many_def split: if_splits sum.splits)
    moreover have "cat_open c1" using rs by simp
    moreover obtain rs2 where "import_loop now bs rs = Inr rs2" "c2 = c1\<lparr>cat_rows := rs2\<rparr>"
      using a(2) False rs \<open>cat_open c1\<close> by (auto simp: catalog_writer_def upsert_imported_many_def split: sum.splits)
    ultimately show ?thesis using False
      by (simp add: catalog_writer_def upsert_imported_many_def import_loop_append)
  qed
qed

lemma import_loop_frame:
  "import_loop now as rs = Inr rs' \<Longrightarrow> i \<notin> acc_id ` set as \<Longrightarrow> map_of rs' i = map_of rs i"
  by (induction now as rs rule: import_loop.induct) (auto split: option.splits)

lemma import_loop_last:
  assumes "import_loop now (xs @ a # ys) rs = Inr rs'" "acc_id a \<notin> acc_id ` set ys"
  shows "\<exists>rs1. import_loop now xs rs = Inr rs1 \<and> map_of rs' (acc_id a) = Some (import_row now a (map_of rs1 (acc_id a)))"
proof -
  obtain rs1 where 1: "import_loop now xs rs = Inr rs1" "import_loop now (a # ys) rs1 = Inr rs'"
    using assms(1) by (auto simp: import_loop_append split: sum.splits)
  then have "import_loop now ys (gm_put (acc_id a) (import_row now a (map_of rs1 (acc_id a))) rs1) = Inr rs'"
    by (auto split: option.splits)
  from import_loop_frame [OF this assms(2)] 1(1) show ?thesis by auto
qed

section \<open>What an import leaves in the catalog\<close>

lemma import_in_one_write_facts:
  assumes "import_files env cfg (Some (catalog_writer now)) arrival files c = (None, rep, c')" "\<not> bc_dry_run cfg"
  defines "as \<equiv> accounts_of env (import_normalize cfg) files arrival"
  shows "(if as = [] then c' = c else upsert_imported_many c now as = (Inr (), c'))" and "ir_ok rep = int (length as)"
    and "bc_max_entries cfg > 0 \<Longrightarrow> ir_total rep \<le> bc_max_entries cfg"
    and "converters_ok cfg \<Longrightarrow> \<forall>k\<in>set arrival. fr_error (fst (worker_file env (import_normalize cfg) k (files ! k))) = [] \<Longrightarrow>
      ir_total rep = ir_ok rep + ir_failed rep + ir_skipped rep"
proof -
  note d = cat_writer.import_done [OF assms(1,2)]
  have w: "catalog_writer now xs c = (None, c') \<Longrightarrow> upsert_imported_many c now xs = (Inr (), c')" for xs
    by (auto simp: catalog_writer_def split: sum.splits prod.splits)
  show "if as = [] then c' = c else upsert_imported_many c now as = (Inr (), c')"
    using d w by (auto simp: cat_writer.stored_def as_def split: if_splits)
  show "ir_ok rep = int (length as)" using d by (simp add: as_def)
  show "bc_max_entries cfg > 0 \<Longrightarrow> ir_total rep \<le> bc_max_entries cfg" using d by blast
  show "converters_ok cfg \<Longrightarrow> \<forall>k\<in>set arrival. fr_error (fst (worker_file env (import_normalize cfg) k (files ! k))) = [] \<Longrightarrow>
      ir_total rep = ir_ok rep + ir_failed rep + ir_skipped rep"
    using d by blast
qed

text \<open>
  C15. Batches, workers and the order in which the files finish do not show. An import that reports no error leaves the catalog as
  one single \<open>UpsertImportedMany\<close> of the accounts of all files would: of each file the last account of
  each id, the files in the order in which they finished; it reports as stored just as many; under a limit it took no more entries than
  that. If no file has an error, every entry is stored, failed or skipped.
\<close>

theorem import_in_one_write:
  assumes "import_files env cfg (Some (catalog_writer now)) arrival files c = (None, rep, c')" "\<not> bc_dry_run cfg"
    and "as = accounts_of env (import_normalize cfg) files arrival"
  shows "(if as = [] then c' = c else upsert_imported_many c now as = (Inr (), c')) \<and> ir_ok rep = int (length as) \<and>
    (bc_max_entries cfg > 0 \<longrightarrow> ir_total rep \<le> bc_max_entries cfg) \<and>
    (converters_ok cfg \<and> (\<forall>k\<in>set arrival. fr_error (fst (worker_file env (import_normalize cfg) k (files ! k))) = []) \<longrightarrow>
      ir_total rep = ir_ok rep + ir_failed rep + ir_skipped rep)"
  using import_in_one_write_facts [OF assms(1,2), folded assms(3)] by blast

lemma imported_tokens_stored_facts:
  assumes "import_files env cfg (Some (catalog_writer now)) arrival files c = (None, rep, c')" "\<not> bc_dry_run cfg"
  defines "as \<equiv> accounts_of env (import_normalize cfg) files arrival"
  shows "as = xs @ a # ys \<Longrightarrow> acc_id a \<notin> acc_id ` set ys \<Longrightarrow>
      \<exists>row. map_of (cat_rows c') (acc_id a) = Some row \<and> acc_access_token row = acc_access_token a \<and>
        acc_refresh_token row = acc_refresh_token a \<and> acc_expires_at row = acc_expires_at a"
    and "map_of (cat_rows c) i = Some old \<Longrightarrow> \<exists>row. map_of (cat_rows c') i = Some row \<and> same_management old row"
    and "i \<notin> acc_id ` set as \<Longrightarrow> map_of (cat_rows c') i = map_of (cat_rows c) i"
proof -
  note d = cat_writer.import_done [OF assms(1,2)]
  have loop: "import_loop now as (cat_rows c) = Inr (cat_rows c')"
    using d by (auto simp: cat_writer.stored_def as_def catalog_writer_def upsert_imported_many_def split: if_splits sum.splits)
  show "\<exists>row. map_of (cat_rows c') (acc_id a) = Some row \<and> acc_access_token row = acc_access_token a \<and>
      acc_refresh_token row = acc_refresh_token a \<and> acc_expires_at row = acc_expires_at a"
    if e: "as = xs @ a # ys" and n: "acc_id a \<notin> acc_id ` set ys"
  proof -
    obtain rs1 where "map_of (cat_rows c') (acc_id a) = Some (import_row now a (map_of rs1 (acc_id a)))"
      using import_loop_last [OF loop [unfolded e] n] by blast
    then show ?thesis by (simp add: import_row_def upsert_row_def Let_def split: option.split)
  qed
  show "map_of (cat_rows c) i = Some old \<Longrightarrow> \<exists>row. map_of (cat_rows c') i = Some row \<and> same_management old row"
    using import_loop_same [OF loop] by blast
  show "i \<notin> acc_id ` set as \<Longrightarrow> map_of (cat_rows c') i = map_of (cat_rows c) i"
    by (rule import_loop_frame [OF loop])
qed

text \<open>
  C16. An imported account is in the catalog, and only its credentials are new. After an import without error the row of every account that no later
  one of the import replaces has its tokens and expiry; a row that was there before keeps its
  health and its management, whatever the files say; and a row whose id the import does not contain is as it was.
\<close>

theorem imported_tokens_stored:
  assumes "import_files env cfg (Some (catalog_writer now)) arrival files c = (None, rep, c')" "\<not> bc_dry_run cfg"
    and "as = accounts_of env (import_normalize cfg) files arrival"
  shows "(as = xs @ a # ys \<and> acc_id a \<notin> acc_id ` set ys \<longrightarrow>
      (\<exists>row. map_of (cat_rows c') (acc_id a) = Some row \<and> acc_access_token row = acc_access_token a \<and>
        acc_refresh_token row = acc_refresh_token a \<and> acc_expires_at row = acc_expires_at a)) \<and>
    (map_of (cat_rows c) i = Some old \<longrightarrow> (\<exists>row. map_of (cat_rows c') i = Some row \<and> same_management old row)) \<and>
    (i \<notin> acc_id ` set as \<longrightarrow> map_of (cat_rows c') i = map_of (cat_rows c) i)"
  using imported_tokens_stored_facts [OF assms(1,2), folded assms(3)] by blast

section \<open>Samples\<close>

definition duo :: "string \<Rightarrow> string \<Rightarrow> json list" where
  "duo a b =
     [JArr [JObj [(''key'', JStr a), (''refresh_token'', JStr ''r''), (''user_id'', JStr ''u'')],
            JObj [(''access_token'', JStr b), (''refresh_token'', JStr ''s''), (''user_id'', JStr ''v'')]]]"

definition sample_import_env :: import_env where
  "sample_import_env =
     \<lparr>bv_auth = sample_auth_env\<lparr>au_docs := (\<lambda>s. (if s = ''one'' then duo ''a'' ''b'' else if s = ''two'' then duo ''c'' ''d'' else [], False))\<rparr>,
      bv_row = (\<lambda>s. None), bv_read = (\<lambda>p. Some (take 3 p)), bv_stat = (\<lambda>p. None), bv_list = (\<lambda>p. None),
      bv_now = 5, bv_gone = (\<lambda>k n. False), bv_flush_gone = (\<lambda>n. False), bv_rss = (\<lambda>n. None)\<rparr>"

definition sample_import_config :: import_config where
  "sample_import_config =
     \<lparr>bc_format = [], bc_workers = 0, bc_batch = 1, bc_dry_run = False, bc_max_rss = 0, bc_progress_every = 0,
      bc_converter = None, bc_max_entries = 4, bc_max_line = 0, bc_max_sso = 0\<rparr>"

definition sample_files :: "input_file list" where
  "sample_files = [\<lparr>if_path = ''two.json'', if_format = ''auto''\<rparr>, \<lparr>if_path = ''one.json'', if_format = ''auto''\<rparr>]"

definition sample_import_catalog :: catalog where
  "sample_import_catalog = \<lparr>cat_open = True, cat_rows = [], cat_models = []\<rparr>"

definition sample_import :: "import_error option \<times> import_report \<times> catalog" where
  "sample_import =
     import_files sample_import_env sample_import_config (Some (catalog_writer 5)) [1, 0] sample_files sample_import_catalog"

definition sample_accounts :: "account list" where
  "sample_accounts = accounts_of sample_import_env (import_normalize sample_import_config) sample_files [1, 0]"


lemma sample_import_done:
  "import_files sample_import_env sample_import_config (Some (catalog_writer 5)) [1, 0] sample_files sample_import_catalog =
     (None, fst (snd sample_import), snd (snd sample_import))"
proof -
  have "fst sample_import = None" by code_simp
  then show ?thesis unfolding sample_import_def by (simp only: prod_eq_iff fst_conv snd_conv)
qed

lemma sample_files_ok:
  "\<forall>k\<in>set [1, 0]. fr_error (fst (worker_file sample_import_env (import_normalize sample_import_config) k (sample_files ! k))) = []"
  by code_simp

theorem import_in_one_write_witness:
  "upsert_imported_many sample_import_catalog 5 sample_accounts = (Inr (), snd (snd sample_import)) \<and>
   ir_ok (fst (snd sample_import)) = 4 \<and> ir_total (fst (snd sample_import)) = 4"
proof -
  have run: "\<not> bc_dry_run sample_import_config" "bc_max_entries sample_import_config = 4" "converters_ok sample_import_config"
    by (simp_all add: sample_import_config_def converters_ok_def)
  have n: "length sample_accounts = 4" by code_simp
  note w = import_in_one_write [OF sample_import_done run(1) sample_accounts_def]
  have "ir_total (fst (snd sample_import)) =
      ir_ok (fst (snd sample_import)) + ir_failed (fst (snd sample_import)) + ir_skipped (fst (snd sample_import))"
    using w run(3) sample_files_ok by blast
  moreover have "ir_failed (fst (snd sample_import)) = 0" "ir_skipped (fst (snd sample_import)) = 0" by code_simp+
  ultimately show ?thesis using w n by (auto split: if_splits)
qed

theorem imported_tokens_stored_witness:
  "\<exists>row. map_of (cat_rows (snd (snd sample_import))) (acc_id (sample_accounts ! 2)) = Some row \<and>
     acc_access_token row = ''c'' \<and> acc_refresh_token row = ''r'' \<and> acc_expires_at row = acc_expires_at (sample_accounts ! 2)"
proof -
  have run: "\<not> bc_dry_run sample_import_config" by (simp add: sample_import_config_def)
  have "length sample_accounts = 4" by code_simp
  then have e: "sample_accounts = take 2 sample_accounts @ sample_accounts ! 2 # drop (Suc 2) sample_accounts"
    by (intro id_take_nth_drop) simp
  have n: "acc_id (sample_accounts ! 2) \<notin> acc_id ` set (drop (Suc 2) sample_accounts)" by code_simp
  have t: "acc_access_token (sample_accounts ! 2) = ''c''" "acc_refresh_token (sample_accounts ! 2) = ''r''" by code_simp+
  from imported_tokens_stored [OF sample_import_done run sample_accounts_def] e n t show ?thesis by metis
qed

end
