(* ===== verification/Jobs.thy ===== *)
theory Jobs
  imports BulkImport
begin

text \<open>
  Import jobs (\<open>internal/importjobs/jobs.go\<close>): the table of jobs, the slots of running jobs and uploads, the staging
  directory and the goroutine of each job.

  The goroutines are the list \<open>jm_tasks\<close>; every step of one, between two locks of the manager's mutex, is an operation.
  An upload permit is a number. The staging directory is a map from paths to its files;
  whether the operating system carries a call out, what the random source and the clock give, and the
  resolution of symbolic links are arguments.
\<close>

section \<open>Names\<close>

text \<open>The runes of a byte string as \<open>range\<close> reads them: a byte that begins no valid encoding is U+FFFD.\<close>

abbreviation tail_byte :: "nat \<Rightarrow> bool" where "tail_byte b \<equiv> 128 \<le> b \<and> b \<le> 191"

definition first_rune :: "nat \<Rightarrow> nat list \<Rightarrow> nat \<times> nat" where
  "first_rune a t =
     (if a < 128 then (a, 0)
      else case t of
        [] \<Rightarrow> (65533, 0)
      | b # t \<Rightarrow>
          if 194 \<le> a \<and> a \<le> 223 \<and> tail_byte b then ((a - 192) * 64 + (b - 128), 1)
          else (case t of
            [] \<Rightarrow> (65533, 0)
          | c # t \<Rightarrow>
              if 224 \<le> a \<and> a \<le> 239 \<and> tail_byte b \<and> (a = 224 \<longrightarrow> 160 \<le> b) \<and> (a = 237 \<longrightarrow> b \<le> 159) \<and> tail_byte c
              then ((a - 224) * 4096 + (b - 128) * 64 + (c - 128), 2)
              else (case t of
                [] \<Rightarrow> (65533, 0)
              | d # t \<Rightarrow>
                  if 240 \<le> a \<and> a \<le> 244 \<and> tail_byte b \<and> (a = 240 \<longrightarrow> 144 \<le> b) \<and> (a = 244 \<longrightarrow> b \<le> 143) \<and> tail_byte c \<and> tail_byte d
                  then ((a - 240) * 262144 + (b - 128) * 4096 + (c - 128) * 64 + (d - 128), 3)
                  else (65533, 0))))"

function runes_of :: "nat list \<Rightarrow> nat list" where
  "runes_of [] = []"
| "runes_of (a # t) = fst (first_rune a t) # runes_of (drop (snd (first_rune a t)) t)"
  by pat_completeness auto
termination by (relation "measure length") auto

definition rune_bytes :: "nat \<Rightarrow> nat list" where
  "rune_bytes r =
     (if r < 128 then [r]
      else if r < 2048 then [192 + r div 64, 128 + r mod 64]
      else if r < 65536 then [224 + r div 4096, 128 + r div 64 mod 64, 128 + r mod 64]
      else [240 + r div 262144, 128 + r div 4096 mod 64, 128 + r div 64 mod 64, 128 + r mod 64])"

definition utf8 :: "nat list \<Rightarrow> string" where
  "utf8 rs = map char_of (concat (map rune_bytes rs))"

definition kept_rune :: "nat \<Rightarrow> bool" where
  "kept_rune r \<longleftrightarrow> \<not> (r < 32 \<or> 127 \<le> r \<and> r < 160) \<and> r \<noteq> 47 \<and> r \<noteq> 92"

definition browser_upload :: "nat list" where
  "browser_upload = [0x6D4F, 0x89C8, 0x5668, 0x4E0A, 0x4F20]"

definition sanitize_source_name :: "string \<Rightarrow> string" where
  "sanitize_source_name name =
     (let rs = filter kept_rune (runes_of (map of_char (path_base (trim_space name))));
          rs = (if rs = [] \<or> rs = [46] then browser_upload else rs) in
      utf8 (if length rs > 120 then take 120 rs else rs))"

definition hex_digit :: "char \<Rightarrow> bool" where
  "hex_digit c \<longleftrightarrow> (CHR ''0'' \<le> c \<and> c \<le> CHR ''9'') \<or> (CHR ''a'' \<le> c \<and> c \<le> CHR ''f'') \<or> (CHR ''A'' \<le> c \<and> c \<le> CHR ''F'')"

definition valid_staging_name :: "string \<Rightarrow> bool" where
  "valid_staging_name name =
     (has_prefix name ''upload-'' \<and>
      (case find (has_suffix name) [''.part'', ''.ready'', ''.work''] of
         None \<Rightarrow> False
       | Some suffix \<Rightarrow>
           let hex = trim_suffix (trim_prefix name ''upload-'') suffix in length hex = 32 \<and> list_all hex_digit hex))"

definition valid_ready_name :: "string \<Rightarrow> bool" where
  "valid_ready_name name = (has_suffix name ''.ready'' \<and> valid_staging_name name)"

function replace_all :: "string \<Rightarrow> string \<Rightarrow> string \<Rightarrow> string" where
  "replace_all old new [] = []"
| "replace_all old new (c # cs) =
     (if has_prefix (c # cs) old then new @ replace_all old new (drop (length old - 1) cs)
      else c # replace_all old new cs)"
  by pat_completeness auto
termination by (relation "measure (\<lambda>(old, new, s). length s)") auto

definition safe_job_error :: "string \<Rightarrow> string \<Rightarrow> string \<Rightarrow> string" where
  "safe_job_error msg path data_dir =
     (let msg = (if path \<noteq> [] then replace_all path ''input file'' msg else msg);
          msg = (if data_dir \<noteq> [] then replace_all data_dir ''data directory'' msg else msg) in
      if length msg > 300 then take 300 msg else msg)"

section \<open>The manager\<close>

datatype job_state = StateQueued | StateRunning | StateSucceeded | StateFailed

datatype jobs_error =
  JobNotFound | JobInvalidPath | JobInvalidFormat string | JobBusy | UploadTooLarge | EmptyUpload | ServerPathDisabled
| ConverterUnavailable | JobsClosed | JobsNotConfigured | JobsRandom | InvalidPermit | JobIdTaken | StagingUnsafe
| StagingIo | JobsWaiting

record import_job =
  jb_id :: string
  jb_format :: string
  jb_source :: string
  jb_state :: job_state
  jb_total :: int
  jb_ok :: int
  jb_fail :: int
  jb_skipped :: int
  jb_phase :: string
  jb_message :: string
  jb_error :: string
  jb_started :: int
  jb_finished :: int

text \<open>The type of \<open>Converter\<close> is the one of the bulk import; of \<open>AfterImport\<close> only whether it is set.\<close>

record jobs_options =
  jo_max_jobs :: int
  jo_workers :: int
  jo_max_entries :: int
  jo_max_line :: int
  jo_max_sso :: int
  jo_timeout :: int
  jo_stale_after :: int
  jo_server_path :: bool
  jo_server_dir :: string
  jo_converter :: "(string list \<Rightarrow> string + converted list) option"
  jo_after_import :: bool

record staged_upload =
  su_path :: string
  su_source :: string
  su_staging_dir :: string

record job_input =
  ji_path :: string
  ji_source :: string
  ji_cleanup :: bool

record staged_file =
  sf_regular :: bool
  sf_time :: int

text \<open>What a goroutine has left to do is its input; \<open>jt_format\<close> is the argument of \<open>run\<close>.\<close>

record job_task =
  jt_id :: string
  jt_input :: job_input
  jt_format :: string

record jobs_manager =
  jm_data_dir :: string
  jm_staging_dir :: string
  jm_catalog :: bool
  jm_opts :: jobs_options
  jm_init_error :: bool
  jm_jobs :: "(string, import_job) gomap"
  jm_order :: "string list"
  jm_permits :: "nat list"
  jm_max_keep :: nat
  jm_running :: int
  jm_uploading :: int
  jm_closing :: bool
  jm_files :: "(string, staged_file) gomap"
  jm_next_permit :: nat
  jm_tasks :: "job_task list"

definition apply_options :: "jobs_options \<Rightarrow> jobs_manager \<Rightarrow> jobs_manager" where
  "apply_options o' m =
     (let cur = jm_opts m; pos = (\<lambda>(new :: int) old. if new > 0 then new else old) in
      m\<lparr>jm_opts := cur\<lparr>jo_max_jobs := pos (jo_max_jobs o') (jo_max_jobs cur), jo_workers := pos (jo_workers o') (jo_workers cur),
          jo_max_entries := pos (jo_max_entries o') (jo_max_entries cur), jo_max_line := pos (jo_max_line o') (jo_max_line cur),
          jo_max_sso := pos (jo_max_sso o') (jo_max_sso cur), jo_timeout := pos (jo_timeout o') (jo_timeout cur),
          jo_stale_after := pos (jo_stale_after o') (jo_stale_after cur), jo_server_path := jo_server_path o',
          jo_server_dir := (if trim_space (jo_server_dir o') \<noteq> [] then trim_space (jo_server_dir o')
                            else if jo_server_dir o' = [] then [] else jo_server_dir cur),
          jo_converter := (case jo_converter o' of Some c \<Rightarrow> Some c | None \<Rightarrow> jo_converter cur),
          jo_after_import := (jo_after_import o' \<or> jo_after_import cur)\<rparr>\<rparr>)"

text \<open>\<open>cleanupStaleUploads\<close>: stale staging files go away, unless the system refuses.\<close>

definition stale_upload :: "jobs_manager \<Rightarrow> int \<Rightarrow> string \<Rightarrow> staged_file \<Rightarrow> bool" where
  "stale_upload m now path f \<longleftrightarrow>
     path_join (jm_staging_dir m) (path_base path) = path \<and> valid_staging_name (path_base path) \<and> sf_regular f \<and>
     sf_time f < now - jo_stale_after (jm_opts m)"

definition cleanup_stale_uploads :: "(string \<Rightarrow> bool) \<Rightarrow> int \<Rightarrow> jobs_manager \<Rightarrow> jobs_manager" where
  "cleanup_stale_uploads refused now m =
     m\<lparr>jm_files := filter (\<lambda>(p, f). \<not> (stale_upload m now p f \<and> \<not> refused p)) (jm_files m)\<rparr>"

text \<open>\<open>newManager\<close>: \<open>abs_path\<close> is \<open>filepath.Abs\<close>, \<open>cpus\<close> the default number of workers, \<open>ready\<close> whether the staging directory can be made.\<close>

definition new_manager ::
  "(string \<Rightarrow> string option) \<Rightarrow> int \<Rightarrow> bool \<Rightarrow> (string \<Rightarrow> bool) \<Rightarrow> int \<Rightarrow> (string, staged_file) gomap \<Rightarrow> string \<Rightarrow> bool
   \<Rightarrow> jobs_options \<Rightarrow> jobs_manager option" where
  "new_manager abs_path cpus ready refused now files dir0 cat opts =
     (let dir = path_clean (trim_space dir0); pos = (\<lambda>(v :: int) d. if v \<le> 0 then d else v) in
      if dir = ''.'' \<or> dir = [] then None
      else
        let dir = (case abs_path dir of Some d \<Rightarrow> d | None \<Rightarrow> dir);
            m = \<lparr>jm_data_dir = dir, jm_staging_dir = path_join dir ''.import-staging'', jm_catalog = cat,
                 jm_opts = opts\<lparr>jo_max_jobs := pos (jo_max_jobs opts) 2, jo_workers := pos (jo_workers opts) cpus,
                   jo_timeout := pos (jo_timeout opts) 7200, jo_stale_after := pos (jo_stale_after opts) 86400\<rparr>,
                 jm_init_error = False, jm_jobs = [], jm_order = [], jm_permits = [], jm_max_keep = 100, jm_running = 0,
                 jm_uploading = 0, jm_closing = False, jm_files = files, jm_next_permit = 0, jm_tasks = []\<rparr> in
        if ready then Some (cleanup_stale_uploads refused now m) else None)"

section \<open>Uploads\<close>

definition reserve_upload :: "jobs_manager \<Rightarrow> (jobs_error + nat) \<times> jobs_manager" where
  "reserve_upload m =
     (if jm_init_error m then (Inl JobsNotConfigured, m)
      else if jm_closing m then (Inl JobsClosed, m)
      else if jm_running m + jm_uploading m \<ge> jo_max_jobs (jm_opts m) then (Inl JobBusy, m)
      else (Inr (jm_next_permit m),
        m\<lparr>jm_uploading := jm_uploading m + 1, jm_permits := jm_next_permit m # jm_permits m, jm_next_permit := Suc (jm_next_permit m)\<rparr>))"

definition release_permit :: "nat \<Rightarrow> jobs_manager \<Rightarrow> jobs_manager" where
  "release_permit p m =
     (if p \<notin> set (jm_permits m) then m
      else m\<lparr>jm_permits := remove1 p (jm_permits m),
             jm_uploading := (if jm_uploading m > 0 then jm_uploading m - 1 else jm_uploading m)\<rparr>)"

text \<open>
  The world of an upload: the reader (how many bytes it gives, and whether it fails then), the random bytes, which
  calls succeed, and the clock. A file that the clean-up cannot remove stays.
\<close>

record stage_world =
  sw_reader :: "(int \<times> bool) option"
  sw_safe :: bool
  sw_random :: "string option"
  sw_create :: bool
  sw_close :: bool
  sw_rename :: bool
  sw_remove :: bool
  sw_now :: int

definition copied :: "int \<Rightarrow> int \<times> bool \<Rightarrow> int option" where
  "copied max_bytes rd =
     (case rd of (n, fails) \<Rightarrow>
        if max_bytes > 0 \<and> n \<ge> max_bytes + 1 then Some (max_bytes + 1) else if fails then None else Some n)"

definition stage_reserved_upload ::
  "stage_world \<Rightarrow> string \<Rightarrow> int \<Rightarrow> nat option \<Rightarrow> jobs_manager \<Rightarrow> (jobs_error + staged_upload) \<times> jobs_manager" where
  "stage_reserved_upload w source max_bytes permit m =
     (if jm_init_error m \<or> trim_space (jm_staging_dir m) = [] then (Inl JobsNotConfigured, m)
      else if permit = None \<or> the permit \<notin> set (jm_permits m) then (Inl InvalidPermit, m)
      else if jm_closing m then (Inl JobsClosed, m)
      else case sw_reader w of
        None \<Rightarrow> (Inl EmptyUpload, m)
      | Some rd \<Rightarrow>
          if \<not> sw_safe w then (Inl StagingUnsafe, m)
          else case sw_random w of
            None \<Rightarrow> (Inl JobsRandom, m)
          | Some random \<Rightarrow>
              let base = path_join (jm_staging_dir m) (''upload-'' @ random); part = base @ ''.part''; ready = base @ ''.ready'';
                  created = gm_put part \<lparr>sf_regular = True, sf_time = sw_now w\<rparr> (jm_files m);
                  dropped = m\<lparr>jm_files := (if sw_remove w then gm_del ready (gm_del part created) else created)\<rparr> in
              if map_of (jm_files m) part \<noteq> None \<or> \<not> sw_create w then (Inl StagingIo, m)
              else case copied max_bytes rd of
                None \<Rightarrow> (Inl StagingIo, dropped)
              | Some n \<Rightarrow>
                  if n = 0 then (Inl EmptyUpload, dropped)
                  else if max_bytes > 0 \<and> n > max_bytes then (Inl UploadTooLarge, dropped)
                  else if \<not> sw_close w \<or> \<not> sw_rename w then (Inl StagingIo, dropped)
                  else (Inr \<lparr>su_path = ready, su_source = sanitize_source_name source, su_staging_dir = jm_staging_dir m\<rparr>,
                    m\<lparr>jm_files := gm_put ready \<lparr>sf_regular = True, sf_time = sw_now w\<rparr> (gm_del part created)\<rparr>))"

text \<open>\<open>StageUpload\<close>: the permit is released in any case.\<close>

definition stage_upload :: "stage_world \<Rightarrow> string \<Rightarrow> int \<Rightarrow> jobs_manager \<Rightarrow> (jobs_error + staged_upload) \<times> jobs_manager" where
  "stage_upload w source max_bytes m =
     (case reserve_upload m of
        (Inl e, m1) \<Rightarrow> (Inl e, m1)
      | (Inr p, m1) \<Rightarrow>
          (case stage_reserved_upload w source max_bytes (Some p) m1 of (r, m2) \<Rightarrow> (r, release_permit p m2)))"

definition remove_staged :: "bool \<Rightarrow> staged_upload \<Rightarrow> jobs_manager \<Rightarrow> jobs_error option \<times> jobs_manager" where
  "remove_staged removed s m =
     (let path = path_clean (trim_space (su_path s)); dir = path_clean (trim_space (su_staging_dir s)) in
      if path = ''.'' \<or> dir = ''.'' then (None, m)
      else if path_dir path \<noteq> dir \<or> \<not> valid_ready_name (path_base path) then (Some JobInvalidPath, m)
      else case map_of (jm_files m) path of
        None \<Rightarrow> (None, m)
      | Some f \<Rightarrow>
          if \<not> sf_regular f then (Some JobInvalidPath, m)
          else if removed then (None, m\<lparr>jm_files := gm_del path (jm_files m)\<rparr>) else (Some StagingIo, m))"

section \<open>Submitting a job\<close>

definition job_done :: "import_job \<Rightarrow> bool" where
  "job_done j \<longleftrightarrow> jb_state j = StateSucceeded \<or> jb_state j = StateFailed"

definition listed_done :: "jobs_manager \<Rightarrow> string \<Rightarrow> bool" where
  "listed_done m i \<longleftrightarrow> (case map_of (jm_jobs m) i of None \<Rightarrow> False | Some j \<Rightarrow> job_done j)"

text \<open>\<open>trimLocked\<close>: the oldest finished job goes first; with none, the table stays too long.\<close>

function trim_locked :: "jobs_manager \<Rightarrow> jobs_manager" where
  "trim_locked m =
     (if length (jm_order m) \<le> jm_max_keep m then m
      else case find (listed_done m) (jm_order m) of
        None \<Rightarrow> m
      | Some i \<Rightarrow> trim_locked (m\<lparr>jm_order := remove1 i (jm_order m), jm_jobs := gm_del i (jm_jobs m)\<rparr>))"
  by pat_completeness auto
termination
  proof (relation "measure (\<lambda>m. length (jm_order m))", goal_cases)
  case (2 m i)
  then have "i \<in> set (jm_order m)" by (auto simp: find_Some_iff)
  then show ?case by (auto simp: length_remove1 intro!: diff_less length_pos_if_in_set)
qed simp

declare trim_locked.simps [simp del]

definition validate_format :: "jobs_manager \<Rightarrow> string \<Rightarrow> bool \<Rightarrow> jobs_error + string" where
  "validate_format m raw allow_auto =
     (let f = to_lower (trim_space raw); f = (if f = [] \<and> allow_auto then ''auto'' else f) in
      if f = ''json'' \<or> f = ''ndjson'' then Inr f
      else if f = ''sso'' then if jo_converter (jm_opts m) = None then Inl ConverterUnavailable else Inr f
      else if f = ''auto'' \<and> allow_auto then Inr f
      else Inl (JobInvalidFormat f))"

definition queued_job :: "string \<Rightarrow> string \<Rightarrow> string \<Rightarrow> int \<Rightarrow> import_job" where
  "queued_job i format source now =
     \<lparr>jb_id = i, jb_format = format, jb_source = source, jb_state = StateQueued, jb_total = 0, jb_ok = 0, jb_fail = 0, jb_skipped = 0,
      jb_phase = [], jb_message = [], jb_error = [], jb_started = now, jb_finished = zero_time\<rparr>"

definition admit_job :: "(string, staged_file) gomap \<Rightarrow> import_job \<Rightarrow> job_task \<Rightarrow> jobs_manager \<Rightarrow> jobs_manager" where
  "admit_job files j t m =
     (let m1 = trim_locked (m\<lparr>jm_files := files, jm_jobs := gm_put (jb_id j) j (jm_jobs m), jm_order := jm_order m @ [jb_id j]\<rparr>) in
      m1\<lparr>jm_running := jm_running m1 + 1, jm_tasks := jm_tasks m1 @ [t]\<rparr>)"

text \<open>
  \<open>submit\<close>: \<open>random\<close> are the hexadecimal digits of the new id, \<open>renamed\<close> says whether the rename of the file would succeed. First
  what refuses it, in the order of the checks.
\<close>

definition submit_refused :: "bool \<Rightarrow> job_input \<Rightarrow> nat option \<Rightarrow> string \<Rightarrow> jobs_manager \<Rightarrow> jobs_error option" where
  "submit_refused renamed inp permit i m =
     (if jm_closing m then Some JobsClosed
      else if (case permit of Some p \<Rightarrow> p \<notin> set (jm_permits m) | None \<Rightarrow> False) then Some InvalidPermit
      else if permit = None \<and> jm_running m + jm_uploading m \<ge> jo_max_jobs (jm_opts m) then Some JobBusy
      else if map_of (jm_jobs m) i \<noteq> None then Some JobIdTaken
      else if ji_cleanup inp \<and> (map_of (jm_files m) (ji_path inp) = None \<or> \<not> renamed) then Some JobInvalidPath
      else None)"

text \<open>The file of an upload moves to the name of a work file.\<close>

definition work_path :: "string \<Rightarrow> string" where "work_path p = trim_suffix p ''.ready'' @ ''.work''"

definition take_file :: "job_input \<Rightarrow> (string, staged_file) gomap \<Rightarrow> (string, staged_file) gomap" where
  "take_file inp fs =
     (case map_of fs (ji_path inp) of
        Some f \<Rightarrow> if ji_cleanup inp then gm_put (work_path (ji_path inp)) f (gm_del (ji_path inp) fs) else fs
      | None \<Rightarrow> fs)"

definition submit ::
  "string option \<Rightarrow> bool \<Rightarrow> int \<Rightarrow> job_input \<Rightarrow> string \<Rightarrow> nat option \<Rightarrow> jobs_manager \<Rightarrow> (jobs_error + import_job) \<times> jobs_manager" where
  "submit random renamed now inp format permit m =
     (case random of
        None \<Rightarrow> (Inl JobsRandom, m)
      | Some r \<Rightarrow>
          let i = ''imp_'' @ r; j = queued_job i format (ji_source inp) now;
              inp1 = (if ji_cleanup inp then inp\<lparr>ji_path := work_path (ji_path inp)\<rparr> else inp);
              m1 = (case permit of Some p \<Rightarrow> release_permit p m | None \<Rightarrow> m) in
          (case submit_refused renamed inp permit i m of
             Some e \<Rightarrow> (Inl e, m)
           | None \<Rightarrow> (Inr j, admit_job (take_file inp (jm_files m)) j \<lparr>jt_id = i, jt_input = inp1, jt_format = format\<rparr> m1)))"

definition ensure_configured :: "jobs_manager \<Rightarrow> bool" where
  "ensure_configured m \<longleftrightarrow> jm_catalog m \<and> \<not> jm_init_error m"

text \<open>\<open>safeStagedPath\<close>; \<open>safe\<close>: the staging directory is a directory and no link.\<close>

definition safe_staged_path :: "bool \<Rightarrow> jobs_manager \<Rightarrow> string \<Rightarrow> string option" where
  "safe_staged_path safe m path0 =
     (let path = path_clean (trim_space path0) in
      if \<not> safe \<or> path_dir path \<noteq> jm_staging_dir m \<or> \<not> valid_ready_name (path_base path) then None
      else case map_of (jm_files m) path of Some f \<Rightarrow> if sf_regular f then Some path else None | None \<Rightarrow> None)"

text \<open>\<open>safePath\<close>: \<open>links\<close> resolves symbolic links, \<open>stat\<close> is true for a regular file or directory and false for anything else.\<close>

fun first_root :: "(string \<Rightarrow> string option) \<Rightarrow> (string \<Rightarrow> bool option) \<Rightarrow> string \<Rightarrow> string list \<Rightarrow> string option" where
  "first_root links stat target [] = None"
| "first_root links stat target (dir # dirs) =
     (case (links dir, links target) of
        (Some r, Some p) \<Rightarrow>
          (case path_rel r p of
             None \<Rightarrow> first_root links stat target dirs
           | Some rel \<Rightarrow>
               if rel = ''..'' \<or> has_prefix rel ''../'' then first_root links stat target dirs
               else case stat p of
                 None \<Rightarrow> first_root links stat target dirs
               | Some ok \<Rightarrow> if ok then Some p else None)
      | _ \<Rightarrow> first_root links stat target dirs)"

definition safe_path :: "(string \<Rightarrow> string option) \<Rightarrow> (string \<Rightarrow> bool option) \<Rightarrow> jobs_manager \<Rightarrow> string \<Rightarrow> string option" where
  "safe_path links stat m p0 =
     (let p = trim_space p0; dir = jm_data_dir m; server = trim_space (jo_server_dir (jm_opts m)) in
      if p = [] then None
      else
        let target = (if is_abs p then path_clean p else path_clean (path_join (if server \<noteq> [] then server else dir) p)) in
        first_root links stat target (dir # (if server \<noteq> [] then [server] else [])))"

definition submit_path ::
  "(string \<Rightarrow> string option) \<Rightarrow> (string \<Rightarrow> bool option) \<Rightarrow> string option \<Rightarrow> int \<Rightarrow> string \<Rightarrow> string \<Rightarrow> jobs_manager
   \<Rightarrow> (jobs_error + import_job) \<times> jobs_manager" where
  "submit_path links stat random now format path m =
     (if \<not> ensure_configured m then (Inl JobsNotConfigured, m)
      else if \<not> jo_server_path (jm_opts m) then (Inl ServerPathDisabled, m)
      else case validate_format m format True of
        Inl e \<Rightarrow> (Inl e, m)
      | Inr f \<Rightarrow>
          (case safe_path links stat m path of
             None \<Rightarrow> (Inl JobInvalidPath, m)
           | Some p \<Rightarrow>
               submit random True now \<lparr>ji_path = p, ji_source = sanitize_source_name (path_base p), ji_cleanup = False\<rparr> f None m))"

definition submit_upload ::
  "bool \<Rightarrow> string option \<Rightarrow> bool \<Rightarrow> int \<Rightarrow> string \<Rightarrow> staged_upload \<Rightarrow> nat option \<Rightarrow> jobs_manager
   \<Rightarrow> (jobs_error + import_job) \<times> jobs_manager" where
  "submit_upload safe random renamed now format upload permit m =
     (if \<not> ensure_configured m then (Inl JobsNotConfigured, m)
      else case validate_format m format False of
        Inl e \<Rightarrow> (Inl e, m)
      | Inr f \<Rightarrow>
          (case safe_staged_path safe m (su_path upload) of
             None \<Rightarrow> (Inl JobInvalidPath, m)
           | Some p \<Rightarrow>
               submit random renamed now \<lparr>ji_path = p, ji_source = sanitize_source_name (su_source upload), ji_cleanup = True\<rparr> f permit m))"

section \<open>Running a job\<close>

definition patch_job :: "string \<Rightarrow> (import_job \<Rightarrow> import_job) \<Rightarrow> jobs_manager \<Rightarrow> jobs_manager" where
  "patch_job i f m =
     (case map_of (jm_jobs m) i of None \<Rightarrow> m | Some j \<Rightarrow> m\<lparr>jm_jobs := gm_put i (f j) (jm_jobs m)\<rparr>)"

definition begin_job :: "int \<Rightarrow> import_job \<Rightarrow> import_job" where
  "begin_job now j = j\<lparr>jb_state := StateRunning, jb_started := now\<rparr>"

definition msg_parsing :: string where "msg_parsing = utf8 [0x89E3, 0x6790, 0x8F93, 0x5165]"
definition msg_converting :: string where
  "msg_converting = ''SSO '' @ utf8 [0x6362, 0x7968, 0x4E2D, 0xFF08] @ ''Device Flow'' @ utf8 [0xFF09]"
definition msg_writing :: string where "msg_writing = utf8 [0x5199, 0x5165, 0x8D26, 0x53F7, 0x5E93]"
definition msg_reloading :: string where "msg_reloading = utf8 [0x91CD, 0x5EFA, 0x70ED, 0x6C60]"
definition msg_failed :: string where "msg_failed = utf8 [0x5931, 0x8D25]"
definition msg_done :: string where "msg_done = utf8 [0x5B8C, 0x6210]"

definition phase_message :: "string \<Rightarrow> string" where
  "phase_message phase =
     (if phase = ''parsing'' then msg_parsing
      else if phase = ''converting'' then msg_converting
      else if phase = ''writing'' then msg_writing
      else if phase = ''reloading'' then msg_reloading
      else phase)"

definition detail_progress :: "int \<Rightarrow> int \<Rightarrow> int \<Rightarrow> string \<Rightarrow> import_job \<Rightarrow> import_job" where
  "detail_progress entries ok failed phase j =
     (let j1 = j\<lparr>jb_total := (if entries > jb_total j then entries else jb_total j), jb_ok := (if ok \<ge> 0 then ok else jb_ok j),
                 jb_fail := (if failed \<ge> 0 then failed else jb_fail j)\<rparr> in
      if phase = [] then j1 else j1\<lparr>jb_phase := phase, jb_message := phase_message phase\<rparr>)"

definition count_progress :: "int \<Rightarrow> import_job \<Rightarrow> import_job" where
  "count_progress ok j =
     (let j1 = (if ok > jb_ok j then j\<lparr>jb_ok := ok\<rparr> else j) in
      if jb_phase j1 \<in> {[], ''converting'', ''parsing''} then j1\<lparr>jb_phase := ''writing'', jb_message := msg_writing\<rparr> else j1)"

definition reload_progress :: "import_report \<Rightarrow> import_job \<Rightarrow> import_job" where
  "reload_progress rep j =
     j\<lparr>jb_phase := ''reloading'', jb_message := msg_reloading, jb_total := (if ir_total rep > 0 then ir_total rep else jb_total j),
       jb_ok := ir_ok rep, jb_fail := ir_failed rep\<rparr>"

definition failed_job :: "jobs_manager \<Rightarrow> job_input \<Rightarrow> string \<Rightarrow> import_report \<Rightarrow> int \<Rightarrow> import_job \<Rightarrow> import_job" where
  "failed_job m inp err rep now j =
     j\<lparr>jb_state := StateFailed, jb_error := safe_job_error err (ji_path inp) (jm_data_dir m), jb_total := ir_total rep,
       jb_ok := ir_ok rep, jb_fail := ir_failed rep, jb_skipped := ir_skipped rep, jb_phase := ''done'', jb_message := msg_failed,
       jb_finished := now\<rparr>"

definition finished_job :: "jobs_manager \<Rightarrow> job_input \<Rightarrow> import_report \<Rightarrow> int \<Rightarrow> import_job \<Rightarrow> import_job" where
  "finished_job m inp rep now j =
     (let j1 = j\<lparr>jb_state := StateSucceeded, jb_total := ir_total rep, jb_ok := ir_ok rep, jb_fail := ir_failed rep,
                 jb_skipped := ir_skipped rep, jb_phase := ''done'', jb_message := msg_done, jb_finished := now\<rparr> in
      if ir_failed rep > 0 \<and> ir_ok rep = 0
      then j1\<lparr>jb_state := StateFailed, jb_message := msg_failed,
              jb_error := (case ir_files rep of
                  f # _ \<Rightarrow> if trim_space (fr_error f) \<noteq> [] then safe_job_error (fr_error f) (ji_path inp) (jm_data_dir m)
                           else ''all entries failed''
                | [] \<Rightarrow> ''all entries failed'')\<rparr>
      else j1)"

definition panicked_job :: "int \<Rightarrow> import_job \<Rightarrow> import_job" where
  "panicked_job now j = j\<lparr>jb_state := StateFailed, jb_error := ''import task failed unexpectedly'', jb_finished := now\<rparr>"

definition uncleaned_job :: "int \<Rightarrow> import_job \<Rightarrow> import_job" where
  "uncleaned_job now j =
     j\<lparr>jb_state := StateFailed, jb_error := ''import completed but staged upload cleanup failed'', jb_finished := now\<rparr>"

text \<open>\<open>complete\<close>; \<open>removed\<close> says whether the removal of the work file would succeed. The goroutine ends.\<close>

definition complete_job :: "bool \<Rightarrow> int \<Rightarrow> job_task \<Rightarrow> (import_job \<Rightarrow> import_job) \<Rightarrow> jobs_manager \<Rightarrow> jobs_manager" where
  "complete_job removed now t f m =
     (let inp = jt_input t; there = ji_cleanup inp \<and> map_of (jm_files m) (ji_path inp) \<noteq> None;
          m1 = m\<lparr>jm_files := (if there \<and> removed then gm_del (ji_path inp) (jm_files m) else jm_files m),
                 jm_running := (if jm_running m > 0 then jm_running m - 1 else jm_running m),
                 jm_tasks := remove1 t (jm_tasks m)\<rparr>;
          g = (if there \<and> \<not> removed then uncleaned_job now \<circ> f else f) in
      trim_locked (patch_job (jt_id t) g m1))"

definition job_config :: "jobs_manager \<Rightarrow> string \<Rightarrow> import_config" where
  "job_config m format =
     (let o' = jm_opts m in
      \<lparr>bc_format = format, bc_workers = jo_workers o', bc_batch = 500, bc_dry_run = False, bc_max_rss = 0, bc_progress_every = 25,
       bc_converter = jo_converter o', bc_max_entries = jo_max_entries o', bc_max_line = jo_max_line o', bc_max_sso = jo_max_sso o'\<rparr>)"

text \<open>
  \<open>run\<close> from its start to its end, nothing in between: the import of the paths, the reload (\<open>after\<close> is its error) and the
  end of the job. \<open>text_of\<close> renders an error.
\<close>

definition run_job ::
  "import_env \<Rightarrow> (import_error \<Rightarrow> string) \<Rightarrow> (input_file list \<Rightarrow> nat list) \<Rightarrow> string option \<Rightarrow> bool \<Rightarrow> int \<Rightarrow> job_task
   \<Rightarrow> jobs_manager \<times> catalog \<Rightarrow> jobs_manager \<times> catalog" where
  "run_job env text_of arrival after removed now t w =
     (case w of (m0, c) \<Rightarrow>
        let m = patch_job (jt_id t) (begin_job now) m0; inp = jt_input t in
        case import_paths env (job_config m (jt_format t)) (Some (catalog_writer now)) arrival (ji_path inp) c of
          (Some e, rep, c') \<Rightarrow> (complete_job removed now t (failed_job m inp (text_of e) rep now) m, c')
        | (None, rep, c') \<Rightarrow>
            if jo_after_import (jm_opts m)
            then let m1 = patch_job (jt_id t) (reload_progress rep) m in
              (case after of
                 Some e \<Rightarrow> (complete_job removed now t (failed_job m1 inp e rep now) m1, c')
               | None \<Rightarrow> (complete_job removed now t (finished_job m1 inp rep now) m1, c'))
            else (complete_job removed now t (finished_job m inp rep now) m, c'))"

section \<open>Reading and closing\<close>

definition list_jobs :: "int \<Rightarrow> jobs_manager \<Rightarrow> import_job list" where
  "list_jobs lim0 m =
     (let lim = (if lim0 \<le> 0 \<or> lim0 > 200 then 50 else lim0) in
      take (nat lim) (List.map_filter (map_of (jm_jobs m)) (rev (jm_order m))))"

definition get_job :: "string \<Rightarrow> jobs_manager \<Rightarrow> jobs_error + import_job" where
  "get_job i m = (case map_of (jm_jobs m) i of None \<Rightarrow> Inl JobNotFound | Some j \<Rightarrow> Inr j)"

text \<open>\<open>Close\<close>: no job is admitted from then on; it returns when the goroutines have ended, or with the error of its context.\<close>

definition close_manager :: "jobs_manager \<Rightarrow> jobs_manager" where
  "close_manager m = m\<lparr>jm_closing := True\<rparr>"

definition close_returns :: "jobs_manager \<Rightarrow> jobs_error option" where
  "close_returns m = (if jm_tasks m = [] then None else Some JobsWaiting)"

section \<open>The table of jobs\<close>

text \<open>
  The table lists exactly the jobs of the map, and exactly the unfinished ones have a goroutine; it is longer than the limit
  only as long as nothing in it has finished.
\<close>

definition unfinished :: "jobs_manager \<Rightarrow> string \<Rightarrow> bool" where
  "unfinished m i \<longleftrightarrow> (case map_of (jm_jobs m) i of None \<Rightarrow> False | Some j \<Rightarrow> \<not> job_done j)"

definition trimmed :: "jobs_manager \<Rightarrow> bool" where
  "trimmed m \<longleftrightarrow> length (jm_order m) \<le> jm_max_keep m \<or> (\<forall>i\<in>set (jm_order m). unfinished m i)"

definition listing_ok :: "jobs_manager \<Rightarrow> bool" where
  "listing_ok m \<longleftrightarrow> gm_wf (jm_jobs m) \<and> distinct (jm_order m) \<and> set (jm_order m) = dom (map_of (jm_jobs m)) \<and>
     (\<forall>i j. map_of (jm_jobs m) i = Some j \<longrightarrow> jb_id j = i)"

definition tasks_ok :: "jobs_manager \<Rightarrow> bool" where
  "tasks_ok m \<longleftrightarrow> distinct (map jt_id (jm_tasks m)) \<and> jt_id ` set (jm_tasks m) = Collect (unfinished m) \<and>
     jm_running m = int (length (jm_tasks m))"

definition slots_ok :: "int \<Rightarrow> jobs_manager \<Rightarrow> bool" where
  "slots_ok bound m \<longleftrightarrow> distinct (jm_permits m) \<and> (\<forall>p\<in>set (jm_permits m). p < jm_next_permit m) \<and>
     jm_uploading m = int (length (jm_permits m)) \<and> jm_running m + jm_uploading m \<le> bound \<and> jo_max_jobs (jm_opts m) \<le> bound"

definition jobs_ok :: "int \<Rightarrow> jobs_manager \<Rightarrow> bool" where
  "jobs_ok bound m \<longleftrightarrow> listing_ok m \<and> tasks_ok m \<and> slots_ok bound m \<and> trimmed m"

lemma trim_frame [simp, frame_simps]:
  "jm_tasks (trim_locked m) = jm_tasks m" "jm_running (trim_locked m) = jm_running m" "jm_permits (trim_locked m) = jm_permits m"
  "jm_uploading (trim_locked m) = jm_uploading m" "jm_opts (trim_locked m) = jm_opts m" "jm_max_keep (trim_locked m) = jm_max_keep m"
  "jm_next_permit (trim_locked m) = jm_next_permit m" "jm_closing (trim_locked m) = jm_closing m" "jm_files (trim_locked m) = jm_files m"
  by (induction m rule: trim_locked.induct; subst trim_locked.simps; simp split: option.split)+

lemma trim_listing: "listing_ok m \<Longrightarrow> listing_ok (trim_locked m)"
proof (induction m rule: trim_locked.induct)
  case (1 m)
  have "listing_ok (m\<lparr>jm_order := remove1 i (jm_order m), jm_jobs := gm_del i (jm_jobs m)\<rparr>)" for i
    using 1(2) by (auto simp: listing_ok_def dom_def)
  then show ?case using 1 by (subst trim_locked.simps) (simp split: option.split)
qed

lemma trim_keeps:
  "map_of (jm_jobs (trim_locked m)) i = map_of (jm_jobs m) i \<or>
   map_of (jm_jobs (trim_locked m)) i = None \<and> listed_done m i \<and> length (jm_order m) > jm_max_keep m"
proof (induction m rule: trim_locked.induct)
  case (1 m)
  show ?case
  proof (cases "length (jm_order m) \<le> jm_max_keep m \<or> find (listed_done m) (jm_order m) = None")
    case True
    then show ?thesis by (subst trim_locked.simps; subst trim_locked.simps) auto
  next
    case False
    then obtain k where k: "\<not> length (jm_order m) \<le> jm_max_keep m" "find (listed_done m) (jm_order m) = Some k" by auto
    let ?m = "m\<lparr>jm_order := remove1 k (jm_order m), jm_jobs := gm_del k (jm_jobs m)\<rparr>"
    have t: "trim_locked m = trim_locked ?m" using k by (subst trim_locked.simps) simp
    have "listed_done m k" using k(2) by (auto simp: find_Some_iff)
    then show ?thesis using 1 [OF k] k(1) unfolding t by (cases "i = k") (auto simp: listed_done_def)
  qed
qed

lemma trim_unfinished: "unfinished (trim_locked m) i = unfinished m i"
  using trim_keeps [of m i] by (auto simp: unfinished_def listed_done_def split: option.splits)

lemma trim_unfinished_fun [simp]: "unfinished (trim_locked m) = unfinished m"
  using trim_unfinished by blast

lemma trim_trimmed: "listing_ok m \<Longrightarrow> trimmed (trim_locked m)"
proof (induction m rule: trim_locked.induct)
  case (1 m)
  show ?case
  proof (cases "length (jm_order m) \<le> jm_max_keep m \<or> find (listed_done m) (jm_order m) = None")
    case True
    then have "trim_locked m = m" by (subst trim_locked.simps) auto
    moreover have "trimmed m"
      using True 1(2) by (force simp: trimmed_def find_None_iff listed_done_def unfinished_def listing_ok_def split: option.split)
    ultimately show ?thesis by simp
  next
    case False
    then obtain k where k: "\<not> length (jm_order m) \<le> jm_max_keep m" "find (listed_done m) (jm_order m) = Some k" by auto
    let ?m = "m\<lparr>jm_order := remove1 k (jm_order m), jm_jobs := gm_del k (jm_jobs m)\<rparr>"
    have t: "trim_locked m = trim_locked ?m" using k by (subst trim_locked.simps) simp
    have "listing_ok ?m" using 1(2) by (auto simp: listing_ok_def dom_def)
    then show ?thesis using 1(1) [OF k] unfolding t by simp
  qed
qed

lemma patch_frame [simp, frame_simps]:
  "jm_tasks (patch_job i f m) = jm_tasks m" "jm_running (patch_job i f m) = jm_running m" "jm_permits (patch_job i f m) = jm_permits m"
  "jm_uploading (patch_job i f m) = jm_uploading m" "jm_opts (patch_job i f m) = jm_opts m" "jm_max_keep (patch_job i f m) = jm_max_keep m"
  "jm_next_permit (patch_job i f m) = jm_next_permit m" "jm_order (patch_job i f m) = jm_order m" "jm_files (patch_job i f m) = jm_files m"
  "jm_closing (patch_job i f m) = jm_closing m"
  by (auto simp: patch_job_def split: option.split)

lemma patch_get: "map_of (jm_jobs (patch_job i f m)) k = (if k = i then map_option f (map_of (jm_jobs m) i) else map_of (jm_jobs m) k)"
  by (auto simp: patch_job_def split: option.split)

lemma patch_listing: "listing_ok m \<Longrightarrow> (\<And>j. jb_id (f j) = jb_id j) \<Longrightarrow> listing_ok (patch_job i f m)"
  by (auto simp: listing_ok_def patch_job_def dom_def split: option.splits)

lemma patch_unfinished:
  "unfinished (patch_job i f m) k = (if k = i then (case map_of (jm_jobs m) i of None \<Rightarrow> False | Some j \<Rightarrow> \<not> job_done (f j)) else unfinished m k)"
  by (auto simp: unfinished_def patch_get split: option.splits)

section \<open>Every operation keeps it\<close>

text \<open>What an operation on uploads leaves alone.\<close>

definition same_table :: "jobs_manager \<Rightarrow> jobs_manager \<Rightarrow> bool" where
  "same_table m m' \<longleftrightarrow> jm_jobs m' = jm_jobs m \<and> jm_order m' = jm_order m \<and> jm_tasks m' = jm_tasks m \<and> jm_running m' = jm_running m \<and>
     jm_max_keep m' = jm_max_keep m"

lemma same_table_ok:
  assumes "same_table m m'" "jobs_ok bound m" "slots_ok bound m'"
  shows "jobs_ok bound m'"
proof -
  have "unfinished m' = unfinished m" using assms(1) by (auto simp: unfinished_def same_table_def fun_eq_iff)
  then show ?thesis using assms
    unfolding jobs_ok_def listing_ok_def tasks_ok_def trimmed_def same_table_def by metis
qed

lemma jobs_slots: "jobs_ok bound m \<Longrightarrow> slots_ok bound m"
  by (simp add: jobs_ok_def)

lemma reserve_ok:
  assumes "jobs_ok bound m"
  shows "jobs_ok bound (snd (reserve_upload m))"
proof -
  note s = jobs_slots [OF assms, unfolded slots_ok_def]
  have "jm_next_permit m \<notin> set (jm_permits m)" using s by blast
  then have "slots_ok bound (snd (reserve_upload m))" using s by (auto simp: reserve_upload_def slots_ok_def less_Suc_eq)
  moreover have "same_table m (snd (reserve_upload m))" by (simp add: reserve_upload_def same_table_def)
  ultimately show ?thesis using same_table_ok assms by blast
qed

lemma int_length_remove1: "p \<in> set ps \<Longrightarrow> int (length (remove1 p ps)) = int (length ps) - 1"
  by (induction ps) auto

lemma release_slots:
  assumes "slots_ok bound m"
  shows "slots_ok bound (release_permit p m)"
proof (cases "p \<in> set (jm_permits m)")
  case True
  have "int (length (jm_permits m)) > 0" using length_pos_if_in_set [OF True] by linarith
  moreover have "q < jm_next_permit m" if "q \<in> set (remove1 p (jm_permits m))" for q
    using assms notin_set_remove1 [of q "jm_permits m" p] that by (auto simp: slots_ok_def)
  ultimately show ?thesis using assms True
    by (simp add: release_permit_def slots_ok_def int_length_remove1)
qed (use assms in \<open>simp add: release_permit_def\<close>)

lemma release_table: "same_table m (release_permit p m)"
  by (simp add: release_permit_def same_table_def)

lemma release_ok: "jobs_ok bound m \<Longrightarrow> jobs_ok bound (release_permit p m)"
  using same_table_ok [OF release_table] release_slots [OF jobs_slots] by blast

lemma files_ok: "jobs_ok bound m \<Longrightarrow> jobs_ok bound (m\<lparr>jm_files := fs\<rparr>)"
  using jobs_slots [of bound m] same_table_ok [of m "m\<lparr>jm_files := fs\<rparr>" bound] by (simp add: same_table_def slots_ok_def)

lemma stage_frame:
  "jm_permits (snd (stage_reserved_upload w source mx p m)) = jm_permits m \<and>
   jm_uploading (snd (stage_reserved_upload w source mx p m)) = jm_uploading m \<and>
   jm_next_permit (snd (stage_reserved_upload w source mx p m)) = jm_next_permit m \<and>
   jm_opts (snd (stage_reserved_upload w source mx p m)) = jm_opts m \<and> same_table m (snd (stage_reserved_upload w source mx p m))"
  unfolding stage_reserved_upload_def Let_def same_table_def by (simp split: option.split)

lemma stage_ok: "jobs_ok bound m \<Longrightarrow> jobs_ok bound (snd (stage_reserved_upload w source mx p m))"
  using stage_frame [of w source mx p m] jobs_slots [of bound m]
    same_table_ok [of m "snd (stage_reserved_upload w source mx p m)" bound]
  by (simp add: slots_ok_def same_table_def)

lemma stage_whole_ok:
  assumes "jobs_ok bound m"
  shows "jobs_ok bound (snd (stage_upload w source mx m))"
proof -
  obtain r m1 where r: "reserve_upload m = (r, m1)" by fastforce
  have m1: "jobs_ok bound m1" using reserve_ok [OF assms] r by simp
  show ?thesis
  proof (cases r)
    case (Inr p)
    have "jobs_ok bound (release_permit p (snd (stage_reserved_upload w source mx (Some p) m1)))"
      using release_ok [OF stage_ok [OF m1]] .
    then show ?thesis using r Inr by (simp add: stage_upload_def split_def)
  qed (use r m1 in \<open>simp add: stage_upload_def\<close>)
qed

lemma remove_staged_ok: "jobs_ok bound m \<Longrightarrow> jobs_ok bound (snd (remove_staged r s m))"
  by (simp add: remove_staged_def Let_def files_ok split: option.split)

lemma options_ok: "jobs_ok bound m \<Longrightarrow> jo_max_jobs o' \<le> bound \<Longrightarrow> jobs_ok bound (apply_options o' m)"
  using jobs_slots [of bound m] same_table_ok [of m "apply_options o' m" bound]
  by (simp add: same_table_def slots_ok_def apply_options_def Let_def)

lemma close_ok: "jobs_ok bound m \<Longrightarrow> jobs_ok bound (close_manager m)"
  using jobs_slots [of bound m] same_table_ok [of m "close_manager m" bound]
  by (simp add: same_table_def slots_ok_def close_manager_def)

lemma jobs_tasks:
  "jobs_ok bound m \<Longrightarrow> distinct (map jt_id (jm_tasks m)) \<and> jt_id ` set (jm_tasks m) = Collect (unfinished m) \<and>
     jm_running m = int (length (jm_tasks m))"
  by (simp add: jobs_ok_def tasks_ok_def)

lemma jobs_listing: "jobs_ok bound m \<Longrightarrow> listing_ok m"
  by (simp add: jobs_ok_def)

lemma admit_frame [simp, frame_simps]:
  "jm_tasks (admit_job files j t m) = jm_tasks m @ [t]" "jm_running (admit_job files j t m) = jm_running m + 1"
  "jm_permits (admit_job files j t m) = jm_permits m" "jm_uploading (admit_job files j t m) = jm_uploading m"
  "jm_opts (admit_job files j t m) = jm_opts m" "jm_next_permit (admit_job files j t m) = jm_next_permit m"
  by (simp_all add: admit_job_def Let_def)

lemma running_frame [simp]:
  "listing_ok (m\<lparr>jm_running := a, jm_tasks := ts\<rparr>) = listing_ok m" "trimmed (m\<lparr>jm_running := a, jm_tasks := ts\<rparr>) = trimmed m"
  by (simp_all add: listing_ok_def trimmed_def unfinished_def)

lemma admit_ok:
  assumes ok: "jobs_ok bound m" and room: "jm_running m + jm_uploading m < bound" and new: "map_of (jm_jobs m) (jb_id j) = None"
    and j: "\<not> job_done j" and t: "jt_id t = jb_id j"
  shows "jobs_ok bound (admit_job files j t m)"
proof -
  let ?i = "jb_id j" and ?m' = "admit_job files j t m"
  let ?m = "m\<lparr>jm_files := files, jm_jobs := gm_put ?i j (jm_jobs m), jm_order := jm_order m @ [?i]\<rparr>"
  have l: "listing_ok ?m" using jobs_listing [OF ok] new by (auto simp: listing_ok_def dom_def)
  have u: "unfinished ?m k \<longleftrightarrow> k = ?i \<or> unfinished m k" for k using j by (simp add: unfinished_def)
  have fresh: "?i \<notin> jt_id ` set (jm_tasks m)" using jobs_tasks [OF ok] new by (simp add: unfinished_def)
  have "unfinished ?m' = unfinished (trim_locked ?m)"
    unfolding admit_job_def Let_def by (rule ext) (simp add: unfinished_def del: trim_unfinished_fun)
  then have "unfinished ?m' k \<longleftrightarrow> k = ?i \<or> unfinished m k" for k using u by simp
  then have live: "Collect (unfinished ?m') = insert ?i (Collect (unfinished m))" by blast
  from jobs_tasks [OF ok] have tk: "distinct (map jt_id (jm_tasks m))" "jt_id ` set (jm_tasks m) = Collect (unfinished m)"
    "jm_running m = int (length (jm_tasks m))" by blast+
  have a: "distinct (map jt_id (jm_tasks m @ [t]))" using tk(1) fresh t by simp
  have b: "jt_id ` set (jm_tasks m @ [t]) = Collect (unfinished ?m')" unfolding live by (simp add: t tk(2))
  have c: "jm_running m + 1 = int (length (jm_tasks m @ [t]))" using tk(3) by simp
  have "tasks_ok ?m'" unfolding tasks_ok_def admit_frame by (rule conjI [OF a conjI [OF b c]])
  moreover have "listing_ok ?m'" using trim_listing [OF l] by (simp add: admit_job_def Let_def)
  moreover have "trimmed ?m'" using trim_trimmed [OF l] by (simp add: admit_job_def Let_def)
  moreover have "slots_ok bound ?m'" using jobs_slots [OF ok] room by (simp add: slots_ok_def)
  ultimately show ?thesis by (simp add: jobs_ok_def)
qed

lemma release_room: "jobs_ok bound m \<Longrightarrow> p \<in> set (jm_permits m) \<Longrightarrow> jm_running (release_permit p m) + jm_uploading (release_permit p m) < bound"
  using jobs_slots [of bound m] length_pos_if_in_set [of p "jm_permits m"] by (simp add: release_permit_def slots_ok_def)

lemma release_jobs [simp]: "jm_jobs (release_permit p m) = jm_jobs m"
  by (simp add: release_permit_def)

lemma submit_ok:
  assumes ok: "jobs_ok bound m"
  shows "jobs_ok bound (snd (submit random renamed now inp format permit m))"
proof -
  have room: "\<not> jm_running m + jm_uploading m \<ge> jo_max_jobs (jm_opts m) \<Longrightarrow> jm_running m + jm_uploading m < bound"
    using jobs_slots [OF ok] by (simp add: slots_ok_def)
  have q: "\<not> job_done (queued_job i format s now)" "jb_id (queued_job i format s now) = i" for i s
    by (simp_all add: queued_job_def job_done_def)
  note free = admit_ok [OF ok room _ q(1), unfolded q]
  note reserved = admit_ok [OF release_ok [OF ok] release_room [OF ok] _ q(1), unfolded q]
  show ?thesis
  proof (cases "random = None \<or> submit_refused renamed inp permit (''imp_'' @ the random) m \<noteq> None")
    case True
    then show ?thesis using ok by (cases random) (auto simp: submit_def Let_def)
  next
    case False
    then obtain r where r: "random = Some r" "submit_refused renamed inp permit (''imp_'' @ r) m = None" by auto
    then have new: "map_of (jm_jobs m) (''imp_'' @ r) = None"
      and permit: "permit = None \<Longrightarrow> \<not> jm_running m + jm_uploading m \<ge> jo_max_jobs (jm_opts m)"
        "\<And>p. permit = Some p \<Longrightarrow> p \<in> set (jm_permits m)"
      unfolding submit_refused_def by (auto simp del: append.simps split: if_splits option.splits)
    show ?thesis
    proof (cases permit)
      case None
      then show ?thesis using r free [OF permit(1) [OF None]] new unfolding submit_def Let_def by simp
    next
      case (Some p)
      then show ?thesis using r reserved [OF permit(2) [OF Some]] new unfolding submit_def Let_def by simp
    qed
  qed
qed

lemma submit_path_ok: "jobs_ok bound m \<Longrightarrow> jobs_ok bound (snd (submit_path links stat random now format path m))"
  by (simp add: submit_path_def submit_ok split: sum.split option.split)

lemma submit_upload_ok: "jobs_ok bound m \<Longrightarrow> jobs_ok bound (snd (submit_upload safe random renamed now format up permit m))"
  by (simp add: submit_upload_def submit_ok split: sum.split option.split)

text \<open>A step of a goroutine that does not end it, and one that does.\<close>

lemma patch_ok:
  assumes ok: "jobs_ok bound m" and f: "\<And>j. jb_id (f j) = jb_id j" "\<And>j. \<not> job_done j \<Longrightarrow> \<not> job_done (f j)" and t: "t \<in> set (jm_tasks m)"
  shows "jobs_ok bound (patch_job (jt_id t) f m)"
proof -
  have live: "unfinished m (jt_id t)" using jobs_tasks [OF ok] t by blast
  then obtain j where j: "map_of (jm_jobs m) (jt_id t) = Some j" "\<not> job_done j"
    by (auto simp: unfinished_def split: option.splits)
  have "unfinished (patch_job (jt_id t) f m) k = unfinished m k" for k
    using f(2) [OF j(2)] live by (simp add: patch_unfinished j)
  then have "unfinished (patch_job (jt_id t) f m) = unfinished m" by (rule ext)
  then show ?thesis using ok patch_listing [OF jobs_listing [OF ok] f(1)]
    by (simp add: jobs_ok_def tasks_ok_def slots_ok_def trimmed_def)
qed

lemma complete_form:
  assumes "\<And>j. jb_id (f j) = jb_id j" "\<And>j. job_done (f j)" "jm_running m > 0"
  shows "\<exists>fs g. (\<forall>j. jb_id (g j) = jb_id j \<and> job_done (g j)) \<and> complete_job removed now t f m =
      trim_locked (patch_job (jt_id t) g (m\<lparr>jm_files := fs, jm_running := jm_running m - 1, jm_tasks := remove1 t (jm_tasks m)\<rparr>))"
proof -
  let ?there = "ji_cleanup (jt_input t) \<and> map_of (jm_files m) (ji_path (jt_input t)) \<noteq> None"
  have "\<forall>j. jb_id ((uncleaned_job now \<circ> f) j) = jb_id j \<and> job_done ((uncleaned_job now \<circ> f) j)"
    using assms(1) by (simp add: uncleaned_job_def job_done_def)
  then have "\<forall>j. jb_id ((if ?there \<and> \<not> removed then uncleaned_job now \<circ> f else f) j) = jb_id j \<and>
      job_done ((if ?there \<and> \<not> removed then uncleaned_job now \<circ> f else f) j)"
    using assms(1,2) by simp
  then show ?thesis using assms(3) unfolding complete_job_def Let_def
    by (intro exI [of _ "if ?there \<and> removed then gm_del (ji_path (jt_input t)) (jm_files m) else jm_files m"]
        exI [of _ "if ?there \<and> \<not> removed then uncleaned_job now \<circ> f else f"]) simp
qed

lemma complete_ok:
  assumes ok: "jobs_ok bound m" and f: "\<And>j. jb_id (f j) = jb_id j" "\<And>j. job_done (f j)" and t: "t \<in> set (jm_tasks m)"
  shows "jobs_ok bound (complete_job removed now t f m)"
proof -
  note tk = jobs_tasks [OF ok]
  have n: "length (jm_tasks m) > 0" using t by (rule length_pos_if_in_set)
  then have "jm_running m > 0" using tk by simp
  from complete_form [OF f this] obtain fs g where g: "\<forall>j. jb_id (g j) = jb_id j \<and> job_done (g j)"
    and c: "complete_job removed now t f m =
      trim_locked (patch_job (jt_id t) g (m\<lparr>jm_files := fs, jm_running := jm_running m - 1, jm_tasks := remove1 t (jm_tasks m)\<rparr>))"
    by blast
  let ?m = "m\<lparr>jm_files := fs, jm_running := jm_running m - 1, jm_tasks := remove1 t (jm_tasks m)\<rparr>"
  let ?p = "patch_job (jt_id t) g ?m"
  have "listing_ok ?m" using jobs_listing [OF ok] by (simp add: listing_ok_def)
  from patch_listing [OF this, of g] g have l: "listing_ok ?p" by simp
  have um: "unfinished ?m = unfinished m" by (simp add: unfinished_def fun_eq_iff)
  have u: "unfinished ?p k \<longleftrightarrow> k \<noteq> jt_id t \<and> unfinished m k" for k
    using g by (simp add: patch_unfinished um split: option.split)
  have d: "distinct (jm_tasks m)" using tk by (simp add: distinct_map)
  have "jt_id ` (set (jm_tasks m) - {t}) = jt_id ` set (jm_tasks m) - {jt_id t}"
    using tk t by (auto simp: distinct_map inj_on_def)
  then have "jt_id ` set (remove1 t (jm_tasks m)) = Collect (unfinished ?p)"
    using tk d u by (simp add: set_remove1_eq) blast
  moreover have "distinct (map jt_id (remove1 t (jm_tasks m)))"
    using tk d by (simp add: distinct_map distinct_remove1 set_remove1_eq inj_on_def)
  moreover have "jm_running m - 1 = int (length (remove1 t (jm_tasks m)))" using tk int_length_remove1 [OF t] by simp
  ultimately have "tasks_ok (trim_locked ?p)" by (simp add: tasks_ok_def del: of_nat_diff)
  moreover have "slots_ok bound (trim_locked ?p)" using jobs_slots [OF ok] by (simp add: slots_ok_def)
  ultimately show ?thesis unfolding c using trim_listing [OF l] trim_trimmed [OF l] by (simp add: jobs_ok_def)
qed

section \<open>Interleavings\<close>

text \<open>
  The steps of the callers and of the goroutines in any order; \<open>bound\<close> is the highest limit that is ever configured.
\<close>

inductive job_step :: "int \<Rightarrow> jobs_manager \<Rightarrow> jobs_manager \<Rightarrow> bool" for bound where
  reserve: "job_step bound m (snd (reserve_upload m))"
| release: "job_step bound m (release_permit p m)"
| stage: "job_step bound m (snd (stage_reserved_upload w source mx p m))"
| stage_whole: "job_step bound m (snd (stage_upload w source mx m))"
| remove: "job_step bound m (snd (remove_staged removed s m))"
| from_path: "job_step bound m (snd (submit_path links stat random now format path m))"
| from_upload: "job_step bound m (snd (submit_upload safe random renamed now format up permit m))"
| options: "jo_max_jobs o' \<le> bound \<Longrightarrow> job_step bound m (apply_options o' m)"
| begin_run: "t \<in> set (jm_tasks m) \<Longrightarrow> job_step bound m (patch_job (jt_id t) (begin_job now) m)"
| detail: "t \<in> set (jm_tasks m) \<Longrightarrow> job_step bound m (patch_job (jt_id t) (detail_progress entries ok failed phase) m)"
| count: "t \<in> set (jm_tasks m) \<Longrightarrow> job_step bound m (patch_job (jt_id t) (count_progress ok) m)"
| reloading: "t \<in> set (jm_tasks m) \<Longrightarrow> job_step bound m (patch_job (jt_id t) (reload_progress rep) m)"
| failing: "t \<in> set (jm_tasks m) \<Longrightarrow> job_step bound m (complete_job removed now t (failed_job m (jt_input t) err rep now) m)"
| finishing: "t \<in> set (jm_tasks m) \<Longrightarrow> job_step bound m (complete_job removed now t (finished_job m (jt_input t) rep now) m)"
| panicking: "t \<in> set (jm_tasks m) \<Longrightarrow> job_step bound m (complete_job removed now t (panicked_job now) m)"
| close: "job_step bound m (close_manager m)"

lemma job_parts [simp]:
  "jb_id (begin_job now j) = jb_id j" "jb_id (detail_progress entries ok failed phase j) = jb_id j" "jb_id (count_progress ok j) = jb_id j"
  "jb_id (reload_progress rep j) = jb_id j" "jb_id (failed_job m inp err rep now j) = jb_id j" "jb_id (panicked_job now j) = jb_id j"
  "jb_id (finished_job m inp rep now j) = jb_id j"
  "job_done (failed_job m inp err rep now j)" "job_done (panicked_job now j)" "job_done (finished_job m inp rep now j)"
  "\<not> job_done (begin_job now j)" "job_done (detail_progress entries ok failed phase j) = job_done j"
  "job_done (count_progress ok j) = job_done j" "job_done (reload_progress rep j) = job_done j"
  by (simp_all add: begin_job_def detail_progress_def count_progress_def reload_progress_def failed_job_def panicked_job_def
      finished_job_def job_done_def Let_def)

lemma step_ok: "job_step bound m m' \<Longrightarrow> jobs_ok bound m \<Longrightarrow> jobs_ok bound m'"
  by (induction rule: job_step.induct)
    (simp_all add: reserve_ok release_ok stage_ok stage_whole_ok remove_staged_ok submit_path_ok submit_upload_ok options_ok close_ok
      patch_ok complete_ok)

lemma new_manager_ok:
  assumes "new_manager abs_path cpus ready refused now files dir cat opts = Some m" "jo_max_jobs opts \<le> bound" "2 \<le> bound"
  shows "jobs_ok bound m \<and> jm_max_keep m = 100"
  using assms
  by (auto simp: new_manager_def Let_def cleanup_stale_uploads_def jobs_ok_def listing_ok_def tasks_ok_def slots_ok_def trimmed_def
      unfinished_def split: if_splits)

lemma step_keep: "job_step bound m m' \<Longrightarrow> jm_max_keep m' = jm_max_keep m"
proof (induction rule: job_step.induct)
  case (stage m w source mx p)
  then show ?case using stage_frame [of w source mx p m] by (simp add: same_table_def)
next
  case (stage_whole m w source mx)
  obtain r m1 where r: "reserve_upload m = (r, m1)" by fastforce
  then have "jm_max_keep m1 = jm_max_keep m" by (auto simp: reserve_upload_def split: if_splits)
  then show ?case using r stage_frame [of w source mx _ m1]
    by (cases r) (auto simp: stage_upload_def split_def same_table_def release_permit_def)
qed (simp_all add: reserve_upload_def release_permit_def remove_staged_def submit_path_def submit_upload_def submit_def admit_job_def
    apply_options_def complete_job_def close_manager_def Let_def split: option.split sum.split)

lemma reachable_jobs:
  assumes "new_manager abs_path cpus ready refused now files dir cat opts = Some m0" "jo_max_jobs opts \<le> bound" "2 \<le> bound"
    and "(job_step bound)\<^sup>*\<^sup>* m0 m"
  shows "jobs_ok bound m \<and> jm_max_keep m = 100"
  using assms(4) new_manager_ok [OF assms(1-3)]
  by (induction rule: rtranclp_induct) (auto simp: step_ok step_keep)

lemma jobs_bounded_facts:
  assumes "new_manager abs_path cpus ready refused now files dir cat opts = Some m0" "jo_max_jobs opts \<le> bound" "2 \<le> bound"
    and "(job_step bound)\<^sup>*\<^sup>* m0 m"
  shows "jm_running m + jm_uploading m \<le> bound"
    and "jm_running m = int (card {i. unfinished m i})" and "jm_uploading m = int (card (set (jm_permits m)))"
    and "unfinished m i \<longleftrightarrow> (\<exists>!t. t \<in> set (jm_tasks m) \<and> jt_id t = i)"
    and "distinct (jm_order m)" and "set (jm_order m) = dom (map_of (jm_jobs m))"
    and "length (jm_order m) \<le> 100 \<or> (\<forall>i\<in>set (jm_order m). unfinished m i)"
proof -
  have ok: "jobs_ok bound m" and keep: "jm_max_keep m = 100" using reachable_jobs [OF assms] by simp_all
  note tk = jobs_tasks [OF ok] and sl = jobs_slots [OF ok, unfolded slots_ok_def]
  show "jm_running m + jm_uploading m \<le> bound" using sl by blast
  have "length (jm_tasks m) = card (jt_id ` set (jm_tasks m))" using tk by (metis distinct_card length_map list.set_map)
  then show "jm_running m = int (card {i. unfinished m i})" using tk by simp
  show "jm_uploading m = int (card (set (jm_permits m)))" using sl by (simp add: distinct_card)
  have "unfinished m i \<longleftrightarrow> i \<in> jt_id ` set (jm_tasks m)" using tk by blast
  moreover have "inj_on jt_id (set (jm_tasks m))" using tk by (simp add: distinct_map)
  ultimately show "unfinished m i \<longleftrightarrow> (\<exists>!t. t \<in> set (jm_tasks m) \<and> jt_id t = i)" unfolding inj_on_def by blast
  show "distinct (jm_order m)" "set (jm_order m) = dom (map_of (jm_jobs m))"
    using jobs_listing [OF ok] unfolding listing_ok_def by blast+
  show "length (jm_order m) \<le> 100 \<or> (\<forall>i\<in>set (jm_order m). unfinished m i)"
    using ok keep unfolding jobs_ok_def trimmed_def by simp
qed


section \<open>Paths and names\<close>

lemma first_root_below:
  "first_root links stat target dirs = Some q \<Longrightarrow>
   \<exists>d\<in>set dirs. \<exists>r. links d = Some r \<and> links target = Some q \<and> stat q = Some True \<and> (\<exists>rest. path_parts q = path_parts r @ rest)"
proof (induction dirs)
  case (Cons d dirs)
  show ?case
  proof (cases "first_root links stat target dirs = Some q")
    case True
    then show ?thesis using Cons.IH by auto
  next
    case False
    then obtain r rel where "links d = Some r" "links target = Some q" "path_rel r q = Some rel" "rel \<noteq> ''..''"
      "\<not> has_prefix rel ''../''" "stat q = Some True"
      using Cons.prems by (auto split: option.splits if_splits)
    then show ?thesis using path_rel_below by (intro bexI [of _ d]) auto
  qed
qed simp


section \<open>A whole run\<close>

lemma complete_job_done:
  assumes "map_of (jm_jobs (complete_job removed now t f m)) (jt_id t) = Some j" "jb_state j = StateSucceeded"
  shows "\<exists>j0. map_of (jm_jobs m) (jt_id t) = Some j0 \<and> j = f j0"
proof -
  let ?there = "ji_cleanup (jt_input t) \<and> map_of (jm_files m) (ji_path (jt_input t)) \<noteq> None"
  let ?g = "if ?there \<and> \<not> removed then uncleaned_job now \<circ> f else f"
  let ?m = "m\<lparr>jm_files := (if ?there \<and> removed then gm_del (ji_path (jt_input t)) (jm_files m) else jm_files m),
      jm_running := (if jm_running m > 0 then jm_running m - 1 else jm_running m), jm_tasks := remove1 t (jm_tasks m)\<rparr>"
  have "map_of (jm_jobs (trim_locked (patch_job (jt_id t) ?g ?m))) (jt_id t) = Some j"
    using assms(1) by (simp add: complete_job_def Let_def)
  then have "map_of (jm_jobs (patch_job (jt_id t) ?g ?m)) (jt_id t) = Some j"
    using trim_keeps [of "patch_job (jt_id t) ?g ?m" "jt_id t"] by auto
  then obtain j0 where j0: "map_of (jm_jobs m) (jt_id t) = Some j0" "j = ?g j0" by (auto simp: patch_get)
  moreover have "jb_state (uncleaned_job now x) \<noteq> StateSucceeded" for x by (simp add: uncleaned_job_def)
  ultimately show ?thesis using assms(2) by (cases "?there \<and> \<not> removed") auto
qed

lemma import_paths_files:
  "import_paths env cfg w arrival path s = (None, rep, s') \<Longrightarrow>
   \<exists>files. import_files env (import_normalize cfg) w (arrival files) files s = (None, rep, s')"
  by (auto simp: import_paths_def Let_def split: option.splits list.splits)

lemma complete_frame:
  "jm_tasks (complete_job removed now t f m) = remove1 t (jm_tasks m)"
  "jm_running (complete_job removed now t f m) = (if jm_running m > 0 then jm_running m - 1 else jm_running m)"
  by (simp_all add: complete_job_def Let_def)

lemma run_job_cases:
  assumes "run_job env text_of arrival after removed now t (m, c) = (m', c')"
  obtains (failed) m1 inp err rep where "m1 = patch_job (jt_id t) (begin_job now) m \<or>
        (\<exists>rep1. m1 = patch_job (jt_id t) (reload_progress rep1) (patch_job (jt_id t) (begin_job now) m))"
      "m' = complete_job removed now t (failed_job m1 inp err rep now) m1"
    | (finished) m1 inp rep where "m1 = patch_job (jt_id t) (begin_job now) m \<or>
        (\<exists>rep1. m1 = patch_job (jt_id t) (reload_progress rep1) (patch_job (jt_id t) (begin_job now) m))"
      "m' = complete_job removed now t (finished_job m1 inp rep now) m1"
      "import_paths env (job_config m (jt_format t)) (Some (catalog_writer now)) arrival (ji_path (jt_input t)) c = (None, rep, c')"
proof -
  let ?m = "patch_job (jt_id t) (begin_job now) m"
  have cfg: "job_config ?m f = job_config m f" for f by (simp add: job_config_def)
  obtain e rep c1 where r: "import_paths env (job_config m (jt_format t)) (Some (catalog_writer now)) arrival (ji_path (jt_input t)) c = (e, rep, c1)"
    by (metis prod_cases3)
  show ?thesis
  proof (cases e)
    case (Some x)
    then show ?thesis using assms r failed [of ?m] by (simp add: run_job_def Let_def cfg) blast
  next
    case None
    show ?thesis
    proof (cases "jo_after_import (jm_opts m) \<and> after \<noteq> None")
      case True
      then obtain x where x: "jo_after_import (jm_opts m)" "after = Some x" by auto
      let ?m1 = "patch_job (jt_id t) (reload_progress rep) ?m"
      have "m' = complete_job removed now t (failed_job ?m1 (jt_input t) x rep now) ?m1"
        using assms r None x by (simp add: run_job_def Let_def cfg)
      then show ?thesis using failed [of ?m1] by blast
    next
      case False
      let ?m1 = "if jo_after_import (jm_opts m) then patch_job (jt_id t) (reload_progress rep) ?m else ?m"
      have "m' = complete_job removed now t (finished_job ?m1 (jt_input t) rep now) ?m1" "c1 = c'"
        using assms r None False by (auto simp: run_job_def Let_def cfg split: if_splits)
      then show ?thesis using finished [of ?m1] r None by (simp split: if_splits) blast+
    qed
  qed
qed

lemma finished_job_honest_facts:
  assumes "run_job env text_of arrival after removed now t (m, c) = (m', c')" "jobs_ok bound m" "t \<in> set (jm_tasks m)"
  shows "jobs_ok bound m'" and "jm_running m' = jm_running m - 1" and "\<not> unfinished m' (jt_id t)"
    and "map_of (jm_jobs m') (jt_id t) = Some j \<Longrightarrow> jb_state j = StateSucceeded \<Longrightarrow>
      \<exists>as. (if as = [] then c' = c else upsert_imported_many c now as = (Inr (), c')) \<and> jb_ok j = int (length as)"
proof -
  let ?m = "patch_job (jt_id t) (begin_job now) m"
  have ok: "jobs_ok bound m1 \<and> jm_tasks m1 = jm_tasks m \<and> jm_running m1 = jm_running m"
    if "m1 = ?m \<or> (\<exists>rep1. m1 = patch_job (jt_id t) (reload_progress rep1) ?m)" for m1
    using that patch_ok [OF assms(2) _ _ assms(3), of "begin_job now"] patch_ok [of bound ?m _ t] assms(3) by auto
  have pos: "jm_running m > 0"
    using jobs_tasks [OF assms(2)] assms(3) by (metis length_pos_if_in_set of_nat_0_less_iff)
  have "jobs_ok bound m' \<and> jm_tasks m' = remove1 t (jm_tasks m) \<and> jm_running m' = jm_running m - 1"
    using assms(1)
  proof (cases rule: run_job_cases)
    case (failed m1 inp err rep)
    then show ?thesis using ok [OF failed(1)] complete_ok [of bound m1] assms(3) pos by (simp add: complete_frame)
  next
    case (finished m1 inp rep)
    then show ?thesis using ok [OF finished(1)] complete_ok [of bound m1] assms(3) pos by (simp add: complete_frame)
  qed
  then have ok': "jobs_ok bound m'" and t': "jm_tasks m' = remove1 t (jm_tasks m)" and r': "jm_running m' = jm_running m - 1"
    by blast+
  show "jobs_ok bound m'" "jm_running m' = jm_running m - 1" by (fact ok', fact r')
  have "jt_id t \<notin> jt_id ` set (remove1 t (jm_tasks m))"
    using jobs_tasks [OF assms(2)] assms(3) by (auto simp: distinct_map inj_on_def set_remove1_eq)
  then show "\<not> unfinished m' (jt_id t)" using jobs_tasks [OF ok'] t' by auto
  assume j: "map_of (jm_jobs m') (jt_id t) = Some j" "jb_state j = StateSucceeded"
  show "\<exists>as. (if as = [] then c' = c else upsert_imported_many c now as = (Inr (), c')) \<and> jb_ok j = int (length as)"
    using assms(1)
  proof (cases rule: run_job_cases)
    case (failed m1 inp err rep)
    then show ?thesis using complete_job_done j by (fastforce simp: failed_job_def)
  next
    case (finished m1 inp rep)
    from complete_job_done [OF j(1) [unfolded finished(2)] j(2)] obtain j0 where "j = finished_job m1 inp rep now j0" by blast
    then have n: "jb_ok j = ir_ok rep" by (simp add: finished_job_def Let_def)
    obtain files where f: "import_files env (import_normalize (job_config m (jt_format t))) (Some (catalog_writer now)) (arrival files) files c =
        (None, rep, c')"
      using import_paths_files [OF finished(3)] by blast
    have dry: "\<not> bc_dry_run (import_normalize (job_config m (jt_format t)))" by (simp add: import_normalize_def job_config_def Let_def)
    from cat_writer.import_done [OF f dry] obtain as where as: "cat_writer.stored now as c c'" "ir_ok rep = int (length as)" by blast
    have "catalog_writer now as c = (None, c') \<Longrightarrow> upsert_imported_many c now as = (Inr (), c')"
      by (auto simp: catalog_writer_def split: sum.splits prod.splits)
    then show ?thesis using as n by (intro exI [of _ as]) (simp add: cat_writer.stored_def split: if_splits)
  qed
qed

text \<open>
  C21. What a finished job shows is what the import did. A run of a goroutine to its end, whatever it reads, keeps the table in order, frees
  its slot and ends the job; and a job that shows success has stored in the catalog, as in one single
  write, as many accounts as it shows.
\<close>

theorem finished_job_honest:
  assumes "run_job env text_of arrival after removed now t (m, c) = (m', c')" "jobs_ok bound m" "t \<in> set (jm_tasks m)"
  shows "jobs_ok bound m' \<and> jm_running m' = jm_running m - 1 \<and> \<not> unfinished m' (jt_id t) \<and>
    (map_of (jm_jobs m') (jt_id t) = Some j \<and> jb_state j = StateSucceeded \<longrightarrow>
      (\<exists>as. (if as = [] then c' = c else upsert_imported_many c now as = (Inr (), c')) \<and> jb_ok j = int (length as)))"
  using finished_job_honest_facts [OF assms] by blast

section \<open>Names shown and files taken\<close>

lemma first_rune_small: "fst (first_rune a t) < 4194304"
  unfolding first_rune_def by (auto split: list.split)

lemma runes_small: "r \<in> set (runes_of bs) \<Longrightarrow> r < 4194304"
  by (induction bs rule: runes_of.induct) (auto simp: first_rune_small)

definition plain_byte :: "nat \<Rightarrow> bool" where
  "plain_byte b \<longleftrightarrow> 32 \<le> b \<and> b < 256 \<and> b \<noteq> 127 \<and> b \<noteq> 47 \<and> b \<noteq> 92"

lemma rune_bytes_plain:
  assumes "kept_rune r" "r < 4194304"
  shows "length (rune_bytes r) \<le> 4 \<and> rune_bytes r \<noteq> [] \<and> (\<forall>b\<in>set (rune_bytes r). plain_byte b)"
proof -
  have "r div 262144 < 16" using assms(2) by (simp add: less_mult_imp_div_less)
  moreover have "r < 65536 \<Longrightarrow> r div 4096 < 16" "r < 2048 \<Longrightarrow> r div 64 < 32" by (simp_all add: less_mult_imp_div_less)
  moreover have "x mod 64 < 64" for x :: nat by simp
  ultimately show ?thesis using assms(1)
    unfolding rune_bytes_def kept_rune_def plain_byte_def by (auto simp: trans_less_add1)
qed

lemma utf8_plain:
  assumes "\<forall>r\<in>set rs. kept_rune r \<and> r < 4194304"
  shows "set (utf8 rs) \<subseteq> {c. plain_byte (of_char c)}" "length (utf8 rs) \<le> 4 * length rs" "rs \<noteq> [] \<Longrightarrow> utf8 rs \<noteq> []"
proof -
  have "plain_byte (of_char (char_of b :: char))" if "plain_byte b" for b
    using that by (simp add: plain_byte_def)
  then show "set (utf8 rs) \<subseteq> {c. plain_byte (of_char c)}" using assms rune_bytes_plain by (fastforce simp: utf8_def)
  show "length (utf8 rs) \<le> 4 * length rs"
    using assms
  proof (induction rs)
    case (Cons r rs)
    then show ?case using rune_bytes_plain [of r] by (simp add: utf8_def)
  qed (simp add: utf8_def)
  show "rs \<noteq> [] \<Longrightarrow> utf8 rs \<noteq> []" using assms rune_bytes_plain by (cases rs) (auto simp: utf8_def)
qed

text \<open>
  The name of a job is fit to show, whatever the client sent: never empty, at most 480 bytes, and without
  control characters, slashes and backslashes.
\<close>

theorem source_name_clean:
  "sanitize_source_name name \<noteq> [] \<and> length (sanitize_source_name name) \<le> 480 \<and>
   set (sanitize_source_name name) \<subseteq> {c. plain_byte (of_char c)}"
proof -
  define rs where "rs = filter kept_rune (runes_of (map of_char (path_base (trim_space name))))"
  define rs1 where "rs1 = (if rs = [] \<or> rs = [46] then browser_upload else rs)"
  define rs2 where "rs2 = (if length rs1 > 120 then take 120 rs1 else rs1)"
  have "\<forall>r\<in>set rs1. kept_rune r \<and> r < 4194304" "rs1 \<noteq> []"
    using runes_small by (auto simp: rs1_def rs_def browser_upload_def kept_rune_def)
  then have r2: "\<forall>r\<in>set rs2. kept_rune r \<and> r < 4194304" "rs2 \<noteq> []" "length rs2 \<le> 120"
    by (auto simp: rs2_def dest: in_set_takeD)
  have "sanitize_source_name name = utf8 rs2"
    by (simp add: sanitize_source_name_def Let_def rs_def rs1_def rs2_def)
  then show ?thesis using utf8_plain [OF r2(1)] r2(2,3) by auto
qed

lemma work_path_new: "work_path p \<noteq> p"
proof
  assume "work_path p = p"
  from arg_cong [OF this, of length] have "length (trim_suffix p ''.ready'') + 5 = length p" by (simp add: work_path_def)
  then show False by (auto simp: trim_suffix_def has_suffix_def split: if_splits)
qed

lemma upload_taken_once_facts:
  assumes "submit_upload safe random renamed now format up permit m = (Inr j, m')"
  shows "\<exists>p f t. safe_staged_path safe m (su_path up) = Some p \<and> map_of (jm_files m) p = Some f \<and>
      map_of (jm_files m') p = None \<and> map_of (jm_files m') (work_path p) = Some f \<and>
      jm_tasks m' = jm_tasks m @ [t] \<and> jt_id t = jb_id j \<and> jt_input t = \<lparr>ji_path = work_path p, ji_source = jb_source j, ji_cleanup = True\<rparr>"
    and "\<exists>e. submit_upload safe' random' renamed' now' format' up permit' m' = (Inl e, m')"
proof -
  obtain p f' where p: "safe_staged_path safe m (su_path up) = Some p"
    and s: "submit random renamed now \<lparr>ji_path = p, ji_source = sanitize_source_name (su_source up), ji_cleanup = True\<rparr> f' permit m = (Inr j, m')"
    using assms by (auto simp: submit_upload_def split: if_splits sum.splits option.splits)
  obtain f where f: "map_of (jm_files m) p = Some f" and path: "p = path_clean (trim_space (su_path up))"
    using p by (auto simp: safe_staged_path_def Let_def split: if_splits option.splits)
  let ?m1 = "case permit of Some q \<Rightarrow> release_permit q m | None \<Rightarrow> m"
  obtain r where r: "random = Some r" using s by (auto simp: submit_def split: option.splits)
  let ?t = "\<lparr>jt_id = ''imp_'' @ r, jt_input = \<lparr>ji_path = work_path p, ji_source = sanitize_source_name (su_source up), ji_cleanup = True\<rparr>,
      jt_format = f'\<rparr>"
  have m': "m' = admit_job (gm_put (work_path p) f (gm_del p (jm_files m))) j ?t ?m1" and j: "jb_id j = ''imp_'' @ r"
      "jb_source j = sanitize_source_name (su_source up)"
    using s r f by (auto simp: submit_def Let_def take_file_def queued_job_def split: option.splits)
  have "jm_tasks ?m1 = jm_tasks m" by (simp add: release_permit_def split: option.split)
  then have t: "jm_tasks m' = jm_tasks m @ [?t]" unfolding m' by simp
  have files: "jm_files m' = gm_put (work_path p) f (gm_del p (jm_files m))" unfolding m' admit_job_def Let_def by simp
  then have gone: "map_of (jm_files m') p = None" "map_of (jm_files m') (work_path p) = Some f"
    using work_path_new [of p] by auto
  show "\<exists>p f t. safe_staged_path safe m (su_path up) = Some p \<and> map_of (jm_files m) p = Some f \<and>
      map_of (jm_files m') p = None \<and> map_of (jm_files m') (work_path p) = Some f \<and>
      jm_tasks m' = jm_tasks m @ [t] \<and> jt_id t = jb_id j \<and> jt_input t = \<lparr>ji_path = work_path p, ji_source = jb_source j, ji_cleanup = True\<rparr>"
    using p f gone t j by (intro exI [of _ p] exI [of _ f] exI [of _ ?t]) simp
  have "safe_staged_path safe' m' (su_path up) = None"
    using gone(1) path by (simp add: safe_staged_path_def Let_def)
  then show "\<exists>e. submit_upload safe' random' renamed' now' format' up permit' m' = (Inl e, m')"
    by (auto simp: submit_upload_def split: sum.split)
qed

text \<open>
  A staged upload is taken once: a submission that succeeds has moved the file to the name that only its goroutine uses,
  and any other submission of the same upload is refused.
\<close>

theorem upload_taken_once:
  assumes "submit_upload safe random renamed now format up permit m = (Inr j, m')"
  shows "(\<exists>p f t. safe_staged_path safe m (su_path up) = Some p \<and> map_of (jm_files m) p = Some f \<and>
      map_of (jm_files m') p = None \<and> map_of (jm_files m') (work_path p) = Some f \<and>
      jm_tasks m' = jm_tasks m @ [t] \<and> jt_id t = jb_id j \<and> jt_input t = \<lparr>ji_path = work_path p, ji_source = jb_source j, ji_cleanup = True\<rparr>) \<and>
    (\<exists>e. submit_upload safe' random' renamed' now' format' up permit' m' = (Inl e, m'))"
  using upload_taken_once_facts [OF assms] by blast

section \<open>Samples\<close>

definition sample_options :: jobs_options where
  "sample_options =
     \<lparr>jo_max_jobs = 1, jo_workers = 1, jo_max_entries = 4, jo_max_line = 0, jo_max_sso = 0, jo_timeout = 0, jo_stale_after = 0,
      jo_server_path = True, jo_server_dir = [], jo_converter = None, jo_after_import = True\<rparr>"

definition sample_new :: jobs_manager where
  "sample_new = the (new_manager Some 1 True (\<lambda>p. False) 0 [] ''/d'' True sample_options)"

definition sample_links :: "string \<Rightarrow> string option" where "sample_links p = Some p"

definition sample_submitted :: "(jobs_error + import_job) \<times> jobs_manager" where
  "sample_submitted = submit_path sample_links (\<lambda>p. Some True) (Some ''1'') 3 ''json'' ''two.json'' sample_new"

definition sample_staged :: "(jobs_error + staged_upload) \<times> jobs_manager" where
  "sample_staged =
     stage_upload \<lparr>sw_reader = Some (9, False), sw_safe = True, sw_random = Some ''0123456789abcdef0123456789abcdef'', sw_create = True,
       sw_close = True, sw_rename = True, sw_remove = True, sw_now = 2\<rparr> ''x.json'' 100 sample_new"

definition sample_uploaded :: "(jobs_error + import_job) \<times> jobs_manager" where
  "sample_uploaded =
     (case sample_staged of
        (Inr up, m) \<Rightarrow> submit_upload True (Some ''2'') True 4 ''json'' up None m
      | (Inl e, m) \<Rightarrow> (Inl e, m))"

definition sample_task :: job_task where
  "sample_task = \<lparr>jt_id = ''imp_1'', jt_input = \<lparr>ji_path = ''/d/two.json'', ji_source = ''two.json'', ji_cleanup = False\<rparr>, jt_format = ''json''\<rparr>"

definition sample_running :: jobs_manager where
  "sample_running = admit_job [] (queued_job ''imp_1'' ''json'' ''two.json'' 3) sample_task sample_new"

definition sample_job_env :: import_env where
  "sample_job_env = sample_import_env\<lparr>bv_stat := (\<lambda>p. Some False), bv_read := (\<lambda>p. Some ''two'')\<rparr>"

definition sample_finished :: "jobs_manager \<times> catalog" where
  "sample_finished =
     run_job sample_job_env (\<lambda>e. []) (\<lambda>fs. [0]) None True 5 sample_task (sample_running, sample_import_catalog)"

lemma sample_new_manager: "new_manager Some 1 True (\<lambda>p. False) 0 [] ''/d'' True sample_options = Some sample_new"
proof -
  have "new_manager Some 1 True (\<lambda>p. False) 0 [] ''/d'' True sample_options \<noteq> None" by code_simp
  then show ?thesis by (simp add: sample_new_def)
qed

lemma sample_jobs_ok: "jobs_ok 2 sample_running"
proof -
  have "jo_max_jobs sample_options \<le> 2" by (simp add: sample_options_def)
  then have "jobs_ok 2 sample_new" using new_manager_ok [OF sample_new_manager] by simp
  moreover have "jm_running sample_new = 0" "jm_uploading sample_new = 0" "jm_jobs sample_new = []" by code_simp+
  ultimately show ?thesis unfolding sample_running_def
    by (intro admit_ok) (simp_all add: queued_job_def job_done_def sample_task_def)
qed



lemma sample_paths:
  "case import_paths sample_job_env (job_config sample_running ''json'') (Some (catalog_writer 5)) (\<lambda>fs. [0]) ''/d/two.json''
      sample_import_catalog of
     (None, rep, c) \<Rightarrow> ir_ok rep = 2 \<and> ir_failed rep = 0
   | (Some e, rep, c) \<Rightarrow> False"
  by code_simp

theorem finished_job_honest_witness:
  "jm_running (fst sample_finished) = 0 \<and>
   (\<exists>as. upsert_imported_many sample_import_catalog 5 as = (Inr (), snd sample_finished) \<and> length as = 2)"
proof -
  have t: "sample_task \<in> set (jm_tasks sample_running)" by (simp add: sample_running_def)
  have run: "run_job sample_job_env (\<lambda>e. []) (\<lambda>fs. [0]) None True 5 sample_task (sample_running, sample_import_catalog) =
      (fst sample_finished, snd sample_finished)"
    by (simp add: sample_finished_def)
  note h = finished_job_honest [OF run sample_jobs_ok t]
  have one: "jm_running sample_running = 1" by code_simp
  obtain rep c' where paths: "import_paths sample_job_env (job_config sample_running ''json'') (Some (catalog_writer 5)) (\<lambda>fs. [0])
      ''/d/two.json'' sample_import_catalog = (None, rep, c')" and rep: "ir_ok rep = 2" "ir_failed rep = 0"
    using sample_paths by (auto split: prod.splits option.splits)
  let ?job = "queued_job ''imp_1'' ''json'' ''two.json'' 3"
  have after: "jo_after_import (jm_opts sample_running)" by code_simp
  have listed: "jm_jobs sample_running = [(''imp_1'', ?job)]" "length (jm_order sample_running) = 1" "jm_max_keep sample_running = 100"
    by code_simp+
  let ?m1 = "patch_job ''imp_1'' (reload_progress rep) (patch_job ''imp_1'' (begin_job 5) sample_running)"
  have "fst sample_finished = complete_job True 5 sample_task (finished_job ?m1 (jt_input sample_task) rep 5) ?m1"
    using paths after by (simp add: sample_finished_def run_job_def sample_task_def Let_def job_config_def)
  moreover have "length (jm_order ?m1) \<le> jm_max_keep ?m1" using listed by simp
  ultimately have "map_of (jm_jobs (fst sample_finished)) ''imp_1'' =
      Some (finished_job ?m1 (jt_input sample_task) rep 5 (reload_progress rep (begin_job 5 ?job)))"
    using listed by (simp add: complete_job_def Let_def sample_task_def trim_locked.simps patch_get)
  then obtain j where j: "map_of (jm_jobs (fst sample_finished)) (jt_id sample_task) = Some j" "jb_state j = StateSucceeded" "jb_ok j = 2"
    using rep by (simp add: finished_job_def Let_def sample_task_def)
  obtain as where as: "if as = [] then snd sample_finished = sample_import_catalog
      else upsert_imported_many sample_import_catalog 5 as = (Inr (), snd sample_finished)" "jb_ok j = int (length as)"
    using h j(1,2) by blast
  then have "length as = 2" "as \<noteq> []" using j(3) by auto
  then show ?thesis using h one as(1) by auto
qed

theorem upload_taken_once_witness:
  "\<exists>up m j m'. sample_staged = (Inr up, m) \<and> sample_uploaded = (Inr j, m') \<and> map_of (jm_files m') (su_path up) = None \<and>
     (\<exists>e. submit_upload True (Some ''3'') True 5 ''json'' up None m' = (Inl e, m'))"
proof -
  obtain up m where up: "sample_staged = (Inr up, m)"
  proof -
    have "case fst sample_staged of Inr up \<Rightarrow> True | Inl e \<Rightarrow> False" by code_simp
    then show thesis using that by (metis old.sum.exhaust prod.collapse sum.case(1))
  qed
  obtain j m' where j: "sample_uploaded = (Inr j, m')"
  proof -
    have "case fst sample_uploaded of Inr j \<Rightarrow> True | Inl e \<Rightarrow> False" by code_simp
    then show thesis using that by (metis old.sum.exhaust prod.collapse sum.case(1))
  qed
  have s: "submit_upload True (Some ''2'') True 4 ''json'' up None m = (Inr j, m')"
    using j by (simp add: sample_uploaded_def up)
  have "case sample_staged of (Inr up, m) \<Rightarrow> path_clean (trim_space (su_path up)) = su_path up | _ \<Rightarrow> False" by code_simp
  then have "path_clean (trim_space (su_path up)) = su_path up" by (simp add: up)
  moreover obtain p where "safe_staged_path True m (su_path up) = Some p" "map_of (jm_files m') p = None"
    using upload_taken_once [OF s] by blast
  ultimately have "map_of (jm_files m') (su_path up) = None"
    by (auto simp: safe_staged_path_def Let_def split: if_splits option.splits)
  then show ?thesis using up j upload_taken_once [OF s] by blast
qed

end
