(* ===== verification/Messages.thy ===== *)
theory Messages
  imports Stream
begin

text \<open>
  The Anthropic interface without streaming: a Messages request becomes a Responses request
  (\<open>internal/protocol/anthropic/translate_req.go\<close>, \<open>thinking.go\<close>), and a Responses body becomes a message
  (\<open>translate_resp.go\<close>). The decoder is the one of the stream; \<open>se_raw\<close> gives the text of a value, as it stands in the
  document or as \<open>json.Marshal\<close> writes it. A missing field and \<open>null\<close> decode alike, except where the code looks for the
  field.
\<close>

section \<open>Thinking\<close>

datatype messages_error =
  InvalidBody | InvalidThinking | InvalidOutput | InvalidFormat | UnknownFields string "string list" | ThinkingTypeRequired
| UnsupportedDisplay string | UnsupportedEffort string | UnsupportedThinking string | UnsupportedFormat string | SchemaRequired
| BudgetInvalid string | BudgetTooSmall | BudgetTooLarge | DisplayInvalid | NonReasoning string | EmptyResponse

record thinking_config =
  th_type :: string
  th_budget :: "int option"
  th_display :: string

record reasoning =
  rs_effort :: string
  rs_summary :: string

record thinking_bridge =
  tb_enabled :: bool
  tb_display :: string

definition has_json_value :: "json \<Rightarrow> bool" where "has_json_value v \<longleftrightarrow> v \<noteq> JNull"

text \<open>A pointer to an integer.\<close>

definition opt_int :: "(string, json) gomap \<Rightarrow> string \<Rightarrow> int option option" where
  "opt_int m k =
     (case json_get m k of
        JNull \<Rightarrow> Some None
      | JNum s \<Rightarrow> (case atoi s of Some n \<Rightarrow> Some (Some n) | None \<Rightarrow> None)
      | _ \<Rightarrow> None)"

definition reject_unknown :: "string \<Rightarrow> string list \<Rightarrow> (string, json) gomap \<Rightarrow> messages_error option" where
  "reject_unknown name allowed m =
     (let unknown = sort (filter (\<lambda>k. k \<notin> set allowed) (map fst m)) in
      if unknown = [] then None else Some (UnknownFields name unknown))"

definition decode_thinking :: "json \<Rightarrow> thinking_config option" where
  "decode_thinking v =
     (case v of
        JObj m \<Rightarrow>
          (case (entry_text m ''type'', opt_int m ''budget_tokens'', entry_text m ''display'') of
             (Some t, Some b, Some d) \<Rightarrow> Some \<lparr>th_type = t, th_budget = b, th_display = d\<rparr>
           | _ \<Rightarrow> None)
      | _ \<Rightarrow> None)"

definition parse_thinking_config :: "json \<Rightarrow> bool \<Rightarrow> messages_error + thinking_config" where
  "parse_thinking_config v strip =
     (if \<not> has_json_value v then Inr \<lparr>th_type = [], th_budget = None, th_display = []\<rparr>
      else case decode_thinking v of
        None \<Rightarrow> Inl InvalidThinking
      | Some t0 \<Rightarrow>
          (case (if strip then None
                 else case v of JObj m \<Rightarrow> reject_unknown ''thinking'' [''type'', ''budget_tokens'', ''display''] m | _ \<Rightarrow> None) of
             Some e \<Rightarrow> Inl e
           | None \<Rightarrow>
               let t = t0\<lparr>th_type := to_lower (trim_space (th_type t0)), th_display := to_lower (trim_space (th_display t0))\<rparr> in
               if th_type t = [] then Inl ThinkingTypeRequired
               else if th_display t \<noteq> [] \<and> th_display t \<noteq> ''summarized'' \<and> th_display t \<noteq> ''omitted''
               then Inl (UnsupportedDisplay (th_display t))
               else Inr t))"

definition thinking_bridge_from :: "json \<Rightarrow> thinking_bridge" where
  "thinking_bridge_from v =
     (case decode_thinking v of
        None \<Rightarrow> \<lparr>tb_enabled = False, tb_display = []\<rparr>
      | Some t \<Rightarrow>
          if to_lower (trim_space (th_type t)) = ''adaptive'' \<or> to_lower (trim_space (th_type t)) = ''enabled''
          then let d = to_lower (trim_space (th_display t)) in
            \<lparr>tb_enabled = True, tb_display = (if d = [] then ''summarized'' else d)\<rparr>
          else \<lparr>tb_enabled = False, tb_display = []\<rparr>)"

text \<open>The effort of \<open>output_config\<close>.\<close>

definition parse_output_config :: "json \<Rightarrow> bool \<Rightarrow> messages_error + string" where
  "parse_output_config v strip =
     (if \<not> has_json_value v then Inr []
      else case v of
        JObj m \<Rightarrow>
          (case entry_text m ''effort'' of
             None \<Rightarrow> Inl InvalidOutput
           | Some e \<Rightarrow>
               (case (if strip then None else reject_unknown ''output_config'' [''effort'', ''format''] m) of
                  Some err \<Rightarrow> Inl err
                | None \<Rightarrow> Inr (to_lower (trim_space e))))
      | _ \<Rightarrow> Inl InvalidOutput)"

text \<open>\<open>translateOutputFormat\<close>: the schema of a structured output.\<close>

definition translate_output_format :: "json \<Rightarrow> messages_error + json option" where
  "translate_output_format v =
     (if \<not> has_json_value v then Inr None
      else case v of
        JObj m \<Rightarrow>
          if entry_text m ''effort'' = None then Inl InvalidOutput
          else if \<not> has_json_value (json_get m ''format'') then Inr None
          else (case json_get m ''format'' of
            JObj f \<Rightarrow>
              (case entry_text f ''type'' of
                 None \<Rightarrow> Inl InvalidFormat
               | Some t \<Rightarrow>
                   if to_lower (trim_space t) \<noteq> ''json_schema'' then Inl (UnsupportedFormat (to_lower (trim_space t)))
                   else (case json_get f ''schema'' of JObj s \<Rightarrow> Inr (Some (JObj s)) | _ \<Rightarrow> Inl SchemaRequired))
          | _ \<Rightarrow> Inl InvalidFormat)
      | _ \<Rightarrow> Inl InvalidOutput)"

definition normalize_effort :: "string \<Rightarrow> messages_error + string" where
  "normalize_effort effort =
     (let e = to_lower (trim_space effort) in
      if e = ''low'' \<or> e = ''medium'' \<or> e = ''high'' then Inr e
      else if e = ''xhigh'' \<or> e = ''max'' then Inr ''xhigh''
      else Inl (UnsupportedEffort effort))"

definition effort_from_budget :: "int \<Rightarrow> string" where
  "effort_from_budget b = (if b < 4000 then ''low'' else if b < 16000 then ''medium'' else ''high'')"

definition grok_reasoning_effort :: "string \<Rightarrow> string \<Rightarrow> string" where
  "grok_reasoning_effort model effort =
     (if effort = ''xhigh'' then if str_contains (to_lower model) ''multi-agent'' then ''xhigh'' else ''high'' else effort)"

definition is_non_reasoning_model :: "string \<Rightarrow> bool" where
  "is_non_reasoning_model model0 =
     (let model = to_lower (trim_space model0) in has_prefix model ''grok-composer-'' \<or> str_contains model ''non-reasoning'')"

definition supports_disabled_reasoning :: "string \<Rightarrow> bool" where
  "supports_disabled_reasoning model0 =
     (let model = to_lower (trim_space model0) in model = ''grok-4.3'' \<or> has_prefix model ''grok-4.3-'')"

definition disabled_reasoning_effort :: "thinking_config \<Rightarrow> string \<Rightarrow> string \<Rightarrow> messages_error + string" where
  "disabled_reasoning_effort t effort model =
     (if th_budget t \<noteq> None then Inl (BudgetInvalid ''disabled'')
      else if th_display t \<noteq> [] then Inl DisplayInvalid
      else if effort \<noteq> [] then Inr (if is_non_reasoning_model model then [] else effort)
      else if is_non_reasoning_model model then Inr []
      else if supports_disabled_reasoning model then Inr ''none'' else Inr ''low'')"

definition resolve_thinking_effort :: "thinking_config \<Rightarrow> string \<Rightarrow> string \<Rightarrow> int \<Rightarrow> bool \<Rightarrow> messages_error + string" where
  "resolve_thinking_effort t effort model max_tokens has_tools =
     (if th_type t = [] then Inr effort
      else if th_type t = ''adaptive'' then
        if th_budget t \<noteq> None then Inl (BudgetInvalid ''adaptive'') else Inr (if effort = [] then ''high'' else effort)
      else if th_type t = ''enabled'' then
        (case th_budget t of
           None \<Rightarrow> Inl BudgetTooSmall
         | Some b \<Rightarrow>
             if b < 1024 then Inl BudgetTooSmall
             else if \<not> has_tools \<and> max_tokens > 0 \<and> b \<ge> max_tokens then Inl BudgetTooLarge
             else Inr (if effort = [] then effort_from_budget b else effort))
      else if th_type t = ''disabled'' then disabled_reasoning_effort t effort model
      else Inl (UnsupportedThinking (th_type t)))"

definition translate_thinking_config :: "json \<Rightarrow> json \<Rightarrow> string \<Rightarrow> bool \<Rightarrow> int \<Rightarrow> bool \<Rightarrow> messages_error + reasoning option" where
  "translate_thinking_config thinking output model strip max_tokens has_tools =
     (case parse_thinking_config thinking strip of
        Inl e \<Rightarrow> Inl e
      | Inr t \<Rightarrow>
          (case parse_output_config output strip of
             Inl e \<Rightarrow> Inl e
           | Inr o' \<Rightarrow>
               (case (if o' \<noteq> [] then normalize_effort o' else Inr []) of
                  Inl e \<Rightarrow> Inl e
                | Inr wanted \<Rightarrow>
                    (case resolve_thinking_effort t wanted model max_tokens has_tools of
                       Inl e \<Rightarrow> Inl e
                     | Inr effort \<Rightarrow>
                         if effort = [] then Inr None
                         else if is_non_reasoning_model model then Inl (NonReasoning model)
                         else Inr (Some \<lparr>rs_effort = grok_reasoning_effort model effort,
                                rs_summary = (if (th_type t = ''adaptive'' \<or> th_type t = ''enabled'') \<and> th_display t \<noteq> ''omitted''
                                              then ''auto'' else [])\<rparr>)))))"

section \<open>Messages to input items\<close>

datatype input_part = InputText string | OutputText string | InputImage string

datatype input_item =
    ItemMessage string "input_part list"
  | ItemCall string string string
  | ItemOutput string string
  | ItemReasoning string

text \<open>The texts of a list of text blocks, as the structs \<open>{type, text}\<close> take them; \<open>None\<close> is an error of the decoder.\<close>

fun text_blocks :: "(string, json) gomap list \<Rightarrow> string list option" where
  "text_blocks [] = Some []"
| "text_blocks (b # bs) =
     (case (entry_text b ''type'', entry_text b ''text'', text_blocks bs) of
        (Some ty, Some s, Some ss) \<Rightarrow> Some (if (ty = [] \<or> ty = ''text'') \<and> s \<noteq> [] then s # ss else ss)
      | _ \<Rightarrow> None)"

definition block_texts :: "json \<Rightarrow> string list option" where
  "block_texts v = (case decode_objects v of None \<Rightarrow> None | Some bs \<Rightarrow> text_blocks bs)"

definition extract_system_text :: "json \<Rightarrow> string" where
  "extract_system_text v =
     (case v of JStr s \<Rightarrow> s | _ \<Rightarrow> (case block_texts v of None \<Rightarrow> [] | Some ss \<Rightarrow> join_lines ss))"

definition tool_result_output :: "stream_env \<Rightarrow> json \<Rightarrow> string" where
  "tool_result_output env v =
     (case v of
        JNull \<Rightarrow> []
      | JStr s \<Rightarrow> s
      | _ \<Rightarrow> (case block_texts v of None \<Rightarrow> se_raw env v | Some ss \<Rightarrow> join_lines ss))"

definition text_part :: "string \<Rightarrow> string \<Rightarrow> input_part" where
  "text_part role t = (if role = ''assistant'' then OutputText t else InputText t)"

definition image_parts :: "(string, json) gomap \<Rightarrow> input_part list" where
  "image_parts bl =
     (let src = struct_object bl ''source''; url = struct_string src ''url''; data = struct_string src ''data''; mt = struct_string src ''media_type'';
          url = (if url = [] \<and> data \<noteq> []
                 then ''data:'' @ (if mt = [] then ''application/octet-stream'' else mt) @ '';base64,'' @ data else url) in
      if url \<noteq> [] then [InputImage url] else [])"

definition call_item :: "stream_env \<Rightarrow> (string, json) gomap \<Rightarrow> input_item" where
  "call_item env bl =
     ItemCall (field env bl ''id'') (field env bl ''name'')
       (case json_get bl ''input'' of JNull \<Rightarrow> ''{}'' | v \<Rightarrow> se_raw env v)"

definition output_item :: "stream_env \<Rightarrow> (string, json) gomap \<Rightarrow> input_item" where
  "output_item env bl =
     (let call = field env bl ''tool_use_id''; call = (if call = [] then field env bl ''id'' else call);
          out = tool_result_output env (json_get bl ''content'') in
      ItemOutput call
        (if field env bl ''is_error'' = ''true''
         then se_raw env (JObj [(''content'', JStr out), (''is_error'', JBool True)]) else out))"

definition flush_parts :: "string \<Rightarrow> input_part list \<Rightarrow> input_item list" where
  "flush_parts role ps = (if ps = [] then [] else [ItemMessage role ps])"

text \<open>The blocks in order; \<open>ps\<close> are the parts not yet written.\<close>

fun convert_blocks :: "stream_env \<Rightarrow> string \<Rightarrow> input_part list \<Rightarrow> (string, json) gomap list \<Rightarrow> input_item list" where
  "convert_blocks env role ps [] = flush_parts role ps"
| "convert_blocks env role ps (bl # bls) =
     (let typ = field env bl ''type'' in
      if typ = ''text'' \<or> typ = [] then convert_blocks env role (ps @ [text_part role (field env bl ''text'')]) bls
      else if typ = ''image'' then convert_blocks env role (ps @ image_parts bl) bls
      else if typ = ''tool_use'' then flush_parts role ps @ call_item env bl # convert_blocks env role [] bls
      else if typ = ''tool_result'' then flush_parts role ps @ output_item env bl # convert_blocks env role [] bls
      else if typ = ''thinking'' \<and> field env bl ''signature'' \<noteq> []
      then flush_parts role ps @ ItemReasoning (field env bl ''signature'') # convert_blocks env role [] bls
      else convert_blocks env role ps bls)"

definition convert_message :: "stream_env \<Rightarrow> string \<times> json option \<Rightarrow> input_item list" where
  "convert_message env m =
     (case m of (role0, content) \<Rightarrow>
        let role = to_lower (trim_space role0); role = (if role = [] then ''user'' else role) in
        case content of
          None \<Rightarrow> [ItemMessage role [InputText []]]
        | Some (JStr s) \<Rightarrow> [ItemMessage role [text_part role s]]
        | Some JNull \<Rightarrow> [ItemMessage role [text_part role []]]
        | Some v \<Rightarrow>
            (case decode_objects v of
               None \<Rightarrow> [ItemMessage role [InputText (se_raw env v)]]
             | Some bls \<Rightarrow> convert_blocks env role [] bls))"

section \<open>The request\<close>

record message_tool =
  mt_name :: string
  mt_description :: string
  mt_schema :: json
  mt_type :: string

record message_request =
  mr_model :: string
  mr_max_tokens :: int
  mr_system :: json
  mr_messages :: "(string \<times> json option) list"
  mr_tools :: "message_tool list"
  mr_tool_choice :: json
  mr_stream :: bool
  mr_temperature :: "string option"
  mr_top_p :: "string option"
  mr_thinking :: json
  mr_output_config :: json

datatype response_tool = WebSearchTool | FunctionTool string string json

record responses_body =
  rq_model :: string
  rq_instructions :: string
  rq_input :: "input_item list"
  rq_tools :: "response_tool list"
  rq_tool_choice :: json
  rq_reasoning :: "reasoning option"
  rq_schema :: "json option"
  rq_include :: "string list"
  rq_max_output_tokens :: int
  rq_stream :: bool
  rq_temperature :: "string option"
  rq_top_p :: "string option"
  rq_prompt_cache_key :: string
  rq_parallel :: "bool option"

text \<open>\<open>json.Unmarshal\<close> of the body: a field of another type is an error.\<close>

definition opt_number :: "(string, json) gomap \<Rightarrow> string \<Rightarrow> string option option" where
  "opt_number m k = (case json_get m k of JNull \<Rightarrow> Some None | JNum s \<Rightarrow> Some (Some s) | _ \<Rightarrow> None)"

fun all_texts :: "json list \<Rightarrow> bool" where
  "all_texts [] = True"
| "all_texts (v # vs) = ((case v of JStr s \<Rightarrow> True | JNull \<Rightarrow> True | _ \<Rightarrow> False) \<and> all_texts vs)"

fun decode_list :: "((string, json) gomap \<Rightarrow> 'a option) \<Rightarrow> (string, json) gomap list \<Rightarrow> 'a list option" where
  "decode_list f [] = Some []"
| "decode_list f (m # ms) = (case (f m, decode_list f ms) of (Some x, Some xs) \<Rightarrow> Some (x # xs) | _ \<Rightarrow> None)"

definition decode_message :: "(string, json) gomap \<Rightarrow> (string \<times> json option) option" where
  "decode_message m = map_option (\<lambda>role. (role, map_of m ''content'')) (entry_text m ''role'')"

definition decode_tool :: "(string, json) gomap \<Rightarrow> message_tool option" where
  "decode_tool m =
     (case (entry_text m ''name'', entry_text m ''description'', entry_text m ''type'') of
        (Some n, Some d, Some t) \<Rightarrow> Some \<lparr>mt_name = n, mt_description = d, mt_schema = json_get m ''input_schema'', mt_type = t\<rparr>
      | _ \<Rightarrow> None)"

definition decode_many :: "((string, json) gomap \<Rightarrow> 'a option) \<Rightarrow> json \<Rightarrow> 'a list option" where
  "decode_many f v = (case decode_objects v of None \<Rightarrow> None | Some ms \<Rightarrow> decode_list f ms)"

definition hints_ok :: "(string, json) gomap \<Rightarrow> bool" where
  "hints_ok m \<longleftrightarrow> opt_int m ''top_k'' \<noteq> None \<and>
     (case json_get m ''stop_sequences'' of JNull \<Rightarrow> True | JArr vs \<Rightarrow> all_texts vs | _ \<Rightarrow> False)"

definition decode_request :: "json \<Rightarrow> message_request option" where
  "decode_request v =
     (case (case v of JObj m \<Rightarrow> Some m | JNull \<Rightarrow> Some [] | _ \<Rightarrow> None) of
        None \<Rightarrow> None
      | Some m \<Rightarrow>
          (case (entry_text m ''model'', entry_int m ''max_tokens'', decode_many decode_message (json_get m ''messages''),
                 decode_many decode_tool (json_get m ''tools''), entry_bool m ''stream'', opt_number m ''temperature'', opt_number m ''top_p'') of
             (Some model, Some mx, Some ms, Some ts, Some stream, Some temp, Some nucleus) \<Rightarrow>
               if \<not> hints_ok m then None
               else Some \<lparr>mr_model = model, mr_max_tokens = mx, mr_system = json_get m ''system'', mr_messages = ms, mr_tools = ts,
                      mr_tool_choice = json_get m ''tool_choice'', mr_stream = stream, mr_temperature = temp, mr_top_p = nucleus,
                      mr_thinking = json_get m ''thinking'', mr_output_config = json_get m ''output_config''\<rparr>
           | _ \<Rightarrow> None))"

definition is_web_search_tool :: "string \<Rightarrow> bool" where
  "is_web_search_tool t0 = (let t = to_lower (trim_space t0) in t = ''web_search'' \<or> has_prefix t ''web_search_'')"

definition should_skip_tool :: "message_tool \<Rightarrow> bool" where
  "should_skip_tool t = (let ty = to_lower (trim_space (mt_type t)) in ty = ''namespace'' \<or> has_prefix ty ''tool_search'')"

definition strip_json_field :: "string \<Rightarrow> json \<Rightarrow> json" where
  "strip_json_field k v = (case v of JObj m \<Rightarrow> if map_of m k = None then v else JObj (gm_del k m) | _ \<Rightarrow> v)"

definition convert_tool :: "message_tool \<Rightarrow> response_tool list" where
  "convert_tool t =
     (if should_skip_tool t then []
      else if is_web_search_tool (mt_type t) then [WebSearchTool]
      else let name = trim_space (mt_name t) in
       if name = [] then []
       else [FunctionTool name (mt_description t)
              (strip_json_field ''$schema'' (if mt_schema t = JNull then JObj [] else mt_schema t))])"

definition tool_choice_forces :: "json \<Rightarrow> string \<Rightarrow> bool" where
  "tool_choice_forces v name =
     (case v of
        JObj m \<Rightarrow>
          (case (entry_text m ''type'', entry_text m ''name'') of
             (Some t, Some n) \<Rightarrow> to_lower (trim_space t) = ''tool'' \<and> to_lower (trim_space n) = to_lower (trim_space name)
           | _ \<Rightarrow> False)
      | _ \<Rightarrow> False)"

text \<open>\<open>JNull\<close> is a choice that is left out.\<close>

definition convert_tool_choice :: "json \<Rightarrow> json" where
  "convert_tool_choice v =
     (case v of
        JStr s \<Rightarrow> if s = ''any'' then JStr ''required'' else JStr s
      | JObj m \<Rightarrow>
          let t = struct_string m ''type'' in
          if t = ''auto'' then JStr ''auto''
          else if t = ''any'' then JStr ''required''
          else if t = ''none'' then JStr ''none''
          else if t = ''tool'' then JObj [(''type'', JStr ''function''), (''name'', JStr (struct_string m ''name''))]
          else v
      | _ \<Rightarrow> JNull)"

definition parallel_calls :: "json \<Rightarrow> bool option" where
  "parallel_calls v =
     (case v of JObj m \<Rightarrow> (case json_get m ''disable_parallel_tool_use'' of JBool b \<Rightarrow> Some (\<not> b) | _ \<Rightarrow> None) | _ \<Rightarrow> None)"

definition translate_request ::
  "stream_env \<Rightarrow> string \<Rightarrow> string \<Rightarrow> string \<Rightarrow> bool \<Rightarrow> (messages_error + responses_body) \<times> string" where
  "translate_request env raw resolved conv_id strip =
     (case (case se_decode env raw of None \<Rightarrow> None | Some v \<Rightarrow> decode_request v) of
        None \<Rightarrow> (Inl InvalidBody, [])
      | Some req \<Rightarrow>
          let original = trim_space (mr_model req); model = (if trim_space resolved = [] then original else trim_space resolved);
              tools = concat (map convert_tool (mr_tools req)); choice = mr_tool_choice req in
          (case translate_thinking_config (mr_thinking req) (mr_output_config req) model strip (mr_max_tokens req) (mr_tools req \<noteq> []) of
             Inl e \<Rightarrow> (Inl e, original)
           | Inr reasoning \<Rightarrow>
               (case translate_output_format (mr_output_config req) of
                  Inl e \<Rightarrow> (Inl e, original)
                | Inr schema \<Rightarrow>
                    (Inr \<lparr>rq_model = model, rq_instructions = (if mr_system req = JNull then [] else extract_system_text (mr_system req)),
                      rq_input = concat (map (convert_message env) (mr_messages req)), rq_tools = tools,
                      rq_tool_choice =
                        (if choice = JNull then JNull
                         else if WebSearchTool \<in> set tools \<and> tool_choice_forces choice ''web_search'' then JStr ''auto''
                         else convert_tool_choice choice),
                      rq_reasoning = reasoning, rq_schema = schema,
                      rq_include = (if tb_enabled (thinking_bridge_from (mr_thinking req)) then [''reasoning.encrypted_content''] else []),
                      rq_max_output_tokens = (if mr_max_tokens req > 0 then mr_max_tokens req else 0), rq_stream = mr_stream req,
                      rq_temperature = mr_temperature req, rq_top_p = mr_top_p req, rq_prompt_cache_key = conv_id,
                      rq_parallel = parallel_calls choice\<rparr>, original))))"

section \<open>The response\<close>

datatype content_block = TextBlock string | ThinkingBlock string string | ToolUseBlock string string string

record message_response =
  ms_id :: string
  ms_model :: string
  ms_content :: "content_block list"
  ms_stop_reason :: string
  ms_usage :: "int \<times> int"

definition normalize_stop_reason :: "string \<Rightarrow> bool \<Rightarrow> string" where
  "normalize_stop_reason s has_tool =
     (let r = to_lower (trim_space s) in
      if has_tool then ''tool_use''
      else if r \<in> {[], ''stop'', ''completed'', ''end_turn''} then ''end_turn''
      else if r \<in> {''max_tokens'', ''max_output_tokens'', ''length''} then ''max_tokens''
      else if r \<in> {''tool_use'', ''tool_calls'', ''function_call''} then ''end_turn''
      else if r \<in> {''stop_sequence'', ''pause_turn'', ''refusal''} then s
      else if r = ''content_filter'' then ''refusal''
      else ''end_turn'')"

definition incomplete_reason :: "(string, json) gomap \<Rightarrow> string" where
  "incomplete_reason rt = struct_string (struct_object rt ''incomplete_details'') ''reason''"

definition map_stop_reason :: "stream_env \<Rightarrow> (string, json) gomap \<Rightarrow> bool \<Rightarrow> string" where
  "map_stop_reason env rt has_tool =
     (if has_tool then ''tool_use''
      else if field env rt ''stop_reason'' \<noteq> [] then normalize_stop_reason (field env rt ''stop_reason'') False
      else if incomplete_reason rt \<noteq> [] then normalize_stop_reason (incomplete_reason rt) False
      else if field env rt ''status'' = ''incomplete'' then ''max_tokens''
      else ''end_turn'')"

definition call_arguments :: "stream_env \<Rightarrow> (string, json) gomap \<Rightarrow> string" where
  "call_arguments env item =
     (let args = (case map_of item ''arguments'' of
                    None \<Rightarrow> ''{}''
                  | Some JNull \<Rightarrow> ''{}''
                  | Some (JStr s) \<Rightarrow> if s = [] then ''{}'' else s
                  | Some v \<Rightarrow> se_raw env v) in
      if se_decode env args = None \<or> \<not> has_prefix (trim_space args) ''{'' then ''{}'' else args)"

definition call_block :: "stream_env \<Rightarrow> (string, json) gomap \<Rightarrow> content_block" where
  "call_block env item =
     ToolUseBlock (if field env item ''call_id'' = [] then field env item ''id'' else field env item ''call_id'')
       (field env item ''name'') (call_arguments env item)"

definition thinking_blocks :: "stream_env \<Rightarrow> thinking_bridge \<Rightarrow> (string, json) gomap \<Rightarrow> content_block list" where
  "thinking_blocks env br item =
     (if \<not> tb_enabled br then []
      else let summary = (if tb_display br = ''omitted'' then [] else reasoning_summary env (json_get item ''summary''));
               signature = field env item ''encrypted_content'' in
        if summary = [] \<and> signature = [] then [] else [ThinkingBlock summary signature])"

definition item_blocks :: "stream_env \<Rightarrow> thinking_bridge \<Rightarrow> (string, json) gomap \<Rightarrow> content_block list" where
  "item_blocks env br item =
     (let typ = field env item ''type'' in
      if typ = ''message'' then map TextBlock (message_texts env (map_of item ''content''))
      else if typ = ''function_call'' then [call_block env item]
      else if typ = ''reasoning'' then thinking_blocks env br item
      else [])"

definition output_items :: "(string, json) gomap \<Rightarrow> (string, json) gomap list" where
  "output_items rt =
     (case map_of rt ''output'' of
        None \<Rightarrow> []
      | Some v \<Rightarrow> (case decode_objects v of None \<Rightarrow> [] | Some items \<Rightarrow> items))"

definition object_or_null :: "json option \<Rightarrow> (string, json) gomap option" where
  "object_or_null v = (case v of Some (JObj m) \<Rightarrow> Some m | Some JNull \<Rightarrow> Some [] | _ \<Rightarrow> None)"

text \<open>An envelope of a terminal event is unwrapped.\<close>

definition unwrap_response :: "stream_env \<Rightarrow> (string, json) gomap \<Rightarrow> (string, json) gomap option" where
  "unwrap_response env rt =
     (if field env rt ''type'' \<in> {''response.completed'', ''response.incomplete''} \<and> map_of rt ''response'' \<noteq> None
      then object_or_null (map_of rt ''response'') else Some rt)"

definition response_of :: "stream_env \<Rightarrow> string \<Rightarrow> string \<Rightarrow> thinking_bridge \<Rightarrow> (string, json) gomap \<Rightarrow> message_response" where
  "response_of env request_model fallback br rt =
     (let i = field env rt ''id''; i = (if i = [] then ''msg_'' @ show_int (se_now env) else i);
          i = (if has_prefix i ''resp_'' then ''msg_'' @ trim_prefix i ''resp_'' else i);
          model = (if request_model = [] then field env rt ''model'' else request_model);
          model = (if model = [] then fallback else model);
          items = output_items rt; blocks = concat (map (item_blocks env br) items);
          has_tool = (\<exists>it\<in>set items. field env it ''type'' = ''function_call'') in
      \<lparr>ms_id = i, ms_model = model,
       ms_content = (if blocks = [] \<and> field env rt ''output_text'' \<noteq> [] then [TextBlock (field env rt ''output_text'')] else blocks),
       ms_stop_reason = map_stop_reason env rt has_tool,
       ms_usage = (case map_of rt ''usage'' of None \<Rightarrow> (0, 0) | Some u \<Rightarrow> extract_usage u)\<rparr>)"

definition translate_response ::
  "stream_env \<Rightarrow> string \<Rightarrow> string \<Rightarrow> thinking_bridge \<Rightarrow> string \<Rightarrow> messages_error + message_response" where
  "translate_response env request_model fallback br raw0 =
     (let raw = trim_space raw0 in
      if raw = [] then Inl EmptyResponse
      else case object_or_null (se_decode env raw) of
        None \<Rightarrow> Inl InvalidBody
      | Some rt \<Rightarrow>
          (case unwrap_response env rt of
             None \<Rightarrow> Inl InvalidBody
           | Some rt \<Rightarrow> Inr (response_of env request_model fallback br rt)))"

text \<open>A block as the client sends it back: the JSON of \<open>ContentBlock\<close>.\<close>

definition block_json :: "stream_env \<Rightarrow> content_block \<Rightarrow> (string, json) gomap" where
  "block_json env b =
     (case b of
        TextBlock s \<Rightarrow> (''type'', JStr ''text'') # (if s = [] then [] else [(''text'', JStr s)])
      | ThinkingBlock s sig \<Rightarrow>
          [(''type'', JStr ''thinking''), (''thinking'', JStr s)] @ (if sig = [] then [] else [(''signature'', JStr sig)])
      | ToolUseBlock i n args \<Rightarrow>
          (''type'', JStr ''tool_use'') # (if i = [] then [] else [(''id'', JStr i)]) @ (if n = [] then [] else [(''name'', JStr n)]) @
            (case se_decode env args of None \<Rightarrow> [] | Some v \<Rightarrow> [(''input'', v)]))"

section \<open>Reasoning controls\<close>

lemma resolved_effort:
  assumes "resolve_thinking_effort t wanted model mx tools = Inr effort" "wanted \<in> {[], ''low'', ''medium'', ''high'', ''xhigh''}"
  shows "effort \<in> {[], ''low'', ''medium'', ''high'', ''xhigh''} \<or> effort = ''none'' \<and> supports_disabled_reasoning model \<and> th_type t = ''disabled''"
  using assms unfolding resolve_thinking_effort_def disabled_reasoning_effort_def effort_from_budget_def
  by (auto split: if_splits option.splits)

lemma reasoning_admissible_facts:
  assumes "translate_thinking_config thinking output model strip mx tools = Inr (Some r)"
  shows "\<not> is_non_reasoning_model model" and "rs_effort r \<in> {''none'', ''low'', ''medium'', ''high'', ''xhigh''}"
    and "rs_effort r = ''xhigh'' \<Longrightarrow> str_contains (to_lower model) ''multi-agent''"
    and "rs_effort r = ''none'' \<Longrightarrow> supports_disabled_reasoning model"
    and "rs_summary r \<in> {[], ''auto''}" and "rs_summary r = ''auto'' \<Longrightarrow> tb_enabled (thinking_bridge_from thinking)"
proof -
  obtain t where t: "parse_thinking_config thinking strip = Inr t"
    using assms unfolding translate_thinking_config_def by (cases "parse_thinking_config thinking strip") auto
  obtain o' where o': "parse_output_config output strip = Inr o'"
    using assms t unfolding translate_thinking_config_def by (cases "parse_output_config output strip") auto
  obtain wanted where w: "(if o' \<noteq> [] then normalize_effort o' else Inr []) = Inr wanted"
    using assms t o' unfolding translate_thinking_config_def by (cases "if o' \<noteq> [] then normalize_effort o' else Inr []") auto
  obtain effort where e1: "resolve_thinking_effort t wanted model mx tools = Inr effort"
    using assms t o' w unfolding translate_thinking_config_def by (cases "resolve_thinking_effort t wanted model mx tools") auto
  have e: "resolve_thinking_effort t wanted model mx tools = Inr effort" "effort \<noteq> []" "\<not> is_non_reasoning_model model"
    and r: "r = \<lparr>rs_effort = grok_reasoning_effort model effort,
       rs_summary = (if (th_type t = ''adaptive'' \<or> th_type t = ''enabled'') \<and> th_display t \<noteq> ''omitted'' then ''auto'' else [])\<rparr>"
    using assms e1 unfolding translate_thinking_config_def t o' sum.case w by (auto split: if_splits)
  have "wanted \<in> {[], ''low'', ''medium'', ''high'', ''xhigh''}"
    using w by (auto simp: normalize_effort_def Let_def split: if_splits)
  from resolved_effort [OF e(1) this] e(2) have eff: "effort \<in> {''low'', ''medium'', ''high'', ''xhigh''} \<or>
      effort = ''none'' \<and> supports_disabled_reasoning model" by auto
  show "\<not> is_non_reasoning_model model" by (fact e(3))
  show "rs_effort r \<in> {''none'', ''low'', ''medium'', ''high'', ''xhigh''}" using eff by (auto simp: r grok_reasoning_effort_def)
  show "rs_effort r = ''xhigh'' \<Longrightarrow> str_contains (to_lower model) ''multi-agent''" using eff
    by (auto simp: r grok_reasoning_effort_def split: if_splits)
  show "rs_effort r = ''none'' \<Longrightarrow> supports_disabled_reasoning model" using eff
    by (auto simp: r grok_reasoning_effort_def split: if_splits)
  show "rs_summary r \<in> {[], ''auto''}" by (simp add: r)
  assume "rs_summary r = ''auto''"
  then have "th_type t = ''adaptive'' \<or> th_type t = ''enabled''" by (auto simp: r split: if_splits)
  moreover from this obtain t0 where "decode_thinking thinking = Some t0" "th_type t = to_lower (trim_space (th_type t0))"
    using t unfolding parse_thinking_config_def by (auto simp: Let_def split: if_splits option.splits)
  ultimately show "tb_enabled (thinking_bridge_from thinking)" by (simp add: thinking_bridge_from_def Let_def)
qed

text \<open>
  C8. The reasoning controls that reach the upstream are ones it has: a reasoning model, a level of its own scale, the highest only for
  multi-agent models and none only for models that can be told not to reason and only when the client disabled thinking,
  and a summary is requested or left out.
\<close>

theorem reasoning_admissible:
  assumes "translate_thinking_config thinking output model strip mx tools = Inr (Some r)"
  shows "\<not> is_non_reasoning_model model \<and> rs_effort r \<in> {''none'', ''low'', ''medium'', ''high'', ''xhigh''} \<and>
    (rs_effort r = ''xhigh'' \<longrightarrow> str_contains (to_lower model) ''multi-agent'') \<and>
    (rs_effort r = ''none'' \<longrightarrow> supports_disabled_reasoning model) \<and>
    rs_summary r \<in> {[], ''auto''} \<and> (rs_summary r = ''auto'' \<longrightarrow> tb_enabled (thinking_bridge_from thinking))"
  by (intro conjI impI) (rule reasoning_admissible_facts [OF assms], assumption?)+

section \<open>Stop reasons\<close>

lemma normalized_reason:
  "normalize_stop_reason s False \<noteq> ''tool_use'' \<and>
   to_lower (trim_space (normalize_stop_reason s False)) \<in> {''end_turn'', ''max_tokens'', ''stop_sequence'', ''pause_turn'', ''refusal''}"
proof -
  have known: "to_lower (trim_space ''end_turn'') = ''end_turn''" "to_lower (trim_space ''max_tokens'') = ''max_tokens''"
    "to_lower (trim_space ''refusal'') = ''refusal''" "to_lower (trim_space ''tool_use'') = ''tool_use''" by code_simp+
  show ?thesis
  proof (cases "to_lower (trim_space s) \<in> {''stop_sequence'', ''pause_turn'', ''refusal''}")
    case True
    then have "normalize_stop_reason s False = s" by (auto simp: normalize_stop_reason_def Let_def)
    then show ?thesis using True known(4) by auto
  next
    case False
    then have "normalize_stop_reason s False \<in> {''end_turn'', ''max_tokens'', ''refusal''}"
      by (simp add: normalize_stop_reason_def Let_def)
    then show ?thesis using known by auto
  qed
qed

lemma stop_reason_agrees_facts:
  "(ms_stop_reason (response_of env rm fb br rt) = ''tool_use'') = (\<exists>i n a. ToolUseBlock i n a \<in> set (ms_content (response_of env rm fb br rt)))"
  "to_lower (trim_space (ms_stop_reason (response_of env rm fb br rt))) \<in>
     {''end_turn'', ''max_tokens'', ''tool_use'', ''stop_sequence'', ''pause_turn'', ''refusal''}"
proof -
  let ?r = "response_of env rm fb br rt"
  let ?tool = "\<exists>it\<in>set (output_items rt). field env it ''type'' = ''function_call''"
  have fixed: "to_lower (trim_space ''max_tokens'') = ''max_tokens''" "to_lower (trim_space ''tool_use'') = ''tool_use''"
    "to_lower (trim_space ''end_turn'') = ''end_turn''" by code_simp+
  have reason: "ms_stop_reason ?r = map_stop_reason env rt ?tool" by (simp add: response_of_def Let_def)
  have plain: "map_stop_reason env rt False \<noteq> ''tool_use''" "to_lower (trim_space (map_stop_reason env rt False)) \<in>
      {''end_turn'', ''max_tokens'', ''stop_sequence'', ''pause_turn'', ''refusal''}"
    using normalized_reason fixed by (auto simp: map_stop_reason_def)
  have blocks: "(\<exists>i n a. ToolUseBlock i n a \<in> set (item_blocks env br it)) = (field env it ''type'' = ''function_call'')" for it
    by (auto simp: item_blocks_def thinking_blocks_def call_block_def Let_def)
  have "(\<exists>i n a. ToolUseBlock i n a \<in> set (concat (map (item_blocks env br) (output_items rt)))) = ?tool"
    unfolding blocks [symmetric] by auto
  then have content: "(\<exists>i n a. ToolUseBlock i n a \<in> set (ms_content ?r)) = ?tool"
    by (auto simp: response_of_def Let_def)
  show "(ms_stop_reason ?r = ''tool_use'') = (\<exists>i n a. ToolUseBlock i n a \<in> set (ms_content ?r))"
    unfolding content reason using plain(1) by (auto simp: map_stop_reason_def)
  show "to_lower (trim_space (ms_stop_reason ?r)) \<in> {''end_turn'', ''max_tokens'', ''tool_use'', ''stop_sequence'', ''pause_turn'', ''refusal''}"
    unfolding reason using plain(2) fixed(2) by (cases ?tool) (auto simp: map_stop_reason_def)
qed

text \<open>
  Stop reason and content of a message agree: the reason is \<open>tool_use\<close> exactly when the content has a tool call, whatever the upstream
  says, and otherwise one of the reasons the client knows (up to case and blanks, which
  the code passes on).
\<close>

theorem stop_reason_agrees:
  "(ms_stop_reason (response_of env rm fb br rt) = ''tool_use'') = (\<exists>i n a. ToolUseBlock i n a \<in> set (ms_content (response_of env rm fb br rt))) \<and>
   to_lower (trim_space (ms_stop_reason (response_of env rm fb br rt))) \<in>
     {''end_turn'', ''max_tokens'', ''tool_use'', ''stop_sequence'', ''pause_turn'', ''refusal''}"
  by (rule conjI stop_reason_agrees_facts)+

section \<open>A turn comes back as it was\<close>

text \<open>
  The items that a model writes, what the next request says of them (texts, calls and reasoning in order, whichever messages
  they are grouped in), and the same of converted items.
\<close>

datatype upstream_item = UpMessage "string list" | UpCall string string string | UpReasoning "string list" string

datatype said = Said string | Called string string string | Reasoned string | Other

definition texts_json :: "string \<Rightarrow> string list \<Rightarrow> json" where
  "texts_json ty ss = JArr (map (\<lambda>s. JObj [(''type'', JStr ty), (''text'', JStr s)]) ss)"

definition up_json :: "upstream_item \<Rightarrow> (string, json) gomap" where
  "up_json u =
     (case u of
        UpMessage ts \<Rightarrow> [(''type'', JStr ''message''), (''role'', JStr ''assistant''), (''content'', texts_json ''output_text'' ts)]
      | UpCall i n a \<Rightarrow> [(''type'', JStr ''function_call''), (''call_id'', JStr i), (''name'', JStr n), (''arguments'', JStr a)]
      | UpReasoning ss e \<Rightarrow>
          [(''type'', JStr ''reasoning''), (''summary'', texts_json ''summary_text'' ss), (''encrypted_content'', JStr e)])"

definition up_said :: "upstream_item \<Rightarrow> said list" where
  "up_said u =
     (case u of
        UpMessage ts \<Rightarrow> map Said (filter (\<lambda>t. t \<noteq> []) ts)
      | UpCall i n a \<Rightarrow> [Called i n a]
      | UpReasoning ss e \<Rightarrow> if e = [] then [] else [Reasoned e])"

fun item_said :: "input_item \<Rightarrow> said list" where
  "item_said (ItemMessage role ps) = map (\<lambda>p. case p of OutputText s \<Rightarrow> Said s | _ \<Rightarrow> Other) ps"
| "item_said (ItemCall i n a) = [Called i n a]"
| "item_said (ItemReasoning e) = [Reasoned e]"
| "item_said (ItemOutput c out) = [Other]"

text \<open>Arguments that are the text of a JSON object.\<close>

fun args_ok :: "stream_env \<Rightarrow> upstream_item \<Rightarrow> bool" where
  "args_ok env (UpCall i n a) =
     (has_prefix (trim_space a) ''{'' \<and> a \<noteq> [] \<and> (case se_decode env a of Some (JObj m) \<Rightarrow> se_raw env (JObj m) = a | _ \<Rightarrow> False))"
| "args_ok env u = True"

abbreviation part_said :: "input_part \<Rightarrow> said" where
  "part_said p \<equiv> (case p of OutputText s \<Rightarrow> Said s | _ \<Rightarrow> Other)"

definition block_said :: "stream_env \<Rightarrow> content_block \<Rightarrow> said list" where
  "block_said env b =
     (case b of
        TextBlock s \<Rightarrow> [Said s]
      | ThinkingBlock s sig \<Rightarrow> if sig = [] then [] else [Reasoned sig]
      | ToolUseBlock i n a \<Rightarrow>
          [Called i n (case se_decode env a of None \<Rightarrow> ''{}'' | Some JNull \<Rightarrow> ''{}'' | Some v \<Rightarrow> se_raw env v)])"

lemma flush_said [simp]: "concat (map item_said (flush_parts role ps)) = map part_said ps"
  by (simp add: flush_parts_def)

lemma json_get_Cons [simp]: "json_get ((k, v) # m) j = (if j = k then v else json_get m j)" "json_get [] j = JNull"
  by (simp_all add: json_get_def gm_default_def)

lemma raw_string_text [simp]: "raw_string env (JStr s) = s" "raw_string env JNull = []"
  by (simp_all add: raw_string_def)

lemma field_Cons [simp]:
  "field env ((k, v) # m) j = (if j = k then raw_string env v else field env m j)" "field env [] j = []"
  by (simp_all add: field_def)

lemma echoed_block:
  assumes "\<And>ps. concat (map item_said (convert_blocks env ''assistant'' ps bls)) =
     map part_said ps @ concat (map item_said (convert_blocks env ''assistant'' [] bls))"
  shows "concat (map item_said (convert_blocks env ''assistant'' ps (block_json env b # bls))) =
     map part_said ps @ block_said env b @ concat (map item_said (convert_blocks env ''assistant'' [] bls))"
proof (cases b)
  case (TextBlock s)
  then show ?thesis using assms [of "ps @ [OutputText s]"]
    by (cases "s = []") (simp_all add: block_json_def block_said_def text_part_def)
next
  case (ThinkingBlock s sig)
  then show ?thesis using assms [of ps] by (cases "sig = []") (simp_all add: block_json_def block_said_def)
next
  case (ToolUseBlock i n a)
  then show ?thesis
    by (simp add: block_json_def block_said_def call_item_def Let_def split: option.split json.split)
qed

lemma echoed_blocks:
  "concat (map item_said (convert_blocks env ''assistant'' ps (map (block_json env) bs))) =
     map part_said ps @ concat (map (block_said env) bs)"
proof (induction bs arbitrary: ps)
  case (Cons b bs)
  have "concat (map item_said (convert_blocks env ''assistant'' ps (map (block_json env) bs))) =
      map part_said ps @ concat (map item_said (convert_blocks env ''assistant'' [] (map (block_json env) bs)))" for ps
    using Cons.IH [of ps] Cons.IH [of "[]"] by simp
  from echoed_block [OF this] Cons.IH [of "[]"] show ?case by simp
qed simp

lemma object_list_map [simp]: "object_list (map JObj ms) = Some ms"
  by (induction ms) simp_all

lemma decode_texts: "decode_objects (texts_json ty ss) = Some (map (\<lambda>s. [(''type'', JStr ty), (''text'', JStr s)]) ss)"
  using object_list_map [of "map (\<lambda>s. [(''type'', JStr ty), (''text'', JStr s)]) ss"]
  by (simp add: decode_objects_def texts_json_def comp_def)

lemma up_blocks:
  assumes "args_ok env u" "tb_enabled br"
  shows "concat (map (block_said env) (item_blocks env br (up_json u))) = up_said u"
proof (cases u)
  case (UpMessage ts)
  have "message_texts env (Some (texts_json ''output_text'' ts)) = filter (\<lambda>t. t \<noteq> []) ts"
    by (induction ts) (simp_all add: message_texts_def decode_texts part_text_def)
  moreover have "concat (map (block_said env) (map TextBlock ss)) = map Said ss" for ss
    by (induction ss) (simp_all add: block_said_def)
  ultimately show ?thesis by (simp add: UpMessage up_json_def item_blocks_def up_said_def)
next
  case (UpCall i n a)
  then show ?thesis using assms(1)
    by (auto simp: up_json_def item_blocks_def up_said_def call_block_def call_arguments_def block_said_def Let_def split: option.splits json.splits)
next
  case (UpReasoning ss e)
  then show ?thesis using assms(2) by (simp add: up_json_def item_blocks_def up_said_def thinking_blocks_def block_said_def Let_def)
qed

text \<open>
  C6. A turn of the model survives the round trip. Texts, tool calls and encrypted reasoning of a response become a message with thinking enabled; sent
  back as the assistant's message of the next request it becomes input items that say the same, in
  the same order: no text, call, argument or signature is lost, added or changed.
\<close>

theorem turn_round_trip:
  assumes "map_of rt ''output'' = Some (JArr (map (JObj \<circ> up_json) us))" "field env rt ''output_text'' = []"
    and "tb_enabled br" "list_all (args_ok env) us"
  shows "concat (map item_said (convert_message env
           (''assistant'', Some (JArr (map (JObj \<circ> block_json env) (ms_content (response_of env rm fb br rt))))))) =
         concat (map up_said us)"
proof -
  have "decode_objects (JArr (map (JObj \<circ> up_json) us)) = Some (map up_json us)"
    using object_list_map [of "map up_json us"] by (simp add: decode_objects_def)
  then have content: "ms_content (response_of env rm fb br rt) = concat (map (item_blocks env br \<circ> up_json) us)"
    using assms(1,2) by (simp add: response_of_def output_items_def Let_def)
  let ?bs = "ms_content (response_of env rm fb br rt)"
  have role: "to_lower (trim_space ''assistant'') = ''assistant''" by code_simp
  have "decode_objects (JArr (map (JObj \<circ> block_json env) ?bs)) = Some (map (block_json env) ?bs)"
    using object_list_map [of "map (block_json env) ?bs"] by (simp add: decode_objects_def)
  then have "concat (map item_said (convert_message env (''assistant'', Some (JArr (map (JObj \<circ> block_json env) ?bs))))) =
      concat (map (block_said env) ?bs)"
    using echoed_blocks [of env "[]" ?bs] by (simp add: convert_message_def role Let_def)
  also have "\<dots> = concat (map up_said us)"
    unfolding content using assms(3,4) up_blocks [of env _ br] by (induction us) simp_all
  finally show ?thesis .
qed

section \<open>Samples\<close>

definition sample_message_env :: stream_env where
  "sample_message_env =
     \<lparr>se_decode = (\<lambda>s. if s = ''{}'' then Some (JObj []) else None), se_raw = (\<lambda>v. ''{}''), se_requote = id, se_status_text = (\<lambda>n. []),
      se_now = 0\<rparr>"

definition sample_turn :: "upstream_item list" where
  "sample_turn = [UpReasoning [''why''] ''enc'', UpMessage [''hi'', [], ''there''], UpCall ''c'' ''f'' ''{}'']"

definition sample_thinking_field :: json where
  "sample_thinking_field = JObj [(''type'', JStr '' Adaptive''), (''display'', JStr ''summarized'')]"

definition sample_output_field :: json where "sample_output_field = JObj [(''effort'', JStr ''max'')]"

theorem reasoning_admissible_witness:
  "\<exists>r. translate_thinking_config sample_thinking_field sample_output_field ''grok-4-multi-agent'' False 0 False = Inr (Some r) \<and>
     rs_effort r = ''xhigh'' \<and> str_contains (to_lower ''grok-4-multi-agent'') ''multi-agent'' \<and>
     rs_summary r = ''auto'' \<and> tb_enabled (thinking_bridge_from sample_thinking_field)"
proof -
  have t: "translate_thinking_config sample_thinking_field sample_output_field ''grok-4-multi-agent'' False 0 False =
      Inr (Some \<lparr>rs_effort = ''xhigh'', rs_summary = ''auto''\<rparr>)"
    by code_simp
  show ?thesis using reasoning_admissible [OF t] t by auto
qed

theorem turn_round_trip_witness:
  "concat (map item_said (convert_message sample_message_env (''assistant'', Some (JArr (map (JObj \<circ> block_json sample_message_env)
      (ms_content (response_of sample_message_env [] [] \<lparr>tb_enabled = True, tb_display = ''summarized''\<rparr>
        [(''output'', JArr (map (JObj \<circ> up_json) sample_turn))]))))))) =
     [Reasoned ''enc'', Said ''hi'', Said ''there'', Called ''c'' ''f'' ''{}'']"
proof -
  have "list_all (args_ok sample_message_env) sample_turn" by code_simp
  moreover have "concat (map up_said sample_turn) = [Reasoned ''enc'', Said ''hi'', Said ''there'', Called ''c'' ''f'' ''{}'']" by code_simp
  ultimately show ?thesis
    using turn_round_trip [of "[(''output'', JArr (map (JObj \<circ> up_json) sample_turn))]" sample_turn sample_message_env
        "\<lparr>tb_enabled = True, tb_display = ''summarized''\<rparr>" "[]" "[]"]
    by simp
qed

end
