(* ===== verification/OpenAI.thy ===== *)
theory OpenAI
  imports Messages
begin

text \<open>
  The OpenAI interface: the clean-up of a Responses body before it goes upstream (\<open>internal/protocol/openai/sanitize.go\<close>)
  and the translation of chat completions to and from it (\<open>chat.go\<close>). Bodies are decoded into
  \<open>any\<close>, a number there is a float: its text and its integer part are parameters, as are the decoder and \<open>json.Marshal\<close>.
\<close>

record openai_env =
  oe_decode :: "string \<Rightarrow> json option"
  oe_marshal :: "json \<Rightarrow> string"
  oe_number :: "string \<Rightarrow> string"
  oe_int :: "string \<Rightarrow> int"
  oe_zero :: "string \<Rightarrow> bool"
  oe_now :: int

datatype openai_error =
  OaInvalid | OaReasoning | OaEffort | OaConflict string string | OaKeyTooLong | OaChoices | OaLogprobs | OaAudio
| OaModality string | OaStop | OaImageUrl | OaPartType string

section \<open>Values\<close>

definition as_string :: "openai_env \<Rightarrow> json \<Rightarrow> string" where
  "as_string env v =
     (case v of
        JStr s \<Rightarrow> s
      | JNum n \<Rightarrow> oe_number env n
      | JBool b \<Rightarrow> if b then ''true'' else ''false''
      | JNull \<Rightarrow> []
      | _ \<Rightarrow> oe_marshal env v)"

definition as_bool :: "openai_env \<Rightarrow> json \<Rightarrow> bool" where
  "as_bool env v =
     (case v of
        JBool b \<Rightarrow> b
      | JStr s \<Rightarrow> to_lower (trim_space s) \<in> {''1'', ''true'', ''yes'', ''on''}
      | JNum n \<Rightarrow> \<not> oe_zero env n
      | _ \<Rightarrow> False)"

definition as_any_slice :: "json \<Rightarrow> json list" where
  "as_any_slice v = (case v of JArr vs \<Rightarrow> vs | _ \<Rightarrow> [])"

text \<open>\<open>strings.Join\<close>.\<close>

fun join_with :: "string \<Rightarrow> string list \<Rightarrow> string" where
  "join_with sep [] = []"
| "join_with sep [s] = s"
| "join_with sep (s # ss) = s @ sep @ join_with sep ss"

definition lower_field :: "openai_env \<Rightarrow> (string, json) gomap \<Rightarrow> string \<Rightarrow> string" where
  "lower_field env m k = to_lower (trim_space (as_string env (json_get m k)))"

section \<open>Instructions and input\<close>

definition part_texts :: "openai_env \<Rightarrow> json \<Rightarrow> string list" where
  "part_texts env p =
     (let t = (case p of
                 JObj pm \<Rightarrow> if as_string env (json_get pm ''text'') \<noteq> [] then as_string env (json_get pm ''text'')
                            else as_string env (json_get pm ''content'')
               | _ \<Rightarrow> as_string env p) in
      if t \<noteq> [] then [t] else [])"

definition extract_message_text :: "openai_env \<Rightarrow> (string, json) gomap \<Rightarrow> string" where
  "extract_message_text env m =
     (let c = json_get m ''content'' in
      if as_string env c \<noteq> [] then as_string env c
      else case c of
        JArr ps \<Rightarrow> join_with [CHR 0x0A] (concat (map (part_texts env) ps))
      | _ \<Rightarrow> as_string env (json_get m ''text''))"

definition instruction_role :: "string \<Rightarrow> bool" where
  "instruction_role r \<longleftrightarrow> r = ''system'' \<or> r = ''developer''"

definition is_instruction :: "openai_env \<Rightarrow> json \<Rightarrow> bool" where
  "is_instruction env it =
     (case it of
        JObj m \<Rightarrow> instruction_role (lower_field env m ''role'') \<or> instruction_role (lower_field env m ''type'')
      | _ \<Rightarrow> False)"

definition instruction_texts :: "openai_env \<Rightarrow> json list \<Rightarrow> string list" where
  "instruction_texts env its =
     filter (\<lambda>t. t \<noteq> []) (map (\<lambda>it. case it of JObj m \<Rightarrow> extract_message_text env m | _ \<Rightarrow> []) (filter (is_instruction env) its))"

definition sanitize_input_list :: "openai_env \<Rightarrow> json list \<Rightarrow> json option \<times> string list" where
  "sanitize_input_list env its =
     (let out = filter (\<lambda>it. \<not> is_instruction env it) its in
      (if out = [] then None else Some (JArr out), instruction_texts env its))"

definition sanitize_input :: "openai_env \<Rightarrow> json \<Rightarrow> json option \<times> string list" where
  "sanitize_input env v =
     (case v of
        JArr its \<Rightarrow> sanitize_input_list env its
      | JNull \<Rightarrow> sanitize_input_list env []
      | _ \<Rightarrow> (Some v, []))"

definition step_input :: "openai_env \<Rightarrow> (string, json) gomap \<Rightarrow> (string, json) gomap \<times> string list" where
  "step_input env obj =
     (case map_of obj ''input'' of
        None \<Rightarrow> (obj, [])
      | Some v \<Rightarrow>
          (case sanitize_input env v of
             (None, extra) \<Rightarrow> (gm_del ''input'' obj, extra)
           | (Some r, extra) \<Rightarrow> (gm_put ''input'' r obj, extra)))"

definition step_messages :: "openai_env \<Rightarrow> (string, json) gomap \<Rightarrow> (string, json) gomap \<times> string list" where
  "step_messages env obj =
     (case map_of obj ''messages'' of
        None \<Rightarrow> (obj, [])
      | Some v \<Rightarrow>
          (case sanitize_input env v of
             (None, extra) \<Rightarrow> (gm_del ''messages'' obj, extra)
           | (Some r, extra) \<Rightarrow>
               (if map_of obj ''input'' = None then gm_del ''messages'' (gm_put ''input'' r obj) else gm_put ''messages'' r obj, extra)))"

definition step_instructions :: "openai_env \<Rightarrow> (string, json) gomap \<Rightarrow> (string, json) gomap" where
  "step_instructions env obj =
     (let first = as_string env (json_get obj ''instructions'') in
      case step_input env obj of
        (obj1, e1) \<Rightarrow>
          (case step_messages env obj1 of
             (obj2, e2) \<Rightarrow>
               let parts = (if first \<noteq> [] then [first] else []) @ e1 @ e2 in
               if parts = [] then obj2 else gm_put ''instructions'' (JStr (join_with [CHR 0x0A, CHR 0x0A] parts)) obj2))"

section \<open>Formats, limits and effort\<close>

definition copied_fields :: "string list \<Rightarrow> (string, json) gomap \<Rightarrow> (string, json) gomap" where
  "copied_fields ks m = concat (map (\<lambda>k. case map_of m k of None \<Rightarrow> [] | Some v \<Rightarrow> [(k, v)]) ks)"

definition normalize_response_format :: "openai_env \<Rightarrow> json \<Rightarrow> json" where
  "normalize_response_format env rf =
     (case rf of
        JObj m \<Rightarrow>
          if to_lower (as_string env (json_get m ''type'')) = ''json_schema''
          then (case json_get m ''json_schema'' of
                  JObj schema \<Rightarrow>
                    JObj ((''type'', JStr ''json_schema'') # copied_fields [''name'', ''description'', ''schema'', ''strict''] schema)
                | _ \<Rightarrow> rf)
          else rf
      | _ \<Rightarrow> if trim_space (as_string env rf) \<noteq> [] then JObj [(''type'', JStr (trim_space (as_string env rf)))] else rf)"

definition step_format :: "openai_env \<Rightarrow> (string, json) gomap \<Rightarrow> (string, json) gomap" where
  "step_format env obj =
     (case map_of obj ''response_format'' of
        None \<Rightarrow> obj
      | Some rf \<Rightarrow>
          let t = (case json_get obj ''text'' of JObj t \<Rightarrow> t | _ \<Rightarrow> []);
              t = (if map_of t ''format'' = None then gm_put ''format'' (normalize_response_format env rf) t else t) in
          gm_del ''response_format'' (gm_put ''text'' (JObj t) obj))"

definition step_tokens :: "(string, json) gomap \<Rightarrow> (string, json) gomap" where
  "step_tokens obj =
     (if map_of obj ''max_output_tokens'' = None
      then case map_of obj ''max_tokens'' of
        None \<Rightarrow> obj
      | Some mt \<Rightarrow> gm_del ''max_tokens'' (gm_put ''max_output_tokens'' mt obj)
      else gm_del ''max_tokens'' obj)"

definition effort_value :: "json \<Rightarrow> openai_error + string \<times> bool" where
  "effort_value v =
     (case v of
        JNull \<Rightarrow> Inr ([], False)
      | JStr s \<Rightarrow>
          let e = to_lower (trim_space s) in
          if e = [] then Inr ([], False) else Inr (if e = ''minimal'' then ''low'' else e, True)
      | _ \<Rightarrow> Inl OaEffort)"

definition step_reasoning :: "(string, json) gomap \<Rightarrow> openai_error + (string, json) gomap" where
  "step_reasoning obj =
     (let raw = json_get obj ''reasoning'' in
      case (case raw of JNull \<Rightarrow> Inr None | JObj r \<Rightarrow> Inr (Some r) | _ \<Rightarrow> Inl OaReasoning) of
        Inl e \<Rightarrow> Inl e
      | Inr reasoning \<Rightarrow>
          (case (case reasoning of None \<Rightarrow> Inr ([], False) | Some r \<Rightarrow> effort_value (json_get r ''effort'')) of
             Inl e \<Rightarrow> Inl e
           | Inr (nested, nested_set) \<Rightarrow>
               (case effort_value (json_get obj ''reasoning_effort'') of
                  Inl e \<Rightarrow> Inl e
                | Inr (flat, flat_set) \<Rightarrow>
                    if nested_set \<and> flat_set \<and> nested \<noteq> flat then Inl (OaConflict nested flat)
                    else let effort = (if nested = [] then flat else nested);
                             obj1 = (if effort \<noteq> []
                                     then gm_put ''reasoning'' (JObj (gm_put ''effort'' (JStr effort) (case reasoning of None \<Rightarrow> [] | Some r \<Rightarrow> r))) obj
                                     else obj) in
                         Inr (gm_del ''reasoning_effort'' obj1))))"

definition max_prompt_cache_key_bytes :: nat where "max_prompt_cache_key_bytes = 512"

text \<open>The key of the prompt cache, with the body and the session id.\<close>

definition step_cache :: "openai_env \<Rightarrow> string \<Rightarrow> (string, json) gomap \<Rightarrow> openai_error + (string, json) gomap \<times> string" where
  "step_cache env conv0 obj =
     (let conv = trim_space conv0; key = trim_space (as_string env (json_get obj ''prompt_cache_key''));
          cid = trim_space (as_string env (json_get obj ''prompt_cache_id''));
          (obj1, key1) =
            (if key \<noteq> [] then (obj, key)
             else if cid \<noteq> [] then (gm_del ''prompt_cache_id'' (gm_put ''prompt_cache_key'' (JStr cid) obj), cid)
             else if conv \<noteq> [] then (gm_put ''prompt_cache_key'' (JStr conv) obj, conv)
             else (obj, [])) in
      if length key1 > max_prompt_cache_key_bytes then Inl OaKeyTooLong else Inr (obj1, key1))"

section \<open>Tools\<close>

definition allowed_tool_types :: "string list" where
  "allowed_tool_types =
     [''function'', ''web_search'', ''x_search'', ''image_generation'', ''collections_search'', ''file_search'', ''code_execution'',
      ''code_interpreter'', ''mcp'', ''shell'']"

text \<open>A function in the nested form of chat completions becomes flat.\<close>

definition flat_function :: "openai_env \<Rightarrow> (string, json) gomap \<Rightarrow> (string, json) gomap option" where
  "flat_function env m =
     (case json_get m ''function'' of
        JObj fn \<Rightarrow>
          let name = trim_space (as_string env (json_get fn ''name'')); d = trim_space (as_string env (json_get fn ''description'')) in
          if name = [] then None
          else Some ([(''type'', JStr ''function''), (''name'', JStr name)] @ (if d \<noteq> [] then [(''description'', JStr d)] else []) @
                 (case map_of fn ''parameters'' of
                    Some p \<Rightarrow> [(''parameters'', p)]
                  | None \<Rightarrow> (case map_of fn ''input_schema'' of Some p \<Rightarrow> [(''parameters'', p)] | None \<Rightarrow> [])))
      | _ \<Rightarrow> Some m)"

definition sanitize_tool :: "openai_env \<Rightarrow> json \<Rightarrow> (string, json) gomap option" where
  "sanitize_tool env it =
     (case it of
        JObj m0 \<Rightarrow>
          let ty0 = lower_field env m0 ''type'';
              bare = (ty0 = [] \<and> (map_of m0 ''function'' \<noteq> None \<or> as_string env (json_get m0 ''name'') \<noteq> []));
              ty = (if bare then ''function'' else ty0); m = (if bare then gm_put ''type'' (JStr ''function'') m0 else m0) in
          if has_prefix ty ''tool_search'' \<or> ty = ''namespace'' \<or> ty \<notin> set allowed_tool_types then None
          else if ty = ''function'' then
            (case flat_function env m of
               None \<Rightarrow> None
             | Some m1 \<Rightarrow> if trim_space (as_string env (json_get m1 ''name'')) = [] then None else Some m1)
          else Some [(''type'', JStr ty)]
      | _ \<Rightarrow> None)"

definition is_function_tool :: "openai_env \<Rightarrow> (string, json) gomap \<Rightarrow> bool" where
  "is_function_tool env m \<longleftrightarrow> lower_field env m ''type'' = ''function''"

definition sanitize_tools :: "openai_env \<Rightarrow> json \<Rightarrow> (string, json) gomap list \<times> string list" where
  "sanitize_tools env v =
     (let kept = concat (map (\<lambda>it. case sanitize_tool env it of None \<Rightarrow> [] | Some m \<Rightarrow> [m]) (as_any_slice v)) in
      (kept, map (\<lambda>m. trim_space (as_string env (json_get m ''name''))) (filter (is_function_tool env) kept)))"

definition sanitize_tool_choice :: "openai_env \<Rightarrow> json \<Rightarrow> string list \<Rightarrow> bool \<Rightarrow> json" where
  "sanitize_tool_choice env tc names has_tools =
     (if \<not> has_tools then JStr ''auto''
      else case tc of
        JStr s \<Rightarrow>
          let s = to_lower (trim_space s) in
          if s = ''any'' then JStr ''required'' else if s \<in> {''auto'', ''none'', ''required''} then JStr s else JStr ''auto''
      | JObj m \<Rightarrow>
          let ty = lower_field env m ''type'' in
          if ty = ''function'' then
            let name = trim_space (as_string env (json_get m ''name''));
                name = (if name = []
                        then case json_get m ''function'' of JObj fn \<Rightarrow> trim_space (as_string env (json_get fn ''name'')) | _ \<Rightarrow> []
                        else name) in
            if name \<in> set names \<and> name \<noteq> [] then JObj [(''type'', JStr ''function''), (''name'', JStr name)] else JStr ''auto''
          else if ty \<in> {''auto'', ''none'', ''required''} then JStr ty
          else if ty = ''any'' then JStr ''required''
          else JStr ''auto''
      | _ \<Rightarrow> tc)"

definition step_tools :: "openai_env \<Rightarrow> (string, json) gomap \<Rightarrow> (string, json) gomap" where
  "step_tools env obj =
     (let (kept, names) = (case map_of obj ''tools'' of None \<Rightarrow> ([], []) | Some v \<Rightarrow> sanitize_tools env v);
          obj1 = (if map_of obj ''tools'' = None then obj
                  else if kept = [] then gm_del ''tools'' obj else gm_put ''tools'' (JArr (map JObj kept)) obj) in
      case map_of obj1 ''tool_choice'' of
        None \<Rightarrow> obj1
      | Some tc \<Rightarrow> gm_put ''tool_choice'' (sanitize_tool_choice env tc names (kept \<noteq> [])) obj1)"

section \<open>The clean-up\<close>

record sanitized =
  sz_body :: "(string, json) gomap"
  sz_model :: string
  sz_stream :: bool
  sz_conv_id :: string

definition as_object_map :: "openai_env \<Rightarrow> string \<Rightarrow> openai_error + (string, json) gomap" where
  "as_object_map env raw =
     (if raw = [] then Inr []
      else case oe_decode env raw of
        Some (JObj m) \<Rightarrow> Inr m
      | Some JNull \<Rightarrow> Inr []
      | _ \<Rightarrow> Inl OaInvalid)"

definition sanitize_object :: "openai_env \<Rightarrow> string \<Rightarrow> (string, json) gomap \<Rightarrow> openai_error + sanitized" where
  "sanitize_object env conv_id obj =
     (case step_reasoning (step_tokens (step_format env (step_instructions env obj))) of
        Inl e \<Rightarrow> Inl e
      | Inr obj1 \<Rightarrow>
          (case step_cache env conv_id obj1 of
             Inl e \<Rightarrow> Inl e
           | Inr (obj2, key) \<Rightarrow>
               let obj3 = step_tools env obj2 in
               Inr \<lparr>sz_body = obj3, sz_model = trim_space (as_string env (json_get obj3 ''model'')),
                    sz_stream = as_bool env (json_get obj3 ''stream''), sz_conv_id = key\<rparr>))"

definition sanitize_responses :: "openai_env \<Rightarrow> string \<Rightarrow> string \<Rightarrow> openai_error + sanitized" where
  "sanitize_responses env raw conv_id =
     (case as_object_map env raw of Inl e \<Rightarrow> Inl e | Inr obj \<Rightarrow> sanitize_object env conv_id obj)"

section \<open>Chat completions to Responses\<close>

record chat_tool_call =
  cc_id :: string
  cc_name :: string
  cc_arguments :: string

record chat_message =
  cm_role :: string
  cm_content :: json
  cm_tool_calls :: "chat_tool_call list"
  cm_tool_call_id :: string

record chat_function =
  cf_name :: string
  cf_description :: string
  cf_parameters :: "json option"

record chat_tool =
  ct_type :: string
  ct_function :: "chat_function option"

record chat_request =
  cr_model :: string
  cr_messages :: "chat_message list"
  cr_stream :: bool
  cr_max_tokens :: "int option"
  cr_max_completion :: "int option"
  cr_temperature :: "string option"
  cr_top_p :: "string option"
  cr_tools :: "chat_tool list"
  cr_tool_choice :: json
  cr_response_format :: json
  cr_user :: string
  cr_n :: int
  cr_parallel :: "bool option"
  cr_stop :: json
  cr_logprobs :: "bool option"
  cr_audio :: json
  cr_modalities :: "string list"
  cr_effort :: string

definition opt_bool :: "(string, json) gomap \<Rightarrow> string \<Rightarrow> bool option option" where
  "opt_bool m k = (case json_get m k of JNull \<Rightarrow> Some None | JBool b \<Rightarrow> Some (Some b) | _ \<Rightarrow> None)"

fun text_list :: "json list \<Rightarrow> string list option" where
  "text_list [] = Some []"
| "text_list (v # vs) =
     (case (case v of JStr s \<Rightarrow> Some s | JNull \<Rightarrow> Some [] | _ \<Rightarrow> None) of
        None \<Rightarrow> None
      | Some s \<Rightarrow> map_option ((#) s) (text_list vs))"

definition object_field :: "(string, json) gomap \<Rightarrow> string \<Rightarrow> (string, json) gomap option" where
  "object_field m k = (case json_get m k of JObj f \<Rightarrow> Some f | JNull \<Rightarrow> Some [] | _ \<Rightarrow> None)"

definition decode_chat_call :: "(string, json) gomap \<Rightarrow> chat_tool_call option" where
  "decode_chat_call m =
     (case (entry_text m ''id'', entry_text m ''type'', object_field m ''function'') of
        (Some i, Some ty, Some f) \<Rightarrow>
          (case (entry_text f ''name'', entry_text f ''arguments'') of
             (Some n, Some a) \<Rightarrow> Some \<lparr>cc_id = i, cc_name = n, cc_arguments = a\<rparr>
           | _ \<Rightarrow> None)
      | _ \<Rightarrow> None)"

definition decode_chat_message :: "(string, json) gomap \<Rightarrow> chat_message option" where
  "decode_chat_message m =
     (case (entry_text m ''role'', entry_text m ''name'', decode_many decode_chat_call (json_get m ''tool_calls''),
            entry_text m ''tool_call_id'') of
        (Some r, Some n, Some cs, Some i) \<Rightarrow>
          Some \<lparr>cm_role = r, cm_content = json_get m ''content'', cm_tool_calls = cs, cm_tool_call_id = i\<rparr>
      | _ \<Rightarrow> None)"

definition decode_chat_tool :: "(string, json) gomap \<Rightarrow> chat_tool option" where
  "decode_chat_tool m =
     (case entry_text m ''type'' of
        None \<Rightarrow> None
      | Some ty \<Rightarrow>
          (case json_get m ''function'' of
             JNull \<Rightarrow> Some \<lparr>ct_type = ty, ct_function = None\<rparr>
           | JObj f \<Rightarrow>
               (case (entry_text f ''name'', entry_text f ''description'') of
                  (Some n, Some d) \<Rightarrow>
                    Some \<lparr>ct_type = ty, ct_function = Some \<lparr>cf_name = n, cf_description = d, cf_parameters = map_of f ''parameters''\<rparr>\<rparr>
                | _ \<Rightarrow> None)
           | _ \<Rightarrow> None))"

definition decode_chat_request :: "json \<Rightarrow> chat_request option" where
  "decode_chat_request v =
     (case object_or_null (Some v) of
        None \<Rightarrow> None
      | Some m \<Rightarrow>
          (case (entry_text m ''model'', decode_many decode_chat_message (json_get m ''messages''), entry_bool m ''stream'',
                 opt_int m ''max_tokens'', opt_int m ''max_completion_tokens'', opt_number m ''temperature'', opt_number m ''top_p'',
                 decode_many decode_chat_tool (json_get m ''tools'')) of
             (Some model, Some ms, Some stream, Some mt, Some mc, Some temp, Some nucleus, Some ts) \<Rightarrow>
               (case (entry_text m ''user'', entry_int m ''n'', opt_bool m ''parallel_tool_calls'', opt_bool m ''logprobs'',
                      case json_get m ''modalities'' of JNull \<Rightarrow> Some [] | JArr vs \<Rightarrow> text_list vs | _ \<Rightarrow> None,
                      entry_text m ''reasoning_effort'') of
                  (Some user, Some n, Some par, Some lp, Some mods, Some effort) \<Rightarrow>
                    Some \<lparr>cr_model = model, cr_messages = ms, cr_stream = stream, cr_max_tokens = mt, cr_max_completion = mc,
                      cr_temperature = temp, cr_top_p = nucleus, cr_tools = ts, cr_tool_choice = json_get m ''tool_choice'',
                      cr_response_format = json_get m ''response_format'', cr_user = user, cr_n = n, cr_parallel = par,
                      cr_stop = json_get m ''stop'', cr_logprobs = lp, cr_audio = json_get m ''audio'', cr_modalities = mods,
                      cr_effort = effort\<rparr>
                | _ \<Rightarrow> None)
           | _ \<Rightarrow> None))"

text \<open>The parts of a content; every part but the first puts a newline before its text.\<close>

fun content_lines :: "openai_env \<Rightarrow> bool \<Rightarrow> json list \<Rightarrow> string" where
  "content_lines env first [] = []"
| "content_lines env first (p # ps) =
     (let nl = (if first then [] else [CHR 0x0A]) in
      (case p of
         JStr s \<Rightarrow> nl @ s
       | JObj t \<Rightarrow> if as_string env (json_get t ''text'') \<noteq> [] then nl @ as_string env (json_get t ''text'') else []
       | _ \<Rightarrow> []) @ content_lines env False ps)"

definition content_to_string :: "openai_env \<Rightarrow> json \<Rightarrow> string" where
  "content_to_string env v =
     (case v of
        JNull \<Rightarrow> []
      | JStr s \<Rightarrow> s
      | JArr ps \<Rightarrow> content_lines env True ps
      | JObj m \<Rightarrow> if as_string env (json_get m ''text'') \<noteq> [] then as_string env (json_get m ''text'') else trim_space (oe_marshal env v)
      | _ \<Rightarrow> trim_space (oe_marshal env v))"

definition image_part :: "openai_env \<Rightarrow> (string, json) gomap \<Rightarrow> openai_error + json" where
  "image_part env part =
     (let (url, detail) = (case json_get part ''image_url'' of
                             JStr u \<Rightarrow> (u, [])
                           | JObj im \<Rightarrow> (as_string env (json_get im ''url''), as_string env (json_get im ''detail''))
                           | _ \<Rightarrow> ([], []));
          url = (if url = [] then as_string env (json_get part ''url'') else url) in
      if url = [] then Inl OaImageUrl
      else Inr (JObj ([(''type'', JStr ''input_image''), (''image_url'', JStr url)] @
                 (if detail \<noteq> [] then [(''detail'', JStr detail)] else []))))"

text \<open>The parts, the texts alone, and whether there is an image.\<close>

fun chat_parts :: "openai_env \<Rightarrow> (string, json) gomap list \<Rightarrow> openai_error + json list \<times> string list \<times> bool" where
  "chat_parts env [] = Inr ([], [], False)"
| "chat_parts env (part # parts) =
     (let ty = lower_field env part ''type''; text = as_string env (json_get part ''text'') in
      if ty \<in> {[], ''text'', ''input_text''} then
        (case chat_parts env parts of
           Inl e \<Rightarrow> Inl e
         | Inr (out, texts, im) \<Rightarrow>
             Inr (if text \<noteq> [] then (JObj [(''type'', JStr ''input_text''), (''text'', JStr text)] # out, text # texts, im) else (out, texts, im)))
      else if ty \<in> {''image_url'', ''input_image''} then
        (case image_part env part of
           Inl e \<Rightarrow> Inl e
         | Inr p \<Rightarrow> (case chat_parts env parts of Inl e \<Rightarrow> Inl e | Inr (out, texts, im) \<Rightarrow> Inr (p # out, texts, True)))
      else Inl (OaPartType (as_string env (json_get part ''type''))))"

definition chat_content :: "openai_env \<Rightarrow> json \<Rightarrow> openai_error + json" where
  "chat_content env v =
     (if v = JNull then Inr (JStr [])
      else case decode_objects v of
        None \<Rightarrow> Inr (JStr (content_to_string env v))
      | Some parts \<Rightarrow>
          (case chat_parts env parts of
             Inl e \<Rightarrow> Inl e
           | Inr (out, texts, im) \<Rightarrow> Inr (if im then JArr out else JStr (join_with [CHR 0x0A] texts))))"

definition message_item :: "string \<Rightarrow> json \<Rightarrow> json" where
  "message_item role content = JObj [(''type'', JStr ''message''), (''role'', JStr role), (''content'', content)]"

definition chat_call_item :: "chat_tool_call \<Rightarrow> json list" where
  "chat_call_item c =
     (let name = trim_space (cc_name c); i = trim_space (cc_id c) in
      if name = [] then []
      else [JObj ([(''type'', JStr ''function_call''), (''name'', JStr name), (''arguments'', JStr (cc_arguments c))] @
              (if i \<noteq> [] then [(''call_id'', JStr i), (''id'', JStr i)] else []))])"

text \<open>The items and the instruction of one message.\<close>

definition chat_message_items :: "openai_env \<Rightarrow> chat_message \<Rightarrow> openai_error + json list \<times> string list" where
  "chat_message_items env msg =
     (let role = to_lower (trim_space (cm_role msg)); text = content_to_string env (cm_content msg) in
      if role = ''system'' \<or> role = ''developer'' then Inr ([], if text \<noteq> [] then [text] else [])
      else if role = ''user'' then
        (case chat_content env (cm_content msg) of Inl e \<Rightarrow> Inl e | Inr c \<Rightarrow> Inr ([message_item ''user'' c], []))
      else if role = ''assistant'' then
        Inr ((if trim_space text \<noteq> [] then [message_item ''assistant'' (JStr text)] else []) @
             concat (map chat_call_item (cm_tool_calls msg)), [])
      else if role = ''tool'' then
        Inr ([JObj [(''type'', JStr ''function_call_output''), (''output'', JStr text), (''call_id'', JStr (trim_space (cm_tool_call_id msg)))]], [])
      else Inr ([message_item role (JStr text)], []))"

fun chat_messages_to_input :: "openai_env \<Rightarrow> chat_message list \<Rightarrow> openai_error + json list \<times> string list" where
  "chat_messages_to_input env [] = Inr ([], [])"
| "chat_messages_to_input env (m # ms) =
     (case chat_message_items env m of
        Inl e \<Rightarrow> Inl e
      | Inr (its, ins) \<Rightarrow>
          (case chat_messages_to_input env ms of Inl e \<Rightarrow> Inl e | Inr (its', ins') \<Rightarrow> Inr (its @ its', ins @ ins')))"

definition chat_tool_json :: "chat_tool \<Rightarrow> json" where
  "chat_tool_json t =
     (let typ = to_lower (trim_space (ct_type t)); typ = (if typ = [] then ''function'' else typ) in
      case ct_function t of
        None \<Rightarrow> JObj [(''type'', JStr (ct_type t))]
      | Some f \<Rightarrow>
          if typ \<noteq> ''function'' then
            JObj [(''type'', JStr (ct_type t)),
              (''function'', JObj ((''name'', JStr (cf_name f)) # (if cf_description f \<noteq> [] then [(''description'', JStr (cf_description f))] else []) @
                 (case cf_parameters f of None \<Rightarrow> [] | Some p \<Rightarrow> [(''parameters'', p)])))]
          else
            JObj ([(''type'', JStr ''function''), (''name'', JStr (cf_name f))] @
              (if trim_space (cf_description f) \<noteq> [] then [(''description'', JStr (trim_space (cf_description f)))] else []) @
              (case cf_parameters f of None \<Rightarrow> [] | Some JNull \<Rightarrow> [] | Some p \<Rightarrow> [(''parameters'', p)])))"

definition normalize_tool_choice :: "openai_env \<Rightarrow> json \<Rightarrow> json" where
  "normalize_tool_choice env tc =
     (case tc of
        JObj v \<Rightarrow>
          if to_lower (as_string env (json_get v ''type'')) = ''function''
          then (case json_get v ''function'' of
                  JObj fn \<Rightarrow>
                    if as_string env (json_get fn ''name'') \<noteq> []
                    then JObj [(''type'', JStr ''function''), (''name'', JStr (as_string env (json_get fn ''name'')))] else tc
                | _ \<Rightarrow> tc)
          else tc
      | _ \<Rightarrow> tc)"

definition chat_refused :: "chat_request \<Rightarrow> openai_error option" where
  "chat_refused req =
     (if cr_n req > 1 then Some OaChoices
      else if cr_logprobs req = Some True then Some OaLogprobs
      else if cr_audio req \<noteq> JNull then Some OaAudio
      else case filter (\<lambda>m. to_lower (trim_space m) \<noteq> ''text'') (cr_modalities req) of
        m # _ \<Rightarrow> Some (OaModality m)
      | [] \<Rightarrow> if cr_stop req \<noteq> JNull then Some OaStop else None)"

definition chat_body :: "openai_env \<Rightarrow> chat_request \<Rightarrow> json list \<Rightarrow> string list \<Rightarrow> (string, json) gomap" where
  "chat_body env req its ins =
     (let opt = (\<lambda>k present v. if present then [(k, v)] else []); num = (\<lambda>v. JNum (show_int v)) in
      opt ''model'' (trim_space (cr_model req) \<noteq> []) (JStr (trim_space (cr_model req))) @
      opt ''stream'' (cr_stream req) (JBool True) @
      opt ''instructions'' (ins \<noteq> []) (JStr (join_with [CHR 0x0A, CHR 0x0A] ins)) @
      opt ''input'' (its \<noteq> []) (JArr its) @
      (case cr_max_tokens req of
         Some n \<Rightarrow> [(''max_output_tokens'', num n)]
       | None \<Rightarrow> (case cr_max_completion req of Some n \<Rightarrow> [(''max_output_tokens'', num n)] | None \<Rightarrow> [])) @
      (case cr_temperature req of Some t \<Rightarrow> [(''temperature'', JNum t)] | None \<Rightarrow> []) @
      (case cr_top_p req of Some t \<Rightarrow> [(''top_p'', JNum t)] | None \<Rightarrow> []) @
      opt ''response_format'' (cr_response_format req \<noteq> JNull) (cr_response_format req) @
      opt ''tools'' (cr_tools req \<noteq> []) (JArr (map chat_tool_json (cr_tools req))) @
      opt ''tool_choice'' (cr_tool_choice req \<noteq> JNull) (normalize_tool_choice env (cr_tool_choice req)) @
      (case cr_parallel req of Some b \<Rightarrow> [(''parallel_tool_calls'', JBool b)] | None \<Rightarrow> []) @
      opt ''user'' (trim_space (cr_user req) \<noteq> []) (JStr (trim_space (cr_user req))) @
      opt ''reasoning_effort'' (trim_space (cr_effort req) \<noteq> []) (JStr (trim_space (cr_effort req))))"

definition chat_to_responses :: "openai_env \<Rightarrow> string \<Rightarrow> openai_error + (string, json) gomap" where
  "chat_to_responses env raw =
     (case (case oe_decode env raw of None \<Rightarrow> None | Some v \<Rightarrow> decode_chat_request v) of
        None \<Rightarrow> Inl OaInvalid
      | Some req \<Rightarrow>
          (case chat_refused req of
             Some e \<Rightarrow> Inl e
           | None \<Rightarrow>
               (case chat_messages_to_input env (cr_messages req) of
                  Inl e \<Rightarrow> Inl e
                | Inr (its, ins) \<Rightarrow> Inr (chat_body env req its ins))))"

section \<open>Responses to chat completions\<close>

text \<open>\<open>asInt64\<close>: the number and whether it is one; a text out of range gives the nearest number and an error.\<close>

definition int64_text :: "string \<Rightarrow> int \<times> bool" where
  "int64_text s =
     (let neg = (s \<noteq> [] \<and> hd s = CHR ''-''); ds = (if s \<noteq> [] \<and> hd s \<in> set ''+-'' then tl s else s) in
      if ds = [] then (0, False)
      else case digits_value 0 ds of
        None \<Rightarrow> (0, False)
      | Some n \<Rightarrow>
          let v = (if neg then - n else n) in
          if v < - (2 ^ 63) then (- (2 ^ 63), False) else if v \<ge> 2 ^ 63 then (2 ^ 63 - 1, False) else (v, True))"

definition value_int64 :: "openai_env \<Rightarrow> json \<Rightarrow> int \<times> bool" where
  "value_int64 env v = (case v of JNum n \<Rightarrow> (oe_int env n, True) | JStr s \<Rightarrow> int64_text s | _ \<Rightarrow> (0, False))"

definition output_part_texts :: "openai_env \<Rightarrow> json \<Rightarrow> string list" where
  "output_part_texts env p =
     (let t = (case p of
                 JObj pm \<Rightarrow> if to_lower (as_string env (json_get pm ''type'')) \<in> {''output_text'', ''text'', []}
                            then as_string env (json_get pm ''text'') else []
               | _ \<Rightarrow> as_string env p) in
      if t \<noteq> [] then [t] else [])"

definition output_message_texts :: "openai_env \<Rightarrow> (string, json) gomap \<Rightarrow> string list" where
  "output_message_texts env m =
     (let parts = (case json_get m ''content'' of
                     JStr c \<Rightarrow> if c \<noteq> [] then [c] else []
                   | JArr ps \<Rightarrow> concat (map (output_part_texts env) ps)
                   | _ \<Rightarrow> []);
          t = as_string env (json_get m ''text'') in
      if parts = [] then if t \<noteq> [] then [t] else [] else parts)"

definition nested_field :: "openai_env \<Rightarrow> (string, json) gomap \<Rightarrow> string \<Rightarrow> string" where
  "nested_field env m k =
     (if as_string env (json_get m k) \<noteq> [] then as_string env (json_get m k)
      else case json_get m ''function'' of JObj fn \<Rightarrow> as_string env (json_get fn k) | _ \<Rightarrow> [])"

definition output_arguments :: "openai_env \<Rightarrow> (string, json) gomap \<Rightarrow> string" where
  "output_arguments env m =
     (if nested_field env m ''arguments'' \<noteq> [] then nested_field env m ''arguments''
      else case map_of m ''arguments'' of None \<Rightarrow> [] | Some a \<Rightarrow> oe_marshal env a)"

definition chat_call_json :: "openai_env \<Rightarrow> (string, json) gomap \<Rightarrow> nat \<Rightarrow> json" where
  "chat_call_json env m k =
     (let i = as_string env (json_get m ''call_id''); i = (if i = [] then as_string env (json_get m ''id'') else i);
          i = (if i = [] then ''call_'' @ nat_digits k else i) in
      JObj [(''id'', JStr i), (''type'', JStr ''function''),
        (''function'', JObj [(''name'', JStr (nested_field env m ''name'')), (''arguments'', JStr (output_arguments env m))])])"

text \<open>The texts and the calls of the output, in order.\<close>

fun walk_output :: "openai_env \<Rightarrow> json list \<Rightarrow> string list \<Rightarrow> json list \<Rightarrow> string list \<times> json list" where
  "walk_output env [] texts calls = (texts, calls)"
| "walk_output env (it # its) texts calls =
     (case it of
        JObj m \<Rightarrow>
          let ty = lower_field env m ''type''; t = as_string env (json_get m ''text'') in
          if ty = ''message'' then walk_output env its (texts @ output_message_texts env m) calls
          else if ty \<in> {''function_call'', ''tool_call''} then walk_output env its texts (calls @ [chat_call_json env m (length calls)])
          else if ty = ''reasoning'' then walk_output env its texts calls
          else walk_output env its (if t \<noteq> [] then texts @ [t] else texts) calls
      | _ \<Rightarrow> walk_output env its texts calls)"

definition extract_output :: "openai_env \<Rightarrow> (string, json) gomap \<Rightarrow> string \<times> json list \<times> string" where
  "extract_output env resp =
     (let ot = as_string env (json_get resp ''output_text'');
          (texts, calls) = walk_output env (case json_get resp ''output'' of JArr its \<Rightarrow> its | _ \<Rightarrow> []) [] [];
          fin = (if calls \<noteq> [] then ''tool_calls''
                    else if to_lower (as_string env (json_get resp ''status'')) = ''incomplete'' then ''length'' else ''stop'') in
      (if ot = [] then concat texts else ot, calls, fin))"

definition map_usage :: "openai_env \<Rightarrow> json \<Rightarrow> (string, json) gomap option" where
  "map_usage env u =
     (case u of
        JObj m \<Rightarrow>
          let get = (\<lambda>k. fst (value_int64 env (json_get m k)));
              p = (if get ''input_tokens'' = 0 then get ''prompt_tokens'' else get ''input_tokens'');
              c = (if get ''output_tokens'' = 0 then get ''completion_tokens'' else get ''output_tokens'');
              t = (if get ''total_tokens'' = 0 then wrap64 (p + c) else get ''total_tokens'') in
          Some [(''prompt_tokens'', JNum (show_int p)), (''completion_tokens'', JNum (show_int c)), (''total_tokens'', JNum (show_int t))]
      | _ \<Rightarrow> None)"

definition completion_message :: "openai_env \<Rightarrow> (string, json) gomap \<Rightarrow> (string, json) gomap" where
  "completion_message env resp =
     (case extract_output env resp of
        (content, calls, fin) \<Rightarrow>
          [(''role'', JStr ''assistant''), (''content'', if calls \<noteq> [] \<and> content = [] then JNull else JStr content)] @
          (if calls \<noteq> [] then [(''tool_calls'', JArr calls)] else []))"

definition responses_map_to_chat :: "openai_env \<Rightarrow> (string, json) gomap \<Rightarrow> (string, json) gomap" where
  "responses_map_to_chat env resp =
     (let i = as_string env (json_get resp ''id'');
          created = (if snd (value_int64 env (json_get resp ''created_at'')) then fst (value_int64 env (json_get resp ''created_at''))
                     else if snd (value_int64 env (json_get resp ''created'')) then fst (value_int64 env (json_get resp ''created''))
                     else 0) in
      [(''id'', JStr (if i = [] then ''chatcmpl-proxy'' else i)), (''object'', JStr ''chat.completion''),
       (''created'', JNum (show_int (if created = 0 then oe_now env else created))), (''model'', JStr (as_string env (json_get resp ''model''))),
       (''choices'', JArr [JObj [(''index'', JNum ''0''), (''message'', JObj (completion_message env resp)),
          (''finish_reason'', JStr (snd (snd (extract_output env resp)))), (''logprobs'', JNull)]])] @
      (case map_usage env (json_get resp ''usage'') of None \<Rightarrow> [] | Some u \<Rightarrow> [(''usage'', JObj u)]))"

definition responses_to_chat :: "openai_env \<Rightarrow> string \<Rightarrow> openai_error + (string, json) gomap" where
  "responses_to_chat env raw =
     (case object_or_null (oe_decode env raw) of None \<Rightarrow> Inl OaInvalid | Some resp \<Rightarrow> Inr (responses_map_to_chat env resp))"


section \<open>Lower case and white space\<close>

lemma lower_char_caseless:
  assumes "\<not> (CHR ''a'' \<le> c \<and> c \<le> CHR ''z'')" "\<not> (CHR ''A'' \<le> c \<and> c \<le> CHR ''Z'')"
  shows "lower_char d = c \<longleftrightarrow> d = c"
proof
  assume l: "lower_char d = c"
  show "d = c"
  proof (cases "CHR ''A'' \<le> d \<and> d \<le> CHR ''Z''")
    case True
    then have n: "65 \<le> (of_char d :: nat)" "(of_char d :: nat) \<le> 90" by (simp_all add: less_eq_char_def)
    from l True have "c = char_of ((of_char d :: nat) + 32)" by (simp add: lower_char_def)
    then have "(of_char c :: nat) = (of_char d + 32) mod 256" by simp
    with n have "97 \<le> (of_char c :: nat)" "(of_char c :: nat) \<le> 122" by simp_all
    with assms(1) show ?thesis by (simp add: less_eq_char_def)
  qed (use l in \<open>auto simp: lower_char_def split: if_splits\<close>)
next
  assume "d = c"
  with assms(2) show "lower_char d = c" by (simp only: lower_char_def if_False)
qed

definition caseless :: "string list \<Rightarrow> bool" where
  "caseless ws \<longleftrightarrow> list_all (list_all (\<lambda>c. \<not> (CHR ''a'' \<le> c \<and> c \<le> CHR ''z'') \<and> \<not> (CHR ''A'' \<le> c \<and> c \<le> CHR ''Z''))) ws"

lemma caseless_spaces: "caseless go_spaces" "caseless (map rev go_spaces)"
  by code_simp+

lemma map_lower_caseless:
  "list_all (\<lambda>c. \<not> (CHR ''a'' \<le> c \<and> c \<le> CHR ''z'') \<and> \<not> (CHR ''A'' \<le> c \<and> c \<le> CHR ''Z'')) w \<Longrightarrow>
     map lower_char t = w \<longleftrightarrow> t = w"
  using lower_char_caseless by (induction w arbitrary: t) (auto simp: map_eq_Cons_conv)

lemma leading_lower:
  assumes "caseless ws"
  shows "leading ws (map lower_char s) = leading ws s"
proof -
  have "(w \<noteq> [] \<and> take (length w) (map lower_char s) = w) = (w \<noteq> [] \<and> take (length w) s = w)" if "w \<in> set ws" for w
    using assms that map_lower_caseless [of w "take (length w) s"] by (simp add: caseless_def list_all_iff take_map)
  then show ?thesis unfolding leading_def by (intro find_cong refl) blast
qed

lemma trim_with_lower: "caseless ws \<Longrightarrow> trim_with ws (map lower_char s) = map lower_char (trim_with ws s)"
proof (induction ws s rule: trim_with.induct)
  case (1 ws s)
  then show ?case
    by (simp add: trim_with.simps [of ws "map lower_char s"] trim_with.simps [of ws s] leading_lower drop_map split: option.split)
qed

lemma trim_space_lower: "trim_space (to_lower s) = to_lower (trim_space s)"
  by (simp add: trim_space_def to_lower_def trim_with_lower caseless_spaces flip: rev_map) (simp add: trim_with_lower caseless_spaces rev_map)

lemma lower_char_idem: "lower_char (lower_char c) = lower_char c"
proof (cases "CHR ''A'' \<le> c \<and> c \<le> CHR ''Z''")
  case True
  then have n: "65 \<le> (of_char c :: nat)" "(of_char c :: nat) \<le> 90" by (simp_all add: less_eq_char_def)
  let ?d = "char_of ((of_char c :: nat) + 32) :: char"
  have "(of_char ?d :: nat) = of_char c + 32" using n by simp
  with n have "\<not> ?d \<le> CHR ''Z''" by (simp add: less_eq_char_def)
  then have "lower_char ?d = ?d" by (simp add: lower_char_def)
  moreover have "lower_char c = ?d" using True by (simp add: lower_char_def)
  ultimately show ?thesis by simp
qed (auto simp: lower_char_def)

lemma to_lower_idem: "to_lower (to_lower s) = to_lower s"
  by (simp add: to_lower_def lower_char_idem)

lemma normal_word [simp]: "to_lower (trim_space (to_lower (trim_space s))) = to_lower (trim_space s)"
  by (simp add: trim_space_lower to_lower_idem trim_space_idem)

section \<open>What the upstream accepts\<close>

definition no_instructions :: "openai_env \<Rightarrow> json option \<Rightarrow> bool" where
  "no_instructions env v \<longleftrightarrow>
     (case v of
        None \<Rightarrow> True
      | Some w \<Rightarrow> (case w of JNull \<Rightarrow> False | JArr its \<Rightarrow> its \<noteq> [] \<and> list_all (\<lambda>it. \<not> is_instruction env it) its | _ \<Rightarrow> True))"

definition clean_input :: "openai_env \<Rightarrow> (string, json) gomap \<Rightarrow> bool" where
  "clean_input env b \<longleftrightarrow>
     no_instructions env (map_of b ''input'') \<and> no_instructions env (map_of b ''messages'') \<and>
     (map_of b ''messages'' = None \<or> map_of b ''input'' \<noteq> None) \<and>
     (case json_get b ''instructions'' of JStr s \<Rightarrow> True | v \<Rightarrow> as_string env v = [])"

text \<open>The effort in its one place, and in lower case.\<close>

definition clean_reasoning :: "(string, json) gomap \<Rightarrow> bool" where
  "clean_reasoning b \<longleftrightarrow>
     map_of b ''reasoning_effort'' = None \<and>
     (case json_get b ''reasoning'' of
        JNull \<Rightarrow> True
      | JObj r \<Rightarrow>
          (case json_get r ''effort'' of
             JNull \<Rightarrow> True
           | JStr s \<Rightarrow> to_lower (trim_space s) = [] \<or> to_lower (trim_space s) = s \<and> s \<noteq> ''minimal''
           | _ \<Rightarrow> False)
      | _ \<Rightarrow> False)"

definition clean_key :: "openai_env \<Rightarrow> string \<Rightarrow> (string, json) gomap \<Rightarrow> bool" where
  "clean_key env key b \<longleftrightarrow>
     key = trim_space (as_string env (json_get b ''prompt_cache_key'')) \<and> length key \<le> max_prompt_cache_key_bytes \<and>
     (key = [] \<longrightarrow> trim_space (as_string env (json_get b ''prompt_cache_id'')) = [])"

definition tool_accepted :: "openai_env \<Rightarrow> (string, json) gomap \<Rightarrow> bool" where
  "tool_accepted env m \<longleftrightarrow>
     lower_field env m ''type'' \<in> set allowed_tool_types \<and>
     (if is_function_tool env m
      then trim_space (as_string env (json_get m ''name'')) \<noteq> [] \<and> (case json_get m ''function'' of JObj f \<Rightarrow> False | _ \<Rightarrow> True)
      else m = [(''type'', JStr (lower_field env m ''type''))])"

definition function_name :: "openai_env \<Rightarrow> json \<Rightarrow> string list" where
  "function_name env t =
     (case t of JObj m \<Rightarrow> if is_function_tool env m then [trim_space (as_string env (json_get m ''name''))] else [] | _ \<Rightarrow> [])"

definition clean_choice :: "string list \<Rightarrow> json \<Rightarrow> bool" where
  "clean_choice names tc \<longleftrightarrow>
     (case tc of
        JStr s \<Rightarrow> s \<in> {''auto'', ''none'', ''required''}
      | JObj m \<Rightarrow> list_ex (\<lambda>n. n \<noteq> [] \<and> m = [(''type'', JStr ''function''), (''name'', JStr n)]) names
      | _ \<Rightarrow> True)"

definition clean_tools :: "openai_env \<Rightarrow> (string, json) gomap \<Rightarrow> bool" where
  "clean_tools env b \<longleftrightarrow>
     (case map_of b ''tools'' of
        None \<Rightarrow> map_of b ''tool_choice'' \<in> {None, Some (JStr ''auto'')}
      | Some (JArr ts) \<Rightarrow>
          ts \<noteq> [] \<and> list_all (\<lambda>t. case t of JObj m \<Rightarrow> tool_accepted env m | _ \<Rightarrow> False) ts \<and>
          (case map_of b ''tool_choice'' of None \<Rightarrow> True | Some tc \<Rightarrow> clean_choice (concat (map (function_name env) ts)) tc)
      | _ \<Rightarrow> False)"

definition clean_body :: "openai_env \<Rightarrow> string \<Rightarrow> (string, json) gomap \<Rightarrow> bool" where
  "clean_body env key b \<longleftrightarrow>
     clean_input env b \<and> map_of b ''response_format'' = None \<and> map_of b ''max_tokens'' = None \<and> clean_reasoning b \<and>
     clean_key env key b \<and> clean_tools env b"

section \<open>Each step cleans its part\<close>

lemma get_after [simp]:
  "json_get (AList.update k v m) j = (if k = j then v else json_get m j)" "json_get (AList.delete k m) j = (if k = j then JNull else json_get m j)"
  by (simp_all add: json_get_def)

lemma put_same [simp]: "map_of m k = Some v \<Longrightarrow> AList.update k v m = m"
  by (rule update_triv)

lemma del_none [simp]: "map_of m k = None \<Longrightarrow> AList.delete k m = m"
  by (induction m) (auto split: if_splits)

lemma get_same: "map_of m k = map_of m' k \<Longrightarrow> json_get m k = json_get m' k"
  by (simp add: json_get_def gm_default_def)

lemma sanitize_input_none: "sanitize_input env v = (Some r, e) \<Longrightarrow> no_instructions env (Some r)"
  by (auto simp: sanitize_input_def sanitize_input_list_def no_instructions_def Let_def list_all_iff split: json.splits if_splits)

lemma sanitize_input_fixed: "no_instructions env (Some v) \<Longrightarrow> sanitize_input env v = (Some v, [])"
  by (auto simp: sanitize_input_def sanitize_input_list_def no_instructions_def instruction_texts_def list_all_iff Let_def
      filter_empty_conv split: json.splits)

lemma step_input_clean:
  assumes "step_input env obj = (obj1, e)"
  shows "no_instructions env (map_of obj1 ''input'')" "k \<noteq> ''input'' \<Longrightarrow> map_of obj1 k = map_of obj k"
  using assms sanitize_input_none [of env]
  by (auto simp: step_input_def no_instructions_def split: option.splits prod.splits)

lemma step_messages_clean:
  assumes "step_messages env obj = (obj1, e)" "no_instructions env (map_of obj ''input'')"
  shows "no_instructions env (map_of obj1 ''input'')" "no_instructions env (map_of obj1 ''messages'')"
    "map_of obj1 ''messages'' = None \<or> map_of obj1 ''input'' \<noteq> None" "k \<notin> {''input'', ''messages''} \<Longrightarrow> map_of obj1 k = map_of obj k"
proof -
  have none: "no_instructions env None" by (simp add: no_instructions_def)
  show "no_instructions env (map_of obj1 ''input'')" "no_instructions env (map_of obj1 ''messages'')"
    "map_of obj1 ''messages'' = None \<or> map_of obj1 ''input'' \<noteq> None" "k \<notin> {''input'', ''messages''} \<Longrightarrow> map_of obj1 k = map_of obj k"
    using assms none sanitize_input_none [of env]
    by (auto simp: step_messages_def split: option.splits prod.splits if_splits)
qed

lemma step_instructions_clean:
  "clean_input env (step_instructions env obj)"
  "k \<notin> {''input'', ''messages'', ''instructions''} \<Longrightarrow> map_of (step_instructions env obj) k = map_of obj k"
proof -
  obtain obj1 e1 where s1: "step_input env obj = (obj1, e1)" by fastforce
  obtain obj2 e2 where s2: "step_messages env obj1 = (obj2, e2)" by fastforce
  note c1 = step_input_clean [OF s1] and c2 = step_messages_clean [OF s2 step_input_clean(1) [OF s1]]
  have ins: "json_get obj2 ''instructions'' = json_get obj ''instructions''"
    using c1(2) c2(4) by (intro get_same) simp
  have empty: "(case v of JStr s \<Rightarrow> True | v \<Rightarrow> as_string env v = [])" if "as_string env v = []" for v
    using that by (auto split: json.split)
  show "clean_input env (step_instructions env obj)"
    using c2(1,2,3) ins empty by (auto simp: clean_input_def step_instructions_def s1 s2 Let_def)
  show "k \<notin> {''input'', ''messages'', ''instructions''} \<Longrightarrow> map_of (step_instructions env obj) k = map_of obj k"
    using c1(2) c2(4) by (simp add: step_instructions_def s1 s2 Let_def)
qed

lemma step_format_frame [simp]:
  "map_of (step_format env obj) ''response_format'' = None"
  "k \<notin> {''response_format'', ''text''} \<Longrightarrow> map_of (step_format env obj) k = map_of obj k"
  by (auto simp: step_format_def Let_def split: option.splits)

lemma step_tokens_frame [simp]:
  "map_of (step_tokens obj) ''max_tokens'' = None"
  "k \<notin> {''max_tokens'', ''max_output_tokens''} \<Longrightarrow> map_of (step_tokens obj) k = map_of obj k"
  by (auto simp: step_tokens_def split: option.splits)

lemma effort_fixed:
  assumes "effort_value v = Inr (e, b)"
  shows "b = (e \<noteq> [])" "e \<noteq> [] \<Longrightarrow> to_lower (trim_space e) = e \<and> e \<noteq> ''minimal''"
    "e = [] \<Longrightarrow> v = JNull \<or> (\<exists>s. v = JStr s \<and> to_lower (trim_space s) = [])"
proof -
  have low: "to_lower (trim_space ''low'') = ''low''" by code_simp
  show "b = (e \<noteq> [])" "e \<noteq> [] \<Longrightarrow> to_lower (trim_space e) = e \<and> e \<noteq> ''minimal''"
    "e = [] \<Longrightarrow> v = JNull \<or> (\<exists>s. v = JStr s \<and> to_lower (trim_space s) = [])"
    using assms low by (auto simp: effort_value_def Let_def split: json.splits if_splits)
qed

lemma step_reasoning_clean:
  assumes "step_reasoning obj = Inr obj1"
  shows "clean_reasoning obj1" "k \<notin> {''reasoning'', ''reasoning_effort''} \<Longrightarrow> map_of obj1 k = map_of obj k"
proof -
  let ?raw = "json_get obj ''reasoning''"
  obtain re where re: "(case ?raw of JNull \<Rightarrow> Inr None | JObj r \<Rightarrow> Inr (Some r) | _ \<Rightarrow> Inl OaReasoning) = Inr re"
    using assms by (auto simp: step_reasoning_def Let_def split: sum.splits)
  obtain e1 b1 where e1: "(case re of None \<Rightarrow> Inr ([], False) | Some r \<Rightarrow> effort_value (json_get r ''effort'')) = Inr (e1, b1)"
    using assms re by (auto simp: step_reasoning_def Let_def split: sum.splits)
  obtain e2 b2 where e2: "effort_value (json_get obj ''reasoning_effort'') = Inr (e2, b2)"
    using assms re e1 by (auto simp: step_reasoning_def Let_def split: sum.splits)
  let ?e = "if e1 = [] then e2 else e1"
  have o1: "obj1 = gm_del ''reasoning_effort'' (if ?e \<noteq> []
      then gm_put ''reasoning'' (JObj (gm_put ''effort'' (JStr ?e) (case re of None \<Rightarrow> [] | Some r \<Rightarrow> r))) obj else obj)"
    using assms re e1 e2 by (auto simp: step_reasoning_def Let_def split: if_splits)
  have ok1: "e1 \<noteq> [] \<Longrightarrow> to_lower (trim_space e1) = e1 \<and> e1 \<noteq> ''minimal''"
    using e1 effort_fixed(2) by (auto split: option.splits)
  note ok2 = effort_fixed(2) [OF e2]
  show "k \<notin> {''reasoning'', ''reasoning_effort''} \<Longrightarrow> map_of obj1 k = map_of obj k" using o1 by simp
  show "clean_reasoning obj1"
  proof (cases "?e = []")
    case False
    with ok1 ok2 o1 show ?thesis by (auto simp: clean_reasoning_def)
  next
    case True
    then have "e1 = []" by (simp split: if_splits)
    with re e1 effort_fixed(3) have "?raw = JNull \<or>
        (\<exists>r. ?raw = JObj r \<and> (json_get r ''effort'' = JNull \<or> (\<exists>s. json_get r ''effort'' = JStr s \<and> to_lower (trim_space s) = [])))"
      by (fastforce split: json.splits option.splits)
    moreover have "json_get obj1 ''reasoning'' = ?raw" using o1 True by simp
    moreover have "map_of obj1 ''reasoning_effort'' = None" using o1 by simp
    ultimately show ?thesis by (auto simp: clean_reasoning_def)
  qed
qed

lemma step_cache_clean:
  assumes "step_cache env conv obj = Inr (obj1, key)"
  shows "clean_key env key obj1" "k \<notin> {''prompt_cache_key'', ''prompt_cache_id''} \<Longrightarrow> map_of obj1 k = map_of obj k"
  using assms
  by (auto simp: step_cache_def clean_key_def Let_def as_string_def trim_space_idem split: if_splits)

lemma word_fixed [simp]:
  "to_lower (trim_space ''function'') = ''function''" "to_lower (trim_space ''auto'') = ''auto''" "to_lower (trim_space ''none'') = ''none''"
  "to_lower (trim_space ''required'') = ''required''"
  by code_simp+

lemma allowed_plain: "ty \<in> set allowed_tool_types \<Longrightarrow> ty \<noteq> [] \<and> ty \<noteq> ''namespace'' \<and> \<not> has_prefix ty ''tool_search''"
proof -
  have "list_all (\<lambda>ty. ty \<noteq> [] \<and> ty \<noteq> ''namespace'' \<and> \<not> has_prefix ty ''tool_search'') allowed_tool_types" by code_simp
  then show "ty \<in> set allowed_tool_types \<Longrightarrow> ty \<noteq> [] \<and> ty \<noteq> ''namespace'' \<and> \<not> has_prefix ty ''tool_search''"
    by (simp add: list_all_iff)
qed

lemma flat_function_clean:
  assumes "flat_function env m = Some m1" "lower_field env m ''type'' = ''function''"
  shows "lower_field env m1 ''type'' = ''function''" "case json_get m1 ''function'' of JObj f \<Rightarrow> False | _ \<Rightarrow> True"
proof -
  have "lower_field env m1 ''type'' = ''function'' \<and> (case json_get m1 ''function'' of JObj f \<Rightarrow> False | _ \<Rightarrow> True)"
  proof (cases "json_get m ''function''")
    case (JObj fn)
    define d where "d = trim_space (as_string env (json_get fn ''description''))"
    define ps where "ps = (case map_of fn ''parameters'' of Some p \<Rightarrow> [(''parameters'', p)]
      | None \<Rightarrow> (case map_of fn ''input_schema'' of Some p \<Rightarrow> [(''parameters'', p)] | None \<Rightarrow> []))"
    have "map_of ps ''function'' = None" "json_get ps ''function'' = JNull"
      by (simp_all add: ps_def split: option.split)
    moreover have "m1 = [(''type'', JStr ''function''), (''name'', JStr (trim_space (as_string env (json_get fn ''name''))))] @
        (if d \<noteq> [] then [(''description'', JStr d)] else []) @ ps"
      using assms(1) by (simp add: flat_function_def JObj Let_def d_def ps_def split: if_splits)
    ultimately show ?thesis by (simp add: lower_field_def as_string_def)
  qed (use assms in \<open>simp_all add: flat_function_def\<close>)
  then show "lower_field env m1 ''type'' = ''function''" "case json_get m1 ''function'' of JObj f \<Rightarrow> False | _ \<Rightarrow> True"
    by blast+
qed

lemma sanitize_tool_accepted:
  assumes "sanitize_tool env it = Some m"
  shows "tool_accepted env m"
proof -
  obtain m0 where it: "it = JObj m0" using assms by (cases it) (simp_all add: sanitize_tool_def)
  define ty0 where "ty0 = lower_field env m0 ''type''"
  define bare where "bare = (ty0 = [] \<and> (map_of m0 ''function'' \<noteq> None \<or> as_string env (json_get m0 ''name'') \<noteq> []))"
  define ty where "ty = (if bare then ''function'' else ty0)"
  define m' where "m' = (if bare then gm_put ''type'' (JStr ''function'') m0 else m0)"
  have san: "(if has_prefix ty ''tool_search'' \<or> ty = ''namespace'' \<or> ty \<notin> set allowed_tool_types then None
      else if ty = ''function'' then (case flat_function env m' of None \<Rightarrow> None
        | Some m1 \<Rightarrow> if trim_space (as_string env (json_get m1 ''name'')) = [] then None else Some m1)
      else Some [(''type'', JStr ty)]) = Some m"
    using assms unfolding it sanitize_tool_def json.case Let_def ty_def m'_def bare_def ty0_def by simp
  then have ok: "ty \<in> set allowed_tool_types" by (simp split: if_splits)
  show ?thesis
  proof (cases "ty = ''function''")
    case True
    then have m: "flat_function env m' = Some m" "trim_space (as_string env (json_get m ''name'')) \<noteq> []"
      using san by (auto split: if_splits option.splits)
    have "lower_field env m' ''type'' = ''function''"
      using True by (auto simp: m'_def ty_def ty0_def lower_field_def as_string_def split: if_splits)
    from flat_function_clean [OF m(1) this] m(2) show ?thesis
      by (simp add: tool_accepted_def is_function_tool_def allowed_tool_types_def)
  next
    case False
    then have m: "m = [(''type'', JStr ty)]" and "\<not> bare" using san by (auto simp: ty_def split: if_splits)
    then have "to_lower (trim_space ty) = ty" by (simp add: ty_def ty0_def lower_field_def)
    with m ok False show ?thesis by (simp add: tool_accepted_def is_function_tool_def lower_field_def as_string_def)
  qed
qed

lemma tool_fixed:
  assumes "tool_accepted env m"
  shows "sanitize_tool env (JObj m) = Some m"
proof -
  have ty: "lower_field env m ''type'' \<in> set allowed_tool_types" using assms by (simp add: tool_accepted_def)
  note plain = allowed_plain [OF ty]
  show ?thesis
  proof (cases "is_function_tool env m")
    case True
    then have "trim_space (as_string env (json_get m ''name'')) \<noteq> []" "flat_function env m = Some m"
      using assms by (auto simp: tool_accepted_def flat_function_def split: json.splits)
    with True ty plain show ?thesis by (simp add: sanitize_tool_def is_function_tool_def)
  next
    case False
    then have "m = [(''type'', JStr (lower_field env m ''type''))]" using assms by (simp add: tool_accepted_def)
    with False ty plain show ?thesis by (simp add: sanitize_tool_def is_function_tool_def)
  qed
qed

lemma kept_tools:
  assumes "sanitize_tools env v = (kept, names)"
  shows "list_all (tool_accepted env) kept" "names = concat (map (function_name env) (map JObj kept))"
proof -
  have "kept = concat (map (\<lambda>it. case sanitize_tool env it of None \<Rightarrow> [] | Some m \<Rightarrow> [m]) (as_any_slice v))"
    and names: "names = map (\<lambda>m. trim_space (as_string env (json_get m ''name''))) (filter (is_function_tool env) kept)"
    using assms by (auto simp: sanitize_tools_def Let_def)
  then show "list_all (tool_accepted env) kept"
    using sanitize_tool_accepted by (auto simp: list_all_iff split: option.splits)
  show "names = concat (map (function_name env) (map JObj kept))"
    unfolding names by (induction kept) (simp_all add: function_name_def)
qed

lemma sanitized_choice: "clean_choice names (sanitize_tool_choice env tc names True)"
proof (cases tc)
  case (JStr s)
  then show ?thesis by (auto simp: sanitize_tool_choice_def clean_choice_def Let_def)
next
  case (JObj m)
  then show ?thesis by (auto simp: sanitize_tool_choice_def clean_choice_def list_ex_iff Let_def)
qed (simp_all add: sanitize_tool_choice_def clean_choice_def)

lemma choice_fixed:
  assumes "clean_choice names tc" "\<forall>n\<in>set names. trim_space n = n"
  shows "sanitize_tool_choice env tc names True = tc"
proof (cases tc)
  case (JStr s)
  then have "to_lower (trim_space s) = s" "s \<in> {''auto'', ''none'', ''required''}" using assms(1) by (auto simp: clean_choice_def)
  then show ?thesis by (auto simp: JStr sanitize_tool_choice_def Let_def)
next
  case (JObj m)
  then obtain n where "n \<in> set names" "n \<noteq> []" "m = [(''type'', JStr ''function''), (''name'', JStr n)]"
    using assms(1) by (auto simp: clean_choice_def list_ex_iff)
  then show ?thesis using assms(2) by (simp add: JObj sanitize_tool_choice_def lower_field_def as_string_def Let_def)
qed (simp_all add: sanitize_tool_choice_def)

lemma step_tools_clean:
  "clean_tools env (step_tools env obj)"
  "k \<notin> {''tools'', ''tool_choice''} \<Longrightarrow> map_of (step_tools env obj) k = map_of obj k"
proof -
  obtain kept names where kn: "(case map_of obj ''tools'' of None \<Rightarrow> ([], []) | Some v \<Rightarrow> sanitize_tools env v) = (kept, names)"
    by fastforce
  define obj1 where "obj1 = (if map_of obj ''tools'' = None then obj
      else if kept = [] then gm_del ''tools'' obj else gm_put ''tools'' (JArr (map JObj kept)) obj)"
  have st: "step_tools env obj = (case map_of obj1 ''tool_choice'' of None \<Rightarrow> obj1
      | Some tc \<Rightarrow> gm_put ''tool_choice'' (sanitize_tool_choice env tc names (kept \<noteq> [])) obj1)"
    unfolding step_tools_def kn obj1_def by (simp only: Let_def prod.case)
  show "k \<notin> {''tools'', ''tool_choice''} \<Longrightarrow> map_of (step_tools env obj) k = map_of obj k"
    unfolding st by (auto simp: obj1_def split: option.split)
  show "clean_tools env (step_tools env obj)"
  proof (cases "kept = []")
    case True
    then have "map_of obj1 ''tools'' = None" by (simp add: obj1_def)
    with True show ?thesis unfolding st by (auto simp: clean_tools_def sanitize_tool_choice_def split: option.split)
  next
    case False
    then obtain v where v: "map_of obj ''tools'' = Some v" "sanitize_tools env v = (kept, names)"
      using kn by (auto split: option.splits)
    note k = kept_tools [OF v(2)]
    have "map_of obj1 ''tools'' = Some (JArr (map JObj kept))" using v False by (simp add: obj1_def)
    moreover have "list_all (\<lambda>t. case t of JObj m \<Rightarrow> tool_accepted env m | _ \<Rightarrow> False) (map JObj kept)"
      using k(1) by (simp add: list.pred_map comp_def)
    ultimately show ?thesis using False sanitized_choice [of names env] k(2)
      unfolding st by (auto simp: clean_tools_def split: option.split)
  qed
qed

section \<open>What is clean stays as it is\<close>

lemma clean_input_fixed:
  assumes "clean_input env b"
  shows "step_instructions env b = b"
proof -
  have i: "step_input env b = (b, [])"
    using assms sanitize_input_fixed [of env] by (auto simp: clean_input_def step_input_def split: option.split)
  have m: "step_messages env b = (b, [])"
    using assms sanitize_input_fixed [of env] by (auto simp: clean_input_def step_messages_def split: option.split)
  show ?thesis
  proof (cases "json_get b ''instructions''")
    case (JStr s)
    then have "s \<noteq> [] \<Longrightarrow> map_of b ''instructions'' = Some (JStr s)"
      by (auto simp: json_get_def gm_default_def split: option.splits)
    then show ?thesis by (auto simp: step_instructions_def i m JStr as_string_def Let_def)
  qed (use assms in \<open>simp_all add: clean_input_def step_instructions_def i m Let_def\<close>)
qed

lemma clean_reasoning_fixed:
  assumes "clean_reasoning b"
  shows "step_reasoning b = Inr b"
proof -
  have flat: "json_get b ''reasoning_effort'' = JNull" and none: "map_of b ''reasoning_effort'' = None"
    using assms by (auto simp: clean_reasoning_def json_get_def gm_default_def)
  have noeff: "effort_value JNull = Inr ([], False)" by (simp add: effort_value_def)
  show ?thesis
  proof (cases "json_get b ''reasoning''")
    case JNull
    then show ?thesis using flat none noeff by (simp add: step_reasoning_def Let_def)
  next
    case (JObj r)
    then have r: "map_of b ''reasoning'' = Some (JObj r)" by (auto simp: json_get_def gm_default_def split: option.splits)
    show ?thesis
    proof (cases "json_get r ''effort''")
      case JNull
      then show ?thesis using flat none noeff JObj by (simp add: step_reasoning_def Let_def)
    next
      case (JStr s)
      then have e: "map_of r ''effort'' = Some (JStr s)" by (auto simp: json_get_def gm_default_def split: option.splits)
      have "to_lower (trim_space s) = [] \<or> to_lower (trim_space s) = s \<and> s \<noteq> ''minimal''"
        using assms JObj JStr by (simp add: clean_reasoning_def)
      then show ?thesis using flat none noeff JObj JStr e r
        by (auto simp: step_reasoning_def effort_value_def Let_def)
    qed (use assms JObj in \<open>simp_all add: clean_reasoning_def\<close>)
  qed (use assms in \<open>simp_all add: clean_reasoning_def\<close>)
qed

lemma clean_key_fixed: "clean_key env key b \<Longrightarrow> step_cache env key b = Inr (b, key)"
  by (auto simp: clean_key_def step_cache_def Let_def trim_space_idem)

lemma function_name_trimmed: "n \<in> set (function_name env t) \<Longrightarrow> trim_space n = n"
  by (auto simp: function_name_def trim_space_idem split: json.splits if_splits)

lemma clean_tools_fixed:
  assumes "clean_tools env b"
  shows "step_tools env b = b"
proof (cases "map_of b ''tools''")
  case None
  with assms have "map_of b ''tool_choice'' \<in> {None, Some (JStr ''auto'')}" by (simp add: clean_tools_def)
  with None show ?thesis by (auto simp: step_tools_def sanitize_tool_choice_def)
next
  case (Some v)
  with assms obtain ts where ts: "v = JArr ts" by (cases v) (simp_all add: clean_tools_def)
  with assms Some have v: "v = JArr ts" "ts \<noteq> []" "list_all (\<lambda>t. case t of JObj m \<Rightarrow> tool_accepted env m | _ \<Rightarrow> False) ts"
    and c: "\<And>tc. map_of b ''tool_choice'' = Some tc \<Longrightarrow> clean_choice (concat (map (function_name env) ts)) tc"
    by (simp_all add: clean_tools_def)
  obtain ms where ms: "ts = map JObj ms" "list_all (tool_accepted env) ms"
  proof
    let ?ms = "map (\<lambda>t. case t of JObj m \<Rightarrow> m | _ \<Rightarrow> []) ts"
    show "ts = map JObj ?ms" "list_all (tool_accepted env) ?ms"
      using v(3) by (induction ts) (auto split: json.splits)
  qed
  have kept: "sanitize_tools env v = (ms, concat (map (function_name env) ts))"
  proof -
    have "concat (map (\<lambda>it. case sanitize_tool env it of None \<Rightarrow> [] | Some m \<Rightarrow> [m]) (as_any_slice v)) = ms"
      unfolding v(1) ms(1) using ms(2) by (induction ms) (auto simp: as_any_slice_def tool_fixed)
    moreover obtain kept names where "sanitize_tools env v = (kept, names)" by fastforce
    ultimately show ?thesis using kept_tools(2) [of env v] by (auto simp: sanitize_tools_def Let_def ms(1))
  qed
  have "\<forall>n\<in>set (concat (map (function_name env) ts)). trim_space n = n" using function_name_trimmed by auto
  from choice_fixed [OF c this]
  have "\<And>tc. map_of b ''tool_choice'' = Some tc \<Longrightarrow> sanitize_tool_choice env tc (concat (map (function_name env) ts)) True = tc" .
  moreover have "ms \<noteq> []" "AList.update ''tools'' (JArr (map JObj ms)) b = b" using v ms Some by auto
  ultimately show ?thesis using Some kept by (auto simp: step_tools_def split: option.split)
qed

section \<open>The clean-up as a whole\<close>

lemma clean_input_frame:
  assumes "clean_input env b'" "\<And>k. k \<in> {''input'', ''messages'', ''instructions''} \<Longrightarrow> map_of b k = map_of b' k"
  shows "clean_input env b"
  using assms(1) assms(2) [of "''input''"] assms(2) [of "''messages''"] get_same [OF assms(2) [of "''instructions''"]]
  by (simp add: clean_input_def)

lemma clean_reasoning_frame:
  assumes "clean_reasoning b'" "\<And>k. k \<in> {''reasoning'', ''reasoning_effort''} \<Longrightarrow> map_of b k = map_of b' k"
  shows "clean_reasoning b"
  using assms(1) assms(2) [of "''reasoning_effort''"] get_same [OF assms(2) [of "''reasoning''"]]
  by (simp add: clean_reasoning_def)

lemma clean_key_frame:
  assumes "clean_key env key b'" "\<And>k. k \<in> {''prompt_cache_key'', ''prompt_cache_id''} \<Longrightarrow> map_of b k = map_of b' k"
  shows "clean_key env key b"
  using assms(1) get_same [OF assms(2) [of "''prompt_cache_key''"]] get_same [OF assms(2) [of "''prompt_cache_id''"]]
  by (auto simp: clean_key_def)

lemma sanitize_object_clean:
  assumes "sanitize_object env conv obj = Inr r"
  shows "clean_body env (sz_conv_id r) (sz_body r)"
    and "r = \<lparr>sz_body = sz_body r, sz_model = trim_space (as_string env (json_get (sz_body r) ''model'')),
           sz_stream = as_bool env (json_get (sz_body r) ''stream''), sz_conv_id = sz_conv_id r\<rparr>"
proof -
  let ?a = "step_instructions env obj" let ?b = "step_tokens (step_format env ?a)"
  obtain c d key where c: "step_reasoning ?b = Inr c" and d: "step_cache env conv c = Inr (d, key)"
    and r: "r = \<lparr>sz_body = step_tools env d, sz_model = trim_space (as_string env (json_get (step_tools env d) ''model'')),
        sz_stream = as_bool env (json_get (step_tools env d) ''stream''), sz_conv_id = key\<rparr>"
    using assms by (auto simp: sanitize_object_def Let_def split: sum.splits)
  show "r = \<lparr>sz_body = sz_body r, sz_model = trim_space (as_string env (json_get (sz_body r) ''model'')),
      sz_stream = as_bool env (json_get (sz_body r) ''stream''), sz_conv_id = sz_conv_id r\<rparr>"
    by (simp add: r)
  let ?e = "step_tools env d"
  note frame = step_tools_clean(2) step_cache_clean(2) [OF d] step_reasoning_clean(2) [OF c]
  have "clean_input env ?e" by (rule clean_input_frame [OF step_instructions_clean(1) [of env obj]]) (auto simp: frame)
  moreover have "map_of ?e ''response_format'' = None" "map_of ?e ''max_tokens'' = None" by (simp_all add: frame)
  moreover have "clean_reasoning ?e" by (rule clean_reasoning_frame [OF step_reasoning_clean(1) [OF c]]) (auto simp: frame)
  moreover have "clean_key env key ?e" by (rule clean_key_frame [OF step_cache_clean(1) [OF d]]) (auto simp: frame)
  ultimately show "clean_body env (sz_conv_id r) (sz_body r)"
    using step_tools_clean(1) by (simp add: r clean_body_def)
qed

lemma clean_body_fixed:
  assumes "clean_body env key b"
  shows "sanitize_object env key b =
    Inr \<lparr>sz_body = b, sz_model = trim_space (as_string env (json_get b ''model'')), sz_stream = as_bool env (json_get b ''stream''), sz_conv_id = key\<rparr>"
proof -
  have "step_instructions env b = b" "step_reasoning b = Inr b" "step_cache env key b = Inr (b, key)" "step_tools env b = b"
    "step_format env b = b" "step_tokens b = b"
    using assms clean_input_fixed clean_reasoning_fixed clean_key_fixed clean_tools_fixed
    by (simp_all add: clean_body_def step_format_def step_tokens_def)
  then show ?thesis by (simp add: sanitize_object_def Let_def)
qed

text \<open>
  A body that goes to the upstream is one it accepts. Whatever the client sends, in the body that \<open>SanitizeResponses\<close> gives no system or developer
  message is left in the input, the fields of chat completions are gone, the effort stands in one place and in lower case, every tool
  is of a known type and every function has a name, the choice of a tool names a function that is there, and
  the key of the prompt cache, by which the session binds to an account, is that of the body and at most 512 bytes long.
\<close>

theorem sanitized_clean:
  assumes "sanitize_responses env raw conv = Inr r"
  shows "clean_body env (sz_conv_id r) (sz_body r)"
proof -
  obtain obj where "sanitize_object env conv obj = Inr r"
    using assms by (auto simp: sanitize_responses_def split: sum.splits)
  then show ?thesis by (rule sanitize_object_clean(1))
qed

text \<open>
  C5. Cleaning up twice is cleaning up once. The body that a clean-up gave, cleaned again under its own session, stays as it is,
  with the same model, stream flag and session: the retry of a request and the second pass over a translated chat request
  send what the first one sent.
\<close>

theorem sanitize_twice:
  assumes "sanitize_object env conv obj = Inr r"
  shows "sanitize_object env (sz_conv_id r) (sz_body r) = Inr r"
  using clean_body_fixed [OF sanitize_object_clean(1) [OF assms]] sanitize_object_clean(2) [OF assms] by simp

section \<open>A turn of chat completions\<close>

datatype chat_output = OutTexts "string list" | OutReasoning string | OutCall string string string

fun output_json :: "chat_output \<Rightarrow> json" where
  "output_json (OutTexts ss) =
     JObj [(''type'', JStr ''message''), (''content'', JArr (map (\<lambda>s. JObj [(''type'', JStr ''output_text''), (''text'', JStr s)]) ss))]"
| "output_json (OutReasoning e) = JObj [(''type'', JStr ''reasoning''), (''encrypted_content'', JStr e)]"
| "output_json (OutCall i n a) =
     JObj [(''type'', JStr ''function_call''), (''call_id'', JStr i), (''name'', JStr n), (''arguments'', JStr a)]"

text \<open>Ids and names as the upstream gives them: not empty, without blanks around them.\<close>

fun output_ok :: "chat_output \<Rightarrow> bool" where
  "output_ok (OutCall i n a) = (i \<noteq> [] \<and> trim_space i = i \<and> n \<noteq> [] \<and> trim_space n = n \<and> a \<noteq> [])"
| "output_ok _ = True"

fun output_text :: "chat_output \<Rightarrow> string" where
  "output_text (OutTexts ss) = concat ss"
| "output_text _ = []"

fun output_call :: "chat_output \<Rightarrow> chat_tool_call list" where
  "output_call (OutCall i n a) = [\<lparr>cc_id = i, cc_name = n, cc_arguments = a\<rparr>]"
| "output_call _ = []"

definition call_json :: "chat_tool_call \<Rightarrow> json" where
  "call_json c = JObj [(''id'', JStr (cc_id c)), (''type'', JStr ''function''),
     (''function'', JObj [(''name'', JStr (cc_name c)), (''arguments'', JStr (cc_arguments c))])]"

definition echoed_call :: "chat_tool_call \<Rightarrow> json" where
  "echoed_call c = JObj [(''type'', JStr ''function_call''), (''name'', JStr (cc_name c)), (''arguments'', JStr (cc_arguments c)),
     (''call_id'', JStr (cc_id c)), (''id'', JStr (cc_id c))]"

lemma type_words [simp]:
  "to_lower (trim_space ''message'') = ''message''" "to_lower (trim_space ''reasoning'') = ''reasoning''"
  "to_lower (trim_space ''function_call'') = ''function_call''" "to_lower (trim_space ''assistant'') = ''assistant''"
  "to_lower ''output_text'' = ''output_text''"
  by code_simp+

lemma texts_concat: "concat (concat (map (output_part_texts env) (map (\<lambda>s. JObj [(''type'', JStr ''output_text''), (''text'', JStr s)]) ss))) = concat ss"
  by (induction ss) (simp_all add: output_part_texts_def as_string_def Let_def)

lemma message_text: "concat (output_message_texts env [(''type'', JStr ''message''),
    (''content'', JArr (map (\<lambda>s. JObj [(''type'', JStr ''output_text''), (''text'', JStr s)]) ss))]) = concat ss"
proof -
  define P where "P = concat (map (output_part_texts env) (map (\<lambda>s. JObj [(''type'', JStr ''output_text''), (''text'', JStr s)]) ss))"
  have "output_message_texts env [(''type'', JStr ''message''),
      (''content'', JArr (map (\<lambda>s. JObj [(''type'', JStr ''output_text''), (''text'', JStr s)]) ss))] = (if P = [] then [] else P)"
    unfolding P_def by (simp add: output_message_texts_def as_string_def Let_def)
  also have "\<dots> = P" by simp
  finally show ?thesis by (simp only: P_def texts_concat)
qed

lemma walk_outputs:
  assumes "list_all output_ok us"
  shows "\<exists>ts. walk_output env (map output_json us) texts calls = (texts @ ts, calls @ map call_json (concat (map output_call us))) \<and>
     concat ts = concat (map output_text us)"
  using assms
proof (induction us arbitrary: texts calls)
  case (Cons u us)
  then show ?case
  proof (cases u)
    case (OutTexts ss)
    let ?new = "output_message_texts env [(''type'', JStr ''message''),
        (''content'', JArr (map (\<lambda>s. JObj [(''type'', JStr ''output_text''), (''text'', JStr s)]) ss))]"
    obtain ts where "walk_output env (map output_json us) (texts @ ?new) calls =
        (texts @ ?new @ ts, calls @ map call_json (concat (map output_call us)))" "concat ts = concat (map output_text us)"
      using Cons.IH [of "texts @ ?new" calls] Cons.prems by auto
    then show ?thesis using message_text [of env ss]
      by (intro exI [of _ "?new @ ts"]) (simp add: OutTexts lower_field_def as_string_def Let_def)
  next
    case (OutReasoning e)
    then show ?thesis using Cons.IH [of texts calls] Cons.prems by (simp add: lower_field_def as_string_def Let_def)
  next
    case (OutCall i n a)
    then have "chat_call_json env [(''type'', JStr ''function_call''), (''call_id'', JStr i), (''name'', JStr n), (''arguments'', JStr a)] k =
        call_json \<lparr>cc_id = i, cc_name = n, cc_arguments = a\<rparr>" for k
      using Cons.prems by (simp add: chat_call_json_def call_json_def nested_field_def output_arguments_def as_string_def Let_def)
    then show ?thesis
      using OutCall Cons.IH [of texts "calls @ [call_json \<lparr>cc_id = i, cc_name = n, cc_arguments = a\<rparr>]"] Cons.prems
      by (simp add: lower_field_def as_string_def Let_def)
  qed
qed simp

lemma decoded_calls: "decode_many decode_chat_call (JArr (map call_json cs)) = Some cs"
proof -
  define call_obj where "call_obj c = [(''id'', JStr (cc_id c)), (''type'', JStr ''function''),
     (''function'', JObj [(''name'', JStr (cc_name c)), (''arguments'', JStr (cc_arguments c))])]" for c :: chat_tool_call
  have "object_list (map call_json cs) = Some (map call_obj cs)"
    by (induction cs) (simp_all add: call_json_def call_obj_def)
  moreover have "decode_list decode_chat_call (map call_obj cs) = Some cs"
    by (induction cs) (simp_all add: call_obj_def decode_chat_call_def entry_text_def object_field_def)
  ultimately show ?thesis by (simp add: decode_many_def decode_objects_def)
qed

lemma echoed_calls:
  "list_all output_ok us \<Longrightarrow> concat (map chat_call_item (concat (map output_call us))) = map echoed_call (concat (map output_call us))"
proof (induction us)
  case (Cons u us)
  then show ?case by (cases u) (simp_all add: chat_call_item_def echoed_call_def Let_def)
qed simp


text \<open>
  The parts of a system message are never read: the text of a list is its JSON, so the instructions get that JSON.
\<close>

lemma system_parts_marshalled:
  "json_get m ''content'' = JArr ps \<Longrightarrow> oe_marshal env (JArr ps) \<noteq> [] \<Longrightarrow> extract_message_text env m = oe_marshal env (JArr ps)"
  by (simp add: extract_message_text_def as_string_def)

section \<open>Samples\<close>

definition sample_body :: "(string, json) gomap" where
  "sample_body =
     [(''model'', JStr ''grok-4''),
      (''messages'', JArr [JObj [(''role'', JStr ''System''), (''content'', JStr ''be brief'')], JObj [(''role'', JStr ''user''), (''content'', JStr ''hi'')]]),
      (''max_tokens'', JNum ''5''), (''reasoning_effort'', JStr '' Minimal''), (''response_format'', JStr ''text''),
      (''tools'', JArr [JObj [(''type'', JStr ''namespace'')], JObj [(''function'', JObj [(''name'', JStr ''f'')])]]),
      (''tool_choice'', JObj [(''type'', JStr ''function''), (''function'', JObj [(''name'', JStr ''f'')])])]"

definition sample_openai_env :: openai_env where
  "sample_openai_env =
     \<lparr>oe_decode = (\<lambda>s. if s = ''body'' then Some (JObj sample_body) else None), oe_marshal = (\<lambda>v. ''{}''), oe_number = id, oe_int = (\<lambda>n. 0),
      oe_zero = (\<lambda>n. False), oe_now = 7\<rparr>"

definition sample_sanitized :: sanitized where
  "sample_sanitized =
     \<lparr>sz_body =
        [(''model'', JStr ''grok-4''), (''tools'', JArr [JObj [(''type'', JStr ''function''), (''name'', JStr ''f'')]]),
         (''tool_choice'', JObj [(''type'', JStr ''function''), (''name'', JStr ''f'')]),
         (''input'', JArr [JObj [(''role'', JStr ''user''), (''content'', JStr ''hi'')]]), (''instructions'', JStr ''be brief''),
         (''text'', JObj [(''format'', JObj [(''type'', JStr ''text'')])]), (''max_output_tokens'', JNum ''5''),
         (''reasoning'', JObj [(''effort'', JStr ''low'')]), (''prompt_cache_key'', JStr ''s1'')],
      sz_model = ''grok-4'', sz_stream = False, sz_conv_id = ''s1''\<rparr>"

lemma sample_sanitize: "sanitize_object sample_openai_env ''s1'' sample_body = Inr sample_sanitized"
  by code_simp

theorem sanitized_clean_witness: "clean_body sample_openai_env ''s1'' (sz_body sample_sanitized)"
proof -
  have "sanitize_responses sample_openai_env ''body'' ''s1'' = sanitize_object sample_openai_env ''s1'' sample_body"
    by (simp add: sanitize_responses_def as_object_map_def sample_openai_env_def)
  then show ?thesis using sanitized_clean [of sample_openai_env "''body''" "''s1''" sample_sanitized] sample_sanitize
    by (simp add: sample_sanitized_def)
qed

theorem sanitize_twice_witness:
  "sanitize_object sample_openai_env ''s1'' (sz_body sample_sanitized) = Inr sample_sanitized"
  using sanitize_twice [OF sample_sanitize] by (simp add: sample_sanitized_def)

definition sample_outputs :: "chat_output list" where
  "sample_outputs = [OutReasoning ''e'', OutTexts [''hi '', ''you''], OutCall ''c1'' ''f'' ''{}'']"


end
