(* ===== verification/ChatStream.thy ===== *)
theory ChatStream
  imports OpenAI
begin

text \<open>
  The stream of chat completions: the translator of Responses events into chunks
  (\<open>internal/protocol/openai/chat_stream.go\<close>), the reader of server-sent events (\<open>responses.go\<close>) and the handler that pumps one into the
  other (\<open>handlers.go\<close>). A chunk is kept as the fields that vary; a write can fail.
\<close>

section \<open>Chunks\<close>

text \<open>The delta of a chunk; a call has its index, its identity (id and name) when that is sent, and arguments.\<close>

datatype chat_delta = NoDelta | ContentDelta string | CallDelta int "(string \<times> string) option" string

text \<open>A chunk with its id, time and model, whether the role is in it, and the delta.\<close>

datatype chat_payload =
    DeltaChunk string int string bool chat_delta
  | FinishChunk string int string string
  | UsageChunk string int string "(int \<times> int \<times> int) option"
  | ErrorChunk string string

datatype chat_stream_error = CsEvent | CsWrite | CsScan

record chat_tool_stream =
  hs_index :: int
  hs_id :: string
  hs_name :: string
  hs_saw_args :: bool
  hs_finalized :: bool
  hs_identity :: bool

record chat_translator =
  ht_id :: string
  ht_model :: string
  ht_created :: int
  ht_sent_role :: bool
  ht_terminal :: bool
  ht_failed :: bool
  ht_saw_tool :: bool
  ht_include_usage :: bool
  ht_usage :: "(int \<times> int \<times> int) option"
  ht_tools :: "(string, chat_tool_stream) gomap"
  ht_next :: int

definition new_chat_translator :: "openai_env \<Rightarrow> bool \<Rightarrow> chat_translator" where
  "new_chat_translator env include_usage =
     \<lparr>ht_id = ''chatcmpl-proxy'', ht_model = [], ht_created = oe_now env, ht_sent_role = False, ht_terminal = False, ht_failed = False,
      ht_saw_tool = False, ht_include_usage = include_usage, ht_usage = None, ht_tools = [], ht_next = 0\<rparr>"

section \<open>The translator\<close>

definition chunk :: "chat_translator \<Rightarrow> bool \<Rightarrow> chat_delta \<Rightarrow> chat_payload" where
  "chunk t role d = DeltaChunk (ht_id t) (ht_created t) (ht_model t) role d"

definition finish_chat :: "string \<Rightarrow> chat_translator \<Rightarrow> chat_payload list \<times> chat_translator" where
  "finish_chat reason t =
     (if ht_terminal t then ([], t)
      else let r = (if reason = [] then if ht_saw_tool t then ''tool_calls'' else ''stop'' else reason) in
        (FinishChunk (ht_id t) (ht_created t) (ht_model t) r #
           (if ht_include_usage t then [UsageChunk (ht_id t) (ht_created t) (ht_model t) (ht_usage t)] else []),
         t\<lparr>ht_terminal := True\<rparr>))"

definition object_of :: "json \<Rightarrow> (string, json) gomap" where
  "object_of v = (case v of JObj m \<Rightarrow> m | _ \<Rightarrow> [])"

definition positive_time :: "openai_env \<Rightarrow> json \<Rightarrow> int option" where
  "positive_time env v = (case value_int64 env v of (c, ok) \<Rightarrow> if ok \<and> c > 0 then Some c else None)"

definition stream_usage :: "openai_env \<Rightarrow> (string, json) gomap \<Rightarrow> int \<times> int \<times> int" where
  "stream_usage env u =
     (let p = fst (value_int64 env (json_get u ''input_tokens'')); c = fst (value_int64 env (json_get u ''output_tokens''));
          tot = value_int64 env (json_get u ''total_tokens'') in
      (p, c, if snd tot then fst tot else wrap64 (p + c)))"

definition with_id :: "openai_env \<Rightarrow> (string, json) gomap \<Rightarrow> chat_translator \<Rightarrow> chat_translator" where
  "with_id env r t =
     (let i = as_string env (json_get r ''id'') in
      if i = [] then t else t\<lparr>ht_id := (if has_prefix i ''resp_'' then ''chatcmpl-'' @ trim_prefix i ''resp_'' else i)\<rparr>)"

definition with_model :: "openai_env \<Rightarrow> (string, json) gomap \<Rightarrow> chat_translator \<Rightarrow> chat_translator" where
  "with_model env r t = (let model = as_string env (json_get r ''model'') in if model = [] then t else t\<lparr>ht_model := model\<rparr>)"

definition with_created :: "openai_env \<Rightarrow> (string, json) gomap \<Rightarrow> chat_translator \<Rightarrow> chat_translator" where
  "with_created env r t =
     (case positive_time env (json_get r ''created_at'') of
        Some c \<Rightarrow> t\<lparr>ht_created := c\<rparr>
      | None \<Rightarrow> (case positive_time env (json_get r ''created'') of Some c \<Rightarrow> t\<lparr>ht_created := c\<rparr> | None \<Rightarrow> t))"

definition with_usage :: "openai_env \<Rightarrow> (string, json) gomap \<Rightarrow> chat_translator \<Rightarrow> chat_translator" where
  "with_usage env r t = (case json_get r ''usage'' of JObj u \<Rightarrow> t\<lparr>ht_usage := Some (stream_usage env u)\<rparr> | _ \<Rightarrow> t)"

definition update_metadata :: "openai_env \<Rightarrow> (string, json) gomap \<Rightarrow> chat_translator \<Rightarrow> chat_translator" where
  "update_metadata env r t = with_usage env r (with_created env r (with_model env r (with_id env r t)))"

definition chat_tool_key :: "openai_env \<Rightarrow> (string, json) gomap \<Rightarrow> (string, json) gomap \<Rightarrow> chat_translator \<Rightarrow> string" where
  "chat_tool_key env event item t =
     (let key = first_non_empty
            [as_string env (json_get event ''item_id''), as_string env (json_get event ''call_id''), as_string env (json_get item ''id''),
             as_string env (json_get item ''call_id''), as_string env (json_get event ''output_index'')] in
      if key = [] then ''tool-'' @ show_int (ht_next t) else key)"

definition ensure_tool ::
  "openai_env \<Rightarrow> (string, json) gomap \<Rightarrow> (string, json) gomap \<Rightarrow> chat_translator \<Rightarrow> string \<times> chat_tool_stream \<times> chat_translator" where
  "ensure_tool env event item t =
     (let key = chat_tool_key env event item t;
          ids = [as_string env (json_get event ''call_id''), as_string env (json_get item ''call_id''), as_string env (json_get item ''id'')];
          name = first_non_empty [as_string env (json_get event ''name''), as_string env (json_get item ''name'')] in
      case map_of (ht_tools t) key of
        Some tool \<Rightarrow>
          let tool1 = (if hs_id tool = [] then tool\<lparr>hs_id := first_non_empty ids\<rparr> else tool);
              tool2 = (if hs_name tool1 = [] then tool1\<lparr>hs_name := name\<rparr> else tool1) in
          (key, tool2, t\<lparr>ht_tools := gm_put key tool2 (ht_tools t)\<rparr>)
      | None \<Rightarrow>
          let tool = \<lparr>hs_index = ht_next t, hs_id = first_non_empty (ids @ [key]), hs_name = name, hs_saw_args = False,
                      hs_finalized = False, hs_identity = False\<rparr> in
          (key, tool, t\<lparr>ht_tools := gm_put key tool (ht_tools t), ht_next := ht_next t + 1, ht_saw_tool := True\<rparr>))"

text \<open>\<open>toolChunk\<close> with the identity: the chunk of the tool under a key.\<close>

definition tool_chunk :: "string \<Rightarrow> chat_tool_stream \<Rightarrow> string \<Rightarrow> chat_translator \<Rightarrow> chat_payload list \<times> chat_translator" where
  "tool_chunk key tool args t =
     ([chunk t (\<not> ht_sent_role t) (CallDelta (hs_index tool) (if hs_identity tool then None else Some (hs_id tool, hs_name tool)) args)],
      t\<lparr>ht_tools := gm_put key (tool\<lparr>hs_identity := True\<rparr>) (ht_tools t), ht_sent_role := True\<rparr>)"

definition chat_error_message :: "openai_env \<Rightarrow> (string, json) gomap \<Rightarrow> string" where
  "chat_error_message env m =
     (let a = as_string env (json_get m ''message''); b = as_string env (json_get (object_of (json_get m ''error'')) ''message'');
          c = as_string env (json_get (object_of (json_get (object_of (json_get m ''response'')) ''error'')) ''message'') in
      if a \<noteq> [] then a else if b \<noteq> [] then b else if c \<noteq> [] then c else ''Bad Gateway'')"

text \<open>The end of the arguments of a tool, from either event that tells it.\<close>

definition tool_done :: "openai_env \<Rightarrow> string \<Rightarrow> chat_tool_stream \<Rightarrow> json \<Rightarrow> chat_translator \<Rightarrow> chat_payload list \<times> chat_translator" where
  "tool_done env key tool arguments t =
     (if hs_finalized tool then ([], t)
      else let tool1 = tool\<lparr>hs_finalized := True\<rparr> in
        if hs_saw_args tool then ([], t\<lparr>ht_tools := gm_put key tool1 (ht_tools t)\<rparr>)
        else let args = as_string env arguments in
          tool_chunk key (tool1\<lparr>hs_saw_args := True\<rparr>) (if args = [] then ''{}'' else args) t)"

definition on_chat_text :: "openai_env \<Rightarrow> (string, json) gomap \<Rightarrow> chat_translator \<Rightarrow> chat_payload list \<times> chat_translator" where
  "on_chat_text env m t =
     (let s = as_string env (json_get m ''delta''); s = (if s = [] then as_string env (json_get m ''text'') else s) in
      if s = [] then ([], t) else ([chunk t (\<not> ht_sent_role t) (ContentDelta s)], t\<lparr>ht_sent_role := True\<rparr>))"

definition is_call_item :: "openai_env \<Rightarrow> (string, json) gomap \<Rightarrow> bool" where
  "is_call_item env item \<longleftrightarrow> to_lower (as_string env (json_get item ''type'')) = ''function_call''"

definition chat_event :: "openai_env \<Rightarrow> (string, json) gomap \<Rightarrow> chat_translator \<Rightarrow> chat_payload list \<times> chat_translator" where
  "chat_event env m t0 =
     (let typ = lower_field env m ''type''; item = object_of (json_get m ''item'');
          t = (case json_get m ''response'' of JObj r \<Rightarrow> update_metadata env r t0 | _ \<Rightarrow> t0) in
      if typ \<in> {''response.created'', ''response.in_progress''}
      then (if ht_sent_role t then ([], t) else ([chunk t True NoDelta], t\<lparr>ht_sent_role := True\<rparr>))
      else if typ \<in> {''response.output_text.delta'', ''response.text.delta''} then on_chat_text env m t
      else if typ = ''response.output_item.added''
      then (if is_call_item env item then case ensure_tool env m item t of (key, tool, t1) \<Rightarrow> tool_chunk key tool [] t1 else ([], t))
      else if typ = ''response.function_call_arguments.delta''
      then (case ensure_tool env m [] t of (key, tool, t1) \<Rightarrow>
              let args = as_string env (json_get m ''delta'') in
              if args = [] then ([], t1) else tool_chunk key (tool\<lparr>hs_saw_args := True\<rparr>) args t1)
      else if typ = ''response.function_call_arguments.done''
      then (case ensure_tool env m [] t of (key, tool, t1) \<Rightarrow> tool_done env key tool (json_get m ''arguments'') t1)
      else if typ = ''response.output_item.done''
      then (if is_call_item env item
            then case ensure_tool env m item t of (key, tool, t1) \<Rightarrow> tool_done env key tool (json_get item ''arguments'') t1 else ([], t))
      else if typ \<in> {''response.completed'', ''response.done''} then finish_chat [] t
      else if typ = ''response.incomplete'' then finish_chat ''length'' t
      else if typ \<in> {''response.failed'', ''error''}
      then ([ErrorChunk (chat_error_message env m) ''upstream_stream_failed''], t\<lparr>ht_terminal := True, ht_failed := True\<rparr>)
      else ([], t))"

definition chat_process :: "openai_env \<Rightarrow> string \<Rightarrow> chat_translator \<Rightarrow> (chat_stream_error + chat_payload list) \<times> chat_translator" where
  "chat_process env data t =
     (let payload = trim_space data in
      if payload = [] then (Inr [], t)
      else if payload = ''[DONE]''
      then (if ht_terminal t then (Inr [], t) else map_prod Inr id (finish_chat [] t))
      else case oe_decode env data of
        Some (JObj m) \<Rightarrow> map_prod Inr id (chat_event env m t)
      | Some JNull \<Rightarrow> map_prod Inr id (chat_event env [] t)
      | _ \<Rightarrow> (Inl CsEvent, t))"

section \<open>The pump\<close>

text \<open>The payloads of an event stream: the \<open>data:\<close> lines between blank lines, the last one also without a blank line.\<close>

definition sse_payload :: "string \<Rightarrow> string list" where
  "sse_payload buf = (if buf = [] then [] else [if last buf = CHR 0x0A then butlast buf else buf])"

fun sse_payloads :: "string \<Rightarrow> string list \<Rightarrow> string list" where
  "sse_payloads buf [] = sse_payload buf"
| "sse_payloads buf (l # ls) =
     (if l = [] then sse_payload buf @ sse_payloads [] ls
      else if has_prefix l ''data:'' then
        sse_payloads ((if buf \<noteq> [] then buf @ [CHR 0x0A] else buf) @ trim_space (trim_prefix l ''data:'')) ls
      else sse_payloads buf ls)"

text \<open>
  Writing: the payloads the client got and the number of writes so far; \<open>ok n\<close> says whether write \<open>n\<close> succeeds.
\<close>

fun write_chunks :: "(nat \<Rightarrow> bool) \<Rightarrow> chat_payload list \<Rightarrow> chat_payload list \<times> nat \<Rightarrow> bool \<times> chat_payload list \<times> nat" where
  "write_chunks ok [] w = (True, w)"
| "write_chunks ok (p # ps) w =
     (if ok (snd w) then write_chunks ok ps (fst w @ [p], Suc (snd w)) else (False, fst w, Suc (snd w)))"

fun chat_pump ::
  "openai_env \<Rightarrow> (nat \<Rightarrow> bool) \<Rightarrow> string list \<Rightarrow> chat_translator \<Rightarrow> chat_payload list \<times> nat
   \<Rightarrow> chat_stream_error option \<times> chat_translator \<times> chat_payload list \<times> nat" where
  "chat_pump env ok [] t w = (None, t, w)"
| "chat_pump env ok (d # ds) t w =
     (case chat_process env d t of
        (Inl e, t1) \<Rightarrow> (Some e, t1, w)
      | (Inr ps, t1) \<Rightarrow>
          (case write_chunks ok ps w of
             (False, w1) \<Rightarrow> (Some CsWrite, t1, w1)
           | (True, w1) \<Rightarrow> chat_pump env ok ds t1 w1))"

definition truncated_text :: "(chat_stream_error \<Rightarrow> string) \<Rightarrow> chat_stream_error option \<Rightarrow> bool \<Rightarrow> string" where
  "truncated_text text_of e scan_fails =
     (case e of
        Some e \<Rightarrow> text_of e
      | None \<Rightarrow> if scan_fails then text_of CsScan else ''upstream stream ended before a terminal event'')"

text \<open>
  The body of the stream; \<open>scan_fails\<close>: the reader ends with an error after these bytes. The result is what the client got and whether the
  closing \<open>[DONE]\<close> arrived.
\<close>

definition handle_chat_stream ::
  "openai_env \<Rightarrow> (chat_stream_error \<Rightarrow> string) \<Rightarrow> (nat \<Rightarrow> bool) \<Rightarrow> bool \<Rightarrow> string \<Rightarrow> bool \<Rightarrow> chat_payload list \<times> bool" where
  "handle_chat_stream env text_of ok include_usage bytes scan_fails =
     (case chat_pump env ok (sse_payloads [] (scan_lines bytes)) (new_chat_translator env include_usage) ([], 0) of
        (e, t, out, n) \<Rightarrow>
          if ht_terminal t then (out, ok n)
          else (if ok n then out @ [ErrorChunk (truncated_text text_of e scan_fails) ''upstream_stream_truncated''] else out, ok (Suc n)))"

section \<open>What a client can rely on\<close>

text \<open>
  A client keeps whether it has the role, the calls it knows and whether the message is finished, and refuses: a delta before the role or a
  second role, an empty text, a call without identity the first time or with one later, a second finish, a usage before the finish.
\<close>

type_synonym chat_view = "bool \<times> int list \<times> bool"

fun chat_step :: "chat_view \<Rightarrow> chat_payload \<Rightarrow> chat_view option" where
  "chat_step (role, calls, ended) (DeltaChunk i c m r d) =
     (if r = role then None
      else case d of
        NoDelta \<Rightarrow> if r then Some (True, calls, ended) else None
      | ContentDelta s \<Rightarrow> if s = [] then None else Some (True, calls, ended)
      | CallDelta k None a \<Rightarrow> if k \<in> set calls then Some (True, calls, ended) else None
      | CallDelta k (Some ident) a \<Rightarrow> if k \<in> set calls \<or> fst ident = [] then None else Some (True, k # calls, ended))"
| "chat_step (role, calls, ended) (FinishChunk i c m r) = (if ended then None else Some (role, calls, True))"
| "chat_step (role, calls, ended) (UsageChunk i c m u) = (if ended then Some (role, calls, ended) else None)"
| "chat_step v (ErrorChunk s code) = Some v"

fun chat_run :: "chat_view \<Rightarrow> chat_payload list \<Rightarrow> chat_view option" where
  "chat_run v [] = Some v"
| "chat_run v (p # ps) = (case chat_step v p of None \<Rightarrow> None | Some v' \<Rightarrow> chat_run v' ps)"

fun closes :: "chat_payload \<Rightarrow> bool" where
  "closes (FinishChunk i c m r) = True"
| "closes (ErrorChunk s code) = True"
| "closes _ = False"

definition entries_ok :: "int list \<Rightarrow> int \<Rightarrow> (string, chat_tool_stream) gomap \<Rightarrow> bool" where
  "entries_ok calls n ts \<longleftrightarrow>
     (\<forall>key x. map_of ts key = Some x \<longrightarrow> hs_index x < n \<and> hs_id x \<noteq> [] \<and> (hs_identity x \<longleftrightarrow> hs_index x \<in> set calls)) \<and>
     (\<forall>key key' x x'. map_of ts key = Some x \<longrightarrow> map_of ts key' = Some x' \<longrightarrow> hs_index x = hs_index x' \<longrightarrow> key = key') \<and>
     (\<forall>k\<in>set calls. k < n)"

definition tools_ok :: "int list \<Rightarrow> chat_translator \<Rightarrow> bool" where
  "tools_ok calls t \<longleftrightarrow> entries_ok calls (ht_next t) (ht_tools t)"

definition view_ok :: "chat_view \<Rightarrow> chat_translator \<Rightarrow> bool" where
  "view_ok v t \<longleftrightarrow> (case v of (role, calls, ended) \<Rightarrow> role = ht_sent_role t \<and> (ended \<longrightarrow> ht_terminal t) \<and> tools_ok calls t)"

lemma chat_run_append: "chat_run v (ps @ qs) = (case chat_run v ps of None \<Rightarrow> None | Some v' \<Rightarrow> chat_run v' qs)"
  by (induction ps arbitrary: v) (simp_all split: option.split)

lemma first_non_empty_trimmed:
  "trim_space (first_non_empty vs) = first_non_empty vs" "first_non_empty (vs @ [v]) = [] \<longleftrightarrow> first_non_empty vs = [] \<and> trim_space v = []"
proof -
  have "w \<in> set (filter (\<lambda>v. v \<noteq> []) (map trim_space vs)) \<Longrightarrow> trim_space w = w" for w by (auto simp: trim_space_idem)
  moreover have "trim_space [] = []" by code_simp
  ultimately show "trim_space (first_non_empty vs) = first_non_empty vs"
    unfolding first_non_empty_def by (metis (lifting) list.case_eq_if list.set_sel(1))
  show "first_non_empty (vs @ [v]) = [] \<longleftrightarrow> first_non_empty vs = [] \<and> trim_space v = []"
    by (cases "filter (\<lambda>v. v \<noteq> []) (map trim_space vs)") (auto simp: first_non_empty_def dest: filter_eq_ConsD)
qed

lemma chat_tool_key_trimmed: "chat_tool_key env m item t \<noteq> []" "trim_space (chat_tool_key env m item t) = chat_tool_key env m item t"
proof -
  show "chat_tool_key env m item t \<noteq> []" by (auto simp: chat_tool_key_def Let_def)
  have "set (''tool-'' @ show_int n) \<subseteq> Collect visible_char" for n
    using order_trans [OF nat_digits_range digits_visible] by (simp add: show_int_def visible_char_def)
  then have "trim_space (''tool-'' @ show_int n) = ''tool-'' @ show_int n" for n by (intro trim_space_visible) auto
  then show "trim_space (chat_tool_key env m item t) = chat_tool_key env m item t"
    using first_non_empty_trimmed(1) by (simp add: chat_tool_key_def Let_def)
qed

lemma entries_okI:
  assumes "\<And>key x. map_of ts key = Some x \<Longrightarrow> hs_index x < n \<and> hs_id x \<noteq> [] \<and> (hs_identity x \<longleftrightarrow> hs_index x \<in> set calls)"
    and "\<And>key key' x x'. map_of ts key = Some x \<Longrightarrow> map_of ts key' = Some x' \<Longrightarrow> hs_index x = hs_index x' \<Longrightarrow> key = key'"
    and "\<And>k. k \<in> set calls \<Longrightarrow> k < n"
  shows "entries_ok calls n ts"
  unfolding entries_ok_def using assms by blast

lemma entries_okD:
  assumes "entries_ok calls n ts"
  shows "map_of ts key = Some x \<Longrightarrow> hs_index x < n" "map_of ts key = Some x \<Longrightarrow> hs_id x \<noteq> []"
    "map_of ts key = Some x \<Longrightarrow> hs_identity x \<longleftrightarrow> hs_index x \<in> set calls"
    "map_of ts key = Some x \<Longrightarrow> map_of ts key' = Some x' \<Longrightarrow> hs_index x = hs_index x' \<Longrightarrow> key = key'"
    "k \<in> set calls \<Longrightarrow> k < n"
  using assms unfolding entries_ok_def by blast+

lemma put_entry_ok:
  assumes ok: "entries_ok calls n ts" and x: "map_of ts key = Some x" "hs_index y = hs_index x" "hs_id y \<noteq> []"
    and c: "hs_identity y \<longleftrightarrow> hs_index x \<in> set calls'" "set calls' = set calls \<or> set calls' = insert (hs_index x) (set calls)"
  shows "entries_ok calls' n (gm_put key y ts)"
proof (rule entries_okI)
  fix k z assume z: "map_of (gm_put key y ts) k = Some z"
  show "hs_index z < n \<and> hs_id z \<noteq> [] \<and> (hs_identity z \<longleftrightarrow> hs_index z \<in> set calls')"
  proof (cases "k = key")
    case True
    then show ?thesis using z x c(1) entries_okD(1) [OF ok x(1)] by auto
  next
    case False
    then have z: "map_of ts k = Some z" using z by simp
    then have "hs_index z \<noteq> hs_index x" using entries_okD(4) [OF ok z x(1)] False by blast
    then show ?thesis using entries_okD(1-3) [OF ok z] c(2) by blast
  qed
next
  fix k k' z z' assume z: "map_of (gm_put key y ts) k = Some z" "map_of (gm_put key y ts) k' = Some z'" "hs_index z = hs_index z'"
  have old: "\<exists>w. map_of ts k = Some w \<and> hs_index w = hs_index z" if "map_of (gm_put key y ts) k = Some z" for k z
    using that x(1,2) by (cases "k = key") simp_all
  from old [OF z(1)] old [OF z(2)] z(3) entries_okD(4) [OF ok] show "k = k'" by metis
next
  fix k assume "k \<in> set calls'"
  then show "k < n" using c(2) entries_okD(1) [OF ok x(1)] entries_okD(5) [OF ok, of k] by auto
qed

lemma new_entry_ok:
  assumes ok: "entries_ok calls n ts" and y: "map_of ts key = None" "hs_index y = n" "hs_id y \<noteq> []" "\<not> hs_identity y"
  shows "entries_ok calls (n + 1) (gm_put key y ts)"
proof (rule entries_okI)
  fix k z assume z: "map_of (gm_put key y ts) k = Some z"
  show "hs_index z < n + 1 \<and> hs_id z \<noteq> [] \<and> (hs_identity z \<longleftrightarrow> hs_index z \<in> set calls)"
  proof (cases "k = key")
    case True
    moreover have "n \<notin> set calls" using entries_okD(5) [OF ok, of n] by blast
    ultimately show ?thesis using z y(2-4) by auto
  next
    case False
    then have "map_of ts k = Some z" using z by simp
    from entries_okD(1-3) [OF ok this] show ?thesis by auto
  qed
next
  fix k k' z z' assume z: "map_of (gm_put key y ts) k = Some z" "map_of (gm_put key y ts) k' = Some z'" "hs_index z = hs_index z'"
  have n: "hs_index w = n \<longleftrightarrow> j = key" if "map_of (gm_put key y ts) j = Some w" for j w
    using that y(2) entries_okD(1) [OF ok, of j w] by (cases "j = key") auto
  show "k = k'"
  proof (cases "k = key")
    case True
    then show ?thesis using n [OF z(1)] n [OF z(2)] z(3) by simp
  next
    case False
    moreover then have "k' \<noteq> key" using n [OF z(1)] n [OF z(2)] z(3) by simp
    ultimately show ?thesis using z entries_okD(4) [OF ok, of k z k' z'] by simp
  qed
next
  fix k assume "k \<in> set calls"
  then show "k < n + 1" using entries_okD(5) [OF ok, of k] by simp
qed

lemma ensure_tool_ok:
  assumes "ensure_tool env m item t = (key, tool, t1)" "tools_ok calls t"
  shows "tools_ok calls t1" "map_of (ht_tools t1) key = Some tool" "ht_sent_role t1 = ht_sent_role t" "ht_terminal t1 = ht_terminal t"
proof -
  let ?key = "chat_tool_key env m item t"
  let ?ids = "[as_string env (json_get m ''call_id''), as_string env (json_get item ''call_id''), as_string env (json_get item ''id'')]"
  let ?name = "first_non_empty [as_string env (json_get m ''name''), as_string env (json_get item ''name'')]"
  have new: "first_non_empty (?ids @ [?key]) \<noteq> []"
    using chat_tool_key_trimmed [of env m item t] first_non_empty_trimmed(2) [of ?ids ?key] by simp
  have ok: "entries_ok calls (ht_next t) (ht_tools t)" using assms(2) by (simp add: tools_ok_def)
  have "tools_ok calls t1 \<and> map_of (ht_tools t1) key = Some tool \<and> ht_sent_role t1 = ht_sent_role t \<and> ht_terminal t1 = ht_terminal t"
  proof (cases "map_of (ht_tools t) ?key")
    case None
    define x where "x = \<lparr>hs_index = ht_next t, hs_id = first_non_empty (?ids @ [?key]), hs_name = ?name,
      hs_saw_args = False, hs_finalized = False, hs_identity = False\<rparr>"
    have e: "key = ?key" "tool = x" "t1 = t\<lparr>ht_tools := gm_put ?key x (ht_tools t), ht_next := ht_next t + 1, ht_saw_tool := True\<rparr>"
      using assms(1) by (auto simp: ensure_tool_def Let_def x_def None)
    have "hs_index x = ht_next t" "hs_id x \<noteq> []" "\<not> hs_identity x" using new by (simp_all add: x_def)
    from new_entry_ok [OF ok None this] show ?thesis unfolding e by (simp add: tools_ok_def)
  next
    case (Some x)
    note xo = entries_okD(2,3) [OF ok Some]
    define y where "y = (if hs_name x = [] then x\<lparr>hs_name := ?name\<rparr> else x)"
    have e: "key = ?key" "tool = y" "t1 = t\<lparr>ht_tools := gm_put ?key y (ht_tools t)\<rparr>"
      using assms(1) xo(1) by (auto simp: ensure_tool_def Let_def Some y_def)
    have "hs_index y = hs_index x" "hs_id y \<noteq> []" "hs_identity y \<longleftrightarrow> hs_index x \<in> set calls" using xo by (simp_all add: y_def)
    from put_entry_ok [OF ok Some this] show ?thesis unfolding e by (simp add: tools_ok_def)
  qed
  then show "tools_ok calls t1" "map_of (ht_tools t1) key = Some tool" "ht_sent_role t1 = ht_sent_role t" "ht_terminal t1 = ht_terminal t"
    by blast+
qed

lemma tool_chunk_ok:
  assumes "tool_chunk key y args t = (ps, t1)" "view_ok (role, calls, ended) t" "map_of (ht_tools t) key = Some x"
    and "hs_index y = hs_index x" "hs_id y = hs_id x" "hs_identity y = hs_identity x"
  shows "\<exists>calls'. chat_run (role, calls, ended) ps = Some (True, calls', ended) \<and> view_ok (True, calls', ended) t1"
proof -
  have ok: "entries_ok calls (ht_next t) (ht_tools t)" and rest: "role = ht_sent_role t" "ended \<longrightarrow> ht_terminal t" using assms(2) by (simp_all add: view_ok_def tools_ok_def)
  have x: "hs_id x \<noteq> []" "hs_identity x \<longleftrightarrow> hs_index x \<in> set calls" using entries_okD(2,3) [OF ok assms(3)] by blast+
  define calls' where "calls' = (if hs_identity x then calls else hs_index x # calls)"
  let ?t = "t\<lparr>ht_tools := gm_put key (y\<lparr>hs_identity := True\<rparr>) (ht_tools t), ht_sent_role := True\<rparr>"
  have e: "ps = [DeltaChunk (ht_id t) (ht_created t) (ht_model t) (\<not> ht_sent_role t)
      (CallDelta (hs_index y) (if hs_identity y then None else Some (hs_id y, hs_name y)) args)]" "t1 = ?t"
    using assms(1) by (simp_all add: tool_chunk_def chunk_def)
  have "entries_ok calls' (ht_next t) (gm_put key (y\<lparr>hs_identity := True\<rparr>) (ht_tools t))"
    by (rule put_entry_ok [OF ok assms(3)]) (use assms(4-6) x in \<open>auto simp: calls'_def\<close>)
  then have "view_ok (True, calls', ended) t1" using rest by (simp add: view_ok_def tools_ok_def e)
  moreover have "chat_run (role, calls, ended) ps = Some (True, calls', ended)"
    using assms(4-6) x rest(1) by (simp add: e calls'_def)
  ultimately show ?thesis by blast
qed

lemma tool_done_ok:
  assumes "tool_done env key x v t = (ps, t1)" "view_ok (role, calls, ended) t" "map_of (ht_tools t) key = Some x"
  shows "\<exists>w. chat_run (role, calls, ended) ps = Some w \<and> view_ok w t1"
proof -
  have ok: "entries_ok calls (ht_next t) (ht_tools t)" using assms(2) by (simp add: view_ok_def tools_ok_def)
  have x: "hs_id x \<noteq> []" "hs_identity x \<longleftrightarrow> hs_index x \<in> set calls" using entries_okD(2,3) [OF ok assms(3)] by blast+
  consider "hs_finalized x" | "\<not> hs_finalized x" "hs_saw_args x" | "\<not> hs_finalized x" "\<not> hs_saw_args x" by blast
  then show ?thesis
  proof cases
    case 1
    then show ?thesis using assms by (simp add: tool_done_def)
  next
    case 2
    have "entries_ok calls (ht_next t) (gm_put key (x\<lparr>hs_finalized := True\<rparr>) (ht_tools t))"
      using x by (intro put_entry_ok [OF ok assms(3)]) simp_all
    with 2 show ?thesis using assms by (auto simp: tool_done_def Let_def view_ok_def tools_ok_def)
  next
    case 3
    then obtain args where "tool_chunk key (x\<lparr>hs_finalized := True, hs_saw_args := True\<rparr>) args t = (ps, t1)"
      using assms(1) by (auto simp: tool_done_def Let_def)
    from tool_chunk_ok [OF this assms(2,3)] show ?thesis by auto
  qed
qed

lemma metadata_frame [simp]:
  "ht_sent_role (update_metadata env r t) = ht_sent_role t" "ht_terminal (update_metadata env r t) = ht_terminal t"
  "ht_tools (update_metadata env r t) = ht_tools t" "ht_next (update_metadata env r t) = ht_next t"
  "ht_saw_tool (update_metadata env r t) = ht_saw_tool t"
proof -
  define same where "same u v \<longleftrightarrow> ht_sent_role u = ht_sent_role v \<and> ht_terminal u = ht_terminal v \<and> ht_tools u = ht_tools v \<and>
    ht_next u = ht_next v \<and> ht_saw_tool u = ht_saw_tool v" for u v :: chat_translator
  have "same (with_id env r u) u" "same (with_model env r u) u" "same (with_created env r u) u" "same (with_usage env r u) u" for u
    by (simp_all add: same_def with_id_def with_model_def with_created_def with_usage_def Let_def split: option.split json.split)
  moreover have "same u w" if "same u v" "same v w" for u v w using that by (simp add: same_def)
  ultimately have "same (update_metadata env r t) t" unfolding update_metadata_def by meson
  then show "ht_sent_role (update_metadata env r t) = ht_sent_role t" "ht_terminal (update_metadata env r t) = ht_terminal t"
    "ht_tools (update_metadata env r t) = ht_tools t" "ht_next (update_metadata env r t) = ht_next t"
    "ht_saw_tool (update_metadata env r t) = ht_saw_tool t"
    by (simp_all add: same_def)
qed

lemma view_ok_metadata [simp]: "view_ok v (update_metadata env r t) = view_ok v t"
  by (simp add: view_ok_def tools_ok_def split: prod.split)

lemma finish_ok:
  assumes "finish_chat reason t = (ps, t1)" "view_ok v t"
  shows "\<exists>w. chat_run v ps = Some w \<and> view_ok w t1"
  using assms by (cases v) (auto simp: finish_chat_def Let_def view_ok_def tools_ok_def split: if_splits)

lemma text_ok:
  assumes "on_chat_text env m t = (ps, t1)" "view_ok v t"
  shows "\<exists>w. chat_run v ps = Some w \<and> view_ok w t1"
  using assms by (cases v) (auto simp: on_chat_text_def chunk_def Let_def view_ok_def tools_ok_def split: if_splits)

text \<open>A translator that ends in a step has told the client so in that step.\<close>

definition ends_told :: "chat_payload list \<Rightarrow> chat_translator \<Rightarrow> chat_translator \<Rightarrow> bool" where
  "ends_told ps t t1 \<longleftrightarrow> (ht_terminal t1 \<longrightarrow> ht_terminal t \<or> (\<exists>p\<in>set ps. closes p))"

lemma finish_told: "finish_chat reason t = (ps, t1) \<Longrightarrow> ends_told ps t t1"
  by (auto simp: finish_chat_def ends_told_def Let_def split: if_splits)

lemma tool_told:
  "tool_chunk key y args t = (ps, t1) \<Longrightarrow> ht_terminal t1 = ht_terminal t" "tool_done env key y v t = (ps, t1) \<Longrightarrow> ht_terminal t1 = ht_terminal t"
  "on_chat_text env m t = (ps, t1) \<Longrightarrow> ht_terminal t1 = ht_terminal t"
  by (auto simp: tool_chunk_def tool_done_def on_chat_text_def Let_def split: if_splits)

lemma chat_event_ok:
  assumes "chat_event env m t0 = (ps, t1)" "view_ok v t0"
  shows "(\<exists>w. chat_run v ps = Some w \<and> view_ok w t1) \<and> ends_told ps t0 t1"
proof -
  define t where "t = (case json_get m ''response'' of JObj r \<Rightarrow> update_metadata env r t0 | _ \<Rightarrow> t0)"
  define ty where "ty = lower_field env m ''type''"
  define item where "item = object_of (json_get m ''item'')"
  obtain role calls ended where v: "v = (role, calls, ended)" by (cases v)
  have ok: "view_ok v t" using assms(2) by (simp add: t_def split: json.split)
  have same: "ht_terminal t = ht_terminal t0" by (simp add: t_def split: json.split)
  have stay: ?thesis if "(ps, t1) = ([], t)" using that ok same by (simp add: ends_told_def)
  have ensured: "view_ok v t2" "map_of (ht_tools t2) key = Some x" if "ensure_tool env m it t = (key, x, t2)" for it key x t2
    using ensure_tool_ok [OF that, of calls] ok by (auto simp: v view_ok_def)
  have kept: "ht_terminal t2 = ht_terminal t0" if "ensure_tool env m it t = (key, x, t2)" for it key x t2
    using ensure_tool_ok(4) [OF that, of calls] ok same by (simp add: v view_ok_def)
  have ev: "chat_event env m t0 = (ps, t1)" by (rule assms(1))
  note unf = ev [unfolded chat_event_def Let_def, folded t_def ty_def item_def]
  consider (new) "ty \<in> {''response.created'', ''response.in_progress''}"
    | (delta) "ty \<in> {''response.output_text.delta'', ''response.text.delta''}"
    | (added) "ty = ''response.output_item.added''"
    | (args) "ty = ''response.function_call_arguments.delta''"
    | (args_done) "ty = ''response.function_call_arguments.done''"
    | (item_done) "ty = ''response.output_item.done''"
    | (completed) "ty \<in> {''response.completed'', ''response.done''}"
    | (incomplete) "ty = ''response.incomplete''"
    | (failed) "ty \<in> {''response.failed'', ''error''}"
    | (other) "ty \<notin> {''response.created'', ''response.in_progress'', ''response.output_text.delta'', ''response.text.delta'',
        ''response.output_item.added'', ''response.function_call_arguments.delta'', ''response.function_call_arguments.done'',
        ''response.output_item.done'', ''response.completed'', ''response.done'', ''response.incomplete'', ''response.failed'', ''error''}"
    unfolding insert_iff empty_iff by satx
  then show ?thesis
  proof cases
    case new
    then have "(if ht_sent_role t then ([], t) else ([chunk t True NoDelta], t\<lparr>ht_sent_role := True\<rparr>)) = (ps, t1)"
      using unf by (simp only: if_True)
    then show ?thesis using ok same by (cases "ht_sent_role t") (auto simp: v view_ok_def chunk_def tools_ok_def ends_told_def)
  next
    case delta
    then have "on_chat_text env m t = (ps, t1)" using unf by auto
    then show ?thesis using text_ok ok tool_told(3) same unfolding ends_told_def by blast
  next
    case added
    show ?thesis
    proof (cases "is_call_item env item")
      case True
      obtain key x t2 where e: "ensure_tool env m item t = (key, x, t2)" by (metis prod_cases3)
      then have c: "tool_chunk key x [] t2 = (ps, t1)" using unf added True by simp
      from tool_chunk_ok [OF c ensured(1) [OF e, unfolded v] ensured(2) [OF e]] tool_told(1) [OF c] kept [OF e]
      show ?thesis unfolding v ends_told_def by auto
    qed (use unf added stay in \<open>simp\<close>)
  next
    case args
    obtain key x t2 where e: "ensure_tool env m [] t = (key, x, t2)" by (metis prod_cases3)
    show ?thesis
    proof (cases "as_string env (json_get m ''delta'') = []")
      case True
      then show ?thesis using unf args e ensured [OF e] kept [OF e] by (auto simp: ends_told_def)
    next
      case False
      then obtain a where c: "tool_chunk key (x\<lparr>hs_saw_args := True\<rparr>) a t2 = (ps, t1)" using unf args e by auto
      from tool_chunk_ok [OF c ensured(1) [OF e, unfolded v] ensured(2) [OF e]] tool_told(1) [OF c] kept [OF e]
      show ?thesis unfolding v ends_told_def by auto
    qed
  next
    case args_done
    obtain key x t2 where e: "ensure_tool env m [] t = (key, x, t2)" by (metis prod_cases3)
    then have c: "tool_done env key x (json_get m ''arguments'') t2 = (ps, t1)" using unf args_done by simp
    from tool_done_ok [OF c ensured(1) [OF e, unfolded v] ensured(2) [OF e]] tool_told(2) [OF c] kept [OF e]
    show ?thesis unfolding v ends_told_def by auto
  next
    case item_done
    show ?thesis
    proof (cases "is_call_item env item")
      case True
      obtain key x t2 where e: "ensure_tool env m item t = (key, x, t2)" by (metis prod_cases3)
      then have c: "tool_done env key x (json_get item ''arguments'') t2 = (ps, t1)" using unf item_done True by simp
      from tool_done_ok [OF c ensured(1) [OF e, unfolded v] ensured(2) [OF e]] tool_told(2) [OF c] kept [OF e]
      show ?thesis unfolding v ends_told_def by auto
    qed (use unf item_done stay in \<open>simp\<close>)
  next
    case completed
    then have "finish_chat [] t = (ps, t1)" using unf by auto
    then show ?thesis using finish_ok finish_told ok same unfolding ends_told_def by metis
  next
    case incomplete
    then have "finish_chat ''length'' t = (ps, t1)" using unf by simp
    then show ?thesis using finish_ok finish_told ok same unfolding ends_told_def by metis
  next
    case failed
    then have e: "ps = [ErrorChunk (chat_error_message env m) ''upstream_stream_failed'']" "t1 = t\<lparr>ht_terminal := True, ht_failed := True\<rparr>"
      using unf by auto
    then have "chat_run v ps = Some v" "view_ok v t1" "ends_told ps t0 t1"
      using ok by (auto simp: v view_ok_def tools_ok_def ends_told_def)
    then show ?thesis by blast
  next
    case other
    then show ?thesis using unf stay by simp
  qed
qed

lemma chat_process_ok:
  assumes "chat_process env d t = (r, t1)" "view_ok v t"
  shows "case r of Inl e \<Rightarrow> t1 = t | Inr ps \<Rightarrow> (\<exists>w. chat_run v ps = Some w \<and> view_ok w t1) \<and> ends_told ps t t1"
proof -
  have told: "ends_told [] t t" by (simp add: ends_told_def)
  have event: ?thesis if "map_prod Inr id (chat_event env m t) = (r, t1)" for m
    using that chat_event_ok [of env m t _ t1 v] assms(2) by (cases "chat_event env m t") auto
  have fin: ?thesis if "map_prod Inr id (finish_chat [] t) = (r, t1)"
    using that finish_ok [of "[]" t _ t1 v] finish_told [of "[]" t _ t1] assms(2) by (cases "finish_chat [] t") auto
  show ?thesis using assms event fin told
    by (auto simp: chat_process_def Let_def split: if_splits option.splits json.splits)
qed

lemma write_chunks_prefix:
  "write_chunks ok ps (out, n) = (b, out', n') \<Longrightarrow> \<exists>qs rs. ps = qs @ rs \<and> out' = out @ qs \<and> (b \<longrightarrow> rs = []) \<and> (b \<or> \<not> (\<forall>n. ok n))"
proof (induction ps arbitrary: out n)
  case (Cons p ps)
  show ?case
  proof (cases "ok n")
    case True
    then have "write_chunks ok ps (out @ [p], Suc n) = (b, out', n')" using Cons.prems by simp
    from Cons.IH [OF this] obtain qs rs where "ps = qs @ rs" "out' = (out @ [p]) @ qs" "b \<longrightarrow> rs = []" "b \<or> \<not> (\<forall>n. ok n)" by blast
    then show ?thesis by (intro exI [of _ "p # qs"] exI [of _ rs]) simp
  next
    case False
    then show ?thesis using Cons.prems by (intro exI [of _ "[]"] exI [of _ "p # ps"]) auto
  qed
qed simp

lemma pump_ok:
  assumes "chat_pump env ok ds t (out, n) = (e, t1, out1, n1)" "chat_run v0 out = Some v" "view_ok v t"
    and "ht_terminal t \<Longrightarrow> \<exists>p\<in>set out. closes p"
  shows "chat_run v0 out1 \<noteq> None" "(\<forall>n. ok n) \<Longrightarrow> ht_terminal t1 \<Longrightarrow> \<exists>p\<in>set out1. closes p"
proof -
  have "chat_run v0 out1 \<noteq> None \<and> ((\<forall>n. ok n) \<longrightarrow> ht_terminal t1 \<longrightarrow> (\<exists>p\<in>set out1. closes p))"
    using assms
  proof (induction ds arbitrary: t out n v)
    case Nil
    then show ?case by auto
  next
    case (Cons d ds)
    obtain r t2 where r: "chat_process env d t = (r, t2)" by fastforce
    show ?case
    proof (cases r)
      case (Inl x)
      then show ?thesis using Cons.prems chat_process_ok [OF r Cons.prems(3)] r by auto
    next
      case (Inr ps)
      then obtain w where w: "chat_run v ps = Some w" "view_ok w t2" "ends_told ps t t2"
        using chat_process_ok [OF r Cons.prems(3)] by auto
      obtain b out2 n2 where wr: "write_chunks ok ps (out, n) = (b, out2, n2)" by (metis prod_cases3)
      obtain qs rs where q: "ps = qs @ rs" "out2 = out @ qs" "b \<longrightarrow> rs = []" "b \<or> \<not> (\<forall>n. ok n)" using write_chunks_prefix [OF wr] by blast
      have part: "chat_run v qs \<noteq> None" using w(1) q(1) by (auto simp: chat_run_append split: option.splits)
      show ?thesis
      proof (cases b)
        case False
        then have "out1 = out2" using Cons.prems(1) r Inr wr by simp
        then show ?thesis using part q(2,4) False Cons.prems(2) by (auto simp: chat_run_append)
      next
        case True
        then have "chat_pump env ok ds t2 (out2, n2) = (e, t1, out1, n1)" "ps = qs" using Cons.prems(1) r Inr wr q by simp_all
        moreover have "\<exists>p\<in>set out2. closes p" if "ht_terminal t2"
          using w(3) that Cons.prems(4) q(2) \<open>ps = qs\<close> unfolding ends_told_def by auto
        ultimately show ?thesis using Cons.IH [of t2 out2 n2 w] w q(2) Cons.prems(2) by (simp add: chat_run_append)
      qed
    qed
  qed
  then show "chat_run v0 out1 \<noteq> None" "(\<forall>n. ok n) \<Longrightarrow> ht_terminal t1 \<Longrightarrow> \<exists>p\<in>set out1. closes p" by blast+
qed

text \<open>
  C3. A chat stream keeps the client's protocol. Whatever the upstream sends and wherever reading or writing breaks, the role comes once and before
  every other delta, each call names itself in its first chunk and never again, the indices are those of distinct calls, and there
  is one finish at most; and when every write succeeds the client is told the end, by a finish or an error, and gets \<open>[DONE]\<close>.
\<close>

theorem chat_stream_protocol:
  "chat_run (False, [], False) (fst (handle_chat_stream env text_of ok usage bytes scan_fails)) \<noteq> None \<and>
   ((\<forall>n. ok n) \<longrightarrow> snd (handle_chat_stream env text_of ok usage bytes scan_fails) \<and>
      (\<exists>p\<in>set (fst (handle_chat_stream env text_of ok usage bytes scan_fails)). closes p))"
proof -
  obtain e t out n where p: "chat_pump env ok (sse_payloads [] (scan_lines bytes)) (new_chat_translator env usage) ([], 0) = (e, t, out, n)"
    by (metis prod_cases4)
  have "view_ok (False, [], False) (new_chat_translator env usage)" "\<not> ht_terminal (new_chat_translator env usage)"
    by (simp_all add: view_ok_def tools_ok_def entries_ok_def new_chat_translator_def)
  note ok = pump_ok [OF p _ this(1), of "(False, [], False)"] 
  have run: "chat_run (False, [], False) out \<noteq> None" and closed: "(\<forall>n. ok n) \<Longrightarrow> ht_terminal t \<Longrightarrow> \<exists>p\<in>set out. closes p"
    using ok \<open>\<not> ht_terminal (new_chat_translator env usage)\<close> by auto
  show ?thesis using run closed by (auto simp: handle_chat_stream_def p chat_run_append split: option.splits)
qed

section \<open>Streamed and whole answers\<close>

text \<open>
  The answer of the upstream as a stream: texts in pieces, a call (item id, call id, name) with its arguments in pieces, reasoning.
\<close>

datatype stream_output = SoTexts "string list" | SoReasoning string | SoCall string string string "string list"

fun whole_output :: "stream_output \<Rightarrow> chat_output" where
  "whole_output (SoTexts ss) = OutTexts ss"
| "whole_output (SoReasoning e) = OutReasoning e"
| "whole_output (SoCall k i n ps) = OutCall i n (concat ps)"

definition call_item_json :: "string \<Rightarrow> string \<Rightarrow> string \<Rightarrow> string \<Rightarrow> json" where
  "call_item_json k i n a =
     JObj [(''type'', JStr ''function_call''), (''id'', JStr k), (''call_id'', JStr i), (''name'', JStr n), (''arguments'', JStr a)]"

definition text_event :: "string \<Rightarrow> (string, json) gomap" where
  "text_event s = [(''type'', JStr ''response.output_text.delta''), (''delta'', JStr s)]"

definition piece_event :: "string \<Rightarrow> string \<Rightarrow> (string, json) gomap" where
  "piece_event k p = [(''type'', JStr ''response.function_call_arguments.delta''), (''item_id'', JStr k), (''delta'', JStr p)]"

fun output_events :: "stream_output \<Rightarrow> (string, json) gomap list" where
  "output_events (SoTexts ss) = map text_event ss"
| "output_events (SoReasoning e) = [[(''type'', JStr ''response.reasoning_summary_text.delta''), (''delta'', JStr e)]]"
| "output_events (SoCall k i n ps) =
     [(''type'', JStr ''response.output_item.added''), (''item'', call_item_json k i n [])] # map (piece_event k) ps @
     [[(''type'', JStr ''response.function_call_arguments.done''), (''item_id'', JStr k), (''arguments'', JStr (concat ps))],
      [(''type'', JStr ''response.output_item.done''), (''item'', call_item_json k i n (concat ps))]]"

definition plain_word :: "string \<Rightarrow> bool" where
  "plain_word s \<longleftrightarrow> s \<noteq> [] \<and> trim_space s = s"

fun stream_ok :: "stream_output \<Rightarrow> bool" where
  "stream_ok (SoCall k i n ps) = (plain_word k \<and> plain_word i \<and> plain_word n \<and> concat ps \<noteq> [])"
| "stream_ok _ = True"

fun item_keys :: "stream_output \<Rightarrow> string list" where
  "item_keys (SoCall k i n ps) = [k]"
| "item_keys _ = []"

text \<open>How a client reads chunks: the text, the calls by index, the finish reason.\<close>

type_synonym chat_reading = "string \<times> (int, chat_tool_call) gomap \<times> string option"

fun read_chunk :: "chat_payload \<Rightarrow> chat_reading \<Rightarrow> chat_reading" where
  "read_chunk (DeltaChunk i c m r d) (text, calls, fin) =
     (case d of
        NoDelta \<Rightarrow> (text, calls, fin)
      | ContentDelta s \<Rightarrow> (text @ s, calls, fin)
      | CallDelta k (Some ident) a \<Rightarrow> (text, gm_put k \<lparr>cc_id = fst ident, cc_name = snd ident, cc_arguments = a\<rparr> calls, fin)
      | CallDelta k None a \<Rightarrow>
          (case map_of calls k of
             None \<Rightarrow> (text, calls, fin)
           | Some c \<Rightarrow> (text, gm_put k (c\<lparr>cc_arguments := cc_arguments c @ a\<rparr>) calls, fin)))"
| "read_chunk (FinishChunk i c m r) (text, calls, fin) = (text, calls, Some r)"
| "read_chunk _ v = v"

definition read_chunks :: "chat_payload list \<Rightarrow> chat_reading \<Rightarrow> chat_reading" where
  "read_chunks ps v = fold read_chunk ps v"

fun chat_events :: "openai_env \<Rightarrow> (string, json) gomap list \<Rightarrow> chat_translator \<Rightarrow> chat_payload list \<times> chat_translator" where
  "chat_events env [] t = ([], t)"
| "chat_events env (e # es) t =
     (case chat_event env e t of (ps, t1) \<Rightarrow> (case chat_events env es t1 of (qs, t2) \<Rightarrow> (ps @ qs, t2)))"

lemma read_chunks_simps [simp]:
  "read_chunks [] v = v" "read_chunks (p # ps) v = read_chunks ps (read_chunk p v)" "read_chunks (ps @ qs) v = read_chunks qs (read_chunks ps v)"
  by (simp_all add: read_chunks_def)

lemma chat_events_append:
  "chat_events env (es @ fs) t = (case chat_events env es t of (ps, t1) \<Rightarrow> (case chat_events env fs t1 of (qs, t2) \<Rightarrow> (ps @ qs, t2)))"
  by (induction es arbitrary: t) (simp_all split: prod.split)

lemma event_words:
  "to_lower (trim_space ''response.output_text.delta'') = ''response.output_text.delta''"
  "to_lower (trim_space ''response.reasoning_summary_text.delta'') = ''response.reasoning_summary_text.delta''"
  "to_lower (trim_space ''response.output_item.added'') = ''response.output_item.added''"
  "to_lower (trim_space ''response.output_item.done'') = ''response.output_item.done''"
  "to_lower (trim_space ''response.function_call_arguments.delta'') = ''response.function_call_arguments.delta''"
  "to_lower (trim_space ''response.function_call_arguments.done'') = ''response.function_call_arguments.done''"
  "to_lower (trim_space ''response.completed'') = ''response.completed''"
  "to_lower ''function_call'' = ''function_call''"
  by code_simp+

lemmas event_eval = chat_event_def lower_field_def as_string_def event_words object_of_def Let_def

lemma text_step:
  "chat_event env (text_event s) t =
     (if s = [] then ([], t) else ([chunk t (\<not> ht_sent_role t) (ContentDelta s)], t\<lparr>ht_sent_role := True\<rparr>))"
  by (simp add: event_eval text_event_def on_chat_text_def)

lemma first_word: "plain_word s \<Longrightarrow> first_non_empty (s # vs) = s" "first_non_empty ([] # vs) = first_non_empty vs"
proof -
  have "trim_space [] = []" by code_simp
  then show "first_non_empty ([] # vs) = first_non_empty vs" by (simp add: first_non_empty_def)
qed (simp add: first_non_empty_def plain_word_def)

lemma added_step:
  assumes "plain_word k" "plain_word i" "plain_word n" "map_of (ht_tools t) k = None"
  shows "chat_event env [(''type'', JStr ''response.output_item.added''), (''item'', call_item_json k i n [])] t =
    ([chunk t (\<not> ht_sent_role t) (CallDelta (ht_next t) (Some (i, n)) [])],
     t\<lparr>ht_tools := gm_put k \<lparr>hs_index = ht_next t, hs_id = i, hs_name = n, hs_saw_args = False, hs_finalized = False, hs_identity = True\<rparr> (ht_tools t),
       ht_next := ht_next t + 1, ht_saw_tool := True, ht_sent_role := True\<rparr>)"
  using assms
  by (simp add: event_eval call_item_json_def is_call_item_def ensure_tool_def chat_tool_key_def first_word tool_chunk_def chunk_def plain_word_def)

lemma known_tool:
  assumes "plain_word k" "map_of (ht_tools t) k = Some x" "hs_id x \<noteq> []" "hs_name x \<noteq> []"
  shows "as_string env (json_get m ''item_id'') = k \<Longrightarrow> ensure_tool env m item t = (k, x, t)"
    and "as_string env (json_get m ''item_id'') = [] \<Longrightarrow> as_string env (json_get m ''call_id'') = [] \<Longrightarrow>
      as_string env (json_get item ''id'') = k \<Longrightarrow> ensure_tool env m item t = (k, x, t)"
  using assms by (simp_all add: ensure_tool_def chat_tool_key_def first_word plain_word_def Let_def)

lemma piece_step:
  assumes "plain_word k" "map_of (ht_tools t) k = Some x" "hs_id x \<noteq> []" "hs_name x \<noteq> []" "hs_identity x" "ht_sent_role t"
  shows "chat_event env (piece_event k p) t =
    (if p = [] then ([], t)
     else ([chunk t False (CallDelta (hs_index x) None p)], t\<lparr>ht_tools := gm_put k (x\<lparr>hs_saw_args := True\<rparr>) (ht_tools t)\<rparr>))"
proof -
  have "ensure_tool env (piece_event k p) [] t = (k, x, t)"
    using known_tool(1) [OF assms(1-4)] by (simp add: piece_event_def as_string_def)
  moreover have x: "x\<lparr>hs_saw_args := True, hs_identity := True\<rparr> = x\<lparr>hs_saw_args := True\<rparr>" using assms(5) by (cases x) simp
  moreover have t: "t\<lparr>ht_tools := u, ht_sent_role := True\<rparr> = t\<lparr>ht_tools := u\<rparr>" for u using assms(6) by (cases t) simp
  ultimately show ?thesis using assms(5,6)
    by (simp add: event_eval piece_event_def tool_chunk_def chunk_def x t)
qed

lemma put_last: "k \<notin> fst ` set l \<Longrightarrow> AList.update k v (l @ [(k, w)]) = l @ [(k, v)]" "k \<notin> fst ` set l \<Longrightarrow> AList.update k v l = l @ [(k, v)]"
  by (induction l) auto

lemma put_twice [simp]: "AList.update k v (AList.update k w m) = AList.update k v m"
  by (induction m) auto

lemma pieces_step:
  assumes "plain_word k" "map_of (ht_tools t) k = Some x" "hs_id x \<noteq> []" "hs_name x \<noteq> []" "hs_identity x" "ht_sent_role t"
    and "hs_index x \<notin> fst ` set l"
  shows "\<exists>qs. chat_events env (map (piece_event k) ps) t =
      (qs, t\<lparr>ht_tools := gm_put k (x\<lparr>hs_saw_args := hs_saw_args x \<or> concat ps \<noteq> []\<rparr>) (ht_tools t)\<rparr>) \<and>
    read_chunks qs (said, l @ [(hs_index x, c)], fin) = (said, l @ [(hs_index x, c\<lparr>cc_arguments := cc_arguments c @ concat ps\<rparr>)], fin)"
  using assms
proof (induction ps arbitrary: t x c)
  case Nil
  have "x\<lparr>hs_saw_args := hs_saw_args x\<rparr> = x" by simp
  then show ?case using Nil by simp
next
  case (Cons p ps)
  have last: "map_of (l @ [(hs_index x, c)]) (hs_index x) = Some c"
    using Cons.prems(7) by (induction l) auto
  show ?case
  proof (cases "p = []")
    case True
    then show ?thesis using Cons piece_step [OF Cons.prems(1-6), of env p] by simp
  next
    case False
    let ?x = "x\<lparr>hs_saw_args := True\<rparr>" and ?t = "t\<lparr>ht_tools := gm_put k (x\<lparr>hs_saw_args := True\<rparr>) (ht_tools t)\<rparr>"
    obtain qs where q: "chat_events env (map (piece_event k) ps) ?t = (qs, ?t\<lparr>ht_tools := gm_put k ?x (ht_tools ?t)\<rparr>)"
      "read_chunks qs (said, l @ [(hs_index x, c\<lparr>cc_arguments := cc_arguments c @ p\<rparr>)], fin) =
        (said, l @ [(hs_index x, c\<lparr>cc_arguments := cc_arguments c @ p @ concat ps\<rparr>)], fin)"
      using Cons.IH [of ?t ?x "c\<lparr>cc_arguments := cc_arguments c @ p\<rparr>"] Cons.prems by auto
    show ?thesis
      using q False piece_step [OF Cons.prems(1-6), of env p] last put_last(1) [OF Cons.prems(7)]
      by (simp add: chunk_def)
  qed
qed

text \<open>What a stream of outputs leaves in the translator, against the calls the client has read.\<close>

definition in_step :: "chat_translator \<Rightarrow> (int, chat_tool_call) gomap \<Rightarrow> string set \<Rightarrow> bool" where
  "in_step t l keys \<longleftrightarrow> \<not> ht_terminal t \<and> (\<forall>n\<in>fst ` set l. n < ht_next t) \<and> ht_saw_tool t = (l \<noteq> []) \<and>
     (\<forall>k. map_of (ht_tools t) k \<noteq> None \<longrightarrow> k \<in> keys)"

lemma output_step:
  assumes "stream_ok u" "in_step t l keys" "set (item_keys u) \<inter> keys = {}"
  shows "\<exists>ps t1 l1. chat_events env (output_events u) t = (ps, t1) \<and>
    read_chunks ps (said, l, fin) = (said @ output_text (whole_output u), l1, fin) \<and>
    map snd l1 = map snd l @ output_call (whole_output u) \<and> in_step t1 l1 (keys \<union> set (item_keys u))"
proof (cases u)
  case (SoTexts ss)
  have "\<exists>ps t1. chat_events env (map text_event ss) t = (ps, t1) \<and> read_chunks ps (said, l, fin) = (said @ concat ss, l, fin) \<and> in_step t1 l keys"
    using assms(2)
  proof (induction ss arbitrary: t said)
    case (Cons s ss)
    have "in_step (t\<lparr>ht_sent_role := True\<rparr>) l keys" using Cons.prems by (simp add: in_step_def)
    from Cons.IH [OF this, of "said @ s"] Cons.IH [OF Cons.prems, of said] show ?case
      by (cases "s = []") (auto simp: text_step chunk_def)
  qed simp
  then show ?thesis by (auto simp: SoTexts)
next
  case (SoReasoning e)
  have "chat_event env [(''type'', JStr ''response.reasoning_summary_text.delta''), (''delta'', JStr e)] t = ([], t)"
    by (simp add: event_eval)
  then show ?thesis using assms(2) by (simp add: SoReasoning)
next
  case (SoCall k i n ps)
  have w: "plain_word k" "plain_word i" "plain_word n" "concat ps \<noteq> []" using assms(1) by (simp_all add: SoCall)
  have fresh: "map_of (ht_tools t) k = None" using assms(2,3) by (auto simp: SoCall in_step_def)
  let ?x = "\<lparr>hs_index = ht_next t, hs_id = i, hs_name = n, hs_saw_args = False, hs_finalized = False, hs_identity = True\<rparr>"
  let ?t = "t\<lparr>ht_tools := gm_put k ?x (ht_tools t), ht_next := ht_next t + 1, ht_saw_tool := True, ht_sent_role := True\<rparr>"
  let ?c = "\<lparr>cc_id = i, cc_name = n, cc_arguments = []\<rparr>"
  have out: "ht_next t \<notin> fst ` set l" using assms(2) by (auto simp: in_step_def)
  have x: "map_of (ht_tools ?t) k = Some ?x" "hs_id ?x \<noteq> []" "hs_name ?x \<noteq> []" "hs_identity ?x" "ht_sent_role ?t" "hs_index ?x \<notin> fst ` set l"
    using w out by (simp_all add: plain_word_def)
  let ?y = "?x\<lparr>hs_saw_args := True\<rparr>" let ?u = "?t\<lparr>ht_tools := gm_put k ?y (ht_tools ?t)\<rparr>"
  obtain qs where q: "chat_events env (map (piece_event k) ps) ?t = (qs, ?u)"
    "read_chunks qs (said, l @ [(ht_next t, ?c)], fin) = (said, l @ [(ht_next t, \<lparr>cc_id = i, cc_name = n, cc_arguments = concat ps\<rparr>)], fin)"
    using pieces_step [OF w(1) x, of env ps said ?c fin] w(4) by auto
  let ?z = "?y\<lparr>hs_finalized := True\<rparr>" let ?v = "?u\<lparr>ht_tools := gm_put k ?z (ht_tools ?u)\<rparr>"
  have y: "map_of (ht_tools ?u) k = Some ?y" "hs_id ?y \<noteq> []" "hs_name ?y \<noteq> []" using w by (simp_all add: plain_word_def)
  have "ensure_tool env [(''type'', JStr ''response.function_call_arguments.done''), (''item_id'', JStr k), (''arguments'', JStr (concat ps))] [] ?u =
      (k, ?y, ?u)"
    using known_tool(1) [OF w(1) y] by (simp add: as_string_def)
  then have d1: "chat_event env [(''type'', JStr ''response.function_call_arguments.done''), (''item_id'', JStr k), (''arguments'', JStr (concat ps))] ?u =
      ([], ?v)"
    by (simp add: event_eval tool_done_def)
  have z: "map_of (ht_tools ?v) k = Some ?z" "hs_id ?z \<noteq> []" "hs_name ?z \<noteq> []" using w by (simp_all add: plain_word_def)
  have "ensure_tool env [(''type'', JStr ''response.output_item.done''), (''item'', call_item_json k i n (concat ps))]
      [(''type'', JStr ''function_call''), (''id'', JStr k), (''call_id'', JStr i), (''name'', JStr n), (''arguments'', JStr (concat ps))] ?v = (k, ?z, ?v)"
    using known_tool(2) [OF w(1) z] by (simp add: as_string_def)
  then have d2: "chat_event env [(''type'', JStr ''response.output_item.done''), (''item'', call_item_json k i n (concat ps))] ?v = ([], ?v)"
    by (simp add: event_eval tool_done_def is_call_item_def call_item_json_def)
  let ?l = "l @ [(ht_next t, \<lparr>cc_id = i, cc_name = n, cc_arguments = concat ps\<rparr>)]"
  have "chat_events env (output_events u) t =
      (chunk t (\<not> ht_sent_role t) (CallDelta (ht_next t) (Some (i, n)) []) # qs, ?v)"
    by (simp only: SoCall output_events.simps chat_events.simps chat_events_append added_step [OF w(1-3) fresh] q(1) d1 d2 prod.case
        append_Nil append_Nil2 append_Cons)
  moreover have "read_chunks (chunk t (\<not> ht_sent_role t) (CallDelta (ht_next t) (Some (i, n)) []) # qs) (said, l, fin) = (said, ?l, fin)"
    using q(2) put_last(2) [OF out] by (simp add: chunk_def)
  moreover have "in_step ?v ?l (keys \<union> {k})" using assms(2) by (auto simp: in_step_def split: if_splits)
  ultimately show ?thesis by (intro exI conjI) (auto simp: SoCall)
qed

lemma outputs_step:
  assumes "list_all stream_ok us" "distinct (concat (map item_keys us))" "in_step t l keys" "set (concat (map item_keys us)) \<inter> keys = {}"
  shows "\<exists>ps t1 l1. chat_events env (concat (map output_events us)) t = (ps, t1) \<and>
    read_chunks ps (said, l, fin) = (said @ concat (map (output_text \<circ> whole_output) us), l1, fin) \<and>
    map snd l1 = map snd l @ concat (map (output_call \<circ> whole_output) us) \<and> \<not> ht_terminal t1 \<and> ht_saw_tool t1 = (l1 \<noteq> [])"
  using assms
proof (induction us arbitrary: t l keys said)
  case Nil
  then show ?case by (simp add: in_step_def)
next
  case (Cons u us)
  obtain ps t1 l1 where u: "chat_events env (output_events u) t = (ps, t1)"
    "read_chunks ps (said, l, fin) = (said @ output_text (whole_output u), l1, fin)"
    "map snd l1 = map snd l @ output_call (whole_output u)" "in_step t1 l1 (keys \<union> set (item_keys u))"
    using output_step [of u t l keys env said fin] Cons.prems by auto
  have rest: "list_all stream_ok us" "distinct (concat (map item_keys us))" using Cons.prems(1,2) by simp_all
  have "set (concat (map item_keys us)) \<inter> (keys \<union> set (item_keys u)) = {}" using Cons.prems(2,4) by auto
  then obtain qs t2 l2 where "chat_events env (concat (map output_events us)) t1 = (qs, t2)"
    "read_chunks qs (said @ output_text (whole_output u), l1, fin) =
      ((said @ output_text (whole_output u)) @ concat (map (output_text \<circ> whole_output) us), l2, fin)"
    "map snd l2 = map snd l1 @ concat (map (output_call \<circ> whole_output) us)" "\<not> ht_terminal t2" "ht_saw_tool t2 = (l2 \<noteq> [])"
    using Cons.IH [OF rest u(4), of "said @ output_text (whole_output u)"] by blast
  then show ?case using u by (simp add: chat_events_append comp_def)
qed

lemma pump_events:
  assumes "list_all2 (\<lambda>d e. oe_decode env d = Some (JObj e) \<and> trim_space d \<noteq> [] \<and> trim_space d \<noteq> ''[DONE]'') ds es"
  shows "chat_pump env (\<lambda>n. True) ds t (out, n) =
    (None, snd (chat_events env es t), out @ fst (chat_events env es t), n + length (fst (chat_events env es t)))"
  using assms
proof (induction ds es arbitrary: t out n rule: list_all2_induct)
  case (Cons d ds e es)
  have all: "write_chunks (\<lambda>n. True) ps (out, n) = (True, out @ ps, n + length ps)" for ps out n
    by (induction ps arbitrary: out n) simp_all
  show ?case
    using Cons by (simp add: chat_process_def all map_prod_def Let_def split: prod.split)
qed simp


text \<open>
  An incomplete answer with a call is where the two differ: the stream says \<open>length\<close>, the whole answer \<open>tool_calls\<close>.
\<close>

lemma incomplete_differs:
  assumes "json_get resp ''output'' = JArr [output_json (OutCall i n a)]" "as_string env (json_get resp ''status'') = ''incomplete''" "\<not> ht_terminal t"
  shows "snd (snd (extract_output env resp)) = ''tool_calls''"
    and "\<exists>k c m rest. fst (chat_event env [(''type'', JStr ''response.incomplete''), (''response'', JObj resp)] t) = FinishChunk k c m ''length'' # rest"
proof -
  have w: "to_lower (trim_space ''response.incomplete'') = ''response.incomplete''" by code_simp
  show "snd (snd (extract_output env resp)) = ''tool_calls''"
    using assms(1) by (simp add: extract_output_def lower_field_def as_string_def Let_def)
  show "\<exists>k c m rest. fst (chat_event env [(''type'', JStr ''response.incomplete''), (''response'', JObj resp)] t) = FinishChunk k c m ''length'' # rest"
    using assms(3) by (simp add: chat_event_def lower_field_def as_string_def w finish_chat_def Let_def)
qed

section \<open>Requests\<close>

text \<open>The limit of a body: the current one (\<open>MaxBodyFunc\<close>), else the configured one, else 20 MiB; 0 is no limit.\<close>

definition max_body :: "int option \<Rightarrow> int \<Rightarrow> int" where
  "max_body current configured =
     (case current of
        Some n \<Rightarrow> if n < 0 then 0 else n
      | None \<Rightarrow> if configured > 0 then configured else 20971520)"

datatype request_error = RqTooLarge | RqRead | RqInvalid openai_error

text \<open>\<open>failure\<close>: the reader of the body fails after these bytes, with \<open>True\<close> for a \<open>MaxBytesError\<close>.\<close>

definition read_body :: "int \<Rightarrow> bool option \<Rightarrow> string \<Rightarrow> request_error + string" where
  "read_body mx failure raw =
     (if mx > 0 \<and> int (length raw) > mx then Inl RqTooLarge
      else case failure of Some too_large \<Rightarrow> Inl (if too_large then RqTooLarge else RqRead) | None \<Rightarrow> Inr raw)"

definition conv_headers :: "string list" where
  "conv_headers = [''X-Grok-Conv-Id'', ''x-grok-conv-id'', ''X-Session-Id'', ''x-session-id'', ''X-Client-Request-Id'']"

definition conv_id_from_request :: "(string \<Rightarrow> string) \<Rightarrow> string \<Rightarrow> string" where
  "conv_id_from_request header body_conv =
     (if first_non_empty (map header conv_headers) \<noteq> [] then first_non_empty (map header conv_headers) else trim_space body_conv)"

definition extract_body_conv_id :: "openai_env \<Rightarrow> string \<Rightarrow> string" where
  "extract_body_conv_id env raw =
     (case object_or_null (oe_decode env raw) of
        None \<Rightarrow> []
      | Some m \<Rightarrow>
          (case (entry_text m ''prompt_cache_key'', entry_text m ''user'') of
             (Some k, Some u) \<Rightarrow> if trim_space k \<noteq> [] then trim_space k else trim_space u
           | _ \<Rightarrow> []))"

record post_call =
  pc_model :: string
  pc_conv :: string
  pc_body :: "(string, json) gomap"
  pc_stream :: bool

text \<open>What the two handlers post upstream, or the error they answer with.\<close>

definition responses_call :: "openai_env \<Rightarrow> int \<Rightarrow> bool option \<Rightarrow> (string \<Rightarrow> string) \<Rightarrow> string \<Rightarrow> request_error + post_call" where
  "responses_call env mx failure header raw0 =
     (case read_body mx failure raw0 of
        Inl e \<Rightarrow> Inl e
      | Inr raw \<Rightarrow>
          (case sanitize_responses env raw (conv_id_from_request header (extract_body_conv_id env raw)) of
             Inl e \<Rightarrow> Inl (RqInvalid e)
           | Inr r \<Rightarrow> Inr \<lparr>pc_model = sz_model r, pc_conv = sz_conv_id r, pc_body = sz_body r, pc_stream = sz_stream r\<rparr>))"

definition chat_call :: "openai_env \<Rightarrow> int \<Rightarrow> bool option \<Rightarrow> (string \<Rightarrow> string) \<Rightarrow> string \<Rightarrow> request_error + post_call" where
  "chat_call env mx failure header raw0 =
     (case read_body mx failure raw0 of
        Inl e \<Rightarrow> Inl e
      | Inr raw \<Rightarrow>
          (case chat_to_responses env raw of
             Inl e \<Rightarrow> Inl (RqInvalid e)
           | Inr body \<Rightarrow>
               let hint = conv_id_from_request header (extract_body_conv_id env raw) in
               (case sanitize_object env hint body of
                  Inl e \<Rightarrow> Inl (RqInvalid e)
                | Inr r \<Rightarrow> Inr \<lparr>pc_model = sz_model r, pc_conv = (if sz_conv_id r = [] then hint else sz_conv_id r), pc_body = sz_body r,
                             pc_stream = sz_stream r\<rparr>)))"

definition status_to_type :: "int \<Rightarrow> string" where
  "status_to_type status =
     (if status \<in> {401, 403, 404, 400, 413} then ''invalid_request_error''
      else if status = 429 then ''rate_limit_error''
      else if status \<ge> 500 then ''server_error'' else ''invalid_request_error'')"

text \<open>The body of an error: message, type, code and parameter, or bytes of the upstream as they are.\<close>

datatype error_body = Envelope string string "string option" "string option" | Verbatim string

definition entry_pointer :: "(string \<times> json) list \<Rightarrow> string \<Rightarrow> string option option" where
  "entry_pointer ms k = (case json_get ms k of JNull \<Rightarrow> Some None | JStr s \<Rightarrow> Some (Some s) | _ \<Rightarrow> None)"

definition decode_error_detail :: "json \<Rightarrow> (string \<times> string \<times> string option \<times> string option) option" where
  "decode_error_detail v =
     (case object_or_null (Some v) of
        None \<Rightarrow> None
      | Some m \<Rightarrow>
          (case (entry_text m ''message'', entry_text m ''type'', entry_pointer m ''code'', entry_pointer m ''param'') of
             (Some s, Some ty, Some c, Some q) \<Rightarrow> Some (s, ty, c, q)
           | _ \<Rightarrow> None))"

definition write_error :: "int \<Rightarrow> string \<Rightarrow> string \<Rightarrow> string \<Rightarrow> int \<times> error_body" where
  "write_error status message ty code =
     (status, Envelope message (if trim_space ty = [] then status_to_type status else ty) (if trim_space code \<noteq> [] then Some code else None) None)"

definition map_upstream_error :: "openai_env \<Rightarrow> (int \<Rightarrow> string) \<Rightarrow> int \<Rightarrow> string \<Rightarrow> int \<times> error_body" where
  "map_upstream_error env status_text status0 raw =
     (let status = (if status0 < 400 then 502 else status0);
          m = (if raw = [] then None else object_or_null (oe_decode env raw)) in
      case (case m of None \<Rightarrow> None | Some m \<Rightarrow> map_of m ''error'') of
        Some v \<Rightarrow>
          (case decode_error_detail v of
             Some (s, ty, c, q) \<Rightarrow>
               if trim_space s \<noteq> [] then (status, Envelope s (if ty = [] then status_to_type status else ty) c q) else (status, Verbatim raw)
           | None \<Rightarrow> (status, Verbatim raw))
      | None \<Rightarrow>
          let msg = trim_space raw; msg = (if msg = [] then status_text status else msg) in
          write_error status (take 2000 msg) (status_to_type status) [])"

lemma session_default:
  assumes "sanitize_object env conv obj = Inr r" "sz_conv_id r = []"
  shows "trim_space conv = []"
proof -
  obtain c d where "step_cache env conv c = Inr (d, [])"
    using assms by (auto simp: sanitize_object_def Let_def split: sum.splits)
  then show ?thesis by (auto simp: step_cache_def Let_def split: if_splits)
qed

lemma read_body_raw: "read_body mx failure raw = Inr raw' \<Longrightarrow> raw' = raw"
  by (auto simp: read_body_def split: if_splits option.splits)

lemma posted_call:
  assumes "responses_call env mx failure header raw = Inr call \<or> chat_call env mx failure header raw = Inr call"
  defines "hint \<equiv> conv_id_from_request header (extract_body_conv_id env raw)"
  shows "\<exists>obj r. sanitize_object env hint obj = Inr r \<and> read_body mx failure raw = Inr raw \<and>
    pc_model call = sz_model r \<and> pc_body call = sz_body r \<and> pc_conv call = (if sz_conv_id r = [] then hint else sz_conv_id r)"
  using assms(1)
proof
  assume c: "responses_call env mx failure header raw = Inr call"
  then have body: "read_body mx failure raw = Inr raw"
    using read_body_raw [of mx failure raw] by (cases "read_body mx failure raw") (auto simp: responses_call_def)
  obtain r where r: "sanitize_responses env raw hint = Inr r"
    using c by (cases "sanitize_responses env raw hint") (auto simp: responses_call_def body hint_def)
  obtain obj where obj: "sanitize_object env hint obj = Inr r" using r by (auto simp: sanitize_responses_def split: sum.splits)
  then have none: "sz_conv_id r = [] \<Longrightarrow> hint = []"
    using session_default [of env hint obj r] first_non_empty_trimmed(1) [of "map header conv_headers"]
    by (simp add: hint_def conv_id_from_request_def trim_space_idem split: if_splits)
  have "call = \<lparr>pc_model = sz_model r, pc_conv = sz_conv_id r, pc_body = sz_body r, pc_stream = sz_stream r\<rparr>"
    using c r by (simp add: responses_call_def body hint_def)
  then show ?thesis using obj body none by (intro exI [of _ obj] exI [of _ r]) simp
next
  assume c: "chat_call env mx failure header raw = Inr call"
  then have body: "read_body mx failure raw = Inr raw"
    using read_body_raw [of mx failure raw] by (cases "read_body mx failure raw") (auto simp: chat_call_def)
  obtain obj where obj: "chat_to_responses env raw = Inr obj"
    using c by (cases "chat_to_responses env raw") (auto simp: chat_call_def body)
  obtain r where r: "sanitize_object env hint obj = Inr r"
    using c by (cases "sanitize_object env hint obj") (auto simp: chat_call_def body obj hint_def Let_def)
  then have "call = \<lparr>pc_model = sz_model r, pc_conv = (if sz_conv_id r = [] then hint else sz_conv_id r), pc_body = sz_body r, pc_stream = sz_stream r\<rparr>"
    using c r by (auto simp: chat_call_def body obj hint_def Let_def)
  then show ?thesis using r body by (intro exI [of _ obj] exI [of _ r]) simp
qed



section \<open>Samples\<close>

definition sample_stream_outputs :: "stream_output list" where
  "sample_stream_outputs = [SoReasoning ''hm'', SoTexts [''he'', ''llo''], SoCall ''fc1'' ''c1'' ''f'' [''{'', ''}'']]"

definition sample_response :: "(string, json) gomap" where
  "sample_response = [(''id'', JStr ''resp_1''), (''output'', JArr (map (output_json \<circ> whole_output) sample_stream_outputs))]"

definition sample_chat_events :: "(string, json) gomap list" where
  "sample_chat_events =
     concat (map output_events sample_stream_outputs) @ [[(''type'', JStr ''response.completed''), (''response'', JObj sample_response)]]"

text \<open>The payloads are numbered; the decoder looks the event up.\<close>

definition sample_chat_env :: openai_env where
  "sample_chat_env =
     \<lparr>oe_decode = (\<lambda>s. case atoi s of None \<Rightarrow> None | Some n \<Rightarrow> if nat n < length sample_chat_events then Some (JObj (sample_chat_events ! nat n)) else None),
      oe_marshal = (\<lambda>v. ''{}''), oe_number = id, oe_int = (\<lambda>n. 0), oe_zero = (\<lambda>n. False), oe_now = 7\<rparr>"

definition sample_payloads :: "string list" where
  "sample_payloads = map nat_digits [0..<length sample_chat_events]"

definition sample_pumped :: "chat_stream_error option \<times> chat_translator \<times> chat_payload list \<times> nat" where
  "sample_pumped = chat_pump sample_chat_env (\<lambda>n. True) sample_payloads (new_chat_translator sample_chat_env True) ([], 0)"

lemma sample_decoded:
  "list_all2 (\<lambda>d e. oe_decode sample_chat_env d = Some (JObj e) \<and> trim_space d \<noteq> [] \<and> trim_space d \<noteq> ''[DONE]'')
     sample_payloads (concat (map output_events sample_stream_outputs) @ [[(''type'', JStr ''response.completed''), (''response'', JObj sample_response)]])"
  by code_simp

lemma sample_read:
  "read_chunks (fst (snd (snd sample_pumped))) ([], [], None) =
     (''hello'', [(0, \<lparr>cc_id = ''c1'', cc_name = ''f'', cc_arguments = ''{}''\<rparr>)], Some ''tool_calls'')"
  by code_simp


theorem chat_stream_protocol_witness:
  "\<exists>p\<in>set (fst (handle_chat_stream sample_chat_env (\<lambda>e. []) (\<lambda>n. True) False ''data: 0'' False)). closes p"
  using chat_stream_protocol [of sample_chat_env "\<lambda>e. []" "\<lambda>n. True" False "''data: 0''" False] by simp

definition sample_post_call :: post_call where
  "sample_post_call =
     \<lparr>pc_model = sz_model sample_sanitized, pc_conv = sz_conv_id sample_sanitized, pc_body = sz_body sample_sanitized,
      pc_stream = sz_stream sample_sanitized\<rparr>"



end
