(* ===== verification/Spec2Isabelle.thy ===== *)
theory Spec2Isabelle
  imports Prelude Contracts Catalog Hot Sticky Selector Lease LeaseProps ClusterState Worker Clients Refresh Executor ExecutorProps ProxyPool Outbound Json Middleware Fleet Stream StreamProps AuthImport Paths BulkImport Jobs Messages OpenAI ChatStream
begin

text \<open>
  The account pool of grokbuild2api. The program is a gateway: clients call the OpenAI or the Anthropic
  interface with a key of the gateway; the gateway chooses one of many upstream accounts, sends the request with the
  account's OAuth token through the account's proxy, translates the answer and keeps the books of keys and accounts. This
  development models that core, operation by operation, and proves what it promises. File names below are under
  \<open>src/internal/\<close>; a definition has the name of its Go function in lower case with underscores, and the
  manifest of the repository maps each one to its lines.

  \<^bold>\<open>The parts and how they meet.\<close> A request passes \<open>Middleware\<close> (who is it, may it enter, what does it cost),
  is translated by \<open>OpenAI\<close> or \<open>Messages\<close>, and is posted by \<open>Executor\<close>, which asks a lease manager (\<open>Lease\<close>, or
  \<open>Worker\<close> in a fleet) for an account. The lease manager asks the \<open>Selector\<close> over the \<open>Hot\<close> index, reads the secrets from
  the \<open>Catalog\<close>, binds a proxy of the \<open>ProxyPool\<close>, and on release writes health, cooldown and quarantine back. \<open>Refresh\<close> renews
  tokens under the catalog's compare-and-swap. \<open>Outbound\<close> has the HTTP clients and the headers; \<open>Stream\<close> turns the
  upstream's events into those of an Anthropic client. In a fleet \<open>ClusterState\<close> is what the processes share, and \<open>Fleet\<close> shards the
  accounts among them. \<open>AuthImport\<close>, \<open>BulkImport\<close> and \<open>Jobs\<close> bring accounts in.

  \<^bold>\<open>Theories, code and state.\<close>
  \<^item> \<open>Prelude\<close>: Go maps as association lists in an unspecified order of iteration, package \<open>strings\<close> on bytes,
    64-bit wrap-around (\<open>wrap64\<close>), decimal digits; \<open>Contracts\<close>: the interfaces, as locales (below); \<open>Json\<close>: decoded JSON, usage of a
    response (\<open>clients/usage*.go\<close>); \<open>Paths\<close>: package \<open>path/filepath\<close>, lexically.
  \<^item> \<open>Catalog\<close> (\<open>catalog/\<close>): the table of accounts and the model cooldowns as a record of maps, every write with its
    validation, revision and timestamps.
  \<^item> \<open>Hot\<close> (\<open>hot/index.go\<close>): the map of hot accounts, the dense list of ids and the positions, as three fields, with the random
    sampling; \<open>Sticky\<close>, \<open>Selector\<close> (\<open>selector/\<close>): the LRU of sticky bindings with its reverse index, both strategies.
  \<^item> \<open>Lease\<close>, \<open>LeaseProps\<close> (\<open>lease/\<close>): acquire with failover, release with cooldowns.
  \<^item> \<open>ClusterState\<close> (\<open>clusterstate/\<close>, the in-memory implementation), \<open>Worker\<close> (\<open>worker/leaser.go\<close>, \<open>store/\<close>), \<open>Fleet\<close>
    (\<open>controlplane/service.go\<close>, \<open>worker/service.go\<close>).
  \<^item> \<open>Clients\<close> (\<open>clients/\<close>): keys, quota, rate window, slots; \<open>Middleware\<close> (\<open>httpserver/middleware.go\<close>).
  \<^item> \<open>Refresh\<close> (\<open>refresh/\<close>, \<open>refresher/\<close>), \<open>Executor\<close>, \<open>ExecutorProps\<close> (\<open>protocol/executor/\<close>), \<open>ProxyPool\<close> (\<open>proxypool/\<close>),
    \<open>Outbound\<close> (\<open>outbound/\<close>, \<open>protocol/upstream/\<close>).
  \<^item> \<open>Stream\<close>, \<open>StreamProps\<close> (\<open>protocol/anthropic/stream.go\<close>, \<open>thinking_stream.go\<close>), \<open>Messages\<close>
    (\<open>translate_req.go\<close>, \<open>translate_resp.go\<close>, \<open>thinking.go\<close>), \<open>OpenAI\<close> (\<open>protocol/openai/sanitize.go\<close>, \<open>chat.go\<close>),
    \<open>ChatStream\<close> (\<open>chat_stream.go\<close>, \<open>errors.go\<close> and the requests and the pump of \<open>handlers.go\<close>, \<open>responses.go\<close>).
  \<^item> \<open>AuthImport\<close> (\<open>authimport/parse.go\<close>), \<open>BulkImport\<close> (\<open>bulkimport/import.go\<close> and the readers of \<open>ssoimport/\<close>), \<open>Jobs\<close>
    (\<open>importjobs/jobs.go\<close>).

  State is passed explicitly; an error is a value of a sum or an option; what the code reads from outside (clock, random source, the
  answer of a server, whether a context is cancelled at a checkpoint, what another goroutine wrote in between) is an
  argument. An operation under a mutex is one step; where the code releases the lock between reads and writes, the other
  writers are an argument or steps of a relation (\<open>job_step\<close>, the event lists of \<open>Lease\<close>, \<open>Worker\<close>, \<open>Clients\<close>, \<open>Middleware\<close>).

  \<^bold>\<open>Interfaces.\<close> \<open>inflight_gate\<close> is what a holder of slots relies on and \<open>capped_gate\<close> adds the limit; both are interpreted on the hot
  index, the lease manager, the shared state, the worker, the slots of keys and the global limiter, and give the theorems on balance
  over interleavings. \<open>post_client\<close> extends it for the executor, interpreted on the manager and on the worker. \<open>lease_lock\<close>
  (shards), \<open>cas_store\<close> (tokens) and \<open>bulk_writer\<close> (imports) are interpreted on the shared state and the catalog.

  \<^bold>\<open>What the lemmas show.\<close>
  \<^item> Invariants over every reachable state: catalog, hot index, sticky LRU, key table, proxy pool, job table; balance of slots, leases and
    quota over interleavings, panics and cancelled contexts included.
  \<^item> The exact effect of the operations: compare-and-swap of tokens, failed releases, refreshes, settlement of a request, claims of shards,
    imports against one single write.
  \<^item> Selection: only usable accounts, and one whenever there is one. Isolation: egress per account, disjoint hot sets, path confinement.
  \<^item> Protocols: the stream refines the automaton of Anthropic streams; a chat stream keeps its client's protocol and says what the whole
    answer says; a turn of either interface survives the way to the client and back; what is posted is clean, and cleaning it twice
    changes nothing.

  \<^bold>\<open>Termination and bounds.\<close> Loops are structural or have a measure (\<open>acquire_loop\<close>, \<open>post_loop\<close>: attempts left; \<open>evict\<close>: entries;
  \<open>trim_locked\<close>: listed jobs). The loop of \<open>Resize\<close> is a \<open>partial_function\<close> and \<open>resize_returns\<close> shows that it returns on the
  invariant. There is no fuel. Sums of 64 and 32 bits that can overflow are wrapped; the hash of shards and the random
  draws are words. Counters that the code bounds are \<open>int\<close>.

  \<^bold>\<open>What is assumed.\<close> Lower case is ASCII (the code compares with ASCII constants; \<open>EqualFold\<close> folds two more letters). A decoded JSON object has distinct names, and
  fields of a struct are read by their exact name, where \<open>encoding/json\<close> also matches other cases; the entry count of \<open>AuthImport\<close> models
  those. The decoder, \<open>json.Marshal\<close>, SHA-256, base64, URL parsing and the text of a float are parameters, and a raw message is
  the marshalled value. A call of the database or of the
  file system succeeds or fails as a whole.

  \<^bold>\<open>Not modelled.\<close> Redis and PostgreSQL stores (scripts and SQL that run in a server), migrations, the console's listing and export,
  logging and metrics; the HTTP clients of the identity provider and of the SSO converter, device flow and synthetic accounts; the
  copying of headers and bytes by the handlers and the Anthropic handler; \<open>gateway/\<close>, \<open>admin/\<close>, \<open>adminui/\<close>, \<open>config/\<close>, \<open>app/\<close> and \<open>cmd/\<close>: routing, forms, flags and
  wiring around the modelled parts.
\<close>

end
